(* ===== verification/Prelude.thy ===== *)
theory Prelude
  imports Main "HOL-Library.Word"
begin

unbundle bit_operations_syntax

text \<open>
  The shared ground of the development: the C integer types as words, the byte-addressed
  memory, how a multi-byte integer is read and written in it (x86-64 is little-endian), the
  outcome of a kernel routine, and the generic lemmas on words, ranges and lists that the
  component theories use. Nothing here models a particular file of the kernel.
\<close>

section \<open>Types\<close>

type_synonym u8 = "8 word"
type_synonym u16 = "16 word"
type_synonym u32 = "32 word"
type_synonym u64 = "64 word"

text \<open>Memory as the kernel addresses it: a byte for every 64-bit virtual address.\<close>

type_synonym memory = "u64 \<Rightarrow> u8"

text \<open>
  What a call of a kernel routine ends in. \<open>Panic\<close> and \<open>FiPanic\<close> carry the arguments of the
  call of \<open>panic\<close> or \<open>fi_panic\<close> that took over; \<open>Stopped\<close> is the halt loop of \<open>cpu_stop\<close>;
  \<open>NoReturn\<close> is a loop of the routine itself that never ends.
\<close>

datatype 'a outcome =
    Ret 'a
  | Panic string u16
  | FiPanic string
  | Stopped
  | NoReturn

type_synonym ('s, 'a) routine = "'s \<Rightarrow> 'a outcome \<times> 's"

definition return :: "'a \<Rightarrow> ('s, 'a) routine" where
  "return x s = (Ret x, s)"

definition bind :: "('s, 'a) routine \<Rightarrow> ('a \<Rightarrow> ('s, 'b) routine) \<Rightarrow> ('s, 'b) routine" where
  "bind f g s =
     (case f s of
        (Ret x, s') \<Rightarrow> g x s'
      | (Panic msg code, s') \<Rightarrow> (Panic msg code, s')
      | (FiPanic msg, s') \<Rightarrow> (FiPanic msg, s')
      | (Stopped, s') \<Rightarrow> (Stopped, s')
      | (NoReturn, s') \<Rightarrow> (NoReturn, s'))"

definition seq :: "('s, 'a) routine \<Rightarrow> ('s, 'b) routine \<Rightarrow> ('s, 'b) routine" where
  "seq f g = bind f (\<lambda>_. g)"

definition modify :: "('s \<Rightarrow> 's) \<Rightarrow> ('s, unit) routine" where
  "modify f s = (Ret (), f s)"

definition gets :: "('s \<Rightarrow> 'a) \<Rightarrow> ('s, 'a) routine" where
  "gets f s = (Ret (f s), s)"

definition stop_with :: "'a outcome \<Rightarrow> ('s, 'a) routine" where
  "stop_with r s = (r, s)"

primrec for_each :: "('x \<Rightarrow> ('s, unit) routine) \<Rightarrow> 'x list \<Rightarrow> ('s, unit) routine" where
  "for_each f [] = return ()"
| "for_each f (x # xs) = seq (f x) (for_each f xs)"

text \<open>Integers in memory: \<open>n\<close> bytes from address \<open>a\<close>, least significant first.\<close>

primrec load_le :: "memory \<Rightarrow> u64 \<Rightarrow> nat \<Rightarrow> nat" where
  "load_le m a 0 = 0"
| "load_le m a (Suc n) = unat (m a) + 256 * load_le m (a + 1) n"

primrec store_le :: "memory \<Rightarrow> u64 \<Rightarrow> nat \<Rightarrow> nat \<Rightarrow> memory" where
  "store_le m a 0 v = m"
| "store_le m a (Suc n) v = (store_le m (a + 1) n (v div 256))(a := of_nat v)"

definition load8 :: "memory \<Rightarrow> u64 \<Rightarrow> u8" where
  "load8 m a = m a"

definition load16 :: "memory \<Rightarrow> u64 \<Rightarrow> u16" where
  "load16 m a = of_nat (load_le m a 2)"

definition load32 :: "memory \<Rightarrow> u64 \<Rightarrow> u32" where
  "load32 m a = of_nat (load_le m a 4)"

definition load64 :: "memory \<Rightarrow> u64 \<Rightarrow> u64" where
  "load64 m a = of_nat (load_le m a 8)"

definition store8 :: "memory \<Rightarrow> u64 \<Rightarrow> u8 \<Rightarrow> memory" where
  "store8 m a v = m(a := v)"

definition store16 :: "memory \<Rightarrow> u64 \<Rightarrow> u16 \<Rightarrow> memory" where
  "store16 m a v = store_le m a 2 (unat v)"

definition store32 :: "memory \<Rightarrow> u64 \<Rightarrow> u32 \<Rightarrow> memory" where
  "store32 m a v = store_le m a 4 (unat v)"

definition store64 :: "memory \<Rightarrow> u64 \<Rightarrow> u64 \<Rightarrow> memory" where
  "store64 m a v = store_le m a 8 (unat v)"

text \<open>\<open>in_range a n x\<close>: the address \<open>x\<close> is one of the \<open>n\<close> bytes from \<open>a\<close>.\<close>

definition in_range :: "u64 \<Rightarrow> nat \<Rightarrow> u64 \<Rightarrow> bool" where
  "in_range a n x \<longleftrightarrow> unat (x - a) < n"

definition aligned :: "nat \<Rightarrow> u64 \<Rightarrow> bool" where
  "aligned k a \<longleftrightarrow> k dvd unat a"

named_theorems routine_simps \<open>unfolding of the routine combinators\<close>
named_theorems range_simps \<open>facts about address ranges\<close>

section \<open>Routines\<close>

declare return_def [routine_simps] seq_def [routine_simps] modify_def [routine_simps]
  gets_def [routine_simps] stop_with_def [routine_simps]

lemma bind_Ret [routine_simps]: "f s = (Ret x, s') \<Longrightarrow> bind f g s = g x s'"
  by (simp add: bind_def)

lemma bind_stopped [routine_simps]:
  "f s = (Panic msg code, s') \<Longrightarrow> bind f g s = (Panic msg code, s')"
  "f s = (FiPanic msg, s') \<Longrightarrow> bind f g s = (FiPanic msg, s')"
  "f s = (Stopped, s') \<Longrightarrow> bind f g s = (Stopped, s')"
  "f s = (NoReturn, s') \<Longrightarrow> bind f g s = (NoReturn, s')"
  by (simp_all add: bind_def)

lemma bind_return_cases:
  assumes "bind f g s = (Ret y, s'')"
  obtains x s' where "f s = (Ret x, s')" and "g x s' = (Ret y, s'')"
  using assms by (auto simp: bind_def split: prod.splits outcome.splits)

lemma bind_assoc: "bind (bind f g) h = bind f (\<lambda>x. bind (g x) h)"
  by (rule ext) (auto simp: bind_def split: prod.splits outcome.splits)

lemma bind_return_left [simp]: "bind (return x) g = g x"
  by (rule ext) (simp add: bind_def return_def)

lemma for_each_append: "for_each f (xs @ ys) = seq (for_each f xs) (for_each f ys)"
  by (induction xs) (simp_all add: seq_def bind_assoc)

section \<open>Words and ranges\<close>

lemma unat_lt2p: "unat (x :: 'a::len word) < 2 ^ LENGTH('a)"
  by (rule unsigned_less)

lemma unat_of_nat64: "n < 2 ^ 64 \<Longrightarrow> unat (of_nat n :: u64) = n"
  by (simp add: unat_of_nat take_bit_eq_mod)

lemma in_range_0 [simp]: "\<not> in_range a 0 x"
  by (simp add: in_range_def)

lemma in_range_self [simp]: "in_range a n a \<longleftrightarrow> 0 < n"
  by (simp add: in_range_def)

lemma in_range_offset [range_simps]:
  "i < 2 ^ 64 \<Longrightarrow> in_range a n (a + of_nat i) \<longleftrightarrow> i < n"
  by (simp add: in_range_def unat_of_nat64)

lemma in_rangeE:
  assumes "in_range a n x"
  obtains i where "i < n" and "i < 2 ^ 64" and "x = a + of_nat i"
proof (rule that [of "unat (x - a)"])
  show "unat (x - a) < n" using assms by (simp add: in_range_def)
  show "unat (x - a) < 2 ^ 64" using unat_lt2p [of "x - a"] by simp
  show "x = a + of_nat (unat (x - a))" by simp
qed

lemma unat_minus_1: "x \<noteq> 0 \<Longrightarrow> unat (x - 1 :: u64) = unat x - 1"
  by (simp add: unat_minus_one)

lemma in_range_Suc:
  "n < 2 ^ 64 \<Longrightarrow> in_range a (Suc n) x \<longleftrightarrow> x = a \<or> in_range (a + 1) n x"
proof -
  assume n: "n < 2 ^ 64"
  have eq: "x - (a + 1) = (x - a) - 1" by simp
  show ?thesis
  proof (cases "x = a")
    case True
    then show ?thesis by simp
  next
    case False
    then have "x - a \<noteq> 0" by simp
    then have "unat (x - (a + 1)) = unat (x - a) - 1" and "0 < unat (x - a)"
      unfolding eq by (simp add: unat_minus_1, simp add: unat_gt_0)
    with False show ?thesis by (simp add: in_range_def) arith
  qed
qed

lemma in_range_insert_last:
  "n < 2 ^ 64 \<Longrightarrow> in_range a (Suc n) x \<longleftrightarrow> in_range a n x \<or> x = a + of_nat n"
proof -
  assume n: "n < 2 ^ 64"
  have "unat (x - a) = n \<longleftrightarrow> x = a + of_nat n"
  proof
    assume "unat (x - a) = n"
    then have "of_nat n = x - a" by auto
    then show "x = a + of_nat n" by simp
  next
    assume "x = a + of_nat n"
    with n show "unat (x - a) = n" by (simp add: unat_of_nat64)
  qed
  then show ?thesis by (auto simp: in_range_def less_Suc_eq)
qed

lemma not_in_range_next: "n < 2 ^ 64 \<Longrightarrow> \<not> in_range (a + 1) n a"
proof -
  assume "n < 2 ^ 64"
  have "a - (a + 1) = (-1 :: u64)" by simp
  then have "unat (a - (a + 1)) = 2 ^ 64 - 1"
    by (simp only: unsigned_minus_1_eq_mask) (simp add: mask_eq_exp_minus_1)
  with \<open>n < 2 ^ 64\<close> show ?thesis by (simp add: in_range_def)
qed

lemma unat_aligned_offset:
  assumes "aligned k a" and "k dvd 2 ^ 64" and "i < k"
  shows "unat (a + of_nat i) = unat a + i"
proof -
  from assms(1,2) obtain q r where q: "unat a = k * q" and r: "2 ^ 64 = k * r"
    by (auto simp: aligned_def dvd_def)
  have "k * q < k * r"
    using unat_lt2p [of a] q r by simp
  then have "k * (q + 1) \<le> k * r" by (metis Suc_eq_plus1 Suc_leI mult_le_mono2 mult_less_cancel1)
  then have lt: "unat a + i < 2 ^ 64" using assms(3) q r by simp
  then have "i < 2 ^ 64" by simp
  with lt show ?thesis
    by (subst unat_word_ariths(1)) (simp add: unat_of_nat64)
qed

lemma aligned_blocks_disjoint:
  assumes "aligned k a" "aligned k b" and "k dvd 2 ^ 64"
    and "in_range a k x" "in_range b k x"
  shows "a = b"
proof -
  have k: "unat x div k = unat c div k \<and> unat c = k * (unat c div k)"
    if "aligned k c" "in_range c k x" for c
  proof -
    from that(2) obtain i where i: "i < k" "x = c + of_nat i" by (rule in_rangeE)
    have "unat x = unat c + i"
      using unat_aligned_offset [OF that(1) assms(3) i(1)] i(2) by simp
    with i(1) that(1) show ?thesis by (auto simp: aligned_def dvd_def)
  qed
  from k [OF assms(1,4)] k [OF assms(2,5)] have "unat a = unat b" by metis
  then show ?thesis by (simp add: word_unat_eq_iff)
qed

lemma aligned_add: "aligned k a \<Longrightarrow> aligned k b \<Longrightarrow> k dvd 2 ^ 64 \<Longrightarrow> aligned k (a + b)"
  by (simp add: aligned_def unat_word_ariths dvd_mod)

lemma aligned_mult: "k dvd 2 ^ 64 \<Longrightarrow> aligned k b \<Longrightarrow> aligned k (a * b)"
  by (simp add: aligned_def unat_word_ariths dvd_mod)

lemma aligned_dvd: "aligned k a \<Longrightarrow> j dvd k \<Longrightarrow> aligned j a"
  by (auto simp: aligned_def intro: dvd_trans)

lemma and_page_mask: "(x :: u64) AND 0xFFF = take_bit 12 x"
proof -
  have "(0xFFF :: u64) = mask 12" by (simp add: mask_eq_exp_minus_1)
  then show ?thesis by (simp only: take_bit_eq_mask)
qed

lemma unat_page_offset: "unat ((x :: u64) AND 0xFFF) = unat x mod 4096"
  by (simp add: and_page_mask take_bit_eq_mod unat_mod)

lemma aligned_page_iff: "aligned 4096 x \<longleftrightarrow> x AND 0xFFF = 0"
proof -
  have "unat (take_bit 12 x) = unat x mod 4096"
    by (simp add: take_bit_eq_mod unat_mod)
  then show ?thesis
    by (simp add: and_page_mask aligned_def dvd_eq_mod_eq_0 unat_eq_zero [symmetric])
qed

section \<open>Integers in memory\<close>

lemma store_le_apply:
  "n \<le> 2 ^ 64 \<Longrightarrow> store_le m a n v x =
     (if in_range a n x then of_nat (v div 256 ^ unat (x - a)) else m x)"
proof (induction n arbitrary: a v)
  case 0
  then show ?case by simp
next
  case (Suc n)
  then have n: "n < 2 ^ 64" by simp
  have IH: "store_le m (a + 1) n (v div 256) x =
      (if in_range (a + 1) n x then of_nat (v div 256 div 256 ^ unat (x - (a + 1))) else m x)"
    using Suc by simp
  show ?case
  proof (cases "x = a")
    case True
    then show ?thesis by simp
  next
    case False
    then have nz: "x - a \<noteq> 0" by simp
    have "x - (a + 1) = (x - a) - 1" by simp
    moreover have "0 < unat (x - a)" using nz by (simp add: unat_gt_0)
    ultimately have u: "unat (x - a) = Suc (unat (x - (a + 1)))"
      using unat_minus_1 [OF nz] by (simp only:)
    have "v div 256 div 256 ^ unat (x - (a + 1)) = v div 256 ^ unat (x - a)"
      unfolding u by (simp add: div_mult2_eq)
    with False IH n show ?thesis by (simp add: in_range_Suc)
  qed
qed

lemma load_le_cong:
  "n \<le> 2 ^ 64 \<Longrightarrow> (\<And>x. in_range a n x \<Longrightarrow> m x = m' x) \<Longrightarrow> load_le m a n = load_le m' a n"
proof (induction n arbitrary: a)
  case 0
  then show ?case by simp
next
  case (Suc n)
  then have n: "n < 2 ^ 64" by simp
  have "load_le m (a + 1) n = load_le m' (a + 1) n"
    using Suc n by (simp add: in_range_Suc)
  moreover have "m a = m' a" using Suc.prems(2) by simp
  ultimately show ?case by simp
qed

lemma load_le_bound: "load_le m a n < 256 ^ n"
proof (induction n arbitrary: a)
  case 0
  then show ?case by simp
next
  case (Suc n)
  have "unat (m a) < 256" using unat_lt2p [of "m a"] by simp
  moreover have "load_le m (a + 1) n + 1 \<le> 256 ^ n" using Suc [of "a + 1"] by simp
  ultimately show ?case by (simp add: algebra_simps)
qed

lemma load_store_le_same:
  "n \<le> 2 ^ 64 \<Longrightarrow> v < 256 ^ n \<Longrightarrow> load_le (store_le m a n v) a n = v"
proof (induction n arbitrary: a v)
  case 0
  then show ?case by simp
next
  case (Suc n)
  then have n: "n < 2 ^ 64" by simp
  have "load_le ((store_le m (a + 1) n (v div 256))(a := of_nat v)) (a + 1) n =
        load_le (store_le m (a + 1) n (v div 256)) (a + 1) n"
    using n not_in_range_next [OF n, of a] by (intro load_le_cong) auto
  also have "\<dots> = v div 256"
    using Suc by (simp add: less_mult_imp_div_less mult.commute)
  finally have rest: "load_le ((store_le m (a + 1) n (v div 256))(a := of_nat v)) (a + 1) n = v div 256" .
  have "unat (of_nat v :: u8) = v mod 256" by (simp add: unat_of_nat take_bit_eq_mod)
  with rest show ?case by (simp add: fun_upd_def)
qed

lemma load_store_le_other:
  assumes "n \<le> 2 ^ 64" "k \<le> 2 ^ 64" and "\<And>x. in_range b k x \<Longrightarrow> \<not> in_range a n x"
  shows "load_le (store_le m a n v) b k = load_le m b k"
  using assms by (intro load_le_cong) (auto simp: store_le_apply)

lemma load64_store64_same [simp]: "load64 (store64 m a v) a = v"
  using unat_lt2p [of v]
  by (simp add: load64_def store64_def load_store_le_same del: store_le.simps load_le.simps)

lemma load32_store32_same [simp]: "load32 (store32 m a v) a = v"
  using unat_lt2p [of v]
  by (simp add: load32_def store32_def load_store_le_same del: store_le.simps load_le.simps)

lemma load16_store16_same [simp]: "load16 (store16 m a v) a = v"
  using unat_lt2p [of v]
  by (simp add: load16_def store16_def load_store_le_same del: store_le.simps load_le.simps)

lemma store64_outside: "\<not> in_range a 8 x \<Longrightarrow> store64 m a v x = m x"
  by (simp add: store64_def store_le_apply del: store_le.simps)

lemma load64_cong: "(\<And>x. in_range a 8 x \<Longrightarrow> m x = m' x) \<Longrightarrow> load64 m a = load64 m' a"
  unfolding load64_def by (subst load_le_cong [of 8 a m m']) auto

lemma load64_store64_other:
  assumes "aligned 8 a" "aligned 8 b" "a \<noteq> b"
  shows "load64 (store64 m a v) b = load64 m b"
  using aligned_blocks_disjoint [of 8 a b] assms
  by (intro load64_cong store64_outside) auto

text \<open>The loads byte by byte, for evaluating them in a concrete memory.\<close>

lemma load16_bytes: "load16 m a = of_nat (unat (m a) + 256 * unat (m (a + 1)))"
proof -
  have "load_le m a (Suc (Suc 0)) = unat (m a) + 256 * unat (m (a + 1))" by simp
  then show ?thesis by (simp add: load16_def numeral_2_eq_2)
qed

lemma load32_bytes:
  "load32 m a = of_nat (unat (m a) + 256 * (unat (m (a + 1)) + 256 * (unat (m (a + 2)) + 256 * unat (m (a + 3)))))"
proof -
  have "load_le m a (Suc (Suc (Suc (Suc 0)))) =
     unat (m a) + 256 * (unat (m (a + 1)) + 256 * (unat (m (a + 2)) + 256 * unat (m (a + 3))))"
    by (simp add: add.assoc)
  moreover have "(4 :: nat) = Suc (Suc (Suc (Suc 0)))" by simp
  ultimately show ?thesis by (simp only: load32_def)
qed

lemma load_zero [simp]: "load16 (\<lambda>_. 0) a = 0" "load32 (\<lambda>_. 0) a = 0"
  by (simp_all add: load16_bytes load32_bytes)

end
