(* ===== verification/CString.thy ===== *)
theory CString
  imports Prelude
begin

text \<open>
  The kernel's freestanding string library, \<^verbatim>\<open>src/kernel/include/dej/string.c\<close>, over the
  byte memory of the prelude. Each function takes the memory and its pointer arguments and
  gives the returned value; the ones that write return the new memory too. A \<open>for\<close> loop over
  \<open>i = 0 .. num - 1\<close> is a \<open>fold\<close> over the indices; a loop that runs to a terminating byte may
  never find one (or may overwrite it), so it is a partial function whose \<open>None\<close> means that
  the loop does not end. The lemmas give the block operations in closed form (what every byte
  of memory is afterwards), the string operations on null-terminated strings (\<open>cstr\<close>), and
  that \<open>strncpy\<close> does not return for a source shorter than its bound.
\<close>

section \<open>Block operations\<close>

definition memcpy :: "u64 \<Rightarrow> u64 \<Rightarrow> u64 \<Rightarrow> memory \<Rightarrow> u64 \<times> memory" where
  "memcpy dst src num m =
     (dst, fold (\<lambda>i m. m(dst + of_nat i := m (src + of_nat i))) [0..<unat num] m)"

definition memset :: "u64 \<Rightarrow> u32 \<Rightarrow> u64 \<Rightarrow> memory \<Rightarrow> u64 \<times> memory" where
  "memset ptr val num m =
     (ptr, fold (\<lambda>i m. m(ptr + of_nat i := ucast val)) [0..<unat num] m)"

primrec memcmp_loop :: "memory \<Rightarrow> u64 \<Rightarrow> u64 \<Rightarrow> nat \<Rightarrow> nat \<Rightarrow> int" where
  "memcmp_loop m p q i 0 = 0"
| "memcmp_loop m p q i (Suc k) =
     (if m (p + of_nat i) \<noteq> m (q + of_nat i) then 1 else memcmp_loop m p q (Suc i) k)"

definition memcmp :: "memory \<Rightarrow> u64 \<Rightarrow> u64 \<Rightarrow> u64 \<Rightarrow> int" where
  "memcmp m ptr1 ptr2 num = memcmp_loop m ptr1 ptr2 0 (unat num)"

definition memmove :: "u64 \<Rightarrow> u64 \<Rightarrow> u64 \<Rightarrow> memory \<Rightarrow> u64 \<times> memory" where
  "memmove dest src n m =
     (dest,
      if dest < src then
        fold (\<lambda>i m. m(dest + of_nat i := m (src + of_nat i))) [0..<unat n] m
      else if src < dest then
        fold (\<lambda>i m. m(dest + of_nat (i - 1) := m (src + of_nat (i - 1)))) (rev [1..<Suc (unat n)]) m
      else m)"

section \<open>String operations\<close>

text \<open>\<open>while ((*dst++ = *src++))\<close>, the copy loop of \<open>stpcpy\<close>, \<open>strcpy\<close> and \<open>strcat\<close>:
  the value of \<open>dst\<close> after the loop and the memory.\<close>

partial_function (option) copy_loop :: "u64 \<Rightarrow> u64 \<Rightarrow> memory \<Rightarrow> (u64 \<times> memory) option" where
  "copy_loop dst src m =
     (let c = m src; m' = m(dst := c)
      in if c \<noteq> 0 then copy_loop (dst + 1) (src + 1) m' else Some (dst + 1, m'))"

definition stpcpy :: "u64 \<Rightarrow> u64 \<Rightarrow> memory \<Rightarrow> (u64 \<times> memory) option" where
  "stpcpy dst src m = copy_loop dst src m"

definition strcpy :: "u64 \<Rightarrow> u64 \<Rightarrow> memory \<Rightarrow> (u64 \<times> memory) option" where
  "strcpy dst src m = map_option (\<lambda>(_, m'). (dst, m')) (copy_loop dst src m)"

text \<open>The pointer is an \<open>option\<close>: \<open>None\<close> inside the result is the null pointer.\<close>

partial_function (option) strchr :: "memory \<Rightarrow> u64 \<Rightarrow> u32 \<Rightarrow> u64 option option" where
  "strchr m s c =
     (if m s = ucast c then Some (Some s)
      else if m s = 0 then Some None
      else strchr m (s + 1) c)"

partial_function (option) strrchr_loop ::
  "memory \<Rightarrow> u64 option \<Rightarrow> u64 \<Rightarrow> u32 \<Rightarrow> u64 option option" where
  "strrchr_loop m save p c =
     (let save' = (if m p = ucast c then Some p else save)
      in if m p = 0 then Some save' else strrchr_loop m save' (p + 1) c)"

definition strrchr :: "memory \<Rightarrow> u64 \<Rightarrow> u32 \<Rightarrow> u64 option option" where
  "strrchr m p c = strrchr_loop m None p c"

text \<open>The four loops of \<open>strncpy\<close>, in the order of the source. The first one writes before it
  tests \<open>i < size\<close>; the second one does not change \<open>i\<close>.\<close>

partial_function (option) strncpy_loop1 ::
  "u64 \<Rightarrow> u64 \<Rightarrow> u64 \<Rightarrow> u64 \<Rightarrow> memory \<Rightarrow> (u64 \<times> u64 \<times> u64 \<times> memory) option" where
  "strncpy_loop1 sz i dst src m =
     (let c = m src; m' = m(dst := c)
      in if c \<noteq> 0 \<and> i < sz then strncpy_loop1 sz (i + 1) (dst + 1) (src + 1) m'
         else Some (i, dst + 1, src + 1, m'))"

partial_function (option) strncpy_loop2 ::
  "u64 \<Rightarrow> u64 \<Rightarrow> u64 \<Rightarrow> memory \<Rightarrow> (u64 \<times> memory) option" where
  "strncpy_loop2 sz i dst m =
     (if i < sz then strncpy_loop2 sz i (dst + 1) (m(dst := 0)) else Some (dst, m))"

partial_function (option) strncpy_loop3 ::
  "u64 \<Rightarrow> u64 \<Rightarrow> u64 \<Rightarrow> memory \<Rightarrow> (u64 \<times> u64 \<times> memory) option" where
  "strncpy_loop3 sz dst src m =
     (if sz = 0 then Some (sz, dst, m)
      else let c = m src; m' = m(dst := c)
           in if c \<noteq> 0 then strncpy_loop3 (sz - 1) (dst + 1) (src + 1) m'
              else Some (sz, dst + 1, m'))"

partial_function (option) strncpy_loop4 :: "u64 \<Rightarrow> u64 \<Rightarrow> memory \<Rightarrow> memory option" where
  "strncpy_loop4 sz dst m =
     (if sz \<noteq> 0 then strncpy_loop4 (sz - 1) (dst + 1) (m(dst := 0)) else Some m)"

definition strncpy :: "u64 \<Rightarrow> u64 \<Rightarrow> u64 \<Rightarrow> memory \<Rightarrow> (u64 \<times> memory) option" where
  "strncpy dst src sz m =
     Option.bind (strncpy_loop1 sz 0 dst src m) (\<lambda>(i, d1, s1, m1).
     Option.bind (strncpy_loop2 sz i d1 m1) (\<lambda>(d2, m2).
     Option.bind (strncpy_loop3 sz d2 s1 m2) (\<lambda>(sz3, d3, m3).
     Option.bind (strncpy_loop4 sz3 d3 m3) (\<lambda>m4. Some (dst, m4)))))"

partial_function (option) strcmp :: "memory \<Rightarrow> u64 \<Rightarrow> u64 \<Rightarrow> int option" where
  "strcmp m s1 s2 =
     (if m s1 \<noteq> 0 \<and> m s1 = m s2 then strcmp m (s1 + 1) (s2 + 1)
      else Some (uint (m s1) - uint (m s2)))"

primrec strncmp_loop :: "memory \<Rightarrow> u64 \<Rightarrow> u64 \<Rightarrow> nat \<Rightarrow> int" where
  "strncmp_loop m s1 s2 0 = 0"
| "strncmp_loop m s1 s2 (Suc k) =
     (if m s1 \<noteq> m s2 then uint (m s1) - uint (m s2)
      else if m s1 = 0 then 0
      else strncmp_loop m (s1 + 1) (s2 + 1) k)"

definition strncmp :: "memory \<Rightarrow> u64 \<Rightarrow> u64 \<Rightarrow> u64 \<Rightarrow> int" where
  "strncmp m s1 s2 sz = strncmp_loop m s1 s2 (unat sz)"

partial_function (option) strend :: "memory \<Rightarrow> u64 \<Rightarrow> u64 option" where
  "strend m dst = (if m dst \<noteq> 0 then strend m (dst + 1) else Some dst)"

definition strcat :: "u64 \<Rightarrow> u64 \<Rightarrow> memory \<Rightarrow> (u64 \<times> memory) option" where
  "strcat dst src m =
     Option.bind (strend m dst) (\<lambda>d.
       map_option (\<lambda>(_, m'). (dst, m')) (copy_loop d src m))"

partial_function (option) strlen_loop :: "memory \<Rightarrow> u64 \<Rightarrow> u64 \<Rightarrow> u64 option" where
  "strlen_loop m src ret =
     (if m src \<noteq> 0 then strlen_loop m (src + 1) (ret + 1) else Some ret)"

definition strlen :: "memory \<Rightarrow> u64 \<Rightarrow> u64 option" where
  "strlen m src = strlen_loop m src 0"

primrec strnlen_loop :: "memory \<Rightarrow> u64 \<Rightarrow> nat \<Rightarrow> nat \<Rightarrow> nat" where
  "strnlen_loop m src ret 0 = ret"
| "strnlen_loop m src ret (Suc k) =
     (if m (src + of_nat ret) \<noteq> 0 then strnlen_loop m src (Suc ret) k else ret)"

definition strnlen :: "memory \<Rightarrow> u64 \<Rightarrow> u64 \<Rightarrow> u64" where
  "strnlen m src sz = of_nat (strnlen_loop m src 0 (unat sz))"

section \<open>Specification vocabulary\<close>

text \<open>The string at \<open>p\<close>: the bytes \<open>s\<close>, none of them zero, and then a zero byte.\<close>

primrec cstr :: "memory \<Rightarrow> u64 \<Rightarrow> u8 list \<Rightarrow> bool" where
  "cstr m p [] \<longleftrightarrow> m p = 0"
| "cstr m p (c # cs) \<longleftrightarrow> m p = c \<and> c \<noteq> 0 \<and> cstr m (p + 1) cs"

text \<open>The order of two strings as bytes: the difference at the first place they differ.\<close>

fun byte_diff :: "u8 list \<Rightarrow> u8 list \<Rightarrow> int" where
  "byte_diff [] [] = 0"
| "byte_diff [] (d # ds) = - uint d"
| "byte_diff (c # cs) [] = uint c"
| "byte_diff (c # cs) (d # ds) = (if c = d then byte_diff cs ds else uint c - uint d)"

section \<open>Block operations in closed form\<close>

lemma copy_fold_forward:
  assumes "n \<le> 2 ^ 64" and "\<And>i. i < n \<Longrightarrow> \<not> in_range dst i (src + of_nat i)"
  shows "fold (\<lambda>i m. m(dst + of_nat i := m (src + of_nat i))) [0..<n] m =
     (\<lambda>x. if in_range dst n x then m (src + (x - dst)) else m x)"
  using assms
proof (induction n)
  case 0
  then show ?case by simp
next
  case (Suc n)
  have n: "n < 2 ^ 64" using Suc.prems(1) by simp
  have IH: "fold (\<lambda>i m. m(dst + of_nat i := m (src + of_nat i))) [0..<n] m =
     (\<lambda>x. if in_range dst n x then m (src + (x - dst)) else m x)"
    using Suc.prems by (intro Suc.IH) auto
  have src: "\<not> in_range dst n (src + of_nat n)" using Suc.prems(2) by simp
  show ?case
  proof (rule ext)
    fix x
    note in_range_insert_last [OF n, of dst x]
    moreover have "x = dst + of_nat n \<Longrightarrow> \<not> in_range dst n x"
      using n by (simp add: in_range_offset)
    ultimately show "fold (\<lambda>i m. m(dst + of_nat i := m (src + of_nat i))) [0..<Suc n] m x =
        (if in_range dst (Suc n) x then m (src + (x - dst)) else m x)"
      using src by (auto simp: IH)
  qed
qed

lemma fill_fold:
  "n \<le> 2 ^ 64 \<Longrightarrow> fold (\<lambda>i m. m(ptr + of_nat i := v)) [0..<n] m =
     (\<lambda>x. if in_range ptr n x then v else m x)"
  by (induction n) (auto simp: in_range_insert_last)

lemma memset_apply: "snd (memset ptr val num m) x =
    (if in_range ptr (unat num) x then ucast val else m x)"
  using unat_lt2p [of num] by (simp add: memset_def fill_fold)

lemma memcpy_apply:
  assumes "\<And>i. i < unat num \<Longrightarrow> \<not> in_range dst i (src + of_nat i)"
  shows "snd (memcpy dst src num m) x =
     (if in_range dst (unat num) x then m (src + (x - dst)) else m x)"
  using unat_lt2p [of num] assms by (simp add: memcpy_def copy_fold_forward)

lemma copy_fold_backward:
  assumes "n \<le> 2 ^ 64" and "\<And>i j. i < j \<Longrightarrow> j < n \<Longrightarrow> src + of_nat i \<noteq> dst + of_nat j"
  shows "fold (\<lambda>i m. m(dst + of_nat i := m (src + of_nat i))) (rev [0..<n]) m =
     (\<lambda>x. if in_range dst n x then m (src + (x - dst)) else m x)"
  using assms
proof (induction n arbitrary: m)
  case 0
  then show ?case by simp
next
  case (Suc n)
  let ?m = "m(dst + of_nat n := m (src + of_nat n))"
  have n: "n < 2 ^ 64" using Suc.prems(1) by simp
  have IH: "fold (\<lambda>i m. m(dst + of_nat i := m (src + of_nat i))) (rev [0..<n]) ?m =
     (\<lambda>x. if in_range dst n x then ?m (src + (x - dst)) else ?m x)"
    using Suc.prems by (intro Suc.IH) auto
  have keep: "?m (src + (x - dst)) = m (src + (x - dst))" if "in_range dst n x" for x
  proof -
    from that obtain i where "i < n" "x = dst + of_nat i" by (rule in_rangeE)
    with Suc.prems(2) [of i n] show ?thesis by simp
  qed
  have last: "\<not> in_range dst n (dst + of_nat n)" using n by (simp add: in_range_offset)
  show ?case
  proof (rule ext)
    fix x
    show "fold (\<lambda>i m. m(dst + of_nat i := m (src + of_nat i))) (rev [0..<Suc n]) m x =
        (if in_range dst (Suc n) x then m (src + (x - dst)) else m x)"
      using keep [of x] last in_range_insert_last [OF n, of dst x] by (auto simp: IH)
  qed
qed

lemma backward_indices:
  "fold (\<lambda>i m. f (i - 1) m) (rev [1..<Suc n]) m = fold f (rev [0..<n]) m"
proof -
  have "rev [1..<Suc n] = map Suc (rev [0..<n])"
    by (simp only: rev_map [symmetric] map_Suc_upt One_nat_def)
  then show ?thesis by (simp only: fold_map) (simp add: comp_def)
qed

lemma unat_add_no_wrap: "unat (a :: u64) + i < 2 ^ 64 \<Longrightarrow> unat (a + of_nat i) = unat a + i"
  by (subst unat_word_ariths(1)) (simp add: unat_of_nat64)

text \<open>Property C25: \<open>memmove\<close> copies the \<open>n\<close> bytes from \<open>src\<close> to \<open>dest\<close> and changes nothing else,
  however the two blocks overlap, as long as neither runs past the end of the address space.\<close>

theorem memmove_correct:
  assumes "unat src + unat n \<le> 2 ^ 64" and "unat dest + unat n \<le> 2 ^ 64"
  shows "memmove dest src n m =
     (dest, \<lambda>x. if in_range dest (unat n) x then m (src + (x - dest)) else m x)"
proof -
  consider (fwd) "dest < src" | (bwd) "src < dest" | (same) "src = dest"
    by fastforce
  then show ?thesis
  proof cases
    case fwd
    have "\<not> in_range dest i (src + of_nat i)" if "i < unat n" for i
    proof
      assume "in_range dest i (src + of_nat i)"
      then obtain j where j: "j < i" "src + of_nat i = dest + of_nat j" by (rule in_rangeE)
      have "unat (src + of_nat i) = unat src + i" "unat (dest + of_nat j) = unat dest + j"
        using assms that j(1) by (simp_all add: unat_add_no_wrap)
      with j fwd show False by (simp add: word_less_nat_alt)
    qed
    then show ?thesis
      using fwd unat_lt2p [of n] by (simp add: memmove_def copy_fold_forward)
  next
    case bwd
    have "src + of_nat i \<noteq> dest + of_nat j" if "i < j" "j < unat n" for i j
    proof
      assume eq: "src + of_nat i = dest + of_nat j"
      have "unat (src + of_nat i) = unat src + i" "unat (dest + of_nat j) = unat dest + j"
        using assms that by (simp_all add: unat_add_no_wrap)
      with eq bwd that show False by (simp add: word_less_nat_alt)
    qed
    then have "fold (\<lambda>i m. m(dest + of_nat i := m (src + of_nat i))) (rev [0..<unat n]) m =
       (\<lambda>x. if in_range dest (unat n) x then m (src + (x - dest)) else m x)"
      using unat_lt2p [of n] by (intro copy_fold_backward) auto
    moreover have "\<not> dest < src" using bwd by simp
    ultimately show ?thesis
      using bwd backward_indices [of "\<lambda>i m. m(dest + of_nat i := m (src + of_nat i))" "unat n" m]
      by (simp only: memmove_def if_True if_False)
  next
    case same
    then show ?thesis by (simp add: memmove_def fun_eq_iff)
  qed
qed

theorem memmove_correct_witness:
  "memmove 101 100 3 (\<lambda>x. ucast x) =
     (101, \<lambda>x. if in_range 101 3 x then ucast (100 + (x - 101)) else ucast x)"
  using memmove_correct [of 100 3 101 "\<lambda>x. ucast x"] by simp

section \<open>String operations on null-terminated strings\<close>

lemma cstr_end: "cstr m p s \<Longrightarrow> m (p + of_nat (length s)) = 0"
  by (induction s arbitrary: p) (simp_all add: add.assoc [symmetric])

lemma strlen_loop_cstr: "cstr m p s \<Longrightarrow> strlen_loop m p r = Some (r + of_nat (length s))"
  by (induction s arbitrary: p r) (simp_all add: strlen_loop.simps)

lemma strlen_cstr: "cstr m p s \<Longrightarrow> strlen m p = Some (of_nat (length s))"
  by (simp add: strlen_def strlen_loop_cstr)

lemma strend_cstr: "cstr m p s \<Longrightarrow> strend m p = Some (p + of_nat (length s))"
  by (induction s arbitrary: p) (simp_all add: strend.simps add.assoc)

lemma strcmp_cstr: "cstr m p s \<Longrightarrow> cstr m q t \<Longrightarrow> strcmp m p q = Some (byte_diff s t)"
proof (induction s t arbitrary: p q rule: byte_diff.induct)
  case 1
  then show ?case by (simp add: strcmp.simps)
next
  case 2
  then show ?case by (simp add: strcmp.simps)
next
  case 3
  then show ?case by (simp add: strcmp.simps)
next
  case (4 c cs d ds)
  then show ?case by (subst strcmp.simps) auto
qed

lemma strncmp_loop_cstr:
  "cstr m p s \<Longrightarrow> cstr m q t \<Longrightarrow> strncmp_loop m p q k = byte_diff (take k s) (take k t)"
proof (induction k arbitrary: p q s t)
  case 0
  then show ?case by simp
next
  case (Suc k)
  then show ?case by (cases s; cases t) auto
qed

lemma byte_diff_0: "0 \<notin> set s \<Longrightarrow> 0 \<notin> set t \<Longrightarrow> byte_diff s t = 0 \<longleftrightarrow> s = t"
  by (induction s t rule: byte_diff.induct) (auto simp: uint_0_iff dest: word_uint_eq_iff [THEN iffD2])

lemma cstr_no_zero: "cstr m p s \<Longrightarrow> 0 \<notin> set s"
  by (induction s arbitrary: p) auto

lemma byte_diff_neg: "0 \<notin> set s \<Longrightarrow> 0 \<notin> set t \<Longrightarrow>
    byte_diff s t < 0 \<longleftrightarrow> (s, t) \<in> lexord {(a, b). a < b}"
proof (induction s t rule: byte_diff.induct)
  case (2 d ds)
  then have "0 < d" by (auto simp: word_gt_0)
  then have "0 < uint d" by (simp only: word_less_def unsigned_0)
  then show ?case by simp
next
  case (4 c cs d ds)
  then show ?case by (auto simp: word_less_def)
qed (auto simp: not_less)

text \<open>Theorem: on two null-terminated strings \<open>strcmp\<close> returns, its result is zero exactly for
  equal strings and negative exactly when the first string comes first in the byte order.\<close>

theorem strcmp_orders:
  assumes "cstr m p s" and "cstr m q t"
  shows "\<exists>r. strcmp m p q = Some r \<and> (r = 0 \<longleftrightarrow> s = t) \<and>
             (r < 0 \<longleftrightarrow> (s, t) \<in> lexord {(a, b). a < b})"
  using strcmp_cstr [OF assms] byte_diff_0 [of s t] byte_diff_neg [of s t]
    cstr_no_zero [OF assms(1)] cstr_no_zero [OF assms(2)] by simp

theorem strcmp_orders_witness:
  "\<exists>r. strcmp ((\<lambda>_. 0)(10 := 65, 20 := 66)) 10 20 = Some r \<and> (r = 0 \<longleftrightarrow> [65 :: u8] = [66]) \<and>
       (r < 0 \<longleftrightarrow> ([65 :: u8], [66]) \<in> lexord {(a, b). a < b})"
  by (rule strcmp_orders) simp_all

lemma strnlen_loop_cstr:
  "cstr m (p + of_nat r) s \<Longrightarrow> strnlen_loop m p r k = r + min k (length s)"
proof (induction k arbitrary: r s)
  case 0
  then show ?case by simp
next
  case (Suc k)
  then show ?case by (cases s) (auto simp: algebra_simps)
qed

lemma strnlen_cstr: "cstr m p s \<Longrightarrow> strnlen m p n = of_nat (min (unat n) (length s))"
  using strnlen_loop_cstr [of m p 0 s] by (simp add: strnlen_def)

lemma cstr_cong:
  "(\<And>i. i \<le> length s \<Longrightarrow> m (p + of_nat i) = m' (p + of_nat i)) \<Longrightarrow> cstr m p s = cstr m' p s"
proof (induction s arbitrary: p)
  case Nil
  then show ?case using Nil [of 0] by simp
next
  case (Cons c cs)
  have "cstr m (p + 1) cs = cstr m' (p + 1) cs"
  proof (rule Cons.IH)
    fix i assume "i \<le> length cs"
    then show "m (p + 1 + of_nat i) = m' (p + 1 + of_nat i)"
      using Cons.prems [of "Suc i"] by (simp add: add.assoc)
  qed
  with Cons.prems [of 0] show ?case by auto
qed

text \<open>Two blocks of \<open>n\<close> bytes that share no address.\<close>

definition disjoint_blocks :: "u64 \<Rightarrow> u64 \<Rightarrow> nat \<Rightarrow> bool" where
  "disjoint_blocks a b n \<longleftrightarrow> (\<forall>i < n. \<forall>j < n. a + of_nat i \<noteq> b + of_nat j)"

lemma disjoint_blocks_step:
  assumes "disjoint_blocks a b (Suc n)"
  shows "disjoint_blocks (a + 1) (b + 1) n" and "i \<le> n \<Longrightarrow> a + of_nat i \<noteq> b"
proof -
  have "a + 1 + of_nat i \<noteq> b + 1 + of_nat j" if "i < n" "j < n" for i j
    using assms that unfolding disjoint_blocks_def
    by (auto dest!: spec [of _ "Suc i"] spec [of _ "Suc j"] simp: algebra_simps)
  then show "disjoint_blocks (a + 1) (b + 1) n" by (simp add: disjoint_blocks_def)
  show "a + of_nat i \<noteq> b" if "i \<le> n"
  proof -
    have "\<forall>j < Suc n. a + of_nat i \<noteq> b + of_nat j"
      using assms that by (simp add: disjoint_blocks_def)
    from this [rule_format, of 0] show ?thesis by simp
  qed
qed

lemma cstr_after_write:
  assumes "cstr m (p + 1) cs" and "disjoint_blocks p q (Suc (Suc (length cs)))"
  shows "cstr (m(q := c)) (p + 1) cs"
proof -
  have "cstr (m(q := c)) (p + 1) cs = cstr m (p + 1) cs"
  proof (rule cstr_cong)
    fix i assume "i \<le> length cs"
    then show "(m(q := c)) (p + 1 + of_nat i) = m (p + 1 + of_nat i)"
      using disjoint_blocks_step(2) [OF assms(2), of "Suc i"] by (simp add: add.assoc)
  qed
  with assms(1) show ?thesis by simp
qed

lemma copied_step:
  assumes "disjoint_blocks src dst (Suc (Suc n))" and "Suc n < 2 ^ 64" and "m src = c"
  shows "(if in_range (dst + 1) (Suc n) x then (m(dst := c)) (src + 1 + (x - (dst + 1)))
          else (m(dst := c)) x) =
         (if in_range dst (Suc (Suc n)) x then m (src + (x - dst)) else m x)"
proof -
  note range = in_range_Suc [OF assms(2), of dst x]
  have "src + (x - dst) \<noteq> dst" if "in_range dst (Suc (Suc n)) x"
  proof -
    from that obtain i where "i < Suc (Suc n)" "x = dst + of_nat i" by (rule in_rangeE)
    then show ?thesis using disjoint_blocks_step(2) [OF assms(1), of i] by simp
  qed
  then show ?thesis
    using range not_in_range_next [OF assms(2), of dst] assms(3) by (auto simp: algebra_simps)
qed

lemma copy_loop_cstr:
  assumes "cstr m src s" "length s < 2 ^ 64" "disjoint_blocks src dst (Suc (length s))"
  shows "copy_loop dst src m = Some (dst + of_nat (Suc (length s)),
     \<lambda>x. if in_range dst (Suc (length s)) x then m (src + (x - dst)) else m x)"
  using assms
proof (induction s arbitrary: m src dst)
  case Nil
  then show ?case
    by (subst copy_loop.simps) (auto simp: fun_eq_iff in_range_Suc)
next
  case (Cons c cs)
  let ?m = "m(dst := c)"
  have "copy_loop (dst + 1) (src + 1) ?m = Some (dst + 1 + of_nat (Suc (length cs)),
     \<lambda>x. if in_range (dst + 1) (Suc (length cs)) x then ?m (src + 1 + (x - (dst + 1))) else ?m x)"
  proof (rule Cons.IH)
    show "cstr ?m (src + 1) cs" using Cons.prems by (intro cstr_after_write) simp_all
    show "length cs < 2 ^ 64" using Cons.prems(2) by simp
    show "disjoint_blocks (src + 1) (dst + 1) (Suc (length cs))"
      using Cons.prems(3) disjoint_blocks_step(1) by simp
  qed
  then show ?case
    using Cons.prems copied_step [of src dst "length cs" m c]
    by (subst copy_loop.simps) (simp add: Let_def algebra_simps)
qed

lemma cstr_copied:
  assumes "cstr m src s" "length s < 2 ^ 64"
  shows "cstr (\<lambda>x. if in_range dst (Suc (length s)) x then m (src + (x - dst)) else m x) dst s"
proof -
  have "cstr m src s \<Longrightarrow> (\<And>i. i \<le> length s \<Longrightarrow> m' (dst + of_nat i) = m (src + of_nat i)) \<Longrightarrow>
      cstr m' dst s" for m' s
  proof (induction s arbitrary: src dst)
    case Nil
    then show ?case using Nil(2) [of 0] by simp
  next
    case (Cons c cs)
    have "cstr m' (dst + 1) cs"
    proof (rule Cons.IH)
      show "cstr m (src + 1) cs" using Cons.prems by simp
      show "m' (dst + 1 + of_nat i) = m (src + 1 + of_nat i)" if "i \<le> length cs" for i
        using Cons.prems(2) [of "Suc i"] that by (simp add: add.assoc)
    qed
    with Cons.prems(1) Cons.prems(2) [of 0] show ?case by simp
  qed
  from this [OF assms(1)] assms(2) show ?thesis by (simp add: in_range_offset)
qed

text \<open>Theorem: \<open>strcpy\<close> from a null-terminated string to a block that does not overlap it returns
  \<open>dst\<close>, leaves the same string there and changes no byte outside the destination.\<close>

theorem strcpy_correct:
  assumes "cstr m src s" "length s < 2 ^ 64" "disjoint_blocks src dst (Suc (length s))"
  shows "\<exists>m'. strcpy dst src m = Some (dst, m') \<and> cstr m' dst s \<and>
           (\<forall>x. in_range dst (Suc (length s)) x \<or> m' x = m x)"
  using copy_loop_cstr [OF assms] cstr_copied [OF assms(1,2), of dst] by (simp add: strcpy_def)

theorem strcpy_correct_witness:
  "\<exists>m'. strcpy 200 100 ((\<lambda>_. 0)(100 := 65)) = Some (200, m') \<and> cstr m' 200 [65] \<and>
     (\<forall>x. in_range 200 (Suc (Suc 0)) x \<or> m' x = ((\<lambda>_. 0)(100 := 65)) x)"
proof -
  have "disjoint_blocks 100 200 (Suc (length [65 :: u8]))"
    by (auto simp: disjoint_blocks_def less_Suc_eq)
  with strcpy_correct [of "(\<lambda>_. 0)(100 := 65)" 100 "[65]" 200] show ?thesis
    by simp
qed

lemma strcat_cstr:
  assumes "cstr m dst t" "cstr m src s" "length s < 2 ^ 64"
    and "disjoint_blocks src (dst + of_nat (length t)) (Suc (length s))"
  shows "strcat dst src m = Some (dst, \<lambda>x.
     if in_range (dst + of_nat (length t)) (Suc (length s)) x
     then m (src + (x - (dst + of_nat (length t)))) else m x)"
  using copy_loop_cstr [OF assms(2-4)] strend_cstr [OF assms(1)] by (simp add: strcat_def)

text \<open>Theorem: \<open>stpcpy\<close> returns the address one past the terminating zero byte it has written,
  not the address of that byte.\<close>

theorem stpcpy_one_past_terminator:
  assumes "cstr m src s" "length s < 2 ^ 64" "disjoint_blocks src dst (Suc (length s))"
  shows "\<exists>m'. stpcpy dst src m = Some (dst + of_nat (length s) + 1, m') \<and>
           m' (dst + of_nat (length s)) = 0 \<and> cstr m' dst s"
proof -
  from assms(1) have "m (src + of_nat (length s)) = 0" by (rule cstr_end)
  then show ?thesis
    using copy_loop_cstr [OF assms] cstr_copied [OF assms(1,2), of dst] assms(2)
    by (auto simp: stpcpy_def in_range_offset algebra_simps)
qed

theorem stpcpy_one_past_terminator_witness:
  "\<exists>m'. stpcpy 200 100 ((\<lambda>_. 0)(100 := 65)) = Some (202, m') \<and> m' 201 = 0 \<and> cstr m' 200 [65]"
proof -
  have "disjoint_blocks 100 200 (Suc (length [65 :: u8]))"
    by (auto simp: disjoint_blocks_def less_Suc_eq)
  with stpcpy_one_past_terminator [of "(\<lambda>_. 0)(100 := 65)" 100 "[65]" 200] show ?thesis
    by simp
qed

section \<open>strncpy\<close>

lemma strncpy_loop2_diverges: "i < sz \<Longrightarrow> strncpy_loop2 sz i dst m = None"
proof (rule ccontr)
  assume less: "i < sz" and "strncpy_loop2 sz i dst m \<noteq> None"
  then obtain r where ret: "strncpy_loop2 sz i dst m = Some r" by auto
  have "\<not> i < sz"
    by (rule strncpy_loop2.raw_induct [where P = "\<lambda>sz i dst m r. \<not> i < sz", OF _ ret])
      (auto split: if_splits)
  with less show False by simp
qed

lemma strncpy_loop1_short:
  assumes "cstr m src s" "unat i + length s < unat sz" "disjoint_blocks src dst (Suc (length s))"
  shows "\<exists>d s' m'. strncpy_loop1 sz i dst src m = Some (i + of_nat (length s), d, s', m')"
  using assms
proof (induction s arbitrary: m src dst i)
  case Nil
  then show ?case by (subst strncpy_loop1.simps) simp
next
  case (Cons c cs)
  have lt: "i < sz" using Cons.prems(2) by (simp add: word_less_nat_alt)
  have "unat (i + 1) = unat i + 1"
    using Cons.prems(2) unat_lt2p [of sz] unat_add_no_wrap [of i 1] by simp
  then have "\<exists>d s' m'. strncpy_loop1 sz (i + 1) (dst + 1) (src + 1) (m(dst := c)) =
      Some (i + 1 + of_nat (length cs), d, s', m')"
    using Cons.prems disjoint_blocks_step(1) [of src dst "Suc (length cs)"]
    by (intro Cons.IH cstr_after_write) simp_all
  with lt Cons.prems(1) show ?case
    by (subst strncpy_loop1.simps) (simp add: Let_def algebra_simps)
qed

text \<open>Theorem: \<open>strncpy\<close> never returns when the source string is shorter than the bound: its
  padding loop does not advance the index it tests.\<close>

theorem strncpy_diverges:
  assumes "cstr m src s" "length s < unat sz" "disjoint_blocks src dst (Suc (length s))"
  shows "strncpy dst src sz m = None"
proof -
  obtain d s' m' where loop1: "strncpy_loop1 sz 0 dst src m = Some (of_nat (length s), d, s', m')"
    using strncpy_loop1_short [of m src s 0 sz dst] assms by auto
  have "of_nat (length s) < sz"
    using assms(2) unat_lt2p [of sz] by (simp add: word_less_nat_alt unat_of_nat64)
  with loop1 show ?thesis by (simp add: strncpy_def strncpy_loop2_diverges)
qed

theorem strncpy_diverges_witness: "strncpy 200 100 8 ((\<lambda>_. 0)(100 := 65)) = None"
proof -
  have "disjoint_blocks 100 200 (Suc (length [65 :: u8]))"
    by (auto simp: disjoint_blocks_def less_Suc_eq)
  with strncpy_diverges [of "(\<lambda>_. 0)(100 := 65)" 100 "[65]" 8 200] show ?thesis
    by simp
qed

end
