(* ===== verification/Machine.thy ===== *)
theory Machine
  imports CString
begin

text \<open>
  The processor as the kernel uses it: memory, model-specific registers, control registers, the
  interrupt flag and the I/O ports, with the inline helpers of \<^verbatim>\<open>arch/x86\<close> (\<^verbatim>\<open>cpu.h\<close>, \<^verbatim>\<open>msr.h\<close>,
  \<^verbatim>\<open>x86.h\<close>) and the per-CPU accessors of \<^verbatim>\<open>percpu.h\<close>. The record \<open>machine\<close> is the root of a
  chain of record extensions: every stateful component adds its own static variables, so an
  operation of an earlier component runs unchanged on the state of a later one.

  What a port read returns is the environment's choice: \<open>port_in p n\<close> is the value of the
  \<open>n\<close>-th read of port \<open>p\<close>. The addresses the linker gives to the per-CPU variables are
  \<open>percpu_off\<close>; \<open>percpu_start\<close> and \<open>percpu_end\<close> are the linker symbols. A call of the logger is
  recorded with its arguments in \<open>klog\<close>; the theory \<open>Logging\<close> says what text it sends.
\<close>

datatype percpu_var = V_cpu_state | V_irq | V_sil | V_cpu_id | V_tss | V_dog

text \<open>A variadic argument: an integer (one 8-byte slot) or a pointer to a string.\<close>

datatype vararg = IntArg u64 | StrArg string

datatype log_event =
    LogStr_call string string
  | LogfStr_call string string "vararg list"
  | LogRaw_call "u8 list"

record machine =
  mem :: memory
  msr :: "u32 \<Rightarrow> u64"
  cr2 :: u64
  cr3 :: u64
  cr8 :: u64
  iflag :: bool
  port_in :: "u16 \<Rightarrow> nat \<Rightarrow> u8"
  port_reads :: "u16 \<Rightarrow> nat"
  port_out :: "(u16 \<times> u8) list"
  klog :: "log_event list"
  percpu_off :: "percpu_var \<Rightarrow> u64"
  percpu_start :: u64
  percpu_end :: u64

section \<open>Constants of msr.h and panic.h\<close>

definition MSR_GS_BASE :: u32 where "MSR_GS_BASE = 0xC0000101"
definition MSR_FS_BASE :: u32 where "MSR_FS_BASE = 0xC0000100"
definition MSR_KERNEL_GS_BASE :: u32 where "MSR_KERNEL_GS_BASE = 0xC0000102"
definition MSR_IA32_MCG_STATUS :: u32 where "MSR_IA32_MCG_STATUS = 0x17F"
definition MSR_IA32_APIC_BASE :: u32 where "MSR_IA32_APIC_BASE = 0x1B"
definition MSR_X2APIC_ICR :: u32 where "MSR_X2APIC_ICR = 0x830"
definition MSR_APIC_EOI :: u32 where "MSR_APIC_EOI = 0x80B"

definition STATUS_UNKNOWN :: u16 where "STATUS_UNKNOWN = 0"
definition STATUS_INVALID_SIL :: u16 where "STATUS_INVALID_SIL = 1"
definition STATUS_TAKEN :: u16 where "STATUS_TAKEN = 2"
definition STATUS_HARDWARE_FAILURE :: u16 where "STATUS_HARDWARE_FAILURE = 3"
definition STATUS_LOCKUP :: u16 where "STATUS_LOCKUP = 4"
definition STATUS_NOMEM :: u16 where "STATUS_NOMEM = 5"
definition STATUS_INVALID :: u16 where "STATUS_INVALID = 6"

section \<open>Inline helpers\<close>

text \<open>The instruction \<open>rdmsr\<close> delivers the register in two halves, which the helper joins;
  \<open>wrmsr\<close> splits its argument the same way.\<close>

definition rdmsr :: "u32 \<Rightarrow> 'a machine_scheme \<Rightarrow> u64" where
  "rdmsr r s =
     (let lo = ucast (msr s r) :: u32; hi = ucast (drop_bit 32 (msr s r)) :: u32
      in push_bit 32 (ucast hi) OR ucast lo)"

definition wrmsr :: "u32 \<Rightarrow> u64 \<Rightarrow> 'a machine_scheme \<Rightarrow> 'a machine_scheme" where
  "wrmsr r v s =
     (let edx = ucast (drop_bit 32 v) :: u32; eax = ucast (v AND 0xFFFFFFFF) :: u32
      in s\<lparr>msr := (msr s)(r := push_bit 32 (ucast edx) OR ucast eax)\<rparr>)"

definition cpu_stop_interrupts :: "'a machine_scheme \<Rightarrow> 'a machine_scheme" where
  "cpu_stop_interrupts s = s\<lparr>iflag := False\<rparr>"

definition cpu_enable_interrupts :: "'a machine_scheme \<Rightarrow> 'a machine_scheme" where
  "cpu_enable_interrupts s = s\<lparr>iflag := True\<rparr>"

definition cpu_stop :: "('a machine_scheme, 'b) routine" where
  "cpu_stop s = (Stopped, cpu_enable_interrupts s)"

definition x86_inb :: "u16 \<Rightarrow> ('a machine_scheme, u8) routine" where
  "x86_inb p s =
     (Ret (port_in s p (port_reads s p)), s\<lparr>port_reads := (port_reads s)(p := Suc (port_reads s p))\<rparr>)"

definition x86_outb :: "u16 \<Rightarrow> u8 \<Rightarrow> 'a machine_scheme \<Rightarrow> 'a machine_scheme" where
  "x86_outb p v s = s\<lparr>port_out := port_out s @ [(p, v)]\<rparr>"

definition LogStr_event :: "string \<Rightarrow> string \<Rightarrow> 'a machine_scheme \<Rightarrow> 'a machine_scheme" where
  "LogStr_event m t s = s\<lparr>klog := klog s @ [LogStr_call m t]\<rparr>"

definition LogfStr_event ::
  "string \<Rightarrow> string \<Rightarrow> vararg list \<Rightarrow> 'a machine_scheme \<Rightarrow> 'a machine_scheme" where
  "LogfStr_event m fmt args s = s\<lparr>klog := klog s @ [LogfStr_call m fmt args]\<rparr>"

text \<open>The watchdog latch of port 0x92 is cleared by the inline \<open>in\<close>, \<open>and 0xfb\<close>, \<open>out\<close>.\<close>

definition clear_watchdog_latch :: "('a machine_scheme, unit) routine" where
  "clear_watchdog_latch = bind (x86_inb 0x92) (\<lambda>al. modify (x86_outb 0x92 (al AND 0xfb)))"

definition check_watchdog :: "('a machine_scheme, unit) routine" where
  "check_watchdog =
     bind (x86_inb 0x92) (\<lambda>v.
       if v = 4 then
         seq (modify (LogStr_event ''kernel'' ''Last system failure caused by watchdog''))
             clear_watchdog_latch
       else return ())"

section \<open>Per-CPU data\<close>

definition percpu_size :: "'a machine_scheme \<Rightarrow> u64" where
  "percpu_size s = percpu_end s - percpu_start s"

definition percpu_offsetof :: "percpu_var \<Rightarrow> 'a machine_scheme \<Rightarrow> u64" where
  "percpu_offsetof v s = percpu_off s v"

definition percpu_read :: "percpu_var \<Rightarrow> 'a machine_scheme \<Rightarrow> u64" where
  "percpu_read v s = load64 (mem s) (msr s MSR_GS_BASE + percpu_offsetof v s)"

definition percpu_write :: "percpu_var \<Rightarrow> u64 \<Rightarrow> 'a machine_scheme \<Rightarrow> 'a machine_scheme" where
  "percpu_write v x s =
     s\<lparr>mem := store64 (mem s) (msr s MSR_GS_BASE + percpu_offsetof v s) x\<rparr>"

definition ispercpuready :: "'a machine_scheme \<Rightarrow> bool" where
  "ispercpuready s =
     (let low = ucast (msr s MSR_GS_BASE) :: u32; high = ucast (drop_bit 32 (msr s MSR_GS_BASE)) :: u32
      in low \<noteq> 0 \<or> high \<noteq> 0)"

section \<open>Lemmas\<close>

lemma split_join_64: "push_bit 32 (ucast (ucast (drop_bit 32 x) :: u32)) OR ucast (ucast x :: u32) = (x :: u64)"
  by (rule bit_word_eqI) (auto simp: bit_simps)

lemma rdmsr_eq [simp]: "rdmsr r s = msr s r"
  by (simp add: rdmsr_def split_join_64)

lemma wrmsr_eq [simp]: "wrmsr r v s = s\<lparr>msr := (msr s)(r := v)\<rparr>"
proof -
  have "(ucast (v AND 0xFFFFFFFF) :: u32) = ucast (v AND mask 32)"
    by (simp add: mask_eq_exp_minus_1)
  also have "\<dots> = ucast v" by (rule bit_word_eqI) (auto simp: bit_simps)
  finally have "(ucast (v AND 0xFFFFFFFF) :: u32) = ucast v" .
  then show ?thesis by (simp add: wrmsr_def split_join_64)
qed

lemma ispercpuready_iff: "ispercpuready s \<longleftrightarrow> msr s MSR_GS_BASE \<noteq> 0"
  using split_join_64 [of "msr s MSR_GS_BASE"] by (auto simp: ispercpuready_def Let_def)

lemma percpu_read_write_same [simp]: "percpu_read v (percpu_write v x s) = x"
  by (simp add: percpu_read_def percpu_write_def percpu_offsetof_def)

text \<open>The slots of two variables do not overlap.\<close>

definition percpu_layout_ok :: "(percpu_var \<Rightarrow> u64) \<Rightarrow> bool" where
  "percpu_layout_ok off \<longleftrightarrow>
     inj off \<and> (\<forall>v. aligned 8 (off v) \<and> unat (off v) + 8 \<le> 4096)"

lemma percpu_read_write_other:
  assumes "percpu_layout_ok (percpu_off s)" "aligned 8 (msr s MSR_GS_BASE)" "v \<noteq> w"
  shows "percpu_read v (percpu_write w x s) = percpu_read v s"
proof -
  have "percpu_off s w \<noteq> percpu_off s v"
    using assms(1,3) by (auto simp: percpu_layout_ok_def dest: injD)
  moreover have "aligned 8 (msr s MSR_GS_BASE + percpu_off s u)" for u
    using assms(1,2) by (intro aligned_add) (auto simp: percpu_layout_ok_def)
  ultimately show ?thesis
    by (simp add: percpu_read_def percpu_write_def percpu_offsetof_def load64_store64_other)
qed

end
