(* ===== verification/Locks.thy ===== *)
theory Locks
  imports Machine
begin

text \<open>
  The spin lock of \<^verbatim>\<open>dej/kernel.c\<close>. Two views of the same code: \<open>aquire_lock\<close> and \<open>release_lock\<close>
  as one CPU runs them to the end (spinning for ever is \<open>None\<close>), used by the components below
  through the locale \<open>lock_contract\<close>; and \<open>lock_step\<close>, the steps of any number of CPUs
  interleaved at the accesses to the lock's two fields. The lemmas show mutual exclusion for CPUs
  with different identifiers that do not nest their critical sections, and that each of the two
  conditions is needed.
\<close>

section \<open>The lock as one CPU runs it\<close>

record lock_t =
  held :: bool
  holding_cpu :: int

definition unlocked :: lock_t where
  "unlocked = \<lparr>held = False, holding_cpu = -1\<rparr>"

text \<open>The identifier \<open>aquire_lock\<close> uses: the low 32 bits of the per-CPU variable as an \<open>int\<close>
  once the per-CPU area is set up, zero before.\<close>

definition current_cpu :: "'a machine_scheme \<Rightarrow> int" where
  "current_cpu s = (if ispercpuready s then sint (ucast (percpu_read V_cpu_id s) :: u32) else 0)"

definition aquire_lock :: "int \<Rightarrow> lock_t \<Rightarrow> lock_t option" where
  "aquire_lock cpu l =
     (if holding_cpu l = cpu then Some l
      else if held l then None
      else Some (l\<lparr>held := True, holding_cpu := cpu\<rparr>))"

definition release_lock :: "lock_t \<Rightarrow> lock_t" where
  "release_lock l = l\<lparr>holding_cpu := -1, held := False\<rparr>"

section \<open>The lock under interleaving\<close>

text \<open>Where a CPU is: outside the lock's code, in the spin loop, between the exchange that won and
  the store of the holder, or between the two stores of \<open>release_lock\<close>.\<close>

datatype lock_pc = Idle | Spinning | Won | Releasing

text \<open>\<open>depth i\<close> counts the calls of \<open>aquire_lock\<close> by CPU \<open>i\<close> that have returned and whose
  \<open>release_lock\<close> has not: CPU \<open>i\<close> is in a critical section when it is positive.\<close>

record lock_system =
  the_lock :: lock_t
  lock_pcs :: "nat \<Rightarrow> lock_pc"
  depth :: "nat \<Rightarrow> nat"

definition lock_init :: lock_system where
  "lock_init = \<lparr>the_lock = unlocked, lock_pcs = (\<lambda>_. Idle), depth = (\<lambda>_. 0)\<rparr>"

text \<open>\<open>cid\<close> is the identifier each CPU uses; \<open>nesting\<close> says whether a CPU may call \<open>aquire_lock\<close>
  again inside its critical section.\<close>

inductive lock_step :: "(nat \<Rightarrow> int) \<Rightarrow> bool \<Rightarrow> lock_system \<Rightarrow> lock_system \<Rightarrow> bool"
  for cid :: "nat \<Rightarrow> int" and nesting :: bool where
  call_reenters: "\<lbrakk>lock_pcs s i = Idle; nesting \<or> depth s i = 0; holding_cpu (the_lock s) = cid i\<rbrakk> \<Longrightarrow>
     lock_step cid nesting s (s\<lparr>depth := (depth s)(i := Suc (depth s i))\<rparr>)"
| call_spins: "\<lbrakk>lock_pcs s i = Idle; nesting \<or> depth s i = 0; holding_cpu (the_lock s) \<noteq> cid i\<rbrakk> \<Longrightarrow>
     lock_step cid nesting s (s\<lparr>lock_pcs := (lock_pcs s)(i := Spinning)\<rparr>)"
| exchange_fails: "\<lbrakk>lock_pcs s i = Spinning; held (the_lock s)\<rbrakk> \<Longrightarrow>
     lock_step cid nesting s (s\<lparr>the_lock := (the_lock s)\<lparr>held := True\<rparr>\<rparr>)"
| exchange_wins: "\<lbrakk>lock_pcs s i = Spinning; \<not> held (the_lock s)\<rbrakk> \<Longrightarrow>
     lock_step cid nesting s (s\<lparr>the_lock := (the_lock s)\<lparr>held := True\<rparr>,
                               lock_pcs := (lock_pcs s)(i := Won)\<rparr>)"
| store_holder: "lock_pcs s i = Won \<Longrightarrow>
     lock_step cid nesting s (s\<lparr>the_lock := (the_lock s)\<lparr>holding_cpu := cid i\<rparr>,
                               lock_pcs := (lock_pcs s)(i := Idle),
                               depth := (depth s)(i := Suc (depth s i))\<rparr>)"
| clear_holder: "\<lbrakk>lock_pcs s i = Idle; 0 < depth s i\<rbrakk> \<Longrightarrow>
     lock_step cid nesting s (s\<lparr>the_lock := (the_lock s)\<lparr>holding_cpu := -1\<rparr>,
                               lock_pcs := (lock_pcs s)(i := Releasing)\<rparr>)"
| clear_held: "lock_pcs s i = Releasing \<Longrightarrow>
     lock_step cid nesting s (s\<lparr>the_lock := (the_lock s)\<lparr>held := False\<rparr>,
                               lock_pcs := (lock_pcs s)(i := Idle),
                               depth := (depth s)(i := depth s i - 1)\<rparr>)"

inductive lock_reachable :: "(nat \<Rightarrow> int) \<Rightarrow> bool \<Rightarrow> lock_system \<Rightarrow> bool"
  for cid :: "nat \<Rightarrow> int" and nesting :: bool where
  lock_start: "lock_reachable cid nesting lock_init"
| lock_next: "\<lbrakk>lock_reachable cid nesting s; lock_step cid nesting s t\<rbrakk> \<Longrightarrow> lock_reachable cid nesting t"

section \<open>The contract the other components rely on\<close>

locale lock_contract =
  fixes acquire :: "int \<Rightarrow> 'l \<Rightarrow> 'l option"
    and release :: "'l \<Rightarrow> 'l"
    and free :: "'l \<Rightarrow> bool"
    and owned_by :: "int \<Rightarrow> 'l \<Rightarrow> bool"
  assumes acquire_free: "free l \<Longrightarrow> c \<noteq> -1 \<Longrightarrow> \<exists>l'. acquire c l = Some l' \<and> owned_by c l'"
    and acquire_own: "owned_by c l \<Longrightarrow> acquire c l = Some l"
    and acquire_other: "owned_by d l \<Longrightarrow> c \<noteq> d \<Longrightarrow> acquire c l = None"
    and release_owned: "owned_by c l \<Longrightarrow> free (release l)"
begin

text \<open>A section that acquires and releases leaves the lock free, whichever CPU runs it.\<close>

lemma section_restores:
  assumes "free l" and "c \<noteq> -1"
  obtains l' where "acquire c l = Some l'" and "free (release l')"
  using acquire_free [OF assms] release_owned by blast

text \<open>A section that returns without the release blocks every other CPU for ever.\<close>

lemma leak_blocks:
  assumes "free l" and "c \<noteq> -1" and "acquire c l = Some l'" and "d \<noteq> c"
  shows "acquire d l' = None"
proof -
  from acquire_free [OF assms(1,2)] assms(3) have "owned_by c l'" by auto
  with assms(4) show ?thesis by (auto intro: acquire_other)
qed

text \<open>A release inside a nested section opens the lock to other CPUs.\<close>

lemma nested_release_opens:
  assumes "owned_by c l" and "d \<noteq> -1"
  shows "acquire c l = Some l \<and> (\<exists>l'. acquire d (release l) = Some l' \<and> owned_by d l')"
  using assms acquire_own release_owned acquire_free by blast

end

definition lock_free :: "lock_t \<Rightarrow> bool" where
  "lock_free l \<longleftrightarrow> \<not> held l \<and> holding_cpu l = -1"

definition lock_owned_by :: "int \<Rightarrow> lock_t \<Rightarrow> bool" where
  "lock_owned_by c l \<longleftrightarrow> held l \<and> holding_cpu l = c"

interpretation spin: lock_contract aquire_lock release_lock lock_free lock_owned_by
proof unfold_locales
  fix l :: lock_t and c d :: int
  show "\<exists>l'. aquire_lock c l = Some l' \<and> lock_owned_by c l'" if "lock_free l" "c \<noteq> -1"
    using that by (simp add: aquire_lock_def lock_free_def lock_owned_by_def)
  show "aquire_lock c l = Some l" if "lock_owned_by c l"
    using that by (simp add: aquire_lock_def lock_owned_by_def)
  show "aquire_lock c l = None" if "lock_owned_by d l" "c \<noteq> d"
    using that by (simp add: aquire_lock_def lock_owned_by_def)
  show "lock_free (release_lock l)" if "lock_owned_by c l"
    using that by (simp add: release_lock_def lock_free_def)
qed

lemma unlocked_free [simp]: "lock_free unlocked"
  by (simp add: lock_free_def unlocked_def)

section \<open>Mutual exclusion\<close>

text \<open>The CPU that owns the lock: from the exchange it won to the store that clears \<open>held\<close>.\<close>

definition lock_owner :: "lock_system \<Rightarrow> nat \<Rightarrow> bool" where
  "lock_owner s i \<longleftrightarrow> lock_pcs s i = Won \<or> 0 < depth s i"

definition lock_inv :: "(nat \<Rightarrow> int) \<Rightarrow> lock_system \<Rightarrow> bool" where
  "lock_inv cid s \<longleftrightarrow>
     (\<forall>i j. lock_owner s i \<longrightarrow> lock_owner s j \<longrightarrow> i = j) \<and>
     (\<forall>i. lock_owner s i \<longrightarrow> held (the_lock s)) \<and>
     (\<forall>i. lock_pcs s i = Won \<or> lock_pcs s i = Spinning \<longrightarrow> depth s i = 0) \<and>
     (\<forall>i. lock_pcs s i = Releasing \<longrightarrow> 0 < depth s i) \<and>
     (\<forall>i. depth s i \<le> 1) \<and>
     (\<forall>i. holding_cpu (the_lock s) = cid i \<longrightarrow> lock_pcs s i = Idle \<and> depth s i = 1)"

lemma lock_inv_init: "\<forall>i. cid i \<noteq> -1 \<Longrightarrow> lock_inv cid lock_init"
  by (auto simp: lock_inv_def lock_init_def unlocked_def lock_owner_def)

lemma lock_step_inv:
  assumes "inj cid" and ids: "\<forall>i. cid i \<noteq> -1"
  shows "lock_step cid False s t \<Longrightarrow> lock_inv cid s \<Longrightarrow> lock_inv cid t"
proof (induction rule: lock_step.induct)
  case (call_reenters s i)
  then show ?case by (auto simp: lock_inv_def)
next
  case (call_spins s i)
  then show ?case by (auto simp: lock_inv_def lock_owner_def)
next
  case (exchange_fails s i)
  then show ?case by (simp add: lock_inv_def lock_owner_def)
next
  case (exchange_wins s i)
  then show ?case by (auto simp: lock_inv_def lock_owner_def)
next
  case (store_holder s i)
  then show ?case using injD [OF assms(1)] by (auto simp: lock_inv_def lock_owner_def)
next
  case (clear_holder s i)
  then show ?case using ids by (auto simp: lock_inv_def lock_owner_def)
next
  case (clear_held s i)
  then have "0 < depth s i" and "depth s i \<le> 1" by (simp_all add: lock_inv_def)
  then have one: "depth s i = 1" by simp
  have "lock_owner s i" using \<open>0 < depth s i\<close> by (simp add: lock_owner_def)
  with clear_held.prems have "\<not> lock_owner s j" if "j \<noteq> i" for j
    using that by (auto simp: lock_inv_def)
  then have others: "depth s j = 0" "lock_pcs s j \<noteq> Won" if "j \<noteq> i" for j
    using that by (simp_all add: lock_owner_def)
  from clear_held.prems have rel: "lock_pcs s j = Releasing \<Longrightarrow> 0 < depth s j"
    and hold: "holding_cpu (the_lock s) = cid j \<Longrightarrow> lock_pcs s j = Idle \<and> depth s j = 1" for j
    by (auto simp: lock_inv_def)
  have zero: "((depth s)(i := depth s i - Suc 0)) j = 0" for j using one others by simp
  have "((lock_pcs s)(i := Idle)) j \<noteq> Won" "((lock_pcs s)(i := Idle)) j \<noteq> Releasing"
    "holding_cpu (the_lock s) \<noteq> cid j" for j
    using others [of j] rel [of j] hold [of j] clear_held.hyps by (cases "j = i"; force)+
  then show ?case unfolding lock_inv_def lock_owner_def by (simp add: zero del: fun_upd_apply)
qed

lemma lock_reachable_inv:
  assumes "inj cid" and "\<forall>i. cid i \<noteq> -1"
  shows "lock_reachable cid False s \<Longrightarrow> lock_inv cid s"
  by (induction rule: lock_reachable.induct) (use assms lock_inv_init lock_step_inv in blast)+

text \<open>Property C3: the spin lock gives mutual exclusion. In every state that any number of CPUs reach
  by running the lock's code in any interleaving, at most one is in a critical section, provided
  that their identifiers differ (and are not the marker -1) and that none acquires the lock again
  inside its own critical section.\<close>

theorem lock_mutual_exclusion:
  assumes "inj cid" "\<forall>i. cid i \<noteq> -1" "lock_reachable cid False s" "0 < depth s i" "0 < depth s j"
  shows "i = j"
  using lock_reachable_inv [OF assms(1-3)] assms(4,5) by (auto simp: lock_inv_def lock_owner_def)

lemma lock_t_set_both:
  "l\<lparr>held := h, holding_cpu := c\<rparr> = \<lparr>held = h, holding_cpu = c\<rparr>"
  "l\<lparr>holding_cpu := c, held := h\<rparr> = \<lparr>held = h, holding_cpu = c\<rparr>" for l :: lock_t
  by (cases l, simp)+

lemma run_acquire:
  assumes "lock_reachable cid n s" "lock_pcs s i = Idle" "n \<or> depth s i = 0"
    and "holding_cpu (the_lock s) \<noteq> cid i" "\<not> held (the_lock s)"
  shows "lock_reachable cid n (s\<lparr>the_lock := \<lparr>held = True, holding_cpu = cid i\<rparr>,
           depth := (depth s)(i := Suc (depth s i))\<rparr>)"
proof -
  let ?s1 = "s\<lparr>lock_pcs := (lock_pcs s)(i := Spinning)\<rparr>"
  let ?s2 = "?s1\<lparr>the_lock := (the_lock ?s1)\<lparr>held := True\<rparr>, lock_pcs := (lock_pcs ?s1)(i := Won)\<rparr>"
  have "lock_reachable cid n ?s1"
    by (rule lock_next [OF assms(1)], rule lock_step.call_spins) (use assms in auto)
  then have "lock_reachable cid n ?s2"
    by (rule lock_next, intro lock_step.exchange_wins) (use assms in auto)
  then have "lock_reachable cid n (?s2\<lparr>the_lock := (the_lock ?s2)\<lparr>holding_cpu := cid i\<rparr>,
      lock_pcs := (lock_pcs ?s2)(i := Idle), depth := (depth ?s2)(i := Suc (depth ?s2 i))\<rparr>)"
    by (rule lock_next, intro lock_step.store_holder) simp
  moreover have "(lock_pcs s)(i := Idle) = lock_pcs s" using assms(2) by auto
  ultimately show ?thesis by (simp add: lock_t_set_both)
qed

lemma run_reenter:
  assumes "lock_reachable cid n s" "lock_pcs s i = Idle" "n \<or> depth s i = 0"
    and "holding_cpu (the_lock s) = cid i"
  shows "lock_reachable cid n (s\<lparr>depth := (depth s)(i := Suc (depth s i))\<rparr>)"
  by (rule lock_next [OF assms(1)], rule lock_step.call_reenters) (use assms in auto)

lemma run_release:
  assumes "lock_reachable cid n s" "lock_pcs s i = Idle" "0 < depth s i"
  shows "lock_reachable cid n (s\<lparr>the_lock := \<lparr>held = False, holding_cpu = -1\<rparr>,
           depth := (depth s)(i := depth s i - 1)\<rparr>)"
proof -
  let ?s1 = "s\<lparr>the_lock := (the_lock s)\<lparr>holding_cpu := -1\<rparr>, lock_pcs := (lock_pcs s)(i := Releasing)\<rparr>"
  have "lock_reachable cid n ?s1"
    by (rule lock_next [OF assms(1)], rule lock_step.clear_holder) (use assms in auto)
  then have "lock_reachable cid n (?s1\<lparr>the_lock := (the_lock ?s1)\<lparr>held := False\<rparr>,
      lock_pcs := (lock_pcs ?s1)(i := Idle), depth := (depth ?s1)(i := depth ?s1 i - 1)\<rparr>)"
    by (rule lock_next, intro lock_step.clear_held) simp
  moreover have "(lock_pcs s)(i := Idle) = lock_pcs s" using assms(2) by auto
  ultimately show ?thesis by (simp add: lock_t_set_both)
qed

lemma init_acquired:
  assumes "cid i \<noteq> -1"
  shows "lock_reachable cid n (lock_init\<lparr>the_lock := \<lparr>held = True, holding_cpu = cid i\<rparr>,
     depth := (\<lambda>_. 0)(i := 1)\<rparr>)"
proof -
  have "holding_cpu (the_lock lock_init) \<noteq> cid i"
    using assms by (simp add: lock_init_def unlocked_def)
  then have "lock_reachable cid n (lock_init\<lparr>the_lock := \<lparr>held = True, holding_cpu = cid i\<rparr>,
      depth := (depth lock_init)(i := Suc (depth lock_init i))\<rparr>)"
    by (intro run_acquire lock_start) (simp_all add: lock_init_def unlocked_def)
  moreover have "depth lock_init = (\<lambda>_. 0)" by (simp add: lock_init_def)
  ultimately show ?thesis by (simp only: One_nat_def)
qed

theorem lock_mutual_exclusion_witness:
  "\<exists>s. lock_reachable int False s \<and> 0 < depth s 7 \<and> (\<forall>j. 0 < depth s j \<longrightarrow> 7 = j)"
proof -
  let ?s = "lock_init\<lparr>the_lock := \<lparr>held = True, holding_cpu = int 7\<rparr>, depth := (\<lambda>_. 0)(7 := 1)\<rparr>"
  have r: "lock_reachable int False ?s" by (rule init_acquired) simp
  have "\<forall>j. 0 < depth ?s j \<longrightarrow> 7 = j"
  proof (intro allI impI)
    fix j assume j: "0 < depth ?s j"
    show "7 = j" by (rule lock_mutual_exclusion [OF inj_of_nat _ r _ j]) simp_all
  qed
  moreover have "0 < depth ?s 7" by simp
  ultimately show ?thesis using r by blast
qed

text \<open>Theorem: CPUs that use the same identifier are not excluded. While the per-CPU area is not set
  up every CPU uses the identifier 0 (\<open>current_cpu\<close>), and two such CPUs can be inside the critical
  section at once, without nesting.\<close>

theorem same_identifier_breaks_exclusion:
  "\<exists>s. lock_reachable (\<lambda>_. 0) False s \<and> 0 < depth s 0 \<and> 0 < depth s 1"
proof -
  let ?c = "\<lambda>_ :: nat. 0 :: int"
  have "lock_reachable ?c False (lock_init\<lparr>the_lock := \<lparr>held = True, holding_cpu = ?c 0\<rparr>,
     depth := (\<lambda>_. 0)(0 := 1)\<rparr>)" by (rule init_acquired) simp
  from run_reenter [OF this, of 1] show ?thesis
    by (auto simp: lock_init_def intro!: exI)
qed

text \<open>Theorem: a nested acquisition breaks exclusion too. When CPU 0 acquires the lock twice and
  releases it once, it is still in its outer critical section, and CPU 1 can enter.\<close>

theorem nested_release_breaks_exclusion:
  "\<exists>s. lock_reachable int True s \<and> 0 < depth s 0 \<and> 0 < depth s 1"
proof -
  have "lock_reachable int True (lock_init\<lparr>the_lock := \<lparr>held = True, holding_cpu = int 0\<rparr>,
     depth := (\<lambda>_. 0)(0 := 1)\<rparr>)" (is "lock_reachable int True ?s1") by (rule init_acquired) simp
  from run_reenter [OF this, of 0]
  have "lock_reachable int True (?s1\<lparr>depth := (\<lambda>_. 0)(0 := 2)\<rparr>)"
    by (simp add: lock_init_def numeral_2_eq_2)
  from run_release [OF this, of 0]
  have "lock_reachable int True (?s1\<lparr>the_lock := unlocked, depth := (\<lambda>_. 0)(0 := 1)\<rparr>)"
    by (simp add: lock_init_def unlocked_def)
  from run_acquire [OF this, of 1] show ?thesis
    by (auto simp: lock_init_def unlocked_def intro!: exI)
qed

end
