(* ===== verification/Logging.thy ===== *)
theory Logging
  imports Locks
begin

text \<open>
  The kernel log: \<^verbatim>\<open>dej/log.c\<close> over the serial port of \<^verbatim>\<open>arch/x86/io.c\<close>. The formatter is
  modelled as the list of output calls it makes (\<open>Putc\<close> polls the transmitter and sends,
  \<open>Puts\<close> sends without polling, as the two functions of \<^verbatim>\<open>io.c\<close> do); \<open>run_emits\<close> performs
  such a list on the ports. \<open>None\<close> as the result of the formatter is a variadic argument that is
  missing or of the wrong kind, which is undefined in C. The lemmas show that numbers are printed
  in their positional notation and fit the 32-byte buffer, that a format is rendered as its plain
  characters and conversions mean (datatype \<open>format_item\<close>), and that with a transmitter that keeps becoming ready every log call returns,
  sends exactly its text, and gives the serial lock back.
\<close>

record log_state = machine +
  com1_lock :: lock_t

section \<open>The serial port\<close>

definition COM1 :: u16 where "COM1 = 0x3F8"

definition inb_val :: "u16 \<Rightarrow> 'a machine_scheme \<Rightarrow> u8" where
  "inb_val p s = port_in s p (port_reads s p)"

definition inb_next :: "u16 \<Rightarrow> 'a machine_scheme \<Rightarrow> 'a machine_scheme" where
  "inb_next p s = s\<lparr>port_reads := (port_reads s)(p := Suc (port_reads s p))\<rparr>"

partial_function (option) wait_transmitter :: "'a machine_scheme \<Rightarrow> 'a machine_scheme option" where
  "wait_transmitter s =
     (if inb_val (COM1 + 5) s AND 0x20 = 0 then wait_transmitter (inb_next (COM1 + 5) s)
      else Some (inb_next (COM1 + 5) s))"

definition putc :: "char \<Rightarrow> 'a machine_scheme \<Rightarrow> 'a machine_scheme option" where
  "putc c s = map_option (x86_outb COM1 (of_char c)) (wait_transmitter s)"

definition puts :: "string \<Rightarrow> 'a machine_scheme \<Rightarrow> 'a machine_scheme" where
  "puts t s = fold (\<lambda>c. x86_outb COM1 (of_char c)) t s"

datatype emit = Putc char | Puts string

primrec run_emits :: "emit list \<Rightarrow> 'a machine_scheme \<Rightarrow> 'a machine_scheme option" where
  "run_emits [] s = Some s"
| "run_emits (e # es) s =
     (case e of
        Putc c \<Rightarrow> Option.bind (putc c s) (run_emits es)
      | Puts t \<Rightarrow> run_emits es (puts t s))"

section \<open>Numbers\<close>

definition g_HexChars :: string where "g_HexChars = ''0123456789abcdef''"

text \<open>The \<open>do\<close> loop that fills the buffer, least significant digit first.\<close>

partial_function (option) digits_loop :: "u64 \<Rightarrow> u64 \<Rightarrow> string \<Rightarrow> string option" where
  "digits_loop number radix buffer =
     (let rem = number mod radix; number' = number div radix;
          buffer' = buffer @ [g_HexChars ! unat rem]
      in if 0 < number' then digits_loop number' radix buffer' else Some buffer')"

definition printf_unsigned :: "u64 \<Rightarrow> u64 \<Rightarrow> emit list option" where
  "printf_unsigned number radix = map_option (\<lambda>buf. map Putc (rev buf)) (digits_loop number radix [])"

definition printf_signed :: "u64 \<Rightarrow> u64 \<Rightarrow> emit list option" where
  "printf_signed number radix =
     (if sint number < 0 then map_option (\<lambda>es. Putc CHR ''-'' # es) (printf_unsigned (- number) radix)
      else printf_unsigned number radix)"

section \<open>Formatted output\<close>

datatype logf_state =
  LOGF_STATE_NORMAL | LOGF_STATE_LENGTH | LOGF_STATE_LENGTH_SHORT | LOGF_STATE_LENGTH_LONG | LOGF_STATE_SPEC

datatype logf_length =
  LOGF_LENGTH_DEFAULT | LOGF_LENGTH_SHORT_SHORT | LOGF_LENGTH_SHORT | LOGF_LENGTH_LONG | LOGF_LENGTH_LONG_LONG

text \<open>The width an argument is read with: \<open>int\<close> for the short and default lengths, 64 bits for
  \<open>long\<close> and \<open>long long\<close>; then it is widened to the printer's parameter type.\<close>

definition is_long :: "logf_length \<Rightarrow> bool" where
  "is_long len \<longleftrightarrow> len = LOGF_LENGTH_LONG \<or> len = LOGF_LENGTH_LONG_LONG"

definition arg_signed :: "logf_length \<Rightarrow> u64 \<Rightarrow> u64" where
  "arg_signed len v = (if is_long len then v else scast (ucast v :: u32))"

definition arg_unsigned :: "logf_length \<Rightarrow> u64 \<Rightarrow> u64" where
  "arg_unsigned len v = (if is_long len then v else ucast (ucast v :: u32))"

datatype number_conv = NotNumber | Number u64 bool

text \<open>The inner switch on the conversion character: radix and signedness.\<close>

definition number_spec :: "char \<Rightarrow> number_conv" where
  "number_spec c =
     (if c = CHR ''d'' \<or> c = CHR ''i'' then Number 10 True
      else if c = CHR ''u'' then Number 10 False
      else if c = CHR ''X'' \<or> c = CHR ''x'' \<or> c = CHR ''p'' then Number 16 False
      else if c = CHR ''o'' then Number 8 False
      else NotNumber)"

definition vlog_spec :: "char \<Rightarrow> logf_length \<Rightarrow> vararg list \<Rightarrow> (emit list \<times> vararg list) option" where
  "vlog_spec c len args =
     (if c = CHR ''c'' then
        (case args of IntArg v # rest \<Rightarrow> Some ([Putc (char_of (unat v))], rest) | _ \<Rightarrow> None)
      else if c = CHR ''s'' then
        (case args of StrArg t # rest \<Rightarrow> Some ([Puts t], rest) | _ \<Rightarrow> None)
      else if c = CHR ''%'' then Some ([Putc CHR ''%''], args)
      else case number_spec c of
        Number radix sign \<Rightarrow>
          (case args of
             IntArg v # rest \<Rightarrow>
               map_option (\<lambda>es. (es, rest))
                 (if sign then printf_signed (arg_signed len v) radix
                  else printf_unsigned (arg_unsigned len v) radix)
           | _ \<Rightarrow> None)
      | NotNumber \<Rightarrow> Some ([], args))"

fun vlog_loop :: "logf_state \<Rightarrow> logf_length \<Rightarrow> string \<Rightarrow> vararg list \<Rightarrow> emit list option" where
  "vlog_loop st len [] args = Some []"
| "vlog_loop st len (c # fmt) args =
     (if st = LOGF_STATE_NORMAL then
        (if c = CHR ''%'' then vlog_loop LOGF_STATE_LENGTH len fmt args
         else map_option (\<lambda>es. Putc c # es) (vlog_loop LOGF_STATE_NORMAL len fmt args))
      else if st = LOGF_STATE_LENGTH \<and> c = CHR ''h'' then
        vlog_loop LOGF_STATE_LENGTH_SHORT LOGF_LENGTH_SHORT fmt args
      else if st = LOGF_STATE_LENGTH \<and> c = CHR ''l'' then
        vlog_loop LOGF_STATE_LENGTH_LONG LOGF_LENGTH_LONG fmt args
      else if st = LOGF_STATE_LENGTH_SHORT \<and> c = CHR ''h'' then
        vlog_loop LOGF_STATE_SPEC LOGF_LENGTH_SHORT_SHORT fmt args
      else if st = LOGF_STATE_LENGTH_LONG \<and> c = CHR ''l'' then
        vlog_loop LOGF_STATE_SPEC LOGF_LENGTH_LONG_LONG fmt args
      else
        (case vlog_spec c len args of
           None \<Rightarrow> None
         | Some (es, rest) \<Rightarrow>
             map_option (\<lambda>es'. es @ es') (vlog_loop LOGF_STATE_NORMAL LOGF_LENGTH_DEFAULT fmt rest)))"

definition vlog :: "string \<Rightarrow> vararg list \<Rightarrow> emit list option" where
  "vlog fmt args = vlog_loop LOGF_STATE_NORMAL LOGF_LENGTH_DEFAULT fmt args"

text \<open>\<open>printk\<close> sends the first byte, then advances past every nonzero byte and sends the next one,
  so the terminating zero byte is sent as well.\<close>

fun printk_loop :: "string \<Rightarrow> emit list" where
  "printk_loop [] = []"
| "printk_loop (c # cs) =
     (let d = (case cs of [] \<Rightarrow> CHR 0x00 | d # _ \<Rightarrow> d)
      in (if d = CHR 0x0A then [Putc CHR 0x0D] else []) @ [Putc d] @ printk_loop cs)"

definition printk :: "string \<Rightarrow> emit list" where
  "printk s = Putc (case s of [] \<Rightarrow> CHR 0x00 | c # _ \<Rightarrow> c) # printk_loop s"

definition log_prefix :: "string \<Rightarrow> emit list" where
  "log_prefix m = [Putc CHR ''[''] @ printk m @ [Putc CHR '']'', Putc CHR '' '']"

text \<open>Performing output under the serial lock.\<close>

definition with_com1 :: "emit list \<Rightarrow> 'a log_state_scheme \<Rightarrow> 'a log_state_scheme option" where
  "with_com1 es s =
     Option.bind (aquire_lock (current_cpu s) (com1_lock s)) (\<lambda>l.
     map_option (\<lambda>s'. s'\<lparr>com1_lock := release_lock (com1_lock s')\<rparr>)
       (run_emits es (s\<lparr>com1_lock := l\<rparr>)))"

definition LogStr :: "string \<Rightarrow> string \<Rightarrow> 'a log_state_scheme \<Rightarrow> 'a log_state_scheme option" where
  "LogStr m t s = with_com1 (log_prefix m @ printk t) s"

definition LogfStr ::
  "string \<Rightarrow> string \<Rightarrow> vararg list \<Rightarrow> 'a log_state_scheme \<Rightarrow> 'a log_state_scheme option" where
  "LogfStr m fmt args s =
     Option.bind (vlog fmt args) (\<lambda>es. with_com1 (log_prefix m @ es) s)"

text \<open>\<open>LogRaw\<close> counts with a 16-bit index.\<close>

fun LogRaw_loop :: "memory \<Rightarrow> u64 \<Rightarrow> u16 \<Rightarrow> nat \<Rightarrow> emit list" where
  "LogRaw_loop m buffer i 0 = []"
| "LogRaw_loop m buffer i (Suc len) =
     Putc (char_of (unat (m (buffer + ucast i)))) # LogRaw_loop m buffer (i + 1) len"

definition LogRaw :: "u64 \<Rightarrow> u64 \<Rightarrow> 'a log_state_scheme \<Rightarrow> 'a log_state_scheme option" where
  "LogRaw buffer len s = with_com1 (LogRaw_loop (mem s) buffer 0 (unat len)) s"

section \<open>Specification vocabulary\<close>

text \<open>The digits of a number, least significant first, and the value a digit string denotes.\<close>

fun digits :: "nat \<Rightarrow> nat \<Rightarrow> string" where
  "digits n r = (if r < 2 \<or> n < r then [g_HexChars ! (n mod r)]
                 else g_HexChars ! (n mod r) # digits (n div r) r)"

declare digits.simps [simp del]

definition digit_value :: "char \<Rightarrow> nat" where
  "digit_value c = length (takeWhile (\<lambda>d. d \<noteq> c) g_HexChars)"

definition positional_value :: "nat \<Rightarrow> string \<Rightarrow> nat" where
  "positional_value r ds = foldl (\<lambda>acc c. acc * r + digit_value c) 0 ds"

primrec emit_text :: "emit list \<Rightarrow> string" where
  "emit_text [] = []"
| "emit_text (e # es) = (case e of Putc c \<Rightarrow> [c] | Puts t \<Rightarrow> t) @ emit_text es"

text \<open>
  What a format means, independent of the formatter: characters of their own and conversions, each with a length modifier, a
  conversion character and the argument it takes. Numbers are written with the most significant digit first.
\<close>

datatype length_mod = No_mod | Mod_h | Mod_hh | Mod_l | Mod_ll

datatype number_style = Style_d | Style_i | Style_u | Style_x | Style_X | Style_p | Style_o

datatype conversion = Conv_char u64 | Conv_string string | Conv_percent | Conv_number number_style u64 | Conv_unknown char

datatype format_item = Plain char | Convert length_mod conversion

primrec mod_text :: "length_mod \<Rightarrow> string" where
  "mod_text No_mod = []"
| "mod_text Mod_h = ''h''"
| "mod_text Mod_hh = ''hh''"
| "mod_text Mod_l = ''l''"
| "mod_text Mod_ll = ''ll''"

primrec style_char :: "number_style \<Rightarrow> char" where
  "style_char Style_d = CHR ''d''"
| "style_char Style_i = CHR ''i''"
| "style_char Style_u = CHR ''u''"
| "style_char Style_x = CHR ''x''"
| "style_char Style_X = CHR ''X''"
| "style_char Style_p = CHR ''p''"
| "style_char Style_o = CHR ''o''"

definition is_signed :: "number_style \<Rightarrow> bool" where
  "is_signed st \<longleftrightarrow> st = Style_d \<or> st = Style_i"

definition style_base :: "number_style \<Rightarrow> nat" where
  "style_base st = (if st = Style_o then 8 else if st = Style_x \<or> st = Style_X \<or> st = Style_p then 16 else 10)"

definition numeral_digit :: "nat \<Rightarrow> char" where
  "numeral_digit d = (if d < 10 then char_of (48 + d) else char_of (87 + d))"

fun numeral_text :: "nat \<Rightarrow> nat \<Rightarrow> string" where
  "numeral_text base n = (if base < 2 \<or> n < base then [numeral_digit n] else numeral_text base (n div base) @ [numeral_digit (n mod base)])"

declare numeral_text.simps [simp del]

text \<open>The value of an argument: \<open>int\<close> has 32 bits, \<open>long\<close> and \<open>long long\<close> have 64.\<close>

definition signed_value :: "length_mod \<Rightarrow> u64 \<Rightarrow> int" where
  "signed_value m v = (if m = Mod_l \<or> m = Mod_ll then sint v else sint (ucast v :: u32))"

definition unsigned_value :: "length_mod \<Rightarrow> u64 \<Rightarrow> nat" where
  "unsigned_value m v = (if m = Mod_l \<or> m = Mod_ll then unat v else unat v mod 2 ^ 32)"

definition numeric_text :: "length_mod \<Rightarrow> number_style \<Rightarrow> u64 \<Rightarrow> string" where
  "numeric_text m st v =
     (if is_signed st then
        (if signed_value m v < 0 then CHR ''-'' # numeral_text 10 (nat (- signed_value m v)) else numeral_text 10 (nat (signed_value m v)))
      else numeral_text (style_base st) (unsigned_value m v))"

primrec conv_char :: "conversion \<Rightarrow> char" where
  "conv_char (Conv_char v) = CHR ''c''"
| "conv_char (Conv_string x) = CHR ''s''"
| "conv_char Conv_percent = CHR ''%''"
| "conv_char (Conv_number st v) = style_char st"
| "conv_char (Conv_unknown c) = c"

primrec conv_args :: "conversion \<Rightarrow> vararg list" where
  "conv_args (Conv_char v) = [IntArg v]"
| "conv_args (Conv_string x) = [StrArg x]"
| "conv_args Conv_percent = []"
| "conv_args (Conv_number st v) = [IntArg v]"
| "conv_args (Conv_unknown c) = []"

primrec conv_text :: "length_mod \<Rightarrow> conversion \<Rightarrow> string" where
  "conv_text m (Conv_char v) = [char_of (unat v mod 256)]"
| "conv_text m (Conv_string x) = x"
| "conv_text m Conv_percent = ''%''"
| "conv_text m (Conv_number st v) = numeric_text m st v"
| "conv_text m (Conv_unknown c) = []"

primrec item_format :: "format_item \<Rightarrow> string" where
  "item_format (Plain c) = [c]"
| "item_format (Convert m cv) = CHR ''%'' # mod_text m @ [conv_char cv]"

primrec item_args :: "format_item \<Rightarrow> vararg list" where
  "item_args (Plain c) = []"
| "item_args (Convert m cv) = conv_args cv"

primrec item_text :: "format_item \<Rightarrow> string" where
  "item_text (Plain c) = [c]"
| "item_text (Convert m cv) = conv_text m cv"

text \<open>A plain character is no percent sign, and an unknown conversion character is none of the known
  ones and does not continue the modifier.\<close>

primrec item_ok :: "format_item \<Rightarrow> bool" where
  "item_ok (Plain c) \<longleftrightarrow> c \<noteq> CHR ''%''"
| "item_ok (Convert m cv) \<longleftrightarrow>
     (case cv of
        Conv_unknown c \<Rightarrow> c \<notin> set ''cs%diuXxpo'' \<and> (m = No_mod \<longrightarrow> c \<noteq> CHR ''h'' \<and> c \<noteq> CHR ''l'') \<and>
          (m = Mod_h \<longrightarrow> c \<noteq> CHR ''h'') \<and> (m = Mod_l \<longrightarrow> c \<noteq> CHR ''l'')
      | _ \<Rightarrow> True)"

text \<open>The transmitter becomes ready again and again.\<close>

definition uart_fair :: "'a machine_scheme \<Rightarrow> bool" where
  "uart_fair s \<longleftrightarrow> (\<forall>n. \<exists>k \<ge> n. port_in s (COM1 + 5) k AND 0x20 \<noteq> 0)"

section \<open>Numbers\<close>

lemma length_g_HexChars [simp]: "length g_HexChars = 16"
  by (simp add: g_HexChars_def)

lemma digit_value_nth: "k < 16 \<Longrightarrow> digit_value (g_HexChars ! k) = k"
proof -
  have "\<forall>k \<in> set [0..<16]. digit_value (g_HexChars ! k) = k"
    by (simp add: upt_rec digit_value_def g_HexChars_def)
  moreover assume "k < 16"
  ultimately show ?thesis by simp
qed

lemma digits_loop_eq:
  assumes "2 \<le> unat radix"
  shows "digits_loop number radix buffer = Some (buffer @ digits (unat number) (unat radix))"
proof (induction "unat number" arbitrary: number buffer rule: less_induct)
  case less
  let ?q = "number div radix"
  have q: "unat ?q = unat number div unat radix" and m: "unat (number mod radix) = unat number mod unat radix"
    by (simp_all add: unat_div unat_mod)
  show ?case
  proof (cases "0 < ?q")
    case True
    then have pos: "0 < unat number div unat radix" by (simp add: word_less_nat_alt q)
    then have ge: "unat radix \<le> unat number" using assms by (simp add: div_greater_zero_iff)
    then have "unat ?q < unat number" unfolding q using assms by (intro div_less_dividend) auto
    from less [OF this, of "buffer @ [g_HexChars ! unat (number mod radix)]"] True ge assms
    show ?thesis
      by (subst digits_loop.simps, subst digits.simps) (simp add: Let_def q m)
  next
    case False
    then have "unat number div unat radix = 0" by (simp add: word_less_nat_alt q)
    then have "unat number < unat radix" using assms by (simp add: div_eq_0_iff)
    with False show ?thesis
      by (subst digits_loop.simps, subst digits.simps) (simp add: Let_def m)
  qed
qed

lemma positional_value_append: "positional_value r (ds @ [c]) = positional_value r ds * r + digit_value c"
  by (simp add: positional_value_def)

lemma positional_value_digits:
  "2 \<le> r \<Longrightarrow> r \<le> 16 \<Longrightarrow> positional_value r (rev (digits n r)) = n"
proof (induction n r rule: digits.induct)
  case (1 n r)
  have "n mod r < 16" using "1.prems" by (simp add: less_le_trans [OF mod_less_divisor])
  then have d: "digit_value (g_HexChars ! (n mod r)) = n mod r" by (rule digit_value_nth)
  show ?case
  proof (cases "n < r")
    case True
    then show ?thesis using d by (subst digits.simps) (simp add: positional_value_def)
  next
    case False
    with 1 d show ?thesis
      by (subst digits.simps) (simp add: positional_value_append)
  qed
qed

lemma length_digits: "n < r ^ Suc k \<Longrightarrow> 2 \<le> r \<Longrightarrow> length (digits n r) \<le> Suc k"
proof (induction k arbitrary: n)
  case 0
  then show ?case by (subst digits.simps) simp
next
  case (Suc k)
  have "n div r < r ^ Suc k" using Suc.prems by (simp add: less_mult_imp_div_less mult.commute)
  with Suc show ?case by (subst digits.simps) auto
qed

text \<open>Theorem: the number printer. For the three radices the formatter uses, an unsigned number is
  printed as the digit string whose positional value it is, and the digits always fit the
  32-byte buffer they are collected in.\<close>

theorem printf_unsigned_correct:
  assumes "radix \<in> {8, 10, 16}"
  shows "\<exists>ds. printf_unsigned number radix = Some (map Putc ds) \<and>
           positional_value (unat radix) ds = unat number \<and> 0 < length ds \<and> length ds \<le> 32"
proof -
  let ?ds = "digits (unat number) (unat radix)"
  have r: "2 \<le> unat radix" "unat radix \<le> 16" "8 \<le> unat radix" using assms by auto
  have "(8::nat) ^ Suc 21 \<le> unat radix ^ Suc 21" using r(3) by (rule power_mono) simp
  then have "unat number < unat radix ^ Suc 21" using unat_lt2p [of number] by simp
  then have "length ?ds \<le> 22" using length_digits [of "unat number" "unat radix" 21] r(1) by simp
  moreover have "0 < length ?ds" by (subst digits.simps) simp
  ultimately show ?thesis
    using r positional_value_digits [of "unat radix" "unat number"]
    by (intro exI [of _ "rev ?ds"]) (simp add: printf_unsigned_def digits_loop_eq)
qed

theorem printf_unsigned_correct_witness:
  "\<exists>ds. printf_unsigned 48879 16 = Some (map Putc ds) \<and> positional_value 16 ds = 48879 \<and>
        0 < length ds \<and> length ds \<le> 32"
  using printf_unsigned_correct [of 16 48879] by simp

section \<open>Rendering\<close>

lemma numeral_digit_table: "d < 16 \<Longrightarrow> g_HexChars ! d = numeral_digit d"
proof -
  have "\<forall>d \<in> set [0..<16]. g_HexChars ! d = numeral_digit d"
    by (simp add: upt_rec g_HexChars_def numeral_digit_def char_of_def bit_0)
  moreover assume "d < 16"
  ultimately show ?thesis by simp
qed

lemma rev_digits: "2 \<le> r \<Longrightarrow> r \<le> 16 \<Longrightarrow> rev (digits n r) = numeral_text r n"
proof (induction n r rule: digits.induct)
  case (1 n r)
  have "n mod r < 16" using "1.prems" by (simp add: less_le_trans [OF mod_less_divisor])
  then show ?case using 1 by (subst digits.simps, subst numeral_text.simps) (auto simp: numeral_digit_table)
qed

lemma printf_unsigned_text:
  assumes "2 \<le> unat radix" "unat radix \<le> 16"
  shows "printf_unsigned n radix = Some (map Putc (numeral_text (unat radix) (unat n)))"
  using assms by (simp add: printf_unsigned_def digits_loop_eq rev_digits)

lemma emit_text_Putc [simp]: "emit_text (map Putc cs) = cs"
  by (induction cs) simp_all

lemma emit_text_append [simp]: "emit_text (es @ es') = emit_text es @ emit_text es'"
  by (induction es) simp_all

lemma unat_abs: "sint n < 0 \<Longrightarrow> unat (- n) = nat (- sint n)" "\<not> sint n < 0 \<Longrightarrow> unat n = nat (sint n)" for n :: u64
proof -
  have "(uint n + 2 ^ 63) mod 2 ^ 64 = uint n + 2 ^ 63 - (if uint n < 2 ^ 63 then 0 else 2 ^ 64)"
    using uint_lt2p [of n] mod_pos_pos_trivial [of "uint n + 2 ^ 63" "2 ^ 64"]
      mod_pos_pos_trivial [of "uint n + 2 ^ 63 - 2 ^ 64" "2 ^ 64"] minus_mod_self2 [of "uint n + 2 ^ 63" "2 ^ 64"]
    by (cases "uint n < 2 ^ 63") auto
  moreover have "sint n = (uint n + 2 ^ 63) mod 2 ^ 64 - 2 ^ 63"
    unfolding sint_uint signed_take_bit_eq_take_bit_shift take_bit_eq_mod by simp
  ultimately have u: "sint n = (if uint n < 2 ^ 63 then uint n else uint n - 2 ^ 64)" by (simp only:) simp
  have n: "unat n = nat (uint n)" "unat (- n) = nat (uint (- n))" by (simp_all only: unat_eq_nat_uint)
  show "\<not> sint n < 0 \<Longrightarrow> unat n = nat (sint n)" unfolding n(1) u using uint_lt2p [of n] by (auto split: if_splits)
  show "unat (- n) = nat (- sint n)" if s: "sint n < 0"
  proof -
    have "\<not> uint n < 2 ^ 63" "uint n < 2 ^ 64" using s uint_lt2p [of n] unfolding u by (auto split: if_splits)
    moreover have "uint (- n) = (2 ^ 64 - uint n) mod 2 ^ 64"
      unfolding uint_word_ariths by (simp add: mod_diff_left_eq [symmetric])
    ultimately have "uint (- n) = 2 ^ 64 - uint n" using mod_pos_pos_trivial [of "2 ^ 64 - uint n" "2 ^ 64"] by (simp only:) simp
    then show ?thesis unfolding n(2) u using \<open>\<not> uint n < 2 ^ 63\<close> by simp
  qed
qed

lemma printf_signed_text:
  "\<exists>es. printf_signed n 10 = Some es \<and>
     emit_text es = (if sint n < 0 then CHR ''-'' # numeral_text 10 (nat (- sint n)) else numeral_text 10 (nat (sint n)))"
  using printf_unsigned_text [of 10] by (simp add: printf_signed_def unat_abs)

definition mod_length :: "length_mod \<Rightarrow> logf_length" where
  "mod_length m = (case m of No_mod \<Rightarrow> LOGF_LENGTH_DEFAULT | Mod_h \<Rightarrow> LOGF_LENGTH_SHORT | Mod_hh \<Rightarrow> LOGF_LENGTH_SHORT_SHORT
     | Mod_l \<Rightarrow> LOGF_LENGTH_LONG | Mod_ll \<Rightarrow> LOGF_LENGTH_LONG_LONG)"

lemma is_long_mod_length: "is_long (mod_length m) \<longleftrightarrow> m = Mod_l \<or> m = Mod_ll"
  by (cases m) (simp_all add: is_long_def mod_length_def)

lemma sint_arg_signed: "sint (arg_signed (mod_length m) v) = signed_value m v"
  by (auto simp: arg_signed_def signed_value_def is_long_mod_length sint_up_scast is_up)

lemma unat_arg_unsigned: "unat (arg_unsigned (mod_length m) v) = unsigned_value m v"
proof -
  have "unat (ucast v :: u32) = unat v mod 2 ^ 32" by (simp add: unsigned_ucast_eq unsigned_take_bit_eq take_bit_eq_mod)
  moreover have "unat (ucast (w :: u32) :: u64) = unat w" for w using unat_lt2p [of w] by (simp add: unsigned_ucast_eq take_bit_nat_eq_self)
  ultimately have "unat (ucast (ucast v :: u32) :: u64) = unat v mod 2 ^ 32" by (simp only:)
  then show ?thesis by (simp only: arg_unsigned_def unsigned_value_def is_long_mod_length split: if_split) simp
qed

lemma style_number_spec: "number_spec (style_char st) = Number (of_nat (style_base st)) (is_signed st)"
  by (cases st) (simp_all add: number_spec_def style_base_def is_signed_def)

lemma style_base_range: "unat (of_nat (style_base st) :: u64) = style_base st" "2 \<le> style_base st" "style_base st \<le> 16"
  by (simp_all add: style_base_def)

lemma vlog_number:
  "\<exists>es. vlog_spec (style_char st) (mod_length m) (IntArg v # rest) = Some (es, rest) \<and> emit_text es = numeric_text m st v"
proof -
  have c: "style_char st \<noteq> CHR ''c''" "style_char st \<noteq> CHR ''s''" "style_char st \<noteq> CHR ''%''" by (cases st; simp)+
  show ?thesis
  proof (cases "is_signed st")
    case True
    then have "style_base st = 10" by (auto simp: is_signed_def style_base_def)
    then show ?thesis using True c printf_signed_text [of "arg_signed (mod_length m) v"]
      by (auto simp: vlog_spec_def style_number_spec numeric_text_def sint_arg_signed)
  next
    case False
    then show ?thesis using c printf_unsigned_text [of "of_nat (style_base st)" "arg_unsigned (mod_length m) v"]
      by (auto simp: vlog_spec_def style_number_spec numeric_text_def unat_arg_unsigned style_base_range)
  qed
qed

lemma vlog_conversion:
  assumes "item_ok (Convert m cv)"
  shows "\<exists>es. vlog_spec (conv_char cv) (mod_length m) (conv_args cv @ rest) = Some (es, rest) \<and> emit_text es = conv_text m cv"
proof (cases cv)
  case (Conv_number st v)
  then show ?thesis using vlog_number by simp
qed (use assms in \<open>simp_all add: vlog_spec_def number_spec_def\<close>)

lemma vlog_loop_convert:
  assumes "item_ok (Convert m cv)" "vlog_spec (conv_char cv) (mod_length m) args = Some (es, rest)"
  shows "vlog_loop LOGF_STATE_NORMAL LOGF_LENGTH_DEFAULT (item_format (Convert m cv) @ fmt) args =
     map_option (\<lambda>es'. es @ es') (vlog_loop LOGF_STATE_NORMAL LOGF_LENGTH_DEFAULT fmt rest)"
proof -
  have "m = No_mod \<Longrightarrow> conv_char cv \<noteq> CHR ''h'' \<and> conv_char cv \<noteq> CHR ''l''"
    "m = Mod_h \<Longrightarrow> conv_char cv \<noteq> CHR ''h''" "m = Mod_l \<Longrightarrow> conv_char cv \<noteq> CHR ''l''"
    using assms(1) by (cases cv; simp; case_tac x41; simp)+
  then show ?thesis using assms(2) by (cases m) (simp_all add: mod_length_def)
qed

text \<open>Property C39: the log formatter renders a format by its meaning. A format is read as a sequence of plain characters and
  conversions; with the arguments the conversions take, \<open>vlog\<close> is defined, never reads a missing argument or one of the wrong
  kind, and sends the plain characters, characters, strings and percent signs as they are and every number in the base of its
  conversion, most significant digit first, a minus sign before a negative one, read with 64 bits after \<open>l\<close> and \<open>ll\<close> and with 32
  otherwise (\<open>h\<close> and \<open>hh\<close> do not narrow it further); an unknown conversion sends nothing and takes no argument.\<close>

theorem vlog_renders:
  "list_all item_ok items \<Longrightarrow>
   \<exists>es. vlog (concat (map item_format items)) (concat (map item_args items)) = Some es \<and>
     emit_text es = concat (map item_text items)"
  unfolding vlog_def
proof (induction items)
  case Nil
  then show ?case by simp
next
  case (Cons i items)
  then obtain es where es: "vlog_loop LOGF_STATE_NORMAL LOGF_LENGTH_DEFAULT (concat (map item_format items))
      (concat (map item_args items)) = Some es" "emit_text es = concat (map item_text items)" by auto
  show ?case
  proof (cases i)
    case (Plain c)
    then show ?thesis using Cons.prems es by simp
  next
    case (Convert m cv)
    with Cons.prems have ok: "item_ok (Convert m cv)" by simp
    from vlog_conversion [OF ok] obtain fs
      where fs: "vlog_spec (conv_char cv) (mod_length m) (conv_args cv @ concat (map item_args items)) =
        Some (fs, concat (map item_args items))" "emit_text fs = conv_text m cv" by blast
    from vlog_loop_convert [OF ok fs(1)] fs(2) es show ?thesis
      by (simp add: Convert)
  qed
qed

text \<open>The witness is a line with a string, a negative number, a long hexadecimal number and a percent sign.\<close>

definition sample_items :: "format_item list" where
  "sample_items = [Convert No_mod (Conv_string ''cpu''), Plain CHR '' '', Convert No_mod (Conv_number Style_i (- 42)),
     Plain CHR '':'', Convert Mod_ll (Conv_number Style_x 0xBEEF00000000), Convert No_mod Conv_percent]"

theorem vlog_renders_witness:
  "\<exists>es. vlog ''%s %i:%llx%%'' [StrArg ''cpu'', IntArg (- 42), IntArg 0xBEEF00000000] = Some es \<and>
     emit_text es = ''cpu -42:beef00000000%''"
  using vlog_renders [of sample_items]
  by (simp add: sample_items_def numeric_text_def is_signed_def
      style_base_def signed_value_def unsigned_value_def numeral_text.simps numeral_digit_def char_of_def bit_0)

text \<open>Theorem: without a length modifier \<open>%p\<close>, like \<open>%x\<close>, prints only the low 32 bits of its argument:
  two pointers that agree there are printed alike.\<close>

theorem percent_p_truncates:
  "(ucast v :: u32) = ucast w \<Longrightarrow> vlog ''%p'' [IntArg v] = vlog ''%p'' [IntArg w]"
  by (simp add: vlog_def vlog_spec_def number_spec_def arg_unsigned_def is_long_def)

theorem percent_p_truncates_witness:
  "vlog ''%p'' [IntArg 0xFFFFFFFF80001000] = vlog ''%p'' [IntArg 0x80001000]"
  by (rule percent_p_truncates) simp

section \<open>Sending\<close>

lemma inb_next_fields [simp]:
  "port_in (inb_next p s) = port_in s" "port_out (inb_next p s) = port_out s"
  "port_reads (inb_next p s) p = Suc (port_reads s p)"
  by (simp_all add: inb_next_def)

lemma wait_transmitter_returns:
  assumes "port_reads s (COM1 + 5) \<le> k" "port_in s (COM1 + 5) k AND 0x20 \<noteq> 0"
  shows "\<exists>r. wait_transmitter s = Some (s\<lparr>port_reads := r\<rparr>)"
  using assms
proof (induction "k - port_reads s (COM1 + 5)" arbitrary: s)
  case 0
  then have "port_reads s (COM1 + 5) = k" by simp
  with 0 show ?case by (subst wait_transmitter.simps) (auto simp: inb_val_def inb_next_def)
next
  case (Suc d)
  show ?case
  proof (cases "inb_val (COM1 + 5) s AND 0x20 = 0")
    case True
    have "\<exists>r. wait_transmitter (inb_next (COM1 + 5) s) = Some (inb_next (COM1 + 5) s\<lparr>port_reads := r\<rparr>)"
      using Suc by (intro Suc.hyps(1)) auto
    with True show ?thesis by (subst wait_transmitter.simps) (auto simp: inb_next_def)
  next
    case False
    then show ?thesis by (subst wait_transmitter.simps) (auto simp: inb_next_def)
  qed
qed

lemma putc_fair:
  assumes "uart_fair s"
  shows "\<exists>r. putc c s = Some (s\<lparr>port_reads := r, port_out := port_out s @ [(COM1, of_char c)]\<rparr>)"
proof -
  from assms obtain k where "port_reads s (COM1 + 5) \<le> k" "port_in s (COM1 + 5) k AND 0x20 \<noteq> 0"
    by (auto simp: uart_fair_def)
  from wait_transmitter_returns [OF this] show ?thesis by (auto simp: putc_def x86_outb_def)
qed

lemma puts_eq: "puts t s = s\<lparr>port_out := port_out s @ map (\<lambda>c. (COM1, of_char c)) t\<rparr>"
  by (induction t arbitrary: s) (simp_all add: puts_def x86_outb_def)

definition sent :: "string \<Rightarrow> (u16 \<times> u8) list" where
  "sent t = map (\<lambda>c. (COM1, of_char c)) t"

lemma sent_append [simp]: "sent (t @ u) = sent t @ sent u"
  by (simp add: sent_def)

lemma run_emits_fair:
  "uart_fair s \<Longrightarrow>
   \<exists>r. run_emits es s = Some (s\<lparr>port_reads := r, port_out := port_out s @ sent (emit_text es)\<rparr>)"
proof (induction es arbitrary: s)
  case Nil
  then show ?case by (auto simp: sent_def intro!: exI [of _ "port_reads s"])
next
  case (Cons e es)
  show ?case
  proof (cases e)
    case (Putc c)
    from putc_fair [OF Cons.prems] obtain r
      where r: "putc c s = Some (s\<lparr>port_reads := r, port_out := port_out s @ [(COM1, of_char c)]\<rparr>)" by auto
    have "uart_fair (s\<lparr>port_reads := r, port_out := port_out s @ [(COM1, of_char c)]\<rparr>)"
      using Cons.prems by (simp add: uart_fair_def)
    from Cons.IH [OF this] r Putc show ?thesis by (simp add: sent_def)
  next
    case (Puts t)
    have "uart_fair (puts t s)" using Cons.prems by (simp add: uart_fair_def puts_eq)
    from Cons.IH [OF this] obtain r where "run_emits es (puts t s) =
        Some ((puts t s)\<lparr>port_reads := r, port_out := port_out (puts t s) @ sent (emit_text es)\<rparr>)" by auto
    with Puts show ?thesis by (auto simp: puts_eq sent_def intro!: exI [of _ r])
  qed
qed

text \<open>What a log call promises: it returns, the text is sent, the serial lock is free again and
  nothing else of the state changes but the ports.\<close>

lemma with_com1_fair:
  assumes "uart_fair s" "lock_free (com1_lock s)" "current_cpu s \<noteq> -1"
  shows "\<exists>r. with_com1 es s =
     Some (s\<lparr>port_reads := r, port_out := port_out s @ sent (emit_text es), com1_lock := unlocked\<rparr>)"
proof -
  obtain l where l: "aquire_lock (current_cpu s) (com1_lock s) = Some l"
    using spin.section_restores [OF assms(2,3)] by metis
  have "uart_fair (s\<lparr>com1_lock := l\<rparr>)" using assms(1) by (simp add: uart_fair_def)
  from run_emits_fair [OF this, of es] l show ?thesis
    by (auto simp: with_com1_def release_lock_def unlocked_def lock_t_set_both)
qed

text \<open>The text of \<open>printk\<close>: a carriage return before every newline except a leading one, and the
  terminating zero byte.\<close>

definition crlf :: "string \<Rightarrow> string" where
  "crlf t = concat (map (\<lambda>c. if c = CHR 0x0A then [CHR 0x0D, c] else [c]) t)"

lemma printk_loop_text: "emit_text (printk_loop (c # cs)) = crlf cs @ [CHR 0x00]"
  by (induction cs arbitrary: c) (simp_all add: crlf_def)

lemma printk_text: "emit_text (printk t) = (case t of [] \<Rightarrow> [CHR 0x00] | c # cs \<Rightarrow> c # crlf cs @ [CHR 0x00])"
  by (cases t) (simp_all add: printk_def printk_loop_text del: printk_loop.simps(2))

text \<open>Theorem: a log message reaches the port. If the transmitter keeps becoming ready and the serial
  lock is free, \<open>LogStr\<close> returns, has sent the bracketed module name and the message, with a
  carriage return before each newline after the first character, and has given the lock back.\<close>

theorem LogStr_delivers:
  assumes "uart_fair s" "lock_free (com1_lock s)" "current_cpu s \<noteq> -1"
  shows "\<exists>s'. LogStr m (c # cs) s = Some s' \<and> lock_free (com1_lock s') \<and>
     port_out s' = port_out s @ sent (''['' @ emit_text (printk m) @ ''] '' @ c # crlf cs @ [CHR 0x00])"
  using with_com1_fair [OF assms, of "log_prefix m @ printk (c # cs)"]
  by (auto simp: LogStr_def log_prefix_def printk_text)

text \<open>A state to run the log in: the transmitter is always ready.\<close>

definition quiet_machine :: log_state where
  "quiet_machine =
     \<lparr>mem = (\<lambda>_. 0), msr = (\<lambda>_. 0), cr2 = 0, cr3 = 0, cr8 = 0, iflag = True,
      port_in = (\<lambda>_ _. 0x20), port_reads = (\<lambda>_. 0), port_out = [], klog = [],
      percpu_off = (\<lambda>v. case v of V_cpu_state \<Rightarrow> 0 | V_irq \<Rightarrow> 8 | V_sil \<Rightarrow> 16 | V_cpu_id \<Rightarrow> 24
                               | V_tss \<Rightarrow> 32 | V_dog \<Rightarrow> 40),
      percpu_start = 0, percpu_end = 48, com1_lock = unlocked\<rparr>"

lemma quiet_machine_ready:
  "uart_fair quiet_machine" "lock_free (com1_lock quiet_machine)" "current_cpu quiet_machine \<noteq> -1"
  by (auto simp: quiet_machine_def uart_fair_def current_cpu_def ispercpuready_iff)

theorem LogStr_delivers_witness:
  "\<exists>s'. LogStr ''acpi'' ''ok'' quiet_machine = Some s' \<and> lock_free (com1_lock s') \<and>
     port_out s' = port_out quiet_machine @
       sent (''['' @ emit_text (printk ''acpi'') @ ''] '' @ CHR ''o'' # crlf ''k'' @ [CHR 0x00])"
  by (rule LogStr_delivers [OF quiet_machine_ready])

text \<open>Property C26: a formatted message is sent exactly as the formatter renders it, after the module
  prefix, whenever the formatter is defined on its arguments.\<close>

theorem LogfStr_delivers:
  assumes "uart_fair s" "lock_free (com1_lock s)" "current_cpu s \<noteq> -1" "vlog fmt args = Some es"
  shows "\<exists>s'. LogfStr m fmt args s = Some s' \<and> lock_free (com1_lock s') \<and>
     port_out s' = port_out s @ sent (''['' @ emit_text (printk m) @ ''] '' @ emit_text es)"
  using with_com1_fair [OF assms(1-3), of "log_prefix m @ es"] assms(4)
  by (auto simp: LogfStr_def log_prefix_def)

theorem LogfStr_delivers_witness:
  "\<exists>s'. LogfStr ''dog'' ''a%%b'' [] quiet_machine = Some s' \<and> lock_free (com1_lock s') \<and>
     port_out s' = port_out quiet_machine @
       sent (''['' @ emit_text (printk ''dog'') @ ''] '' @
             emit_text [Putc CHR ''a'', Putc CHR ''%'', Putc CHR ''b''])"
  by (rule LogfStr_delivers [OF quiet_machine_ready])
    (simp add: vlog_def vlog_spec_def)

section \<open>Raw output\<close>

lemma LogRaw_loop_text:
  "emit_text (LogRaw_loop m b i n) =
     map (\<lambda>k. char_of (unat (m (b + ucast (i + of_nat k :: u16))))) [0..<n]"
proof (induction n arbitrary: i)
  case 0
  then show ?case by simp
next
  case (Suc n)
  have "[0..<Suc n] = 0 # map Suc [0..<n]" by (simp only: upt_conv_Cons map_Suc_upt zero_less_Suc)
  with Suc [of "i + 1"] show ?case by (simp add: add.assoc comp_def del: upt_Suc)
qed

text \<open>Theorem: \<open>LogRaw\<close> sends \<open>len\<close> bytes, but its index is 16 bits wide: byte \<open>k\<close> of the output is
  byte \<open>k mod 65536\<close> of the buffer, so a buffer beyond 64 KiB is not sent.\<close>

theorem LogRaw_wraps:
  "emit_text (LogRaw_loop m b 0 n) = map (\<lambda>k. char_of (unat (m (b + of_nat (k mod 65536))))) [0..<n]"
proof -
  have "ucast (of_nat k :: u16) = (of_nat (k mod 65536) :: u64)" for k
    by (simp add: unsigned_of_nat take_bit_eq_mod of_nat_mod)
  then show ?thesis by (simp add: LogRaw_loop_text)
qed

end
