(* ===== verification/PageAlloc.thy ===== *)
theory PageAlloc
  imports Logging
begin

text \<open>
  The physical page allocator, the first half of \<^verbatim>\<open>memory/memory.c\<close>: \<open>memory_init\<close> fills the page
  list from the boot loader's memory map, \<open>KGetPage\<close> and \<open>__giverawpage\<close> hand pages out,
  \<open>retpage\<close> takes one back. The array of 10000 entries with its counter \<open>pages\<close> is the list of its
  first \<open>pages\<close> entries. The locale \<open>frame_allocator\<close> states what a page allocator promises its
  clients, and both ways to get a page are interpreted in it. The lemmas give the exact contents
  of the page list after initialisation and the behaviour of the operations on every branch.
\<close>

section \<open>State\<close>

record page =
  start :: u64
  used :: bool

record memory_state = log_state +
  page_list :: "page list"
  memory_lock :: lock_t
  hhdm_offset :: u64
  memory_inited :: bool

text \<open>The memory map of the boot protocol.\<close>

record limine_memmap_entry =
  mm_base :: u64
  mm_length :: u64
  mm_type :: u64

definition LIMINE_MEMMAP_USABLE :: u64 where "LIMINE_MEMMAP_USABLE = 0"
definition LIMINE_MEMMAP_BAD_MEMORY :: u64 where "LIMINE_MEMMAP_BAD_MEMORY = 4"

section \<open>Initialisation\<close>

text \<open>\<open>KiB(4)\<close> is the token sequence \<open>(4) * 1024\<close>, without brackets around the product: in
  \<open>length / KiB(4)\<close> the division comes first.\<close>

definition region_page_count :: "u64 \<Rightarrow> u64" where
  "region_page_count len = len div 4 * 1024"

definition region_page :: "u64 \<Rightarrow> nat \<Rightarrow> u64" where
  "region_page b p = b + (of_nat p * 4 * 1024)"

text \<open>The loop over the pages of a region; the flag of the result says that it left by \<open>goto end\<close>.\<close>

function register_loop :: "u64 \<Rightarrow> nat \<Rightarrow> nat \<Rightarrow> page list \<Rightarrow> page list \<times> bool" where
  "register_loop b p page_count pl =
     (if p < page_count then
        (if 10000 \<le> length pl then (pl, True)
         else if region_page b p < 0x100000 then register_loop b (Suc p) page_count pl
         else register_loop b (Suc p) page_count (pl @ [\<lparr>start = region_page b p, used = False\<rparr>]))
      else (pl, False))"
  by pat_completeness auto
termination
  by (relation "measure (\<lambda>(b, p, page_count, pl). page_count - p)") auto

declare register_loop.simps [simp del]

definition register_region :: "u64 \<Rightarrow> u64 \<Rightarrow> page list \<Rightarrow> page list \<times> bool" where
  "register_region b len pl =
     (if 10000 < length pl then (pl, False)
      else if b AND 0xFFF \<noteq> 0 then
        (let align_offset = 0x1000 - (b AND 0xFFF)
         in if len < align_offset then (pl, False)
            else register_loop (b + align_offset) 0 (unat (region_page_count (len - align_offset))) pl)
      else register_loop b 0 (unat (region_page_count len)) pl)"

fun memory_init_loop ::
  "limine_memmap_entry list \<Rightarrow> 'a memory_state_scheme \<Rightarrow> 'a memory_state_scheme" where
  "memory_init_loop [] s = s"
| "memory_init_loop (e # es) s =
     (if mm_type e = LIMINE_MEMMAP_BAD_MEMORY then
        memory_init_loop es
          (LogfStr_event ''memory'' (''Length %llu '' @ [CHR 0x0D, CHR 0x0A]) [IntArg (mm_length e)]
            (LogfStr_event ''memory'' (''Bad memory at %llu '' @ [CHR 0x0A]) [IntArg (mm_base e)] s))
      else if mm_type e = LIMINE_MEMMAP_USABLE then
        (let (pl, finished) = register_region (mm_base e) (mm_length e) (page_list s);
             s' = s\<lparr>page_list := pl\<rparr>
         in if finished then s' else memory_init_loop es s')
      else memory_init_loop es s)"

definition memory_init ::
  "limine_memmap_entry list \<Rightarrow> u64 \<Rightarrow> ('a memory_state_scheme, int) routine" where
  "memory_init memmap offset s =
     (Ret 0, (memory_init_loop memmap (s\<lparr>hhdm_offset := offset\<rparr>))\<lparr>memory_inited := True\<rparr>)"

section \<open>Allocation\<close>

primrec first_unused :: "page list \<Rightarrow> nat" where
  "first_unused [] = 0"
| "first_unused (p # ps) = (if used p then Suc (first_unused ps) else 0)"

definition KGetPage :: "('a memory_state_scheme, u64) routine" where
  "KGetPage s =
     (case aquire_lock (current_cpu s) (memory_lock s) of
        None \<Rightarrow> (NoReturn, s)
      | Some l \<Rightarrow>
          (let s1 = s\<lparr>memory_lock := l\<rparr>; pl = page_list s; i = first_unused pl
           in if i = length pl then (Ret 0, s1)
              else (Ret (start (pl ! i) + hhdm_offset s),
                    s1\<lparr>page_list := pl[i := (pl ! i)\<lparr>used := True\<rparr>], memory_lock := release_lock l\<rparr>)))"

definition giverawpage :: "('a memory_state_scheme, u64) routine" where
  "giverawpage s =
     (case aquire_lock (current_cpu s) (memory_lock s) of
        None \<Rightarrow> (NoReturn, s)
      | Some l \<Rightarrow>
          (let s1 = s\<lparr>memory_lock := l\<rparr>; pl = page_list s; i = first_unused pl
           in if i = length pl then (Panic ''Raw Page requested but allocator exahusted'' STATUS_NOMEM, s1)
              else (Ret (start (pl ! i)),
                    s1\<lparr>page_list := pl[i := (pl ! i)\<lparr>used := True\<rparr>], memory_lock := release_lock l\<rparr>)))"

text \<open>\<open>retpage\<close> takes no lock.\<close>

fun retpage_loop :: "u64 \<Rightarrow> page list \<Rightarrow> page list \<Rightarrow> page list outcome" where
  "retpage_loop ptr acc [] = Panic ''Attempted deallocation of nonexistent page'' STATUS_UNKNOWN"
| "retpage_loop ptr acc (p # ps) =
     (if start p = ptr then
        (if used p then Ret (acc @ p\<lparr>used := False\<rparr> # ps)
         else Panic ''Attemped deallocation of unused page'' STATUS_UNKNOWN)
      else retpage_loop ptr (acc @ [p]) ps)"

definition retpage :: "u64 \<Rightarrow> ('a memory_state_scheme, unit) routine" where
  "retpage ptr s =
     (case retpage_loop (ptr - hhdm_offset s) [] (page_list s) of
        Ret pl \<Rightarrow> (Ret (), s\<lparr>page_list := pl\<rparr>)
      | Panic msg code \<Rightarrow> (Panic msg code, s)
      | FiPanic msg \<Rightarrow> (FiPanic msg, s)
      | Stopped \<Rightarrow> (Stopped, s)
      | NoReturn \<Rightarrow> (NoReturn, s))"

section \<open>What an allocator promises\<close>

text \<open>A number of calls in a row.\<close>

primrec get_many :: "('s, u64) routine \<Rightarrow> nat \<Rightarrow> ('s, u64 list) routine" where
  "get_many get 0 = return []"
| "get_many get (Suc n) = bind get (\<lambda>p. bind (get_many get n) (\<lambda>ps. return (p # ps)))"

text \<open>\<open>free_of\<close> is the set of addresses it can hand out, \<open>taken_of\<close> the set it has handed out.\<close>

locale frame_allocator =
  fixes get :: "'s \<Rightarrow> u64 outcome \<times> 's"
    and give_back :: "u64 \<Rightarrow> 's \<Rightarrow> unit outcome \<times> 's"
    and free_of :: "'s \<Rightarrow> u64 set"
    and taken_of :: "'s \<Rightarrow> u64 set"
    and ready :: "'s \<Rightarrow> bool"
  assumes get_law: "\<lbrakk>ready s; free_of s \<noteq> {}\<rbrakk> \<Longrightarrow> \<exists>p s'. get s = (Ret p, s') \<and> p \<in> free_of s \<and>
      free_of s' = free_of s - {p} \<and> taken_of s' = insert p (taken_of s) \<and> ready s'"
    and give_back_law: "\<lbrakk>ready s; p \<in> taken_of s\<rbrakk> \<Longrightarrow> \<exists>s'. give_back p s = (Ret (), s') \<and>
      free_of s' = insert p (free_of s) \<and> taken_of s' = taken_of s - {p} \<and> ready s'"
    and disjoint_law: "ready s \<Longrightarrow> free_of s \<inter> taken_of s = {}"
begin

text \<open>Any number of pages up to the number of free ones can be had, all different, and none of them was
  in use before.\<close>

lemma get_many_distinct:
  assumes "ready s" and "finite (free_of s)" and "n \<le> card (free_of s)"
  shows "\<exists>ps s'. get_many get n s = (Ret ps, s') \<and> length ps = n \<and> distinct ps \<and>
     set ps \<subseteq> free_of s \<and> free_of s' = free_of s - set ps \<and>
     taken_of s' = set ps \<union> taken_of s \<and> ready s'"
  using assms
proof (induction n arbitrary: s)
  case 0
  then show ?case by (simp add: return_def)
next
  case (Suc n)
  then have "free_of s \<noteq> {}" by auto
  from get_law [OF Suc.prems(1) this] obtain p s1 where p: "get s = (Ret p, s1)" "p \<in> free_of s"
    "free_of s1 = free_of s - {p}" "taken_of s1 = insert p (taken_of s)" "ready s1" by auto
  have "n \<le> card (free_of s1)" "finite (free_of s1)" using Suc.prems p by (simp_all add: card_Diff_singleton)
  from Suc.IH [OF p(5) this(2,1)] obtain ps s2 where ps: "get_many get n s1 = (Ret ps, s2)" "length ps = n"
    "distinct ps" "set ps \<subseteq> free_of s1" "free_of s2 = free_of s1 - set ps"
    "taken_of s2 = set ps \<union> taken_of s1" "ready s2" by auto
  have "get_many get (Suc n) s = (Ret (p # ps), s2)"
    using p(1) ps(1) by (simp add: bind_def return_def)
  then show ?case using p ps by (intro exI [of _ "p # ps"] exI [of _ s2]) auto
qed

text \<open>Handing a page back restores the allocator.\<close>

lemma get_then_give_back:
  assumes "ready s" and "free_of s \<noteq> {}"
  shows "\<exists>p s' s''. get s = (Ret p, s') \<and> give_back p s' = (Ret (), s'') \<and>
     free_of s'' = free_of s \<and> taken_of s'' = taken_of s \<and> ready s''"
proof -
  from get_law [OF assms] obtain p s' where p: "get s = (Ret p, s')" "p \<in> free_of s"
    "free_of s' = free_of s - {p}" "taken_of s' = insert p (taken_of s)" "ready s'" by auto
  moreover from give_back_law [OF p(5), of p] p(4) obtain s''
    where "give_back p s' = (Ret (), s'')" "free_of s'' = insert p (free_of s')"
      "taken_of s'' = taken_of s' - {p}" "ready s''" by auto
  moreover have "p \<notin> taken_of s" using disjoint_law [OF assms(1)] p(2) by auto
  ultimately show ?thesis by auto
qed

end

section \<open>The page list\<close>

definition free_frames :: "'a memory_state_scheme \<Rightarrow> u64 set" where
  "free_frames s = {start p | p. p \<in> set (page_list s) \<and> \<not> used p}"

definition used_frames :: "'a memory_state_scheme \<Rightarrow> u64 set" where
  "used_frames s = {start p | p. p \<in> set (page_list s) \<and> used p}"

lemma free_frames_filter: "free_frames s = start ` set (filter (\<lambda>p. \<not> used p) (page_list s))"
  by (auto simp: free_frames_def)

definition alloc_ready :: "'a memory_state_scheme \<Rightarrow> bool" where
  "alloc_ready s \<longleftrightarrow> lock_free (memory_lock s) \<and> current_cpu s \<noteq> -1 \<and> distinct (map start (page_list s))"

lemma first_unused_le: "first_unused pl \<le> length pl"
  by (induction pl) auto

lemma first_unused_unused: "first_unused pl < length pl \<Longrightarrow> \<not> used (pl ! first_unused pl)"
  by (induction pl) auto

lemma first_unused_full: "first_unused pl = length pl \<longleftrightarrow> (\<forall>p \<in> set pl. used p)"
  by (induction pl) (auto simp: first_unused_le)

lemma first_unused_lowest: "i < first_unused pl \<Longrightarrow> used (pl ! i)"
  by (induction pl arbitrary: i) (auto simp: nth_Cons' split: if_splits)

text \<open>Setting the flag of entry \<open>i\<close>, in terms of the two sets.\<close>

lemma frames_set_used:
  assumes "distinct (map start pl)" "i < length pl"
  shows "{start p | p. p \<in> set (pl[i := (pl ! i)\<lparr>used := b\<rparr>]) \<and> used p} =
           {start p | p. p \<in> set pl \<and> used p} - {start (pl ! i)} \<union> (if b then {start (pl ! i)} else {})"
    and "{start p | p. p \<in> set (pl[i := (pl ! i)\<lparr>used := b\<rparr>]) \<and> \<not> used p} =
           {start p | p. p \<in> set pl \<and> \<not> used p} - {start (pl ! i)} \<union> (if b then {} else {start (pl ! i)})"
proof -
  define q where "q = pl ! i"
  have q: "q \<in> set pl" using assms(2) by (simp add: q_def)
  have upd: "set (pl[i := q\<lparr>used := b\<rparr>]) = insert (q\<lparr>used := b\<rparr>) (set pl - {q})"
    using assms by (simp add: q_def set_update_distinct distinct_map)
  have inj: "p = q" if "p \<in> set pl" "start p = start q" for p
    using assms(1) that q by (auto simp: distinct_map inj_on_def)
  show "{start p | p. p \<in> set (pl[i := (pl ! i)\<lparr>used := b\<rparr>]) \<and> used p} =
      {start p | p. p \<in> set pl \<and> used p} - {start (pl ! i)} \<union> (if b then {start (pl ! i)} else {})"
    unfolding q_def [symmetric] upd using inj by (cases b) (auto intro: exI [of _ "q\<lparr>used := b\<rparr>"])
  show "{start p | p. p \<in> set (pl[i := (pl ! i)\<lparr>used := b\<rparr>]) \<and> \<not> used p} =
      {start p | p. p \<in> set pl \<and> \<not> used p} - {start (pl ! i)} \<union> (if b then {} else {start (pl ! i)})"
    unfolding q_def [symmetric] upd using inj by (cases b) (auto intro: exI [of _ "q\<lparr>used := b\<rparr>"])
qed

lemma starts_set_used [simp]: "map start (pl[i := (pl ! i)\<lparr>used := b\<rparr>]) = map start pl"
  by (cases "i < length pl") (simp_all add: map_update list_update_same_conv list_update_beyond)

lemma current_cpu_alloc [simp]:
  "current_cpu (s\<lparr>page_list := pl\<rparr>) = current_cpu s"
  "current_cpu (s\<lparr>memory_lock := l\<rparr>) = current_cpu s"
  "current_cpu (s\<lparr>page_list := pl, memory_lock := l\<rparr>) = current_cpu s"
  by (simp_all add: current_cpu_def ispercpuready_iff percpu_read_def percpu_offsetof_def)

lemma free_frames_empty: "free_frames s = {} \<longleftrightarrow> first_unused (page_list s) = length (page_list s)"
  by (auto simp: free_frames_def first_unused_full)

lemma aquire_ready:
  "alloc_ready s \<Longrightarrow> aquire_lock (current_cpu s) (memory_lock s) =
     Some \<lparr>held = True, holding_cpu = current_cpu s\<rparr>"
  by (auto simp: alloc_ready_def lock_free_def aquire_lock_def lock_t_set_both)

lemma release_any [simp]: "release_lock l = unlocked"
  by (simp add: release_lock_def unlocked_def lock_t_set_both)

lemma giverawpage_free:
  assumes "alloc_ready s" "free_frames s \<noteq> {}"
  obtains i where "i = first_unused (page_list s)" "i < length (page_list s)"
    "start (page_list s ! i) \<in> free_frames s"
    "giverawpage s = (Ret (start (page_list s ! i)),
       s\<lparr>page_list := (page_list s)[i := (page_list s ! i)\<lparr>used := True\<rparr>], memory_lock := unlocked\<rparr>)"
proof (rule that)
  show lt: "first_unused (page_list s) < length (page_list s)"
    using assms(2) first_unused_le [of "page_list s"] by (auto simp: free_frames_empty le_less)
  show "start (page_list s ! first_unused (page_list s)) \<in> free_frames s"
    using first_unused_unused [OF lt] lt by (auto simp: free_frames_def)
  show "giverawpage s = (Ret (start (page_list s ! first_unused (page_list s))),
       s\<lparr>page_list := (page_list s)[first_unused (page_list s) :=
           (page_list s ! first_unused (page_list s))\<lparr>used := True\<rparr>], memory_lock := unlocked\<rparr>)"
    using lt assms(1) by (simp add: giverawpage_def aquire_ready Let_def)
qed simp

lemma KGetPage_giverawpage:
  "first_unused (page_list s) < length (page_list s) \<Longrightarrow>
   KGetPage s = (case giverawpage s of (Ret p, s') \<Rightarrow> (Ret (p + hhdm_offset s), s') | (r, s') \<Rightarrow> (NoReturn, s'))"
  by (simp add: KGetPage_def giverawpage_def Let_def split: option.split)

lemma retpage_loop_eq:
  "retpage_loop ptr acc pl =
     (case List.find (\<lambda>i. start (pl ! i) = ptr) [0..<length pl] of
        None \<Rightarrow> Panic ''Attempted deallocation of nonexistent page'' STATUS_UNKNOWN
      | Some i \<Rightarrow>
          if used (pl ! i) then Ret (acc @ pl[i := (pl ! i)\<lparr>used := False\<rparr>])
          else Panic ''Attemped deallocation of unused page'' STATUS_UNKNOWN)"
proof (induction pl arbitrary: acc)
  case Nil
  then show ?case by simp
next
  case (Cons p ps)
  have "[0..<length (p # ps)] = 0 # map Suc [0..<length ps]"
    by (simp add: upt_conv_Cons map_Suc_upt del: upt_Suc)
  moreover have "List.find P (map Suc xs) = map_option Suc (List.find (P \<circ> Suc) xs)" for P xs
    by (induction xs) auto
  ultimately show ?case using Cons [of "acc @ [p]"]
    by (auto simp: comp_def split: option.split)
qed

lemma find_start:
  assumes "distinct (map start pl)" "i < length pl"
  shows "List.find (\<lambda>j. start (pl ! j) = start (pl ! i)) [0..<length pl] = Some i"
proof -
  have "start (pl ! j) = start (pl ! i) \<longleftrightarrow> j = i" if "j < length pl" for j
    using assms that by (auto simp: distinct_conv_nth)
  then show ?thesis using assms(2) by (auto simp: find_Some_iff intro!: exI [of _ i])
qed

lemma retpage_used:
  assumes "distinct (map start (page_list s))" "p \<in> used_frames s"
  obtains i where "i < length (page_list s)" "start (page_list s ! i) = p"
    "retpage (p + hhdm_offset s) s =
       (Ret (), s\<lparr>page_list := (page_list s)[i := (page_list s ! i)\<lparr>used := False\<rparr>]\<rparr>)"
proof -
  from assms(2) obtain i where i: "i < length (page_list s)" "start (page_list s ! i) = p"
    "used (page_list s ! i)" by (auto simp: used_frames_def in_set_conv_nth)
  with find_start [OF assms(1) i(1)] have "retpage (p + hhdm_offset s) s =
       (Ret (), s\<lparr>page_list := (page_list s)[i := (page_list s ! i)\<lparr>used := False\<rparr>]\<rparr>)"
    by (simp add: retpage_def retpage_loop_eq)
  with i that show ?thesis by blast
qed

lemma frames_disjoint: "distinct (map start (page_list s)) \<Longrightarrow> free_frames s \<inter> used_frames s = {}"
  by (auto simp: free_frames_def used_frames_def distinct_map dest: inj_onD)

lemma giverawpage_law:
  assumes "alloc_ready s" "free_frames s \<noteq> {}"
  shows "\<exists>p s'. giverawpage s = (Ret p, s') \<and> p \<in> free_frames s \<and> free_frames s' = free_frames s - {p} \<and>
     used_frames s' = insert p (used_frames s) \<and> alloc_ready s' \<and>
     (\<exists>pl. s' = s\<lparr>page_list := pl, memory_lock := unlocked\<rparr> \<and> map start pl = map start (page_list s))"
proof -
  from assms obtain i where i: "i < length (page_list s)" "start (page_list s ! i) \<in> free_frames s"
    "giverawpage s = (Ret (start (page_list s ! i)),
       s\<lparr>page_list := (page_list s)[i := (page_list s ! i)\<lparr>used := True\<rparr>], memory_lock := unlocked\<rparr>)"
    by (rule giverawpage_free)
  have d: "distinct (map start (page_list s))" using assms(1) by (simp add: alloc_ready_def)
  from i frames_set_used [OF d i(1), of True] assms(1) show ?thesis
    by (auto simp: free_frames_def used_frames_def alloc_ready_def)
qed

lemma retpage_law:
  assumes "alloc_ready s" "p \<in> used_frames s"
  shows "\<exists>s'. retpage (p + hhdm_offset s) s = (Ret (), s') \<and> free_frames s' = insert p (free_frames s) \<and>
     used_frames s' = used_frames s - {p} \<and> alloc_ready s' \<and> hhdm_offset s' = hhdm_offset s"
proof -
  have d: "distinct (map start (page_list s))" using assms(1) by (simp add: alloc_ready_def)
  from d assms(2) obtain i where i: "i < length (page_list s)" "start (page_list s ! i) = p"
    "retpage (p + hhdm_offset s) s =
       (Ret (), s\<lparr>page_list := (page_list s)[i := (page_list s ! i)\<lparr>used := False\<rparr>]\<rparr>)"
    by (rule retpage_used)
  have "p \<notin> free_frames s" using frames_disjoint [OF d] assms(2) by auto
  with i frames_set_used [OF d i(1), of False] assms(1) show ?thesis
    by (auto simp: free_frames_def used_frames_def alloc_ready_def)
qed

interpretation raw: frame_allocator giverawpage "\<lambda>p s. retpage (p + hhdm_offset s) s"
  free_frames used_frames alloc_ready
proof unfold_locales
  fix s :: "'a memory_state_scheme" and p
  show "\<exists>p s'. giverawpage s = (Ret p, s') \<and> p \<in> free_frames s \<and> free_frames s' = free_frames s - {p} \<and>
      used_frames s' = insert p (used_frames s) \<and> alloc_ready s'" if "alloc_ready s" "free_frames s \<noteq> {}"
    using giverawpage_law [OF that] by blast
  show "\<exists>s'. retpage (p + hhdm_offset s) s = (Ret (), s') \<and> free_frames s' = insert p (free_frames s) \<and>
      used_frames s' = used_frames s - {p} \<and> alloc_ready s'" if "alloc_ready s" "p \<in> used_frames s"
    using retpage_law [OF that] by blast
  show "free_frames s \<inter> used_frames s = {}" if "alloc_ready s"
    using that by (intro frames_disjoint) (simp add: alloc_ready_def)
qed

text \<open>The same sets as \<open>KGetPage\<close> and \<open>retpage\<close> see them: addresses in the direct map.\<close>

definition free_pages :: "'a memory_state_scheme \<Rightarrow> u64 set" where
  "free_pages s = (\<lambda>p. p + hhdm_offset s) ` free_frames s"

definition used_pages :: "'a memory_state_scheme \<Rightarrow> u64 set" where
  "used_pages s = (\<lambda>p. p + hhdm_offset s) ` used_frames s"

lemma KGetPage_law:
  assumes "alloc_ready s" "free_pages s \<noteq> {}"
  shows "\<exists>p s'. KGetPage s = (Ret p, s') \<and> p \<in> free_pages s \<and> free_pages s' = free_pages s - {p} \<and>
     used_pages s' = insert p (used_pages s) \<and> alloc_ready s'"
proof -
  have f: "free_frames s \<noteq> {}" using assms(2) by (simp add: free_pages_def)
  from giverawpage_law [OF assms(1) f] obtain p s' where p: "giverawpage s = (Ret p, s')"
    "p \<in> free_frames s" "free_frames s' = free_frames s - {p}" "used_frames s' = insert p (used_frames s)"
    "alloc_ready s'" "hhdm_offset s' = hhdm_offset s" by auto
  have "first_unused (page_list s) < length (page_list s)"
    using f first_unused_le [of "page_list s"] by (auto simp: free_frames_empty le_less)
  then have "KGetPage s = (Ret (p + hhdm_offset s), s')"
    using p(1) by (simp add: KGetPage_giverawpage)
  with p show ?thesis by (auto simp: free_pages_def used_pages_def image_set_diff inj_on_def)
qed

interpretation kpage: frame_allocator KGetPage retpage free_pages used_pages alloc_ready
proof unfold_locales
  fix s :: "'a memory_state_scheme" and p
  show "\<exists>p s'. KGetPage s = (Ret p, s') \<and> p \<in> free_pages s \<and> free_pages s' = free_pages s - {p} \<and>
      used_pages s' = insert p (used_pages s) \<and> alloc_ready s'" if "alloc_ready s" "free_pages s \<noteq> {}"
    using that by (rule KGetPage_law)
  show "\<exists>s'. retpage p s = (Ret (), s') \<and> free_pages s' = insert p (free_pages s) \<and>
      used_pages s' = used_pages s - {p} \<and> alloc_ready s'" if "alloc_ready s" "p \<in> used_pages s"
  proof -
    from that(2) obtain q where q: "p = q + hhdm_offset s" "q \<in> used_frames s"
      by (auto simp: used_pages_def)
    from retpage_law [OF that(1) q(2)] q(1) show ?thesis
      by (auto simp: free_pages_def used_pages_def image_set_diff inj_on_def)
  qed
  show "free_pages s \<inter> used_pages s = {}" if "alloc_ready s"
    using raw.disjoint_law [OF that] by (auto simp: free_pages_def used_pages_def)
qed

lemma retpage_free:
  assumes "distinct (map start (page_list s))" and "p \<in> free_pages s"
  shows "retpage p s = (Panic ''Attemped deallocation of unused page'' STATUS_UNKNOWN, s)"
proof -
  from assms(2) obtain i where i: "p - hhdm_offset s = start (page_list s ! i)" "i < length (page_list s)"
    "\<not> used (page_list s ! i)" by (auto simp: free_pages_def free_frames_def in_set_conv_nth)
  with find_start [OF assms(1) i(2)] show ?thesis
    by (simp add: retpage_def retpage_loop_eq)
qed

lemma retpage_unknown:
  assumes "p \<notin> free_pages s" "p \<notin> used_pages s"
  shows "retpage p s = (Panic ''Attempted deallocation of nonexistent page'' STATUS_UNKNOWN, s)"
proof -
  have "start q \<noteq> p - hhdm_offset s" if "q \<in> set (page_list s)" for q
  proof
    assume "start q = p - hhdm_offset s"
    then have "p = start q + hhdm_offset s" by simp
    with that assms show False
      by (cases "used q") (auto simp: free_pages_def used_pages_def free_frames_def used_frames_def)
  qed
  then have "List.find (\<lambda>i. start (page_list s ! i) = p - hhdm_offset s) [0..<length (page_list s)] = None"
    by (auto simp: find_None_iff)
  then show ?thesis by (simp add: retpage_def retpage_loop_eq)
qed

lemma finite_free_pages [simp]: "finite (free_pages s)"
proof -
  have "free_frames s \<subseteq> start ` set (page_list s)" by (auto simp: free_frames_def)
  then show ?thesis unfolding free_pages_def by (intro finite_imageI) (rule finite_subset, simp_all)
qed

section \<open>Properties of the allocator\<close>

text \<open>Property C4: as many calls of \<open>KGetPage\<close> as there are free pages all succeed and return different
  pages, every one of them free before, and the allocator accounts for exactly those pages as used.\<close>

theorem KGetPage_pages_distinct:
  assumes "alloc_ready s" and "n \<le> card (free_pages s)"
  shows "\<exists>ps s'. get_many KGetPage n s = (Ret ps, s') \<and> length ps = n \<and> distinct ps \<and>
     set ps \<subseteq> free_pages s \<and> free_pages s' = free_pages s - set ps \<and>
     used_pages s' = set ps \<union> used_pages s \<and> alloc_ready s'"
  by (rule kpage.get_many_distinct [OF assms(1) finite_free_pages assms(2)])

text \<open>A small state of the allocator.\<close>

definition two_pages :: memory_state where
  "two_pages = log_state.extend quiet_machine
     \<lparr>page_list = [\<lparr>start = 0x100000, used = False\<rparr>, \<lparr>start = 0x101000, used = False\<rparr>],
      memory_lock = unlocked, hhdm_offset = 0xFFFF800000000000, memory_inited = True\<rparr>"

lemma two_pages_fields:
  "page_list two_pages = [\<lparr>start = 0x100000, used = False\<rparr>, \<lparr>start = 0x101000, used = False\<rparr>]"
  "memory_lock two_pages = unlocked" "hhdm_offset two_pages = 0xFFFF800000000000" "current_cpu two_pages = 0"
  by (simp_all add: two_pages_def log_state.extend_def quiet_machine_def current_cpu_def ispercpuready_iff)

lemma two_pages_ready: "alloc_ready two_pages" "free_pages two_pages = {0xFFFF800000100000, 0xFFFF800000101000}"
proof -
  show "alloc_ready two_pages" by (simp add: alloc_ready_def two_pages_fields)
  show "free_pages two_pages = {0xFFFF800000100000, 0xFFFF800000101000}"
    by (simp add: free_pages_def free_frames_filter two_pages_fields)
qed

theorem KGetPage_pages_distinct_witness:
  "\<exists>ps s'. get_many KGetPage 2 two_pages = (Ret ps, s') \<and> length ps = 2 \<and> distinct ps \<and>
     set ps \<subseteq> free_pages two_pages \<and> free_pages s' = free_pages two_pages - set ps \<and>
     used_pages s' = set ps \<union> used_pages two_pages \<and> alloc_ready s'"
  by (rule KGetPage_pages_distinct) (simp_all add: two_pages_ready)

text \<open>Property C19: a page taken with \<open>KGetPage\<close> can be given back with \<open>retpage\<close>, and then the free and the
  used pages are what they were.\<close>

theorem KGetPage_retpage:
  assumes "alloc_ready s" and "free_pages s \<noteq> {}"
  shows "\<exists>p s' s''. KGetPage s = (Ret p, s') \<and> retpage p s' = (Ret (), s'') \<and>
     free_pages s'' = free_pages s \<and> used_pages s'' = used_pages s \<and> alloc_ready s''"
  by (rule kpage.get_then_give_back [OF assms])

theorem KGetPage_retpage_witness:
  "\<exists>p s' s''. KGetPage two_pages = (Ret p, s') \<and> retpage p s' = (Ret (), s'') \<and>
     free_pages s'' = free_pages two_pages \<and> used_pages s'' = used_pages two_pages \<and> alloc_ready s''"
  by (rule KGetPage_retpage) (simp_all add: two_pages_ready)

text \<open>Theorem: \<open>KGetPage\<close> without a free page returns the null pointer and keeps the memory lock: no
  other CPU ever gets through \<open>aquire_lock\<close> on it again.\<close>

theorem KGetPage_exhausted_keeps_lock:
  assumes "lock_free (memory_lock s)" "current_cpu s \<noteq> -1" "free_frames s = {}"
  shows "\<exists>s'. KGetPage s = (Ret 0, s') \<and> (\<forall>d. d = current_cpu s \<or> aquire_lock d (memory_lock s') = None)"
proof -
  obtain l where l: "aquire_lock (current_cpu s) (memory_lock s) = Some l"
    using spin.section_restores [OF assms(1,2)] by blast
  show ?thesis
  proof (intro exI conjI allI)
    show "KGetPage s = (Ret 0, s\<lparr>memory_lock := l\<rparr>)"
      using assms(3) l by (simp add: KGetPage_def free_frames_empty Let_def)
    fix d
    show "d = current_cpu s \<or> aquire_lock d (memory_lock (s\<lparr>memory_lock := l\<rparr>)) = None"
      using spin.leak_blocks [OF assms(1,2) l, of d] by (cases "d = current_cpu s") simp_all
  qed
qed

theorem KGetPage_exhausted_keeps_lock_witness:
  "\<exists>s'. KGetPage (two_pages\<lparr>page_list := []\<rparr>) = (Ret 0, s') \<and>
     (\<forall>d. d = current_cpu (two_pages\<lparr>page_list := []\<rparr>) \<or> aquire_lock d (memory_lock s') = None)"
  by (rule KGetPage_exhausted_keeps_lock) (simp_all add: two_pages_fields free_frames_def)

text \<open>Property C28: \<open>retpage\<close> rejects what was not handed out. For an address of a page that is not in use, and
  for one that is no page at all, it panics with the matching message and changes nothing.\<close>

theorem retpage_rejects:
  assumes "distinct (map start (page_list s))"
  shows "retpage p s =
     (if p \<in> free_pages s then (Panic ''Attemped deallocation of unused page'' STATUS_UNKNOWN, s)
      else if p \<notin> used_pages s then (Panic ''Attempted deallocation of nonexistent page'' STATUS_UNKNOWN, s)
      else (Ret (), snd (retpage p s)))"
proof -
  consider "p \<in> free_pages s" | "p \<notin> free_pages s" "p \<notin> used_pages s" | "p \<notin> free_pages s" "p \<in> used_pages s"
    by blast
  then show ?thesis
  proof cases
    case 1
    then show ?thesis using retpage_free [OF assms 1] by simp
  next
    case 2
    then show ?thesis using retpage_unknown [OF 2] by simp
  next
    case 3
    then obtain q where q: "p = q + hhdm_offset s" "q \<in> used_frames s" by (auto simp: used_pages_def)
    obtain s' where "retpage p s = (Ret (), s')" using retpage_used [OF assms q(2)] q(1) by metis
    with 3 show ?thesis by simp
  qed
qed

theorem retpage_rejects_witness:
  "retpage 0xFFFF800000101000 two_pages = (Panic ''Attemped deallocation of unused page'' STATUS_UNKNOWN, two_pages) \<and>
   retpage 0x42 two_pages = (Panic ''Attempted deallocation of nonexistent page'' STATUS_UNKNOWN, two_pages)"
proof -
  have d: "distinct (map start (page_list two_pages))" by (simp add: two_pages_fields)
  have u: "used_pages two_pages = {}" by (auto simp: used_pages_def used_frames_def two_pages_fields)
  show ?thesis
    using retpage_rejects [OF d, of "0xFFFF800000101000"] retpage_rejects [OF d, of "0x42"]
    by (simp add: two_pages_ready u)
qed

section \<open>Properties of the initialisation\<close>

text \<open>The pages a memory map entry contributes, in order: as many from its aligned base on as
  \<open>region_page_count\<close> says, which is far more than the entry holds, without those below 1 MiB.\<close>

definition candidate_pages :: "u64 \<Rightarrow> nat \<Rightarrow> nat \<Rightarrow> page list" where
  "candidate_pages b p n =
     map (\<lambda>a. \<lparr>start = a, used = False\<rparr>) (filter (\<lambda>a. 0x100000 \<le> a) (map (region_page b) [p..<n]))"

definition entry_pages :: "limine_memmap_entry \<Rightarrow> page list" where
  "entry_pages e =
     (let pad = (- mm_base e) AND 0xFFF
      in if mm_type e = LIMINE_MEMMAP_USABLE \<and> pad \<le> mm_length e
         then candidate_pages (mm_base e + pad) 0 (unat (region_page_count (mm_length e - pad)))
         else [])"

lemma register_loop_pages:
  assumes "length pl \<le> 10000"
  shows "fst (register_loop b p n pl) = pl @ take (10000 - length pl) (candidate_pages b p n) \<and>
     (snd (register_loop b p n pl) \<longrightarrow> 10000 \<le> length pl + length (candidate_pages b p n))"
  using assms
proof (induction b p n pl rule: register_loop.induct)
  case (1 b p n pl)
  consider "n \<le> p" | "p < n" "length pl = 10000" | "p < n" "length pl < 10000" "region_page b p < 0x100000"
    | "p < n" "length pl < 10000" "\<not> region_page b p < 0x100000" using "1.prems" by linarith
  then show ?case
  proof cases
    case 1
    then show ?thesis by (simp add: register_loop.simps [of b p n pl] candidate_pages_def)
  next
    case 2
    then show ?thesis by (simp add: register_loop.simps [of b p n pl])
  next
    case 3
    then have "[p..<n] = p # [Suc p..<n]" by (simp add: upt_conv_Cons)
    with 3 have "candidate_pages b p n = candidate_pages b (Suc p) n"
      by (simp add: candidate_pages_def not_le)
    with 3 "1.IH"(1) show ?thesis by (simp add: register_loop.simps [of b p n pl])
  next
    case 4
    then have "[p..<n] = p # [Suc p..<n]" by (simp add: upt_conv_Cons)
    with 4 have "candidate_pages b p n = \<lparr>start = region_page b p, used = False\<rparr> # candidate_pages b (Suc p) n"
      by (simp add: candidate_pages_def not_less)
    moreover have "10000 - length pl = Suc (10000 - Suc (length pl))" using 4 by simp
    ultimately show ?thesis using 4 "1.IH"(2) by (simp add: register_loop.simps [of b p n pl])
  qed
qed

text \<open>The padding up to the next page boundary.\<close>

lemma page_pad:
  "b AND 0xFFF \<noteq> 0 \<Longrightarrow> 0x1000 - (b AND 0xFFF) = (- b) AND 0xFFF"
  "b AND 0xFFF = 0 \<Longrightarrow> (- b) AND 0xFFF = 0" for b :: u64
proof -
  have lt: "unat (x AND 0xFFF) < 4096" for x :: u64 by (simp add: unat_page_offset)
  have "4096 dvd unat (- b) + unat b"
    using unat_word_ariths(1) [of "- b" b] by (auto simp: mod_eq_0_iff_dvd dest: dvd_trans [rotated])
  then have d: "4096 dvd unat ((- b) AND 0xFFF) + unat (b AND 0xFFF)"
    by (simp add: unat_page_offset dvd_eq_mod_eq_0 mod_add_eq)
  show "0x1000 - (b AND 0xFFF) = (- b) AND 0xFFF" if "b AND 0xFFF \<noteq> 0"
  proof -
    have "0 < unat (b AND 0xFFF)" using that unat_eq_0 by blast
    moreover obtain k where "unat ((- b) AND 0xFFF) + unat (b AND 0xFFF) = 4096 * k" using d by (elim dvdE)
    moreover from calculation lt [of "- b"] lt [of b] have "k = 1" by linarith
    ultimately have e: "unat ((- b) AND 0xFFF) + unat (b AND 0xFFF) = 4096" by simp
    have "unat (0x1000 - (b AND 0xFFF)) = 4096 - unat (b AND 0xFFF)"
      using lt [of b] by (subst unat_sub) (simp_all add: word_le_nat_alt)
    with e show ?thesis by (intro word_unat_eq_iff [THEN iffD2]) simp
  qed
  show "(- b) AND 0xFFF = 0" if "b AND 0xFFF = 0"
  proof -
    have "unat (b AND 0xFFF) = 0" using that by simp
    with d lt [of "- b"] have "unat ((- b) AND 0xFFF) = 0" by (auto dest: dvd_imp_le)
    then show ?thesis using unat_eq_0 by blast
  qed
qed

lemma register_region_pages:
  assumes "length pl \<le> 10000" "mm_type e = LIMINE_MEMMAP_USABLE"
  shows "fst (register_region (mm_base e) (mm_length e) pl) = take 10000 (pl @ entry_pages e) \<and>
     (snd (register_region (mm_base e) (mm_length e) pl) \<longrightarrow> 10000 \<le> length pl + length (entry_pages e))"
proof (cases "mm_base e AND 0xFFF = 0")
  case True
  then show ?thesis using register_loop_pages [OF assms(1)] assms page_pad(2) [of "mm_base e"]
    by (simp add: register_region_def entry_pages_def)
next
  case False
  let ?pad = "(- mm_base e) AND 0xFFF"
  have pad: "0x1000 - (mm_base e AND 0xFFF) = ?pad" using page_pad(1) [OF False] .
  show ?thesis
  proof (cases "mm_length e < ?pad")
    case True
    with False pad assms show ?thesis by (auto simp: register_region_def entry_pages_def Let_def)
  next
    case False
    note lp = register_loop_pages [OF assms(1), of "mm_base e + ?pad" 0
        "unat (region_page_count (mm_length e - ?pad))"]
    from False \<open>mm_base e AND 0xFFF \<noteq> 0\<close> pad assms lp show ?thesis
      by (simp add: register_region_def entry_pages_def Let_def not_less)
  qed
qed

lemma page_list_log [simp]: "page_list (LogfStr_event md fmt args s) = page_list s"
  by (simp add: LogfStr_event_def)

lemma take_append_take: "take n (take n xs @ ys) = take n (xs @ ys)"
  by (cases "length xs \<le> n") (simp_all add: min_def)

lemma memory_init_loop_pages:
  "length (page_list s) \<le> 10000 \<Longrightarrow>
   page_list (memory_init_loop es s) = take 10000 (page_list s @ concat (map entry_pages es))"
proof (induction es arbitrary: s)
  case Nil
  then show ?case by simp
next
  case (Cons e es)
  show ?case
  proof (cases "mm_type e = LIMINE_MEMMAP_USABLE")
    case False
    with Cons show ?thesis by (auto simp: entry_pages_def)
  next
    case True
    obtain pl fin where r: "register_region (mm_base e) (mm_length e) (page_list s) = (pl, fin)"
      by (cases "register_region (mm_base e) (mm_length e) (page_list s)")
    from register_region_pages [OF Cons.prems True] r
    have pl: "pl = take 10000 (page_list s @ entry_pages e)"
      "fin \<Longrightarrow> 10000 \<le> length (page_list s) + length (entry_pages e)" by auto
    have "mm_type e \<noteq> LIMINE_MEMMAP_BAD_MEMORY"
      using True by (simp add: LIMINE_MEMMAP_USABLE_def LIMINE_MEMMAP_BAD_MEMORY_def)
    then have step: "memory_init_loop (e # es) s =
        (if fin then s\<lparr>page_list := pl\<rparr> else memory_init_loop es (s\<lparr>page_list := pl\<rparr>))"
      using True r by simp
    show ?thesis
    proof (cases fin)
      case True
      with step pl show ?thesis by simp
    next
      case False
      have "length (page_list (s\<lparr>page_list := pl\<rparr>)) \<le> 10000" using pl(1) by simp
      from Cons.IH [OF this] step False
      have "page_list (memory_init_loop (e # es) s) = take 10000 (pl @ concat (map entry_pages es))" by simp
      then show ?thesis unfolding pl(1) take_append_take by simp
    qed
  qed
qed

text \<open>Theorem: after \<open>memory_init\<close> the page list holds the pages that the code counts for the usable entries of the
  memory map, in the order of the map, cut off after 10000 pages, all of them unused; with the page count of the
  code, these are not only pages of the entries.\<close>

theorem memory_init_page_list:
  assumes "page_list s = []"
  shows "page_list (snd (memory_init memmap off s)) = take 10000 (concat (map entry_pages memmap))"
  using memory_init_loop_pages [of "s\<lparr>hhdm_offset := off\<rparr>" memmap] assms
  by (simp add: memory_init_def)

definition one_region :: "limine_memmap_entry list" where
  "one_region = [\<lparr>mm_base = 0x200000, mm_length = 40, mm_type = LIMINE_MEMMAP_USABLE\<rparr>]"

theorem memory_init_page_list_witness:
  "page_list (snd (memory_init one_region 0 (two_pages\<lparr>page_list := []\<rparr>))) =
     take 10000 (concat (map entry_pages one_region))"
  by (rule memory_init_page_list) simp

text \<open>Every candidate is page-aligned and not below 1 MiB.\<close>

lemma aligned_pad: "aligned 4096 (b + ((- b) AND 0xFFF))"
proof -
  have "4096 dvd unat b + unat (- b)"
    using unat_word_ariths(1) [of b "- b"] by (auto simp: mod_eq_0_iff_dvd dest: dvd_trans [rotated])
  then have "4096 dvd unat b + unat (- b) mod 4096"
    unfolding dvd_eq_mod_eq_0 by (simp only: mod_add_right_eq)
  then show ?thesis
    by (simp add: aligned_def unat_word_ariths unat_page_offset dvd_mod)
qed

lemma aligned_region_page: "aligned 4096 b \<Longrightarrow> aligned 4096 (region_page b p)"
proof -
  have "aligned 4096 (of_nat p * 4096)"
    by (simp add: aligned_def unat_word_ariths dvd_mod)
  moreover assume "aligned 4096 b"
  ultimately show ?thesis unfolding region_page_def
    by (simp add: aligned_add mult.assoc)
qed

lemma entry_pages_ok:
  assumes "p \<in> set (entry_pages e)"
  shows "aligned 4096 (start p) \<and> 0x100000 \<le> start p \<and> \<not> used p"
  using assms aligned_region_page [OF aligned_pad [of "mm_base e"]]
  by (auto simp: entry_pages_def candidate_pages_def Let_def split: if_splits)

text \<open>Theorem: \<open>memory_init\<close> never overflows the page list, and every page it registers is aligned to 4
  KiB, lies at or above 1 MiB and is unused. This is what the check of \<open>virtual_memory_init\<close> relies on.\<close>

theorem memory_init_pages_ok:
  assumes "page_list s = []"
  shows "length (page_list (snd (memory_init memmap off s))) \<le> 10000 \<and>
     list_all (\<lambda>p. aligned 4096 (start p) \<and> 0x100000 \<le> start p \<and> \<not> used p)
       (page_list (snd (memory_init memmap off s)))"
proof -
  have eq: "page_list (snd (memory_init memmap off s)) = take 10000 (concat (map entry_pages memmap))"
    using memory_init_loop_pages [of "s\<lparr>hhdm_offset := off\<rparr>" memmap] assms
    by (simp add: memory_init_def)
  have "aligned 4096 (start p) \<and> 0x100000 \<le> start p \<and> \<not> used p"
    if "p \<in> set (take 10000 (concat (map entry_pages memmap)))" for p
    using in_set_takeD [OF that] entry_pages_ok by (metis (no_types) UN_E set_concat set_map image_iff)
  then show ?thesis unfolding eq list_all_iff by simp
qed

theorem memory_init_pages_ok_witness:
  "length (page_list (snd (memory_init one_region 0 (two_pages\<lparr>page_list := []\<rparr>)))) \<le> 10000 \<and>
   list_all (\<lambda>p. aligned 4096 (start p) \<and> 0x100000 \<le> start p \<and> \<not> used p)
     (page_list (snd (memory_init one_region 0 (two_pages\<lparr>page_list := []\<rparr>))))"
  by (rule memory_init_pages_ok) simp

text \<open>The page count of a region is 1024 for every 4 bytes, not 1 for every 4096.\<close>

lemma candidate_pages_prefix:
  assumes "m \<le> n" "\<And>p. p < m \<Longrightarrow> 0x100000 \<le> region_page b p"
  shows "take m (candidate_pages b 0 n) = map (\<lambda>p. \<lparr>start = region_page b p, used = False\<rparr>) [0..<m]"
proof -
  have "[0..<n] = [0..<m] @ [m..<n]" using assms(1) upt_add_eq_append [of 0 m "n - m"] by simp
  moreover have "filter (\<lambda>a. 0x100000 \<le> a) (map (region_page b) [0..<m]) = map (region_page b) [0..<m]"
    using assms(2) by (auto simp: filter_id_conv)
  ultimately show ?thesis by (simp add: candidate_pages_def comp_def)
qed

lemma region_page_above:
  assumes "0x100000 \<le> b" "unat b + 40960000 \<le> 2 ^ 64" "p < 10000"
  shows "unat (region_page b p) = unat b + 4096 * p" "0x100000 \<le> region_page b p"
proof -
  have "unat (of_nat p * 4096 :: u64) = 4096 * p"
    using assms(3) by (simp add: unat_word_ariths unat_of_nat64)
  then show u: "unat (region_page b p) = unat b + 4096 * p"
    using assms by (simp add: region_page_def mult.assoc unat_word_ariths)
  then show "0x100000 \<le> region_page b p"
    using assms(1) by (simp add: word_le_nat_alt)
qed

text \<open>Property C9: a usable region of as few as 40 bytes fills the whole page list. If the map starts with an
  aligned usable entry above 1 MiB of at least 40 bytes, the allocator hands out the 10000 frames
  (40 MB) from its base, whatever the length of the entry is and whatever the rest of the map says
  about that memory.\<close>

theorem memory_init_overruns_region:
  assumes "page_list s = []" and "mm_type e = LIMINE_MEMMAP_USABLE" and "mm_base e AND 0xFFF = 0"
    and "0x100000 \<le> mm_base e" and "unat (mm_base e) + 40960000 \<le> 2 ^ 64"
    and "40 \<le> mm_length e" and "mm_length e < 2 ^ 56"
  shows "page_list (snd (memory_init (e # es) off s)) =
     map (\<lambda>p. \<lparr>start = mm_base e + of_nat (4096 * p), used = False\<rparr>) [0..<10000]"
proof -
  have "unat (mm_length e) < 2 ^ 56" "40 \<le> unat (mm_length e)"
    using assms(6,7) by (simp_all add: word_less_nat_alt word_le_nat_alt)
  moreover from this(2) have "10 \<le> unat (mm_length e) div 4" by linarith
  ultimately have c: "10000 \<le> unat (region_page_count (mm_length e))"
    by (simp add: region_page_count_def unat_word_ariths unat_div)
  have "entry_pages e = candidate_pages (mm_base e) 0 (unat (region_page_count (mm_length e)))"
    using assms page_pad(2) [of "mm_base e"] by (simp add: entry_pages_def)
  then have t: "take 10000 (entry_pages e) = map (\<lambda>p. \<lparr>start = region_page (mm_base e) p, used = False\<rparr>) [0..<10000]"
    using candidate_pages_prefix [OF c, of "mm_base e"] region_page_above(2) [OF assms(4,5)] by simp
  then have "length (take 10000 (entry_pages e)) = 10000" by simp
  then have "10000 \<le> length (entry_pages e)" by simp
  then have "take 10000 (concat (map entry_pages (e # es))) = take 10000 (entry_pages e)" by simp
  then show ?thesis
    using memory_init_loop_pages [of "s\<lparr>hhdm_offset := off\<rparr>" "e # es"] assms(1) t
    by (simp add: memory_init_def region_page_def mult_ac)
qed

theorem memory_init_overruns_region_witness:
  "page_list (snd (memory_init one_region 0 (two_pages\<lparr>page_list := []\<rparr>))) =
     map (\<lambda>p. \<lparr>start = 0x200000 + of_nat (4096 * p), used = False\<rparr>) [0..<10000]"
  using memory_init_overruns_region [of "two_pages\<lparr>page_list := []\<rparr>" "hd one_region" "[]" 0]
  by (simp add: one_region_def)

end
