(* ===== verification/PageTable.thy ===== *)
theory PageTable
  imports PageAlloc
begin

text \<open>
  Virtual memory, the second half of \<^verbatim>\<open>memory/memory.c\<close> with \<^verbatim>\<open>memory.h\<close>: \<open>map_page\<close> walks the four
  levels of the page tables through the direct map, allocating the missing tables;
  \<open>virtual_memory_init\<close> builds the kernel's own tables and maps the PCI configuration space;
  \<open>map_mmio\<close> hands out device mappings. \<open>table_at\<close> and \<open>translate\<close> are the reference: the table
  reached by a path of indices, and the entry an address ends in. The lemmas show that \<open>map_page\<close>
  adds exactly one translation and keeps all others, and that the initialisation maps the whole
  window with a fixed number of page frames.
\<close>

section \<open>State and constants\<close>

definition PAGE_PRESENT :: u64 where "PAGE_PRESENT = push_bit 0 1"
definition PAGE_WRITE :: u64 where "PAGE_WRITE = push_bit 1 1"
definition PAGE_USER :: u64 where "PAGE_USER = push_bit 2 1"
definition PAGE_NX :: u64 where "PAGE_NX = push_bit 63 1"
definition PAGE_SIZE :: u64 where "PAGE_SIZE = 4 * 1024"
definition PCI_ECAM_BASE :: u64 where "PCI_ECAM_BASE = 0xFFFFFFFFF0000000"
definition PCI_ECAM_SIZE :: u64 where "PCI_ECAM_SIZE = 0x10000000"
definition PCI_ECAM_PHYS :: u64 where "PCI_ECAM_PHYS = 0x00000000B0000000"
definition MMIO_BASE :: u64 where "MMIO_BASE = 0xFFFFFFFFE0000000"
definition MMIO_SIZE :: u64 where "MMIO_SIZE = 0x10000000"

record address_space_t =
  pml4_phys :: u64
  pml4 :: u64

record vm_state = memory_state +
  newpml4 :: address_space_t
  offst :: u64

section \<open>Operations\<close>

definition get_cr3 :: "'a machine_scheme \<Rightarrow> u64" where
  "get_cr3 s = cr3 s"

definition write_cr3 :: "u64 \<Rightarrow> 'a machine_scheme \<Rightarrow> 'a machine_scheme" where
  "write_cr3 v s = s\<lparr>cr3 := v\<rparr>"

definition phys2virt :: "u64 \<Rightarrow> 'a memory_state_scheme \<Rightarrow> u64" where
  "phys2virt a s = a + hhdm_offset s"

text \<open>One level of \<open>map_page\<close>: the entry at \<open>slot\<close> is filled with a new zeroed table when it is not
  present, and the table it points to is the result. The source writes this out three times.\<close>

definition ensure_table :: "u64 \<Rightarrow> ('a memory_state_scheme, u64) routine" where
  "ensure_table slot =
     seq (bind (gets (\<lambda>s. load64 (mem s) slot)) (\<lambda>e.
            if e AND PAGE_PRESENT = 0 then
              bind giverawpage (\<lambda>page.
                seq (modify (\<lambda>s. s\<lparr>mem := snd (memset (phys2virt page s) 0 PAGE_SIZE (mem s))\<rparr>))
                    (modify (\<lambda>s. s\<lparr>mem := store64 (mem s) slot
                                     (page OR PAGE_PRESENT OR PAGE_WRITE OR PAGE_USER)\<rparr>)))
            else return ()))
         (gets (\<lambda>s. phys2virt (load64 (mem s) slot AND NOT 0xFFF) s))"

definition pml4_i :: "u64 \<Rightarrow> u64" where "pml4_i v = drop_bit 39 v AND 0x1FF"
definition pdpt_i :: "u64 \<Rightarrow> u64" where "pdpt_i v = drop_bit 30 v AND 0x1FF"
definition pd_i :: "u64 \<Rightarrow> u64" where "pd_i v = drop_bit 21 v AND 0x1FF"
definition pt_i :: "u64 \<Rightarrow> u64" where "pt_i v = drop_bit 12 v AND 0x1FF"

definition map_page ::
  "address_space_t \<Rightarrow> u64 \<Rightarrow> u64 \<Rightarrow> u64 \<Rightarrow> ('a memory_state_scheme, int) routine" where
  "map_page as virt phys flags =
     bind (ensure_table (pml4 as + 8 * pml4_i virt)) (\<lambda>pdpt.
     bind (ensure_table (pdpt + 8 * pdpt_i virt)) (\<lambda>pd.
     bind (ensure_table (pd + 8 * pd_i virt)) (\<lambda>pt.
     bind (gets (\<lambda>s. load64 (mem s) (pt + 8 * pt_i virt))) (\<lambda>e.
       if e AND PAGE_PRESENT \<noteq> 0 then return (-1)
       else seq (modify (\<lambda>s. s\<lparr>mem := store64 (mem s) (pt + 8 * pt_i virt) (phys OR flags)\<rparr>))
                (return 0)))))"

text \<open>The loop over the configuration space: \<open>k\<close> pages from the \<open>n\<close>-th one on.\<close>

primrec map_ecam :: "address_space_t \<Rightarrow> nat \<Rightarrow> nat \<Rightarrow> ('a memory_state_scheme, unit) routine" where
  "map_ecam as n 0 = return ()"
| "map_ecam as n (Suc k) =
     seq (map_page as (PCI_ECAM_BASE + of_nat n * 4 * 1024) (PCI_ECAM_PHYS + of_nat n * 4 * 1024)
            (PAGE_PRESENT OR PAGE_WRITE OR PAGE_NX))
         (map_ecam as (Suc n) k)"

definition ecam_pages :: nat where
  "ecam_pages = unat (PCI_ECAM_SIZE div (4 * 1024))"

definition virtual_memory_init :: "('a vm_state_scheme, int) routine" where
  "virtual_memory_init =
     seq (modify cpu_stop_interrupts)
    (bind giverawpage (\<lambda>phys.
     seq (modify (\<lambda>s. s\<lparr>newpml4 := (newpml4 s)\<lparr>pml4_phys := phys\<rparr>\<rparr>))
    (seq (if phys < 0x100000 \<or> phys AND 0xFFF \<noteq> 0 then stop_with (Panic ''memory failure'' STATUS_NOMEM)
          else return ())
    (seq (modify (\<lambda>s. s\<lparr>newpml4 := (newpml4 s)\<lparr>pml4 := phys2virt phys s\<rparr>\<rparr>))
    (bind (gets (\<lambda>s. phys2virt (get_cr3 s AND NOT 0xFFF) s)) (\<lambda>boot_pml4.
     seq (modify (\<lambda>s. s\<lparr>mem := snd (memcpy (pml4 (newpml4 s) + 8 * 256) (boot_pml4 + 8 * 256) (256 * 8) (mem s))\<rparr>))
    (seq (modify (\<lambda>s. s\<lparr>mem := snd (memset (pml4 (newpml4 s)) 0 (256 * 8) (mem s))\<rparr>))
    (seq (bind (gets newpml4) (\<lambda>as. map_ecam as 0 ecam_pages))
    (seq (modify (\<lambda>s. write_cr3 (pml4_phys (newpml4 s)) s))
    (seq (modify cpu_enable_interrupts)
         (return 0)))))))))))"

text \<open>\<open>map_mmio\<close> ignores the result of \<open>map_page\<close>.\<close>

definition map_mmio :: "u64 \<Rightarrow> ('a vm_state_scheme, u64) routine" where
  "map_mmio phys =
     bind (gets (\<lambda>s. (newpml4 s, offst s))) (\<lambda>(as, off).
     bind (map_page as (MMIO_BASE + off) phys (PAGE_NX OR PAGE_PRESENT OR PAGE_WRITE)) (\<lambda>_.
     seq (modify (\<lambda>s. s\<lparr>offst := offst s + PAGE_SIZE\<rparr>))
         (gets (\<lambda>s. MMIO_BASE + offst s - PAGE_SIZE))))"

section \<open>The tables as a tree\<close>

text \<open>\<open>slot t i\<close> is the address of entry \<open>i\<close> of the table at \<open>t\<close>. A path is the list of the indices that
  lead to a table, the last one first. An entry with bit 7 maps a large page and leads to no table.\<close>

definition slot :: "u64 \<Rightarrow> nat \<Rightarrow> u64" where
  "slot t i = t + 8 * of_nat i"

definition next_table :: "u64 \<Rightarrow> u64 \<Rightarrow> u64 option" where
  "next_table h e =
     (if e AND PAGE_PRESENT = 0 \<or> e AND 0x80 \<noteq> 0 then None else Some ((e AND NOT 0xFFF) + h))"

primrec table_at :: "memory \<Rightarrow> u64 \<Rightarrow> u64 \<Rightarrow> nat list \<Rightarrow> u64 option" where
  "table_at m h root [] = Some root"
| "table_at m h root (i # q) =
     (case table_at m h root q of None \<Rightarrow> None | Some t \<Rightarrow> next_table h (load64 m (slot t i)))"

definition is_path :: "nat list \<Rightarrow> bool" where
  "is_path q \<longleftrightarrow> length q \<le> 3 \<and> (\<forall>i \<in> set q. i < 512)"

text \<open>The path to the last table of an address, and its translation.\<close>

definition path_of :: "u64 \<Rightarrow> nat list" where
  "path_of v = [unat (pd_i v), unat (pdpt_i v), unat (pml4_i v)]"

definition leaf_of :: "u64 \<Rightarrow> nat" where
  "leaf_of v = unat (pt_i v)"

definition translate :: "memory \<Rightarrow> u64 \<Rightarrow> u64 \<Rightarrow> u64 \<Rightarrow> u64 option" where
  "translate m h root v =
     (case table_at m h root (path_of v) of
        None \<Rightarrow> None
      | Some t \<Rightarrow>
          (let e = load64 m (slot t (leaf_of v)) in if e AND PAGE_PRESENT = 0 then None else Some e))"

text \<open>No large page stands in the way of a path.\<close>

primrec walkable :: "memory \<Rightarrow> u64 \<Rightarrow> u64 \<Rightarrow> nat list \<Rightarrow> bool" where
  "walkable m h root [] = True"
| "walkable m h root (i # q) =
     (walkable m h root q \<and>
      (case table_at m h root q of
         None \<Rightarrow> True
       | Some t \<Rightarrow> load64 m (slot t i) AND PAGE_PRESENT = 0 \<or> load64 m (slot t i) AND 0x80 = 0))"

text \<open>The tables form a tree: aligned, none reached by two paths, none among the free pages \<open>F\<close>.\<close>

definition wf_tables :: "memory \<Rightarrow> u64 \<Rightarrow> u64 \<Rightarrow> u64 set \<Rightarrow> bool" where
  "wf_tables m h root F \<longleftrightarrow>
     (\<forall>q t. is_path q \<longrightarrow> table_at m h root q = Some t \<longrightarrow> aligned 4096 t \<and> t \<notin> F) \<and>
     (\<forall>q q' t. is_path q \<longrightarrow> is_path q' \<longrightarrow> table_at m h root q = Some t \<longrightarrow>
        table_at m h root q' = Some t \<longrightarrow> q = q') \<and>
     (\<forall>f \<in> F. aligned 4096 f)"

section \<open>Entries in memory\<close>

lemma page_flag_values:
  "PAGE_PRESENT = 1" "PAGE_WRITE = 2" "PAGE_USER = 4" "PAGE_NX = 0x8000000000000000" "PAGE_SIZE = 0x1000"
  by (simp_all add: PAGE_PRESENT_def PAGE_WRITE_def PAGE_USER_def PAGE_NX_def PAGE_SIZE_def)

lemma index_bound: "unat (x AND 0x1FF :: u64) < 512"
proof -
  have "x AND 0x1FF = take_bit 9 x" by (simp add: take_bit_eq_mask mask_eq_exp_minus_1)
  then show ?thesis by (simp add: take_bit_eq_mod unat_mod)
qed

lemma path_of_is_path [simp]: "is_path (path_of v)"
  by (simp add: is_path_def path_of_def index_bound pml4_i_def pdpt_i_def pd_i_def)

lemma leaf_of_bound [simp]: "leaf_of v < 512"
  by (simp add: leaf_of_def pt_i_def index_bound)

lemma slot_unat [simp]: "slot t (unat i) = t + 8 * i"
  by (simp add: slot_def)

lemma slot_offset: "i < 512 \<Longrightarrow> slot t i = t + of_nat (8 * i)"
  by (simp add: slot_def)

lemma slot_in_page: "i < 512 \<Longrightarrow> in_range (slot t i) 8 x \<Longrightarrow> in_range t 4096 x"
proof (elim in_rangeE)
  fix k assume "i < 512" "k < 8" "x = slot t i + of_nat k"
  then have "x = t + of_nat (8 * i + k)" by (simp add: slot_def)
  then show ?thesis using \<open>i < 512\<close> \<open>k < 8\<close> by (simp add: in_range_offset del: of_nat_add of_nat_mult)
qed

lemma slot_aligned: "aligned 4096 t \<Longrightarrow> aligned 8 (slot t i)"
  unfolding slot_def by (intro aligned_add aligned_dvd [of 4096 t 8]) (simp_all add: aligned_def unat_word_ariths dvd_mod)

lemma slot_eq_iff:
  assumes "aligned 4096 t" "aligned 4096 u" "i < 512" "j < 512"
  shows "slot t i = slot u j \<longleftrightarrow> t = u \<and> i = j"
proof
  assume eq: "slot t i = slot u j"
  have "in_range t 4096 (slot t i)" "in_range u 4096 (slot t i)"
    using slot_in_page [OF assms(3), of t "slot t i"] slot_in_page [OF assms(4), of u "slot u j"] eq by simp_all
  then have "t = u" using assms(1,2) by (intro aligned_blocks_disjoint [of 4096]) simp_all
  moreover have "of_nat (8 * i) = (of_nat (8 * j) :: u64)"
    using eq \<open>t = u\<close> assms(3,4) by (simp add: slot_offset)
  then have "8 * i = 8 * j" using assms(3,4) unat_of_nat64 [of "8 * i"] unat_of_nat64 [of "8 * j"] by simp
  ultimately show "t = u \<and> i = j" by simp
qed simp

lemma load_slot_store:
  assumes "aligned 4096 t" "aligned 4096 u" "i < 512" "j < 512"
  shows "load64 (store64 m (slot t i) v) (slot u j) = (if t = u \<and> i = j then v else load64 m (slot u j))"
  using assms slot_eq_iff [OF assms]
  by (auto intro!: load64_store64_other slot_aligned)

lemma load64_zero:
  assumes "\<And>x. in_range a 8 x \<Longrightarrow> m x = 0"
  shows "load64 m a = 0"
proof -
  have "load_le (\<lambda>_. 0) b n = 0" for b n by (induction n arbitrary: b) simp_all
  then have "load64 (\<lambda>_. 0) a = 0" by (simp only: load64_def) simp
  with load64_cong [of a m "\<lambda>_. 0"] assms show ?thesis by simp
qed

lemma and_single_bit: "\<not> bit (p :: u64) n \<Longrightarrow> p AND push_bit n 1 = 0"
  by (rule bit_word_eqI) (auto simp: bit_simps)

lemma load_slot_zeroed:
  assumes "aligned 4096 f" "aligned 4096 u" "j < 512"
  shows "load64 (snd (memset f 0 4096 m)) (slot u j) = (if f = u then 0 else load64 m (slot u j))"
proof (cases "f = u")
  case True
  then show ?thesis using slot_in_page [OF assms(3), of u] by (auto simp: memset_apply intro!: load64_zero)
next
  case False
  have "\<not> in_range f 4096 x" if "in_range (slot u j) 8 x" for x
    using aligned_blocks_disjoint [OF assms(1,2), of x] slot_in_page [OF assms(3) that] False by auto
  then show ?thesis using False by (auto simp: memset_apply intro!: load64_cong)
qed

lemma aligned_and_not_mask: "aligned 4096 (p :: u64) \<Longrightarrow> p AND NOT 0xFFF = p"
proof -
  assume "aligned 4096 p"
  then have "p AND 0xFFF = 0" by (simp add: aligned_page_iff)
  moreover have "(p AND NOT 0xFFF) OR (p AND 0xFFF) = p" by (rule bit_word_eqI) (auto simp: bit_simps)
  ultimately show ?thesis by simp
qed

lemma aligned_low_bits:
  assumes "aligned 4096 (p :: u64)" "n < 12"
  shows "\<not> bit p n"
proof -
  from assms(1) have "take_bit 12 p = 0" by (simp add: aligned_page_iff and_page_mask)
  then have "\<not> bit (take_bit 12 p) n" by simp
  with assms(2) show ?thesis by (simp add: bit_take_bit_iff)
qed

lemma next_table_new:
  assumes "aligned 4096 p"
  shows "next_table h (p OR PAGE_PRESENT OR PAGE_WRITE OR PAGE_USER) = Some (p + h)"
    and "(p OR PAGE_PRESENT OR PAGE_WRITE OR PAGE_USER) AND 0x80 = 0"
    and "(p OR PAGE_PRESENT OR PAGE_WRITE OR PAGE_USER) AND NOT 0xFFF = p"
proof -
  have "p AND 0x80 = 0"
    using and_single_bit [OF aligned_low_bits [OF assms, of 7]] by simp
  then show z: "(p OR PAGE_PRESENT OR PAGE_WRITE OR PAGE_USER) AND 0x80 = 0"
    by (simp add: page_flag_values bit.conj_disj_distrib2)
  have "(p OR 1 OR 2 OR 4) AND NOT 0xFFF = p AND NOT 0xFFF" "(p OR 1 OR 2 OR 4) AND 1 = 1"
    by (simp_all add: bit.conj_disj_distrib2)
  with z show "next_table h (p OR PAGE_PRESENT OR PAGE_WRITE OR PAGE_USER) = Some (p + h)"
    and "(p OR PAGE_PRESENT OR PAGE_WRITE OR PAGE_USER) AND NOT 0xFFF = p"
    using aligned_and_not_mask [OF assms] by (simp_all add: next_table_def page_flag_values)
qed

section \<open>Adding a table\<close>

text \<open>The effect of filling one empty entry of the table at path \<open>p\<close> with a new table \<open>f\<close>.\<close>

definition link_table :: "memory \<Rightarrow> u64 \<Rightarrow> u64 \<Rightarrow> nat \<Rightarrow> u64 \<Rightarrow> memory" where
  "link_table m h t i page =
     store64 (snd (memset (page + h) 0 4096 m)) (slot t i) (page OR PAGE_PRESENT OR PAGE_WRITE OR PAGE_USER)"

lemma is_path_tail: "is_path (i # q) \<Longrightarrow> is_path q"
  by (simp add: is_path_def)

lemma wf_tablesD:
  assumes "wf_tables m h root F" "is_path q" "table_at m h root q = Some t"
  shows "aligned 4096 t" "t \<notin> F"
    and "is_path q' \<Longrightarrow> table_at m h root q' = Some t \<Longrightarrow> q' = q"
  using assms by (auto simp: wf_tables_def)

lemma load_slot_link:
  assumes "wf_tables m h root F" "page + h \<in> F" "aligned 4096 page"
    and "is_path (i # p)" "table_at m h root p = Some t"
    and "aligned 4096 u" "j < 512"
  shows "load64 (link_table m h t i page) (slot u j) =
     (if u = t \<and> j = i then page OR PAGE_PRESENT OR PAGE_WRITE OR PAGE_USER
      else if u = page + h then 0 else load64 m (slot u j))"
proof -
  have t: "aligned 4096 t" "t \<noteq> page + h"
    using wf_tablesD [OF assms(1) is_path_tail [OF assms(4)] assms(5)] assms(2) by auto
  have f: "aligned 4096 (page + h)" using assms(1,2) by (auto simp: wf_tables_def)
  have "i < 512" using assms(4) by (simp add: is_path_def)
  with t f assms show ?thesis
    by (auto simp: link_table_def load_slot_store load_slot_zeroed)
qed

lemma table_at_link:
  assumes "wf_tables m h root F" "page + h \<in> F" "aligned 4096 page"
    and "is_path (i # p)" "table_at m h root p = Some t" "load64 m (slot t i) AND PAGE_PRESENT = 0"
    and "is_path q"
  shows "table_at (link_table m h t i page) h root q =
     (if q = i # p then Some (page + h) else table_at m h root q)"
  using assms(7)
proof (induction q)
  case Nil
  then show ?case by simp
next
  case (Cons j q)
  note load = load_slot_link [OF assms(1-5)]
  have q: "is_path q" "j < 512" using Cons.prems by (simp_all add: is_path_def)
  note IH = Cons.IH [OF q(1)]
  show ?case
  proof (cases "q = i # p")
    case True
    have f: "aligned 4096 (page + h)" using assms(1,2) by (auto simp: wf_tables_def)
    have "table_at m h root (i # p) = None" using assms(5,6) by (simp add: next_table_def)
    moreover have "page + h \<noteq> t" using wf_tablesD(2) [OF assms(1) is_path_tail [OF assms(4)] assms(5)] assms(2) by auto
    ultimately show ?thesis using True IH load [OF f q(2)] by (simp add: next_table_def)
  next
    case False
    show ?thesis
    proof (cases "table_at m h root q")
      case None
      moreover have "q \<noteq> p" using None assms(5) by auto
      ultimately show ?thesis using IH False by simp
    next
      case (Some u)
      have u: "aligned 4096 u" "u \<notin> F" using wf_tablesD [OF assms(1) q(1) Some] by auto
      have "u = t \<longleftrightarrow> q = p"
        using wf_tablesD(3) [OF assms(1) q(1) Some is_path_tail [OF assms(4)]] Some assms(5) by auto
      moreover have "u \<noteq> page + h" using u assms(2) by auto
      ultimately show ?thesis
        using IH False Some load [OF u(1) q(2)] next_table_new(1) [OF assms(3)] by auto
    qed
  qed
qed

lemma wf_tables_link:
  assumes "wf_tables m h root F" "page + h \<in> F" "aligned 4096 page"
    and "is_path (i # p)" "table_at m h root p = Some t" "load64 m (slot t i) AND PAGE_PRESENT = 0"
  shows "wf_tables (link_table m h t i page) h root (F - {page + h})"
  unfolding wf_tables_def
proof (intro conjI allI impI ballI)
  note ta = table_at_link [OF assms]
  fix q q' u
  assume q: "is_path q" "table_at (link_table m h t i page) h root q = Some u"
  show "aligned 4096 u" and "u \<notin> F - {page + h}"
    using q ta [OF q(1)] wf_tablesD [OF assms(1) q(1)] assms(1,2) by (auto simp: wf_tables_def split: if_splits)
  assume q': "is_path q'" "table_at (link_table m h t i page) h root q' = Some u"
  have old: "u \<noteq> page + h" if "is_path r" "table_at m h root r = Some u" for r
    using wf_tablesD(2) [OF assms(1) that] assms(2) by auto
  show "q = q'"
  proof (cases "u = page + h")
    case True
    then show ?thesis
      using q q' ta [OF q(1)] ta [OF q'(1)] old [OF q(1)] old [OF q'(1)] by (metis (full_types))
  next
    case False
    then have "table_at m h root q = Some u" "table_at m h root q' = Some u"
      using q q' ta [OF q(1)] ta [OF q'(1)] by (simp_all split: if_splits)
    then show ?thesis using wf_tablesD(3) [OF assms(1) q'(1) _ q(1)] by simp
  qed
next
  fix f assume "f \<in> F - {page + h}"
  then show "aligned 4096 f" using assms(1) by (simp add: wf_tables_def)
qed

lemma walkable_link:
  assumes "wf_tables m h root F" "page + h \<in> F" "aligned 4096 page"
    and "is_path (i # p)" "table_at m h root p = Some t" "load64 m (slot t i) AND PAGE_PRESENT = 0"
    and "is_path q" "walkable m h root q"
  shows "walkable (link_table m h t i page) h root q"
  using assms(7,8)
proof (induction q)
  case (Cons j q)
  have q: "is_path q" "j < 512" using Cons.prems by (simp_all add: is_path_def)
  have "load64 (link_table m h t i page) (slot u j) AND PAGE_PRESENT = 0 \<or>
        load64 (link_table m h t i page) (slot u j) AND 0x80 = 0"
    if u: "table_at (link_table m h t i page) h root q = Some u" for u
  proof -
    have al: "aligned 4096 u" using wf_tablesD(1) [OF wf_tables_link [OF assms(1-6)] q(1) u] .
    show ?thesis
      using load_slot_link [OF assms(1-5) al q(2)] u table_at_link [OF assms(1-6) q(1)] Cons.prems(2)
        next_table_new(2) [OF assms(3)] by (auto split: if_splits)
  qed
  then show ?case using Cons.IH [OF q(1)] Cons.prems(2) by (simp split: option.split)
qed simp

lemma translate_link:
  assumes "wf_tables m h root F" "page + h \<in> F" "aligned 4096 page"
    and "is_path (i # p)" "table_at m h root p = Some t" "load64 m (slot t i) AND PAGE_PRESENT = 0"
  shows "translate (link_table m h t i page) h root v = translate m h root v"
proof (cases "path_of v = i # p")
  case True
  have f: "aligned 4096 (page + h)" using assms(1,2) by (auto simp: wf_tables_def)
  have "table_at m h root (i # p) = None" using assms(5,6) by (simp add: next_table_def)
  moreover have "page + h \<noteq> t" using wf_tablesD(2) [OF assms(1) is_path_tail [OF assms(4)] assms(5)] assms(2) by auto
  ultimately show ?thesis
    using True table_at_link [OF assms assms(4)] load_slot_link [OF assms(1-5) f leaf_of_bound]
    by (simp add: translate_def del: table_at.simps)
next
  case False
  show ?thesis
  proof (cases "table_at m h root (path_of v)")
    case None
    with False table_at_link [OF assms path_of_is_path] show ?thesis by (simp add: translate_def)
  next
    case (Some u)
    have u: "aligned 4096 u" "u \<notin> F" using wf_tablesD [OF assms(1) path_of_is_path Some] by auto
    have "length (path_of v) = 3" "length p < 3" using assms(4) by (simp_all add: path_of_def is_path_def)
    then have "u \<noteq> t"
      using wf_tablesD(3) [OF assms(1) path_of_is_path Some is_path_tail [OF assms(4)]] assms(5) by auto
    with False Some u assms(2) table_at_link [OF assms path_of_is_path] load_slot_link [OF assms(1-5) u(1) leaf_of_bound]
    show ?thesis by (auto simp: translate_def)
  qed
qed

section \<open>The allocation steps\<close>

text \<open>The per-CPU variable that identifies the CPU lies in no table and in no free page, so that the
  lock keeps its meaning while tables are written.\<close>

definition id_apart :: "'a memory_state_scheme \<Rightarrow> u64 set \<Rightarrow> bool" where
  "id_apart s T \<longleftrightarrow> msr s MSR_GS_BASE = 0 \<or>
     (\<forall>t \<in> T. \<forall>x. in_range (msr s MSR_GS_BASE + percpu_offsetof V_cpu_id s) 8 x \<longrightarrow> \<not> in_range t 4096 x)"

definition tables :: "memory \<Rightarrow> u64 \<Rightarrow> u64 \<Rightarrow> u64 set" where
  "tables m h root = {t. \<exists>q. is_path q \<and> table_at m h root q = Some t}"

definition vm_ok :: "u64 \<Rightarrow> 'a memory_state_scheme \<Rightarrow> bool" where
  "vm_ok root s \<longleftrightarrow>
     alloc_ready s \<and> aligned 4096 (hhdm_offset s) \<and>
     wf_tables (mem s) (hhdm_offset s) root (free_pages s) \<and>
     id_apart s (tables (mem s) (hhdm_offset s) root \<union> free_pages s)"

abbreviation table_in :: "'a memory_state_scheme \<Rightarrow> u64 \<Rightarrow> nat list \<Rightarrow> u64 option" where
  "table_in s root q \<equiv> table_at (mem s) (hhdm_offset s) root q"

abbreviation translate_in :: "'a memory_state_scheme \<Rightarrow> u64 \<Rightarrow> u64 \<Rightarrow> u64 option" where
  "translate_in s root v \<equiv> translate (mem s) (hhdm_offset s) root v"

abbreviation walkable_in :: "'a memory_state_scheme \<Rightarrow> u64 \<Rightarrow> nat list \<Rightarrow> bool" where
  "walkable_in s root q \<equiv> walkable (mem s) (hhdm_offset s) root q"

lemma current_cpu_mem:
  assumes "id_apart s T" "\<And>x. (\<And>t. t \<in> T \<Longrightarrow> \<not> in_range t 4096 x) \<Longrightarrow> m x = mem s x"
  shows "current_cpu (s\<lparr>mem := m\<rparr>) = current_cpu s"
proof (cases "msr s MSR_GS_BASE = 0")
  case True
  then show ?thesis by (simp add: current_cpu_def ispercpuready_iff)
next
  case False
  then have "load64 m (msr s MSR_GS_BASE + percpu_off s V_cpu_id) =
      load64 (mem s) (msr s MSR_GS_BASE + percpu_off s V_cpu_id)"
    using assms by (intro load64_cong) (auto simp: id_apart_def percpu_offsetof_def)
  then show ?thesis by (simp add: current_cpu_def ispercpuready_iff percpu_read_def percpu_offsetof_def)
qed

lemma link_outside:
  assumes "\<not> in_range (page + h) 4096 x" "\<not> in_range t 4096 x" "i < 512"
  shows "link_table m h t i page x = m x"
proof -
  have "\<not> in_range (slot t i) 8 x" using slot_in_page [OF assms(3)] assms(2) by blast
  then show ?thesis using assms(1) by (simp add: link_table_def store64_outside memset_apply)
qed

lemma tables_link:
  assumes "wf_tables m h root F" "page + h \<in> F" "aligned 4096 page"
    and "is_path (i # p)" "table_at m h root p = Some t" "load64 m (slot t i) AND PAGE_PRESENT = 0"
  shows "tables (link_table m h t i page) h root \<subseteq> insert (page + h) (tables m h root)"
  using table_at_link [OF assms] by (auto simp: tables_def split: if_splits)

lemma id_apart_subset: "id_apart s T \<Longrightarrow> U \<subseteq> T \<Longrightarrow> id_apart s U"
  by (auto simp: id_apart_def)

lemma id_apart_update [simp]:
  "id_apart (s\<lparr>mem := m\<rparr>) T = id_apart s T" "id_apart (s\<lparr>page_list := pl\<rparr>) T = id_apart s T"
  "id_apart (s\<lparr>memory_lock := l\<rparr>) T = id_apart s T"
  by (simp_all add: id_apart_def percpu_offsetof_def)

lemma free_frames_mem [simp]: "free_frames (s\<lparr>mem := m\<rparr>) = free_frames s" "free_pages (s\<lparr>mem := m\<rparr>) = free_pages s"
  by (simp_all add: free_frames_def free_pages_def)

text \<open>The parts of the state that the page tables and the allocator do not touch.\<close>

definition same_but_memory :: "'a memory_state_scheme \<Rightarrow> 'a memory_state_scheme \<Rightarrow> bool" where
  "same_but_memory s s' \<longleftrightarrow>
     s'\<lparr>mem := mem s, page_list := page_list s, memory_lock := memory_lock s\<rparr> = s"

lemma same_but_memory_refl [simp]: "same_but_memory s s"
  by (simp add: same_but_memory_def)

lemma same_but_memory_trans:
  assumes "same_but_memory s t" "same_but_memory t u"
  shows "same_but_memory s u"
proof -
  have "u\<lparr>mem := mem s, page_list := page_list s, memory_lock := memory_lock s\<rparr> =
      u\<lparr>mem := mem t, page_list := page_list t, memory_lock := memory_lock t\<rparr>
       \<lparr>mem := mem s, page_list := page_list s, memory_lock := memory_lock s\<rparr>" by simp
  also have "\<dots> = t\<lparr>mem := mem s, page_list := page_list s, memory_lock := memory_lock s\<rparr>"
    using assms(2) by (simp only: same_but_memory_def)
  finally show ?thesis using assms(1) by (simp only: same_but_memory_def)
qed

lemma same_but_memory_mem [simp]: "same_but_memory s (t\<lparr>mem := m\<rparr>) = same_but_memory s t"
  by (simp add: same_but_memory_def)

lemma same_but_memory_field:
  assumes "same_but_memory s s'"
    and "\<And>t m pl l. g (t\<lparr>mem := m, page_list := pl, memory_lock := l\<rparr>) = g t"
  shows "g s' = g s"
  using assms(2) [where t = s' and m = "mem s" and pl = "page_list s" and l = "memory_lock s"] assms(1) by (simp only: same_but_memory_def)

text \<open>What one level of the walk achieves: the table is there, nothing else of the address space has
  changed, and at most one page frame is gone, none if the table was there before.\<close>

definition level_done :: "u64 \<Rightarrow> nat list \<Rightarrow> 'a memory_state_scheme \<Rightarrow> 'a memory_state_scheme \<Rightarrow> bool" where
  "level_done root q s s' \<longleftrightarrow>
     vm_ok root s' \<and> hhdm_offset s' = hhdm_offset s \<and> same_but_memory s s' \<and>
     (\<forall>v. translate_in s' root v = translate_in s root v) \<and>
     (\<forall>r. is_path r \<longrightarrow> walkable_in s root r \<longrightarrow> walkable_in s' root r) \<and>
     (\<forall>r. is_path r \<longrightarrow> r \<noteq> q \<longrightarrow> table_in s' root r = table_in s root r) \<and>
     (if table_in s root q = None then Suc (card (free_frames s')) = card (free_frames s) else s' = s)"

lemma level_doneD:
  assumes "level_done root q s s'"
  shows "vm_ok root s'" "hhdm_offset s' = hhdm_offset s" "translate_in s' root v = translate_in s root v"
    and "is_path r \<Longrightarrow> walkable_in s root r \<Longrightarrow> walkable_in s' root r"
    and "is_path r \<Longrightarrow> r \<noteq> q \<Longrightarrow> table_in s' root r = table_in s root r"
    and "card (free_frames s') + (if table_in s root q = None then 1 else 0) = card (free_frames s)"
    and "is_path r \<Longrightarrow> table_in s root r \<noteq> None \<Longrightarrow> table_in s' root r = table_in s root r"
    and "same_but_memory s s'"
proof -
  note d = assms [unfolded level_done_def]
  show "vm_ok root s'" "hhdm_offset s' = hhdm_offset s" "translate_in s' root v = translate_in s root v"
    and "is_path r \<Longrightarrow> walkable_in s root r \<Longrightarrow> walkable_in s' root r"
    and "same_but_memory s s'"
    and kept: "is_path r \<Longrightarrow> r \<noteq> q \<Longrightarrow> table_in s' root r = table_in s root r" for r
    using d by blast+
  show "card (free_frames s') + (if table_in s root q = None then 1 else 0) = card (free_frames s)"
    using d by (simp split: if_splits)
  show "is_path r \<Longrightarrow> table_in s root r \<noteq> None \<Longrightarrow> table_in s' root r = table_in s root r"
    using d kept by (cases "r = q") auto
qed

lemma ensure_table_present:
  assumes "table_in s root p = Some t" "walkable_in s root (i # p)" "table_in s root (i # p) \<noteq> None"
  shows "ensure_table (slot t i) s = (Ret (the (table_in s root (i # p))), s)"
  using assms by (auto simp: ensure_table_def next_table_def routine_simps bind_def phys2virt_def split: if_splits)

lemma finite_free_frames [simp]: "finite (free_frames s)"
  by (simp add: free_frames_filter)

lemma free_pages_mem_iff: "p + hhdm_offset s \<in> free_pages s \<longleftrightarrow> p \<in> free_frames s"
  by (auto simp: free_pages_def)

lemma aligned_cancel: "aligned k (a + b) \<Longrightarrow> aligned k b \<Longrightarrow> k dvd 2 ^ 64 \<Longrightarrow> aligned k a"
  by (simp add: aligned_def unat_word_ariths dvd_mod_iff dvd_add_left_iff)

lemma ensure_table_missing:
  assumes "vm_ok root s" "is_path (i # p)" "table_in s root p = Some t" "walkable_in s root (i # p)"
    and "table_in s root (i # p) = None" "free_frames s \<noteq> {}"
  shows "\<exists>t' s'. ensure_table (slot t i) s = (Ret t', s') \<and> table_in s' root (i # p) = Some t' \<and>
     level_done root (i # p) s s'"
proof -
  let ?h = "hhdm_offset s"
  have ok: "alloc_ready s" "aligned 4096 ?h" "wf_tables (mem s) ?h root (free_pages s)"
    "id_apart s (tables (mem s) ?h root \<union> free_pages s)" using assms(1) by (auto simp: vm_ok_def)
  have np: "load64 (mem s) (slot t i) AND PAGE_PRESENT = 0"
    using assms(3,4,5) by (auto simp: next_table_def split: if_splits)
  from giverawpage_law [OF ok(1) assms(6)] obtain page pl s1 where g: "giverawpage s = (Ret page, s1)"
    "page \<in> free_frames s" "free_frames s1 = free_frames s - {page}" "alloc_ready s1"
    "s1 = s\<lparr>page_list := pl, memory_lock := unlocked\<rparr>" by blast
  define m where "m = link_table (mem s) ?h t i page"
  define s' where "s' = s1\<lparr>mem := m\<rparr>"
  have f: "page + ?h \<in> free_pages s" using g(2) by (simp add: free_pages_mem_iff)
  then have "aligned 4096 (page + ?h)" using ok(3) by (auto simp: wf_tables_def)
  then have pa: "aligned 4096 page" using ok(2) by (rule aligned_cancel) simp
  note linked = ok(3) f pa assms(2,3) np
  have ta: "table_at m ?h root r = (if r = i # p then Some (page + ?h) else table_in s root r)" if "is_path r" for r
    unfolding m_def by (rule table_at_link [OF linked that])
  have run: "ensure_table (slot t i) s = (Ret (page + ?h), s')"
    using np g(1,5) next_table_new(3) [OF pa]
    by (simp add: ensure_table_def routine_simps bind_def phys2virt_def s'_def m_def link_table_def page_flag_values)
  have fp: "free_pages s' = free_pages s - {page + ?h}"
  proof -
    have "hhdm_offset s' = ?h" using g(5) by (simp add: s'_def)
    moreover have "free_frames s' = free_frames s - {page}" using g(3) by (simp add: s'_def)
    ultimately show ?thesis unfolding free_pages_def by (simp add: image_set_diff inj_on_def)
  qed
  have t: "t \<in> tables (mem s) ?h root" using assms(2,3) is_path_tail by (auto simp: tables_def)
  have "current_cpu s' = current_cpu s"
  proof -
    have "m x = mem s1 x" if "\<And>u. u \<in> tables (mem s) ?h root \<union> free_pages s \<Longrightarrow> \<not> in_range u 4096 x" for x
      using that [of t] that [of "page + ?h"] t f assms(2) g(5)
      by (simp add: m_def link_outside is_path_def)
    then have "current_cpu (s1\<lparr>mem := m\<rparr>) = current_cpu s1"
      using ok(4) g(5) by (intro current_cpu_mem [of s1 "tables (mem s) ?h root \<union> free_pages s"]) simp_all
    then show ?thesis using g(5) by (simp add: s'_def)
  qed
  then have ready: "alloc_ready s'"
    using g(4,5) ok(1) by (simp add: alloc_ready_def s'_def)
  have "vm_ok root s'"
    using ready ok g(5) wf_tables_link [OF linked] fp tables_link [OF linked] f
    by (auto simp: vm_ok_def s'_def m_def intro: id_apart_subset)
  moreover have "\<forall>v. translate_in s' root v = translate_in s root v"
    using translate_link [OF linked] g(5) by (simp add: s'_def m_def)
  moreover have "\<forall>r. is_path r \<longrightarrow> walkable_in s root r \<longrightarrow> walkable_in s' root r"
    using walkable_link [OF linked] g(5) by (simp add: s'_def m_def)
  moreover have "Suc (card (free_frames s')) = card (free_frames s)"
    using g(2,3) card_Suc_Diff1 [OF finite_free_frames g(2)] by (simp add: s'_def)
  moreover have "same_but_memory s s'" using g(5) by (simp add: s'_def same_but_memory_def)
  ultimately have "level_done root (i # p) s s'"
    using ta assms(5) g(5) by (simp add: level_done_def s'_def del: table_at.simps)
  with run ta [OF assms(2)] g(5) show ?thesis by (simp add: s'_def del: table_at.simps)
qed

lemma ensure_table_ok:
  assumes "vm_ok root s" "is_path (i # p)" "table_in s root p = Some t" "walkable_in s root (i # p)"
    and "table_in s root (i # p) = None \<Longrightarrow> free_frames s \<noteq> {}"
  shows "\<exists>t' s'. ensure_table (slot t i) s = (Ret t', s') \<and> table_in s' root (i # p) = Some t' \<and>
     level_done root (i # p) s s'"
proof (cases "table_in s root (i # p)")
  case None
  show ?thesis using ensure_table_missing [OF assms(1-4) None assms(5)] None by blast
next
  case (Some t')
  then have "level_done root (i # p) s s" using assms(1) by (simp add: level_done_def)
  then show ?thesis
    using ensure_table_present [OF assms(3,4)] Some by (intro exI [of _ t'] exI [of _ s]) simp
qed

section \<open>map\_page\<close>

text \<open>The number of tables missing on the way to an address.\<close>

definition missing :: "'a memory_state_scheme \<Rightarrow> u64 \<Rightarrow> u64 \<Rightarrow> nat" where
  "missing s root v =
     length (filter (\<lambda>q. table_in s root q = None)
       [drop 2 (path_of v), drop 1 (path_of v), path_of v])"

text \<open>Writing an entry of a last-level table leaves the tables alone.\<close>

lemma leaf_write:
  assumes "wf_tables m h root F" "table_at m h root (path_of v) = Some t" "is_path q"
  shows "table_at (store64 m (slot t (leaf_of v)) e) h root q = table_at m h root q \<and>
     walkable (store64 m (slot t (leaf_of v)) e) h root q = walkable m h root q"
  using assms(3)
proof (induction q)
  case (Cons j q)
  have q: "is_path q" "j < 512" "length q < 3" using Cons.prems by (simp_all add: is_path_def)
  have "load64 (store64 m (slot t (leaf_of v)) e) (slot u j) = load64 m (slot u j)"
    if u: "table_at m h root q = Some u" for u
  proof -
    have "path_of v \<noteq> q" using q(3) by (auto simp: path_of_def)
    then have "u \<noteq> t" using wf_tablesD(3) [OF assms(1) q(1) u path_of_is_path, of v] assms(2) by auto
    then show ?thesis
      using wf_tablesD(1) [OF assms(1) q(1) u] wf_tablesD(1) [OF assms(1) path_of_is_path assms(2)] q(2)
      by (simp add: load_slot_store)
  qed
  then show ?case using Cons.IH [OF q(1)] by (simp split: option.split)
qed simp

lemmas leaf_write_table = leaf_write [THEN conjunct1]
lemmas leaf_write_walkable = leaf_write [THEN conjunct2]

lemma translate_leaf_write:
  assumes "wf_tables m h root F" "table_at m h root (path_of v) = Some t"
  shows "translate (store64 m (slot t (leaf_of v)) e) h root w =
     (if path_of w = path_of v \<and> leaf_of w = leaf_of v
      then if e AND PAGE_PRESENT = 0 then None else Some e
      else translate m h root w)"
proof (cases "table_at m h root (path_of w)")
  case None
  then show ?thesis using assms leaf_write_table [OF assms path_of_is_path] by (auto simp: translate_def)
next
  case (Some u)
  have "u = t \<longleftrightarrow> path_of w = path_of v"
  proof
    assume "u = t"
    with assms(2) have "table_at m h root (path_of v) = Some u" by simp
    from wf_tablesD(3) [OF assms(1) path_of_is_path Some path_of_is_path this]
    show "path_of w = path_of v" by simp
  next
    assume "path_of w = path_of v"
    with Some assms(2) show "u = t" by simp
  qed
  then show ?thesis
    using Some assms leaf_write_table [OF assms path_of_is_path] wf_tablesD(1) [OF assms(1) path_of_is_path Some]
      wf_tablesD(1) [OF assms(1) path_of_is_path assms(2)]
    by (auto simp: translate_def load_slot_store Let_def)
qed

lemma tables_leaf_write:
  assumes "wf_tables m h root F" "table_at m h root (path_of v) = Some t"
  shows "wf_tables (store64 m (slot t (leaf_of v)) e) h root F"
    and "tables (store64 m (slot t (leaf_of v)) e) h root = tables m h root"
  using assms(1) leaf_write_table [OF assms] by (simp_all add: wf_tables_def tables_def cong: conj_cong)

lemma vm_ok_leaf_write:
  assumes "vm_ok root s" "table_in s root (path_of v) = Some t"
  shows "vm_ok root (s\<lparr>mem := store64 (mem s) (slot t (leaf_of v)) e\<rparr>)"
proof -
  have ok: "alloc_ready s" "wf_tables (mem s) (hhdm_offset s) root (free_pages s)"
    "id_apart s (tables (mem s) (hhdm_offset s) root \<union> free_pages s)" using assms(1) by (auto simp: vm_ok_def)
  have "t \<in> tables (mem s) (hhdm_offset s) root"
    unfolding tables_def using assms(2) path_of_is_path by blast
  then have "store64 (mem s) (slot t (leaf_of v)) e x = mem s x"
    if "\<And>u. u \<in> tables (mem s) (hhdm_offset s) root \<union> free_pages s \<Longrightarrow> \<not> in_range u 4096 x" for x
    using that [of t] slot_in_page [of "leaf_of v" t x] by (auto intro!: store64_outside)
  then have "current_cpu (s\<lparr>mem := store64 (mem s) (slot t (leaf_of v)) e\<rparr>) = current_cpu s"
    by (rule current_cpu_mem [OF ok(3)])
  then show ?thesis
    using assms(1) ok tables_leaf_write [OF ok(2) assms(2)] by (simp add: vm_ok_def alloc_ready_def)
qed

text \<open>The three levels together.\<close>

definition ensure_path :: "u64 \<Rightarrow> u64 \<Rightarrow> ('a memory_state_scheme, u64) routine" where
  "ensure_path root virt =
     bind (ensure_table (root + 8 * pml4_i virt)) (\<lambda>pdpt.
     bind (ensure_table (pdpt + 8 * pdpt_i virt)) (\<lambda>pd. ensure_table (pd + 8 * pd_i virt)))"

lemma map_page_eq:
  "map_page as virt phys flags =
     bind (ensure_path (pml4 as) virt) (\<lambda>pt.
     bind (gets (\<lambda>s. load64 (mem s) (pt + 8 * pt_i virt))) (\<lambda>e.
       if e AND PAGE_PRESENT \<noteq> 0 then return (-1)
       else seq (modify (\<lambda>s. s\<lparr>mem := store64 (mem s) (pt + 8 * pt_i virt) (phys OR flags)\<rparr>))
                (return 0)))"
  by (simp add: map_page_def ensure_path_def bind_assoc)

definition path_done :: "u64 \<Rightarrow> u64 \<Rightarrow> 'a memory_state_scheme \<Rightarrow> 'a memory_state_scheme \<Rightarrow> bool" where
  "path_done root v s s' \<longleftrightarrow>
     vm_ok root s' \<and> hhdm_offset s' = hhdm_offset s \<and> same_but_memory s s' \<and>
     (\<forall>w. translate_in s' root w = translate_in s root w) \<and>
     (\<forall>r. is_path r \<longrightarrow> walkable_in s root r \<longrightarrow> walkable_in s' root r) \<and>
     (\<forall>r. is_path r \<longrightarrow> table_in s root r \<noteq> None \<longrightarrow> table_in s' root r = table_in s root r) \<and>
     card (free_frames s') + missing s root v = card (free_frames s)"

lemma ensure_path_ok:
  assumes "vm_ok root s" "walkable_in s root (path_of v)" "missing s root v \<le> card (free_frames s)"
  shows "\<exists>t s'. ensure_path root v s = (Ret t, s') \<and> table_in s' root (path_of v) = Some t \<and> path_done root v s s'"
proof -
  let ?a = "unat (pml4_i v)" and ?b = "unat (pdpt_i v)" and ?c = "unat (pd_i v)"
  have p: "is_path [?a]" "is_path [?b, ?a]" "is_path [?c, ?b, ?a]"
    using path_of_is_path [of v] by (simp_all add: path_of_def is_path_def)
  have w: "walkable_in s root [?a]" "walkable_in s root [?b, ?a]" "walkable_in s root [?c, ?b, ?a]"
    using assms(2) by (simp_all add: path_of_def)
  have ne: "free_frames x \<noteq> {}" if "0 < card (free_frames x)" for x :: "'a memory_state_scheme" using that by auto
  define n where "n q = (if table_in s root q = None then 1 else 0 :: nat)" for q
  have miss: "missing s root v = n [?a] + n [?b, ?a] + n [?c, ?b, ?a]"
    by (simp add: missing_def n_def path_of_def del: table_at.simps)
  have fr1: "table_in s root [?a] = None \<Longrightarrow> free_frames s \<noteq> {}"
    using assms(3) miss by (intro ne) (simp add: n_def del: table_at.simps)
  then obtain t1 s1 where 1: "ensure_table (slot root ?a) s = (Ret t1, s1)"
    "table_in s1 root [?a] = Some t1" "level_done root [?a] s s1"
    using ensure_table_ok [OF assms(1) p(1) table_at.simps(1) w(1) fr1] by blast
  note l1 = level_doneD [OF 1(3)]
  have c1: "card (free_frames s1) + n [?a] = card (free_frames s)" using l1(6) by (simp only: n_def)
  have fr2: "table_in s1 root [?b, ?a] = None \<Longrightarrow> free_frames s1 \<noteq> {}"
    using assms(3) miss c1 l1(5) [OF p(2)] by (intro ne) (simp add: n_def del: table_at.simps)
  then obtain t2 s2 where 2: "ensure_table (slot t1 ?b) s1 = (Ret t2, s2)"
    "table_in s2 root [?b, ?a] = Some t2" "level_done root [?b, ?a] s1 s2"
    using ensure_table_ok [OF l1(1) p(2) 1(2) l1(4) [OF p(2) w(2)] fr2] by blast
  note l2 = level_doneD [OF 2(3)]
  have c2: "card (free_frames s2) + n [?b, ?a] = card (free_frames s1)"
    using l2(6) l1(5) [OF p(2)] by (simp add: n_def del: table_at.simps)
  have n2: "table_in s2 root [?c, ?b, ?a] = table_in s root [?c, ?b, ?a]"
    using l2(5) [OF p(3)] l1(5) [OF p(3)] by (simp del: table_at.simps)
  have fr3: "table_in s2 root [?c, ?b, ?a] = None \<Longrightarrow> free_frames s2 \<noteq> {}"
    using assms(3) miss c1 c2 n2 by (intro ne) (simp add: n_def del: table_at.simps)
  then obtain t3 s3 where 3: "ensure_table (slot t2 ?c) s2 = (Ret t3, s3)"
    "table_in s3 root [?c, ?b, ?a] = Some t3" "level_done root [?c, ?b, ?a] s2 s3"
    using ensure_table_ok [OF l2(1) p(3) 2(2) l2(4) [OF p(3) l1(4) [OF p(3) w(3)]] fr3] by blast
  note l3 = level_doneD [OF 3(3)]
  have c3: "card (free_frames s3) + n [?c, ?b, ?a] = card (free_frames s2)"
    using l3(6) n2 by (simp add: n_def del: table_at.simps)
  have kept: "table_in s3 root r = table_in s root r" if "is_path r" "table_in s root r \<noteq> None" for r
    using l1(7) [OF that(1)] l2(7) [OF that(1)] l3(7) [OF that(1)] that(2) by simp
  have run: "ensure_path root v s = (Ret t3, s3)"
    using 1(1) 2(1) 3(1) by (simp add: ensure_path_def bind_def)
  have "path_done root v s s3"
    unfolding path_done_def
    using l1(2,3,4) l2(2,3,4) l3(1,2,3,4) kept c1 c2 c3 miss
      same_but_memory_trans [OF same_but_memory_trans [OF l1(8) l2(8)] l3(8)] by simp
  with run 3(2) show ?thesis by (simp add: path_of_def del: table_at.simps)
qed

lemma path_doneD:
  assumes "path_done root v s s'"
  shows "vm_ok root s'" "hhdm_offset s' = hhdm_offset s" "translate_in s' root w = translate_in s root w"
    and "is_path r \<Longrightarrow> walkable_in s root r \<Longrightarrow> walkable_in s' root r"
    and "is_path r \<Longrightarrow> table_in s root r \<noteq> None \<Longrightarrow> table_in s' root r = table_in s root r"
    and "card (free_frames s') + missing s root v = card (free_frames s)" and "same_but_memory s s'"
  using assms unfolding path_done_def by blast+

text \<open>Two addresses lie on the same page when all four indices agree.\<close>

definition same_page :: "u64 \<Rightarrow> u64 \<Rightarrow> bool" where
  "same_page v w \<longleftrightarrow> path_of v = path_of w \<and> leaf_of v = leaf_of w"

text \<open>What a successful \<open>map_page\<close> guarantees.\<close>

definition mapped :: "u64 \<Rightarrow> u64 \<Rightarrow> u64 \<Rightarrow> 'a memory_state_scheme \<Rightarrow> 'a memory_state_scheme \<Rightarrow> bool" where
  "mapped root v e s s' \<longleftrightarrow>
     vm_ok root s' \<and> hhdm_offset s' = hhdm_offset s \<and> same_but_memory s s' \<and>
     (\<forall>w. translate_in s' root w = (if same_page w v then Some e else translate_in s root w)) \<and>
     (\<forall>r. is_path r \<longrightarrow> walkable_in s root r \<longrightarrow> walkable_in s' root r) \<and>
     (\<forall>r. is_path r \<longrightarrow> table_in s root r \<noteq> None \<longrightarrow> table_in s' root r = table_in s root r) \<and>
     table_in s' root (path_of v) \<noteq> None \<and>
     card (free_frames s') + missing s root v = card (free_frames s)"

lemma mappedD:
  assumes "mapped root v e s s'"
  shows "vm_ok root s'" "hhdm_offset s' = hhdm_offset s"
    and "translate_in s' root w = (if same_page w v then Some e else translate_in s root w)"
    and "is_path r \<Longrightarrow> walkable_in s root r \<Longrightarrow> walkable_in s' root r"
    and "is_path r \<Longrightarrow> table_in s root r \<noteq> None \<Longrightarrow> table_in s' root r = table_in s root r"
    and "table_in s' root (path_of v) \<noteq> None"
    and "card (free_frames s') + missing s root v = card (free_frames s)" and "same_but_memory s s'"
  using assms unfolding mapped_def by blast+

lemma map_page_mapped:
  assumes "vm_ok (pml4 as) s" "walkable_in s (pml4 as) (path_of v)"
    and "missing s (pml4 as) v \<le> card (free_frames s)" "translate_in s (pml4 as) v = None"
    and "(phys OR flags) AND PAGE_PRESENT \<noteq> 0"
  shows "\<exists>s'. map_page as v phys flags s = (Ret 0, s') \<and> mapped (pml4 as) v (phys OR flags) s s'"
proof -
  let ?r = "pml4 as"
  from ensure_path_ok [OF assms(1-3)] obtain t s1 where 1: "ensure_path ?r v s = (Ret t, s1)"
    "table_in s1 ?r (path_of v) = Some t" "path_done ?r v s s1" by blast
  note d = path_doneD [OF 1(3)]
  have wf: "wf_tables (mem s1) (hhdm_offset s1) ?r (free_pages s1)" using d(1) by (simp add: vm_ok_def)
  have np: "load64 (mem s1) (t + 8 * pt_i v) AND PAGE_PRESENT = 0"
    using d(3) [of v] assms(4) 1(2) by (simp add: translate_def leaf_of_def Let_def split: if_splits)
  define m where "m = store64 (mem s1) (slot t (leaf_of v)) (phys OR flags)"
  have run: "map_page as v phys flags s = (Ret 0, s1\<lparr>mem := m\<rparr>)"
    using 1(1) np by (simp add: map_page_eq bind_def routine_simps m_def leaf_of_def)
  have "translate m (hhdm_offset s1) ?r w = (if same_page w v then Some (phys OR flags) else translate_in s ?r w)" for w
    using translate_leaf_write [OF wf 1(2)] assms(5) d(3) [of w] by (simp add: m_def same_page_def)
  moreover have "vm_ok ?r (s1\<lparr>mem := m\<rparr>)" unfolding m_def by (rule vm_ok_leaf_write [OF d(1) 1(2)])
  moreover have "walkable m (hhdm_offset s1) ?r q" if "is_path q" "walkable_in s ?r q" for q
    using leaf_write_walkable [OF wf 1(2) that(1)] d(4) [OF that] by (simp add: m_def)
  moreover have "table_at m (hhdm_offset s1) ?r q = table_in s1 ?r q" if "is_path q" for q
    using leaf_write_table [OF wf 1(2) that] by (simp add: m_def)
  ultimately have "mapped ?r v (phys OR flags) s (s1\<lparr>mem := m\<rparr>)"
    unfolding mapped_def using d(2) d(5) d(6) d(7) 1(2) by simp
  with run show ?thesis by blast
qed

text \<open>Property C1: \<open>map_page\<close> on an address without a translation succeeds whenever the free page frames cover
  the missing tables. Afterwards the address translates to the given frame and flags, every other
  page translates as before, the tables still form a tree apart from the free pages, and exactly
  the missing tables have been taken from the allocator.\<close>

theorem map_page_correct:
  assumes "vm_ok (pml4 as) s" and "walkable_in s (pml4 as) (path_of v)"
    and "missing s (pml4 as) v \<le> card (free_frames s)" and "translate_in s (pml4 as) v = None"
    and "flags AND PAGE_PRESENT \<noteq> 0"
  shows "\<exists>s'. map_page as v phys flags s = (Ret 0, s') \<and> vm_ok (pml4 as) s' \<and>
     translate_in s' (pml4 as) v = Some (phys OR flags) \<and>
     (\<forall>w. same_page w v \<or> translate_in s' (pml4 as) w = translate_in s (pml4 as) w) \<and>
     card (free_frames s') + missing s (pml4 as) v = card (free_frames s)"
proof -
  have "(phys OR flags) AND PAGE_PRESENT = (phys AND PAGE_PRESENT) OR (flags AND PAGE_PRESENT)"
    by (rule bit.conj_disj_distrib2)
  then have "(phys OR flags) AND PAGE_PRESENT \<noteq> 0" using assms(5) by (simp add: or_eq_0_iff)
  from map_page_mapped [OF assms(1-4) this] show ?thesis
    by (auto simp: mapped_def same_page_def)
qed

lemma map_page_present:
  assumes "vm_ok (pml4 as) s" and "walkable_in s (pml4 as) (path_of v)" and "translate_in s (pml4 as) v = Some e"
  shows "map_page as v phys flags s = (Ret (-1), s)"
proof -
  obtain t where t: "table_in s (pml4 as) (path_of v) = Some t"
    "load64 (mem s) (slot t (leaf_of v)) AND PAGE_PRESENT \<noteq> 0"
    using assms(3) by (auto simp: translate_def Let_def split: option.splits if_splits)
  have "ensure_path (pml4 as) v s = (Ret t, s)"
  proof -
    obtain t1 t2 where "table_in s (pml4 as) [unat (pml4_i v)] = Some t1"
      "table_in s (pml4 as) [unat (pdpt_i v), unat (pml4_i v)] = Some t2"
      using t(1) by (auto simp: path_of_def split: option.splits)
    then show ?thesis
      using t(1) assms(2) ensure_table_present [of s "pml4 as" "[]" "pml4 as" "unat (pml4_i v)"]
        ensure_table_present [of s "pml4 as" "[unat (pml4_i v)]" t1 "unat (pdpt_i v)"]
        ensure_table_present [of s "pml4 as" "[unat (pdpt_i v), unat (pml4_i v)]" t2 "unat (pd_i v)"]
      by (simp add: ensure_path_def path_of_def bind_def)
  qed
  with t(2) show ?thesis by (simp add: map_page_eq bind_def routine_simps leaf_of_def)
qed

text \<open>Property C27: \<open>map_page\<close> on an address that is already mapped returns -1 and changes nothing.\<close>

theorem map_page_already_mapped:
  assumes "vm_ok (pml4 as) s" and "walkable_in s (pml4 as) (path_of v)" and "translate_in s (pml4 as) v = Some e"
  shows "map_page as v phys flags s = (Ret (-1), s)"
  using assms by (rule map_page_present)

text \<open>A state with an empty top-level table and three free page frames.\<close>

definition empty_vm :: vm_state where
  "empty_vm = memory_state.extend
     (two_pages\<lparr>page_list := [\<lparr>start = 0x101000, used = False\<rparr>, \<lparr>start = 0x102000, used = False\<rparr>,
                            \<lparr>start = 0x103000, used = False\<rparr>]\<rparr>)
     \<lparr>newpml4 = \<lparr>pml4_phys = 0x100000, pml4 = 0xFFFF800000100000\<rparr>, offst = 0\<rparr>"

lemma empty_vm_fields:
  "mem empty_vm = (\<lambda>_. 0)" "hhdm_offset empty_vm = 0xFFFF800000000000" "memory_lock empty_vm = unlocked"
  "msr empty_vm = (\<lambda>_. 0)" "free_frames empty_vm = {0x101000, 0x102000, 0x103000}"
  "map start (page_list empty_vm) = [0x101000, 0x102000, 0x103000]"
  "newpml4 empty_vm = \<lparr>pml4_phys = 0x100000, pml4 = 0xFFFF800000100000\<rparr>" "offst empty_vm = 0"
  by (simp_all add: free_frames_filter empty_vm_def memory_state.extend_def two_pages_def log_state.extend_def
      quiet_machine_def)

lemma load64_zero_memory [simp]: "load64 (\<lambda>_. 0) a = 0"
  by (rule load64_zero) simp

lemma table_at_zero_memory: "table_at (\<lambda>_. 0) h root q = (if q = [] then Some root else None)"
  by (induction q) (simp_all add: next_table_def)

lemma walkable_zero_memory: "walkable (\<lambda>_. 0) h root q"
  by (induction q) (simp_all split: option.split)

lemma empty_vm_ok: "vm_ok 0xFFFF800000100000 empty_vm"
  unfolding vm_ok_def wf_tables_def id_apart_def alloc_ready_def
  by (simp add: empty_vm_fields table_at_zero_memory free_pages_def aligned_def current_cpu_def ispercpuready_iff)

lemma empty_vm_translate: "translate_in empty_vm r v = None" "walkable_in empty_vm r q"
  "missing empty_vm r v = 3"
  by (simp_all add: translate_def empty_vm_fields table_at_zero_memory walkable_zero_memory missing_def path_of_def)

theorem map_page_correct_witness:
  "\<exists>s'. map_page (newpml4 empty_vm) 0x400000 0x5000 7 empty_vm = (Ret 0, s') \<and>
     vm_ok (pml4 (newpml4 empty_vm)) s' \<and>
     translate_in s' (pml4 (newpml4 empty_vm)) 0x400000 = Some (0x5000 OR 7) \<and>
     (\<forall>w. same_page w 0x400000 \<or>
        translate_in s' (pml4 (newpml4 empty_vm)) w = translate_in empty_vm (pml4 (newpml4 empty_vm)) w) \<and>
     card (free_frames s') + missing empty_vm (pml4 (newpml4 empty_vm)) 0x400000 = card (free_frames empty_vm)"
  by (rule map_page_correct)
    (use empty_vm_ok in \<open>simp_all add: empty_vm_fields(5,7) empty_vm_translate page_flag_values\<close>)

theorem map_page_already_mapped_witness:
  "\<exists>s'. map_page (newpml4 empty_vm) 0x400000 0x5000 7 empty_vm = (Ret 0, s') \<and>
     map_page (newpml4 empty_vm) 0x400000 0x6000 3 s' = (Ret (-1), s')"
proof -
  have "\<exists>s'. map_page (newpml4 empty_vm) 0x400000 0x5000 7 empty_vm = (Ret 0, s') \<and>
      mapped (pml4 (newpml4 empty_vm)) 0x400000 (0x5000 OR 7) empty_vm s'"
    by (rule map_page_mapped)
      (use empty_vm_ok in \<open>simp_all add: empty_vm_fields(5,7) empty_vm_translate page_flag_values\<close>)
  then obtain s' where s': "map_page (newpml4 empty_vm) 0x400000 0x5000 7 empty_vm = (Ret 0, s')"
    "mapped (pml4 (newpml4 empty_vm)) 0x400000 (0x5000 OR 7) empty_vm s'" by blast
  have "map_page (newpml4 empty_vm) 0x400000 0x6000 3 s' = (Ret (-1), s')"
  proof (rule map_page_already_mapped)
    note d = mappedD [OF s'(2)]
    show "vm_ok (pml4 (newpml4 empty_vm)) s'" by (rule d(1))
    show "walkable_in s' (pml4 (newpml4 empty_vm)) (path_of 0x400000)"
      by (rule d(4) [OF path_of_is_path empty_vm_translate(2)])
    show "translate_in s' (pml4 (newpml4 empty_vm)) 0x400000 = Some (0x5000 OR 7)"
      using d(3) [of "0x400000"] by (simp add: same_page_def)
  qed
  with s'(1) show ?thesis by blast
qed

section \<open>The configuration space window\<close>

definition ecam_addr :: "nat \<Rightarrow> u64" where
  "ecam_addr n = PCI_ECAM_BASE + of_nat n * 4 * 1024"

definition ecam_entry :: "nat \<Rightarrow> u64" where
  "ecam_entry n = (PCI_ECAM_PHYS + of_nat n * 4 * 1024) OR (PAGE_PRESENT OR PAGE_WRITE OR PAGE_NX)"

lemma ecam_pages_eq: "ecam_pages = 65536"
  by (simp add: ecam_pages_def PCI_ECAM_SIZE_def)

lemma unat_index: "unat (drop_bit k v AND 0x1FF :: u64) = unat v div 2 ^ k mod 512"
proof -
  have "drop_bit k v AND 0x1FF = take_bit 9 (drop_bit k v)" by (simp add: take_bit_eq_mask mask_eq_exp_minus_1)
  moreover have "take_bit 64 (unat v) = unat v" using unat_lt2p [of v] by (simp add: take_bit_eq_mod)
  then have "unat (take_bit 9 (drop_bit k v)) = take_bit 9 (drop_bit k (unat v))"
    by (simp add: unsigned_take_bit_eq unsigned_drop_bit_eq)
  ultimately show ?thesis by (simp add: take_bit_eq_mod drop_bit_eq_div)
qed

lemma unat_ecam_addr: "n < 65536 \<Longrightarrow> unat (ecam_addr n) = 0xFFFFFFFFF0000000 + 4096 * n"
  by (simp add: ecam_addr_def PCI_ECAM_BASE_def unat_word_ariths unat_of_nat64 mult.assoc)

lemma split_index:
  assumes "(x :: nat) = d * (512 * q + r) + y" "0 < d" "r + y div d < 512"
  shows "x div d mod 512 = r + y div d"
proof -
  have "x div d = 512 * q + (r + y div d)" using assms(1,2) by simp
  then show ?thesis using assms(3) by simp
qed

lemma ecam_path:
  assumes "n < 65536"
  shows "path_of (ecam_addr n) = [384 + n div 512, 511, 511]" "leaf_of (ecam_addr n) = n mod 512"
proof -
  have d: "4096 * n div 2 ^ 21 = n div 512" "n div 512 < 128"
    using div_mult_mult1 [of "4096 :: nat" n 512] assms by (simp_all add: less_mult_imp_div_less)
  have "(0xFFFFFFFFF0000000 + 4096 * n) div 2 ^ 21 mod 512 = 384 + n div 512"
    using split_index [of "0xFFFFFFFFF0000000 + 4096 * n" "2 ^ 21" 17179869183 384 "4096 * n"] d by simp
  moreover have "(0xFFFFFFFFF0000000 + 4096 * n) div 2 ^ 30 mod 512 = 511"
    using split_index [of "0xFFFFFFFFF0000000 + 4096 * n" "2 ^ 30" 33554431 511 "805306368 + 4096 * n"] assms by simp
  moreover have "(0xFFFFFFFFF0000000 + 4096 * n) div 2 ^ 39 mod 512 = 511"
    using split_index [of "0xFFFFFFFFF0000000 + 4096 * n" "2 ^ 39" 65535 511 "549487378432 + 4096 * n"] assms by simp
  moreover have "(0xFFFFFFFFF0000000 + 4096 * n) div 2 ^ 12 = 512 * 8796093022080 + n" by simp
  then have "(0xFFFFFFFFF0000000 + 4096 * n) div 2 ^ 12 mod 512 = n mod 512" by (simp only: mod_mult_self4)
  ultimately show "path_of (ecam_addr n) = [384 + n div 512, 511, 511]" "leaf_of (ecam_addr n) = n mod 512"
    unfolding path_of_def leaf_of_def pml4_i_def pdpt_i_def pd_i_def pt_i_def unat_index unat_ecam_addr [OF assms]
    by (simp_all only:)
qed

lemma ecam_same_page:
  assumes "n < 65536" "k < 65536"
  shows "same_page (ecam_addr n) (ecam_addr k) \<longleftrightarrow> n = k"
proof -
  have "n div 512 = k div 512 \<Longrightarrow> n mod 512 = k mod 512 \<Longrightarrow> n = k" by (metis div_mult_mod_eq)
  then show ?thesis using assms by (auto simp: same_page_def ecam_path)
qed

text \<open>The page frames the rest of the loop needs, when the first \<open>n\<close> pages are mapped.\<close>

definition ecam_need :: "nat \<Rightarrow> nat" where
  "ecam_need n = (if n = 0 then 130 else 127 - (n - 1) div 512)"

definition ecam_ready :: "u64 \<Rightarrow> nat \<Rightarrow> 'a memory_state_scheme \<Rightarrow> bool" where
  "ecam_ready root n s \<longleftrightarrow>
     vm_ok root s \<and> ecam_need n \<le> card (free_frames s) \<and>
     (0 < n \<longrightarrow> table_in s root (path_of (ecam_addr (n - 1))) \<noteq> None) \<and>
     (\<forall>k < 65536. walkable_in s root (path_of (ecam_addr k)) \<and>
        (n \<le> k \<longrightarrow> translate_in s root (ecam_addr k) = None))"

lemma table_at_prefix: "table_at m h root (i # q) \<noteq> None \<Longrightarrow> table_at m h root q \<noteq> None"
  by (auto split: option.splits)

lemma ecam_missing:
  assumes "ecam_ready root n s" "n < 65536"
  shows "ecam_need (Suc n) + missing s root (ecam_addr n) \<le> ecam_need n"
proof (cases n)
  case 0
  have "missing s root v \<le> 3" for v
    unfolding missing_def by (rule order_trans [OF length_filter_le]) simp
  then show ?thesis using 0 by (simp add: ecam_need_def)
next
  case (Suc k)
  have p: "path_of (ecam_addr k) = [384 + k div 512, 511, 511]" "path_of (ecam_addr n) = [384 + n div 512, 511, 511]"
    using assms(2) Suc by (simp_all add: ecam_path)
  have t3: "table_in s root [384 + k div 512, 511, 511] \<noteq> None"
    using assms(1) Suc p(1) by (simp add: ecam_ready_def del: table_at.simps)
  then have t2: "table_in s root [511, 511] \<noteq> None" by (rule table_at_prefix)
  then have t1: "table_in s root [511] \<noteq> None" by (rule table_at_prefix)
  have miss: "missing s root (ecam_addr n) = (if table_in s root [384 + n div 512, 511, 511] = None then 1 else 0)"
    using t1 t2 unfolding missing_def p(2) by (auto simp del: table_at.simps)
  show ?thesis
  proof (cases "n mod 512 = 0")
    case True
    then have "n div 512 = Suc (k div 512)" using Suc div_Suc [of k 512] by simp
    moreover have "n div 512 < 128" using assms(2) by (simp add: less_mult_imp_div_less)
    moreover have "missing s root (ecam_addr n) \<le> 1" unfolding miss by simp
    ultimately show ?thesis using Suc by (simp add: ecam_need_def)
  next
    case False
    then have "n div 512 = k div 512" using Suc div_Suc [of k 512] by simp
    then show ?thesis using miss t3 Suc by (simp add: ecam_need_def del: table_at.simps)
  qed
qed

lemma ecam_step:
  assumes "ecam_ready (pml4 as) n s" "n < 65536"
  shows "\<exists>s'. map_page as (ecam_addr n) (PCI_ECAM_PHYS + of_nat n * 4 * 1024)
       (PAGE_PRESENT OR PAGE_WRITE OR PAGE_NX) s = (Ret 0, s') \<and>
     mapped (pml4 as) (ecam_addr n) (ecam_entry n) s s' \<and> ecam_ready (pml4 as) (Suc n) s'"
proof -
  have r: "vm_ok (pml4 as) s" "walkable_in s (pml4 as) (path_of (ecam_addr n))"
    "translate_in s (pml4 as) (ecam_addr n) = None" "ecam_need n \<le> card (free_frames s)"
    using assms by (auto simp: ecam_ready_def)
  note need = ecam_missing [OF assms]
  have m: "missing s (pml4 as) (ecam_addr n) \<le> card (free_frames s)" using need r(4) by linarith
  have "((PCI_ECAM_PHYS + of_nat n * 4 * 1024) OR (PAGE_PRESENT OR PAGE_WRITE OR PAGE_NX)) AND PAGE_PRESENT \<noteq> 0"
    by (simp add: bit.conj_disj_distrib2 or_eq_0_iff page_flag_values)
  from map_page_mapped [OF r(1,2) m r(3) this] obtain s' where
    s': "map_page as (ecam_addr n) (PCI_ECAM_PHYS + of_nat n * 4 * 1024)
       (PAGE_PRESENT OR PAGE_WRITE OR PAGE_NX) s = (Ret 0, s')"
    "mapped (pml4 as) (ecam_addr n) (ecam_entry n) s s'" by (auto simp: ecam_entry_def)
  note d = mappedD [OF s'(2)]
  have "ecam_ready (pml4 as) (Suc n) s'"
    unfolding ecam_ready_def
  proof (intro conjI allI impI)
    show "vm_ok (pml4 as) s'" by (rule d(1))
    show "ecam_need (Suc n) \<le> card (free_frames s')" using need d(7) r(4) by linarith
    show "table_in s' (pml4 as) (path_of (ecam_addr (Suc n - 1))) \<noteq> None" using d(6) by simp
    fix k :: nat assume k: "k < 65536"
    show "walkable_in s' (pml4 as) (path_of (ecam_addr k))"
      using assms(1) k by (intro d(4) path_of_is_path) (simp add: ecam_ready_def)
    assume "Suc n \<le> k"
    then show "translate_in s' (pml4 as) (ecam_addr k) = None"
      using d(3) [of "ecam_addr k"] ecam_same_page [OF k assms(2)] assms(1) k by (simp add: ecam_ready_def)
  qed
  with s' show ?thesis by blast
qed

lemma map_ecam_ok:
  assumes "ecam_ready (pml4 as) n s" "n + k \<le> 65536"
  shows "\<exists>s'. map_ecam as n k s = (Ret (), s') \<and> vm_ok (pml4 as) s' \<and> hhdm_offset s' = hhdm_offset s \<and>
     same_but_memory s s' \<and>
     (\<forall>j. n \<le> j \<longrightarrow> j < n + k \<longrightarrow> translate_in s' (pml4 as) (ecam_addr j) = Some (ecam_entry j)) \<and>
     (\<forall>w. (\<exists>j. n \<le> j \<and> j < n + k \<and> same_page w (ecam_addr j)) \<or>
        translate_in s' (pml4 as) w = translate_in s (pml4 as) w)"
  using assms
proof (induction k arbitrary: n s)
  case 0
  then show ?case by (simp add: return_def ecam_ready_def)
next
  case (Suc k)
  from ecam_step [OF Suc.prems(1)] Suc.prems(2) obtain s1 where
    1: "map_page as (ecam_addr n) (PCI_ECAM_PHYS + of_nat n * 4 * 1024) (PAGE_PRESENT OR PAGE_WRITE OR PAGE_NX) s = (Ret 0, s1)"
    "mapped (pml4 as) (ecam_addr n) (ecam_entry n) s s1" "ecam_ready (pml4 as) (Suc n) s1" by auto
  from Suc.IH [OF 1(3)] Suc.prems(2) obtain s2 where 2: "map_ecam as (Suc n) k s1 = (Ret (), s2)"
    "vm_ok (pml4 as) s2" "hhdm_offset s2 = hhdm_offset s1"
    "same_but_memory s1 s2"
    "\<And>j. Suc n \<le> j \<Longrightarrow> j < Suc n + k \<Longrightarrow> translate_in s2 (pml4 as) (ecam_addr j) = Some (ecam_entry j)"
    "\<And>w. (\<exists>j. Suc n \<le> j \<and> j < Suc n + k \<and> same_page w (ecam_addr j)) \<or>
        translate_in s2 (pml4 as) w = translate_in s1 (pml4 as) w" by auto
  note d = mappedD [OF 1(2)]
  have run: "map_ecam as n (Suc k) s = (Ret (), s2)"
    using 1(1) 2(1) by (simp add: seq_def bind_def ecam_addr_def)
  have first: "translate_in s2 (pml4 as) (ecam_addr n) = Some (ecam_entry n)"
  proof -
    have "\<not> (\<exists>j. Suc n \<le> j \<and> j < Suc n + k \<and> same_page (ecam_addr n) (ecam_addr j))"
      using ecam_same_page Suc.prems(2) by auto
    then have "translate_in s2 (pml4 as) (ecam_addr n) = translate_in s1 (pml4 as) (ecam_addr n)"
      using 2(6) by blast
    then show ?thesis using d(3) [of "ecam_addr n"] by (simp add: same_page_def)
  qed
  show ?case
  proof (intro exI conjI allI impI)
    show "map_ecam as n (Suc k) s = (Ret (), s2)" by (rule run)
    show "vm_ok (pml4 as) s2" by (rule 2(2))
    show "hhdm_offset s2 = hhdm_offset s" using 2(3) d(2) by simp
    show "same_but_memory s s2" by (rule same_but_memory_trans [OF d(8) 2(4)])
    fix j assume "n \<le> j" "j < n + Suc k"
    then show "translate_in s2 (pml4 as) (ecam_addr j) = Some (ecam_entry j)"
      using first 2(5) [of j] by (cases "j = n") auto
  next
    fix w
    show "(\<exists>j. n \<le> j \<and> j < n + Suc k \<and> same_page w (ecam_addr j)) \<or>
        translate_in s2 (pml4 as) w = translate_in s (pml4 as) w"
    proof (cases "same_page w (ecam_addr n)")
      case True
      then show ?thesis by (intro disjI1 exI [of _ n]) simp
    next
      case False
      then show ?thesis
        using 2(6) [of w] d(3) [of w] by (auto dest!: Suc_leD)
    qed
  qed
qed

section \<open>The new top-level table\<close>

text \<open>The memory after the upper half of the table at \<open>b\<close> has been copied to the page at \<open>r\<close> and its lower
  half cleared.\<close>

definition copied_root :: "memory \<Rightarrow> u64 \<Rightarrow> u64 \<Rightarrow> memory" where
  "copied_root m r b = snd (memset r 0 (256 * 8) (snd (memcpy (r + 8 * 256) (b + 8 * 256) (256 * 8) m)))"

lemma half_in_page:
  "in_range r 2048 x \<Longrightarrow> in_range r 4096 x" "in_range (r + 2048) 2048 x \<Longrightarrow> in_range r 4096 x"
proof -
  show "in_range r 2048 x \<Longrightarrow> in_range r 4096 x" by (simp add: in_range_def)
  assume "in_range (r + 2048) 2048 x"
  then obtain k where k: "k < 2048" "x = r + 2048 + of_nat k" by (rule in_rangeE)
  then have "x = r + of_nat (2048 + k)" by simp
  with k(1) show "in_range r 4096 x" by (simp add: in_range_offset del: of_nat_add)
qed

lemma copy_apart:
  assumes "aligned 4096 r" "aligned 4096 b" "r \<noteq> b" "i < 2048"
  shows "\<not> in_range (r + 2048) i (b + 2048 + of_nat i)"
proof
  assume "in_range (r + 2048) i (b + 2048 + of_nat i)"
  then have "in_range (r + 2048) 2048 (b + 2048 + of_nat i)" using assms(4) by (simp add: in_range_def)
  then have "in_range r 4096 (b + 2048 + of_nat i)" by (rule half_in_page)
  moreover have "in_range (b + 2048) 2048 (b + 2048 + of_nat i)" using assms(4) by (simp add: in_range_offset)
  then have "in_range b 4096 (b + 2048 + of_nat i)" by (rule half_in_page)
  ultimately show False using aligned_blocks_disjoint [OF assms(1,2)] assms(3) by simp
qed

lemma copied_root_apply:
  assumes "aligned 4096 r" "aligned 4096 b" "r \<noteq> b"
  shows "copied_root m r b x =
     (if in_range r 2048 x then 0 else if in_range (r + 2048) 2048 x then m (b + (x - r)) else m x)"
proof -
  have "snd (memcpy (r + 2048) (b + 2048) 2048 m) x =
      (if in_range (r + 2048) 2048 x then m (b + 2048 + (x - (r + 2048))) else m x)"
    using copy_apart [OF assms] by (subst memcpy_apply) simp_all
  moreover have "b + 2048 + (x - (r + 2048)) = b + (x - r)" by simp
  moreover have "copied_root m r b x =
      (if in_range r 2048 x then 0 else snd (memcpy (r + 2048) (b + 2048) 2048 m) x)"
    by (simp add: copied_root_def memset_apply)
  ultimately show ?thesis by (simp only: split: if_split)
qed

lemma copied_root_outside:
  assumes "aligned 4096 r" "aligned 4096 b" "r \<noteq> b" "\<not> in_range r 4096 x"
  shows "copied_root m r b x = m x"
  using assms half_in_page [of r x] by (simp add: copied_root_apply) blast

lemma load_slot_copied:
  assumes "aligned 4096 r" "aligned 4096 b" "r \<noteq> b" "aligned 4096 u" "i < 512"
  shows "load64 (copied_root m r b) (slot u i) =
     (if u = r then if i < 256 then 0 else load64 m (slot b i) else load64 m (slot u i))"
proof (cases "u = r")
  case False
  have "\<not> in_range r 4096 x" if "in_range (slot u i) 8 x" for x
    using aligned_blocks_disjoint [OF assms(1,4), of x] slot_in_page [OF assms(5) that] False by auto
  then show ?thesis using False assms by (auto simp: copied_root_outside intro!: load64_cong)
next
  case True
  show ?thesis
  proof (cases "i < 256")
    case low: True
    have "in_range r 2048 x" if "in_range (slot r i) 8 x" for x
    proof -
      obtain k where k: "k < 8" "x = slot r i + of_nat k" using \<open>in_range (slot r i) 8 x\<close> by (rule in_rangeE)
      then have "x = r + of_nat (8 * i + k)" by (simp add: slot_def)
      then show ?thesis using k(1) low by (simp add: in_range_offset del: of_nat_add of_nat_mult)
    qed
    then show ?thesis using True low assms by (simp add: copied_root_apply load64_zero)
  next
    case high: False
    have eq: "copied_root m r b x = m (x + (b - r))" if "in_range (slot r i) 8 x" for x
    proof -
      obtain k where k: "k < 8" "x = slot r i + of_nat k" using \<open>in_range (slot r i) 8 x\<close> by (rule in_rangeE)
      then have x: "x = r + of_nat (8 * i + k)" "x = (r + 2048) + of_nat (8 * i + k - 2048)"
        using high by (simp_all add: slot_def of_nat_diff)
      have "\<not> in_range r 2048 x" using x(1) k(1) high assms(5) by (simp add: in_range_offset del: of_nat_add of_nat_mult)
      moreover have "in_range (r + 2048) 2048 x"
        unfolding x(2) using k(1) high assms(5) by (subst in_range_offset) auto
      ultimately show ?thesis using assms(1-3) by (simp add: copied_root_apply algebra_simps)
    qed
    have "load_le (copied_root m r b) a n = load_le m (a + (b - r)) n"
      if "\<And>k. k < n \<Longrightarrow> copied_root m r b (a + of_nat k) = m (a + of_nat k + (b - r))" for a n
      using that
    proof (induction n arbitrary: a)
      case (Suc n)
      have "load_le (copied_root m r b) (a + 1) n = load_le m (a + 1 + (b - r)) n"
        using Suc.prems [of "Suc _"] by (intro Suc.IH) (simp add: add.assoc [symmetric])
      moreover have "copied_root m r b a = m (a + (b - r))" using Suc.prems [of 0] by simp
      ultimately show ?case by (simp add: add_ac)
    qed simp
    from this [of 8 "slot r i"] eq have "load64 (copied_root m r b) (slot r i) = load64 m (slot r i + (b - r))"
      by (simp only: load64_def) (simp add: in_range_offset)
    then show ?thesis using True high by (simp add: slot_def algebra_simps)
  qed
qed

lemma table_at_copied:
  assumes "wf_tables m h b F" "r \<in> F" "is_path q"
  shows "table_at (copied_root m r b) h r q =
     (if q = [] then Some r else if 256 \<le> last q then table_at m h b q else None)"
  using assms(3)
proof (induction q)
  case (Cons i q)
  have q: "is_path q" "i < 512" using Cons.prems by (simp_all add: is_path_def)
  have al: "aligned 4096 r" "aligned 4096 b" "r \<noteq> b"
    using assms(1,2) wf_tablesD [OF assms(1), of "[]" b] by (auto simp: wf_tables_def is_path_def)
  note load = load_slot_copied [OF al _ q(2)]
  show ?case
  proof (cases "q = []")
    case True
    then show ?thesis using load [OF al(1)] by (simp add: next_table_def)
  next
    case False
    have "load64 (copied_root m r b) (slot t i) = load64 m (slot t i)" if "table_at m h b q = Some t" for t
      using wf_tablesD [OF assms(1) q(1) that] assms(2) by (subst load) auto
    with False Cons.IH [OF q(1)] show ?thesis by (auto split: option.split)
  qed
qed simp

lemma wf_tables_copied:
  assumes "wf_tables m h b F" "r \<in> F"
  shows "wf_tables (copied_root m r b) h r (F - {r})"
    and "tables (copied_root m r b) h r \<subseteq> insert r (tables m h b)"
proof -
  note ta = table_at_copied [OF assms]
  have old: "q = [] \<and> t = r \<or> q \<noteq> [] \<and> t \<noteq> r \<and> table_at m h b q = Some t"
    if "is_path q" "table_at (copied_root m r b) h r q = Some t" for q t
    using that ta [OF that(1)] wf_tablesD(2) [OF assms(1) that(1)] assms(2) by (auto split: if_splits)
  show "wf_tables (copied_root m r b) h r (F - {r})"
    unfolding wf_tables_def
  proof (intro conjI allI impI ballI)
    fix q q' t
    assume q: "is_path q" "table_at (copied_root m r b) h r q = Some t"
    show "aligned 4096 t" "t \<notin> F - {r}"
      using old [OF q] wf_tablesD [OF assms(1) q(1)] assms by (auto simp: wf_tables_def)
    assume q': "is_path q'" "table_at (copied_root m r b) h r q' = Some t"
    show "q = q'" using old [OF q] old [OF q'] wf_tablesD(3) [OF assms(1) q'(1) _ q(1)] by auto
  next
    fix f assume "f \<in> F - {r}"
    then show "aligned 4096 f" using assms(1) by (simp add: wf_tables_def)
  qed
  show "tables (copied_root m r b) h r \<subseteq> insert r (tables m h b)"
    using old by (fastforce simp: tables_def)
qed

lemma translate_copied:
  assumes "wf_tables m h b F" "r \<in> F"
  shows "translate (copied_root m r b) h r v = (if 256 \<le> unat (pml4_i v) then translate m h b v else None)"
proof -
  have l: "path_of v \<noteq> []" "last (path_of v) = unat (pml4_i v)" by (simp_all add: path_of_def)
  have al: "aligned 4096 r" "aligned 4096 b" "r \<noteq> b"
    using assms wf_tablesD [OF assms(1), of "[]" b] by (auto simp: wf_tables_def is_path_def)
  have "load64 (copied_root m r b) (slot t (leaf_of v)) = load64 m (slot t (leaf_of v))"
    if "table_at m h b (path_of v) = Some t" for t
    using wf_tablesD [OF assms(1) path_of_is_path that] assms(2) by (subst load_slot_copied [OF al]) auto
  then show ?thesis
    using table_at_copied [OF assms path_of_is_path, of v] l by (auto simp: translate_def split: option.split)
qed

lemma walkable_copied:
  assumes "wf_tables m h b F" "r \<in> F" "is_path q" "walkable m h b q"
  shows "walkable (copied_root m r b) h r q"
  using assms(3,4)
proof (induction q)
  case (Cons i q)
  have q: "is_path q" "i < 512" using Cons.prems by (simp_all add: is_path_def)
  have al: "aligned 4096 r" "aligned 4096 b" "r \<noteq> b"
    using assms(1,2) wf_tablesD [OF assms(1), of "[]" b] by (auto simp: wf_tables_def is_path_def)
  note load = load_slot_copied [OF al _ q(2)]
  have "load64 (copied_root m r b) (slot t i) AND PAGE_PRESENT = 0 \<or> load64 (copied_root m r b) (slot t i) AND 0x80 = 0"
    if t: "table_at (copied_root m r b) h r q = Some t" for t
  proof (cases "q = []")
    case True
    then show ?thesis using t load [OF al(1)] Cons.prems(2) by auto
  next
    case False
    then have t': "table_at m h b q = Some t" using t table_at_copied [OF assms(1,2) q(1)] by (simp split: if_splits)
    have "aligned 4096 t" "t \<noteq> r" using wf_tablesD [OF assms(1) q(1) t'] assms(2) by auto
    then show ?thesis using load [of t] t' Cons.prems(2) by auto
  qed
  then show ?case using Cons.IH [OF q(1)] Cons.prems(2) by (simp split: option.split)
qed simp

section \<open>virtual\_memory\_init\<close>

text \<open>The state in which the loop over the configuration space starts.\<close>

lemma vm_ok_copied:
  assumes "vm_ok b s" "free_frames s \<noteq> {}"
  obtains page s1 where "giverawpage s = (Ret page, s1)" "page \<in> free_frames s" "aligned 4096 page"
    "same_but_memory s s1" "mem s1 = mem s" "hhdm_offset s1 = hhdm_offset s"
    "Suc (card (free_frames s1)) = card (free_frames s)" "page + hhdm_offset s \<in> free_pages s"
    "vm_ok (page + hhdm_offset s) (s1\<lparr>mem := copied_root (mem s) (page + hhdm_offset s) b\<rparr>)"
proof -
  let ?h = "hhdm_offset s"
  have ok: "alloc_ready s" "aligned 4096 ?h" "wf_tables (mem s) ?h b (free_pages s)"
    "id_apart s (tables (mem s) ?h b \<union> free_pages s)" using assms(1) by (auto simp: vm_ok_def)
  from giverawpage_law [OF ok(1) assms(2)] obtain page pl s1 where g: "giverawpage s = (Ret page, s1)"
    "page \<in> free_frames s" "free_frames s1 = free_frames s - {page}" "alloc_ready s1"
    "s1 = s\<lparr>page_list := pl, memory_lock := unlocked\<rparr>" by blast
  let ?r = "page + ?h"
  have f: "?r \<in> free_pages s" using g(2) by (simp add: free_pages_mem_iff)
  have al: "aligned 4096 ?r" "aligned 4096 b" "?r \<noteq> b"
    using ok(3) f wf_tablesD [OF ok(3), of "[]" b] by (auto simp: wf_tables_def is_path_def)
  define s' where "s' = s1\<lparr>mem := copied_root (mem s) ?r b\<rparr>"
  have "current_cpu s' = current_cpu s1"
    unfolding s'_def
  proof (rule current_cpu_mem)
    show "id_apart s1 (free_pages s)" using ok(4) g(5) by (auto intro: id_apart_subset)
    fix x assume "\<And>t. t \<in> free_pages s \<Longrightarrow> \<not> in_range t 4096 x"
    then show "copied_root (mem s) ?r b x = mem s1 x" using f g(5) al by (simp add: copied_root_outside)
  qed
  then have "alloc_ready s'" using g(4) by (simp add: alloc_ready_def s'_def)
  moreover have "free_pages s' = free_pages s - {?r}"
  proof -
    have "hhdm_offset s' = ?h" using g(5) by (simp add: s'_def)
    moreover have "free_frames s' = free_frames s - {page}" using g(3) by (simp add: s'_def)
    ultimately show ?thesis unfolding free_pages_def by (simp add: image_set_diff inj_on_def)
  qed
  moreover have "id_apart s' (tables (copied_root (mem s) ?r b) ?h ?r \<union> (free_pages s - {?r}))"
  proof -
    have "tables (copied_root (mem s) ?r b) ?h ?r \<union> (free_pages s - {?r}) \<subseteq> tables (mem s) ?h b \<union> free_pages s"
      using wf_tables_copied(2) [OF ok(3) f] f by blast
    from id_apart_subset [OF ok(4) this] show ?thesis using g(5) by (simp add: s'_def)
  qed
  ultimately have "vm_ok ?r s'"
    using ok(2) wf_tables_copied(1) [OF ok(3) f] g(5) by (simp add: vm_ok_def s'_def)
  then show ?thesis
    using that [OF g(1,2) aligned_cancel [OF al(1) ok(2)]] g f card_Suc_Diff1 [OF finite_free_frames g(2)]
    by (simp add: s'_def same_but_memory_def)
qed

lemma vm_ok_more [simp]:
  "vm_ok r (s\<lparr>iflag := x\<rparr>) = vm_ok r s" "vm_ok r (s\<lparr>cr3 := y\<rparr>) = vm_ok r s"
  "free_frames (s\<lparr>iflag := x\<rparr>) = free_frames s"
  by (simp_all add: vm_ok_def alloc_ready_def id_apart_def free_pages_def free_frames_def current_cpu_def
      ispercpuready_iff percpu_read_def percpu_offsetof_def)

lemma vm_ok_newpml4 [simp]:
  "vm_ok r (s\<lparr>newpml4 := a\<rparr>) = vm_ok r s" "free_frames (s\<lparr>newpml4 := a\<rparr>) = free_frames s"
  "vm_ok r (s\<lparr>offst := z\<rparr>) = vm_ok r s"
  by (simp_all add: vm_ok_def alloc_ready_def id_apart_def free_pages_def free_frames_def current_cpu_def
      ispercpuready_iff percpu_read_def percpu_offsetof_def)

definition boot_root :: "'a memory_state_scheme \<Rightarrow> u64" where
  "boot_root s = (cr3 s AND NOT 0xFFF) + hhdm_offset s"

definition ecam_free :: "u64 \<Rightarrow> 'a memory_state_scheme \<Rightarrow> bool" where
  "ecam_free root s \<longleftrightarrow>
     (\<forall>k < 65536. walkable_in s root (path_of (ecam_addr k)) \<and> translate_in s root (ecam_addr k) = None)"

definition ecam_mapped :: "u64 \<Rightarrow> 'a memory_state_scheme \<Rightarrow> bool" where
  "ecam_mapped root s \<longleftrightarrow> (\<forall>k < 65536. translate_in s root (ecam_addr k) = Some (ecam_entry k))"

text \<open>What the initialisation needs, and the state it leaves.\<close>

definition boot_ready :: "'a vm_state_scheme \<Rightarrow> bool" where
  "boot_ready s \<longleftrightarrow> vm_ok (boot_root s) s \<and> 131 \<le> card (free_frames s) \<and>
     (\<forall>p \<in> free_frames s. 0x100000 \<le> p) \<and> ecam_free (boot_root s) s"

definition vm_started :: "'a vm_state_scheme \<Rightarrow> 'a vm_state_scheme \<Rightarrow> bool" where
  "vm_started s s' \<longleftrightarrow> cr3 s' = pml4_phys (newpml4 s') \<and> iflag s' \<and>
     pml4 (newpml4 s') = cr3 s' + hhdm_offset s' \<and> vm_ok (pml4 (newpml4 s')) s' \<and>
     ecam_mapped (pml4 (newpml4 s')) s' \<and>
     (\<forall>w. (\<exists>k < 65536. same_page w (ecam_addr k)) \<or>
        translate_in s' (pml4 (newpml4 s')) w =
          (if 256 \<le> unat (pml4_i w) then translate_in s (boot_root s) w else None))"

lemma virtual_memory_init_run:
  assumes "boot_ready s"
  shows "\<exists>s'. virtual_memory_init s = (Ret 0, s') \<and> vm_started s s'"
proof -
  note assms = assms [unfolded boot_ready_def, THEN conjunct1]
    assms [unfolded boot_ready_def, THEN conjunct2, THEN conjunct1]
    assms [unfolded boot_ready_def, THEN conjunct2, THEN conjunct2, THEN conjunct1]
    assms [unfolded boot_ready_def, THEN conjunct2, THEN conjunct2, THEN conjunct2]
  let ?h = "hhdm_offset s" and ?b = "boot_root s"
  let ?s0 = "s\<lparr>iflag := False\<rparr>"
  have "free_frames ?s0 \<noteq> {}" using assms(2) by auto
  moreover have "vm_ok ?b ?s0" using assms(1) by simp
  ultimately obtain page s1 where g: "giverawpage ?s0 = (Ret page, s1)" "page \<in> free_frames ?s0" "aligned 4096 page"
    "same_but_memory ?s0 s1" "mem s1 = mem ?s0" "hhdm_offset s1 = hhdm_offset ?s0"
    "Suc (card (free_frames s1)) = card (free_frames ?s0)" "page + hhdm_offset ?s0 \<in> free_pages ?s0"
    "vm_ok (page + hhdm_offset ?s0) (s1\<lparr>mem := copied_root (mem ?s0) (page + hhdm_offset ?s0) ?b\<rparr>)"
    using vm_ok_copied by blast
  define as where "as = (newpml4 s)\<lparr>pml4_phys := page, pml4 := page + ?h\<rparr>"
  define s2 where "s2 = s1\<lparr>newpml4 := as, mem := copied_root (mem s) (page + ?h) ?b\<rparr>"
  have as: "pml4 as = page + ?h" "pml4_phys as = page" by (simp_all add: as_def)
  have s1: "newpml4 s1 = newpml4 s" "cr3 s1 = cr3 s"
    using same_but_memory_field [OF g(4), of newpml4] same_but_memory_field [OF g(4), of cr3] by simp_all
  have fp: "page + ?h \<in> free_pages s" using g(2) by (simp add: free_pages_mem_iff)
  have wf: "wf_tables (mem s) ?h ?b (free_pages s)" using assms(1) by (simp add: vm_ok_def)
  have up: "256 \<le> unat (pml4_i (ecam_addr k))" if "k < 65536" for k
    using ecam_path(1) [OF that] by (simp add: path_of_def)
  have "s2 = s1\<lparr>mem := copied_root (mem s) (page + ?h) ?b\<rparr>\<lparr>newpml4 := as\<rparr>" by (simp add: s2_def)
  then have "vm_ok (pml4 as) s2" using g(9) as by simp
  moreover have "card (free_frames s2) = card (free_frames s1)" by (simp add: s2_def)
  moreover have "walkable_in s2 (pml4 as) (path_of (ecam_addr k)) \<and> translate_in s2 (pml4 as) (ecam_addr k) = None"
    if "k < 65536" for k
    using assms(4) that g(6) walkable_copied [OF wf fp path_of_is_path] translate_copied [OF wf fp] up [OF that] as
    by (simp add: s2_def ecam_free_def)
  ultimately have ready: "ecam_ready (pml4 as) 0 s2"
    using g(7) assms(2) by (simp add: ecam_ready_def ecam_need_def)
  from map_ecam_ok [OF ready, of 65536] obtain s3 where m: "map_ecam as 0 65536 s2 = (Ret (), s3)"
    "vm_ok (pml4 as) s3" "hhdm_offset s3 = hhdm_offset s2" "same_but_memory s2 s3"
    "\<And>k. k < 65536 \<Longrightarrow> translate_in s3 (pml4 as) (ecam_addr k) = Some (ecam_entry k)"
    "\<And>w. (\<exists>k. k < 65536 \<and> same_page w (ecam_addr k)) \<or> translate_in s3 (pml4 as) w = translate_in s2 (pml4 as) w"
    by auto
  have s3: "newpml4 s3 = as" using same_but_memory_field [OF m(4), of newpml4] by (simp add: s2_def)
  have chk: "\<not> (page < 0x100000 \<or> page AND 0xFFF \<noteq> 0)"
    using assms(3) g(2,3) by (auto simp: aligned_page_iff not_less)
  have run: "virtual_memory_init s = (Ret 0, s3\<lparr>cr3 := page, iflag := True\<rparr>)"
    using g(1,5,6) chk m(1) s1 s3 as
    by (simp add: virtual_memory_init_def routine_simps bind_def cpu_stop_interrupts_def cpu_enable_interrupts_def
        phys2virt_def get_cr3_def write_cr3_def as_def s2_def copied_root_def boot_root_def ecam_pages_eq)
  have h3: "hhdm_offset s3 = ?h" using m(3) g(6) by (simp add: s2_def)
  have tr: "translate_in s2 (pml4 as) w = (if 256 \<le> unat (pml4_i w) then translate_in s ?b w else None)" for w
    using translate_copied [OF wf fp] g(6) as by (simp add: s2_def)
  show ?thesis unfolding vm_started_def
  proof (intro exI conjI)
    show "virtual_memory_init s = (Ret 0, s3\<lparr>cr3 := page, iflag := True\<rparr>)" by (rule run)
    show "ecam_mapped (pml4 (newpml4 (s3\<lparr>cr3 := page, iflag := True\<rparr>))) (s3\<lparr>cr3 := page, iflag := True\<rparr>)"
      using m(5) s3 by (simp add: ecam_mapped_def)
    show "\<forall>w. (\<exists>k < 65536. same_page w (ecam_addr k)) \<or>
        translate_in (s3\<lparr>cr3 := page, iflag := True\<rparr>) (pml4 (newpml4 (s3\<lparr>cr3 := page, iflag := True\<rparr>))) w =
          (if 256 \<le> unat (pml4_i w) then translate_in s ?b w else None)"
      using m(6) tr s3 by (simp del: not_ex)
  qed (use m(2) s3 as h3 in simp_all)
qed

text \<open>Property C2: \<open>virtual_memory_init\<close> succeeds when 131 page frames are free and the boot tables leave the
  configuration window unmapped. It loads a new top-level table under which all 65536 pages of the
  window translate to the device memory, every other upper-half address translates as under the
  boot tables, and no lower-half address translates.\<close>

theorem virtual_memory_init_correct:
  assumes "vm_ok (boot_root s) s" and "131 \<le> card (free_frames s)"
    and "\<forall>p \<in> free_frames s. 0x100000 \<le> p" and "ecam_free (boot_root s) s"
  shows "\<exists>s'. virtual_memory_init s = (Ret 0, s') \<and> cr3 s' = pml4_phys (newpml4 s') \<and> iflag s' \<and>
     pml4 (newpml4 s') = cr3 s' + hhdm_offset s' \<and> vm_ok (pml4 (newpml4 s')) s' \<and>
     ecam_mapped (pml4 (newpml4 s')) s' \<and>
     (\<forall>w. (\<exists>k < 65536. same_page w (ecam_addr k)) \<or>
        translate_in s' (pml4 (newpml4 s')) w =
          (if 256 \<le> unat (pml4_i w) then translate_in s (boot_root s) w else None))"
  using virtual_memory_init_run [unfolded boot_ready_def vm_started_def] assms by blast

text \<open>A state at boot: an empty top-level table at 1 MiB and 131 free page frames from 2 MiB on.\<close>

definition boot_vm :: vm_state where
  "boot_vm = empty_vm\<lparr>cr3 := 0x100000,
     page_list := map (\<lambda>i. \<lparr>start = 0x200000 + of_nat (4096 * i), used = False\<rparr>) [0..<131]\<rparr>"

lemma boot_vm_fields:
  "mem boot_vm = (\<lambda>_. 0)" "hhdm_offset boot_vm = 0xFFFF800000000000" "memory_lock boot_vm = unlocked"
  "msr boot_vm = (\<lambda>_. 0)" "boot_root boot_vm = 0xFFFF800000100000"
  "map start (page_list boot_vm) = map (\<lambda>i. 0x200000 + of_nat (4096 * i)) [0..<131]"
  "free_frames boot_vm = (\<lambda>i. 0x200000 + of_nat (4096 * i)) ` {0..<131}"
  by (simp_all add: boot_vm_def empty_vm_fields boot_root_def free_frames_filter comp_def image_image filter_map
      del: upt_conv_Cons_Cons)

lemma unat_boot_frame: "i < 131 \<Longrightarrow> unat (0x200000 + of_nat (4096 * i) :: u64) = 0x200000 + 4096 * i"
  by (simp add: unat_word_ariths unat_of_nat64)

lemma boot_frames_inj: "inj_on (\<lambda>i. 0x200000 + of_nat (4096 * i) :: u64) {0..<131}"
proof (rule inj_onI)
  fix i j :: nat assume "i \<in> {0..<131}" "j \<in> {0..<131}"
    "0x200000 + of_nat (4096 * i) = (0x200000 + of_nat (4096 * j) :: u64)"
  then show "i = j" using unat_boot_frame [of i] unat_boot_frame [of j] by simp
qed

lemma boot_vm_ok: "vm_ok 0xFFFF800000100000 boot_vm"
proof -
  have ready: "alloc_ready boot_vm"
    unfolding alloc_ready_def boot_vm_fields(3,6)
    using boot_frames_inj by (simp add: distinct_map current_cpu_def ispercpuready_iff boot_vm_fields(4))
  have "aligned 4096 f \<and> f \<noteq> 0xFFFF800000100000" if "f \<in> free_pages boot_vm" for f
  proof -
    from that obtain i where i: "i < 131" "f = 0x200000 + of_nat (4096 * i) + 0xFFFF800000000000"
      by (auto simp: free_pages_def boot_vm_fields)
    have "unat f = 0x200000 + 4096 * i + 0xFFFF800000000000"
      unfolding i(2) using unat_boot_frame [OF i(1)] i(1) by (subst unat_word_ariths) simp
    then show ?thesis by (auto simp: aligned_def dvd_add)
  qed
  then have "wf_tables (\<lambda>_. 0) 0xFFFF800000000000 0xFFFF800000100000 (free_pages boot_vm)"
    by (auto simp: wf_tables_def table_at_zero_memory aligned_def)
  with ready show ?thesis by (simp add: vm_ok_def boot_vm_fields id_apart_def aligned_def)
qed

lemma boot_vm_frames: "card (free_frames boot_vm) = 131" "\<forall>p \<in> free_frames boot_vm. 0x100000 \<le> p"
proof -
  show "card (free_frames boot_vm) = 131"
    unfolding boot_vm_fields(7) using card_image [OF boot_frames_inj] by simp
  show "\<forall>p \<in> free_frames boot_vm. 0x100000 \<le> p"
    unfolding boot_vm_fields(7) using unat_boot_frame by (auto simp: word_le_nat_alt)
qed

lemma boot_vm_ready: "boot_ready boot_vm"
  unfolding boot_ready_def
proof (intro conjI)
  show "vm_ok (boot_root boot_vm) boot_vm" using boot_vm_ok by (simp add: boot_vm_fields(5))
  show "131 \<le> card (free_frames boot_vm)" by (simp add: boot_vm_frames)
  show "\<forall>p \<in> free_frames boot_vm. 0x100000 \<le> p" by (rule boot_vm_frames)
  show "ecam_free (boot_root boot_vm) boot_vm"
    by (simp add: ecam_free_def boot_vm_fields(1,2) walkable_zero_memory translate_def table_at_zero_memory path_of_def)
qed

theorem virtual_memory_init_correct_witness:
  "\<exists>s'. virtual_memory_init boot_vm = (Ret 0, s') \<and> cr3 s' = pml4_phys (newpml4 s') \<and> iflag s' \<and>
     pml4 (newpml4 s') = cr3 s' + hhdm_offset s' \<and> vm_ok (pml4 (newpml4 s')) s' \<and>
     ecam_mapped (pml4 (newpml4 s')) s' \<and>
     (\<forall>w. (\<exists>k < 65536. same_page w (ecam_addr k)) \<or>
        translate_in s' (pml4 (newpml4 s')) w =
          (if 256 \<le> unat (pml4_i w) then translate_in boot_vm (boot_root boot_vm) w else None))"
  using boot_vm_ready unfolding boot_ready_def by (intro virtual_memory_init_correct) simp_all

section \<open>Device mappings\<close>

text \<open>Theorem: \<open>map_mmio\<close> returns the next page of the device window, which then translates to the given
  frame, uncached bits aside with write and no-execute set, and moves on by one page.\<close>

theorem map_mmio_maps:
  assumes "vm_ok (pml4 (newpml4 s)) s" and "walkable_in s (pml4 (newpml4 s)) (path_of (MMIO_BASE + offst s))"
    and "missing s (pml4 (newpml4 s)) (MMIO_BASE + offst s) \<le> card (free_frames s)"
    and "translate_in s (pml4 (newpml4 s)) (MMIO_BASE + offst s) = None"
  shows "\<exists>s'. map_mmio phys s = (Ret (MMIO_BASE + offst s), s') \<and> offst s' = offst s + 0x1000 \<and>
     newpml4 s' = newpml4 s \<and> vm_ok (pml4 (newpml4 s')) s' \<and>
     translate_in s' (pml4 (newpml4 s')) (MMIO_BASE + offst s) =
       Some (phys OR (PAGE_NX OR PAGE_PRESENT OR PAGE_WRITE)) \<and>
     (\<forall>w. same_page w (MMIO_BASE + offst s) \<or>
        translate_in s' (pml4 (newpml4 s')) w = translate_in s (pml4 (newpml4 s)) w)"
proof -
  have "(phys OR (PAGE_NX OR PAGE_PRESENT OR PAGE_WRITE)) AND PAGE_PRESENT \<noteq> 0"
    by (simp add: bit.conj_disj_distrib2 or_eq_0_iff page_flag_values)
  from map_page_mapped [OF assms this] obtain s1 where 1: "map_page (newpml4 s) (MMIO_BASE + offst s) phys
      (PAGE_NX OR PAGE_PRESENT OR PAGE_WRITE) s = (Ret 0, s1)"
    "mapped (pml4 (newpml4 s)) (MMIO_BASE + offst s) (phys OR (PAGE_NX OR PAGE_PRESENT OR PAGE_WRITE)) s s1" by blast
  note d = mappedD [OF 1(2)]
  have f: "newpml4 s1 = newpml4 s" "offst s1 = offst s"
    using same_but_memory_field [OF d(8), of newpml4] same_but_memory_field [OF d(8), of offst] by simp_all
  have "map_mmio phys s = (Ret (MMIO_BASE + offst s), s1\<lparr>offst := offst s + 0x1000\<rparr>)"
    using 1(1) f by (simp add: map_mmio_def routine_simps bind_def page_flag_values(5))
  then show ?thesis using d(1,2) d(3) f by (auto simp: same_page_def)
qed

theorem map_mmio_maps_witness:
  "\<exists>s'. map_mmio 0xFEE00000 empty_vm = (Ret (MMIO_BASE + offst empty_vm), s') \<and>
     offst s' = offst empty_vm + 0x1000 \<and> newpml4 s' = newpml4 empty_vm \<and> vm_ok (pml4 (newpml4 s')) s' \<and>
     translate_in s' (pml4 (newpml4 s')) (MMIO_BASE + offst empty_vm) =
       Some (0xFEE00000 OR (PAGE_NX OR PAGE_PRESENT OR PAGE_WRITE)) \<and>
     (\<forall>w. same_page w (MMIO_BASE + offst empty_vm) \<or>
        translate_in s' (pml4 (newpml4 s')) w = translate_in empty_vm (pml4 (newpml4 empty_vm)) w)"
  by (rule map_mmio_maps) (use empty_vm_ok in \<open>simp_all add: empty_vm_fields(5,7) empty_vm_translate\<close>)

text \<open>Theorem: the device window has no upper bound. Once its 256 MiB are used up, \<open>map_mmio\<close> ignores the
  refusal of \<open>map_page\<close> and returns the first page of the configuration space instead of a mapping
  of the frame it was asked for.\<close>

theorem map_mmio_overruns_window:
  assumes "vm_ok (pml4 (newpml4 s)) s" and "walkable_in s (pml4 (newpml4 s)) (path_of PCI_ECAM_BASE)"
    and "translate_in s (pml4 (newpml4 s)) PCI_ECAM_BASE = Some e" and "offst s = MMIO_SIZE"
  shows "map_mmio phys s = (Ret PCI_ECAM_BASE, s\<lparr>offst := MMIO_SIZE + 0x1000\<rparr>)"
proof -
  have base: "MMIO_BASE + offst s = PCI_ECAM_BASE"
    using assms(4) by (simp add: MMIO_BASE_def MMIO_SIZE_def PCI_ECAM_BASE_def)
  show ?thesis
    using map_page_present [OF assms(1-3)] base assms(4)
    by (simp add: map_mmio_def routine_simps bind_def page_flag_values(5))
qed

theorem map_mmio_overruns_window_witness:
  "\<exists>s :: vm_state. map_mmio 0xFEE00000 s = (Ret PCI_ECAM_BASE, s\<lparr>offst := MMIO_SIZE + 0x1000\<rparr>)"
proof -
  have "\<exists>s'. map_page (newpml4 empty_vm) PCI_ECAM_BASE 0xB0000000 7 empty_vm = (Ret 0, s') \<and>
      mapped (pml4 (newpml4 empty_vm)) PCI_ECAM_BASE (0xB0000000 OR 7) empty_vm s'"
    by (rule map_page_mapped)
      (use empty_vm_ok in \<open>simp_all add: empty_vm_fields(5,7) empty_vm_translate page_flag_values\<close>)
  then obtain s1 where s1: "mapped (pml4 (newpml4 empty_vm)) PCI_ECAM_BASE (0xB0000000 OR 7) empty_vm s1" by blast
  note d = mappedD [OF s1]
  have f: "newpml4 s1 = newpml4 empty_vm" using same_but_memory_field [OF d(8), of newpml4] by simp
  let ?s = "s1\<lparr>offst := MMIO_SIZE\<rparr>"
  have "map_mmio 0xFEE00000 ?s = (Ret PCI_ECAM_BASE, ?s\<lparr>offst := MMIO_SIZE + 0x1000\<rparr>)"
  proof (rule map_mmio_overruns_window)
    show "vm_ok (pml4 (newpml4 ?s)) ?s" using d(1) f by simp
    show "walkable_in ?s (pml4 (newpml4 ?s)) (path_of PCI_ECAM_BASE)"
      using d(4) [OF path_of_is_path empty_vm_translate(2)] f by simp
    show "translate_in ?s (pml4 (newpml4 ?s)) PCI_ECAM_BASE = Some (0xB0000000 OR 7)"
      using d(3) [of PCI_ECAM_BASE] f by (simp add: same_page_def)
  qed simp
  then show ?thesis by (rule exI)
qed

end
