(* ===== verification/Percpu.thy ===== *)
theory Percpu
  imports PageTable
begin

text \<open>
  Setting up the boot CPU's private data, \<^verbatim>\<open>dej/percpu.c\<close>: the page that holds the per-CPU variables,
  filled from the linker's template and reached through \<open>MSR_GS_BASE\<close>. The lemma shows what every
  later \<open>percpu_read\<close> of the boot CPU sees.
\<close>

section \<open>State and operation\<close>

definition MAX_CPUS :: nat where "MAX_CPUS = 64"

text \<open>\<open>cpu_percpu\<close> holds a page per CPU; \<open>tssforcpus\<close> is the address of the array of task state segments.\<close>

record percpu_state = vm_state +
  cpu_percpu :: "u64 list"
  tssforcpus :: u64

definition setupbspcpudata :: "('a percpu_state_scheme, unit) routine" where
  "setupbspcpudata =
     bind KGetPage (\<lambda>n_block.
     seq (modify (\<lambda>s. s\<lparr>mem := snd (memset n_block 0 4096 (mem s))\<rparr>))
    (seq (modify (\<lambda>s. s\<lparr>mem := snd (memcpy n_block (percpu_start s) (percpu_size s) (mem s))\<rparr>))
    (seq (modify (wrmsr 0xC0000101 n_block))
    (seq (modify (percpu_write V_cpu_id 0))
    (seq (modify (\<lambda>s. percpu_write V_tss (tssforcpus s) s))
    (seq (modify (\<lambda>s. s\<lparr>cpu_percpu := (cpu_percpu s)[0 := n_block]\<rparr>))
    (seq (modify cpu_enable_interrupts)
         (modify (percpu_write V_sil 0)))))))))"

section \<open>Properties\<close>

text \<open>The template lies apart from the free pages, and the variables lie inside it.\<close>

definition template_ok :: "'a memory_state_scheme \<Rightarrow> bool" where
  "template_ok s \<longleftrightarrow>
     percpu_layout_ok (percpu_off s) \<and> percpu_size s \<le> 4096 \<and>
     (\<forall>v. unat (percpu_off s v) + 8 \<le> unat (percpu_size s)) \<and>
     (\<forall>f \<in> free_pages s. aligned 4096 f \<and>
        (\<forall>x. in_range (percpu_start s) (unat (percpu_size s)) x \<longrightarrow> \<not> in_range f 4096 x))"

lemma percpu_write_fields [simp]:
  "msr (percpu_write v x s) = msr s" "percpu_off (percpu_write v x s) = percpu_off s"
  "iflag (percpu_write v x s) = iflag s"
  by (simp_all add: percpu_write_def)

lemma KGetPage_frame:
  assumes "alloc_ready s" "free_pages s \<noteq> {}"
  shows "\<exists>p pl. KGetPage s = (Ret p, s\<lparr>page_list := pl, memory_lock := unlocked\<rparr>) \<and> p \<in> free_pages s \<and>
     free_pages (s\<lparr>page_list := pl, memory_lock := unlocked\<rparr>) = free_pages s - {p} \<and>
     used_pages (s\<lparr>page_list := pl, memory_lock := unlocked\<rparr>) = insert p (used_pages s)"
proof -
  have f: "free_frames s \<noteq> {}" using assms(2) by (simp add: free_pages_def)
  from giverawpage_law [OF assms(1) f] obtain p pl where
    "giverawpage s = (Ret p, s\<lparr>page_list := pl, memory_lock := unlocked\<rparr>)" "p \<in> free_frames s"
    "free_frames (s\<lparr>page_list := pl, memory_lock := unlocked\<rparr>) = free_frames s - {p}"
    "used_frames (s\<lparr>page_list := pl, memory_lock := unlocked\<rparr>) = insert p (used_frames s)" by blast
  moreover have "first_unused (page_list s) < length (page_list s)"
    using f first_unused_le [of "page_list s"] by (auto simp: free_frames_empty le_less)
  ultimately show ?thesis
    by (intro exI [of _ "p + hhdm_offset s"] exI [of _ pl])
      (simp add: KGetPage_giverawpage free_pages_def used_pages_def image_set_diff inj_on_def)
qed

text \<open>The copy of the template stays inside the page.\<close>

lemma template_copy_apart:
  assumes "template_ok s" "f \<in> free_pages s"
  shows "i < unat (percpu_size s) \<Longrightarrow> \<not> in_range f i (percpu_start s + of_nat i)"
    "\<not> in_range f 4096 x \<Longrightarrow> snd (memcpy f (percpu_start s) (percpu_size s) (snd (memset f 0 4096 (mem s)))) x = mem s x"
proof -
  let ?n = "unat (percpu_size s)" and ?t = "percpu_start s"
  have f: "\<And>x. in_range ?t ?n x \<Longrightarrow> \<not> in_range f 4096 x" "?n \<le> 4096" using assms by (auto simp: template_ok_def word_le_nat_alt)
  show src: "\<not> in_range f i (?t + of_nat i)" if "i < ?n" for i
  proof -
    have "in_range ?t ?n (?t + of_nat i)" using that f(2) by (subst in_range_offset) simp_all
    then have "\<not> in_range f 4096 (?t + of_nat i)" by (rule f(1))
    then show ?thesis using that f(2) by (simp add: in_range_def)
  qed
  show "snd (memcpy f ?t (percpu_size s) (snd (memset f 0 4096 (mem s)))) x = mem s x" if "\<not> in_range f 4096 x"
    using that f(2) by (subst memcpy_apply [OF src]) (auto simp: memset_apply in_range_def)
qed

text \<open>The page after the template has been copied into it.\<close>

lemma template_copied:
  assumes "template_ok s" "f \<in> free_pages s"
  shows "load64 (snd (memcpy f (percpu_start s) (percpu_size s) (snd (memset f 0 4096 (mem s))))) (f + percpu_off s v) =
     load64 (mem s) (percpu_start s + percpu_off s v)"
proof -
  let ?n = "unat (percpu_size s)" and ?t = "percpu_start s" and ?o = "percpu_off s v"
  let ?m = "snd (memset f 0 4096 (mem s))"
  have f: "aligned 4096 f" "\<And>x. in_range ?t ?n x \<Longrightarrow> \<not> in_range f 4096 x" "?n \<le> 4096" "unat ?o + 8 \<le> ?n"
    using assms by (auto simp: template_ok_def word_le_nat_alt)
  note src = template_copy_apart(1) [OF assms]
  have byte: "snd (memcpy f ?t (percpu_size s) ?m) (f + ?o + of_nat k) = mem s (?t + ?o + of_nat k)" if "k < 8" for k
  proof -
    have e: "f + ?o + of_nat k = f + of_nat (unat ?o + k)" "?t + ?o + of_nat k = ?t + of_nat (unat ?o + k)" by simp_all
    have lt: "unat ?o + k < ?n" "unat ?o + k < 2 ^ 64" using that f(3,4) by simp_all
    have "in_range f ?n (f + of_nat (unat ?o + k))" using lt by (subst in_range_offset) simp_all
    then have "snd (memcpy f ?t (percpu_size s) ?m) (f + of_nat (unat ?o + k)) = ?m (?t + of_nat (unat ?o + k))"
      by (subst memcpy_apply [OF src]) (simp_all add: algebra_simps)
    moreover have "\<not> in_range f 4096 (?t + of_nat (unat ?o + k))"
      using lt by (intro f(2)) (subst in_range_offset, simp_all)
    ultimately show ?thesis unfolding e by (simp add: memset_apply)
  qed
  have "load_le m1 a n = load_le m2 b n" if "\<And>k. k < n \<Longrightarrow> m1 (a + of_nat k) = m2 (b + of_nat k)" for m1 m2 a b n
    using that
  proof (induction n arbitrary: a b)
    case (Suc n)
    have "load_le m1 (a + 1) n = load_le m2 (b + 1) n"
      using Suc.prems [of "Suc _"] by (intro Suc.IH) (simp add: add.assoc [symmetric])
    then show ?case using Suc.prems [of 0] by simp
  qed simp
  then show ?thesis unfolding load64_def using byte by (metis (no_types, lifting))
qed

text \<open>Theorem: after \<open>setupbspcpudata\<close> the boot CPU runs with its per-CPU area on a page of its own: it
  identifies itself as CPU 0 at level 0 with the first task state segment, every other variable has
  its template value, the page is registered, and interrupts are on.\<close>

theorem setupbspcpudata_correct:
  assumes "alloc_ready s" and "free_pages s \<noteq> {}" and "template_ok s" and "cpu_percpu s \<noteq> []" and "0 \<notin> free_pages s"
  shows "\<exists>s' p. setupbspcpudata s = (Ret (), s') \<and> p \<in> free_pages s \<and> msr s' MSR_GS_BASE = p \<and> cpu_percpu s' ! 0 = p \<and>
     ispercpuready s' \<and> current_cpu s' = 0 \<and> percpu_read V_sil s' = 0 \<and> percpu_read V_tss s' = tssforcpus s \<and>
     iflag s' \<and> percpu_read V_irq s' = load64 (mem s) (percpu_start s + percpu_off s V_irq)"
proof -
  obtain p pl where g: "KGetPage s = (Ret p, s\<lparr>page_list := pl, memory_lock := unlocked\<rparr>)" "p \<in> free_pages s"
    using KGetPage_frame [OF assms(1,2)] by blast
  define m where "m = snd (memcpy p (percpu_start s) (percpu_size s) (snd (memset p 0 4096 (mem s))))"
  define s0 where "s0 = s\<lparr>page_list := pl, memory_lock := unlocked, mem := m, msr := (msr s)(MSR_GS_BASE := p)\<rparr>"
  define s1 where "s1 = percpu_write V_tss (tssforcpus s) (percpu_write V_cpu_id 0 s0)"
  define s2 where "s2 = s1\<lparr>cpu_percpu := (cpu_percpu s1)[0 := p], iflag := True\<rparr>"
  have run: "setupbspcpudata s = (Ret (), percpu_write V_sil 0 s2)"
    using g(1) by (simp add: setupbspcpudata_def routine_simps bind_def s2_def s1_def s0_def m_def percpu_size_def
        cpu_enable_interrupts_def MSR_GS_BASE_def percpu_write_def percpu_offsetof_def)
  have fields: "msr s2 MSR_GS_BASE = p" "percpu_off s2 = percpu_off s" "msr s1 MSR_GS_BASE = p" "percpu_off s1 = percpu_off s"
    by (simp_all add: s2_def s1_def s0_def)
  have lay: "percpu_layout_ok (percpu_off s)" and al: "aligned 8 p"
    using assms(3) g(2) by (auto simp: template_ok_def intro: aligned_dvd [of 4096])
  have pr: "percpu_read v s2 = percpu_read v s1" for v
    by (simp add: s2_def percpu_read_def percpu_offsetof_def)
  note other = percpu_read_write_other [of _ _ _ 0]
  have r: "percpu_read v (percpu_write V_sil 0 s2) =
      (if v = V_sil then 0 else if v = V_tss then tssforcpus s else if v = V_cpu_id then 0
       else load64 (mem s) (percpu_start s + percpu_off s v))" for v
  proof -
    have 1: "percpu_read v s0 = load64 (mem s) (percpu_start s + percpu_off s v)"
      using template_copied [OF assms(3) g(2), of v] by (simp add: s0_def percpu_read_def percpu_offsetof_def m_def)
    have 2: "percpu_read v s1 = (if v = V_tss then tssforcpus s else if v = V_cpu_id then 0 else percpu_read v s0)"
      using lay al by (auto simp: s1_def s0_def percpu_read_write_other)
    show ?thesis
      using 1 2 lay al fields pr [of v] by (cases "v = V_sil") (simp_all add: percpu_read_write_other)
  qed
  have "p \<noteq> 0" using g(2) assms(5) by auto
  then have "ispercpuready (percpu_write V_sil 0 s2)" using fields by (simp add: ispercpuready_iff)
  moreover have "current_cpu (percpu_write V_sil 0 s2) = 0"
    using r [of V_cpu_id] calculation by (simp add: current_cpu_def)
  moreover have "cpu_percpu (percpu_write V_sil 0 s2) ! 0 = p" "iflag (percpu_write V_sil 0 s2)"
    using assms(4) by (simp_all add: percpu_write_def s2_def s1_def s0_def)
  ultimately show ?thesis using run g(2) fields r
    by (intro exI [of _ "percpu_write V_sil 0 s2"] exI [of _ p]) simp
qed


definition bsp_test :: percpu_state where
  "bsp_test = vm_state.extend empty_vm \<lparr>cpu_percpu = replicate 64 0, tssforcpus = 0xFFFFFFFF80100000\<rparr>"

lemma bsp_test_ready: "alloc_ready bsp_test" "free_pages bsp_test \<noteq> {}" "template_ok bsp_test" "cpu_percpu bsp_test \<noteq> []"
  "0 \<notin> free_pages bsp_test"
proof -
  have fp: "free_pages bsp_test = {0xFFFF800000101000, 0xFFFF800000102000, 0xFFFF800000103000}"
    using empty_vm_fields by (simp add: bsp_test_def vm_state.extend_def free_pages_def free_frames_def)
  show "free_pages bsp_test \<noteq> {}" "0 \<notin> free_pages bsp_test" unfolding fp by simp_all
  show "cpu_percpu bsp_test \<noteq> []" by (simp add: bsp_test_def vm_state.extend_def)
  show "alloc_ready bsp_test"
    using empty_vm_ok by (simp add: vm_ok_def bsp_test_def vm_state.extend_def alloc_ready_def current_cpu_def
        ispercpuready_iff empty_vm_fields)
  have lay: "percpu_start bsp_test = 0" "percpu_size bsp_test = 48" "percpu_off bsp_test = percpu_off quiet_machine"
    by (simp_all add: bsp_test_def vm_state.extend_def empty_vm_def memory_state.extend_def two_pages_def
        log_state.extend_def percpu_size_def quiet_machine_def)
  have "inj (percpu_off quiet_machine)"
    by (rule injI) (auto simp: quiet_machine_def split: percpu_var.splits)
  moreover have "aligned 8 (percpu_off quiet_machine v) \<and> unat (percpu_off quiet_machine v) + 8 \<le> 48 \<and>
      unat (percpu_off quiet_machine v) + 8 \<le> 4096" for v
    by (cases v) (simp_all add: quiet_machine_def aligned_def)
  moreover have "\<not> in_range f 4096 x" if "f \<in> free_pages bsp_test" "in_range 0 48 x" for f x
  proof -
    have "aligned 4096 f \<and> f \<noteq> 0" using that(1) unfolding fp by (auto simp: aligned_def)
    moreover have "in_range 0 4096 x" using that(2) by (simp add: in_range_def)
    ultimately show ?thesis using aligned_blocks_disjoint [of 4096 f 0 x] by (auto simp: aligned_def)
  qed
  moreover have "aligned 4096 f" if "f \<in> free_pages bsp_test" for f
    using that unfolding fp by (auto simp: aligned_def)
  ultimately show "template_ok bsp_test"
    unfolding template_ok_def percpu_layout_ok_def lay by simp
qed

theorem setupbspcpudata_correct_witness:
  "\<exists>s' p. setupbspcpudata bsp_test = (Ret (), s') \<and> p \<in> free_pages bsp_test \<and> msr s' MSR_GS_BASE = p \<and>
     cpu_percpu s' ! 0 = p \<and> ispercpuready s' \<and> current_cpu s' = 0 \<and> percpu_read V_sil s' = 0 \<and>
     percpu_read V_tss s' = tssforcpus bsp_test \<and> iflag s' \<and>
     percpu_read V_irq s' = load64 (mem bsp_test) (percpu_start bsp_test + percpu_off bsp_test V_irq)"
  by (rule setupbspcpudata_correct) (rule bsp_test_ready)+

end
