(* ===== verification/Tss.thy ===== *)
theory Tss
  imports Percpu
begin

text \<open>
  The task state segments, \<^verbatim>\<open>arch/x86/tss.c\<close> and \<^verbatim>\<open>tss.h\<close>. The structures are packed in memory, so the
  model has the offset of every field the code writes; the 16 bytes of the descriptor go to the
  reserved slot of the descriptor table. The lemmas show that the descriptor encodes the address and
  limit of the segment, and where the kernel stack pointer really points.
\<close>

section \<open>Layout\<close>

definition tss_rsp0_offset :: u64 where "tss_rsp0_offset = 4"
definition tss_iomap_base_offset :: u64 where "tss_iomap_base_offset = 4 + 8 * 3 + 8 + 8 * 7 + 8 + 2"
definition tss_entry_size :: nat where "tss_entry_size = 4 + 8 * 3 + 8 + 8 * 7 + 8 + 2 + 2"

text \<open>The stack is aligned to 16 bytes after the 104 bytes of the entry.\<close>

definition tss_stack_offset :: u64 where "tss_stack_offset = 112"
definition tss_stack_bytes :: nat where "tss_stack_bytes = 16384"
definition tss_cpu_size :: u64 where "tss_cpu_size = 112 + 16384"

text \<open>\<open>tss_slot\<close> is \<open>__tss_descriptor_ptr\<close>; \<open>tr\<close> is the task register.\<close>

record tss_state = percpu_state +
  tss_slot :: u64
  tr :: u16

section \<open>Operations\<close>

definition clear_bytes :: "u64 \<Rightarrow> nat \<Rightarrow> memory \<Rightarrow> memory" where
  "clear_bytes a n m = fold (\<lambda>i m. store8 m (a + of_nat i) 0) [0..<n] m"

definition tss_desc_low :: "u64 \<Rightarrow> u32 \<Rightarrow> u64" where
  "tss_desc_low base limit =
     ((((((0
       OR ucast (limit AND 0xFFFF))
       OR push_bit 16 (base AND 0xFFFF))
       OR push_bit 32 (drop_bit 16 base AND 0xFF))
       OR push_bit 40 0x89)
       OR push_bit 48 (ucast (drop_bit 16 limit AND 0x0F)))
       OR push_bit 56 (drop_bit 24 base AND 0xFF))"

definition tss_desc_high :: "u64 \<Rightarrow> u64" where
  "tss_desc_high base = drop_bit 32 base"

text \<open>\<open>sizeof(kernel_stack)\<close> is the size of a pointer: the variable is a \<open>uint8_t *\<close>.\<close>

definition tss_fill :: "u64 \<Rightarrow> u64 \<Rightarrow> memory \<Rightarrow> memory" where
  "tss_fill tss slot_addr m =
     (let m1 = clear_bytes tss tss_entry_size m;
          m2 = store64 m1 (tss + tss_rsp0_offset) (tss + tss_stack_offset + 8);
          m3 = store16 m2 (tss + tss_iomap_base_offset) (of_nat tss_entry_size);
          limit = of_nat (tss_entry_size - 1);
          m4 = store64 m3 slot_addr (tss_desc_low tss limit)
      in store64 m4 (slot_addr + 8) (tss_desc_high tss))"

definition write_tss_descriptor :: "('a tss_state_scheme, unit) routine" where
  "write_tss_descriptor =
     bind (gets (percpu_read V_tss)) (\<lambda>percpu_tss.
       if percpu_tss = 0 then
         seq (modify (LogStr_event ''kernel'' ''percpu_tss = null''))
        (seq (modify (\<lambda>s. LogfStr_event ''kernel'' ''cpuid = %llu'' [IntArg (percpu_read V_cpu_id s)] s))
             cpu_stop)
       else modify (\<lambda>s. s\<lparr>mem := tss_fill percpu_tss (tss_slot s) (mem s)\<rparr>))"

definition load_tss :: "'a tss_state_scheme \<Rightarrow> 'a tss_state_scheme" where
  "load_tss s = s\<lparr>tr := 0x48\<rparr>"

definition tss_init :: "('a tss_state_scheme, unit) routine" where
  "tss_init = seq write_tss_descriptor (modify load_tss)"

section \<open>Properties\<close>

text \<open>How the processor reads a descriptor: base, limit and access byte.\<close>

definition desc_base :: "u64 \<Rightarrow> u64 \<Rightarrow> u64" where
  "desc_base low high =
     (drop_bit 16 low AND 0xFFFFFF) OR push_bit 24 (drop_bit 56 low AND 0xFF) OR push_bit 32 (high AND 0xFFFFFFFF)"

definition desc_limit :: "u64 \<Rightarrow> u64" where
  "desc_limit low = (low AND 0xFFFF) OR push_bit 16 (drop_bit 48 low AND 0xF)"

definition desc_access :: "u64 \<Rightarrow> u64" where
  "desc_access low = drop_bit 40 low AND 0xFF"

lemma mask_literals:
  "(0xF :: 'a::len word) = mask 4" "(0xFF :: 'a::len word) = mask 8" "(0xFFFF :: 'a::len word) = mask 16"
  "(0xFFFFFF :: 'a::len word) = mask 24" "(0xFFFFFFFF :: 'a::len word) = mask 32"
  by (simp_all add: mask_eq_exp_minus_1)

lemma access_bits: "8 \<le> k \<Longrightarrow> \<not> bit (0x89 :: u64) k"
proof -
  have "(0x89 :: u64) = 0x89 AND mask 8" by (simp add: mask_eq_exp_minus_1)
  then have "bit (0x89 :: u64) k \<Longrightarrow> k < 8" by (metis bit_and_iff bit_mask_iff)
  then show "8 \<le> k \<Longrightarrow> \<not> bit (0x89 :: u64) k" by auto
qed

text \<open>The fields of the low half, bit by bit, for any access byte.\<close>

lemma bit_desc_low:
  "bit (tss_desc_low b l) n \<longleftrightarrow>
     (if n < 16 then bit l n else if n < 40 then bit b (n - 16) else if n < 48 then bit (0x89 :: u64) (n - 40)
      else if n < 52 then bit l (n - 32) else 56 \<le> n \<and> n < 64 \<and> bit b (n - 32))"
proof -
  obtain acc :: u64 where acc: "acc = 0x89" by simp
  have hi: "\<not> bit acc k" if "8 \<le> k" for k using access_bits that by (simp add: acc)
  have d: "tss_desc_low b l = ((((((0 OR ucast (l AND mask 16)) OR push_bit 16 (b AND mask 16))
       OR push_bit 32 (drop_bit 16 b AND mask 8)) OR push_bit 40 acc)
       OR push_bit 48 (ucast (drop_bit 16 l AND mask 4))) OR push_bit 56 (drop_bit 24 b AND mask 8))"
    by (simp add: tss_desc_low_def acc mask_eq_exp_minus_1)
  consider "n < 16" | "16 \<le> n" "n < 32" | "32 \<le> n" "n < 40" | "40 \<le> n" "n < 48" | "48 \<le> n" "n < 52"
    | "52 \<le> n" "n < 56" | "56 \<le> n" "n < 64" | "64 \<le> n" by linarith
  then show ?thesis unfolding acc [symmetric]
    using hi [of "n - 40"] by cases (auto simp: d bit_simps)
qed

lemma low_bits_equal: "(x :: u64) = y" if "\<And>n. n < 64 \<Longrightarrow> bit x n \<longleftrightarrow> bit y n"
  using that by (intro bit_word_eqI) simp

text \<open>Theorem: the descriptor that \<open>write_tss_descriptor\<close> builds is read back by the processor as a present
  64-bit task state segment with exactly the given base and limit.\<close>

theorem tss_descriptor_roundtrip:
  assumes "limit < 0x100000"
  shows "desc_base (tss_desc_low base limit) (tss_desc_high base) = base \<and>
     desc_limit (tss_desc_low base limit) = ucast limit \<and> desc_access (tss_desc_low base limit) = 0x89"
proof (intro conjI)
  show "desc_base (tss_desc_low base limit) (tss_desc_high base) = base"
  proof (rule low_bits_equal)
    fix n :: nat assume "n < 64"
    then consider "n < 24" | "24 \<le> n" "n < 32" | "32 \<le> n" "n < 64" by linarith
    then show "bit (desc_base (tss_desc_low base limit) (tss_desc_high base)) n \<longleftrightarrow> bit base n"
      by cases (auto simp: desc_base_def tss_desc_high_def mask_literals bit_simps bit_desc_low)
  qed
  have lim: "\<not> bit limit k" if "20 \<le> k" for k
  proof -
    have "take_bit 20 limit = limit"
      using assms by (intro word_unat_eq_iff [THEN iffD2]) (simp add: take_bit_eq_mod unat_mod word_less_nat_alt)
    then show ?thesis using that by (metis bit_take_bit_iff not_less)
  qed
  show "desc_limit (tss_desc_low base limit) = ucast limit"
  proof (rule low_bits_equal)
    fix n :: nat assume "n < 64"
    then consider "n < 16" | "16 \<le> n" "n < 20" | "20 \<le> n" "n < 64" by linarith
    then show "bit (desc_limit (tss_desc_low base limit)) n \<longleftrightarrow> bit (ucast limit :: u64) n"
      using lim [of n] by cases (auto simp: desc_limit_def mask_literals bit_simps bit_desc_low)
  qed
  show "desc_access (tss_desc_low base limit) = 0x89"
  proof (rule low_bits_equal)
    fix n :: nat assume "n < 64"
    then show "bit (desc_access (tss_desc_low base limit)) n \<longleftrightarrow> bit (0x89 :: u64) n"
      using access_bits [of n]
      by (cases "n < 8") (simp_all add: desc_access_def mask_literals bit_and_iff bit_drop_bit_eq bit_mask_iff bit_desc_low
          del: bit_numeral_iff)
  qed
qed

theorem tss_descriptor_roundtrip_witness:
  "desc_base (tss_desc_low 0xFFFFFFFF80123456 103) (tss_desc_high 0xFFFFFFFF80123456) = 0xFFFFFFFF80123456 \<and>
   desc_limit (tss_desc_low 0xFFFFFFFF80123456 103) = ucast (103 :: u32) \<and>
   desc_access (tss_desc_low 0xFFFFFFFF80123456 103) = 0x89"
  by (rule tss_descriptor_roundtrip) simp

lemma offset_ranges_disjoint:
  assumes "i + n \<le> j" "j + k \<le> 2 ^ 64" "in_range (a + of_nat i) n x"
  shows "\<not> in_range (a + of_nat j) k x"
proof
  assume "in_range (a + of_nat j) k x"
  then obtain c where c: "c < k" "x = a + of_nat j + of_nat c" by (rule in_rangeE)
  from assms(3) obtain d where d: "d < n" "x = a + of_nat i + of_nat d" by (rule in_rangeE)
  have "of_nat (j + c) = (of_nat (i + d) :: u64)" using c(2) d(2) by (simp add: add.assoc)
  moreover have "j + c < 2 ^ 64" "i + d < 2 ^ 64" using assms(1,2) c(1) d(1) by simp_all
  ultimately have "j + c = i + d" using unat_of_nat64 [of "j + c"] unat_of_nat64 [of "i + d"] by simp
  then show False using assms(1) d(1) by simp
qed

lemma store16_outside: "\<not> in_range a 2 x \<Longrightarrow> store16 m a v x = m x"
  by (simp add: store16_def store_le_apply del: store_le.simps)

text \<open>Theorem: the stack pointer for entries into the kernel is set 8 bytes above the bottom of the 16 KiB
  stack instead of at its top, so a trap from user mode runs off the stack after one push and
  overwrites the task state segment below it. The descriptor is placed in its slot of the table.\<close>

theorem write_tss_descriptor_rsp0:
  assumes "percpu_read V_tss s = p" and "p \<noteq> 0"
    and "\<And>x. in_range (tss_slot s) 16 x \<Longrightarrow> \<not> in_range p 104 x"
  shows "\<exists>s'. write_tss_descriptor s = (Ret (), s') \<and>
     load64 (mem s') (p + tss_rsp0_offset) = p + tss_stack_offset + 8 \<and>
     load64 (mem s') (tss_slot s) = tss_desc_low p 103 \<and> load64 (mem s') (tss_slot s + 8) = tss_desc_high p"
proof -
  let ?d = "tss_slot s"
  define m3 where "m3 = store16 (store64 (clear_bytes p 104 (mem s)) (p + 4) (p + 112 + 8)) (p + 102) 104"
  define m where "m = store64 (store64 m3 ?d (tss_desc_low p 103)) (?d + 8) (tss_desc_high p)"
  have run: "write_tss_descriptor s = (Ret (), s\<lparr>mem := m\<rparr>)"
    using assms(1,2) by (simp add: write_tss_descriptor_def routine_simps bind_def tss_fill_def m_def m3_def Let_def
        tss_entry_size_def tss_rsp0_offset_def tss_stack_offset_def tss_iomap_base_offset_def)
  have half: "in_range ?d 16 x" if "in_range ?d 8 x \<or> in_range (?d + 8) 8 x" for x
    using that
  proof
    assume "in_range (?d + 8) 8 x"
    then obtain k where "k < 8" "x = ?d + 8 + of_nat k" by (rule in_rangeE)
    then have "x = ?d + of_nat (8 + k)" by simp
    with \<open>k < 8\<close> show ?thesis by (simp add: in_range_offset del: of_nat_add)
  qed (simp add: in_range_def)
  have "m x = m3 x" if r: "in_range (p + 4) 8 x" for x
  proof -
    from r obtain k where "k < 8" "x = p + 4 + of_nat k" by (rule in_rangeE)
    then have "x = p + of_nat (4 + k)" by simp
    with \<open>k < 8\<close> have "in_range p 104 x" by (simp add: in_range_offset del: of_nat_add)
    then have "\<not> in_range ?d 8 x \<and> \<not> in_range (?d + 8) 8 x" using assms(3) half by blast
    then show ?thesis by (simp add: m_def store64_outside)
  qed
  then have "load64 m (p + 4) = load64 m3 (p + 4)" by (intro load64_cong) simp
  also have "\<dots> = load64 (store64 (clear_bytes p 104 (mem s)) (p + 4) (p + 112 + 8)) (p + 4)"
    unfolding m3_def using offset_ranges_disjoint [of 4 8 102 2 p] by (intro load64_cong store16_outside) simp
  finally have "load64 m (p + 4) = p + 112 + 8" by simp
  moreover have "load64 m ?d = tss_desc_low p 103"
    unfolding m_def using offset_ranges_disjoint [of 0 8 8 8 ?d]
    by (subst load64_cong [of ?d _ "store64 m3 ?d (tss_desc_low p 103)"]) (simp_all add: store64_outside)
  ultimately show ?thesis
    using run by (simp add: m_def tss_rsp0_offset_def tss_stack_offset_def)
qed

definition tss_test :: tss_state where
  "tss_test = percpu_state.extend (bsp_test\<lparr>mem := store64 (\<lambda>_. 0) 32 0x5000\<rparr>) \<lparr>tss_slot = 0x9000, tr = 0\<rparr>"

theorem write_tss_descriptor_rsp0_witness:
  "\<exists>s'. write_tss_descriptor tss_test = (Ret (), s') \<and>
     load64 (mem s') (0x5000 + tss_rsp0_offset) = 0x5000 + tss_stack_offset + 8 \<and>
     load64 (mem s') (tss_slot tss_test) = tss_desc_low 0x5000 103 \<and>
     load64 (mem s') (tss_slot tss_test + 8) = tss_desc_high 0x5000"
proof (rule write_tss_descriptor_rsp0)
  have f: "mem tss_test = store64 (\<lambda>_. 0) 32 0x5000" "msr tss_test MSR_GS_BASE = 0" "tss_slot tss_test = 0x9000"
    "percpu_off tss_test V_tss = 32"
    by (simp_all add: tss_test_def percpu_state.extend_def bsp_test_def vm_state.extend_def empty_vm_def
        memory_state.extend_def two_pages_def log_state.extend_def quiet_machine_def)
  show "percpu_read V_tss tss_test = 0x5000" by (simp add: percpu_read_def percpu_offsetof_def f)
  fix x assume "in_range (tss_slot tss_test) 16 x"
  then have "in_range (0x9000) 4096 x" by (simp add: f in_range_def)
  then have "\<not> in_range 0x5000 4096 x" using aligned_blocks_disjoint [of 4096 "0x9000" "0x5000" x] by (auto simp: aligned_def)
  then show "\<not> in_range 0x5000 104 x" by (auto simp: in_range_def)
qed simp

end
