(* ===== verification/Sil.thy ===== *)
theory Sil
  imports Tss
begin

text \<open>
  The software interrupt level, \<^verbatim>\<open>dej/sil.c\<close> and \<^verbatim>\<open>sil.h\<close>: the level lives in the control register \<open>cr8\<close>
  and in the per-CPU variable \<open>sil\<close>. The locale \<open>level_discipline\<close> states what raising and lowering
  promise; the lemmas show that nested raises are undone by the matching lowers and keep the two
  copies equal.
\<close>

section \<open>Operations\<close>

type_synonym ksil = u8

definition CHILL_LEVEL :: ksil where "CHILL_LEVEL = 0"
definition APC_LEVEL :: ksil where "APC_LEVEL = 1"
definition DISPATCH_LEVEL :: ksil where "DISPATCH_LEVEL = 2"
definition DEVICE_LEVEL :: ksil where "DEVICE_LEVEL = 4"
definition NOTCHILL_LEVEL :: ksil where "NOTCHILL_LEVEL = 15"

definition readcr8 :: "'a machine_scheme \<Rightarrow> ksil" where
  "readcr8 s = ucast (cr8 s)"

text \<open>The register has four bits. A larger value raises a general protection fault, whose handler (\<^verbatim>\<open>interrupt.c\<close>) logs and
  halts the processor; the log lines of the handler are left out here.\<close>

definition writecr8 :: "ksil \<Rightarrow> ('a machine_scheme, unit) routine" where
  "writecr8 level = (if level > 15 then stop_with Stopped else modify (\<lambda>s. s\<lparr>cr8 := ucast level\<rparr>))"

definition RaiseSil :: "ksil \<Rightarrow> ('a machine_scheme, ksil) routine" where
  "RaiseSil new =
     bind (gets readcr8) (\<lambda>old.
       if new < old then stop_with (Panic ''Tried to lower sil using RaiseSil'' STATUS_INVALID_SIL)
       else seq (writecr8 new) (seq (modify (percpu_write V_sil (ucast new))) (return old)))"

definition LowerSil :: "ksil \<Rightarrow> ('a machine_scheme, unit) routine" where
  "LowerSil new =
     bind (gets readcr8) (\<lambda>old.
       if old < new then stop_with (Panic ''attempted to raise sil using LowerSil'' STATUS_INVALID_SIL)
       else seq (writecr8 new) (modify (percpu_write V_sil (ucast new))))"

definition Assert_sil_less_than_or_equal :: "u64 \<Rightarrow> ('a machine_scheme, unit) routine" where
  "Assert_sil_less_than_or_equal x =
     bind (gets (percpu_read V_sil)) (\<lambda>l.
       if x \<le> l then stop_with (Panic ''sil not less or equal'' STATUS_INVALID_SIL) else return ())"

definition Assert_sil_more_than :: "u64 \<Rightarrow> ('a machine_scheme, unit) routine" where
  "Assert_sil_more_than x =
     bind (gets (percpu_read V_sil)) (\<lambda>l.
       if l < x then stop_with (Panic ''sil too small ffor operation'' STATUS_INVALID_SIL) else return ())"

definition Assert_sil_chill :: "('a machine_scheme, unit) routine" where
  "Assert_sil_chill =
     bind (gets (percpu_read V_sil)) (\<lambda>l.
       if 0 \<noteq> l then stop_with (Panic ''sil not less or equal'' STATUS_INVALID_SIL) else return ())"

section \<open>What raising and lowering promise\<close>

primrec raise_all :: "('l \<Rightarrow> ('s, 'l) routine) \<Rightarrow> 'l list \<Rightarrow> ('s, 'l list) routine" where
  "raise_all up [] = return []"
| "raise_all up (l # ls) = bind (up l) (\<lambda>old. bind (raise_all up ls) (\<lambda>olds. return (old # olds)))"

primrec lower_all :: "('l \<Rightarrow> ('s, unit) routine) \<Rightarrow> 'l list \<Rightarrow> ('s, unit) routine" where
  "lower_all down [] = return ()"
| "lower_all down (l # ls) = seq (down l) (lower_all down ls)"

locale level_discipline =
  fixes up :: "'l::linorder \<Rightarrow> 's \<Rightarrow> 'l outcome \<times> 's"
    and down :: "'l \<Rightarrow> 's \<Rightarrow> unit outcome \<times> 's"
    and level :: "'s \<Rightarrow> 'l"
    and sane :: "'s \<Rightarrow> bool"
    and highest :: 'l
  assumes up_law: "\<lbrakk>sane s; level s \<le> l; l \<le> highest\<rbrakk> \<Longrightarrow> \<exists>s'. up l s = (Ret (level s), s') \<and> level s' = l \<and> sane s'"
    and down_law: "\<lbrakk>sane s; l \<le> level s\<rbrakk> \<Longrightarrow> \<exists>s'. down l s = (Ret (), s') \<and> level s' = l \<and> sane s'"
begin

text \<open>Raising through an ascending list of levels and lowering through the returned ones in reverse order
  ends at the level it started from.\<close>

lemma lower_all_append:
  "lower_all down (xs @ ys) = seq (lower_all down xs) (lower_all down ys)"
  by (induction xs) (simp_all add: seq_def bind_assoc)

lemma nested_restores:
  assumes "sane s" and "sorted (level s # ls)" and "list_all (\<lambda>l. l \<le> highest) ls"
  shows "\<exists>olds s1 s2. raise_all up ls s = (Ret olds, s1) \<and> level s1 = last (level s # ls) \<and> sane s1 \<and>
     lower_all down (rev olds) s1 = (Ret (), s2) \<and> level s2 = level s \<and> sane s2"
  using assms
proof (induction ls arbitrary: s)
  case Nil
  then show ?case by (simp add: return_def)
next
  case (Cons l ls)
  from up_law [OF Cons.prems(1), of l] Cons.prems(2,3) obtain s' where
    s': "up l s = (Ret (level s), s')" "level s' = l" "sane s'" by auto
  from Cons.IH [OF s'(3)] Cons.prems(2,3) s'(2) obtain olds s1 s2 where
    i: "raise_all up ls s' = (Ret olds, s1)" "level s1 = last (l # ls)" "sane s1"
    "lower_all down (rev olds) s1 = (Ret (), s2)" "level s2 = l" "sane s2" by auto
  from down_law [OF i(6), of "level s"] i(5) Cons.prems(2) obtain s3 where
    s3: "down (level s) s2 = (Ret (), s3)" "level s3 = level s" "sane s3" by auto
  have "raise_all up (l # ls) s = (Ret (level s # olds), s1)"
    using s'(1) i(1) by (simp add: bind_def return_def)
  moreover have "lower_all down (rev (level s # olds)) s1 = (Ret (), s3)"
    using i(4) s3(1) by (simp add: lower_all_append seq_def bind_def return_def)
  ultimately show ?case using i s3 by (intro exI [of _ "level s # olds"] exI [of _ s1] exI [of _ s3]) simp
qed

end

section \<open>Properties\<close>

text \<open>The two copies of the level agree, and the level fits the register.\<close>

definition sil_sane :: "'a machine_scheme \<Rightarrow> bool" where
  "sil_sane s \<longleftrightarrow> cr8 s = ucast (readcr8 s) \<and> percpu_read V_sil s = cr8 s \<and> readcr8 s \<le> NOTCHILL_LEVEL"

text \<open>Both copies set to a level.\<close>

definition at_level :: "ksil \<Rightarrow> 'a machine_scheme \<Rightarrow> 'a machine_scheme" where
  "at_level l s = percpu_write V_sil (ucast l) (s\<lparr>cr8 := ucast l\<rparr>)"

lemma readcr8_at_level: "readcr8 (at_level l s) = l" "cr8 (at_level l s) = ucast l"
proof -
  have "(ucast (ucast l :: u64) :: ksil) = l" by (rule bit_word_eqI) (simp add: bit_simps)
  then show "readcr8 (at_level l s) = l" "cr8 (at_level l s) = ucast l"
    by (simp_all add: readcr8_def at_level_def percpu_write_def)
qed

lemma sil_sane_at_level: "l \<le> NOTCHILL_LEVEL \<Longrightarrow> sil_sane (at_level l s)"
  by (simp add: sil_sane_def readcr8_at_level) (simp add: at_level_def)

text \<open>All branches of both operations: the panic, the fault, and the new level.\<close>

lemma RaiseSil_cases:
  "RaiseSil l s =
     (if l < readcr8 s then (Panic ''Tried to lower sil using RaiseSil'' STATUS_INVALID_SIL, s)
      else if NOTCHILL_LEVEL < l then (Stopped, s)
      else (Ret (readcr8 s), at_level l s))"
  by (simp add: RaiseSil_def writecr8_def at_level_def NOTCHILL_LEVEL_def routine_simps bind_def)

lemma LowerSil_cases:
  "LowerSil l s =
     (if readcr8 s < l then (Panic ''attempted to raise sil using LowerSil'' STATUS_INVALID_SIL, s)
      else if NOTCHILL_LEVEL < l then (Stopped, s)
      else (Ret (), at_level l s))"
  by (simp add: LowerSil_def writecr8_def at_level_def NOTCHILL_LEVEL_def routine_simps bind_def)

interpretation sil_levels: level_discipline RaiseSil LowerSil readcr8 sil_sane NOTCHILL_LEVEL
proof unfold_locales
  show "\<exists>s'. RaiseSil l s = (Ret (readcr8 s), s') \<and> readcr8 s' = l \<and> sil_sane s'"
    if "sil_sane s" "readcr8 s \<le> l" "l \<le> NOTCHILL_LEVEL" for s :: "'a machine_scheme" and l
    using that by (simp add: RaiseSil_cases readcr8_at_level sil_sane_at_level not_less [symmetric])
  show "\<exists>s'. LowerSil l s = (Ret (), s') \<and> readcr8 s' = l \<and> sil_sane s'"
    if "sil_sane s" "l \<le> readcr8 s" for s :: "'a machine_scheme" and l
  proof -
    have "l \<le> NOTCHILL_LEVEL" using that by (auto simp: sil_sane_def intro: order_trans)
    then show ?thesis using that(2) by (simp add: LowerSil_cases readcr8_at_level sil_sane_at_level not_less [symmetric])
  qed
qed

text \<open>Property C38: raising the level through any ascending sequence of levels up to 15, the highest that the register holds, and
  lowering it through the returned values in reverse order succeeds at every step and ends at the starting level, with the control register
  and the per-CPU copy equal throughout. If one of the levels is above 15, the processor stops when it comes to it, at a level
  of at most 15 and with register and copy still equal.\<close>

theorem RaiseSil_LowerSil_nested:
  assumes "sil_sane s" and "sorted (readcr8 s # ls)"
  shows "if list_all (\<lambda>l. l \<le> NOTCHILL_LEVEL) ls then
     (\<exists>olds s1 s2. raise_all RaiseSil ls s = (Ret olds, s1) \<and> readcr8 s1 = last (readcr8 s # ls) \<and> sil_sane s1 \<and>
       lower_all LowerSil (rev olds) s1 = (Ret (), s2) \<and> readcr8 s2 = readcr8 s \<and> sil_sane s2)
     else (\<exists>s1. raise_all RaiseSil ls s = (Stopped, s1) \<and> readcr8 s1 \<le> NOTCHILL_LEVEL \<and> sil_sane s1)"
proof (cases "list_all (\<lambda>l. l \<le> NOTCHILL_LEVEL) ls")
  case True
  then show ?thesis using sil_levels.nested_restores [OF assms True] by simp
next
  case False
  have "\<exists>s1. raise_all RaiseSil ls s = (Stopped, s1) \<and> sil_sane s1" using assms False
  proof (induction ls arbitrary: s)
    case (Cons l ls)
    show ?case
    proof (cases "l \<le> NOTCHILL_LEVEL")
      case True
      have r: "RaiseSil l s = (Ret (readcr8 s), at_level l s)" using True Cons.prems(2) by (simp add: RaiseSil_cases not_less [symmetric])
      have "\<exists>s1. raise_all RaiseSil ls (at_level l s) = (Stopped, s1) \<and> sil_sane s1"
        using Cons.prems True by (intro Cons.IH sil_sane_at_level) (simp_all add: readcr8_at_level)
      then show ?thesis using r by (auto simp: bind_def)
    next
      case False
      then show ?thesis using Cons.prems by (simp add: RaiseSil_cases bind_def not_le not_less [symmetric])
    qed
  qed simp
  then show ?thesis using False by (auto simp: sil_sane_def)
qed

theorem RaiseSil_LowerSil_nested_witness:
  "\<exists>olds s1 s2. raise_all RaiseSil [DISPATCH_LEVEL, NOTCHILL_LEVEL] quiet_machine = (Ret olds, s1) \<and>
     readcr8 s1 = last (readcr8 quiet_machine # [DISPATCH_LEVEL, NOTCHILL_LEVEL]) \<and> sil_sane s1 \<and>
     lower_all LowerSil (rev olds) s1 = (Ret (), s2) \<and> readcr8 s2 = readcr8 quiet_machine \<and> sil_sane s2"
proof -
  have "sil_sane quiet_machine" "sorted (readcr8 quiet_machine # [DISPATCH_LEVEL, NOTCHILL_LEVEL])"
    by (simp_all add: sil_sane_def readcr8_def quiet_machine_def percpu_read_def DISPATCH_LEVEL_def NOTCHILL_LEVEL_def)
  from RaiseSil_LowerSil_nested [OF this] show ?thesis by (simp add: DISPATCH_LEVEL_def NOTCHILL_LEVEL_def)
qed

text \<open>Theorem: the level assertions are off by one. At the very level they name,
  \<open>Assert_sil_less_than_or_equal\<close> panics although the level is not greater, and \<open>Assert_sil_more_than\<close>
  passes although the level is not greater.\<close>

theorem sil_assertions_off_by_one:
  shows "Assert_sil_less_than_or_equal (percpu_read V_sil s) s = (Panic ''sil not less or equal'' STATUS_INVALID_SIL, s) \<and>
     Assert_sil_more_than (percpu_read V_sil s) s = (Ret (), s)"
  by (simp add: Assert_sil_less_than_or_equal_def Assert_sil_more_than_def routine_simps bind_def)

end
