(* ===== verification/Interrupts.thy ===== *)
theory Interrupts
  imports Sil
begin

text \<open>
  Interrupt descriptors, registration, the exception handlers and the inter-processor interrupts:
  \<^verbatim>\<open>interrupt/interrupt.c\<close>. The descriptor table is a function from the vector to its entry, with the
  entry's packed fields; the addresses of the assembly entry points are part of the state. Device
  registers are read through \<open>mmio_in\<close>: the value of the \<open>n\<close>-th read of an address is the choice of the
  device; writes are recorded in order. The lemmas show that a gate decodes to its handler, what
  registration does on every branch, and which register writes an inter-processor interrupt makes.
\<close>

section \<open>State\<close>

record InterruptDescriptor =
  offset_1 :: u16
  selector :: u16
  ist :: u8
  type_attributes :: u8
  offset_2 :: u16
  offset_3 :: u32
  zero :: u32

record IDTR =
  idt_limit :: u16
  idt_base :: u64

text \<open>The assembly entry points.\<close>

datatype isr = int_divide_by_0 | int_nmi | int_tss | int_general_protection_fault | int_page_fault | int_watchdog

record intr_state = tss_state +
  idt :: "u8 \<Rightarrow> InterruptDescriptor"
  vectors :: "u8 \<Rightarrow> bool"
  iv_lock :: lock_t
  idtr :: IDTR
  idt_address :: u64
  isr_address :: "isr \<Rightarrow> u64"
  lapic :: u64
  x2 :: bool
  mmio_in :: "u64 \<Rightarrow> nat \<Rightarrow> u64"
  mmio_reads :: "u64 \<Rightarrow> nat"
  mmio_out :: "(u64 \<times> u64) list"

text \<open>A register frame as the handlers read it.\<close>

record regs_t =
  rax :: u64
  error_code :: u64
  rip :: u64
  cs :: u64
  rflags :: u64
  rsp :: u64
  ss :: u64

section \<open>The descriptor table\<close>

definition idt_gate :: "u64 \<Rightarrow> u8 \<Rightarrow> InterruptDescriptor" where
  "idt_gate addr flags =
     \<lparr>offset_1 = ucast (addr AND 0xFFFF), selector = 0x28, ist = 0, type_attributes = flags,
      offset_2 = ucast (drop_bit 16 addr AND 0xFFFF), offset_3 = ucast (drop_bit 32 addr AND 0xFFFFFFFF), zero = 0\<rparr>"

definition idt_set_gate :: "u8 \<Rightarrow> u64 \<Rightarrow> u8 \<Rightarrow> 'a intr_state_scheme \<Rightarrow> 'a intr_state_scheme" where
  "idt_set_gate vector handler flags s =
     s\<lparr>idt := (idt s)(vector := idt_gate handler flags), vectors := (vectors s)(vector := True)\<rparr>"

definition x86_load_idt :: "IDTR \<Rightarrow> 'a intr_state_scheme \<Rightarrow> 'a intr_state_scheme" where
  "x86_load_idt r s = s\<lparr>idtr := r\<rparr>"

definition InterruptInit :: "'a intr_state_scheme \<Rightarrow> 'a intr_state_scheme" where
  "InterruptInit s =
     (let s1 = idt_set_gate 0x00 (isr_address s int_divide_by_0) 0x8E s;
          s2 = idt_set_gate 0x02 (isr_address s int_nmi) 0x8E s1;
          s3 = idt_set_gate 0x0A (isr_address s int_tss) 0x8E s2;
          s4 = idt_set_gate 0x0D (isr_address s int_general_protection_fault) 0x8E s3;
          s5 = idt_set_gate 0x0E (isr_address s int_page_fault) 0x8E s4;
          s6 = idt_set_gate 0x30 (isr_address s int_watchdog) 0x8E s5
      in x86_load_idt \<lparr>idt_limit = 256 * 16 - 1, idt_base = idt_address s\<rparr> s6)"

definition RegisterInterruptVector :: "u8 \<Rightarrow> u64 \<Rightarrow> string \<Rightarrow> ('a intr_state_scheme, unit) routine" where
  "RegisterInterruptVector vector handler name s =
     (case aquire_lock (current_cpu s) (iv_lock s) of
        None \<Rightarrow> (NoReturn, s)
      | Some l \<Rightarrow>
          (let s1 = s\<lparr>iv_lock := l\<rparr>
           in if vector \<le> 64 then (Panic ''Attempted register reserved interrupt vector'' STATUS_UNKNOWN, s1)
              else if vectors s1 vector then
                (Panic ''Vector in use '' STATUS_TAKEN,
                 LogfStr_event ''kernel'' ''vector %u used attemped to be registered by %s''
                   [IntArg (ucast vector), StrArg name] s1)
              else
                (let s2 = LogfStr_event ''kernel''
                            (''Interrupt vector %u registered succesfully to '' @ [CHR 0x22] @ ''%s'' @ [CHR 0x22, CHR 0x0A])
                            [IntArg (ucast vector), StrArg name] (idt_set_gate vector handler 0xEE s1)
                 in (Ret (), s2\<lparr>iv_lock := release_lock (iv_lock s2)\<rparr>))))"

section \<open>Exception handlers\<close>

definition get_cr2 :: "'a machine_scheme \<Rightarrow> u64" where
  "get_cr2 s = cr2 s"

definition divide_by_0_handler :: "('a machine_scheme, unit) routine" where
  "divide_by_0_handler = seq (modify (LogStr_event ''kernel'' ''Division by 0 occured'')) cpu_stop"

definition tss_handler :: "regs_t \<Rightarrow> ('a machine_scheme, unit) routine" where
  "tss_handler frame =
     seq (modify (LogfStr_event ''kernel''
            ''Tss fault frame: ss : %llu rflags: %llu cs: %llu rip: %llu rsp: %llu error code: %llu''
            [IntArg (ss frame), IntArg (rflags frame), IntArg (cs frame), IntArg (rip frame), IntArg (rsp frame),
             IntArg (error_code frame)]))
         cpu_stop"

definition general_protection_fault_handler :: "regs_t \<Rightarrow> ('a machine_scheme, unit) routine" where
  "general_protection_fault_handler frame =
     seq (modify (LogfStr_event ''kernel'' (''GP: ec=%lx rip=%lx cs=%lx rflags=%lx rsp=%lx ss=%lx'' @ [CHR 0x0A])
            [IntArg (error_code frame), IntArg (rip frame), IntArg (cs frame), IntArg (rflags frame), IntArg (rsp frame),
             IntArg (ss frame)]))
    (seq (modify (\<lambda>s. LogfStr_event ''kernel'' ''cpu: %lu'' [IntArg (percpu_read V_cpu_id s)] s))
         cpu_stop)"

definition page_fault_handler :: "regs_t \<Rightarrow> ('a machine_scheme, unit) routine" where
  "page_fault_handler frame =
     seq (modify (LogfStr_event ''kernel'' (''Page fault frame: cs: %llu ec: %llu rip: %llu rflags: %llu '' @ [CHR 0x0A])
            [IntArg (cs frame), IntArg (error_code frame), IntArg (rip frame), IntArg (rflags frame)]))
    (seq (modify (\<lambda>s. LogfStr_event ''kernel'' (''cr2: %llu '' @ [CHR 0x0A]) [IntArg (get_cr2 s)] s))
    (seq (if 0x31 < cs frame then
            modify (LogfStr_event ''kernel'' ''from userspace ss = %llu rsp = %llu'' [IntArg (ss frame), IntArg (rsp frame)])
          else return ())
    (seq (modify (LogStr_event ''kernel'' ''page fault''))
         cpu_stop)))"

section \<open>Inter-processor interrupts\<close>

definition LAPIC_ICR_LOW :: u32 where "LAPIC_ICR_LOW = 0x300"
definition LAPIC_ICR_HIGH :: u32 where "LAPIC_ICR_HIGH = 0x310"
definition ICR_DELIVERY_PENDING :: u32 where "ICR_DELIVERY_PENDING = push_bit 12 1"

definition mmio_val :: "u64 \<Rightarrow> 'a intr_state_scheme \<Rightarrow> u64" where
  "mmio_val a s = mmio_in s a (mmio_reads s a)"

definition mmio_next :: "u64 \<Rightarrow> 'a intr_state_scheme \<Rightarrow> 'a intr_state_scheme" where
  "mmio_next a s = s\<lparr>mmio_reads := (mmio_reads s)(a := Suc (mmio_reads s a))\<rparr>"

definition mmio_put :: "u64 \<Rightarrow> u64 \<Rightarrow> 'a intr_state_scheme \<Rightarrow> 'a intr_state_scheme" where
  "mmio_put a v s = s\<lparr>mmio_out := mmio_out s @ [(a, v)]\<rparr>"

definition lapic_read :: "u32 \<Rightarrow> 'a intr_state_scheme \<Rightarrow> u32" where
  "lapic_read r s = ucast (mmio_val (lapic s + ucast r) s)"

definition lapic_write :: "u32 \<Rightarrow> u32 \<Rightarrow> 'a intr_state_scheme \<Rightarrow> 'a intr_state_scheme" where
  "lapic_write r v s = mmio_put (lapic s + ucast r) (ucast v) s"

partial_function (option) wait_icr :: "'a intr_state_scheme \<Rightarrow> 'a intr_state_scheme option" where
  "wait_icr s =
     (if lapic_read LAPIC_ICR_LOW s AND ICR_DELIVERY_PENDING \<noteq> 0
      then wait_icr (mmio_next (lapic s + ucast LAPIC_ICR_LOW) s)
      else Some (mmio_next (lapic s + ucast LAPIC_ICR_LOW) s))"

definition wait_icr_routine :: "('a intr_state_scheme, unit) routine" where
  "wait_icr_routine s = (case wait_icr s of None \<Rightarrow> (NoReturn, s) | Some s' \<Rightarrow> (Ret (), s'))"

definition send_ipi :: "u8 \<Rightarrow> u32 \<Rightarrow> ('a intr_state_scheme, int) routine" where
  "send_ipi vector ap_id =
     bind (gets (rdmsr MSR_IA32_APIC_BASE)) (\<lambda>base.
       let en = drop_bit 11 base AND 1; extd = drop_bit 10 base AND 1
       in if en \<noteq> 0 \<and> extd \<noteq> 0 then
            seq (modify (wrmsr MSR_X2APIC_ICR (push_bit 32 (ucast ap_id) OR ucast vector)))
           (seq (modify (\<lambda>s. s\<lparr>x2 := True\<rparr>)) (return 0))
          else if en = 1 \<and> extd = 0 then
            seq (bind (gets lapic) (\<lambda>p.
                   if p = 0 then
                     bind (gets (rdmsr MSR_IA32_APIC_BASE)) (\<lambda>b.
                     bind (map_mmio (b AND 0xFFFFF000)) (\<lambda>v. modify (\<lambda>s. s\<lparr>lapic := v\<rparr>)))
                   else return ()))
           (seq wait_icr_routine
           (seq (modify (lapic_write LAPIC_ICR_HIGH (push_bit 24 (ap_id AND 0xFF))))
           (seq (modify (lapic_write LAPIC_ICR_LOW (ucast vector)))
           (seq (modify (\<lambda>s. s\<lparr>x2 := False\<rparr>)) (return 0)))))
          else seq (modify (LogStr_event ''kernel'' (''apic disabled'' @ [CHR 0x0A]))) (return (-1)))"

definition send_eoi :: "('a intr_state_scheme, unit) routine" where
  "send_eoi =
     bind (gets x2) (\<lambda>b.
       if b then modify (wrmsr MSR_APIC_EOI 0) else modify (lapic_write 0x0B0 0))"

section \<open>Properties of the descriptor table\<close>

text \<open>The handler address the processor assembles from a gate.\<close>

definition gate_target :: "InterruptDescriptor \<Rightarrow> u64" where
  "gate_target g = ucast (offset_1 g) OR push_bit 16 (ucast (offset_2 g)) OR push_bit 32 (ucast (offset_3 g))"

lemma gate_target_gate [simp]: "gate_target (idt_gate a f) = a"
proof (rule low_bits_equal)
  fix n :: nat assume "n < 64"
  then consider "n < 16" | "16 \<le> n" "n < 32" | "32 \<le> n" "n < 64" by linarith
  then show "bit (gate_target (idt_gate a f)) n \<longleftrightarrow> bit a n"
    by cases (auto simp: gate_target_def idt_gate_def mask_literals bit_simps)
qed

lemma idt_set_gate_fields [simp]:
  "idt (idt_set_gate v h f s) = (idt s)(v := idt_gate h f)" "vectors (idt_set_gate v h f s) = (vectors s)(v := True)"
  "iv_lock (idt_set_gate v h f s) = iv_lock s" "isr_address (idt_set_gate v h f s) = isr_address s"
  "idt_address (idt_set_gate v h f s) = idt_address s"
  by (simp_all add: idt_set_gate_def)

text \<open>The vectors \<open>InterruptInit\<close> sets and the entry point of each.\<close>

definition exception_table :: "(u8 \<times> isr) list" where
  "exception_table = [(0x00, int_divide_by_0), (0x02, int_nmi), (0x0A, int_tss), (0x0D, int_general_protection_fault),
     (0x0E, int_page_fault), (0x30, int_watchdog)]"

text \<open>Theorem: after \<open>InterruptInit\<close> every vector of the exception table is marked as used and its gate is a
  present kernel-only interrupt gate that the processor resolves to its entry point; every other
  gate is unchanged, and the loaded table covers exactly 256 entries.\<close>

theorem InterruptInit_gates:
  shows "(case map_of exception_table v of
       Some i \<Rightarrow> vectors (InterruptInit s) v \<and> gate_target (idt (InterruptInit s) v) = isr_address s i \<and>
         type_attributes (idt (InterruptInit s) v) = 0x8E \<and> selector (idt (InterruptInit s) v) = 0x28
     | None \<Rightarrow> idt (InterruptInit s) v = idt s v \<and> vectors (InterruptInit s) v = vectors s v) \<and>
     idtr (InterruptInit s) = \<lparr>idt_limit = 4095, idt_base = idt_address s\<rparr>"
proof -
  have g: "type_attributes (idt_gate a f) = f" "selector (idt_gate a f) = 0x28" for a f by (simp_all add: idt_gate_def)
  show ?thesis
    by (simp add: InterruptInit_def Let_def x86_load_idt_def exception_table_def g)
qed

lemma current_cpu_intr [simp]:
  "current_cpu (s\<lparr>iv_lock := l\<rparr>) = current_cpu s" "current_cpu (idt_set_gate v h f s) = current_cpu s"
  by (simp_all add: current_cpu_def ispercpuready_iff percpu_read_def percpu_offsetof_def idt_set_gate_def)

lemma aquire_free:
  assumes "lock_free l" "c \<noteq> -1"
  shows "aquire_lock c l = Some \<lparr>held = True, holding_cpu = c\<rparr>"
  using assms by (auto simp: lock_free_def aquire_lock_def lock_t_set_both)

lemma LogfStr_event_intr [simp]:
  "idt (LogfStr_event md f a s) = idt s" "vectors (LogfStr_event md f a s) = vectors s"
  "iv_lock (LogfStr_event md f a s) = iv_lock s"
  by (simp_all add: LogfStr_event_def)

text \<open>Theorem: registering a handler on a vector above 64 that is not in use installs a gate for exactly that
  vector, callable from user mode, and gives the lock back; registering the same vector again
  panics with \<open>STATUS_TAKEN\<close>.\<close>

theorem RegisterInterruptVector_once:
  assumes "lock_free (iv_lock s)" and "current_cpu s \<noteq> -1" and "64 < vector" and "\<not> vectors s vector"
  shows "\<exists>s' s''. RegisterInterruptVector vector handler name s = (Ret (), s') \<and>
     gate_target (idt s' vector) = handler \<and> type_attributes (idt s' vector) = 0xEE \<and> vectors s' vector \<and>
     (\<forall>v. v = vector \<or> idt s' v = idt s v \<and> vectors s' v = vectors s v) \<and> lock_free (iv_lock s') \<and>
     RegisterInterruptVector vector h2 n2 s' = (Panic ''Vector in use '' STATUS_TAKEN, s'')"
proof -
  define s1 where "s1 = s\<lparr>iv_lock := \<lparr>held = True, holding_cpu = current_cpu s\<rparr>\<rparr>"
  define s2 where "s2 = LogfStr_event ''kernel''
      (''Interrupt vector %u registered succesfully to '' @ [CHR 0x22] @ ''%s'' @ [CHR 0x22, CHR 0x0A])
      [IntArg (ucast vector), StrArg name] (idt_set_gate vector handler 0xEE s1)"
  define s' where "s' = s2\<lparr>iv_lock := unlocked\<rparr>"
  have v: "\<not> vector \<le> 64" using assms(3) by simp
  have run: "RegisterInterruptVector vector handler name s = (Ret (), s')"
    unfolding RegisterInterruptVector_def aquire_free [OF assms(1,2)]
    using v assms(4) by (simp add: Let_def s1_def s2_def s'_def)
  have f: "idt s' = (idt s)(vector := idt_gate handler 0xEE)" "vectors s' = (vectors s)(vector := True)" "iv_lock s' = unlocked"
    by (simp_all add: s'_def s2_def s1_def)
  have cpu: "current_cpu s' = current_cpu s"
    by (simp add: s'_def s2_def s1_def LogfStr_event_def current_cpu_def ispercpuready_iff percpu_read_def
        percpu_offsetof_def idt_set_gate_def)
  have lk: "lock_free (iv_lock s')" by (simp add: f lock_free_def unlocked_def)
  obtain s'' where "RegisterInterruptVector vector h2 n2 s' = (Panic ''Vector in use '' STATUS_TAKEN, s'')"
    unfolding RegisterInterruptVector_def aquire_free [OF lk assms(2) [folded cpu]]
    using v by (simp add: Let_def f)
  moreover have "type_attributes (idt_gate handler 0xEE) = 0xEE" by (simp add: idt_gate_def)
  ultimately show ?thesis using run f lk by (intro exI [of _ s'] exI [of _ s'']) simp
qed

text \<open>A state of the interrupt component.\<close>

definition intr_test :: intr_state where
  "intr_test = tss_state.extend tss_test
     \<lparr>idt = (\<lambda>_. idt_gate 0 0), vectors = (\<lambda>_. False), iv_lock = unlocked, idtr = \<lparr>idt_limit = 0, idt_base = 0\<rparr>,
      idt_address = 0xFFFFFFFF80200000, isr_address = (\<lambda>_. 0xFFFFFFFF80001000), lapic = 0xFFFFFFFFE0000000, x2 = False,
      mmio_in = (\<lambda>_ _. 0), mmio_reads = (\<lambda>_. 0), mmio_out = []\<rparr>"

lemma intr_test_fields:
  "iv_lock intr_test = unlocked" "vectors intr_test v = False" "lapic intr_test = 0xFFFFFFFFE0000000"
  "mmio_in intr_test = (\<lambda>_ _. 0)" "msr intr_test = (\<lambda>_. 0)" "current_cpu intr_test = 0"
  by (simp_all add: intr_test_def tss_state.extend_def tss_test_def percpu_state.extend_def bsp_test_def vm_state.extend_def
      empty_vm_def memory_state.extend_def two_pages_def log_state.extend_def quiet_machine_def current_cpu_def ispercpuready_iff)

theorem RegisterInterruptVector_once_witness:
  "\<exists>s' s''. RegisterInterruptVector 0x80 0x1234 ''a'' intr_test = (Ret (), s') \<and>
     gate_target (idt s' 0x80) = 0x1234 \<and> type_attributes (idt s' 0x80) = 0xEE \<and> vectors s' 0x80 \<and>
     (\<forall>v. v = 0x80 \<or> idt s' v = idt intr_test v \<and> vectors s' v = vectors intr_test v) \<and> lock_free (iv_lock s') \<and>
     RegisterInterruptVector 0x80 0x5678 ''b'' s' = (Panic ''Vector in use '' STATUS_TAKEN, s'')"
  by (rule RegisterInterruptVector_once) (simp_all add: intr_test_fields lock_free_def unlocked_def)

section \<open>Properties of the inter-processor interrupts\<close>

definition icr_pending_at :: "'a intr_state_scheme \<Rightarrow> nat \<Rightarrow> bool" where
  "icr_pending_at s n \<longleftrightarrow>
     (ucast (mmio_in s (lapic s + ucast LAPIC_ICR_LOW) (mmio_reads s (lapic s + ucast LAPIC_ICR_LOW) + n)) :: u32)
       AND ICR_DELIVERY_PENDING \<noteq> 0"

lemma wait_icr_returns:
  assumes "\<not> icr_pending_at s n"
  shows "\<exists>r. wait_icr s = Some (s\<lparr>mmio_reads := r\<rparr>)"
  using assms
proof (induction n arbitrary: s)
  case 0
  then show ?case
    by (subst wait_icr.simps) (auto simp: icr_pending_at_def lapic_read_def mmio_val_def mmio_next_def)
next
  case (Suc n)
  let ?s = "mmio_next (lapic s + ucast LAPIC_ICR_LOW) s"
  show ?case
  proof (cases "lapic_read LAPIC_ICR_LOW s AND ICR_DELIVERY_PENDING = 0")
    case True
    then show ?thesis by (subst wait_icr.simps) (auto simp: mmio_next_def)
  next
    case False
    have "\<not> icr_pending_at ?s n" using Suc.prems by (simp add: icr_pending_at_def mmio_next_def)
    from Suc.IH [OF this] obtain r where "wait_icr ?s = Some (?s\<lparr>mmio_reads := r\<rparr>)" by blast
    with False show ?thesis by (subst wait_icr.simps) (auto simp: mmio_next_def)
  qed
qed

text \<open>Theorem: \<open>send_ipi\<close> in legacy mode with a mapped interrupt controller waits for the previous delivery and
  then writes the destination to the high register before the vector to the low one, in this order
  and nothing else; it returns as soon as the controller stops reporting a pending delivery.\<close>

theorem send_ipi_legacy:
  assumes "drop_bit 11 (msr s MSR_IA32_APIC_BASE) AND 1 = 1" and "drop_bit 10 (msr s MSR_IA32_APIC_BASE) AND 1 = 0"
    and "lapic s \<noteq> 0" and "\<not> icr_pending_at s n"
  shows "\<exists>s'. send_ipi vector ap_id s = (Ret 0, s') \<and> x2 s' = False \<and> msr s' = msr s \<and>
     mmio_out s' = mmio_out s @
       [(lapic s + 0x310, ucast (push_bit 24 (ap_id AND 0xFF))), (lapic s + 0x300, ucast (ucast vector :: u32))]"
proof -
  from wait_icr_returns [OF assms(4)] obtain r where "wait_icr s = Some (s\<lparr>mmio_reads := r\<rparr>)" by blast
  then show ?thesis
    using assms(1-3) by (simp add: send_ipi_def routine_simps bind_def wait_icr_routine_def lapic_write_def mmio_put_def
        LAPIC_ICR_LOW_def LAPIC_ICR_HIGH_def)
qed

theorem send_ipi_legacy_witness:
  "\<exists>s'. send_ipi 0x30 2 (intr_test\<lparr>msr := (\<lambda>_. 0xFEE00800)\<rparr>) = (Ret 0, s') \<and> x2 s' = False \<and>
     msr s' = msr (intr_test\<lparr>msr := (\<lambda>_. 0xFEE00800)\<rparr>) \<and>
     mmio_out s' = mmio_out (intr_test\<lparr>msr := (\<lambda>_. 0xFEE00800)\<rparr>) @
       [(lapic (intr_test\<lparr>msr := (\<lambda>_. 0xFEE00800)\<rparr>) + 0x310, ucast (push_bit 24 ((2 :: u32) AND 0xFF))),
        (lapic (intr_test\<lparr>msr := (\<lambda>_. 0xFEE00800)\<rparr>) + 0x300, ucast (ucast (0x30 :: u8) :: u32))]"
  by (rule send_ipi_legacy [where n = 0]) (simp_all add: intr_test_fields icr_pending_at_def)

text \<open>In x2APIC mode the request is a single register write that carries the full 32-bit identifier.\<close>

lemma send_ipi_x2apic:
  assumes "drop_bit 11 (msr s MSR_IA32_APIC_BASE) AND 1 = 1" and "drop_bit 10 (msr s MSR_IA32_APIC_BASE) AND 1 = 1"
  shows "send_ipi vector ap_id s =
     (Ret 0, s\<lparr>msr := (msr s)(MSR_X2APIC_ICR := push_bit 32 (ucast ap_id) OR ucast vector), x2 := True\<rparr>)"
  using assms by (simp add: send_ipi_def routine_simps bind_def)

lemma send_ipi_disabled:
  assumes "drop_bit 11 (msr s MSR_IA32_APIC_BASE) AND 1 = 0"
  shows "send_ipi vector ap_id s = (Ret (-1), LogStr_event ''kernel'' (''apic disabled'' @ [CHR 0x0A]) s)"
  using assms by (simp add: send_ipi_def routine_simps bind_def)

end
