(* ===== verification/Nmi.thy ===== *)
theory Nmi
  imports Interrupts
begin

text \<open>
  The non-maskable interrupt handler, \<^verbatim>\<open>interrupt/nmi.c\<close>: the machine check banks are scanned for an
  error that decides between carrying on, giving up the core and giving up the system. The lemmas
  characterise \<open>check_severity\<close> by the first bank with a valid error, and show which cores the handler
  takes for the boot processor.
\<close>

section \<open>State and operations\<close>

definition IA32_MCG_CAP :: u32 where "IA32_MCG_CAP = 0x179"

text \<open>The flags of the last report, and the shared temperature that the handler uses as a signal.\<close>

record nmi_state = intr_state +
  r_ip :: bool
  e_ip :: bool
  mcip :: bool
  lmce :: bool
  temperature :: u64

definition is_bsp :: "'a machine_scheme \<Rightarrow> bool" where
  "is_bsp s = (rdmsr 0x1B s AND push_bit 11 1 \<noteq> 0)"

text \<open>The loop over \<open>k\<close> banks from bank \<open>i\<close> on.\<close>

primrec severity_loop :: "u32 \<Rightarrow> nat \<Rightarrow> ('a machine_scheme, u8) routine" where
  "severity_loop i 0 = return 0"
| "severity_loop i (Suc k) =
     bind (gets (rdmsr (0x401 + i * 4))) (\<lambda>status.
       if status AND push_bit 63 1 = 0 then severity_loop (i + 1) k
       else if status AND push_bit 56 1 \<noteq> 0 then stop_with (FiPanic ''Cooked PCC corrupted'')
       else if status AND push_bit 61 1 \<noteq> 0 then
         (if status AND push_bit 57 1 \<noteq> 0
          then stop_with (FiPanic ''nmi action required (im not good enough to fix it so kill)'')
          else return 1)
       else return 0)"

definition num_banks :: "'a machine_scheme \<Rightarrow> u32" where
  "num_banks s = ucast (rdmsr IA32_MCG_CAP s AND 0xFF)"

definition check_severity :: "('a machine_scheme, u8) routine" where
  "check_severity = bind (gets num_banks) (\<lambda>n. severity_loop 0 (unat n))"

primrec log_banks :: "u32 \<Rightarrow> nat \<Rightarrow> 'a machine_scheme \<Rightarrow> 'a machine_scheme" where
  "log_banks i 0 s = s"
| "log_banks i (Suc k) s =
     (let bank_status = rdmsr (0x401 + i * 4) s
      in log_banks (i + 1) k
           (if bank_status AND push_bit 63 1 \<noteq> 0 then
              (let s1 = LogfStr_event ''kernel'' ''Bank %i :'' [IntArg (ucast i)] s;
                   s2 = LogfStr_event ''kernel'' ('' STATUS = %llu '' @ [CHR 0x0A]) [IntArg bank_status] s1
               in if bank_status AND push_bit 59 1 \<noteq> 0
                  then LogfStr_event ''kernel'' (''  PHYS ADDR = %llu '' @ [CHR 0x0A]) [IntArg (rdmsr (0x402 + i * 4) s2)] s2
                  else s2)
            else s))"

text \<open>The core is given up: the machine check in progress bit is cleared in \<open>MSR_IA32_MCG_STATUS\<close>, which the
  header defines as 0x17F.\<close>

definition kill_core :: "('a nmi_state_scheme, unit) routine" where
  "kill_core =
     seq (modify (LogStr_event ''kernel'' ([CHR 0x0A] @ '' NMI on non bsp core killing it '' @ [CHR 0x0A])))
    (seq (modify (\<lambda>s. s\<lparr>temperature := 999999\<rparr>))
    (seq (modify (\<lambda>s. wrmsr MSR_IA32_MCG_STATUS (rdmsr MSR_IA32_MCG_STATUS s AND NOT (push_bit 2 1)) s))
         cpu_stop))"

definition nmi_report :: "('a nmi_state_scheme, unit) routine" where
  "nmi_report =
     seq (modify (LogStr_event ''kernel'' (''--- MCA BANK LOGS ---'' @ [CHR 0x0A])))
    (seq (modify (\<lambda>s. log_banks 0 (unat (num_banks s)) s))
    (bind (gets (rdmsr 0x17A)) (\<lambda>res.
     seq (modify (\<lambda>s. s\<lparr>mcip := (res AND 0x04 \<noteq> 0)\<rparr>))
    (seq (if res AND 0x04 \<noteq> 0 then stop_with (FiPanic ''s.minmi'') else return ())
    (seq (modify (\<lambda>s. s\<lparr>r_ip := (res AND 0x01 \<noteq> 0), e_ip := (res AND 0x02 \<noteq> 0), lmce := (res AND 0x08 \<noteq> 0)\<rparr>))
    (bind (x86_inb 0x92) (\<lambda>p.
     seq (if p = 4 then seq clear_watchdog_latch (stop_with (Panic ''Watchdog expired'' STATUS_LOCKUP)) else return ())
    (bind (x86_inb 0x61) (\<lambda>q.
       if q = 6 then stop_with (Panic ''Bus Error (from legacy port)'' STATUS_HARDWARE_FAILURE)
       else if q = 7 then stop_with (Panic ''Memory failure (from legacy port)'' STATUS_HARDWARE_FAILURE)
       else return ())))))))))"

definition nmi_handler :: "regs_t \<Rightarrow> ('a nmi_state_scheme, unit) routine" where
  "nmi_handler regs =
     seq (modify (LogfStr_event ''kernel'' (''NMI address = %p RAX = %p '' @ [CHR 0x0A, CHR 0x0A])
            [IntArg (rip regs), IntArg (rax regs)]))
    (bind check_severity (\<lambda>res.
       if res = 0 then return ()
       else bind (gets is_bsp) (\<lambda>b. if res = 1 \<and> \<not> b then kill_core else nmi_report)))"

section \<open>Properties\<close>

text \<open>The reference: the first bank with a valid error decides.\<close>

definition bank_status :: "'a machine_scheme \<Rightarrow> nat \<Rightarrow> u64" where
  "bank_status s i = msr s (0x401 + of_nat i * 4)"

definition bank_verdict :: "u64 \<Rightarrow> u8 outcome" where
  "bank_verdict st =
     (if bit st 56 then FiPanic ''Cooked PCC corrupted''
      else if bit st 61 then
        (if bit st 57 then FiPanic ''nmi action required (im not good enough to fix it so kill)'' else Ret 1)
      else Ret 0)"

definition severity_spec :: "'a machine_scheme \<Rightarrow> u8 outcome" where
  "severity_spec s =
     (case List.find (\<lambda>i. bit (bank_status s i) 63) [0..<unat (num_banks s)] of
        None \<Rightarrow> Ret 0
      | Some i \<Rightarrow> bank_verdict (bank_status s i))"

lemma and_push_bit_1: "x AND push_bit n 1 = 0 \<longleftrightarrow> \<not> bit x n" for x :: u64
proof
  assume "x AND push_bit n 1 = 0"
  then have "\<not> bit (x AND push_bit n 1) n" by simp
  then show "\<not> bit x n" by (auto simp: bit_simps dest: bit_imp_le_length)
next
  assume "\<not> bit x n"
  then show "x AND push_bit n 1 = 0" by (rule and_single_bit)
qed

lemma severity_loop_spec:
  "severity_loop (of_nat i) k s =
     ((case List.find (\<lambda>i. bit (bank_status s i) 63) [i..<i + k] of None \<Rightarrow> Ret 0 | Some i \<Rightarrow> bank_verdict (bank_status s i)), s)"
proof (induction k arbitrary: i)
  case 0
  then show ?case by (simp add: return_def)
next
  case (Suc k)
  have u: "[i..<i + Suc k] = i # [Suc i..<Suc i + k]" by (simp add: upt_conv_Cons)
  have n: "of_nat i + 1 = (of_nat (Suc i) :: u32)" by simp
  show ?case
    using Suc [of "Suc i"] unfolding u
    by (simp only: severity_loop.simps n and_push_bit_1)
      (simp add: routine_simps bind_def bank_status_def bank_verdict_def)
qed

lemma check_severity_eq: "check_severity s = (severity_spec s, s)"
  using severity_loop_spec [of 0 "unat (num_banks s)" s]
  by (simp add: check_severity_def severity_spec_def gets_def bind_def)

text \<open>Theorem: \<open>check_severity\<close> looks at the banks the processor has, in order, and the first one with a valid
  error decides: a corrupted context or a required action ends the system, an uncorrected error
  without required action gives 1, everything else 0. It changes nothing.\<close>

theorem check_severity_first_valid_bank: "check_severity s = (severity_spec s, s)"
  by (rule check_severity_eq)

text \<open>Theorem: the test for the boot processor looks at bit 11 of the APIC base register, which is the enable
  bit, set on every running core. With the APIC enabled the handler therefore never takes the
  branch that gives up a single core, and an uncorrected error always goes on to the report.\<close>

theorem nmi_never_kills_a_core:
  assumes "bit (msr s 0x1B) 11" and "severity_spec s = Ret 1"
  shows "nmi_handler regs s =
     nmi_report (LogfStr_event ''kernel'' (''NMI address = %p RAX = %p '' @ [CHR 0x0A, CHR 0x0A])
       [IntArg (rip regs), IntArg (rax regs)] s)"
proof -
  define l where "l = LogfStr_event ''kernel'' (''NMI address = %p RAX = %p '' @ [CHR 0x0A, CHR 0x0A])
       [IntArg (rip regs), IntArg (rax regs)] s"
  have b: "bank_status l = bank_status s" by (rule ext) (simp add: bank_status_def LogfStr_event_def l_def)
  have n: "num_banks l = num_banks s" by (simp add: num_banks_def LogfStr_event_def l_def)
  have "severity_spec l = severity_spec s" unfolding severity_spec_def b n by (rule refl)
  then have "check_severity l = (Ret 1, l)" using assms(2) by (simp add: check_severity_eq)
  moreover have "is_bsp l"
    using assms(1) and_push_bit_1 [of "msr s 0x1B" 11] by (simp add: is_bsp_def LogfStr_event_def l_def)
  ultimately show ?thesis
    unfolding nmi_handler_def l_def by (simp add: seq_def modify_def gets_def bind_def)
qed

definition nmi_test :: nmi_state where
  "nmi_test = intr_state.extend
     (intr_test\<lparr>msr := (\<lambda>r. if r = 0x1B then 0x800 else if r = IA32_MCG_CAP then 1 else if r = 0x401 then 0xA000000000000000 else 0)\<rparr>)
     \<lparr>r_ip = False, e_ip = False, mcip = False, lmce = False, temperature = 0\<rparr>"

definition nmi_regs :: regs_t where
  "nmi_regs = \<lparr>rax = 1, error_code = 0, rip = 0x1000, cs = 0x28, rflags = 0, rsp = 0, ss = 0\<rparr>"

theorem nmi_never_kills_a_core_witness:
  "nmi_handler nmi_regs nmi_test =
     nmi_report (LogfStr_event ''kernel'' (''NMI address = %p RAX = %p '' @ [CHR 0x0A, CHR 0x0A])
       [IntArg (rip nmi_regs), IntArg (rax nmi_regs)] nmi_test)"
proof (rule nmi_never_kills_a_core)
  have m: "msr nmi_test r = (if r = 0x1B then 0x800 else if r = IA32_MCG_CAP then 1 else if r = 0x401 then 0xA000000000000000 else 0)" for r
    by (simp add: nmi_test_def intr_state.extend_def)
  show "bit (msr nmi_test 0x1B) 11" by (simp add: m)
  show "severity_spec nmi_test = Ret 1"
    by (simp add: severity_spec_def num_banks_def bank_status_def bank_verdict_def m IA32_MCG_CAP_def)
qed

end
