(* ===== verification/Screen.thy ===== *)
theory Screen
  imports Nmi
begin

text \<open>
  The screen and the end of the system: the frame buffer driver \<^verbatim>\<open>drivers/framebuffer\<close>, the set-up and the
  drawing loop of \<^verbatim>\<open>kmain.c\<close>, and \<^verbatim>\<open>arch/x86/panic.c\<close>. The pointers of the code that may be null are
  options; reading through a null pointer ends in the page fault handler, which halts the CPU. The
  lemmas show that filling the screen sets every pixel and stays inside the buffer, and what a panic
  does before and after the frame buffer is set up.
\<close>

section \<open>State\<close>

record limine_framebuffer =
  fb_address :: u64
  width :: u64
  height :: u64
  pitch :: u64
  bpp :: u16
  memory_model :: u8
  red_mask_size :: u8
  red_mask_shift :: u8
  green_mask_size :: u8
  green_mask_shift :: u8
  blue_mask_size :: u8
  blue_mask_shift :: u8
  edid_size :: u64
  edid :: u64
  mode_count :: u64
  modes :: u64

record screen_t =
  screen_width :: u64
  screen_height :: u64
  screen_pitch :: u64

text \<open>\<open>fb_response\<close> is the list behind the boot loader's response, or nothing when there was none;
  \<open>rebooted\<close> says that the triple fault was provoked.\<close>

record fb_state = nmi_state +
  fb_response :: "limine_framebuffer list option"
  framebuffer :: "limine_framebuffer option"
  fb_ptr :: u64
  frame_pointer :: u64
  rebooted :: bool

definition null_fault :: "('s, 'a) routine" where
  "null_fault = stop_with Stopped"

section \<open>The frame buffer driver\<close>

definition pixel_address :: "u64 \<Rightarrow> u64 \<Rightarrow> u64 \<Rightarrow> u64 \<Rightarrow> u64" where
  "pixel_address fb pit x y = fb + 4 * (y * (pit div 4) + x)"

definition putpixel :: "u64 \<Rightarrow> u64 \<Rightarrow> u32 \<Rightarrow> ('a fb_state_scheme, unit) routine" where
  "putpixel x y colour s =
     (case framebuffer s of
        None \<Rightarrow> null_fault s
      | Some f \<Rightarrow> (Ret (), s\<lparr>mem := store32 (mem s) (pixel_address (fb_ptr s) (pitch f) x y) colour\<rparr>))"

definition clearscreen :: "('a fb_state_scheme, unit) routine" where
  "clearscreen s =
     (case framebuffer s of
        None \<Rightarrow> null_fault s
      | Some f \<Rightarrow> (Ret (), s\<lparr>mem := snd (memset (fb_ptr s) 0 (pitch f * height f) (mem s))\<rparr>))"

text \<open>An index beyond the response's list has no defined result.\<close>

definition RequestFrameBuffer :: "u8 \<Rightarrow> 'a fb_state_scheme \<Rightarrow> limine_framebuffer option" where
  "RequestFrameBuffer num s =
     (case fb_response s of
        None \<Rightarrow> None
      | Some fs \<Rightarrow> if unat num < length fs then Some (fs ! unat num) else None)"

text \<open>\<open>framebuffer[num]\<close> indexes the single structure behind the pointer, not the list: only index 0 is there.\<close>

definition GetScreenInfo :: "u8 \<Rightarrow> 'a fb_state_scheme \<Rightarrow> screen_t option" where
  "GetScreenInfo num s =
     (case framebuffer s of
        None \<Rightarrow> None
      | Some f \<Rightarrow>
          if num = 0 then Some \<lparr>screen_width = width f, screen_height = height f, screen_pitch = pitch f\<rparr> else None)"

section \<open>Drawing loops\<close>

text \<open>A loop with a 64-bit counter up to \<open>n\<close>.\<close>

primrec count_loop :: "nat \<Rightarrow> nat \<Rightarrow> (u64 \<Rightarrow> ('s, unit) routine) \<Rightarrow> ('s, unit) routine" where
  "count_loop i 0 f = return ()"
| "count_loop i (Suc k) f = seq (f (of_nat i)) (count_loop (Suc i) k f)"

definition draw_screen :: "('a fb_state_scheme, unit) routine" where
  "draw_screen s =
     (case RequestFrameBuffer 0 s of
        None \<Rightarrow> null_fault s
      | Some f \<Rightarrow>
          count_loop 0 (unat (height f)) (\<lambda>y. count_loop 0 (unat (width f)) (\<lambda>i. putpixel i y 0x0000FF)) s)"

definition set_up_framebuffer :: "('a fb_state_scheme, unit) routine" where
  "set_up_framebuffer s =
     (case RequestFrameBuffer 0 s of
        None \<Rightarrow> null_fault s
      | Some f \<Rightarrow> (Ret (), s\<lparr>framebuffer := Some f, fb_ptr := fb_address f\<rparr>))"

text \<open>The loops of \<open>kmain\<close> count in 32 bits: a bound that does not fit is never reached.\<close>

definition count32_loop :: "u64 \<Rightarrow> (u64 \<Rightarrow> ('s, unit) routine) \<Rightarrow> ('s, unit) routine" where
  "count32_loop n f = (if n \<le> 0xFFFFFFFF then count_loop 0 (unat n) f else stop_with NoReturn)"

definition kmain_fill :: "('a fb_state_scheme, unit) routine" where
  "kmain_fill s =
     (case framebuffer s of
        None \<Rightarrow> null_fault s
      | Some f \<Rightarrow> count32_loop (width f) (\<lambda>x. count32_loop (height f) (\<lambda>y. putpixel x y 0x00FFFF)) s)"

section \<open>Panic\<close>

text \<open>The empty descriptor table makes the breakpoint interrupt reset the machine.\<close>

definition triple_fault :: "('a fb_state_scheme, unit) routine" where
  "triple_fault s = (Stopped, s\<lparr>idtr := \<lparr>idt_limit = 0, idt_base = 0\<rparr>, rebooted := True\<rparr>)"

primrec unwind_loop :: "u64 \<Rightarrow> nat \<Rightarrow> 'a machine_scheme \<Rightarrow> 'a machine_scheme" where
  "unwind_loop f 0 s = s"
| "unwind_loop f (Suc k) s =
     (if f = 0 then s
      else if load64 (mem s) (f + 8) = 0 then s
      else unwind_loop (load64 (mem s) f) k
             (LogfStr_event ''panic'' (''%llu '' @ [CHR 0x0D]) [IntArg (load64 (mem s) (f + 8))] s))"

definition stack_unwind :: "('a fb_state_scheme, unit) routine" where
  "stack_unwind =
     seq (modify (LogStr_event ''panic'' ([CHR 0x0A] @ ''Stack trace'' @ [CHR 0x0A])))
         (modify (\<lambda>s. unwind_loop (frame_pointer s) 20 s))"

definition cpu_parked :: "'a machine_scheme \<Rightarrow> bool" where
  "cpu_parked s \<longleftrightarrow> ispercpuready s \<and> percpu_read V_cpu_state s AND 0x1 \<noteq> 0"

definition panic :: "string \<Rightarrow> u16 \<Rightarrow> ('a fb_state_scheme, unit) routine" where
  "panic msg code =
     seq (modify cpu_stop_interrupts)
    (seq (modify (LogStr_event ''panic'' ''Yo panic rn everybody chill yo''))
    (bind (gets cpu_parked) (\<lambda>parked.
       if parked then stop_with Stopped
       else
         seq (modify (LogfStr_event ''panic'' ([CHR 0x0A] @ ''Panic: %s code %u'') [StrArg msg, IntArg (ucast code)]))
        (seq draw_screen triple_fault))))"

definition fi_panic :: "string \<Rightarrow> ('a fb_state_scheme, unit) routine" where
  "fi_panic cooked = seq (modify (LogStr_event ''panic'' cooked)) triple_fault"

section \<open>Lemmas on filling\<close>

definition paint :: "u32 \<Rightarrow> u64 list \<Rightarrow> memory \<Rightarrow> memory" where
  "paint c as m = fold (\<lambda>a m. store32 m a c) as m"

lemma paint_simps [simp]:
  "paint c [] m = m" "paint c (as @ bs) m = paint c bs (paint c as m)" "paint c [a] m = store32 m a c"
  by (simp_all add: paint_def)

lemma store32_outside: "\<not> in_range a 4 x \<Longrightarrow> store32 m a v x = m x"
  by (simp add: store32_def store_le_apply del: store_le.simps)

lemma load32_cong:
  assumes "\<And>x. in_range a 4 x \<Longrightarrow> m x = m' x"
  shows "load32 m a = load32 m' a"
  unfolding load32_def by (subst load_le_cong [of 4 a m m']) (use assms in auto)

text \<open>Two addresses at a distance of a multiple of 4 from a common base do not overlap partially.\<close>

lemma grid_disjoint:
  assumes "in_range (fb + 4 * i) 4 x" "in_range (fb + 4 * j) 4 x"
  shows "fb + 4 * i = fb + 4 * j"
proof -
  have al: "aligned 4 (4 * k)" for k by (simp add: aligned_def unat_word_ariths dvd_mod)
  have sh: "in_range (4 * k) 4 (x - fb)" if "in_range (fb + 4 * k) 4 x" for k
    using that by (simp add: in_range_def algebra_simps)
  have "4 * i = 4 * j"
    by (rule aligned_blocks_disjoint [OF al al _ sh [OF assms(1)] sh [OF assms(2)]]) simp
  then show ?thesis by simp
qed

lemma load32_paint:
  assumes "\<And>a. a \<in> set as \<Longrightarrow> \<exists>k. a = fb + 4 * k"
  shows "load32 (paint c as m) (fb + 4 * j) = (if fb + 4 * j \<in> set as then c else load32 m (fb + 4 * j))"
  using assms
proof (induction as rule: rev_induct)
  case (snoc a as)
  then obtain k where k: "a = fb + 4 * k" by auto
  show ?case
  proof (cases "a = fb + 4 * j")
    case True
    then show ?thesis by simp
  next
    case False
    then have "load32 (store32 (paint c as m) a c) (fb + 4 * j) = load32 (paint c as m) (fb + 4 * j)"
      using grid_disjoint [of fb k _ j] k by (intro load32_cong store32_outside) auto
    with snoc False show ?thesis by auto
  qed
qed simp

lemma paint_outside:
  assumes "\<And>a. a \<in> set as \<Longrightarrow> \<not> in_range a 4 x"
  shows "paint c as m x = m x"
  using assms by (induction as rule: rev_induct) (simp_all add: store32_outside)

text \<open>The loops over \<open>putpixel\<close> as one sequence of writes.\<close>

lemma count_loop_paint:
  assumes "\<And>i s. \<lbrakk>framebuffer s = fo; fb_ptr s = fb\<rbrakk> \<Longrightarrow> F i s = (Ret (), s\<lparr>mem := paint c (addrs i) (mem s)\<rparr>)"
    and "framebuffer s = fo" "fb_ptr s = fb"
  shows "count_loop i k F s =
     (Ret (), s\<lparr>mem := paint c (concat (map (\<lambda>j. addrs (of_nat j)) [i..<i + k])) (mem s)\<rparr>)"
  using assms(2,3)
proof (induction k arbitrary: i s)
  case 0
  then show ?case by (simp add: return_def)
next
  case (Suc k)
  have u: "[i..<i + Suc k] = i # [Suc i..<Suc i + k]" by (simp add: upt_conv_Cons)
  show ?case unfolding u using Suc assms(1) [of s] by (simp add: seq_def bind_def)
qed

lemma putpixel_paint:
  "\<lbrakk>framebuffer s = Some f; fb_ptr s = fb\<rbrakk> \<Longrightarrow>
   putpixel x y c s = (Ret (), s\<lparr>mem := paint c [pixel_address fb (pitch f) x y] (mem s)\<rparr>)"
  by (simp add: putpixel_def)

definition screen_filled :: "u64 \<Rightarrow> limine_framebuffer \<Rightarrow> u32 \<Rightarrow> memory \<Rightarrow> bool" where
  "screen_filled fb f c m \<longleftrightarrow>
     (\<forall>x y. x < unat (width f) \<longrightarrow> y < unat (height f) \<longrightarrow>
        load32 m (pixel_address fb (pitch f) (of_nat x) (of_nat y)) = c)"

text \<open>The sizes of a sane frame buffer: a line of pixels fits the pitch, and the buffer does not wrap.\<close>

definition fb_sane :: "limine_framebuffer \<Rightarrow> bool" where
  "fb_sane f \<longleftrightarrow> width f \<le> pitch f div 4 \<and> unat (pitch f) * unat (height f) < 2 ^ 64"

lemma pixel_inside:
  assumes "fb_sane f" "x < unat (width f)" "y < unat (height f)"
    and "in_range (pixel_address fb (pitch f) (of_nat x) (of_nat y)) 4 a"
  shows "in_range fb (unat (pitch f) * unat (height f)) a"
proof -
  let ?p = "unat (pitch f) div 4"
  have x: "x < ?p" using assms(1,2) by (auto simp: fb_sane_def word_le_nat_alt unat_div)
  have "(y * ?p + x) + 1 \<le> (y + 1) * ?p" using x by simp
  also have "\<dots> \<le> unat (height f) * ?p" using assms(3) by (intro mult_le_mono1) simp
  finally have le: "4 * (y * ?p + x) + 4 \<le> 4 * (unat (height f) * ?p)" by simp
  have "4 * (unat (height f) * ?p) = unat (height f) * (4 * ?p)" by simp
  also have "\<dots> \<le> unat (height f) * unat (pitch f)" by (intro mult_le_mono2) simp
  finally have "4 * (unat (height f) * ?p) \<le> unat (height f) * unat (pitch f)" .
  from order_trans [OF le this] have b: "4 * (y * ?p + x) + 4 \<le> unat (pitch f) * unat (height f)"
    by (simp only: mult.commute [of "unat (pitch f)"])
  obtain k where k: "k < 4" "a = pixel_address fb (pitch f) (of_nat x) (of_nat y) + of_nat k"
    using assms(4) by (rule in_rangeE)
  have "?p = unat (pitch f div 4)" by (simp add: unat_div)
  then have "pitch f div 4 = of_nat ?p" by simp
  then have a: "a = fb + of_nat (4 * (y * ?p + x) + k)" using k(2) by (simp add: pixel_address_def)
  have "4 * (y * ?p + x) + k < unat (pitch f) * unat (height f)" using b k(1) by linarith
  then show ?thesis using assms(1) unfolding a by (subst in_range_offset) (auto simp: fb_sane_def)
qed

lemma filled_by_paint:
  assumes "\<And>x y. x < unat (width f) \<Longrightarrow> y < unat (height f) \<Longrightarrow>
      pixel_address fb (pitch f) (of_nat x) (of_nat y) \<in> set as"
    and "\<And>a. a \<in> set as \<Longrightarrow> \<exists>x y. x < unat (width f) \<and> y < unat (height f) \<and>
      a = pixel_address fb (pitch f) (of_nat x) (of_nat y)"
    and "fb_sane f"
  shows "screen_filled fb f c (paint c as m) \<and>
     (\<forall>a. in_range fb (unat (pitch f) * unat (height f)) a \<or> paint c as m a = m a)"
proof (intro conjI allI)
  have grid: "\<exists>k. a = fb + 4 * k" if "a \<in> set as" for a
    using assms(2) [OF that] unfolding pixel_address_def by blast
  show "screen_filled fb f c (paint c as m)"
    unfolding screen_filled_def
  proof (intro allI impI)
    fix x y assume "x < unat (width f)" "y < unat (height f)"
    from assms(1) [OF this] show "load32 (paint c as m) (pixel_address fb (pitch f) (of_nat x) (of_nat y)) = c"
      unfolding pixel_address_def using load32_paint [of as fb c m, OF grid] by presburger
  qed
  fix a
  show "in_range fb (unat (pitch f) * unat (height f)) a \<or> paint c as m a = m a"
  proof (cases "in_range fb (unat (pitch f) * unat (height f)) a")
    case False
    have "\<not> in_range b 4 a" if b: "b \<in> set as" for b
    proof -
      from assms(2) [OF b] obtain x y where "x < unat (width f)" "y < unat (height f)"
        "b = pixel_address fb (pitch f) (of_nat x) (of_nat y)" by blast
      with pixel_inside [OF assms(3), of x y fb a] False show ?thesis by auto
    qed
    then show ?thesis by (simp add: paint_outside)
  qed simp
qed

text \<open>The order of the two loops.\<close>

definition pixels_by_line :: "u64 \<Rightarrow> limine_framebuffer \<Rightarrow> u64 list" where
  "pixels_by_line fb f = concat (map (\<lambda>y. concat (map (\<lambda>x. [pixel_address fb (pitch f) (of_nat x) (of_nat y)])
     [0..<unat (width f)])) [0..<unat (height f)])"

definition pixels_by_column :: "u64 \<Rightarrow> limine_framebuffer \<Rightarrow> u64 list" where
  "pixels_by_column fb f = concat (map (\<lambda>x. concat (map (\<lambda>y. [pixel_address fb (pitch f) (of_nat x) (of_nat y)])
     [0..<unat (height f)])) [0..<unat (width f)])"

lemma pixels_filled:
  assumes "fb_sane f" "as = pixels_by_line fb f \<or> as = pixels_by_column fb f"
  shows "screen_filled fb f c (paint c as m) \<and>
     (\<forall>a. in_range fb (unat (pitch f) * unat (height f)) a \<or> paint c as m a = m a)"
proof (rule filled_by_paint [OF _ _ assms(1)])
  have set: "set as = {pixel_address fb (pitch f) (of_nat x) (of_nat y) | x y. x < unat (width f) \<and> y < unat (height f)}"
    using assms(2) unfolding pixels_by_line_def pixels_by_column_def by (elim disjE) (simp only:, force)+
  show "x < unat (width f) \<Longrightarrow> y < unat (height f) \<Longrightarrow> pixel_address fb (pitch f) (of_nat x) (of_nat y) \<in> set as" for x y
    unfolding set by blast
  show "a \<in> set as \<Longrightarrow> \<exists>x y. x < unat (width f) \<and> y < unat (height f) \<and>
      a = pixel_address fb (pitch f) (of_nat x) (of_nat y)" for a unfolding set by blast
qed

lemma draw_screen_paint:
  assumes "framebuffer s = Some f" "RequestFrameBuffer 0 s = Some f"
  shows "draw_screen s = (Ret (), s\<lparr>mem := paint 0x0000FF (pixels_by_line (fb_ptr s) f) (mem s)\<rparr>)"
proof -
  have "count_loop 0 (unat (width f)) (\<lambda>i. putpixel i y 0x0000FF) t =
      (Ret (), t\<lparr>mem := paint 0x0000FF (concat (map (\<lambda>x. [pixel_address (fb_ptr s) (pitch f) (of_nat x) y]) [0..<unat (width f)])) (mem t)\<rparr>)"
    if "framebuffer t = Some f" "fb_ptr t = fb_ptr s" for t :: "'a fb_state_scheme" and y
    using count_loop_paint [where fo = "Some f" and fb = "fb_ptr s" and F = "\<lambda>i. putpixel i y 0x0000FF" and c = "0x0000FF"
        and addrs = "\<lambda>x. [pixel_address (fb_ptr s) (pitch f) x y]" and i = 0, OF putpixel_paint that] by simp
  from count_loop_paint [where fo = "Some f" and fb = "fb_ptr s" and i = 0 and k = "unat (height f)", OF this assms(1) refl]
  show ?thesis using assms(2) by (simp add: draw_screen_def pixels_by_line_def)
qed

lemma kmain_fill_paint:
  assumes "framebuffer s = Some f" "width f \<le> 0xFFFFFFFF" "height f \<le> 0xFFFFFFFF"
  shows "kmain_fill s = (Ret (), s\<lparr>mem := paint 0x00FFFF (pixels_by_column (fb_ptr s) f) (mem s)\<rparr>)"
proof -
  have "count32_loop (height f) (\<lambda>y. putpixel x y 0x00FFFF) t =
      (Ret (), t\<lparr>mem := paint 0x00FFFF (concat (map (\<lambda>y. [pixel_address (fb_ptr s) (pitch f) x (of_nat y)]) [0..<unat (height f)])) (mem t)\<rparr>)"
    if "framebuffer t = Some f" "fb_ptr t = fb_ptr s" for t :: "'a fb_state_scheme" and x
    using count_loop_paint [where fo = "Some f" and fb = "fb_ptr s" and F = "\<lambda>y. putpixel x y 0x00FFFF" and c = "0x00FFFF"
        and addrs = "\<lambda>y. [pixel_address (fb_ptr s) (pitch f) x y]" and i = 0, OF putpixel_paint that] assms(3)
    by (simp add: count32_loop_def)
  from count_loop_paint [where fo = "Some f" and fb = "fb_ptr s" and i = 0 and k = "unat (width f)", OF this assms(1) refl]
  show ?thesis using assms(1,2) by (simp add: kmain_fill_def count32_loop_def pixels_by_column_def)
qed

section \<open>Properties\<close>

text \<open>Theorem: the fill loop of \<open>kmain\<close> sets every pixel of the screen to the colour and writes nothing
  outside the frame buffer, for every geometry in which a line fits the pitch.\<close>

theorem kmain_fills_the_screen:
  assumes "framebuffer s = Some f" and "fb_sane f" and "width f \<le> 0xFFFFFFFF" and "height f \<le> 0xFFFFFFFF"
  shows "\<exists>m. kmain_fill s = (Ret (), s\<lparr>mem := m\<rparr>) \<and> screen_filled (fb_ptr s) f 0x00FFFF m \<and>
     (\<forall>a. in_range (fb_ptr s) (unat (pitch f) * unat (height f)) a \<or> m a = mem s a)"
  using kmain_fill_paint [OF assms(1,3,4)] pixels_filled [OF assms(2)] by blast

text \<open>Theorem: a panic after \<open>set_up_framebuffer\<close> on a CPU that is not parked turns the whole screen blue and
  resets the machine with interrupts off.\<close>

theorem panic_blue_screen:
  assumes "framebuffer s = Some f" and "RequestFrameBuffer 0 s = Some f" and "fb_sane f"
    and "\<not> cpu_parked s"
  shows "\<exists>s'. panic msg code s = (Stopped, s') \<and> rebooted s' \<and> \<not> iflag s' \<and>
     screen_filled (fb_ptr s) f 0x0000FF (mem s') \<and>
     klog s' = klog s @ [LogStr_call ''panic'' ''Yo panic rn everybody chill yo'',
       LogfStr_call ''panic'' ([CHR 0x0A] @ ''Panic: %s code %u'') [StrArg msg, IntArg (ucast code)]]"
proof -
  define s1 where "s1 = LogfStr_event ''panic'' ([CHR 0x0A] @ ''Panic: %s code %u'') [StrArg msg, IntArg (ucast code)]
     (LogStr_event ''panic'' ''Yo panic rn everybody chill yo'' (cpu_stop_interrupts s))"
  have f: "framebuffer s1 = Some f" "RequestFrameBuffer 0 s1 = Some f" "fb_ptr s1 = fb_ptr s" "\<not> iflag s1"
    "klog s1 = klog s @ [LogStr_call ''panic'' ''Yo panic rn everybody chill yo'',
       LogfStr_call ''panic'' ([CHR 0x0A] @ ''Panic: %s code %u'') [StrArg msg, IntArg (ucast code)]]"
    using assms(1,2) by (simp_all add: s1_def LogfStr_event_def LogStr_event_def cpu_stop_interrupts_def RequestFrameBuffer_def)
  have "cpu_parked (LogStr_event ''panic'' ''Yo panic rn everybody chill yo'' (cpu_stop_interrupts s)) = cpu_parked s"
    by (simp add: cpu_parked_def LogStr_event_def cpu_stop_interrupts_def ispercpuready_iff percpu_read_def percpu_offsetof_def)
  with assms(4) have np: "\<not> cpu_parked (LogStr_event ''panic'' ''Yo panic rn everybody chill yo'' (cpu_stop_interrupts s))"
    by simp
  have "panic msg code s = (seq draw_screen triple_fault) s1"
    unfolding panic_def s1_def using np by (simp add: routine_simps bind_def)
  with draw_screen_paint [OF f(1,2)] pixels_filled [OF assms(3)] f(3,4,5) show ?thesis
    by (simp add: seq_def bind_def triple_fault_def)
qed

text \<open>Theorem: a panic before \<open>kmain\<close> has set up the frame buffer never resets the machine: drawing the first
  pixel reads through the null pointer, the CPU halts in the fault handler.\<close>

theorem panic_before_kmain_hangs:
  assumes "framebuffer s = None" and "fb_response s = Some (f # fs)" and "0 < width f" and "0 < height f"
    and "\<not> rebooted s"
  shows "\<exists>s'. panic msg code s = (Stopped, s') \<and> \<not> rebooted s'"
proof -
  obtain w h where wh: "unat (width f) = Suc w" "unat (height f) = Suc h"
    using assms(3,4) by (metis gr0_implies_Suc unat_gt_0 word_neq_0_conv)
  have "draw_screen t = (Stopped, t)" if "framebuffer t = None" "fb_response t = Some (f # fs)" for t :: "'a fb_state_scheme"
    using that wh by (simp add: draw_screen_def RequestFrameBuffer_def seq_def bind_def putpixel_def null_fault_def stop_with_def)
  then show ?thesis
    using assms(1,2,5)
    by (simp add: panic_def routine_simps bind_def LogfStr_event_def LogStr_event_def cpu_stop_interrupts_def)
qed

definition small_fb :: limine_framebuffer where
  "small_fb = \<lparr>fb_address = 0xFFFF8000E0000000, width = 2, height = 3, pitch = 16, bpp = 32, memory_model = 1,
     red_mask_size = 8, red_mask_shift = 16, green_mask_size = 8, green_mask_shift = 8, blue_mask_size = 8,
     blue_mask_shift = 0, edid_size = 0, edid = 0, mode_count = 0, modes = 0\<rparr>"

definition screen_test :: fb_state where
  "screen_test = nmi_state.extend (nmi_test\<lparr>msr := (\<lambda>_. 0)\<rparr>)
     \<lparr>fb_response = Some [small_fb], framebuffer = Some small_fb, fb_ptr = 0xFFFF8000E0000000, frame_pointer = 0,
      rebooted = False\<rparr>"

lemma screen_test_fields:
  "framebuffer screen_test = Some small_fb" "fb_response screen_test = Some [small_fb]" "rebooted screen_test = False"
  "RequestFrameBuffer 0 screen_test = Some small_fb" "msr screen_test = (\<lambda>_. 0)"
  by (simp_all add: screen_test_def nmi_state.extend_def RequestFrameBuffer_def)

lemma small_fb_sane: "fb_sane small_fb"
  by (simp add: fb_sane_def small_fb_def)

theorem kmain_fills_the_screen_witness:
  "\<exists>m. kmain_fill screen_test = (Ret (), screen_test\<lparr>mem := m\<rparr>) \<and> screen_filled (fb_ptr screen_test) small_fb 0x00FFFF m \<and>
     (\<forall>a. in_range (fb_ptr screen_test) (unat (pitch small_fb) * unat (height small_fb)) a \<or> m a = mem screen_test a)"
  by (rule kmain_fills_the_screen [OF screen_test_fields(1) small_fb_sane]) (simp_all add: small_fb_def)

theorem panic_blue_screen_witness:
  "\<exists>s'. panic ''bad'' STATUS_NOMEM screen_test = (Stopped, s') \<and> rebooted s' \<and> \<not> iflag s' \<and>
     screen_filled (fb_ptr screen_test) small_fb 0x0000FF (mem s') \<and>
     klog s' = klog screen_test @ [LogStr_call ''panic'' ''Yo panic rn everybody chill yo'',
       LogfStr_call ''panic'' ([CHR 0x0A] @ ''Panic: %s code %u'') [StrArg ''bad'', IntArg (ucast STATUS_NOMEM)]]"
  by (rule panic_blue_screen [OF screen_test_fields(1,4) small_fb_sane])
    (simp add: cpu_parked_def ispercpuready_iff screen_test_fields)

theorem panic_before_kmain_hangs_witness:
  "\<exists>s'. panic ''bad'' STATUS_NOMEM (screen_test\<lparr>framebuffer := None\<rparr>) = (Stopped, s') \<and> \<not> rebooted s'"
  by (rule panic_before_kmain_hangs [where f = small_fb and fs = "[]"])
    (simp_all add: screen_test_fields small_fb_def)

end
