(* ===== verification/Watchdog.thy ===== *)
theory Watchdog
  imports Screen
begin

text \<open>
  The watchdog of the boot CPU, \<^verbatim>\<open>watchdog/dog.c\<close>: it sends an interrupt to every other CPU in turn, waits,
  and gets angrier with those whose handler has not set the flag in their per-CPU area. Whether a
  CPU answers in time is the choice of the environment (\<open>answered\<close>). The endless loop is modelled by
  its first \<open>n\<close> rounds. The lemmas show when exactly a silent CPU brings the system down, that an
  answer in time always clears the record, and which CPUs are watched at all.
\<close>

section \<open>Operations\<close>

text \<open>The fields of \<open>struct watchdog\<close>.\<close>

definition dog_anger :: u64 where "dog_anger = 0"
definition dog_hard_time :: u64 where "dog_hard_time = 1"
definition dog_here :: u64 where "dog_here = 2"

definition watchdog_handler :: "('a intr_state_scheme, unit) routine" where
  "watchdog_handler =
     seq (modify (\<lambda>s. s\<lparr>mem := store8 (mem s) (percpu_offsetof V_dog s + rdmsr MSR_GS_BASE s + dog_here) 1\<rparr>))
         send_eoi"

text \<open>The delay loop only passes time.\<close>

definition delay_bad :: "u32 \<Rightarrow> ('s, unit) routine" where
  "delay_bad v = return ()"

text \<open>One CPU's turn. The offsets are kept in 32-bit variables.\<close>

definition dog_address :: "nat \<Rightarrow> 'a intr_state_scheme \<Rightarrow> u64" where
  "dog_address i s = cpu_percpu s ! i + ucast (ucast (percpu_offsetof V_dog s) :: u32)"

definition watched_id :: "nat \<Rightarrow> 'a intr_state_scheme \<Rightarrow> u32" where
  "watched_id i s = load32 (mem s) (cpu_percpu s ! i + ucast (ucast (percpu_offsetof V_cpu_id s) :: u32))"

definition judge :: "nat \<Rightarrow> ('a intr_state_scheme, unit) routine" where
  "judge i s =
     (let d = dog_address i s;
          anger = (if load8 (mem s) (d + dog_here) = 0
                   then load8 (mem s) (d + dog_anger) + (if load8 (mem s) (d + dog_hard_time) \<noteq> 0 then 1 else 10)
                   else 0);
          s1 = s\<lparr>mem := store8 (mem s) (d + dog_anger) anger\<rparr>
      in if 200 \<le> anger then
           (Panic ''cpu not responding'' STATUS_LOCKUP,
            LogfStr_event ''dog:'' (''cpu %u is not responding '' @ [CHR 0x0A]) [IntArg (ucast (watched_id i s1))] s1)
         else if 100 < anger then
           (Ret (), LogfStr_event ''Dog:''
              (''cpu %i not responding will take action if still uncorrected (anger = %u)'' @ [CHR 0x0A])
              [IntArg (ucast (watched_id i s1)), IntArg (ucast anger)] s1)
         else (Ret (), s1))"

definition watch_cpu :: "bool \<Rightarrow> nat \<Rightarrow> ('a intr_state_scheme, unit) routine" where
  "watch_cpu answered i =
     (if i = 0 then return ()
      else
        seq (modify (\<lambda>s. s\<lparr>mem := store8 (mem s) (dog_address i s + dog_here) 0\<rparr>))
       (bind (gets (watched_id i)) (\<lambda>ident.
        bind (send_ipi 0x30 ident) (\<lambda>_.
        seq (delay_bad 100)
       (seq (modify (\<lambda>s. if answered then s\<lparr>mem := store8 (mem s) (dog_address i s + dog_here) 1\<rparr> else s))
            (judge i))))))"

definition count_cpus :: "'a percpu_state_scheme \<Rightarrow> u8" where
  "count_cpus s = fold (\<lambda>i n. if cpu_percpu s ! i \<noteq> 0 then n + 1 else n) [1..<64] 0"

text \<open>A round: the CPUs 0 to \<open>cpus\<close> in turn; \<open>answers i\<close> says whether CPU \<open>i\<close> answers.\<close>

primrec watch_round :: "(nat \<Rightarrow> bool) \<Rightarrow> nat \<Rightarrow> nat \<Rightarrow> ('a intr_state_scheme, unit) routine" where
  "watch_round answers i 0 = return ()"
| "watch_round answers i (Suc k) = seq (watch_cpu (answers i) i) (watch_round answers (Suc i) k)"

primrec watch_rounds :: "(nat \<Rightarrow> nat \<Rightarrow> bool) \<Rightarrow> nat \<Rightarrow> nat \<Rightarrow> nat \<Rightarrow> ('a intr_state_scheme, unit) routine" where
  "watch_rounds answers cpus r 0 = return ()"
| "watch_rounds answers cpus r (Suc n) =
     seq (watch_round (answers r) 0 (Suc cpus))
    (seq (delay_bad 1000000) (watch_rounds answers cpus (Suc r) n))"

definition jump_to_watchdog :: "(nat \<Rightarrow> nat \<Rightarrow> bool) \<Rightarrow> nat \<Rightarrow> ('a intr_state_scheme, unit) routine" where
  "jump_to_watchdog answers n = bind (gets count_cpus) (\<lambda>cpus. watch_rounds answers (unat cpus) 0 n)"

section \<open>Which CPUs are watched\<close>

definition registered_cpus :: "'a percpu_state_scheme \<Rightarrow> nat set" where
  "registered_cpus s = {i. 1 \<le> i \<and> i < 64 \<and> cpu_percpu s ! i \<noteq> 0}"

definition watched_cpus :: "'a percpu_state_scheme \<Rightarrow> nat set" where
  "watched_cpus s = {1..unat (count_cpus s)}"

lemma fold_count:
  "fold (\<lambda>i n. if P i then n + 1 else n) xs (of_nat k :: u8) = of_nat (k + length (filter P xs))"
proof (induction xs arbitrary: k)
  case (Cons x xs)
  then show ?case using Cons [of "Suc k"] by (simp add: add_ac)
qed simp

lemma unat_count_cpus: "unat (count_cpus s) = card (registered_cpus s)"
proof -
  let ?f = "filter (\<lambda>i. cpu_percpu s ! i \<noteq> 0) [1..<64]"
  have "count_cpus s = of_nat (length ?f)" using fold_count [of _ "[1..<64]" 0] by (simp add: count_cpus_def)
  moreover have "length ?f \<le> 63" by (rule order_trans [OF length_filter_le]) simp
  moreover have "length ?f = card (set ?f)" by (intro distinct_card [symmetric]) simp
  moreover have "set ?f = registered_cpus s" by (auto simp: registered_cpus_def)
  ultimately show ?thesis by (simp add: unat_of_nat take_bit_eq_mod)
qed

definition gapless :: "'a percpu_state_scheme \<Rightarrow> bool" where
  "gapless s \<longleftrightarrow> (\<forall>i j. i \<in> registered_cpus s \<and> 1 \<le> j \<and> j < i \<longrightarrow> j \<in> registered_cpus s)"

text \<open>Theorem: the watchdog walks the indices from 1 up to the number of registered CPUs. So it watches exactly
  the registered CPUs if and only if they occupy a gapless range; with a gap it reads the null
  entry as a per-CPU area and leaves out the last CPUs.\<close>

theorem watchdog_watches_gapless:
  "watched_cpus s = registered_cpus s \<longleftrightarrow> gapless s"
proof -
  let ?R = "registered_cpus s"
  have fin: "finite ?R" by (rule finite_subset [of _ "{..<64}"]) (auto simp: registered_cpus_def)
  show ?thesis unfolding gapless_def
  proof
    assume "watched_cpus s = ?R"
    then have r: "?R = {1..unat (count_cpus s)}" by (simp add: watched_cpus_def)
    show "\<forall>i j. i \<in> ?R \<and> 1 \<le> j \<and> j < i \<longrightarrow> j \<in> ?R" unfolding r by auto
  next
    assume gapless: "\<forall>i j. i \<in> ?R \<and> 1 \<le> j \<and> j < i \<longrightarrow> j \<in> ?R"
    show "watched_cpus s = ?R"
    proof (cases "?R = {}")
      case True
      then show ?thesis by (simp add: watched_cpus_def unat_count_cpus)
    next
      case False
      have "?R = {1..Max ?R}"
      proof (intro equalityI subsetI)
        fix j assume "j \<in> ?R"
        then show "j \<in> {1..Max ?R}" using Max_ge [OF fin, of j] by (simp add: registered_cpus_def)
      next
        fix j assume j: "j \<in> {1..Max ?R}"
        show "j \<in> ?R"
        proof (cases "j = Max ?R")
          case True
          then show ?thesis using Max_in [OF fin False] by simp
        next
          case False
          with j have "1 \<le> j" "j < Max ?R" by simp_all
          then show ?thesis using gapless Max_in [OF fin \<open>?R \<noteq> {}\<close>] by blast
        qed
      qed
      then obtain m where m: "?R = {1..m}" by (rule that)
      show ?thesis unfolding watched_cpus_def unat_count_cpus m by simp
    qed
  qed
qed

section \<open>When the watchdog acts\<close>

text \<open>The record of CPU \<open>i\<close>.\<close>

definition anger_of :: "nat \<Rightarrow> 'a intr_state_scheme \<Rightarrow> u8" where
  "anger_of i s = load8 (mem s) (dog_address i s + dog_anger)"

definition hard_time :: "nat \<Rightarrow> 'a intr_state_scheme \<Rightarrow> bool" where
  "hard_time i s \<longleftrightarrow> load8 (mem s) (dog_address i s + dog_hard_time) \<noteq> 0"

definition x2apic_mode :: "'a machine_scheme \<Rightarrow> bool" where
  "x2apic_mode s \<longleftrightarrow> drop_bit 11 (msr s MSR_IA32_APIC_BASE) AND 1 = 1 \<and> drop_bit 10 (msr s MSR_IA32_APIC_BASE) AND 1 = 1"

lemma dog_slots [simp]:
  "(a :: u64) + dog_here \<noteq> a + dog_anger" "(a :: u64) + dog_here \<noteq> a + dog_hard_time" "(a :: u64) + dog_anger \<noteq> a + dog_hard_time"
  "(a :: u64) + dog_anger \<noteq> a + dog_here" "(a :: u64) + dog_hard_time \<noteq> a + dog_anger"
  "dog_anger \<noteq> dog_here" "dog_hard_time \<noteq> dog_here" "dog_hard_time \<noteq> dog_anger"
  by (simp_all add: dog_here_def dog_anger_def dog_hard_time_def)

lemma dog_address_update [simp]:
  "dog_address i (s\<lparr>mem := m\<rparr>) = dog_address i s" "dog_address i (s\<lparr>msr := r\<rparr>) = dog_address i s"
  "dog_address i (s\<lparr>x2 := b\<rparr>) = dog_address i s" "dog_address i (s\<lparr>klog := k\<rparr>) = dog_address i s"
  by (simp_all add: dog_address_def percpu_offsetof_def)

text \<open>The outcome of one turn, as a function of the record and the answer.\<close>

definition next_anger :: "bool \<Rightarrow> bool \<Rightarrow> u8 \<Rightarrow> u8" where
  "next_anger answered hard a = (if answered then 0 else a + (if hard then 1 else 10))"

lemma watch_cpu_turn:
  assumes "x2apic_mode s" "i \<noteq> 0"
  shows "\<exists>s'. watch_cpu answered i s =
       ((if 200 \<le> next_anger answered (hard_time i s) (anger_of i s)
         then Panic ''cpu not responding'' STATUS_LOCKUP else Ret ()), s') \<and>
     anger_of i s' = next_anger answered (hard_time i s) (anger_of i s) \<and> hard_time i s' = hard_time i s \<and> x2apic_mode s'"
proof -
  define s1 where "s1 = s\<lparr>mem := store8 (mem s) (dog_address i s + dog_here) 0\<rparr>"
  define s2 where "s2 = s1\<lparr>msr := (msr s1)(MSR_X2APIC_ICR := push_bit 32 (ucast (watched_id i s1)) OR ucast (0x30 :: u8)), x2 := True\<rparr>"
  define s3 where "s3 = (if answered then s2\<lparr>mem := store8 (mem s2) (dog_address i s2 + dog_here) 1\<rparr> else s2)"
  define a where "a = next_anger answered (hard_time i s) (anger_of i s)"
  have ne: "MSR_X2APIC_ICR \<noteq> MSR_IA32_APIC_BASE" by (simp add: MSR_X2APIC_ICR_def MSR_IA32_APIC_BASE_def)
  have ipi: "send_ipi 0x30 (watched_id i s1) s1 = (Ret 0, s2)"
    unfolding s2_def using assms(1) by (intro send_ipi_x2apic) (simp_all add: s1_def x2apic_mode_def)
  have run: "watch_cpu answered i s = judge i s3"
    using assms(2) ipi by (simp add: watch_cpu_def routine_simps bind_def s1_def s3_def delay_bad_def)
  have d: "dog_address i s3 = dog_address i s" by (simp add: s3_def s2_def s1_def)
  have here: "(load8 (mem s3) (dog_address i s + dog_here) = 0) = (\<not> answered)"
    by (simp add: s3_def s2_def s1_def load8_def store8_def)
  have rest: "load8 (mem s3) (dog_address i s + dog_anger) = anger_of i s"
    "load8 (mem s3) (dog_address i s + dog_hard_time) \<noteq> 0 \<longleftrightarrow> hard_time i s"
    by (simp_all add: s3_def s2_def s1_def load8_def store8_def anger_of_def hard_time_def)
  define s4 where "s4 = s3\<lparr>mem := store8 (mem s3) (dog_address i s + dog_anger) a\<rparr>"
  have s4: "anger_of i s4 = a" "hard_time i s4 = hard_time i s" "x2apic_mode s4"
    using assms(1) ne d by (simp_all add: s4_def s3_def s2_def s1_def anger_of_def hard_time_def load8_def store8_def x2apic_mode_def)
  have log: "anger_of i (LogfStr_event md f as s4) = anger_of i s4" "hard_time i (LogfStr_event md f as s4) = hard_time i s4"
    "x2apic_mode (LogfStr_event md f as s4) = x2apic_mode s4" for md f as
    by (simp_all add: LogfStr_event_def anger_of_def hard_time_def x2apic_mode_def)
  have j: "\<exists>s'. judge i s3 = ((if 200 \<le> a then Panic ''cpu not responding'' STATUS_LOCKUP else Ret ()), s') \<and>
      (s' = s4 \<or> (\<exists>md f as. s' = LogfStr_event md f as s4))"
    unfolding judge_def d Let_def here rest by (auto simp: a_def next_anger_def s4_def)
  then obtain s' where "judge i s3 = ((if 200 \<le> a then Panic ''cpu not responding'' STATUS_LOCKUP else Ret ()), s')"
    "s' = s4 \<or> (\<exists>md f as. s' = LogfStr_event md f as s4)" by blast
  with run s4 log show ?thesis unfolding a_def by auto
qed

text \<open>\<open>k\<close> turns of CPU \<open>i\<close> in a row without an answer.\<close>

primrec silent_turns :: "nat \<Rightarrow> nat \<Rightarrow> ('a intr_state_scheme, unit) routine" where
  "silent_turns i 0 = return ()"
| "silent_turns i (Suc k) = seq (silent_turns i k) (watch_cpu False i)"

lemma silent_turns_anger:
  assumes "x2apic_mode s" "i \<noteq> 0" "anger_of i s = 0" "k * (if hard_time i s then 1 else 10) < 200"
  shows "\<exists>s'. silent_turns i k s = (Ret (), s') \<and> unat (anger_of i s') = k * (if hard_time i s then 1 else 10) \<and>
     hard_time i s' = hard_time i s \<and> x2apic_mode s'"
  using assms(4)
proof (induction k)
  case 0
  then show ?case using assms by (simp add: return_def)
next
  case (Suc k)
  let ?d = "if hard_time i s then 1 else 10 :: nat"
  have "k * ?d < 200" using Suc.prems by simp
  then obtain s1 where s1: "silent_turns i k s = (Ret (), s1)" "unat (anger_of i s1) = k * ?d" "hard_time i s1 = hard_time i s"
    "x2apic_mode s1" using Suc.IH by blast
  obtain s2 where s2: "watch_cpu False i s1 =
       ((if 200 \<le> next_anger False (hard_time i s1) (anger_of i s1)
         then Panic ''cpu not responding'' STATUS_LOCKUP else Ret ()), s2)"
    "anger_of i s2 = next_anger False (hard_time i s1) (anger_of i s1)" "hard_time i s2 = hard_time i s1" "x2apic_mode s2"
    using watch_cpu_turn [OF s1(4) assms(2), of False] by blast
  have u: "unat (next_anger False (hard_time i s1) (anger_of i s1)) = Suc k * ?d"
    using s1(2,3) Suc.prems by (cases "hard_time i s") (simp_all add: next_anger_def unat_word_ariths)
  then have "\<not> 200 \<le> next_anger False (hard_time i s1) (anger_of i s1)" using Suc.prems by (simp add: word_le_nat_alt)
  with s2 s1 u show ?case by (simp add: seq_def bind_def)
qed

text \<open>Property C33: a CPU that stops answering brings the system down at its 20th unanswered turn, or at its 200th
  while it is marked as having a hard time, and not one turn earlier.\<close>

theorem watchdog_panics_on_time:
  assumes "x2apic_mode s" and "i \<noteq> 0" and "anger_of i s = 0" and "k = (if hard_time i s then 200 else 20)"
  shows "(\<exists>s'. silent_turns i (k - 1) s = (Ret (), s')) \<and>
     (\<exists>s'. silent_turns i k s = (Panic ''cpu not responding'' STATUS_LOCKUP, s'))"
proof -
  let ?d = "if hard_time i s then 1 else 10 :: nat"
  have k: "k = Suc (k - 1)" "(k - 1) * ?d < 200" "k * ?d = 200" using assms(4) by auto
  obtain s1 where s1: "silent_turns i (k - 1) s = (Ret (), s1)" "unat (anger_of i s1) = (k - 1) * ?d"
    "hard_time i s1 = hard_time i s" "x2apic_mode s1"
    using silent_turns_anger [OF assms(1-3) k(2)] by blast
  have "unat (next_anger False (hard_time i s1) (anger_of i s1)) = 200"
    using s1(2,3) assms(4) by (cases "hard_time i s") (simp_all add: next_anger_def unat_word_ariths)
  then have "200 \<le> next_anger False (hard_time i s1) (anger_of i s1)" by (simp add: word_le_nat_alt)
  then obtain s2 where "watch_cpu False i s1 = (Panic ''cpu not responding'' STATUS_LOCKUP, s2)"
    using watch_cpu_turn [OF s1(4) assms(2), of False] by auto
  with s1(1) have "silent_turns i (Suc (k - 1)) s = (Panic ''cpu not responding'' STATUS_LOCKUP, s2)"
    by (simp add: seq_def bind_def)
  with s1(1) k(1) show ?thesis by auto
qed

text \<open>Theorem: a CPU that answers in its turn is never the cause of a panic, and its record is cleared.\<close>

theorem watchdog_answer_clears:
  assumes "x2apic_mode s" and "i \<noteq> 0"
  shows "\<exists>s'. watch_cpu True i s = (Ret (), s') \<and> anger_of i s' = 0"
  using watch_cpu_turn [OF assms, of True] by (auto simp: next_anger_def)

definition dog_test :: fb_state where
  "dog_test = screen_test\<lparr>cpu_percpu := replicate 64 0x8000, msr := (\<lambda>_. 0xC00), mem := (\<lambda>_. 0)\<rparr>"

lemma dog_test_ok: "x2apic_mode dog_test" "anger_of 1 dog_test = 0" "\<not> hard_time 1 dog_test"
  by (simp_all add: dog_test_def x2apic_mode_def anger_of_def hard_time_def load8_def)

theorem watchdog_panics_on_time_witness:
  "(\<exists>s'. silent_turns 1 19 dog_test = (Ret (), s')) \<and>
   (\<exists>s'. silent_turns 1 20 dog_test = (Panic ''cpu not responding'' STATUS_LOCKUP, s'))"
  using watchdog_panics_on_time [OF dog_test_ok(1) _ dog_test_ok(2), of 20] dog_test_ok(3) by simp

theorem watchdog_answer_clears_witness: "\<exists>s'. watch_cpu True 1 dog_test = (Ret (), s') \<and> anger_of 1 s' = 0"
  by (rule watchdog_answer_clears) (simp_all add: dog_test_ok)

end
