(* ===== verification/Drivers.thy ===== *)
theory Drivers
  imports Watchdog
begin

text \<open>
  The driver registry of \<^verbatim>\<open>drivers/management\<close> and the two drivers that register themselves,
  \<^verbatim>\<open>drivers/disk/achi.c\<close> and the registration part of \<^verbatim>\<open>drivers/hda/hda.c\<close>. A driver is the record of its
  functions; what a probe or an attach does besides returning is to log, so the functions return
  the log calls they make. The locale \<open>pci_driver\<close> states what a driver promises the bus scan; both
  drivers are interpreted in it.
\<close>

section \<open>Devices and drivers\<close>

record pci_device =
  bus :: u8
  device_number :: u8
  function_number :: u8
  vendor_id :: u16
  device_id :: u16
  class_code :: u8
  subclass_code :: u8
  prog_if :: u8
  header_type :: u8
  bar :: "u64 list"

datatype device_type_t = DEV_TYPE_ROOT | DEV_TYPE_BUS | DEV_TYPE_CONTROLLER | DEV_TYPE_DISK | DEV_TYPE_INPUT

record device_t =
  dev_name :: string
  dev_type :: device_type_t
  parent :: u64
  first_child :: u64
  next_sibling :: u64
  dev_pci :: pci_device
  dev_driver :: u64

record driver_t =
  drv_name :: string
  drv_probe :: "device_t \<Rightarrow> bool \<times> log_event list"
  drv_attach :: "device_t \<Rightarrow> bool \<times> log_event list"
  drv_detach :: "device_t \<Rightarrow> bool \<times> log_event list"

definition MAX_DRIVERS :: nat where "MAX_DRIVERS = 128"

text \<open>The array with its counter \<open>driver_count\<close> is the list of its first entries.\<close>

record driver_state = fb_state +
  registered_drivers :: "driver_t list"

definition log_calls :: "log_event list \<Rightarrow> 'a machine_scheme \<Rightarrow> 'a machine_scheme" where
  "log_calls es s = s\<lparr>klog := klog s @ es\<rparr>"

section \<open>The registry\<close>

text \<open>The message for a full registry is passed as the module name, and the driver's name as the format.\<close>

definition RegisterDriver :: "driver_t \<Rightarrow> 'a driver_state_scheme \<Rightarrow> 'a driver_state_scheme" where
  "RegisterDriver driver s =
     (if length (registered_drivers s) < MAX_DRIVERS
      then s\<lparr>registered_drivers := registered_drivers s @ [driver]\<rparr>
      else LogfStr_event ''Driver %s couldent be loaded because all driver spots are full'' (drv_name driver) [] s)"

section \<open>The AHCI driver\<close>

definition achi_attach :: "device_t \<Rightarrow> bool \<times> log_event list" where
  "achi_attach dev = (True, replicate 10 (LogStr_call ''generic achi'' (''I will not write bad code'' @ [CHR 0x0A])))"

definition achi_detach :: "device_t \<Rightarrow> bool \<times> log_event list" where
  "achi_detach dev = (True, [])"

definition achi_probe :: "device_t \<Rightarrow> bool \<times> log_event list" where
  "achi_probe dev =
     (let pci = dev_pci dev
      in if class_code pci = 0x01 \<and> subclass_code pci = 0x06 \<and> prog_if pci = 0x01 then (True, [])
         else if class_code pci = 0x01 \<and> subclass_code pci = 0x06 \<and> prog_if pci = 0x00 then
           (False, [LogStr_call ''generic achi'' (''ahci device is not normal (banned)(prog if = 0) '' @ [CHR 0x0A])])
         else (False, []))"

definition achi_driver :: driver_t where
  "achi_driver = \<lparr>drv_name = ''Generic dej achi driver'', drv_probe = achi_probe, drv_attach = achi_attach,
     drv_detach = achi_detach\<rparr>"

definition achi_init :: "'a driver_state_scheme \<Rightarrow> 'a driver_state_scheme" where
  "achi_init s = LogStr_event ''generic achi'' (''Registered driver succesfully'' @ [CHR 0x0A]) (RegisterDriver achi_driver s)"

section \<open>The HD audio driver\<close>

definition hda_probe :: "device_t \<Rightarrow> bool \<times> log_event list" where
  "hda_probe d = (class_code (dev_pci d) = 4 \<and> subclass_code (dev_pci d) = 3, [])"

definition hda_attach :: "device_t \<Rightarrow> bool \<times> log_event list" where
  "hda_attach d = (True, [LogStr_call ''generic hda'' (''Attached to device'' @ [CHR 0x0A])])"

definition hda_detach :: "device_t \<Rightarrow> bool \<times> log_event list" where
  "hda_detach d = (True, [])"

definition hda_driver :: driver_t where
  "hda_driver = \<lparr>drv_name = ''generic hda'', drv_probe = hda_probe, drv_attach = hda_attach, drv_detach = hda_detach\<rparr>"

definition hda_init :: "'a driver_state_scheme \<Rightarrow> 'a driver_state_scheme" where
  "hda_init s = RegisterDriver hda_driver s"

definition load_drivers :: "'a driver_state_scheme \<Rightarrow> 'a driver_state_scheme" where
  "load_drivers s = hda_init (achi_init s)"

section \<open>Offering a device\<close>

text \<open>The inner loop of the bus scan: every registered driver is asked, also after one has attached. The
  flag of the result says whether some driver attached.\<close>

primrec offer_device :: "device_t \<Rightarrow> driver_t list \<Rightarrow> bool \<Rightarrow> log_event list \<Rightarrow> bool \<times> log_event list" where
  "offer_device dev [] found es = (found, es)"
| "offer_device dev (d # ds) found es =
     (let (yes, es1) = drv_probe d dev
      in if yes then
           (let (ok, es2) = drv_attach d dev in offer_device dev ds (found \<or> ok) (es @ es1 @ es2))
         else offer_device dev ds found (es @ es1))"

section \<open>What a driver promises\<close>

text \<open>A driver decides by the class triple alone, and attaches to what it accepts.\<close>

locale pci_driver =
  fixes drv :: driver_t
    and accepts :: "u8 \<Rightarrow> u8 \<Rightarrow> u8 \<Rightarrow> bool"
  assumes probe_law: "fst (drv_probe drv d) = accepts (class_code (dev_pci d)) (subclass_code (dev_pci d)) (prog_if (dev_pci d))"
    and attach_law: "accepts (class_code (dev_pci d)) (subclass_code (dev_pci d)) (prog_if (dev_pci d)) \<Longrightarrow> fst (drv_attach drv d)"
begin

text \<open>A device it accepts is found whatever else is registered, in any position.\<close>

lemma offer_keeps_found: "fst (offer_device dev ds True es)"
  by (induction ds arbitrary: es) (simp_all add: case_prod_unfold Let_def)

lemma offered_is_found:
  assumes "accepts (class_code (dev_pci dev)) (subclass_code (dev_pci dev)) (prog_if (dev_pci dev))"
  shows "fst (offer_device dev (ds1 @ drv # ds2) found es)"
proof (induction ds1 arbitrary: found es)
  case Nil
  then show ?case
    using probe_law [of dev] attach_law [OF assms] assms offer_keeps_found by (simp add: case_prod_unfold Let_def)
next
  case (Cons d ds1)
  then show ?case by (simp add: case_prod_unfold Let_def)
qed

lemma rejected_alone:
  assumes "\<not> accepts (class_code (dev_pci dev)) (subclass_code (dev_pci dev)) (prog_if (dev_pci dev))"
  shows "fst (offer_device dev [drv] found es) = found"
  using probe_law [of dev] assms by (simp add: case_prod_unfold Let_def)

end

definition achi_accepts :: "u8 \<Rightarrow> u8 \<Rightarrow> u8 \<Rightarrow> bool" where
  "achi_accepts c sub p \<longleftrightarrow> c = 0x01 \<and> sub = 0x06 \<and> p = 0x01"

definition hda_accepts :: "u8 \<Rightarrow> u8 \<Rightarrow> u8 \<Rightarrow> bool" where
  "hda_accepts c sub p \<longleftrightarrow> c = 4 \<and> sub = 3"

interpretation achi: pci_driver achi_driver achi_accepts
  by unfold_locales (auto simp: achi_driver_def achi_probe_def achi_attach_def achi_accepts_def Let_def)

interpretation hda: pci_driver hda_driver hda_accepts
  by unfold_locales (auto simp: hda_driver_def hda_probe_def hda_attach_def hda_accepts_def)

section \<open>Properties\<close>

text \<open>Theorem: with the drivers that \<open>load_drivers\<close> registers, a device is claimed exactly when it is an AHCI
  controller or an HD audio controller, and never by both drivers.\<close>

theorem loaded_drivers_claim:
  assumes "registered_drivers s = []"
  shows "fst (offer_device dev (registered_drivers (load_drivers s)) False es) =
       (achi_accepts (class_code (dev_pci dev)) (subclass_code (dev_pci dev)) (prog_if (dev_pci dev)) \<or>
        hda_accepts (class_code (dev_pci dev)) (subclass_code (dev_pci dev)) (prog_if (dev_pci dev))) \<and>
     \<not> (fst (drv_probe achi_driver dev) \<and> fst (drv_probe hda_driver dev))"
proof -
  have l: "registered_drivers (load_drivers s) = [achi_driver] @ hda_driver # []"
    using assms by (simp add: load_drivers_def hda_init_def achi_init_def RegisterDriver_def MAX_DRIVERS_def LogStr_event_def)
  have excl: "\<not> (fst (drv_probe achi_driver dev) \<and> fst (drv_probe hda_driver dev))"
    by (simp add: achi.probe_law hda.probe_law achi_accepts_def hda_accepts_def)
  moreover have "fst (offer_device dev ([achi_driver] @ hda_driver # []) False es) =
       (fst (drv_probe achi_driver dev) \<or> fst (drv_probe hda_driver dev))"
    using achi.attach_law [of dev] hda.attach_law [of dev]
    by (auto simp: case_prod_unfold Let_def achi.probe_law hda.probe_law)
  ultimately show ?thesis unfolding l by (simp add: achi.probe_law hda.probe_law)
qed

text \<open>Theorem: the registry never holds more than 128 drivers, keeps every driver that is in it, and a driver
  that comes too late is dropped with a message whose module and format are mixed up.\<close>

theorem RegisterDriver_bounded:
  assumes "length (registered_drivers s) \<le> MAX_DRIVERS"
  shows "length (registered_drivers (RegisterDriver d s)) \<le> MAX_DRIVERS \<and>
     take (length (registered_drivers s)) (registered_drivers (RegisterDriver d s)) = registered_drivers s \<and>
     (d \<in> set (registered_drivers (RegisterDriver d s)) \<or>
      klog (RegisterDriver d s) = klog s @
        [LogfStr_call ''Driver %s couldent be loaded because all driver spots are full'' (drv_name d) []])"
  using assms by (simp add: RegisterDriver_def LogfStr_event_def)

definition driver_test :: driver_state where
  "driver_test = fb_state.extend screen_test \<lparr>registered_drivers = []\<rparr>"

definition ahci_device :: device_t where
  "ahci_device = \<lparr>dev_name = '''', dev_type = DEV_TYPE_CONTROLLER, parent = 0, first_child = 0, next_sibling = 0,
     dev_pci = \<lparr>bus = 0, device_number = 31, function_number = 2, vendor_id = 0x8086, device_id = 0x2922, class_code = 1,
       subclass_code = 6, prog_if = 1, header_type = 0, bar = replicate 6 0\<rparr>, dev_driver = 0\<rparr>"

theorem loaded_drivers_claim_witness:
  "fst (offer_device ahci_device (registered_drivers (load_drivers driver_test)) False []) =
     (achi_accepts (class_code (dev_pci ahci_device)) (subclass_code (dev_pci ahci_device)) (prog_if (dev_pci ahci_device)) \<or>
      hda_accepts (class_code (dev_pci ahci_device)) (subclass_code (dev_pci ahci_device)) (prog_if (dev_pci ahci_device))) \<and>
   \<not> (fst (drv_probe achi_driver ahci_device) \<and> fst (drv_probe hda_driver ahci_device))"
  by (rule loaded_drivers_claim) (simp add: driver_test_def fb_state.extend_def)

theorem RegisterDriver_bounded_witness:
  "length (registered_drivers (RegisterDriver achi_driver driver_test)) \<le> MAX_DRIVERS \<and>
   take (length (registered_drivers driver_test)) (registered_drivers (RegisterDriver achi_driver driver_test)) =
     registered_drivers driver_test \<and>
   (achi_driver \<in> set (registered_drivers (RegisterDriver achi_driver driver_test)) \<or>
    klog (RegisterDriver achi_driver driver_test) = klog driver_test @
      [LogfStr_call ''Driver %s couldent be loaded because all driver spots are full'' (drv_name achi_driver) []])"
  by (rule RegisterDriver_bounded) (simp add: driver_test_def fb_state.extend_def)

end
