(* ===== verification/AcpiTables.thy ===== *)
theory AcpiTables
  imports Drivers
begin

text \<open>
  System description tables as they lie in memory: the header and the byte sums of
  \<^verbatim>\<open>drivers/acpi/generic.h\<close>, and the root pointer structures of \<^verbatim>\<open>drivers/acpi/generic.c\<close>. A packed
  structure is the record of its fields together with the function that reads it from its address.
\<close>

section \<open>State and structures\<close>

text \<open>The answers of the boot loader to the direct-map and to the root pointer request (the pointer is
  null when there is no answer), and the address of the literal \<open>"MCFG"\<close>.\<close>

record acpi_state = driver_state +
  hhdm_response_offset :: u64
  rsdp_response :: "u64 option"
  mcfg_literal :: u64

definition bytes_at :: "memory \<Rightarrow> u64 \<Rightarrow> nat \<Rightarrow> u8 list" where
  "bytes_at m a n = map (\<lambda>i. m (a + of_nat i)) [0..<n]"

record SDT_header =
  sdt_Signature :: "u8 list"
  sdt_Length :: u32
  sdt_Revision :: u8
  sdt_Checksum :: u8
  sdt_OEMID :: "u8 list"
  sdt_OEMTableID :: "u8 list"
  sdt_OEMRevision :: u32
  sdt_CreatorID :: u32
  sdt_CreatorRevision :: u32

definition read_SDT_header :: "memory \<Rightarrow> u64 \<Rightarrow> SDT_header" where
  "read_SDT_header m a =
     \<lparr>sdt_Signature = bytes_at m a 4, sdt_Length = load32 m (a + 4), sdt_Revision = m (a + 8), sdt_Checksum = m (a + 9),
      sdt_OEMID = bytes_at m (a + 10) 6, sdt_OEMTableID = bytes_at m (a + 16) 8, sdt_OEMRevision = load32 m (a + 24),
      sdt_CreatorID = load32 m (a + 28), sdt_CreatorRevision = load32 m (a + 32)\<rparr>"

definition sdt_header_size :: nat where
  "sdt_header_size = 4 + 4 + 1 + 1 + 6 + 8 + 4 + 4 + 4"

record RSDP_t =
  rsdp_Signature :: "u8 list"
  rsdp_Checksum :: u8
  rsdp_OEMID :: "u8 list"
  rsdp_Revision :: u8
  rsdp_RsdtAddress :: u32

definition read_RSDP :: "memory \<Rightarrow> u64 \<Rightarrow> RSDP_t" where
  "read_RSDP m a =
     \<lparr>rsdp_Signature = bytes_at m a 8, rsdp_Checksum = m (a + 8), rsdp_OEMID = bytes_at m (a + 9) 6,
      rsdp_Revision = m (a + 15), rsdp_RsdtAddress = load32 m (a + 16)\<rparr>"

record XSDP_t = RSDP_t +
  xsdp_Length :: u32
  xsdp_XsdtAddress :: u64
  xsdp_ExtendedChecksum :: u8
  xsdp_reserved :: "u8 list"

definition read_XSDP :: "memory \<Rightarrow> u64 \<Rightarrow> XSDP_t" where
  "read_XSDP m a =
     RSDP_t.extend (read_RSDP m a)
       \<lparr>xsdp_Length = load32 m (a + 20), xsdp_XsdtAddress = load64 m (a + 24), xsdp_ExtendedChecksum = m (a + 32),
        xsdp_reserved = bytes_at m (a + 33) 3\<rparr>"

section \<open>Operations\<close>

definition phys2virt32 :: "u32 \<Rightarrow> 'a acpi_state_scheme \<Rightarrow> u64" where
  "phys2virt32 addr s = ucast addr + hhdm_response_offset s"

definition phys2virt64 :: "u64 \<Rightarrow> 'a acpi_state_scheme \<Rightarrow> u64" where
  "phys2virt64 addr s = addr + hhdm_response_offset s"

primrec sum_loop :: "memory \<Rightarrow> u64 \<Rightarrow> nat \<Rightarrow> nat \<Rightarrow> u8 \<Rightarrow> u8" where
  "sum_loop m bytes i 0 acc = acc"
| "sum_loop m bytes i (Suc k) acc = sum_loop m bytes (Suc i) k (acc + m (bytes + of_nat i))"

definition check_rsdpsum :: "memory \<Rightarrow> u64 \<Rightarrow> bool" where
  "check_rsdpsum m r \<longleftrightarrow> sum_loop m r 0 20 0 = 0"

definition check_genericsum :: "memory \<Rightarrow> u64 \<Rightarrow> bool" where
  "check_genericsum m r \<longleftrightarrow> sum_loop m r 0 (unat (sdt_Length (read_SDT_header m r))) 0 = 0"

section \<open>Properties\<close>

lemma sum_loop_eq: "sum_loop m b i k acc = acc + (\<Sum>j\<leftarrow>[i..<i + k]. m (b + of_nat j))"
proof (induction k arbitrary: i acc)
  case (Suc k)
  then show ?case using upt_conv_Cons [of i "i + Suc k"] by (simp add: add.assoc)
qed simp

lemma sum_list_bytes: "(\<Sum>j\<leftarrow>[0..<n]. m (b + of_nat j)) = sum_list (bytes_at m b n)"
  by (simp add: bytes_at_def)

lemma check_rsdpsum_iff: "check_rsdpsum m r \<longleftrightarrow> sum_list (bytes_at m r 20) = 0"
  by (simp add: check_rsdpsum_def sum_loop_eq sum_list_bytes)

lemma check_genericsum_iff:
  "check_genericsum m r \<longleftrightarrow> sum_list (bytes_at m r (unat (load32 m (r + 4)))) = 0"
  by (simp add: check_genericsum_def sum_loop_eq sum_list_bytes read_SDT_header_def)

lemma bytes_at_update:
  assumes "i < n" "n \<le> 2 ^ 64"
  shows "bytes_at (m(r + of_nat i := v)) r n = (bytes_at m r n)[i := v]"
proof (rule nth_equalityI)
  fix j assume "j < length (bytes_at (m(r + of_nat i := v)) r n)"
  then have "j < n" by (simp add: bytes_at_def)
  then show "bytes_at (m(r + of_nat i := v)) r n ! j = (bytes_at m r n)[i := v] ! j"
    using assms unat_of_nat64 [of i] unat_of_nat64 [of j]
    by (auto simp: bytes_at_def nth_list_update)
qed (simp add: bytes_at_def)

lemma sum_list_update_word:
  assumes "i < length xs"
  shows "sum_list (xs[i := v]) = sum_list xs + v - (xs ! i :: u8)"
  using assms by (induction xs arbitrary: i) (auto simp: nth_Cons algebra_simps split: nat.split)

text \<open>Theorem: the root pointer sum detects every error in a single byte: when a valid root pointer
  has one of its twenty bytes replaced by another value, the sum rejects it.\<close>

theorem rsdpsum_detects_corruption:
  assumes "check_rsdpsum m r" and "i < 20" and "v \<noteq> m (r + of_nat i)"
  shows "\<not> check_rsdpsum (m(r + of_nat i := v)) r"
proof -
  have n: "i < length (bytes_at m r 20)" "bytes_at m r 20 ! i = m (r + of_nat i)" using assms(2) by (simp_all add: bytes_at_def)
  have "sum_list (bytes_at (m(r + of_nat i := v)) r 20) = v - m (r + of_nat i)"
    using assms(1,2) sum_list_update_word [OF n(1), of v] n(2) by (simp add: check_rsdpsum_iff bytes_at_update)
  then show ?thesis using assms(3) by (simp add: check_rsdpsum_iff)
qed

theorem rsdpsum_detects_corruption_witness: "\<not> check_rsdpsum ((\<lambda>_. 0)(0x1000 + of_nat 3 := 7)) 0x1000"
  by (rule rsdpsum_detects_corruption) (simp_all add: check_rsdpsum_iff bytes_at_def upt_rec)

end
