(* ===== verification/Pci.thy ===== *)
theory Pci
  imports AcpiTables
begin

text \<open>
  The bus scan of \<^verbatim>\<open>drivers/acpi/pcie.c\<close>: the configuration page of a function, its base address
  registers, the loop that offers every function that answers to the registered drivers, and the
  entry from the MCFG table. Configuration space is read as memory at its mapped addresses; the
  scan only reads it. The local variables \<open>probe_device\<close> and \<open>probe_pci\<close> are not initialised and
  live across the iterations, so the scan takes their first contents as an argument and passes
  them on.
\<close>

section \<open>Configuration space\<close>

definition PCI_VENDOR_ID :: u64 where "PCI_VENDOR_ID = 0x00"
definition PCI_DEVICE_ID :: u64 where "PCI_DEVICE_ID = 0x02"
definition PCI_BAR :: u64 where "PCI_BAR = 0x10"
definition PCI_CLASS :: u64 where "PCI_CLASS = 0x0B"
definition PCI_SUBCLASS :: u64 where "PCI_SUBCLASS = 0x0A"
definition PCI_PROGIF :: u64 where "PCI_PROGIF = 0x09"
definition PCI_HEADER_TYPE :: u64 where "PCI_HEADER_TYPE = 0x0E"

lemmas pci_offsets = PCI_VENDOR_ID_def PCI_DEVICE_ID_def PCI_BAR_def PCI_CLASS_def PCI_SUBCLASS_def PCI_PROGIF_def
  PCI_HEADER_TYPE_def

record MCFG_entry =
  base_address :: u64
  segment_group :: u16
  start_bus :: u8
  end_bus :: u8
  mcfg_entry_reserved :: u32

definition mcfg_entry_size :: u64 where "mcfg_entry_size = 8 + 2 + 1 + 1 + 4"

definition read_MCFG_entry :: "memory \<Rightarrow> u64 \<Rightarrow> MCFG_entry" where
  "read_MCFG_entry m a =
     \<lparr>base_address = load64 m a, segment_group = load16 m (a + 8), start_bus = m (a + 10), end_bus = m (a + 11),
      mcfg_entry_reserved = load32 m (a + 12)\<rparr>"

text \<open>The entries follow the header and the eight reserved bytes.\<close>

definition mcfg_entries_offset :: u64 where "mcfg_entries_offset = of_nat sdt_header_size + 8"

definition pci_config :: "u8 \<Rightarrow> u8 \<Rightarrow> u8 \<Rightarrow> u64" where
  "pci_config bs device fn =
     PCI_ECAM_BASE + (push_bit 20 (ucast bs) OR push_bit 15 (ucast device) OR push_bit 12 (ucast fn))"

section \<open>Base address registers\<close>

definition bar_dword :: "memory \<Rightarrow> u64 \<Rightarrow> nat \<Rightarrow> u32" where
  "bar_dword m config n = load32 m (config + 0x10 + of_nat n * 4)"

definition pci_read_bar :: "memory \<Rightarrow> u8 \<Rightarrow> u8 \<Rightarrow> u8 \<Rightarrow> nat \<Rightarrow> u64" where
  "pci_read_bar m bs device fn bar_num =
     (let config = pci_config bs device fn;
          low = bar_dword m config bar_num
      in if low AND 1 \<noteq> 0 then ucast (low AND NOT 3)
         else if drop_bit 1 low AND 3 = 2 then
           (let high = bar_dword m config (bar_num + 1) in push_bit 32 (ucast high) OR (ucast low AND NOT 0xF))
         else ucast low AND NOT 0xF)"

primrec get_bars_loop :: "memory \<Rightarrow> u8 \<Rightarrow> u8 \<Rightarrow> u8 \<Rightarrow> nat \<Rightarrow> nat \<Rightarrow> u64 list \<Rightarrow> u64 list" where
  "get_bars_loop m bs device fn n 0 bars = bars"
| "get_bars_loop m bs device fn n (Suc k) bars =
     get_bars_loop m bs device fn (Suc n) k
       (if bar_dword m (pci_config bs device fn) n = 0 then bars
        else bars[n := pci_read_bar m bs device fn n])"

definition get_bars :: "memory \<Rightarrow> pci_device \<Rightarrow> u16 \<Rightarrow> u8 \<Rightarrow> u8 \<Rightarrow> pci_device" where
  "get_bars m p bs dev fn = p\<lparr>bar := get_bars_loop m (ucast bs) dev fn 0 6 (bar p)\<rparr>"

section \<open>The scan\<close>

definition getdevtype :: "u8 \<Rightarrow> u8 \<Rightarrow> 'a machine_scheme \<Rightarrow> device_type_t \<times> 'a machine_scheme" where
  "getdevtype cls sub s =
     (if cls = 0x01 then (DEV_TYPE_CONTROLLER, s)
      else if cls = 0x02 then (DEV_TYPE_CONTROLLER, s)
      else if cls = 0x03 then (DEV_TYPE_CONTROLLER, s)
      else if cls = 0x04 then (DEV_TYPE_CONTROLLER, s)
      else if cls = 0x0C then (if sub = 0x03 then (DEV_TYPE_CONTROLLER, s) else (DEV_TYPE_BUS, s))
      else if cls = 0x06 then (DEV_TYPE_BUS, s)
      else if cls = 0x09 then (DEV_TYPE_INPUT, s)
      else (DEV_TYPE_CONTROLLER,
            LogfStr_event ''acpi'' (''Couldent find a device type for class = %x subclass = %x '' @ [CHR 0x0A])
              [IntArg (ucast cls), IntArg (ucast sub)] s))"

text \<open>The header fields: every read is 16 bits wide, and the assignment keeps the low byte.\<close>

definition read_function :: "memory \<Rightarrow> u16 \<Rightarrow> u8 \<Rightarrow> u8 \<Rightarrow> pci_device \<Rightarrow> pci_device" where
  "read_function m bs dev fn p =
     (let cfg = pci_config (ucast bs) dev fn
      in get_bars m
           (p\<lparr>class_code := ucast (load16 m (cfg + PCI_CLASS)), subclass_code := ucast (load16 m (cfg + PCI_SUBCLASS)),
              bus := ucast bs, device_number := dev, function_number := fn,
              vendor_id := load16 m (cfg + PCI_VENDOR_ID), device_id := load16 m (cfg + PCI_DEVICE_ID),
              prog_if := ucast (load16 m (cfg + PCI_PROGIF)), header_type := ucast (load16 m (cfg + PCI_HEADER_TYPE))\<rparr>)
           bs dev fn)"

definition no_driver :: "pci_device \<Rightarrow> 'a machine_scheme \<Rightarrow> 'a machine_scheme" where
  "no_driver p s =
     LogfStr_event ''acpi'' (''Couldn'' @ [CHR 0x27] @ ''t find a driver for class %x subclass %x'' @ [CHR 0x0A])
       [IntArg (ucast (class_code p)), IntArg (ucast (subclass_code p))] s"

text \<open>One iteration; the pair holds \<open>probe_device\<close> and \<open>probe_pci\<close>.\<close>

definition scan_function ::
  "nat \<times> nat \<times> nat \<Rightarrow> (device_t \<times> pci_device) \<times> 'a driver_state_scheme \<Rightarrow>
   (device_t \<times> pci_device) \<times> 'a driver_state_scheme" where
  "scan_function bdf st =
     (case (bdf, st) of ((b, d, f), ((probe_device, probe_pci), s)) \<Rightarrow>
        if load16 (mem s) (pci_config (of_nat b) (of_nat d) (of_nat f) + PCI_VENDOR_ID) = 0xFFFF then st
        else
          (let pci = read_function (mem s) (of_nat b) (of_nat d) (of_nat f) probe_pci;
               (ty, s1) = getdevtype (class_code pci) (subclass_code pci) s;
               dev = probe_device\<lparr>dev_type := ty, dev_pci := pci\<rparr>;
               (driver, es) = offer_device dev (registered_drivers s1) False [];
               s2 = log_calls es s1
           in ((dev, pci), if driver then s2 else no_driver pci s2)))"

text \<open>The three nested loops visit the functions in this order.\<close>

definition all_functions :: "(nat \<times> nat \<times> nat) list" where
  "all_functions = [(b, d, f). b \<leftarrow> [0..<256], d \<leftarrow> [0..<32], f \<leftarrow> [0..<8]]"

definition get_drivers :: "device_t \<times> pci_device \<Rightarrow> 'a driver_state_scheme \<Rightarrow> 'a driver_state_scheme" where
  "get_drivers stack s = snd (fold scan_function all_functions (stack, s))"

section \<open>The MCFG table\<close>

text \<open>The subtractions are done in \<open>size_t\<close>.\<close>

definition mcfg_entry_count :: "memory \<Rightarrow> u64 \<Rightarrow> u64" where
  "mcfg_entry_count m mh = (ucast (sdt_Length (read_SDT_header m mh)) - of_nat sdt_header_size - 8) div mcfg_entry_size"

primrec mcfg_loop :: "u64 \<Rightarrow> nat \<Rightarrow> nat \<Rightarrow> 'a machine_scheme \<Rightarrow> 'a machine_scheme" where
  "mcfg_loop mh i 0 s = s"
| "mcfg_loop mh i (Suc k) s =
     (let e = read_MCFG_entry (mem s) (mh + mcfg_entries_offset + of_nat i * mcfg_entry_size)
      in mcfg_loop mh (Suc i) k
           (LogfStr_event ''acpi'' (''Buses : %u-%u '' @ [CHR 0x0A]) [IntArg (ucast (start_bus e)), IntArg (ucast (end_bus e))]
           (LogfStr_event ''acpi'' (''segment:  %u '' @ [CHR 0x0A]) [IntArg (ucast (segment_group e))]
           (LogfStr_event ''acpi'' (''base: %p '' @ [CHR 0x0A]) [IntArg (base_address e)]
           (LogfStr_event ''acpi'' (''MCFG entry %u : '' @ [CHR 0x0A]) [IntArg (of_nat i)] s)))))"

text \<open>The result of the sum over the table is not used.\<close>

definition mcfg_enter :: "device_t \<times> pci_device \<Rightarrow> u64 \<Rightarrow> 'a driver_state_scheme \<Rightarrow> 'a driver_state_scheme" where
  "mcfg_enter stack mcfg s =
     (let valid = check_genericsum (mem s) mcfg
      in get_drivers stack (mcfg_loop mcfg 0 (unat (mcfg_entry_count (mem s) mcfg)) s))"

section \<open>Lemmas\<close>

lemma disjoint_or_eq_plus: "(x :: u64) AND y = 0 \<Longrightarrow> x OR y = x + y"
  by (simp add: disjunctive_add_eq_or)

lemma pci_config_ecam:
  assumes "b < 256" "d < 32" "f < 8"
  shows "pci_config (of_nat b) (of_nat d) (of_nat f) = ecam_addr (256 * b + 8 * d + f)"
proof -
  let ?b = "push_bit 20 (of_nat b) :: u64" and ?d = "push_bit 15 (of_nat d) :: u64" and ?f = "push_bit 12 (of_nat f) :: u64"
  have c: "ucast (of_nat b :: u8) = (of_nat b :: u64)" "ucast (of_nat d :: u8) = (of_nat d :: u64)"
    "ucast (of_nat f :: u8) = (of_nat f :: u64)"
    using assms by (simp_all add: unsigned_of_nat take_bit_nat_eq_self)
  have bits: "bit (of_nat n :: u64) k \<Longrightarrow> k < j" if "n < 2 ^ j" for n j k
    using that by (auto simp: bit_simps) (metis bit_take_bit_iff take_bit_nat_eq_self)
  have "?d AND ?f = 0"
    by (rule bit_word_eqI) (use bits [of d 5] bits [of f 3] assms in \<open>fastforce simp: bit_simps\<close>)
  then have df: "?d OR ?f = ?d + ?f" by (rule disjoint_or_eq_plus)
  have "?b AND (?d OR ?f) = 0"
    by (rule bit_word_eqI) (use bits [of d 5] bits [of f 3] assms in \<open>fastforce simp: bit_simps\<close>)
  then have "?b OR (?d OR ?f) = ?b + (?d + ?f)" using df disjoint_or_eq_plus by metis
  then show ?thesis
    by (simp add: pci_config_def ecam_addr_def c or.assoc push_bit_eq_mult algebra_simps)
qed

lemma all_functions_iff: "(b, d, f) \<in> set all_functions \<longleftrightarrow> b < 256 \<and> d < 32 \<and> f < 8"
  by (simp add: all_functions_def image_iff)

definition function_index :: "nat \<times> nat \<times> nat \<Rightarrow> nat" where
  "function_index bdf = (case bdf of (b, d, f) \<Rightarrow> 256 * b + 8 * d + f)"

lemma function_index_upto: "map function_index all_functions = [0..<65536]"
proof -
  have row: "map (\<lambda>f. 256 * b + 8 * d + f) [0..<8] = [256 * b + 8 * d..<256 * b + 8 * Suc d]" for b d :: nat
    by (rule nth_equalityI) simp_all
  have dev: "concat (map (\<lambda>d. [256 * b + 8 * d..<256 * b + 8 * Suc d]) [0..<n]) = [256 * b..<256 * b + 8 * n]" for b n :: nat
  proof (induction n)
    case (Suc n)
    then show ?case using upt_add_eq_append [of "256 * b" "256 * b + 8 * n" 8] by (simp add: ac_simps)
  qed simp
  have all: "concat (map (\<lambda>b. [256 * b..<256 * b + 256]) [0..<n]) = [0..<256 * n]" for n :: nat
  proof (induction n)
    case (Suc n)
    then show ?case using upt_add_eq_append [of 0 "256 * n" 256] by (simp add: add.commute)
  qed simp
  have "map function_index all_functions =
     concat (map (\<lambda>b. concat (map (\<lambda>d. map (\<lambda>f. 256 * b + 8 * d + f) [0..<8]) [0..<32])) [0..<256])"
    by (simp only: all_functions_def map_concat map_map comp_def function_index_def prod.case concat_map_singleton)
  also have "\<dots> = [0..<65536]"
    using all [of 256] by (simp only: row dev) simp
  finally show ?thesis .
qed

lemma function_index_inj: "inj_on function_index (set all_functions)"
  using distinct_map [of function_index all_functions] by (simp add: function_index_upto)

lemma get_bars_loop_nth:
  "length (get_bars_loop m b d f n k bars) = length bars \<and>
   (i < length bars \<longrightarrow> get_bars_loop m b d f n k bars ! i =
     (if n \<le> i \<and> i < n + k \<and> bar_dword m (pci_config b d f) i \<noteq> 0 then pci_read_bar m b d f i else bars ! i))"
proof (induction k arbitrary: n bars)
  case (Suc k)
  have u: "i < length bars \<Longrightarrow> bars[n := v] ! i = (if i = n then v else bars ! i)" for v
    by (simp add: nth_list_update)
  show ?case using Suc [of "Suc n"] u by (cases "i = n") auto
qed auto

text \<open>A function answers when its vendor identifier is not all ones.\<close>

definition present :: "memory \<Rightarrow> nat \<times> nat \<times> nat \<Rightarrow> bool" where
  "present m bdf = (case bdf of (b, d, f) \<Rightarrow>
     load16 m (pci_config (of_nat b) (of_nat d) (of_nat f) + PCI_VENDOR_ID) \<noteq> 0xFFFF)"

lemma getdevtype_logs: "\<exists>es. snd (getdevtype c u s) = log_calls es s"
proof -
  have "\<exists>es. s = log_calls es s" by (rule exI [of _ "[]"]) (simp add: log_calls_def)
  moreover have "\<exists>es. LogfStr_event m fmt args s = log_calls es s" for m fmt args
    by (rule exI [of _ "[LogfStr_call m fmt args]"]) (simp add: LogfStr_event_def log_calls_def)
  ultimately show ?thesis by (simp add: getdevtype_def)
qed

lemma log_calls_append: "log_calls es (log_calls fs s) = log_calls (fs @ es) s"
  by (simp add: log_calls_def)

lemma log_calls_fields [simp]:
  "mem (log_calls es s) = mem s"
  "registered_drivers (log_calls es d) = registered_drivers d"
  "klog (log_calls es s) = klog s @ es"
  by (simp_all add: log_calls_def)

lemma scan_function_logs: "\<exists>es. snd (scan_function bdf (st, s)) = log_calls es s"
proof (cases bdf)
  case (fields b d f)
  obtain pd pp where st: "st = (pd, pp)" by (cases st)
  let ?p = "read_function (mem s) (of_nat b) (of_nat d) (of_nat f) pp"
  obtain es where es: "snd (getdevtype (class_code ?p) (subclass_code ?p) s) = log_calls es s"
    using getdevtype_logs by metis
  have nd: "no_driver p (log_calls xs s) = log_calls (xs @ klog (no_driver p (s\<lparr>klog := []\<rparr>))) s" for p xs
    by (simp add: no_driver_def LogfStr_event_def log_calls_def)
  have "\<exists>es. s = log_calls es s" by (rule exI [of _ "[]"]) (simp add: log_calls_def)
  moreover have "\<exists>es'. log_calls es s = log_calls es' s" for es by blast
  ultimately show ?thesis
    by (simp add: scan_function_def fields st es log_calls_append nd Let_def case_prod_unfold)
qed

section \<open>Properties\<close>

text \<open>Theorem: a 64-bit memory base address register is read back: when the two registers hold an address in
  the form the bus defines (the type bits 10 in the low one, optionally the prefetchable bit), \<open>pci_read_bar\<close>
  returns the address.\<close>

definition holds_bar64 :: "memory \<Rightarrow> u64 \<Rightarrow> nat \<Rightarrow> u64 \<Rightarrow> bool \<Rightarrow> bool" where
  "holds_bar64 m config n addr prefetch \<longleftrightarrow>
     bar_dword m config n = ucast addr OR 4 OR (if prefetch then 8 else 0) \<and>
     bar_dword m config (n + 1) = ucast (drop_bit 32 addr)"

theorem pci_read_bar_roundtrip:
  assumes "holds_bar64 m (pci_config b d f) n addr prefetch" and "addr AND 0xF = 0"
  shows "pci_read_bar m b d f n = addr"
proof -
  define low :: u32 where "low = ucast addr OR 4 OR (if prefetch then 8 else 0)"
  have z: "\<not> bit addr k" if "k < 4" for k
  proof -
    have "bit (addr AND mask 4) k \<longleftrightarrow> bit addr k" using that by (simp add: bit_simps)
    then show ?thesis using assms(2) by (simp add: mask_eq_exp_minus_1)
  qed
  have lits: "bit (4 :: u32) k \<longleftrightarrow> k = 2" "bit (8 :: u32) k \<longleftrightarrow> k = 3" for k
    using bit_exp_iff [of 2 k, where 'a = u32] bit_exp_iff [of 3 k, where 'a = u32] by auto
  have low_bit: "bit low k \<longleftrightarrow> k < 32 \<and> bit addr k \<or> k = 2 \<or> k = 3 \<and> prefetch" for k
    by (cases prefetch; simp only: low_def if_True if_False bit_or_iff lits bit_0_eq; auto simp: bit_unsigned_iff)
  have io: "low AND 1 = 0" using low_bit [of 0] z [of 0] by (simp add: and_one_eq even_iff_mod_2_eq_zero [symmetric] bit_0)
  have ty: "drop_bit 1 low AND 3 = 2"
  proof (rule bit_word_eqI)
    fix k assume "k < LENGTH(32)"
    have "bit (3 :: u32) k \<longleftrightarrow> k < 2" "bit (2 :: u32) k \<longleftrightarrow> k = 1"
      using bit_mask_iff [of 2 k, where 'a = u32] bit_exp_iff [of 1 k, where 'a = u32]
      by (auto simp: mask_eq_exp_minus_1)
    then show "bit (drop_bit 1 low AND 3) k \<longleftrightarrow> bit (2 :: u32) k"
      using low_bit [of 1] low_bit [of 2] z by (auto simp: bit_drop_bit_eq bit_and_iff less_2_cases_iff low_bit)
  qed
  have "push_bit 32 (ucast (ucast (drop_bit 32 addr) :: u32)) OR (ucast low AND NOT 0xF) = addr"
  proof (rule low_bits_equal)
    fix k :: nat assume k: "k < 64"
    have m4: "(0xF :: u64) = mask 4" by (simp add: mask_eq_exp_minus_1)
    show "bit (push_bit 32 (ucast (ucast (drop_bit 32 addr) :: u32)) OR (ucast low AND NOT 0xF) :: u64) k \<longleftrightarrow> bit addr k"
      unfolding m4 using k z [of k] by (auto simp: bit_simps low_bit)
  qed
  then show ?thesis using assms(1) io ty by (simp add: pci_read_bar_def holds_bar64_def low_def Let_def)
qed

text \<open>Theorem: \<open>get_bars\<close> fills the entry of every register that is not zero and leaves the others as they
  were; since the scan reuses one structure, a function without a register \<open>i\<close> is offered to the
  drivers with the value of the function scanned before it.\<close>

theorem stale_bars_offered:
  assumes "present (mem s) (b, d, f)" and "length (bar pp) = 6" and "i < 6"
  shows "bar (dev_pci (fst (fst (scan_function (b, d, f) ((pd, pp), s))))) ! i =
     (if bar_dword (mem s) (pci_config (of_nat b) (of_nat d) (of_nat f)) i = 0 then bar pp ! i
      else pci_read_bar (mem s) (of_nat b) (of_nat d) (of_nat f) i)"
proof -
  have c: "ucast (of_nat b :: u16) = (of_nat b :: u8)"
    by (rule bit_word_eqI) (simp add: bit_simps)
  show ?thesis
    using assms get_bars_loop_nth [of "mem s" "of_nat b" "of_nat d" "of_nat f" 0 6 "bar pp" i]
    by (simp add: scan_function_def present_def read_function_def get_bars_def Let_def case_prod_unfold c)
qed

lemma scan_absent: "\<not> present (mem s) bdf \<Longrightarrow> scan_function bdf (st, s) = (st, s)"
  by (cases bdf; cases st) (simp add: scan_function_def present_def)

lemma fold_scan_present:
  "fold scan_function xs (st, s) = fold scan_function (filter (present (mem s)) xs) (st, s) \<and>
   (\<exists>es. snd (fold scan_function xs (st, s)) = log_calls es s)"
proof (induction xs arbitrary: st s)
  case Nil
  have "log_calls [] s = s" by (simp add: log_calls_def)
  then show ?case by (metis fold_simps(1) filter.simps(1) snd_conv)
next
  case (Cons x xs)
  obtain st' s' where st': "scan_function x (st, s) = (st', s')" by (cases "scan_function x (st, s)")
  obtain es where es: "s' = log_calls es s" using scan_function_logs [of x st s] st' by auto
  obtain es' where es': "snd (fold scan_function xs (st', s')) = log_calls es' s'" using Cons [of st' s'] by blast
  have "fold scan_function xs (st', s') = fold scan_function (filter (present (mem s)) xs) (st', s')"
    using Cons [of st' s'] es by simp
  moreover have "snd (fold scan_function xs (st', s')) = log_calls (es @ es') s"
    using es es' by (simp add: log_calls_append)
  ultimately show ?case using st' scan_absent [of s x st] by auto
qed

text \<open>Theorem: the scan visits each of the 65536 functions once, its effect is that of visiting only the ones
  that answer, in order, and it changes nothing but the log.\<close>

theorem get_drivers_scan:
  "map function_index all_functions = [0..<65536] \<and>
   get_drivers stack s = snd (fold scan_function (filter (present (mem s)) all_functions) (stack, s)) \<and>
   get_drivers stack s = log_calls (drop (length (klog s)) (klog (get_drivers stack s))) s"
proof (intro conjI)
  show "map function_index all_functions = [0..<65536]" by (rule function_index_upto)
  show "get_drivers stack s = snd (fold scan_function (filter (present (mem s)) all_functions) (stack, s))"
    using fold_scan_present [of all_functions stack s] by (simp add: get_drivers_def)
  obtain es where "get_drivers stack s = log_calls es s"
    using fold_scan_present [of all_functions stack s] by (auto simp: get_drivers_def)
  then show "get_drivers stack s = log_calls (drop (length (klog s)) (klog (get_drivers stack s))) s" by simp
qed

text \<open>Theorem: the number of MCFG entries is right for a table that holds its own header; a table whose length
  field is below 44 makes the count wrap to at least 2 to the 59.\<close>

theorem mcfg_entry_count_wraps:
  "if 44 \<le> unat (load32 m (mh + 4)) then unat (mcfg_entry_count m mh) = (unat (load32 m (mh + 4)) - 44) div 16
   else 2 ^ 59 \<le> unat (mcfg_entry_count m mh)"
proof -
  let ?n = "unat (load32 m (mh + 4))"
  have n: "unat (ucast (load32 m (mh + 4)) :: u64) = ?n" "?n < 2 ^ 32" using unat_lt2p [of "load32 m (mh + 4)"] by (simp_all add: unsigned_ucast_eq take_bit_nat_eq_self)
  have c: "mcfg_entry_count m mh = (ucast (load32 m (mh + 4)) - 44) div 16"
    by (simp add: mcfg_entry_count_def read_SDT_header_def sdt_header_size_def mcfg_entry_size_def diff_diff_eq)
  have "unat (ucast (load32 m (mh + 4)) - 44 :: u64) = (if 44 \<le> ?n then ?n - 44 else ?n + 2 ^ 64 - 44)"
    using n by (simp add: unat_sub_if' word_le_nat_alt)
  then show ?thesis unfolding c by (auto simp: unat_div div_le_mono)
qed

definition config_of :: "nat \<times> nat \<times> nat \<Rightarrow> u64" where
  "config_of bdf = (case bdf of (b, d, f) \<Rightarrow> pci_config (of_nat b) (of_nat d) (of_nat f))"

lemma config_of_ecam: "bdf \<in> set all_functions \<Longrightarrow> config_of bdf = ecam_addr (function_index bdf)"
  by (cases bdf) (auto simp: config_of_def function_index_def all_functions_iff pci_config_ecam)

lemma function_index_bound: "bdf \<in> set all_functions \<Longrightarrow> function_index bdf < 65536"
  by (cases bdf) (auto simp: function_index_def all_functions_iff)

text \<open>Property C11: once the kernel has set up its page tables, the configuration page of every function the scan
  visits translates to the page of that function in the device's configuration memory, and no two functions
  share a page.\<close>

theorem scanned_functions_mapped:
  assumes "boot_ready s"
  shows "\<exists>s'. virtual_memory_init s = (Ret 0, s') \<and>
     list_all (\<lambda>bdf. translate_in s' (pml4 (newpml4 s')) (config_of bdf) = Some (ecam_entry (function_index bdf)))
       all_functions \<and>
     distinct (map config_of all_functions)"
proof -
  obtain s' where s': "virtual_memory_init s = (Ret 0, s')" "ecam_mapped (pml4 (newpml4 s')) s'"
    using virtual_memory_init_run [OF assms] by (auto simp: vm_started_def)
  have "inj_on ecam_addr {0..<65536}"
    by (rule inj_onI) (metis atLeastLessThan_iff ecam_same_page same_page_def)
  then have "inj_on (ecam_addr \<circ> function_index) (set all_functions)"
    by (intro comp_inj_on function_index_inj) (auto simp: function_index_bound intro: inj_on_subset)
  then have "inj_on config_of (set all_functions)"
    by (auto simp: inj_on_def config_of_ecam)
  moreover have "distinct all_functions" using function_index_upto by (metis distinct_map distinct_upt)
  ultimately show ?thesis
    using s' by (auto simp: ecam_mapped_def list_all_iff config_of_ecam function_index_bound distinct_map)
qed

section \<open>Witnesses\<close>

definition bar_test :: memory where
  "bar_test = (\<lambda>_. 0)(0xFFFFFFFFF0018010 := 0x0C, 0xFFFFFFFFF0018014 := 2)"

lemma bar_test_config: "pci_config 0 3 0 = 0xFFFFFFFFF0018000"
  by (simp add: pci_config_def PCI_ECAM_BASE_def)

theorem pci_read_bar_roundtrip_witness: "pci_read_bar bar_test 0 3 0 0 = 0x200000000"
  by (rule pci_read_bar_roundtrip [of _ _ _ _ _ _ True])
     (simp_all add: holds_bar64_def bar_dword_def load32_bytes bar_test_config bar_test_def)

theorem stale_bars_offered_witness:
  "bar (dev_pci (fst (fst (scan_function (0, 3, 0)
     ((ahci_device, (dev_pci ahci_device)\<lparr>bar := [1, 2, 3, 4, 5, 6]\<rparr>), driver_test\<lparr>mem := \<lambda>_. 0\<rparr>))))) ! 2 = 3"
proof -
  have p: "present (mem (driver_test\<lparr>mem := \<lambda>_. 0\<rparr>)) (0, 3, 0)"
    by (simp add: present_def)
  have z: "bar_dword (\<lambda>_. 0) a n = 0" for a n
    by (simp add: bar_dword_def)
  show ?thesis
    using stale_bars_offered [OF p, of "(dev_pci ahci_device)\<lparr>bar := [1, 2, 3, 4, 5, 6]\<rparr>" 2 ahci_device] by (simp add: z)
qed

theorem scanned_functions_mapped_witness:
  "\<exists>s'. virtual_memory_init boot_vm = (Ret 0, s') \<and>
     list_all (\<lambda>bdf. translate_in s' (pml4 (newpml4 s')) (config_of bdf) = Some (ecam_entry (function_index bdf)))
       all_functions \<and>
     distinct (map config_of all_functions)"
  by (rule scanned_functions_mapped) (rule boot_vm_ready)

end
