(* ===== verification/Acpi.thy ===== *)
theory Acpi
  imports Pci
begin

text \<open>
  Reading the ACPI tables, \<^verbatim>\<open>drivers/acpi/generic.c\<close>: from the root pointer of the boot loader to the
  root table, and to the MCFG table that starts the bus scan.
\<close>

section \<open>Operations\<close>

text \<open>The number of entries is computed in \<open>size_t\<close> and kept in an \<open>int\<close>.\<close>

definition rsdt_entries :: "memory \<Rightarrow> u64 \<Rightarrow> int" where
  "rsdt_entries m rsdt =
     sint (ucast ((ucast (sdt_Length (read_SDT_header m rsdt)) - of_nat sdt_header_size :: u64) div 4) :: u32)"

definition rsdt_entry :: "memory \<Rightarrow> u64 \<Rightarrow> nat \<Rightarrow> u32" where
  "rsdt_entry m rsdt i = load32 m (rsdt + of_nat sdt_header_size + of_nat i * 4)"

primrec find_x_loop :: "u64 \<Rightarrow> u64 \<Rightarrow> nat \<Rightarrow> nat \<Rightarrow> 'a acpi_state_scheme \<Rightarrow> u64" where
  "find_x_loop rsdt sig i 0 s = 0"
| "find_x_loop rsdt sig i (Suc k) s =
     (let h = ucast (rsdt_entry (mem s) rsdt i) + hhdm_response_offset s
      in if strncmp (mem s) h sig 4 = 0 then h else find_x_loop rsdt sig (Suc i) k s)"

definition find_x :: "u64 \<Rightarrow> u64 \<Rightarrow> 'a acpi_state_scheme \<Rightarrow> u64" where
  "find_x rsdt sig s = find_x_loop rsdt sig 0 (nat (rsdt_entries (mem s) rsdt)) s"

definition log_acpi :: "string \<Rightarrow> ('a machine_scheme, unit) routine" where
  "log_acpi msg = modify (LogStr_event ''acpi'' msg)"

definition parse_acpi_earlyboot_rev1 :: "device_t \<times> pci_device \<Rightarrow> u64 \<Rightarrow> ('a acpi_state_scheme, unit) routine" where
  "parse_acpi_earlyboot_rev1 stack rsdp =
     seq (log_acpi (''Reading acpi1 tables '' @ [CHR 0x0A]))
    (bind (gets (\<lambda>s. check_rsdpsum (mem s) rsdp)) (\<lambda>ok.
       if \<not> ok then stop_with (Panic ''rsdp invalid'' STATUS_HARDWARE_FAILURE)
       else
         seq (log_acpi (''Found acpi rsdp '' @ [CHR 0x0A]))
        (bind (gets (\<lambda>s. phys2virt32 (rsdp_RsdtAddress (read_RSDP (mem s) rsdp)) s)) (\<lambda>rsdt.
         bind (gets (\<lambda>s. check_genericsum (mem s) rsdt)) (\<lambda>ok2.
           if \<not> ok2 then stop_with (Panic ''rsdt invalid'' STATUS_HARDWARE_FAILURE)
           else
             seq (log_acpi (''Found valid rsdt'' @ [CHR 0x0A]))
            (bind (gets (\<lambda>s. find_x rsdt (mcfg_literal s) s)) (\<lambda>mcfg.
               if mcfg \<noteq> 0 then modify (mcfg_enter stack mcfg)
               else log_acpi (''Failed to find MCFG'' @ [CHR 0x0A]))))))))"

definition parse_acpi_earlyboot_rev2 :: "u64 \<Rightarrow> ('a machine_scheme, unit) routine" where
  "parse_acpi_earlyboot_rev2 rsdp = log_acpi ''using revision more than 2''"

definition parse_acpi :: "device_t \<times> pci_device \<Rightarrow> ('a acpi_state_scheme, unit) routine" where
  "parse_acpi stack =
     bind (gets rsdp_response) (\<lambda>r.
       case r of
         None \<Rightarrow> null_fault
       | Some rsdP \<Rightarrow>
           bind (gets (\<lambda>s. rsdp_Revision (read_RSDP (mem s) rsdP))) (\<lambda>rev.
             if 1 < rev then parse_acpi_earlyboot_rev2 rsdP
             else parse_acpi_earlyboot_rev1 stack rsdP))"

section \<open>Finding a table\<close>

definition table_addresses :: "u64 \<Rightarrow> 'a acpi_state_scheme \<Rightarrow> u64 list" where
  "table_addresses rsdt s =
     map (\<lambda>i. ucast (rsdt_entry (mem s) rsdt i) + hhdm_response_offset s) [0..<nat (rsdt_entries (mem s) rsdt)]"

definition has_signature :: "memory \<Rightarrow> u64 \<Rightarrow> u64 \<Rightarrow> bool" where
  "has_signature m sig h \<longleftrightarrow> bytes_at m h 4 = bytes_at m sig 4"

lemma strncmp_4:
  assumes "m sig \<noteq> 0" "m (sig + 1) \<noteq> 0" "m (sig + 2) \<noteq> 0"
  shows "strncmp m h sig 4 = 0 \<longleftrightarrow> has_signature m sig h"
proof -
  have four: "unat (4 :: u64) = Suc (Suc (Suc (Suc 0)))" by simp
  have up: "[0..<4] = [0, 1, 2, 3 :: nat]" by (simp add: upt_rec)
  have "strncmp m h sig 4 = 0 \<longleftrightarrow>
     m h = m sig \<and> m (h + 1) = m (sig + 1) \<and> m (h + 2) = m (sig + 2) \<and> m (h + 3) = m (sig + 3)"
    unfolding strncmp_def four using assms by (simp add: add.assoc flip: word_uint_eq_iff)
  also have "\<dots> \<longleftrightarrow> has_signature m sig h" unfolding has_signature_def bytes_at_def up by simp
  finally show ?thesis .
qed

lemma sint_small:
  assumes "unat (w :: u32) < 2 ^ 31"
  shows "sint w = int (unat w)"
proof -
  have u: "uint w = int (unat w)" by (rule of_nat_unat [symmetric])
  have "int (unat w) < int (2 ^ 31)" using assms by (simp only: of_nat_less_iff)
  then have "uint w < 2 ^ 31" by simp
  moreover have "- (2 ^ 31) \<le> uint w" by (rule order_trans [OF _ uint_ge_0]) simp
  ultimately have "signed_take_bit 31 (uint w) = uint w" by (intro signed_take_bit_int_eq_self)
  then show ?thesis unfolding sint_uint u [symmetric] by simp
qed

lemma find_x_loop_find:
  "find_x_loop rsdt sig i k s =
     (case find (\<lambda>h. strncmp (mem s) h sig 4 = 0)
        (map (\<lambda>i. ucast (rsdt_entry (mem s) rsdt i) + hhdm_response_offset s) [i..<i + k]) of
      None \<Rightarrow> 0 | Some h \<Rightarrow> h)"
proof (induction k arbitrary: i)
  case (Suc k)
  have "[i..<i + Suc k] = i # [Suc i..<Suc i + k]" using upt_conv_Cons [of i "i + Suc k"] by simp
  then show ?case using Suc [of "Suc i"] by (simp add: Let_def)
qed simp

lemma find_x_find:
  "find_x rsdt sig s =
     (case find (\<lambda>h. strncmp (mem s) h sig 4 = 0) (table_addresses rsdt s) of None \<Rightarrow> 0 | Some h \<Rightarrow> h)"
  using find_x_loop_find [of rsdt sig 0 "nat (rsdt_entries (mem s) rsdt)" s] by (simp add: find_x_def table_addresses_def)

text \<open>Theorem: \<open>find_x\<close> is the search for the first table in the root table whose four signature bytes are the
  given ones, and null when there is none; for a root table that holds its own header the number of
  entries searched is the one its length field gives.\<close>

theorem find_x_first_match:
  assumes "mem s sig \<noteq> 0" "mem s (sig + 1) \<noteq> 0" "mem s (sig + 2) \<noteq> 0"
    and "36 \<le> unat (load32 (mem s) (rsdt + 4))"
  shows "find_x rsdt sig s =
     (case find (has_signature (mem s) sig) (table_addresses rsdt s) of None \<Rightarrow> 0 | Some h \<Rightarrow> h) \<and>
     length (table_addresses rsdt s) = (unat (load32 (mem s) (rsdt + 4)) - 36) div 4"
proof
  have "(\<lambda>h. strncmp (mem s) h sig 4 = 0) = has_signature (mem s) sig"
    using strncmp_4 [OF assms(1-3)] by blast
  then show "find_x rsdt sig s =
     (case find (has_signature (mem s) sig) (table_addresses rsdt s) of None \<Rightarrow> 0 | Some h \<Rightarrow> h)"
    unfolding find_x_find by simp
  let ?l = "load32 (mem s) (rsdt + 4)" and ?n = "unat (load32 (mem s) (rsdt + 4))"
  let ?q = "(ucast ?l - 36 :: u64) div 4"
  have n: "unat (ucast ?l :: u64) = ?n" "?n < 2 ^ 32"
    using unat_lt2p [of ?l] by (simp_all add: unsigned_ucast_eq take_bit_nat_eq_self)
  then have "unat (ucast ?l - 36 :: u64) = ?n - 36" using assms(4) by (simp add: unat_sub_if' word_le_nat_alt)
  then have q: "unat ?q = (?n - 36) div 4" "unat ?q < 2 ^ 31" using n(2) by (simp_all add: unat_div)
  have "unat (ucast ?q :: u32) = unat ?q" using q(2) by (simp add: unsigned_ucast_eq take_bit_nat_eq_self)
  then have "sint (ucast ?q :: u32) = int (unat ?q)" using sint_small q(2) by metis
  then show "length (table_addresses rsdt s) = (?n - 36) div 4"
    using q(1) by (simp add: table_addresses_def rsdt_entries_def read_SDT_header_def sdt_header_size_def)
qed

section \<open>Parsing\<close>

lemmas parse_defs = parse_acpi_def parse_acpi_earlyboot_rev1_def parse_acpi_earlyboot_rev2_def log_acpi_def null_fault_def

lemma event_fields [simp]:
  "mem (LogStr_event n t s) = mem s"
  "hhdm_response_offset (LogStr_event n t a) = hhdm_response_offset a"
  "rsdp_response (LogStr_event n t a) = rsdp_response a"
  "mcfg_literal (LogStr_event n t a) = mcfg_literal a"
  by (simp_all add: LogStr_event_def)

lemma find_x_event [simp]: "find_x rsdt sig (LogStr_event n t s) = find_x rsdt sig s"
  by (simp add: find_x_find table_addresses_def)

lemma phys2virt32_event [simp]: "phys2virt32 a (LogStr_event n t s) = phys2virt32 a s"
  by (simp add: phys2virt32_def)

text \<open>The address of the root table that a root pointer names.\<close>

definition rsdt_of :: "u64 \<Rightarrow> 'a acpi_state_scheme \<Rightarrow> u64" where
  "rsdt_of r s = phys2virt32 (rsdp_RsdtAddress (read_RSDP (mem s) r)) s"

text \<open>Theorem: what parsing ends in, by the tables the firmware left: a root pointer of revision 2 or more only
  logs a line and scans nothing; a wrong sum of the root pointer or of the root table panics with
  the hardware status; otherwise parsing returns, and the bus is scanned from the first MCFG table, or
  a line says that there is none.\<close>

theorem parse_acpi_outcomes:
  assumes "rsdp_response s = Some r"
  shows "(let rev = mem s (r + 15); rsdt = rsdt_of r s; mcfg = find_x rsdt (mcfg_literal s) s;
             logged = \<lambda>ls. log_calls (map (LogStr_call ''acpi'') ls) s;
             l1 = ''Reading acpi1 tables '' @ [CHR 0x0A]; l2 = ''Found acpi rsdp '' @ [CHR 0x0A];
             l3 = ''Found valid rsdt'' @ [CHR 0x0A]
         in parse_acpi stack s =
              (if 1 < rev then (Ret (), logged [''using revision more than 2''])
               else if \<not> check_rsdpsum (mem s) r then (Panic ''rsdp invalid'' STATUS_HARDWARE_FAILURE, logged [l1])
               else if \<not> check_genericsum (mem s) rsdt then
                 (Panic ''rsdt invalid'' STATUS_HARDWARE_FAILURE, logged [l1, l2])
               else if mcfg = 0 then (Ret (), logged [l1, l2, l3, ''Failed to find MCFG'' @ [CHR 0x0A]])
               else (Ret (), mcfg_enter stack mcfg (logged [l1, l2, l3]))))"
  using assms
  by (simp add: Let_def parse_defs routine_simps bind_def rsdt_of_def read_RSDP_def LogStr_event_def log_calls_def
      find_x_find table_addresses_def phys2virt32_def)

lemma parse_acpi_without_response: "rsdp_response s = None \<Longrightarrow> parse_acpi stack s = (Stopped, s)"
  by (simp add: parse_defs routine_simps bind_def)

definition acpi_test :: acpi_state where
  "acpi_test = driver_state.extend (driver_test\<lparr>mem := (\<lambda>_. 0)(0x200F := 2, 0x3000 := 77, 0x3001 := 67, 0x3002 := 70, 0x3003 := 71)\<rparr>)
     \<lparr>hhdm_response_offset = 0, rsdp_response = Some 0x2000, mcfg_literal = 0x3000\<rparr>"

lemma acpi_test_fields:
  "mem acpi_test = (\<lambda>_. 0)(0x200F := 2, 0x3000 := 77, 0x3001 := 67, 0x3002 := 70, 0x3003 := 71)"
  "rsdp_response acpi_test = Some 0x2000" "mcfg_literal acpi_test = 0x3000" "hhdm_response_offset acpi_test = 0"
  by (simp_all add: acpi_test_def driver_state.extend_def)

theorem parse_acpi_outcomes_witness:
  "parse_acpi (ahci_device, dev_pci ahci_device) acpi_test = (Ret (), log_calls [LogStr_call ''acpi'' ''using revision more than 2''] acpi_test)"
  using parse_acpi_outcomes [OF acpi_test_fields(2), of "(ahci_device, dev_pci ahci_device)"] by (simp add: Let_def acpi_test_fields(1))

definition rsdt_test :: acpi_state where
  "rsdt_test = acpi_test\<lparr>mem := (\<lambda>_. 0)(0x1004 := 44, 0x1024 := 0, 0x1025 := 0x20, 0x1028 := 0, 0x1029 := 0x30,
     0x3000 := 77, 0x3001 := 67, 0x3002 := 70, 0x3003 := 71)\<rparr>"

theorem find_x_first_match_witness:
  "find_x 0x1000 0x3000 rsdt_test =
     (case find (has_signature (mem rsdt_test) 0x3000) (table_addresses 0x1000 rsdt_test) of None \<Rightarrow> 0 | Some h \<Rightarrow> h) \<and>
   length (table_addresses 0x1000 rsdt_test) = (unat (load32 (mem rsdt_test) (0x1000 + 4)) - 36) div 4"
  by (rule find_x_first_match) (simp_all add: rsdt_test_def load32_bytes)

end
