(* ===== verification/Errno.thy ===== *)
theory Errno
  imports Main
begin

text \<open>
  The error numbers of \<^verbatim>\<open>dej/kernel.h\<close>. The macro \<open>EWOULDBLOCK\<close> is a second name for \<open>EAGAIN\<close>; all other
  names have different values, which are positive, so that a zero result always means success.
\<close>

datatype errno =
    EPERM | ENOENT | ESRCH | EINTR | EIO | ENXIO | E2BIG | ENOEXEC | EBADF | ECHILD | EDEADLK | ENOMEM
     | EACCES | EFAULT | EBUSY | EEXIST | EXDEV | ENODEV | ENOTDIR | EISDIR | EINVAL | ENFILE | EMFILE
     | ENOTTY | ETXTBSY | EFBIG | ENOSPC | ESPIPE | EROFS | EMLINK | EPIPE | EDOM | ERANGE | EAGAIN
     | EINPROGRESS | EALREADY | ETIMEDOUT | ECONNREFUSED | ELOOP | ENAMETOOLONG | EHOSTUNREACH
     | ENOTEMPTY | ENOLCK | ENOSYS | EILSEQ | EOVERFLOW | ECANCELED | EIDRM | ENOMSG | ENOTSUP | EBADMSG
     | ENOTRECOVERABLE | EOWNERDEAD | EPROTO

primrec errno_value :: "errno \<Rightarrow> int" where
  "errno_value EPERM = 1"
| "errno_value ENOENT = 2"
| "errno_value ESRCH = 3"
| "errno_value EINTR = 4"
| "errno_value EIO = 5"
| "errno_value ENXIO = 6"
| "errno_value E2BIG = 7"
| "errno_value ENOEXEC = 8"
| "errno_value EBADF = 9"
| "errno_value ECHILD = 10"
| "errno_value EDEADLK = 11"
| "errno_value ENOMEM = 12"
| "errno_value EACCES = 13"
| "errno_value EFAULT = 14"
| "errno_value EBUSY = 16"
| "errno_value EEXIST = 17"
| "errno_value EXDEV = 18"
| "errno_value ENODEV = 19"
| "errno_value ENOTDIR = 20"
| "errno_value EISDIR = 21"
| "errno_value EINVAL = 22"
| "errno_value ENFILE = 23"
| "errno_value EMFILE = 24"
| "errno_value ENOTTY = 25"
| "errno_value ETXTBSY = 26"
| "errno_value EFBIG = 27"
| "errno_value ENOSPC = 28"
| "errno_value ESPIPE = 29"
| "errno_value EROFS = 30"
| "errno_value EMLINK = 31"
| "errno_value EPIPE = 32"
| "errno_value EDOM = 33"
| "errno_value ERANGE = 34"
| "errno_value EAGAIN = 35"
| "errno_value EINPROGRESS = 36"
| "errno_value EALREADY = 37"
| "errno_value ETIMEDOUT = 60"
| "errno_value ECONNREFUSED = 61"
| "errno_value ELOOP = 62"
| "errno_value ENAMETOOLONG = 63"
| "errno_value EHOSTUNREACH = 65"
| "errno_value ENOTEMPTY = 66"
| "errno_value ENOLCK = 77"
| "errno_value ENOSYS = 78"
| "errno_value EILSEQ = 84"
| "errno_value EOVERFLOW = 87"
| "errno_value ECANCELED = 88"
| "errno_value EIDRM = 89"
| "errno_value ENOMSG = 90"
| "errno_value ENOTSUP = 91"
| "errno_value EBADMSG = 92"
| "errno_value ENOTRECOVERABLE = 93"
| "errno_value EOWNERDEAD = 94"
| "errno_value EPROTO = 95"

definition EWOULDBLOCK :: errno where "EWOULDBLOCK = EAGAIN"

lemma errno_positive: "0 < errno_value e"
  by (cases e) simp_all

end
