(* ===== verification/Hda.thy ===== *)
theory Hda
  imports Acpi Errno
begin

text \<open>
  The HD audio controller: \<^verbatim>\<open>drivers/hda/hda.c\<close> with its register offsets, and its only client, the audio
  processor of \<^verbatim>\<open>sys/cpu/cpu4/banger.c\<close>. Device registers are read and written through the input and
  output streams of the interrupt state: the \<open>n\<close>-th read of an address returns what the device chooses.
\<close>

section \<open>Registers\<close>

definition HDA_GCAP :: u64 where "HDA_GCAP = 0x00"
definition HDA_GCTL :: u64 where "HDA_GCTL = 0x08"
definition HDA_STATE :: u64 where "HDA_STATE = 0x0E"
definition HDA_WAKEEN :: u64 where "HDA_WAKEEN = 0x0C"
definition HDA_CORBLBASE :: u64 where "HDA_CORBLBASE = 0x40"
definition HDA_CORBUBASE :: u64 where "HDA_CORBUBASE = 0x44"
definition HDA_CORBWP :: u64 where "HDA_CORBWP = 0x48"
definition HDA_CORBRP :: u64 where "HDA_CORBRP = 0x4A"
definition HDA_CORBCTL :: u64 where "HDA_CORBCTL = 0x4C"
definition HDA_CORBSTS :: u64 where "HDA_CORBSTS = 0x4D"
definition HDA_CORBSIZE :: u64 where "HDA_CORBSIZE = 0x4E"
definition HDA_RIRBLBASE :: u64 where "HDA_RIRBLBASE = 0x50"
definition HDA_RIRBUBASE :: u64 where "HDA_RIRBUBASE = 0x54"
definition HDA_RIRBWP :: u64 where "HDA_RIRBWP = 0x58"
definition HDA_RINTCNT :: u64 where "HDA_RINTCNT = 0x5A"
definition HDA_RIRBCTL :: u64 where "HDA_RIRBCTL = 0x5C"
definition HDA_RIRBSTS :: u64 where "HDA_RIRBSTS = 0x5D"
definition HDA_RIRBSIZE :: u64 where "HDA_RIRBSIZE = 0x5E"
definition HDA_GCTL_CRST :: u32 where "HDA_GCTL_CRST = push_bit 0 1"

lemmas hda_offsets = HDA_GCAP_def HDA_GCTL_def HDA_STATE_def HDA_WAKEEN_def HDA_CORBLBASE_def HDA_CORBUBASE_def
  HDA_CORBWP_def HDA_CORBRP_def HDA_CORBCTL_def HDA_CORBSTS_def HDA_CORBSIZE_def HDA_RIRBLBASE_def HDA_RIRBUBASE_def
  HDA_RIRBWP_def HDA_RINTCNT_def HDA_RIRBCTL_def HDA_RIRBSTS_def HDA_RIRBSIZE_def

record hda_ring =
  ring_virt :: u64
  ring_phys :: u64
  ring_entries :: u16

text \<open>The buffers: 256 commands of four bytes, 256 responses of eight bytes, padding to a page.\<close>

definition corb_bytes :: u64 where "corb_bytes = 256 * 4"
definition buffers_size :: u64 where "buffers_size = 256 * 4 + 256 * 8 + 1024"

definition mmio_read32 :: "u64 \<Rightarrow> ('a intr_state_scheme, u32) routine" where
  "mmio_read32 a s = (Ret (ucast (mmio_val a s)), mmio_next a s)"

definition mmio_read16 :: "u64 \<Rightarrow> ('a intr_state_scheme, u16) routine" where
  "mmio_read16 a s = (Ret (ucast (mmio_val a s)), mmio_next a s)"

definition mmio_read8 :: "u64 \<Rightarrow> ('a intr_state_scheme, u8) routine" where
  "mmio_read8 a s = (Ret (ucast (mmio_val a s)), mmio_next a s)"

definition mmio_write32 :: "u64 \<Rightarrow> u32 \<Rightarrow> ('a intr_state_scheme, unit) routine" where
  "mmio_write32 a v = modify (mmio_put a (ucast v))"

definition mmio_write16 :: "u64 \<Rightarrow> u16 \<Rightarrow> ('a intr_state_scheme, unit) routine" where
  "mmio_write16 a v = modify (mmio_put a (ucast v))"

definition mmio_write8 :: "u64 \<Rightarrow> u8 \<Rightarrow> ('a intr_state_scheme, unit) routine" where
  "mmio_write8 a v = modify (mmio_put a (ucast v))"

section \<open>Operations\<close>

definition virt2phys :: "u64 \<Rightarrow> 'a acpi_state_scheme \<Rightarrow> u64" where
  "virt2phys addr s = addr - hhdm_response_offset s"

definition delay :: "u32 \<Rightarrow> ('s, unit) routine" where
  "delay d = for_each (\<lambda>_. return ()) [0..<unat d]"


text \<open>A polling loop: while the test of a read fails, the counter is decremented, and the loop gives up when it
  reaches zero.\<close>

primrec poll :: "('s, bool) routine \<Rightarrow> nat \<Rightarrow> ('s, bool) routine" where
  "poll ready 0 = return False"
| "poll ready (Suc t) =
     bind ready (\<lambda>ok.
       if ok then return True
       else if t = 0 then return False
       else seq (delay 10) (poll ready t))"

definition sound_dev_reset :: "pci_device \<Rightarrow> u64 \<Rightarrow> ('a intr_state_scheme, int) routine" where
  "sound_dev_reset dev gctl =
     (if vendor_id dev \<noteq> 0x8086 then
        stop_with (Panic ''Intel Hda driver: Device recieved was not intel'' STATUS_INVALID)
      else
        seq (modify (LogStr_event ''generic hda'' (''Reseting hda controller'' @ [CHR 0x0A])))
       (seq (bind (mmio_read32 gctl) (\<lambda>v. mmio_write32 gctl (v AND NOT HDA_GCTL_CRST)))
       (bind (poll (bind (mmio_read32 gctl) (\<lambda>v. return (v AND HDA_GCTL_CRST = 0))) 10000) (\<lambda>cleared.
          if \<not> cleared then
            seq (modify (LogStr_event ''generic hda'' (''hda failed to reset (stuck on ) '' @ [CHR 0x0A])))
                (return (errno_value ENXIO))
          else
            seq (delay 1000)
           (seq (bind (mmio_read32 gctl) (\<lambda>v. mmio_write32 gctl (v OR HDA_GCTL_CRST)))
           (bind (poll (bind (mmio_read32 gctl) (\<lambda>v. return (v AND HDA_GCTL_CRST \<noteq> 0))) 10000) (\<lambda>started.
              if \<not> started then
                seq (modify (LogStr_event ''generic hda'' (''hda failed to turn back on'' @ [CHR 0x0A])))
                    (return (errno_value ENXIO))
              else seq (delay 1000) (return 0))))))))"

definition hda_getring_size :: "u8 \<Rightarrow> u16" where
  "hda_getring_size caps =
     (if caps AND push_bit 6 1 \<noteq> 0 then 256
      else if caps AND push_bit 5 1 \<noteq> 0 then 16
      else if caps AND push_bit 4 1 \<noteq> 0 then 2
      else 0)"

definition sound_init :: "u64 \<Rightarrow> pci_device \<Rightarrow> u64 \<Rightarrow> ('a acpi_state_scheme, int) routine" where
  "sound_init buf dev mmio =
     (if vendor_id dev \<noteq> 0x8086 then return (errno_value EINVAL)
      else
        seq (mmio_write8 (mmio + HDA_CORBCTL) 0)
       (seq (mmio_write8 (mmio + HDA_RIRBCTL) 0)
       (bind (gets (virt2phys buf)) (\<lambda>raw.
        seq (mmio_write32 (mmio + HDA_CORBLBASE) (ucast raw))
       (seq (mmio_write32 (mmio + HDA_CORBUBASE) (ucast (drop_bit 32 (raw + 1024))))
       (seq (mmio_write32 (mmio + HDA_RIRBLBASE) (ucast (raw + 1024)))
       (seq (mmio_write32 (mmio + HDA_RIRBUBASE) (ucast (drop_bit 32 raw)))
       (seq (mmio_write16 (mmio + HDA_CORBRP) 0x8000)
       (bind (poll (bind (mmio_read16 (mmio + HDA_CORBRP)) (\<lambda>v. return (v AND 0x8000 \<noteq> 0))) 10000) (\<lambda>moved.
          if \<not> moved then
            seq (modify (LogStr_event ''generic hda'' (''corbrp failed to move to the start'' @ [CHR 0x0A])))
                (return (errno_value ENXIO))
          else
            seq (mmio_write16 (mmio + HDA_CORBRP) 0)
           (seq (mmio_write16 (mmio + HDA_RIRBWP) 0x8000)
           (seq (mmio_write8 (mmio + HDA_CORBCTL) 0x02)
           (seq (mmio_write8 (mmio + HDA_RIRBCTL) 0x02)
           (seq (modify (LogStr_event ''generic hda'' (''corbrp reset succesfully'' @ [CHR 0x0A])))
                (return 0)))))))))))))))"

section \<open>The audio processor\<close>

definition sound_entry :: "('a machine_scheme, unit) routine" where
  "sound_entry = seq (modify (LogStr_event ''banger'' (''Time out.'' @ [CHR 0x0A]))) cpu_stop"

text \<open>The statements after the halt are not reached. They are modelled as the routine they would be, for the
  device \<open>dev\<close> that \<open>sound_dev\<close> holds.\<close>

definition gctl_of :: "u64 \<Rightarrow> u64" where
  "gctl_of mmio = mmio + 4 * HDA_GCTL"

definition sound_bringup :: "pci_device \<Rightarrow> ('a acpi_state_scheme, unit) routine" where
  "sound_bringup dev =
     seq (modify (LogfStr_event ''banger'' (''Audio device found vendor id = %lu device id = %lu '' @ [CHR 0x0A])
            [IntArg (ucast (vendor_id dev)), IntArg (ucast (device_id dev))]))
    (bind (map_mmio (bar dev ! 0)) (\<lambda>mmio.
     bind (sound_dev_reset dev (gctl_of mmio)) (\<lambda>res.
     seq (if res \<noteq> 0 then
            modify (\<lambda>s. LogfStr_event ''banger'' (''reset device failed with ec %i halting on core %i '' @ [CHR 0x0A])
              [IntArg (of_int res), IntArg (percpu_read V_cpu_id s)] s)
          else return ())
    (bind (mmio_read8 (mmio + HDA_CORBSIZE)) (\<lambda>corbsize.
     bind (mmio_read8 (mmio + HDA_RIRBSIZE)) (\<lambda>rirbsize.
     seq (if ucast (hda_getring_size corbsize) * (4 :: u64) = 0 \<or> ucast (hda_getring_size rirbsize) * (8 :: u64) = 0 then
            modify (\<lambda>s. LogfStr_event ''banger'' ''Unsupported corb/rirp configuration halting on core %i''
              [IntArg (percpu_read V_cpu_id s)] s)
          else return ())
    (bind KGetPage (\<lambda>buffers.
     seq (modify (\<lambda>s. s\<lparr>mem := snd (memset buffers 0 PAGE_SIZE (mem s))\<rparr>))
    (bind (sound_init buffers dev mmio) (\<lambda>res2.
     seq (if res2 \<noteq> 0 then
            modify (LogfStr_event ''banger'' (''sound init returned %i '' @ [CHR 0x0A]) [IntArg (of_int res2)])
          else return ())
    (seq (modify (LogStr_event ''banger'' (''Time out.'' @ [CHR 0x0A])))
    (seq (for_each (\<lambda>_. modify (LogStr_event ''dej'' (''I will not write bad code'' @ [CHR 0x0A]))) [0..<10])
    (seq (modify (LogStr_event ''dej'' (''whoever said i will not write bad code is lying all the code is bad'' @ [CHR 0x0A])))
         cpu_stop)))))))))))))"

section \<open>Polling\<close>

lemma step_modify: "seq (modify f) g s = g (f s)" "bind (gets h) k s = k (h s) s"
  by (simp_all add: routine_simps bind_def)

text \<open>\<open>next_read s a k\<close> is what the device answers to the \<open>k\<close>-th read of \<open>a\<close> from now on.\<close>

definition next_read :: "'a intr_state_scheme \<Rightarrow> u64 \<Rightarrow> nat \<Rightarrow> u64" where
  "next_read s a k = mmio_in s a (mmio_reads s a + k)"

definition after_reads :: "u64 \<Rightarrow> nat \<Rightarrow> 'a intr_state_scheme \<Rightarrow> 'a intr_state_scheme" where
  "after_reads a n s = s\<lparr>mmio_reads := (mmio_reads s)(a := mmio_reads s a + n)\<rparr>"

lemma delay_returns [simp]: "delay d s = (Ret (), s)"
proof -
  have "for_each (\<lambda>_. return ()) xs s = (Ret (), s)" for xs :: "nat list" by (induction xs) (simp_all add: routine_simps)
  then show ?thesis by (simp add: delay_def)
qed

lemma after_reads_simps [simp]:
  "after_reads a m (after_reads a n s) = after_reads a (n + m) s"
  "mmio_next a s = after_reads a (Suc 0) s"
  "mmio_reads (after_reads a n s) a = mmio_reads s a + n"
  "mmio_in (after_reads a n s) = mmio_in s"
  "next_read (after_reads a n s) a k = next_read s a (n + k)"
  "mmio_out (after_reads a n s) = mmio_out s"
  by (simp_all add: after_reads_def mmio_next_def next_read_def add.assoc)

lemma mmio_val_next: "mmio_val a s = next_read s a 0"
  by (simp add: mmio_val_def next_read_def)

text \<open>A poll ends at the first answer that passes the test, or after \<open>t\<close> reads.\<close>

definition first_ok :: "(u64 \<Rightarrow> bool) \<Rightarrow> (nat \<Rightarrow> u64) \<Rightarrow> nat \<Rightarrow> nat option" where
  "first_ok P f t = find (\<lambda>k. P (f k)) [0..<t]"

lemma first_ok_Suc: "first_ok P f (Suc t) = (if P (f 0) then Some 0 else map_option Suc (first_ok P (\<lambda>k. f (Suc k)) t))"
proof -
  have m: "find Q (map g xs) = map_option g (find (Q \<circ> g) xs)" for Q :: "nat \<Rightarrow> bool" and g and xs :: "nat list"
    by (induction xs) auto
  have "[0..<Suc t] = 0 # map Suc [0..<t]" by (simp add: upt_conv_Cons map_Suc_upt del: upt_Suc)
  then show ?thesis by (simp add: first_ok_def m comp_def del: upt_Suc)
qed

lemma first_ok_0 [simp]: "first_ok P f 0 = None"
  by (simp add: first_ok_def)

lemma first_ok_bound: "first_ok P f t = Some k \<Longrightarrow> k < t"
  by (auto simp: first_ok_def find_Some_iff)

lemma poll_reads:
  assumes "\<And>s. ready s = (Ret (P (mmio_val a s)), mmio_next a s)" and "0 < t"
  shows "poll ready t s =
     (case first_ok P (next_read s a) t of
        None \<Rightarrow> (Ret False, after_reads a t s)
      | Some k \<Rightarrow> (Ret True, after_reads a (Suc k) s))"
  using assms(2)
proof (induction t arbitrary: s)
  case (Suc t)
  show ?case
  proof (cases "P (next_read s a 0) \<or> t = 0")
    case True
    then show ?thesis by (auto simp: first_ok_Suc routine_simps bind_def assms(1) mmio_val_next)
  next
    case False
    then show ?thesis
      using Suc.IH [of "after_reads a (Suc 0) s"]
      by (auto simp: first_ok_Suc routine_simps bind_def assms(1) mmio_val_next split: option.split)
  qed
qed simp

section \<open>Properties\<close>

definition crst_clear :: "u64 \<Rightarrow> bool" where "crst_clear v \<longleftrightarrow> \<not> bit v 0"
definition crst_set :: "u64 \<Rightarrow> bool" where "crst_set v \<longleftrightarrow> bit v 0"

lemma crst_test: "(ucast (v :: u64) AND HDA_GCTL_CRST = (0 :: u32)) \<longleftrightarrow> crst_clear v"
proof -
  have "bit (ucast v :: u32) 0 \<longleftrightarrow> bit v 0" by (simp add: bit_unsigned_iff del: bit_0)
  then show ?thesis by (simp add: HDA_GCTL_CRST_def crst_clear_def and_one_eq even_iff_mod_2_eq_zero [symmetric] bit_0)
qed

text \<open>The first answer is consumed by the read that clears the reset bit, the one after the first poll by the
  read that sets it.\<close>

definition resets_in_time :: "u64 \<Rightarrow> 'a intr_state_scheme \<Rightarrow> bool" where
  "resets_in_time gctl s \<longleftrightarrow>
     (case first_ok crst_clear (\<lambda>k. next_read s gctl (1 + k)) 10000 of
        None \<Rightarrow> False
      | Some n \<Rightarrow> first_ok crst_set (\<lambda>k. next_read s gctl (3 + n + k)) 10000 \<noteq> None)"

lemma put_simps [simp]:
  "next_read (mmio_put b v s) a k = next_read s a k"
  "next_read (LogStr_event m t s) a k = next_read s a k"
  "mmio_reads (mmio_put b v s) = mmio_reads s"
  "mmio_reads (LogStr_event m t s) = mmio_reads s"
  "mmio_out (LogStr_event m t s) = mmio_out s"
  by (simp_all add: next_read_def mmio_put_def LogStr_event_def)

text \<open>Theorem: the controller reset always returns, after at most 20002 reads of the control register, and it
  reports success exactly when the device clears its reset bit and sets it again within ten
  thousand reads each.\<close>

theorem sound_dev_reset_returns:
  assumes "vendor_id dev = 0x8086"
  shows "\<exists>s'. sound_dev_reset dev gctl s = (Ret (if resets_in_time gctl s then 0 else errno_value ENXIO), s') \<and>
     mmio_reads s' gctl \<le> mmio_reads s gctl + 20002"
proof -
  define s1 where "s1 = mmio_put gctl (ucast (ucast (next_read s gctl 0) AND NOT HDA_GCTL_CRST :: u32))
     (after_reads gctl (Suc 0) (LogStr_event ''generic hda'' (''Reseting hda controller'' @ [CHR 0x0A]) s))"
  have rd: "next_read s1 gctl k = next_read s gctl (1 + k)" "mmio_reads s1 gctl = mmio_reads s gctl + 1" for k
    by (simp_all add: s1_def)
  let ?c = "bind (mmio_read32 gctl) (\<lambda>v. return (v AND HDA_GCTL_CRST = 0))"
  let ?d = "bind (mmio_read32 gctl) (\<lambda>v. return (v AND HDA_GCTL_CRST \<noteq> 0))"
  have c: "?c s = (Ret (crst_clear (mmio_val gctl s)), mmio_next gctl s)" for s :: "'a intr_state_scheme"
    by (simp add: bind_def mmio_read32_def return_def crst_test)
  have d: "?d s = (Ret (crst_set (mmio_val gctl s)), mmio_next gctl s)" for s :: "'a intr_state_scheme"
    by (simp add: bind_def mmio_read32_def return_def crst_test) (simp add: crst_clear_def crst_set_def)
  have run: "sound_dev_reset dev gctl s = (\<lambda>s.
      (bind (poll ?c 10000) (\<lambda>cleared.
          if \<not> cleared then
            seq (modify (LogStr_event ''generic hda'' (''hda failed to reset (stuck on ) '' @ [CHR 0x0A])))
                (return (errno_value ENXIO))
          else
            seq (delay 1000)
           (seq (bind (mmio_read32 gctl) (\<lambda>v. mmio_write32 gctl (v OR HDA_GCTL_CRST)))
           (bind (poll ?d 10000) (\<lambda>started.
              if \<not> started then
                seq (modify (LogStr_event ''generic hda'' (''hda failed to turn back on'' @ [CHR 0x0A])))
                    (return (errno_value ENXIO))
              else seq (delay 1000) (return 0)))))) s) s1"
    using assms by (simp add: sound_dev_reset_def seq_def bind_def modify_def mmio_read32_def mmio_write32_def mmio_val_next s1_def)
  show ?thesis
  proof (cases "first_ok crst_clear (\<lambda>k. next_read s gctl (1 + k)) 10000")
    case None
    then have "first_ok crst_clear (next_read s1 gctl) 10000 = None" using rd(1) by presburger
    then show ?thesis
      unfolding run using None rd(2)
      by (simp add: poll_reads [of ?c, OF c] resets_in_time_def seq_def bind_def modify_def return_def)
  next
    case (Some n)
    then have f1: "first_ok crst_clear (next_read s1 gctl) 10000 = Some n" using rd(1) by presburger
    define s2 where "s2 = mmio_put gctl (ucast (ucast (next_read s1 gctl (Suc n)) OR HDA_GCTL_CRST :: u32))
       (after_reads gctl (Suc (Suc n)) s1)"
    have rd2: "next_read s2 gctl k = next_read s gctl (3 + n + k)" "mmio_reads s2 gctl = mmio_reads s gctl + n + 3" for k
      using rd by (simp_all add: s2_def numeral_3_eq_3 add.assoc)
    have run2: "sound_dev_reset dev gctl s = bind (poll ?d 10000) (\<lambda>started.
              if \<not> started then
                seq (modify (LogStr_event ''generic hda'' (''hda failed to turn back on'' @ [CHR 0x0A])))
                    (return (errno_value ENXIO))
              else seq (delay 1000) (return 0)) s2"
      unfolding run by (simp add: poll_reads [of ?c, OF c] f1 seq_def bind_def mmio_read32_def mmio_write32_def modify_def
          mmio_val_next s2_def)
    have n: "n < 10000" using Some by (rule first_ok_bound)
    have f2: "first_ok crst_set (next_read s2 gctl) 10000 = first_ok crst_set (\<lambda>k. next_read s gctl (3 + n + k)) 10000"
      using rd2(1) by presburger
    show ?thesis
      unfolding run2 using n rd2(2) Some
      by (auto simp: poll_reads [of ?d, OF d] f2 resets_in_time_def seq_def bind_def modify_def return_def
          dest!: first_ok_bound split: option.split)
  qed
qed

lemma high_half_aligned:
  assumes "aligned 4096 raw"
  shows "drop_bit 32 (raw + 1024) = drop_bit 32 raw"
proof -
  let ?n = "unat raw"
  obtain k where k: "?n = 4096 * k" using assms by (auto simp: aligned_def)
  have n: "?n < 2 ^ 64" using unat_lt2p [of raw] by simp
  have "?n + 1024 < 2 ^ 64" using n k by simp
  then have "unat (raw + 1024) = ?n + 1024" by (simp add: unat_word_ariths)
  moreover have "(4096 * k + 1024) div 2 ^ 32 = 4096 * k div 2 ^ 32"
  proof -
    have "(4096 * k + 1024) div 4096 = k" by simp
    then have "(4096 * k + 1024) div (4096 * 1048576) = k div 1048576" by (simp only: div_mult2_eq)
    moreover have "4096 * k div (4096 * 1048576) = k div 1048576" by (rule div_mult_mult1) simp
    ultimately show ?thesis by simp
  qed
  ultimately have "unat (drop_bit 32 (raw + 1024)) = unat (drop_bit 32 raw)"
    using k by (simp add: drop_bit_eq_div unat_div)
  then show ?thesis by (simp only: word_unat_eq_iff)
qed

text \<open>The first seven writes of \<open>sound_init\<close>: the two rings are stopped, get their addresses and the read pointer is
  reset. The upper halves are those of the other ring.\<close>

definition ring_setup :: "u64 \<Rightarrow> u64 \<Rightarrow> u64 \<Rightarrow> (u64 \<times> u64) list" where
  "ring_setup mmio corb rirb =
     [(mmio + HDA_CORBCTL, 0), (mmio + HDA_RIRBCTL, 0),
      (mmio + HDA_CORBLBASE, take_bit 32 corb), (mmio + HDA_CORBUBASE, drop_bit 32 corb),
      (mmio + HDA_RIRBLBASE, take_bit 32 rirb), (mmio + HDA_RIRBUBASE, drop_bit 32 rirb),
      (mmio + HDA_CORBRP, 0x8000)]"

definition ring_start :: "u64 \<Rightarrow> (u64 \<times> u64) list" where
  "ring_start mmio = [(mmio + HDA_CORBRP, 0), (mmio + HDA_RIRBWP, 0x8000), (mmio + HDA_CORBCTL, 2), (mmio + HDA_RIRBCTL, 2)]"

lemma ucast_low_half: "(ucast (ucast (x :: u64) :: u32) :: u64) = take_bit 32 x"
  by (rule bit_word_eqI) (auto simp: bit_simps)

lemma ucast_high_half: "take_bit 32 (drop_bit 32 x :: u64) = drop_bit 32 x"
  by (rule low_bits_equal) (auto simp: bit_simps dest: bit_imp_le_length)

text \<open>Theorem: although the upper base registers get the half of the other ring's address, a page-aligned buffer
  is programmed correctly: both rings get their own physical address, 1024 bytes apart. The rings are
  started exactly when the read pointer reports its reset within ten thousand reads, otherwise \<open>ENXIO\<close> is returned.\<close>

theorem sound_init_programs_rings:
  assumes "vendor_id dev = 0x8086" and "aligned 4096 (virt2phys buf s)"
  shows "\<exists>s'. sound_init buf dev mmio s =
       (Ret (if first_ok (\<lambda>v. bit v 15) (next_read s (mmio + HDA_CORBRP)) 10000 = None then errno_value ENXIO else 0), s') \<and>
     mmio_out s' = mmio_out s @ ring_setup mmio (virt2phys buf s) (virt2phys buf s + 1024) @
       (if first_ok (\<lambda>v. bit v 15) (next_read s (mmio + HDA_CORBRP)) 10000 = None then [] else ring_start mmio)"
proof -
  let ?a = "mmio + HDA_CORBRP" and ?raw = "virt2phys buf s"
  let ?t = "bind (mmio_read16 ?a) (\<lambda>v. return (v AND 0x8000 \<noteq> 0))"
  have t: "?t s = (Ret (bit (mmio_val ?a s) 15), mmio_next ?a s)" for s :: "'a acpi_state_scheme"
  proof -
    have "(ucast v AND 0x8000 \<noteq> (0 :: u16)) \<longleftrightarrow> bit v 15" for v :: u64
    proof -
      have "ucast v AND 0x8000 \<noteq> (0 :: u16) \<longleftrightarrow> bit (ucast v :: u16) 15"
        using and_exp_eq_0_iff_not_bit [of "ucast v :: u16" 15] by simp
      then show ?thesis by (simp add: bit_unsigned_iff)
    qed
    then show ?thesis by (simp add: bind_def mmio_read16_def return_def)
  qed
  define s1 where "s1 = fold (\<lambda>(a, v). mmio_put a v) (ring_setup mmio ?raw (?raw + 1024)) s"
  have s1: "mmio_out s1 = mmio_out s @ ring_setup mmio ?raw (?raw + 1024)" "next_read s1 ?a = next_read s ?a"
    by (simp_all add: s1_def ring_setup_def mmio_put_def next_read_def fun_eq_iff)
  have run: "sound_init buf dev mmio s = bind (poll ?t 10000) (\<lambda>moved.
          if \<not> moved then
            seq (modify (LogStr_event ''generic hda'' (''corbrp failed to move to the start'' @ [CHR 0x0A])))
                (return (errno_value ENXIO))
          else
            seq (mmio_write16 (mmio + HDA_CORBRP) 0)
           (seq (mmio_write16 (mmio + HDA_RIRBWP) 0x8000)
           (seq (mmio_write8 (mmio + HDA_CORBCTL) 0x02)
           (seq (mmio_write8 (mmio + HDA_RIRBCTL) 0x02)
           (seq (modify (LogStr_event ''generic hda'' (''corbrp reset succesfully'' @ [CHR 0x0A])))
                (return 0)))))) s1"
    using assms(1) high_half_aligned [OF assms(2), unfolded virt2phys_def]
    by (simp add: sound_init_def step_modify mmio_write8_def mmio_write16_def mmio_write32_def s1_def ring_setup_def
        ucast_low_half ucast_high_half virt2phys_def mmio_put_def)
  show ?thesis
    unfolding run using s1
    by (auto simp: poll_reads [of ?t, OF t] seq_def bind_def modify_def return_def mmio_write8_def mmio_write16_def
        ring_start_def mmio_put_def split: option.split)
qed

theorem sound_dev_reset_returns_witness:
  "\<exists>s'. sound_dev_reset (dev_pci ahci_device) 0x1008 acpi_test =
       (Ret (if resets_in_time 0x1008 acpi_test then 0 else errno_value ENXIO), s') \<and>
     mmio_reads s' 0x1008 \<le> mmio_reads acpi_test 0x1008 + 20002"
  by (rule sound_dev_reset_returns) (simp add: ahci_device_def)

theorem sound_init_programs_rings_witness:
  "\<exists>s'. sound_init 0x5000 (dev_pci ahci_device) 0x1000 acpi_test =
       (Ret (if first_ok (\<lambda>v. bit v 15) (next_read acpi_test (0x1000 + HDA_CORBRP)) 10000 = None
             then errno_value ENXIO else 0), s') \<and>
     mmio_out s' = mmio_out acpi_test @
       ring_setup 0x1000 (virt2phys 0x5000 acpi_test) (virt2phys 0x5000 acpi_test + 1024) @
       (if first_ok (\<lambda>v. bit v 15) (next_read acpi_test (0x1000 + HDA_CORBRP)) 10000 = None then [] else ring_start 0x1000)"
  by (rule sound_init_programs_rings) (simp_all add: ahci_device_def virt2phys_def acpi_test_fields aligned_def)

text \<open>The pointer to the control register is scaled by four: the unreachable code would reset the device through
  the register at offset 0x20.\<close>

lemma gctl_misplaced: "gctl_of mmio = mmio + 0x20"
  by (simp add: gctl_of_def HDA_GCTL_def)

end
