(* ===== verification/Keyboard.thy ===== *)
theory Keyboard
  imports Hda
begin

text \<open>
  The PS/2 keyboard driver, \<^verbatim>\<open>drivers/keyboard\<close>. The controller's status port 0x64 and data port 0x60 are
  read through the port streams of the machine. The two wait macros and the jump back to \<open>start\<close> may
  loop for ever, so the functions that contain them are partial; \<open>None\<close> is a wait that never ends.
\<close>

section \<open>Keys and tables\<close>

text \<open>An enumeration is an \<open>int\<close> in C; the enumerators count from zero.\<close>

type_synonym key_t = int

definition KEY_NONE :: key_t where "KEY_NONE = 0"
definition KEY_F1 :: key_t where "KEY_F1 = 1"
definition KEY_F2 :: key_t where "KEY_F2 = 2"
definition KEY_F3 :: key_t where "KEY_F3 = 3"
definition KEY_F4 :: key_t where "KEY_F4 = 4"
definition KEY_F5 :: key_t where "KEY_F5 = 5"
definition KEY_F6 :: key_t where "KEY_F6 = 6"
definition KEY_F7 :: key_t where "KEY_F7 = 7"
definition KEY_F8 :: key_t where "KEY_F8 = 8"
definition KEY_F9 :: key_t where "KEY_F9 = 9"
definition KEY_F10 :: key_t where "KEY_F10 = 10"
definition KEY_F11 :: key_t where "KEY_F11 = 11"
definition KEY_F12 :: key_t where "KEY_F12 = 12"
definition KEY_ESC :: key_t where "KEY_ESC = 13"
definition KEY_GRAVE :: key_t where "KEY_GRAVE = 14"
definition KEY_TAB :: key_t where "KEY_TAB = 15"
definition KEY_LEFT_CTRL :: key_t where "KEY_LEFT_CTRL = 16"
definition KEY_LEFT_SHIFT :: key_t where "KEY_LEFT_SHIFT = 17"
definition KEY_LEFT_ALT :: key_t where "KEY_LEFT_ALT = 18"
definition KEY_Q :: key_t where "KEY_Q = 19"
definition KEY_W :: key_t where "KEY_W = 20"
definition KEY_E :: key_t where "KEY_E = 21"
definition KEY_R :: key_t where "KEY_R = 22"
definition KEY_T :: key_t where "KEY_T = 23"
definition KEY_Y :: key_t where "KEY_Y = 24"
definition KEY_U :: key_t where "KEY_U = 25"
definition KEY_I :: key_t where "KEY_I = 26"
definition KEY_O :: key_t where "KEY_O = 27"
definition KEY_P :: key_t where "KEY_P = 28"
definition KEY_A :: key_t where "KEY_A = 29"
definition KEY_S :: key_t where "KEY_S = 30"
definition KEY_D :: key_t where "KEY_D = 31"
definition KEY_F :: key_t where "KEY_F = 32"
definition KEY_G :: key_t where "KEY_G = 33"
definition KEY_H :: key_t where "KEY_H = 34"
definition KEY_J :: key_t where "KEY_J = 35"
definition KEY_K :: key_t where "KEY_K = 36"
definition KEY_L :: key_t where "KEY_L = 37"
definition KEY_Z :: key_t where "KEY_Z = 38"
definition KEY_X :: key_t where "KEY_X = 39"
definition KEY_C :: key_t where "KEY_C = 40"
definition KEY_V :: key_t where "KEY_V = 41"
definition KEY_B :: key_t where "KEY_B = 42"
definition KEY_N :: key_t where "KEY_N = 43"
definition KEY_M :: key_t where "KEY_M = 44"
definition KEY_1 :: key_t where "KEY_1 = 45"
definition KEY_2 :: key_t where "KEY_2 = 46"
definition KEY_3 :: key_t where "KEY_3 = 47"
definition KEY_4 :: key_t where "KEY_4 = 48"
definition KEY_5 :: key_t where "KEY_5 = 49"
definition KEY_6 :: key_t where "KEY_6 = 50"
definition KEY_7 :: key_t where "KEY_7 = 51"
definition KEY_8 :: key_t where "KEY_8 = 52"
definition KEY_9 :: key_t where "KEY_9 = 53"
definition KEY_0 :: key_t where "KEY_0 = 54"
definition KEY_MINUS :: key_t where "KEY_MINUS = 55"
definition KEY_EQUAL :: key_t where "KEY_EQUAL = 56"
definition KEY_LBRACKET :: key_t where "KEY_LBRACKET = 57"
definition KEY_RBRACKET :: key_t where "KEY_RBRACKET = 58"
definition KEY_BACKSLASH :: key_t where "KEY_BACKSLASH = 59"
definition KEY_SEMICOLON :: key_t where "KEY_SEMICOLON = 60"
definition KEY_APOSTROPHE :: key_t where "KEY_APOSTROPHE = 61"
definition KEY_COMMA :: key_t where "KEY_COMMA = 62"
definition KEY_DOT :: key_t where "KEY_DOT = 63"
definition KEY_SLASH :: key_t where "KEY_SLASH = 64"
definition KEY_SPACE :: key_t where "KEY_SPACE = 65"
definition KEY_ENTER :: key_t where "KEY_ENTER = 66"
definition KEY_BACKSPACE :: key_t where "KEY_BACKSPACE = 67"
definition KEY_CAPSLOCK :: key_t where "KEY_CAPSLOCK = 68"
definition KEY_RIGHT_SHIFT :: key_t where "KEY_RIGHT_SHIFT = 69"
definition KEY_NUMLOCK :: key_t where "KEY_NUMLOCK = 70"
definition KEY_SCROLLLOCK :: key_t where "KEY_SCROLLLOCK = 71"
definition KEY_KP_0 :: key_t where "KEY_KP_0 = 72"
definition KEY_KP_1 :: key_t where "KEY_KP_1 = 73"
definition KEY_KP_2 :: key_t where "KEY_KP_2 = 74"
definition KEY_KP_3 :: key_t where "KEY_KP_3 = 75"
definition KEY_KP_4 :: key_t where "KEY_KP_4 = 76"
definition KEY_KP_5 :: key_t where "KEY_KP_5 = 77"
definition KEY_KP_6 :: key_t where "KEY_KP_6 = 78"
definition KEY_KP_7 :: key_t where "KEY_KP_7 = 79"
definition KEY_KP_8 :: key_t where "KEY_KP_8 = 80"
definition KEY_KP_9 :: key_t where "KEY_KP_9 = 81"
definition KEY_KP_DOT :: key_t where "KEY_KP_DOT = 82"
definition KEY_KP_PLUS :: key_t where "KEY_KP_PLUS = 83"
definition KEY_KP_MINUS :: key_t where "KEY_KP_MINUS = 84"
definition KEY_KP_STAR :: key_t where "KEY_KP_STAR = 85"
definition KEY_RIGHT_ALT :: key_t where "KEY_RIGHT_ALT = 86"
definition KEY_RIGHT_CTRL :: key_t where "KEY_RIGHT_CTRL = 87"
definition KEY_LEFT_GUI :: key_t where "KEY_LEFT_GUI = 88"
definition KEY_RIGHT_GUI :: key_t where "KEY_RIGHT_GUI = 89"
definition KEY_APPS :: key_t where "KEY_APPS = 90"
definition KEY_PRINTSCREEN :: key_t where "KEY_PRINTSCREEN = 91"
definition KEY_PAUSE :: key_t where "KEY_PAUSE = 92"
definition KEY_INSERT :: key_t where "KEY_INSERT = 93"
definition KEY_DELETE :: key_t where "KEY_DELETE = 94"
definition KEY_HOME :: key_t where "KEY_HOME = 95"
definition KEY_END :: key_t where "KEY_END = 96"
definition KEY_PAGE_UP :: key_t where "KEY_PAGE_UP = 97"
definition KEY_PAGE_DOWN :: key_t where "KEY_PAGE_DOWN = 98"
definition KEY_ARROW_UP :: key_t where "KEY_ARROW_UP = 99"
definition KEY_ARROW_DOWN :: key_t where "KEY_ARROW_DOWN = 100"
definition KEY_ARROW_LEFT :: key_t where "KEY_ARROW_LEFT = 101"
definition KEY_ARROW_RIGHT :: key_t where "KEY_ARROW_RIGHT = 102"
definition KEY_KP_SLASH :: key_t where "KEY_KP_SLASH = 103"
definition KEY_KP_ENTER :: key_t where "KEY_KP_ENTER = 104"
definition KEY_MEDIA_SEARCH :: key_t where "KEY_MEDIA_SEARCH = 105"
definition KEY_MEDIA_PREV :: key_t where "KEY_MEDIA_PREV = 106"
definition KEY_MEDIA_FAVOURITES :: key_t where "KEY_MEDIA_FAVOURITES = 107"
definition KEY_MEDIA_REFRESH :: key_t where "KEY_MEDIA_REFRESH = 108"
definition KEY_MEDIA_VOLUME_DOWN :: key_t where "KEY_MEDIA_VOLUME_DOWN = 109"
definition KEY_MEDIA_MUTE :: key_t where "KEY_MEDIA_MUTE = 110"
definition KEY_MEDIA_CALCULATOR :: key_t where "KEY_MEDIA_CALCULATOR = 111"
definition KEY_MEDIA_FORWARD :: key_t where "KEY_MEDIA_FORWARD = 112"
definition KEY_MEDIA_VOLUME_UP :: key_t where "KEY_MEDIA_VOLUME_UP = 113"
definition KEY_MEDIA_PLAY_PAUSE :: key_t where "KEY_MEDIA_PLAY_PAUSE = 114"
definition KEY_MEDIA_STOP :: key_t where "KEY_MEDIA_STOP = 115"
definition KEY_MEDIA_BACK :: key_t where "KEY_MEDIA_BACK = 116"
definition KEY_MEDIA_HOME :: key_t where "KEY_MEDIA_HOME = 117"
definition KEY_MEDIA_NEXT :: key_t where "KEY_MEDIA_NEXT = 118"
definition KEY_MEDIA_SELECT :: key_t where "KEY_MEDIA_SELECT = 119"
definition KEY_MEDIA_MY_COMPUTER :: key_t where "KEY_MEDIA_MY_COMPUTER = 120"
definition KEY_MEDIA_EMAIL :: key_t where "KEY_MEDIA_EMAIL = 121"
definition KEY_ACPI_POWER :: key_t where "KEY_ACPI_POWER = 122"
definition KEY_ACPI_SLEEP :: key_t where "KEY_ACPI_SLEEP = 123"
definition KEY_ACPI_WAKE :: key_t where "KEY_ACPI_WAKE = 124"

lemmas key_values =
  KEY_NONE_def KEY_F1_def KEY_F2_def KEY_F3_def KEY_F4_def KEY_F5_def KEY_F6_def KEY_F7_def KEY_F8_def
  KEY_F9_def KEY_F10_def KEY_F11_def KEY_F12_def KEY_ESC_def KEY_GRAVE_def KEY_TAB_def KEY_LEFT_CTRL_def
  KEY_LEFT_SHIFT_def KEY_LEFT_ALT_def KEY_Q_def KEY_W_def KEY_E_def KEY_R_def KEY_T_def KEY_Y_def KEY_U_def
  KEY_I_def KEY_O_def KEY_P_def KEY_A_def KEY_S_def KEY_D_def KEY_F_def KEY_G_def KEY_H_def KEY_J_def KEY_K_def
  KEY_L_def KEY_Z_def KEY_X_def KEY_C_def KEY_V_def KEY_B_def KEY_N_def KEY_M_def KEY_1_def KEY_2_def KEY_3_def
  KEY_4_def KEY_5_def KEY_6_def KEY_7_def KEY_8_def KEY_9_def KEY_0_def KEY_MINUS_def KEY_EQUAL_def
  KEY_LBRACKET_def KEY_RBRACKET_def KEY_BACKSLASH_def KEY_SEMICOLON_def KEY_APOSTROPHE_def KEY_COMMA_def
  KEY_DOT_def KEY_SLASH_def KEY_SPACE_def KEY_ENTER_def KEY_BACKSPACE_def KEY_CAPSLOCK_def KEY_RIGHT_SHIFT_def
  KEY_NUMLOCK_def KEY_SCROLLLOCK_def KEY_KP_0_def KEY_KP_1_def KEY_KP_2_def KEY_KP_3_def KEY_KP_4_def
  KEY_KP_5_def KEY_KP_6_def KEY_KP_7_def KEY_KP_8_def KEY_KP_9_def KEY_KP_DOT_def KEY_KP_PLUS_def
  KEY_KP_MINUS_def KEY_KP_STAR_def KEY_RIGHT_ALT_def KEY_RIGHT_CTRL_def KEY_LEFT_GUI_def KEY_RIGHT_GUI_def
  KEY_APPS_def KEY_PRINTSCREEN_def KEY_PAUSE_def KEY_INSERT_def KEY_DELETE_def KEY_HOME_def KEY_END_def
  KEY_PAGE_UP_def KEY_PAGE_DOWN_def KEY_ARROW_UP_def KEY_ARROW_DOWN_def KEY_ARROW_LEFT_def KEY_ARROW_RIGHT_def
  KEY_KP_SLASH_def KEY_KP_ENTER_def KEY_MEDIA_SEARCH_def KEY_MEDIA_PREV_def KEY_MEDIA_FAVOURITES_def
  KEY_MEDIA_REFRESH_def KEY_MEDIA_VOLUME_DOWN_def KEY_MEDIA_MUTE_def KEY_MEDIA_CALCULATOR_def
  KEY_MEDIA_FORWARD_def KEY_MEDIA_VOLUME_UP_def KEY_MEDIA_PLAY_PAUSE_def KEY_MEDIA_STOP_def KEY_MEDIA_BACK_def
  KEY_MEDIA_HOME_def KEY_MEDIA_NEXT_def KEY_MEDIA_SELECT_def KEY_MEDIA_MY_COMPUTER_def KEY_MEDIA_EMAIL_def
  KEY_ACPI_POWER_def KEY_ACPI_SLEEP_def KEY_ACPI_WAKE_def

definition set2_entries :: "(u8 \<times> key_t) list" where
  "set2_entries =
     [(0x01, KEY_F9), (0x03, KEY_F5), (0x04, KEY_F3), (0x05, KEY_F1), (0x06, KEY_F2), (0x07, KEY_F12)
      , (0x09, KEY_F10), (0x0A, KEY_F8), (0x0B, KEY_F6), (0x0C, KEY_F4), (0x0D, KEY_TAB), (0x0E, KEY_GRAVE)
      , (0x11, KEY_LEFT_ALT), (0x12, KEY_LEFT_SHIFT), (0x14, KEY_LEFT_CTRL), (0x15, KEY_Q), (0x16, KEY_1)
      , (0x1A, KEY_Z), (0x1B, KEY_S), (0x1C, KEY_A), (0x1D, KEY_W), (0x1E, KEY_2), (0x21, KEY_C), (0x22, KEY_X)
      , (0x23, KEY_D), (0x24, KEY_E), (0x25, KEY_4), (0x26, KEY_3), (0x29, KEY_SPACE), (0x2A, KEY_V)
      , (0x2B, KEY_F), (0x2C, KEY_T), (0x2D, KEY_R), (0x2E, KEY_5), (0x31, KEY_N), (0x32, KEY_B), (0x33, KEY_H)
      , (0x34, KEY_G), (0x35, KEY_Y), (0x36, KEY_6), (0x3A, KEY_M), (0x3B, KEY_J), (0x3C, KEY_U), (0x3D, KEY_7)
      , (0x3E, KEY_8), (0x41, KEY_COMMA), (0x42, KEY_K), (0x43, KEY_I), (0x44, KEY_O), (0x45, KEY_0)
      , (0x46, KEY_9), (0x49, KEY_DOT), (0x4A, KEY_SLASH), (0x4B, KEY_L), (0x4C, KEY_SEMICOLON), (0x4D, KEY_P)
      , (0x4E, KEY_MINUS), (0x52, KEY_APOSTROPHE), (0x54, KEY_LBRACKET), (0x55, KEY_EQUAL), (0x58, KEY_CAPSLOCK)
      , (0x59, KEY_RIGHT_SHIFT), (0x5A, KEY_ENTER), (0x5B, KEY_RBRACKET), (0x5D, KEY_BACKSLASH)
      , (0x66, KEY_BACKSPACE), (0x69, KEY_KP_1), (0x6B, KEY_KP_4), (0x6C, KEY_KP_7), (0x70, KEY_KP_0)
      , (0x71, KEY_KP_DOT), (0x72, KEY_KP_2), (0x73, KEY_KP_5), (0x74, KEY_KP_6), (0x75, KEY_KP_8)
      , (0x76, KEY_ESC), (0x77, KEY_NUMLOCK), (0x78, KEY_F11), (0x79, KEY_KP_PLUS), (0x7A, KEY_KP_3)
      , (0x7B, KEY_KP_MINUS), (0x7C, KEY_KP_STAR), (0x7D, KEY_KP_9), (0x7E, KEY_SCROLLLOCK), (0x83, KEY_F7)]"

definition set2_e0_entries :: "(u8 \<times> key_t) list" where
  "set2_e0_entries =
     [(0x10, KEY_MEDIA_SEARCH), (0x11, KEY_RIGHT_ALT), (0x14, KEY_RIGHT_CTRL), (0x15, KEY_MEDIA_PREV)
      , (0x18, KEY_MEDIA_FAVOURITES), (0x1F, KEY_LEFT_GUI), (0x20, KEY_MEDIA_REFRESH)
      , (0x21, KEY_MEDIA_VOLUME_DOWN), (0x23, KEY_MEDIA_MUTE), (0x27, KEY_RIGHT_GUI), (0x28, KEY_MEDIA_STOP)
      , (0x2B, KEY_MEDIA_CALCULATOR), (0x2F, KEY_APPS), (0x30, KEY_MEDIA_FORWARD), (0x32, KEY_MEDIA_VOLUME_UP)
      , (0x34, KEY_MEDIA_PLAY_PAUSE), (0x37, KEY_ACPI_POWER), (0x38, KEY_MEDIA_BACK), (0x3A, KEY_MEDIA_HOME)
      , (0x3B, KEY_MEDIA_STOP), (0x3F, KEY_ACPI_SLEEP), (0x40, KEY_MEDIA_MY_COMPUTER), (0x48, KEY_MEDIA_EMAIL)
      , (0x4A, KEY_KP_SLASH), (0x4D, KEY_MEDIA_NEXT), (0x50, KEY_MEDIA_SELECT), (0x5A, KEY_KP_ENTER)
      , (0x5E, KEY_ACPI_WAKE), (0x69, KEY_END), (0x6B, KEY_ARROW_LEFT), (0x6C, KEY_HOME), (0x70, KEY_INSERT)
      , (0x71, KEY_DELETE), (0x72, KEY_ARROW_DOWN), (0x74, KEY_ARROW_RIGHT), (0x75, KEY_ARROW_UP)
      , (0x7A, KEY_PAGE_DOWN), (0x7D, KEY_PAGE_UP)]"

text \<open>The elements an array initialiser does not name are zero, the first enumerator.\<close>

definition set2_table :: "u8 \<Rightarrow> key_t" where
  "set2_table r = (case map_of set2_entries r of None \<Rightarrow> KEY_NONE | Some k \<Rightarrow> k)"

definition set2_e0_table :: "u8 \<Rightarrow> key_t" where
  "set2_e0_table r = (case map_of set2_e0_entries r of None \<Rightarrow> KEY_NONE | Some k \<Rightarrow> k)"

definition SCANCODE_SET_1 :: u8 where "SCANCODE_SET_1 = 0x43"
definition SCANCODE_SET_2 :: u8 where "SCANCODE_SET_2 = 0x41"
definition SCANCODE_SET_3 :: u8 where "SCANCODE_SET_3 = 0x3F"

record keyboard_state = acpi_state +
  scodeset :: u8
  inited :: bool
  keyd :: u8

section \<open>Waiting\<close>

definition port_value :: "u16 \<Rightarrow> 'a machine_scheme \<Rightarrow> u8" where
  "port_value p s = port_in s p (port_reads s p)"

definition port_next :: "u16 \<Rightarrow> 'a machine_scheme \<Rightarrow> 'a machine_scheme" where
  "port_next p s = s\<lparr>port_reads := (port_reads s)(p := Suc (port_reads s p))\<rparr>"

lemma x86_inb_port: "x86_inb p s = (Ret (port_value p s), port_next p s)"
  by (simp add: x86_inb_def port_value_def port_next_def)

partial_function (option) waittosend :: "'a machine_scheme \<Rightarrow> 'a machine_scheme option" where
  "waittosend s =
     (if port_value 0x64 s AND 0x02 \<noteq> 0 then waittosend (port_next 0x64 s) else Some (port_next 0x64 s))"

partial_function (option) waitfordata :: "'a machine_scheme \<Rightarrow> 'a machine_scheme option" where
  "waitfordata s =
     (if port_value 0x64 s AND 0x01 = 0 then waitfordata (port_next 0x64 s) else Some (port_next 0x64 s))"

definition read_data :: "'a machine_scheme \<Rightarrow> (u8 \<times> 'a machine_scheme) option" where
  "read_data s = Option.bind (waitfordata s) (\<lambda>s. Some (port_value 0x60 s, port_next 0x60 s))"

definition send_data :: "u8 \<Rightarrow> 'a machine_scheme \<Rightarrow> 'a machine_scheme option" where
  "send_data v s = Option.bind (waittosend s) (\<lambda>s. Some (x86_outb 0x60 v s))"

section \<open>Initialisation\<close>

text \<open>The loop after a resend request: at most three attempts, until the answer is another one.\<close>

primrec resend_loop :: "u8 \<Rightarrow> nat \<Rightarrow> u8 \<times> 'a machine_scheme \<Rightarrow> (u8 \<times> 'a machine_scheme) option" where
  "resend_loop v 0 rs = Some rs"
| "resend_loop v (Suc k) rs =
     Option.bind (send_data v (snd rs)) (\<lambda>s.
     Option.bind (read_data s) (\<lambda>rs'. if fst rs' \<noteq> 0xFE then Some rs' else resend_loop v k rs'))"

definition command :: "u8 \<Rightarrow> 'a machine_scheme \<Rightarrow> (u8 \<times> 'a machine_scheme) option" where
  "command v s =
     Option.bind (send_data v s) (\<lambda>s.
     Option.bind (read_data s) (\<lambda>rs. if fst rs = 0xFE then resend_loop v 3 rs else Some rs))"

text \<open>The answer to the last command is read but not stored, so the test for a resend request sees the previous
  answer.\<close>

definition keyboard_init_loop :: "'a keyboard_state_scheme \<Rightarrow> (int \<times> 'a keyboard_state_scheme) option" where
  "keyboard_init_loop s =
     Option.bind (command 0xFF s) (\<lambda>(response, s).
     if response \<noteq> 0xFA then Some (- 1, s)
     else Option.bind (read_data s) (\<lambda>(response, s).
     if response \<noteq> 0xAA then Some (1, s)
     else Option.bind (command 0xF0 s) (\<lambda>(response, s).
     if response \<noteq> 0xFA then Some (- 1, s)
     else Option.bind (send_data 0x00 s) (\<lambda>s.
     Option.bind (read_data s) (\<lambda>(_, s).
     Option.bind (if response = 0xFE then resend_loop 0x00 3 (response, s) else Some (response, s)) (\<lambda>(response, s).
     Option.bind (read_data s) (\<lambda>(response, s).
     let s = (port_next 0x60 s)\<lparr>scodeset := port_value 0x60 s\<rparr>
     in if \<not> (scodeset s = 0x43 \<or> scodeset s = 0x41 \<or> scodeset s = 0x3F) then Some (- 1, s)
        else Some (0, s\<lparr>inited := True\<rparr>))))))))"

definition run_partial :: "('s \<Rightarrow> ('a \<times> 's) option) \<Rightarrow> ('s, 'a) routine" where
  "run_partial f s = (case f s of None \<Rightarrow> (NoReturn, s) | Some (r, s') \<Rightarrow> (Ret r, s'))"

definition keyboard_init :: "('a keyboard_state_scheme, int) routine" where
  "keyboard_init = seq Assert_sil_chill (run_partial keyboard_init_loop)"

section \<open>Polling\<close>

primrec discard :: "nat \<Rightarrow> 'a machine_scheme \<Rightarrow> 'a machine_scheme option" where
  "discard 0 s = Some s"
| "discard (Suc k) s = Option.bind (read_data s) (\<lambda>rs. discard k (snd rs))"

partial_function (option) poll_start :: "'a keyboard_state_scheme \<Rightarrow> (key_t \<times> 'a keyboard_state_scheme) option" where
  "poll_start s =
     Option.bind (read_data s) (\<lambda>rs.
     if fst rs = 0xE1 then
       Option.bind (waitfordata (snd rs)) (\<lambda>s. Option.bind (discard 7 s) poll_start)
     else if fst rs = 0xF0 then
       Option.bind (read_data (if 0 < keyd (snd rs) then (snd rs)\<lparr>keyd := keyd (snd rs) - 1\<rparr> else snd rs))
         (\<lambda>rs. Some (set2_table (fst rs), snd rs))
     else if fst rs = 0xE0 then
       Option.bind (read_data (snd rs)) (\<lambda>rs.
         if fst rs = 0xF0 then
           Option.bind (read_data (snd rs)) (\<lambda>rs. Some (set2_e0_table (fst rs), snd rs))
         else poll_start ((snd rs)\<lparr>keyd := keyd (snd rs) + 1\<rparr>))
     else Some (- 1, snd rs))"

definition keyboard_poll_k :: "('a keyboard_state_scheme, key_t) routine" where
  "keyboard_poll_k s =
     (if \<not> inited s then (Ret (- 1), s)
      else seq Assert_sil_chill (run_partial poll_start) s)"

section \<open>A controller that is always ready\<close>

text \<open>The status port never shows the busy bit and always shows that a byte is there.\<close>

definition controller_ready :: "'a machine_scheme \<Rightarrow> bool" where
  "controller_ready s \<longleftrightarrow> (\<forall>n. port_in s 0x64 n AND 0x02 = 0 \<and> port_in s 0x64 n AND 0x01 \<noteq> 0)"

text \<open>The byte that the data port delivers \<open>k\<close> reads from now.\<close>

definition data_byte :: "'a machine_scheme \<Rightarrow> nat \<Rightarrow> u8" where
  "data_byte s k = port_in s 0x60 (port_reads s 0x60 + k)"

text \<open>The state after \<open>j\<close> more reads of the status port and \<open>k\<close> more of the data port.\<close>

definition advanced :: "nat \<Rightarrow> nat \<Rightarrow> 'a machine_scheme \<Rightarrow> 'a machine_scheme" where
  "advanced j k s =
     s\<lparr>port_reads := (port_reads s)(0x64 := port_reads s 0x64 + j, 0x60 := port_reads s 0x60 + k)\<rparr>"

lemma advanced_simps [simp]:
  "advanced j k (advanced j' k' s) = advanced (j' + j) (k' + k) s"
  "controller_ready (advanced j k s) = controller_ready s"
  "data_byte (advanced j k s) i = data_byte s (k + i)"
  "port_next 0x64 s = advanced (Suc 0) 0 s"
  "port_next 0x60 s = advanced 0 (Suc 0) s"
  "port_value 0x60 s = data_byte s 0"
  "port_out (advanced j k s) = port_out s"
  "keyd (advanced j k q) = keyd q"
  "inited (advanced j k q) = inited q"
  "scodeset (advanced j k q) = scodeset q"
  "(advanced j k q)\<lparr>keyd := d\<rparr> = advanced j k (q\<lparr>keyd := d\<rparr>)"
  "controller_ready (q\<lparr>keyd := d\<rparr>) = controller_ready q"
  "data_byte (q\<lparr>keyd := d\<rparr>) i = data_byte q i"
  "x86_outb p v (advanced j k s) = advanced j k (x86_outb p v s)"
  "controller_ready (x86_outb p v s) = controller_ready s"
  "data_byte (x86_outb p v s) i = data_byte s i"
  by (simp_all add: advanced_def controller_ready_def data_byte_def port_next_def port_value_def x86_outb_def fun_upd_def
      add.assoc fun_eq_iff)

lemma waits_ready:
  assumes "controller_ready s"
  shows "waitfordata s = Some (advanced 1 0 s)" "waittosend s = Some (advanced 1 0 s)"
  using assms by (simp_all add: waitfordata.simps waittosend.simps controller_ready_def port_value_def)

lemma read_data_ready: "controller_ready s \<Longrightarrow> read_data s = Some (data_byte s 0, advanced 1 1 s)"
  by (simp add: read_data_def waits_ready)

lemma send_data_ready: "controller_ready s \<Longrightarrow> send_data v s = Some (advanced 1 0 (x86_outb 0x60 v s))"
  by (simp add: send_data_def waits_ready)

lemma discard_ready: "controller_ready s \<Longrightarrow> discard k s = Some (advanced k k s)"
proof (induction k arbitrary: s)
  case 0
  then show ?case by (simp add: advanced_def)
next
  case (Suc k)
  then show ?case by (simp add: read_data_ready)
qed

section \<open>Events\<close>

text \<open>What a keyboard sends before a key is released: the pause key sends eight bytes, the press of a key of the
  second table two.\<close>

datatype kb_event = Pause | ExtPress u8

datatype kb_release = Release u8 | ExtRelease u8

primrec event_bytes :: "kb_event \<Rightarrow> u8 list" where
  "event_bytes Pause = [0xE1, 0x14, 0x77, 0xE1, 0xF0, 0x14, 0xF0, 0x77]"
| "event_bytes (ExtPress c) = [0xE0, c]"

primrec release_bytes :: "kb_release \<Rightarrow> u8 list" where
  "release_bytes (Release c) = [0xF0, c]"
| "release_bytes (ExtRelease c) = [0xE0, 0xF0, c]"

primrec release_key :: "kb_release \<Rightarrow> key_t" where
  "release_key (Release c) = set2_table c"
| "release_key (ExtRelease c) = set2_e0_table c"

text \<open>The counter of held keys.\<close>

primrec event_keyd :: "kb_event \<Rightarrow> u8 \<Rightarrow> u8" where
  "event_keyd Pause d = d"
| "event_keyd (ExtPress c) d = d + 1"

primrec release_keyd :: "kb_release \<Rightarrow> u8 \<Rightarrow> u8" where
  "release_keyd (Release c) d = (if 0 < d then d - 1 else d)"
| "release_keyd (ExtRelease c) d = d"

definition delivers :: "'a machine_scheme \<Rightarrow> u8 list \<Rightarrow> bool" where
  "delivers s bs \<longleftrightarrow> (\<forall>i < length bs. data_byte s i = bs ! i)"

lemma delivers_Cons: "delivers s (b # bs) \<longleftrightarrow> data_byte s 0 = b \<and> (\<forall>i < length bs. data_byte s (Suc i) = bs ! i)"
  by (auto simp: delivers_def nth_Cons split: nat.split)

lemma delivers_append: "delivers s (as @ bs) \<longleftrightarrow> delivers s as \<and> delivers (advanced j (length as) s) bs"
proof
  assume d: "delivers s (as @ bs)"
  have "data_byte s i = as ! i" if "i < length as" for i
    using d that by (auto simp: delivers_def nth_append dest: spec [of _ i])
  moreover have "data_byte s (length as + i) = bs ! i" if "i < length bs" for i
    using d that by (auto simp: delivers_def nth_append dest: spec [of _ "length as + i"])
  ultimately show "delivers s as \<and> delivers (advanced j (length as) s) bs" by (simp add: delivers_def)
next
  assume "delivers s as \<and> delivers (advanced j (length as) s) bs"
  then have *: "\<And>i. i < length as \<Longrightarrow> data_byte s i = as ! i" "\<And>i. i < length bs \<Longrightarrow> data_byte s (length as + i) = bs ! i"
    by (simp_all add: delivers_def)
  have "data_byte s i = (as @ bs) ! i" if "i < length as + length bs" for i
    using *(1) [of i] *(2) [of "i - length as"] that by (auto simp: nth_append)
  then show "delivers s (as @ bs)" by (simp add: delivers_def)
qed

definition event_ok :: "kb_event \<Rightarrow> bool" where
  "event_ok e \<longleftrightarrow> e \<noteq> ExtPress 0xF0"

lemma event_length:
  "length (event_bytes Pause) = 8" "length (event_bytes (ExtPress c)) = 2"
  "length (release_bytes (Release c)) = 2" "length (release_bytes (ExtRelease c)) = 3"
  by simp_all

lemma poll_start_event:
  assumes "controller_ready s" "event_ok e" "delivers s (event_bytes e)"
  shows "\<exists>j. poll_start s = poll_start (advanced j (length (event_bytes e)) (s\<lparr>keyd := event_keyd e (keyd s)\<rparr>))"
proof (cases e)
  case Pause
  then have "data_byte s 0 = 0xE1" using assms(3) by (simp add: delivers_Cons)
  then have "poll_start s = poll_start (advanced 9 8 s)"
    using assms(1) by (subst poll_start.simps) (simp add: read_data_ready waits_ready discard_ready)
  then show ?thesis unfolding Pause event_length by (intro exI [of _ 9]) simp
next
  case (ExtPress c)
  then have "data_byte s 0 = 0xE0" "data_byte s (Suc 0) = c" "c \<noteq> 0xF0"
    using assms(2,3) by (simp_all add: delivers_Cons event_ok_def)
  then have "poll_start s = poll_start (advanced 2 2 (s\<lparr>keyd := keyd s + 1\<rparr>))"
    using assms(1) by (subst poll_start.simps) (simp add: read_data_ready flip: numeral_2_eq_2)
  then show ?thesis unfolding ExtPress event_length by (intro exI [of _ 2]) simp
qed

lemma poll_start_release:
  assumes "controller_ready s" "delivers s (release_bytes r)"
  shows "\<exists>j. poll_start s =
     Some (release_key r, advanced j (length (release_bytes r)) (s\<lparr>keyd := release_keyd r (keyd s)\<rparr>))"
proof (cases r)
  case (Release c)
  then have "data_byte s 0 = 0xF0" "data_byte s (Suc 0) = c" using assms(2) by (simp_all add: delivers_Cons)
  then have "poll_start s = Some (set2_table c, advanced 2 2 (s\<lparr>keyd := release_keyd r (keyd s)\<rparr>))"
    using assms(1) Release by (subst poll_start.simps) (simp add: read_data_ready flip: numeral_2_eq_2)
  then show ?thesis unfolding Release event_length by (intro exI [of _ 2]) simp
next
  case (ExtRelease c)
  then have "data_byte s 0 = 0xE0" "data_byte s (Suc 0) = 0xF0" "data_byte s (Suc (Suc 0)) = c"
    using assms(2) by (simp_all add: delivers_Cons All_less_Suc2)
  then have "poll_start s = Some (set2_e0_table c, advanced 3 3 s)"
    using assms(1) by (subst poll_start.simps) (simp add: read_data_ready flip: numeral_3_eq_3)
  then show ?thesis unfolding ExtRelease event_length by (intro exI [of _ 3]) simp
qed

lemma poll_start_events:
  assumes "controller_ready s" "list_all event_ok es" "delivers s (concat (map event_bytes es) @ release_bytes r)"
  shows "\<exists>j. poll_start s =
     Some (release_key r, advanced j (length (concat (map event_bytes es) @ release_bytes r))
       (s\<lparr>keyd := release_keyd r (fold event_keyd es (keyd s))\<rparr>))"
  using assms
proof (induction es arbitrary: s)
  case Nil
  then show ?case using poll_start_release by simp
next
  case (Cons e es)
  obtain j where j: "poll_start s = poll_start (advanced j (length (event_bytes e)) (s\<lparr>keyd := event_keyd e (keyd s)\<rparr>))"
    using poll_start_event [of s e] Cons.prems
      delivers_append [of s "event_bytes e" "concat (map event_bytes es) @ release_bytes r" 0] by auto
  have "delivers (advanced j (length (event_bytes e)) s) (concat (map event_bytes es) @ release_bytes r)"
    using Cons.prems(3) delivers_append [of s "event_bytes e" "concat (map event_bytes es) @ release_bytes r" j] by simp
  then have "delivers (advanced j (length (event_bytes e)) (s\<lparr>keyd := event_keyd e (keyd s)\<rparr>))
     (concat (map event_bytes es) @ release_bytes r)" by (simp add: delivers_def)
  with Cons.IH [of "advanced j (length (event_bytes e)) (s\<lparr>keyd := event_keyd e (keyd s)\<rparr>)"] Cons.prems(1,2)
  show ?case unfolding j by (auto simp: add.assoc)
qed

text \<open>Property C24: on an initialised keyboard whose controller is always ready, \<open>keyboard_poll_k\<close> returns; whatever
  sequence of pause keys and presses of extended keys comes first, it skips it and returns the key of the
  first release, consuming exactly these bytes.\<close>

theorem keyboard_poll_k_decodes:
  assumes "inited s" and "percpu_read V_sil s = 0" and "controller_ready s" and "list_all event_ok es"
    and "delivers s (concat (map event_bytes es) @ release_bytes r)"
  shows "\<exists>j. keyboard_poll_k s =
     (Ret (release_key r), advanced j (length (concat (map event_bytes es) @ release_bytes r))
       (s\<lparr>keyd := release_keyd r (fold event_keyd es (keyd s))\<rparr>))"
  using poll_start_events [OF assms(3-5)] assms(1,2)
  by (auto simp: keyboard_poll_k_def Assert_sil_chill_def routine_simps bind_def run_partial_def)

text \<open>Any other first byte, the press of an ordinary key for one, makes the call return the value that stands for an
  uninitialised keyboard.\<close>

lemma poll_ordinary_press:
  assumes "inited s" and "percpu_read V_sil s = 0" and "controller_ready s" and "data_byte s 0 \<notin> {0xE1, 0xF0, 0xE0}"
  shows "keyboard_poll_k s = (Ret (- 1), advanced 1 1 s)"
proof -
  have "poll_start s = Some (- 1, advanced 1 1 s)"
    using assms(3,4) by (subst poll_start.simps) (simp add: read_data_ready)
  then show ?thesis
    using assms(1,2) by (simp add: keyboard_poll_k_def Assert_sil_chill_def routine_simps bind_def run_partial_def)
qed

section \<open>The tables\<close>

lemma table_range:
  assumes "distinct (map fst xs)" "\<exists>r. r \<notin> fst ` set xs"
  shows "range (\<lambda>r. case map_of xs r of None \<Rightarrow> z | Some k \<Rightarrow> k) = insert z (snd ` set xs)"
proof (intro equalityI subsetI)
  fix k assume "k \<in> range (\<lambda>r. case map_of xs r of None \<Rightarrow> z | Some k \<Rightarrow> k)"
  then show "k \<in> insert z (snd ` set xs)" by (auto split: option.splits dest!: map_of_SomeD) force
next
  fix k assume k: "k \<in> insert z (snd ` set xs)"
  obtain r where r: "map_of xs r = None" using assms(2) by (auto simp: map_of_eq_None_iff)
  from k consider "k = z" | r' where "(r', k) \<in> set xs" by auto
  then show "k \<in> range (\<lambda>r. case map_of xs r of None \<Rightarrow> z | Some k \<Rightarrow> k)"
  proof cases
    case 1
    then show ?thesis using r by (intro range_eqI [of _ _ r]) simp
  next
    case (2 r')
    then show ?thesis using assms(1) by (intro range_eqI [of _ _ r']) simp
  qed
qed

lemma set2_entries_ok: "distinct (map fst set2_entries)" "distinct (map snd set2_entries)" "0 \<notin> fst ` set set2_entries"
  by (simp_all add: set2_entries_def key_values)

lemma set2_e0_entries_ok: "distinct (map fst set2_e0_entries)" "0 \<notin> fst ` set set2_e0_entries"
  by (simp_all add: set2_e0_entries_def key_values)

lemma ranges:
  "range set2_table = insert KEY_NONE (snd ` set set2_entries)"
  "range set2_e0_table = insert KEY_NONE (snd ` set set2_e0_entries)"
  unfolding set2_table_def set2_e0_table_def
  by (rule table_range [OF set2_entries_ok(1) exI [of _ 0], OF set2_entries_ok(3)],
      rule table_range [OF set2_e0_entries_ok(1) exI [of _ 0], OF set2_e0_entries_ok(2)])

lemma keys_listed: "{0..124 :: int} = set [0..124]"
  by simp

text \<open>Theorem: the two tables together name every key of the enumeration except the print-screen and the pause key,
  and two different ordinary scan codes never name the same key.\<close>

theorem tables_name_all_keys:
  "range set2_table \<union> range set2_e0_table = {0..124} - {KEY_PRINTSCREEN, KEY_PAUSE} \<and>
   inj_on set2_table (fst ` set set2_entries)"
proof
  show "range set2_table \<union> range set2_e0_table = {0..124} - {KEY_PRINTSCREEN, KEY_PAUSE}"
  proof (rule equalityI)
    show "range set2_table \<union> range set2_e0_table \<subseteq> {0..124} - {KEY_PRINTSCREEN, KEY_PAUSE}"
      unfolding ranges by (simp add: set2_entries_def set2_e0_entries_def key_values)
    show "{0..124} - {KEY_PRINTSCREEN, KEY_PAUSE} \<subseteq> range set2_table \<union> range set2_e0_table"
      unfolding ranges keys_listed by (simp add: set2_entries_def set2_e0_entries_def key_values upto_rec1 Diff_subset_conv)
  qed
  show "inj_on set2_table (fst ` set set2_entries)"
  proof (rule inj_onI)
    fix a b assume ab: "a \<in> fst ` set set2_entries" "b \<in> fst ` set set2_entries" "set2_table a = set2_table b"
    then obtain x y where xy: "(a, x) \<in> set set2_entries" "(b, y) \<in> set set2_entries" by auto
    then have "set2_table a = x" "set2_table b = y" using set2_entries_ok(1) by (simp_all add: set2_table_def)
    then have "snd (a, x) = snd (b, y)" using ab(3) by simp
    moreover have "inj_on snd (set set2_entries)" using set2_entries_ok(2) by (simp add: distinct_map)
    ultimately have "(a, x) = (b, y)" using xy inj_onD by metis
    then show "a = b" by simp
  qed
qed

section \<open>Initialisation on a ready controller\<close>

definition kb_sent :: "u8 \<Rightarrow> nat \<Rightarrow> 'a machine_scheme \<Rightarrow> 'a machine_scheme" where
  "kb_sent v n s = s\<lparr>port_out := port_out s @ replicate n (0x60, v)\<rparr>"

lemma kb_sent_simps [simp]:
  "x86_outb 0x60 v s = kb_sent v 1 s"
  "kb_sent v m (kb_sent v n s) = kb_sent v (n + m) s"
  "kb_sent v n (advanced j k s) = advanced j k (kb_sent v n s)"
  "controller_ready (kb_sent v n s) = controller_ready s"
  "port_out (kb_sent v n s) = port_out s @ replicate n (0x60, v)"
  "inited (kb_sent v n q) = inited q"
  by (simp_all add: x86_outb_def kb_sent_def advanced_def controller_ready_def replicate_add)

lemma resend_ready:
  assumes "controller_ready s"
  shows "\<exists>r' j i n. resend_loop v k (r, s) = Some (r', advanced j i (kb_sent v n s)) \<and> n \<le> k"
  using assms
proof (induction k arbitrary: r s)
  case 0
  have "s = advanced 0 0 (kb_sent v 0 s)" by (simp add: advanced_def kb_sent_def)
  then show ?case by (metis le0 resend_loop.simps(1))
next
  case (Suc k)
  let ?s = "advanced 2 1 (kb_sent v 1 s)"
  have st: "resend_loop v (Suc k) (r, s) =
     (if data_byte (kb_sent v 1 s) 0 \<noteq> 0xFE then Some (data_byte (kb_sent v 1 s) 0, ?s)
      else resend_loop v k (data_byte (kb_sent v 1 s) 0, ?s))"
    using Suc.prems by (simp add: send_data_ready read_data_ready numeral_2_eq_2)
  obtain r' j i n where "resend_loop v k (data_byte (kb_sent v 1 s) 0, ?s) = Some (r', advanced j i (kb_sent v n ?s))" "n \<le> k"
    using Suc.IH [of ?s "data_byte (kb_sent v 1 s) 0"] Suc.prems by auto
  then have "resend_loop v k (data_byte (kb_sent v 1 s) 0, ?s) = Some (r', advanced (2 + j) (1 + i) (kb_sent v (1 + n) s))" "1 + n \<le> Suc k"
    by simp_all
  then show ?case unfolding st by (metis le_add2 plus_1_eq_Suc add.commute le_add1)
qed

lemma command_ready:
  assumes "controller_ready s"
  shows "\<exists>r j i n. command v s = Some (r, advanced j i (kb_sent v n s)) \<and> n \<le> 4"
proof -
  let ?s = "advanced 2 1 (kb_sent v 1 s)"
  have st: "command v s =
     (if data_byte (kb_sent v 1 s) 0 = 0xFE then resend_loop v 3 (data_byte (kb_sent v 1 s) 0, ?s)
      else Some (data_byte (kb_sent v 1 s) 0, ?s))"
    using assms by (simp add: command_def send_data_ready read_data_ready numeral_2_eq_2)
  obtain r' j i n where "resend_loop v 3 (data_byte (kb_sent v 1 s) 0, ?s) = Some (r', advanced j i (kb_sent v n ?s))" "n \<le> 3"
    using resend_ready [of ?s v 3 "data_byte (kb_sent v 1 s) 0"] assms by auto
  then have "resend_loop v 3 (data_byte (kb_sent v 1 s) 0, ?s) = Some (r', advanced (2 + j) (1 + i) (kb_sent v (1 + n) s))" "1 + n \<le> 4"
    by simp_all
  moreover have "(1 :: nat) \<le> 4" by simp
  ultimately show ?thesis unfolding st by metis
qed

definition set_known :: "int \<Rightarrow> 'a keyboard_state_scheme \<Rightarrow> bool" where
  "set_known r s \<longleftrightarrow> (r = 0 \<longrightarrow> scodeset s \<in> {SCANCODE_SET_1, SCANCODE_SET_2, SCANCODE_SET_3})"

text \<open>Theorem: with a controller that is always ready, \<open>keyboard_init\<close> returns one of its three documented
  results; it marks the keyboard initialised exactly when it returns 0, and then the scan code set is one of the three known ones.
  It sends the reset command at most four times, then the scan code command at most four times, then its argument.\<close>

theorem keyboard_init_returns:
  assumes "controller_ready s" and "percpu_read V_sil s = 0"
  shows "\<exists>r s' a b c. keyboard_init s = (Ret r, s') \<and> r \<in> {-1, 0, 1} \<and> inited s' = (inited s \<or> r = 0) \<and>
     set_known r s' \<and>
     port_out s' = port_out s @ replicate a (0x60, 0xFF) @ replicate b (0x60, 0xF0) @ replicate c (0x60, 0) \<and>
     a \<le> 4 \<and> b \<le> 4 \<and> c \<le> 1"
proof -
  have run: "keyboard_init s = run_partial keyboard_init_loop s"
    using assms(2) by (simp add: keyboard_init_def Assert_sil_chill_def routine_simps bind_def)
  obtain r1 j1 i1 a where 1: "command 0xFF s = Some (r1, advanced j1 i1 (kb_sent 0xFF a s))" "a \<le> 4"
    using command_ready [OF assms(1)] by blast
  let ?s1 = "advanced (j1 + 1) (i1 + 1) (kb_sent 0xFF a s)"
  have "controller_ready ?s1" using assms(1) by simp
  then obtain r3 j3 i3 b where 3: "command 0xF0 ?s1 = Some (r3, advanced j3 i3 (kb_sent 0xF0 b ?s1))" "b \<le> 4"
    using command_ready by blast
  note run' = run_partial_def keyboard_init_loop_def 1(1) 3(1) [simplified] read_data_ready send_data_ready assms(1)
  consider "r1 \<noteq> 0xFA" | "r1 = 0xFA" "data_byte (kb_sent 0xFF a s) i1 \<noteq> 0xAA"
    | "r1 = 0xFA" "data_byte (kb_sent 0xFF a s) i1 = 0xAA" "r3 \<noteq> 0xFA"
    | "r1 = 0xFA" "data_byte (kb_sent 0xFF a s) i1 = 0xAA" "r3 = 0xFA" by blast
  then show ?thesis
  proof cases
    case 1
    then show ?thesis unfolding run using \<open>a \<le> 4\<close>
      by (intro exI [of _ "-1"] exI [of _ "advanced j1 i1 (kb_sent 0xFF a s)"] exI [of _ a] exI [of _ 0]) (simp add: run' set_known_def)
  next
    case 2
    then show ?thesis unfolding run using \<open>a \<le> 4\<close>
      by (intro exI [of _ 1] exI [of _ ?s1] exI [of _ a] exI [of _ 0]) (simp add: run' set_known_def)
  next
    case 3
    then show ?thesis unfolding run using \<open>a \<le> 4\<close> \<open>b \<le> 4\<close>
      by (intro exI [of _ "-1"] exI [of _ "advanced j3 i3 (kb_sent 0xF0 b ?s1)"] exI [of _ a] exI [of _ b] exI [of _ 0])
         (simp add: run' set_known_def)
  next
    case 4
    let ?s4 = "advanced (Suc (Suc (Suc 0))) (Suc (Suc (Suc 0))) (kb_sent 0 1 (advanced j3 i3 (kb_sent 0xF0 b ?s1)))"
    define q where "q = ?s4\<lparr>scodeset := data_byte (advanced (Suc (Suc (Suc 0))) (Suc (Suc 0)) (kb_sent 0 1 (advanced j3 i3 (kb_sent 0xF0 b ?s1)))) 0\<rparr>"
    let ?ok = "scodeset q = 0x43 \<or> scodeset q = 0x41 \<or> scodeset q = 0x3F"
    have "keyboard_init_loop s = (if ?ok then Some (0, q\<lparr>inited := True\<rparr>) else Some (- 1, q))"
      using 4 by (simp add: run' q_def Let_def)
    moreover have "port_out q = port_out s @ replicate a (0x60, 0xFF) @ replicate b (0x60, 0xF0) @ replicate 1 (0x60, 0)"
      "inited q = inited s" by (simp_all add: q_def)
    ultimately show ?thesis unfolding run using \<open>a \<le> 4\<close> \<open>b \<le> 4\<close>
      by (intro exI [of _ "if ?ok then 0 else - 1"] exI [of _ "if ?ok then q\<lparr>inited := True\<rparr> else q"] exI [of _ a]
          exI [of _ b] exI [of _ 1])
         (auto simp: run_partial_def set_known_def SCANCODE_SET_1_def SCANCODE_SET_2_def SCANCODE_SET_3_def)
  qed
qed

section \<open>Witnesses\<close>

definition kb_stream :: "u8 list" where
  "kb_stream = [0xE1, 0x14, 0x77, 0xE1, 0xF0, 0x14, 0xF0, 0x77, 0xE0, 0x75, 0xF0, 0x1C]"

definition kb_test :: keyboard_state where
  "kb_test = acpi_state.extend
     (acpi_test\<lparr>mem := \<lambda>_. 0, port_reads := \<lambda>_. 0, port_in := \<lambda>p n. if p = 0x64 then 1 else kb_stream ! n\<rparr>)
     \<lparr>scodeset = 0x41, inited = True, keyd = 0\<rparr>"

lemma kb_test_ok:
  "inited kb_test" "percpu_read V_sil kb_test = 0" "controller_ready kb_test" "keyd kb_test = 0"
  "data_byte kb_test n = kb_stream ! n"
  by (simp_all add: kb_test_def acpi_state.extend_def percpu_read_def load64_zero controller_ready_def data_byte_def)

theorem keyboard_poll_k_decodes_witness:
  "\<exists>j. keyboard_poll_k kb_test = (Ret KEY_A, advanced j (length kb_stream) (kb_test\<lparr>keyd := 0\<rparr>))"
proof -
  have d: "delivers kb_test (concat (map event_bytes [Pause, ExtPress 0x75]) @ release_bytes (Release 0x1C))"
    by (simp add: delivers_def kb_test_ok(5) kb_stream_def)
  have "list_all event_ok [Pause, ExtPress 0x75]" by (simp add: event_ok_def)
  from keyboard_poll_k_decodes [OF kb_test_ok(1-3) this d]
  show ?thesis by (simp add: kb_test_ok(4) set2_table_def set2_entries_def kb_stream_def)
qed

theorem keyboard_init_returns_witness:
  "\<exists>r s' a b c. keyboard_init kb_test = (Ret r, s') \<and> r \<in> {-1, 0, 1} \<and> inited s' = (inited kb_test \<or> r = 0) \<and>
     set_known r s' \<and>
     port_out s' = port_out kb_test @ replicate a (0x60, 0xFF) @ replicate b (0x60, 0xF0) @ replicate c (0x60, 0) \<and>
     a \<le> 4 \<and> b \<le> 4 \<and> c \<le> 1"
  by (rule keyboard_init_returns [OF kb_test_ok(3,2)])

end
