(* ===== verification/UserSpace.thy ===== *)
theory UserSpace
  imports Keyboard
begin

text \<open>
  The address space of the user program: \<open>user_space_init\<close> of \<^verbatim>\<open>memory/memory.c\<close>, which builds it and goes on
  to set up the boot processor, and \<open>enter_userspace\<close> of \<^verbatim>\<open>sys/cpu/cpu3/u_space.c\<close>, which enters it. The
  assembly routines \<open>load_gdt\<close> and \<open>jmp2user\<close> are modelled by the registers they load.
\<close>

section \<open>State and operations\<close>

definition USER_CODE :: u64 where "USER_CODE = 0x400000"
definition USER_STACK :: u64 where "USER_STACK = 0x800000"

record selectors =
  sel_cs :: u16
  sel_ds :: u16
  sel_es :: u16
  sel_ss :: u16
  sel_fs :: u16
  sel_gs :: u16

text \<open>The frame that \<open>iretq\<close> loads.\<close>

record iret_frame =
  frame_rip :: u64
  frame_cs :: u64
  frame_rflags :: u64
  frame_rsp :: u64
  frame_ss :: u64

record user_state = keyboard_state +
  u_buf :: u64
  user_cr3 :: u64
  user_as :: address_space_t
  segments :: selectors
  rflags_reg :: u64
  user_frame :: "iret_frame option"
  handle_interrupt_address :: u64

definition load_gdt :: "'a user_state_scheme \<Rightarrow> 'a user_state_scheme" where
  "load_gdt s = s\<lparr>segments := \<lparr>sel_cs = 0x28, sel_ds = 0x30, sel_es = 0x30, sel_ss = 0x30, sel_fs = 0, sel_gs = 0\<rparr>\<rparr>"

text \<open>A zeroed page, mapped for the user.\<close>

definition user_page :: "u64 \<Rightarrow> ('a user_state_scheme, u64) routine" where
  "user_page virt =
     bind giverawpage (\<lambda>page.
     seq (modify (\<lambda>s. s\<lparr>mem := snd (memset (phys2virt page s) 0 PAGE_SIZE (mem s))\<rparr>))
    (bind (gets user_as) (\<lambda>as.
     seq (map_page as virt page (PAGE_PRESENT OR PAGE_WRITE OR PAGE_USER))
         (return page))))"

definition user_tables :: "('a user_state_scheme, unit) routine" where
  "user_tables =
     bind giverawpage (\<lambda>root.
     seq (modify (\<lambda>s. s\<lparr>user_as := (user_as s)\<lparr>pml4_phys := root\<rparr>\<rparr>))
    (seq (modify (\<lambda>s. s\<lparr>user_as := (user_as s)\<lparr>pml4 := phys2virt (pml4_phys (user_as s)) s\<rparr>\<rparr>))
    (seq (modify (\<lambda>s. s\<lparr>mem := snd (memset (pml4 (user_as s)) 0 (256 * 8) (mem s))\<rparr>))
    (bind (gets (\<lambda>s. phys2virt (get_cr3 s AND NOT 0xFFF) s)) (\<lambda>current_pml4.
     seq (modify (\<lambda>s. s\<lparr>mem := snd (memcpy (pml4 (user_as s) + 8 * 256) (current_pml4 + 8 * 256) (256 * 8) (mem s))\<rparr>))
    (bind (user_page USER_CODE) (\<lambda>page.
     bind (user_page USER_STACK) (\<lambda>stack_page.
     seq (modify (\<lambda>s. s\<lparr>user_cr3 := pml4_phys (user_as s)\<rparr>))
         (modify (\<lambda>s. s\<lparr>u_buf := phys2virt page s\<rparr>))))))))))"

definition user_space_init :: "('a user_state_scheme, unit) routine" where
  "user_space_init = seq user_tables (seq (modify load_gdt) (seq setupbspcpudata tss_init))"

text \<open>Control goes to the user program and does not come back.\<close>

definition jmp2user :: "u64 \<Rightarrow> u64 \<Rightarrow> ('a user_state_scheme, unit) routine" where
  "jmp2user uip usp s =
     (Stopped, s\<lparr>cr3 := user_cr3 s,
        user_frame := Some \<lparr>frame_rip = uip, frame_cs = 0x3B, frame_rflags = rflags_reg s OR 0x200, frame_rsp = usp,
                            frame_ss = 0x43\<rparr>\<rparr>)"

definition enter_userspace :: "('a user_state_scheme, unit) routine" where
  "enter_userspace =
     bind (gets handle_interrupt_address) (\<lambda>h.
     seq (RegisterInterruptVector 0x80 h ''Enter userspace (cpu3)'')
         (jmp2user 0x400000 (0x801000 + 4 * 1024)))"

section \<open>Clearing a free page\<close>

lemma zeroed_tables:
  assumes "wf_tables m h root F" "f \<in> F" "is_path q"
  shows "table_at (snd (memset f 0 4096 m)) h root q = table_at m h root q \<and>
     walkable (snd (memset f 0 4096 m)) h root q = walkable m h root q"
  using assms(3)
proof (induction q)
  case (Cons i q)
  have q: "is_path q" "i < 512" using Cons.prems by (simp_all add: is_path_def)
  have f: "aligned 4096 f" using assms(1,2) by (simp add: wf_tables_def)
  have "load64 (snd (memset f 0 4096 m)) (slot t i) = load64 m (slot t i)" if "table_at m h root q = Some t" for t
    using wf_tablesD [OF assms(1) q(1) that] assms(2) q(2) f by (auto simp: load_slot_zeroed)
  then show ?case using Cons.IH [OF q(1)] by (simp split: option.split)
qed simp

lemma zeroed_translate:
  assumes "wf_tables m h root F" "f \<in> F"
  shows "translate (snd (memset f 0 4096 m)) h root v = translate m h root v"
proof -
  have f: "aligned 4096 f" using assms by (simp add: wf_tables_def)
  have "load64 (snd (memset f 0 4096 m)) (slot t (leaf_of v)) = load64 m (slot t (leaf_of v))"
    if "table_at m h root (path_of v) = Some t" for t
    using wf_tablesD [OF assms(1) path_of_is_path that] assms(2) f by (auto simp: load_slot_zeroed)
  then show ?thesis
    using zeroed_tables [OF assms path_of_is_path, of v] by (auto simp: translate_def split: option.split)
qed

lemma wf_tables_cong:
  assumes "\<And>q. is_path q \<Longrightarrow> table_at m' h root q = table_at m h root q"
  shows "wf_tables m' h root F = wf_tables m h root F" "tables m' h root = tables m h root"
  by (simp_all add: wf_tables_def tables_def assms cong: imp_cong conj_cong)

lemma wf_tables_subset: "wf_tables m h root F \<Longrightarrow> G \<subseteq> F \<Longrightarrow> wf_tables m h root G"
  by (fastforce simp: wf_tables_def)

text \<open>Taking a page and clearing it leaves every address space as it was.\<close>

lemma fresh_page:
  assumes "vm_ok root s" "free_frames s \<noteq> {}"
  obtains page s1 where "giverawpage s = (Ret page, s1)" "page \<in> free_frames s" "same_but_memory s s1"
    "hhdm_offset s1 = hhdm_offset s" "mem s1 = mem s" "free_frames s1 = free_frames s - {page}"
    "vm_ok root (s1\<lparr>mem := snd (memset (page + hhdm_offset s) 0 4096 (mem s))\<rparr>)"
    "wf_tables (mem s) (hhdm_offset s) root (free_pages s)" "page + hhdm_offset s \<in> free_pages s"
proof -
  let ?h = "hhdm_offset s"
  have ok: "alloc_ready s" "aligned 4096 ?h" "wf_tables (mem s) ?h root (free_pages s)"
    "id_apart s (tables (mem s) ?h root \<union> free_pages s)" using assms(1) by (auto simp: vm_ok_def)
  from giverawpage_law [OF ok(1) assms(2)] obtain page pl s1 where g: "giverawpage s = (Ret page, s1)"
    "page \<in> free_frames s" "free_frames s1 = free_frames s - {page}" "alloc_ready s1"
    "s1 = s\<lparr>page_list := pl, memory_lock := unlocked\<rparr>" by blast
  let ?m = "snd (memset (page + ?h) 0 4096 (mem s))"
  define s' where "s' = s1\<lparr>mem := ?m\<rparr>"
  have f: "page + ?h \<in> free_pages s" using g(2) by (simp add: free_pages_mem_iff)
  have "current_cpu s' = current_cpu s1"
    unfolding s'_def
  proof (rule current_cpu_mem)
    show "id_apart s1 (free_pages s)" using ok(4) g(5) by (auto intro: id_apart_subset)
    fix x assume "\<And>t. t \<in> free_pages s \<Longrightarrow> \<not> in_range t 4096 x"
    then show "?m x = mem s1 x" using f g(5) by (simp add: memset_apply)
  qed
  then have "alloc_ready s'" using g(4) by (simp add: alloc_ready_def s'_def)
  moreover have fp: "free_pages s' = free_pages s - {page + ?h}"
  proof -
    have "hhdm_offset s' = ?h" using g(5) by (simp add: s'_def)
    moreover have "free_frames s' = free_frames s - {page}" using g(3) by (simp add: s'_def)
    ultimately show ?thesis unfolding free_pages_def by (simp add: image_set_diff inj_on_def)
  qed
  moreover have tb: "table_at ?m ?h root q = table_at (mem s) ?h root q" if "is_path q" for q
    using zeroed_tables [OF ok(3) f that] by simp
  have "wf_tables ?m ?h root (free_pages s)" using ok(3) wf_tables_cong(1) [of ?m ?h root "mem s"] tb by blast
  then have "wf_tables ?m ?h root (free_pages s')" unfolding fp by (rule wf_tables_subset) blast
  moreover have "tables ?m ?h root = tables (mem s) ?h root" using wf_tables_cong(2) [of ?m ?h root "mem s"] tb by blast
  then have "id_apart s' (tables ?m ?h root \<union> free_pages s')"
    unfolding fp using id_apart_subset [OF ok(4), of "tables (mem s) ?h root \<union> (free_pages s - {page + ?h})"] g(5)
    by (auto simp: s'_def)
  ultimately have "vm_ok root s'" using ok(2) g(5) by (simp add: vm_ok_def s'_def)
  then show ?thesis using that [OF g(1,2)] g f ok(3) by (simp add: s'_def same_but_memory_def)
qed

section \<open>Routines that only take pages\<close>

definition only_takes :: "('a memory_state_scheme, 'b) routine \<Rightarrow> bool" where
  "only_takes f \<longleftrightarrow> (\<forall>s. free_frames (snd (f s)) \<subseteq> free_frames s)"

lemma only_takes_bind [intro]: "only_takes f \<Longrightarrow> (\<And>x. only_takes (g x)) \<Longrightarrow> only_takes (bind f g)"
  unfolding only_takes_def
proof
  fix s
  assume f: "\<forall>s. free_frames (snd (f s)) \<subseteq> free_frames s" and g: "\<And>x. \<forall>s. free_frames (snd (g x s)) \<subseteq> free_frames s"
  obtain r s' where r: "f s = (r, s')" by (cases "f s")
  then have "free_frames s' \<subseteq> free_frames s" using f by (metis snd_conv)
  moreover have "free_frames (snd (g x s')) \<subseteq> free_frames s'" for x using g by blast
  ultimately show "free_frames (snd (bind f g s)) \<subseteq> free_frames s" using r by (cases r) (auto simp: bind_def)
qed

lemma only_takes_seq [intro]: "only_takes f \<Longrightarrow> only_takes g \<Longrightarrow> only_takes (seq f g)"
  unfolding seq_def by blast

lemma only_takes_basic [intro]:
  "only_takes (gets f)" "only_takes (return x)" "only_takes (modify (\<lambda>s. s\<lparr>mem := h s\<rparr>))"
  by (simp_all add: only_takes_def gets_def return_def modify_def)

lemma only_takes_giverawpage [intro]: "only_takes giverawpage"
  unfolding only_takes_def
proof (intro allI subsetI)
  fix s :: "'a memory_state_scheme" and f
  let ?pl = "page_list s" and ?s' = "snd (giverawpage s)"
  assume "f \<in> free_frames ?s'"
  then obtain p where p: "f = start p" "p \<in> set (page_list ?s')" "\<not> used p" by (auto simp: free_frames_def)
  have "page_list ?s' = ?pl \<or> (\<exists>i. page_list ?s' = ?pl[i := (?pl ! i)\<lparr>used := True\<rparr>])"
    by (auto simp: giverawpage_def Let_def split: option.split)
  then have "p \<in> set ?pl"
  proof
    assume "\<exists>i. page_list ?s' = ?pl[i := (?pl ! i)\<lparr>used := True\<rparr>]"
    then obtain i where "page_list ?s' = ?pl[i := (?pl ! i)\<lparr>used := True\<rparr>]" by blast
    with p(2,3) show ?thesis using set_update_subset_insert [of ?pl i "(?pl ! i)\<lparr>used := True\<rparr>"] by auto
  qed (use p(2) in simp)
  then show "f \<in> free_frames s" using p(1,3) by (auto simp: free_frames_def)
qed

lemma taken_subset: "giverawpage s = (r, s') \<Longrightarrow> free_frames s' \<subseteq> free_frames s"
  using only_takes_giverawpage by (metis only_takes_def snd_conv)

lemma map_page_takes: "only_takes (map_page as v phys flags)"
  unfolding map_page_def ensure_table_def by (auto intro!: only_takes_bind only_takes_seq)

lemma user_page_takes: "only_takes (user_page v)"
  unfolding user_page_def by (auto intro!: only_takes_bind only_takes_seq map_page_takes)

section \<open>The user's address space\<close>

lemma user_fields [simp]:
  "vm_ok r (s\<lparr>user_as := a\<rparr>) = vm_ok r s" "free_frames (s\<lparr>user_as := a\<rparr>) = free_frames s"
  "vm_ok r (s\<lparr>user_cr3 := c\<rparr>) = vm_ok r s" "vm_ok r (s\<lparr>u_buf := b\<rparr>) = vm_ok r s"
  by (simp_all add: vm_ok_def alloc_ready_def id_apart_def free_pages_def free_frames_def current_cpu_def
      ispercpuready_iff percpu_read_def percpu_offsetof_def)

lemma user_paths: "path_of USER_CODE = [2, 0, 0]" "leaf_of USER_CODE = 0" "path_of USER_STACK = [4, 0, 0]" "leaf_of USER_STACK = 0"
  by (simp_all add: path_of_def leaf_of_def USER_CODE_def USER_STACK_def pml4_i_def pdpt_i_def pd_i_def pt_i_def)

abbreviation user_flags :: u64 where
  "user_flags \<equiv> PAGE_PRESENT OR PAGE_WRITE OR PAGE_USER"

lemma user_flags_present: "(page OR user_flags) AND PAGE_PRESENT \<noteq> 0"
  by (simp add: bit.conj_disj_distrib2 or_eq_0_iff page_flag_values)

text \<open>One page: the address translates to a cleared frame that was free, everything else stays.\<close>

lemma user_page_maps:
  assumes "vm_ok (pml4 (user_as s)) s" "walkable_in s (pml4 (user_as s)) (path_of v)"
    "Suc (missing s (pml4 (user_as s)) v) \<le> card (free_frames s)" "translate_in s (pml4 (user_as s)) v = None"
  obtains page s' where "user_page v s = (Ret page, s')" "page \<in> free_frames s" "user_as s' = user_as s"
    "vm_ok (pml4 (user_as s)) s'" "hhdm_offset s' = hhdm_offset s" "same_but_memory s s'"
    "\<And>w. translate_in s' (pml4 (user_as s)) w =
       (if same_page w v then Some (page OR user_flags) else translate_in s (pml4 (user_as s)) w)"
    "\<And>q. is_path q \<Longrightarrow> walkable_in s (pml4 (user_as s)) q \<Longrightarrow> walkable_in s' (pml4 (user_as s)) q"
    "table_in s' (pml4 (user_as s)) (path_of v) \<noteq> None" "page \<notin> free_frames s'"
    "card (free_frames s') + Suc (missing s (pml4 (user_as s)) v) = card (free_frames s)"
proof -
  let ?r = "pml4 (user_as s)" and ?h = "hhdm_offset s"
  have ne: "free_frames s \<noteq> {}" using assms(3) by auto
  obtain page s1 where p: "giverawpage s = (Ret page, s1)" "page \<in> free_frames s" "same_but_memory s s1"
    "hhdm_offset s1 = ?h" "mem s1 = mem s" "free_frames s1 = free_frames s - {page}"
    "vm_ok ?r (s1\<lparr>mem := snd (memset (page + ?h) 0 4096 (mem s))\<rparr>)"
    "wf_tables (mem s) ?h ?r (free_pages s)" "page + ?h \<in> free_pages s"
    using fresh_page [OF assms(1) ne] by blast
  define s2 where "s2 = s1\<lparr>mem := snd (memset (page + ?h) 0 4096 (mem s))\<rparr>"
  have as: "user_as s1 = user_as s" using same_but_memory_field [OF p(3), of user_as] by simp
  have t2: "translate_in s2 ?r w = translate_in s ?r w" for w using zeroed_translate [OF p(8,9)] p(4) by (simp add: s2_def)
  have z2: "table_in s2 ?r q = table_in s ?r q" "walkable_in s2 ?r q = walkable_in s ?r q" if "is_path q" for q
    using zeroed_tables [OF p(8,9) that] p(4) by (simp_all add: s2_def)
  have pre: "is_path (drop 2 (path_of v))" "is_path (drop 1 (path_of v))"
    using path_of_is_path [of v] by (auto simp: is_path_def path_of_def)
  have ms: "missing s2 ?r v = missing s ?r v" unfolding missing_def using z2(1) pre by simp
  have cd: "Suc (card (free_frames s2)) = card (free_frames s)"
    using p(2,6) card_Suc_Diff1 [OF finite_free_frames p(2)] by (simp add: s2_def)
  have "vm_ok ?r s2" "walkable_in s2 ?r (path_of v)" "missing s2 ?r v \<le> card (free_frames s2)" "translate_in s2 ?r v = None"
    using p(7) assms z2(2) ms cd t2 by (simp_all add: s2_def)
  from map_page_mapped [OF this user_flags_present [of page]] obtain s3 where 3:
    "map_page (user_as s) v page user_flags s2 = (Ret 0, s3)" "mapped ?r v (page OR user_flags) s2 s3" by blast
  note d = mappedD [OF 3(2)]
  have "user_page v s = (Ret page, s3)"
    using p(1,4,5) 3(1) as by (simp add: user_page_def routine_simps bind_def phys2virt_def s2_def page_flag_values(5))
  moreover have sb: "same_but_memory s2 s3" by (rule d(8))
  then have "user_as s3 = user_as s" using same_but_memory_field [OF sb, of user_as] as by (simp add: s2_def)
  moreover have "same_but_memory s s3" 
  proof (rule same_but_memory_trans [OF _ sb])
    show "same_but_memory s s2" using p(3) by (simp add: s2_def)
  qed
  moreover have "free_frames s3 \<subseteq> free_frames s2"
    using map_page_takes [of "user_as s" v page user_flags] 3(1) by (metis only_takes_def snd_conv)
  ultimately show ?thesis
    using that [of page s3] p(2,4,6) d(1,2,6,7) d(3) [unfolded t2] d(4) z2(2) ms cd by (auto simp: s2_def)
qed

text \<open>Clearing first and copying then gives the same table as the other order.\<close>

lemma copied_after_clearing:
  assumes "aligned 4096 r" "aligned 4096 b" "r \<noteq> b"
  shows "snd (memcpy (r + 8 * 256) (b + 8 * 256) (256 * 8) (snd (memset r 0 (256 * 8) m))) = copied_root m r b"
proof
  fix x
  let ?m = "snd (memset r 0 2048 m)"
  have h: "in_range r 4096 y" if "in_range r 2048 y" for y using half_in_page(1) [OF that] .
  have src: "?m (b + (x - r)) = m (b + (x - r))" if i: "in_range (r + 2048) 2048 x"
  proof -
    from i obtain k where k: "k < 2048" "x = r + 2048 + of_nat k" by (rule in_rangeE)
    then have e: "b + (x - r) = b + 2048 + of_nat k" by simp
    have "in_range b 4096 (b + (x - r))"
      unfolding e by (rule half_in_page(2)) (use k(1) in \<open>simp add: in_range_offset\<close>)
    then have "\<not> in_range r 2048 (b + (x - r))" using aligned_blocks_disjoint [OF assms(1,2)] assms(3) h by auto
    then show ?thesis by (simp add: memset_apply)
  qed
  have lo: "\<not> in_range r 2048 x" if i: "in_range (r + 2048) 2048 x"
  proof -
    from i obtain k where k: "k < 2048" "x = r + 2048 + of_nat k" by (rule in_rangeE)
    then have "x = r + of_nat (2048 + k)" by simp
    then show ?thesis using k(1) by (simp add: in_range_offset del: of_nat_add)
  qed
  have "snd (memcpy (r + 2048) (b + 2048) 2048 ?m) x =
      (if in_range (r + 2048) 2048 x then ?m (b + 2048 + (x - (r + 2048))) else ?m x)"
    using copy_apart [OF assms] by (subst memcpy_apply) simp_all
  moreover have "b + 2048 + (x - (r + 2048)) = b + (x - r)" by simp
  moreover have "?m x = (if in_range r 2048 x then 0 else m x)" by (simp add: memset_apply)
  ultimately have "snd (memcpy (r + 2048) (b + 2048) 2048 ?m) x = copied_root m r b x"
    unfolding copied_root_apply [OF assms] using src lo by (simp split: if_split)
  then show "snd (memcpy (r + 8 * 256) (b + 8 * 256) (256 * 8) (snd (memset r 0 (256 * 8) m))) x = copied_root m r b x"
    by simp
qed

text \<open>What \<open>user_tables\<close> leaves: the two pages are mapped to different frames that were free, the upper half is the
  kernel's, and nothing else is mapped.\<close>

definition user_space_built :: "'a user_state_scheme \<Rightarrow> 'a user_state_scheme \<Rightarrow> bool" where
  "user_space_built s s' \<longleftrightarrow>
     (let root = pml4 (user_as s')
      in vm_ok root s' \<and> user_cr3 s' = pml4_phys (user_as s') \<and> root = user_cr3 s' + hhdm_offset s \<and>
         user_cr3 s' \<in> free_frames s \<and>
         (\<exists>page stack. page \<in> free_frames s \<and> stack \<in> free_frames s \<and> page \<noteq> stack \<and>
            u_buf s' = page + hhdm_offset s \<and>
            (\<forall>w. translate_in s' root w =
               (if same_page w USER_STACK then Some (stack OR user_flags)
                else if same_page w USER_CODE then Some (page OR user_flags)
                else if 256 \<le> unat (pml4_i w) then translate_in s (boot_root s) w else None))))"

lemma user_tables_run:
  assumes "vm_ok (boot_root s) s" "7 \<le> card (free_frames s)"
  obtains s' where "user_tables s = (Ret (), s')" "user_space_built s s'" "iv_lock s' = iv_lock s" "vectors s' = vectors s"
proof -
  let ?h = "hhdm_offset s" and ?b = "boot_root s"
  have ne: "free_frames s \<noteq> {}" using assms(2) by auto
  obtain root s1 where g: "giverawpage s = (Ret root, s1)" "root \<in> free_frames s" "aligned 4096 root"
    "same_but_memory s s1" "mem s1 = mem s" "hhdm_offset s1 = ?h" "Suc (card (free_frames s1)) = card (free_frames s)"
    "root + ?h \<in> free_pages s" "vm_ok (root + ?h) (s1\<lparr>mem := copied_root (mem s) (root + ?h) ?b\<rparr>)"
    using vm_ok_copied [OF assms(1) ne] by blast
  let ?r = "root + ?h"
  have wf: "wf_tables (mem s) ?h ?b (free_pages s)" using assms(1) by (simp add: vm_ok_def)
  have al: "aligned 4096 ?r" "aligned 4096 ?b" "?r \<noteq> ?b"
    using wf g(8) wf_tablesD [OF wf, of "[]" ?b] by (auto simp: wf_tables_def is_path_def)
  define as where "as = (user_as s)\<lparr>pml4_phys := root, pml4 := ?r\<rparr>"
  define s2 where "s2 = s1\<lparr>user_as := as, mem := copied_root (mem s) ?r ?b\<rparr>"
  have f1: "user_as s1 = user_as s" "cr3 s1 = cr3 s"
    using same_but_memory_field [OF g(4), of user_as] same_but_memory_field [OF g(4), of cr3] by simp_all
  have as: "pml4 (user_as s2) = ?r" "hhdm_offset s2 = ?h" using g(6) by (simp_all add: s2_def as_def)
  have "s2 = s1\<lparr>mem := copied_root (mem s) ?r ?b\<rparr>\<lparr>user_as := as\<rparr>" by (simp add: s2_def)
  then have ok2: "vm_ok ?r s2" using g(9) by simp
  have fr2: "free_frames s2 = free_frames s1" by (simp add: s2_def)
  have tr2: "translate_in s2 ?r w = (if 256 \<le> unat (pml4_i w) then translate_in s ?b w else None)" for w
    using translate_copied [OF wf g(8)] as(2) by (simp add: s2_def)
  have tb2: "table_in s2 ?r q = (if q = [] then Some ?r else if 256 \<le> last q then table_in s ?b q else None)" if "is_path q" for q
    using table_at_copied [OF wf g(8) that] as(2) by (simp add: s2_def)
  have low: "is_path [0]" "is_path [0, 0]" "is_path [2, 0, 0]" "is_path [4, 0, 0]" by (simp_all add: is_path_def)
  have none: "table_in s2 ?r [0] = None" "table_in s2 ?r [0, 0] = None" "table_in s2 ?r [2, 0, 0] = None"
    "table_in s2 ?r [4, 0, 0] = None"
    using tb2 [OF low(1)] tb2 [OF low(2)] tb2 [OF low(3)] tb2 [OF low(4)] by simp_all
  have load0: "load64 (mem s2) (slot ?r 0) = 0"
    using load_slot_copied [OF al al(1), of 0] by (simp add: s2_def)
  have wk: "walkable_in s2 ?r [2, 0, 0]" "walkable_in s2 ?r [4, 0, 0]" using none load0 by (simp_all add: as(2))
  have miss: "missing s2 ?r USER_CODE = 3" using none by (simp add: missing_def user_paths)
  have lowi: "\<not> 256 \<le> unat (pml4_i USER_CODE)" "\<not> 256 \<le> unat (pml4_i USER_STACK)"
    by (simp_all add: USER_CODE_def USER_STACK_def pml4_i_def)
  have w2: "walkable_in s2 ?r (path_of USER_CODE)" unfolding user_paths by (rule wk(1))
  have c2: "Suc 3 \<le> card (free_frames s2)" using fr2 g(7) assms(2) by simp
  have t2: "translate_in s2 ?r USER_CODE = None" using tr2 [of USER_CODE] lowi(1) by simp
  obtain page s3 where 3: "user_page USER_CODE s2 = (Ret page, s3)" "page \<in> free_frames s2" "user_as s3 = user_as s2"
    "vm_ok ?r s3" "hhdm_offset s3 = hhdm_offset s2" "same_but_memory s2 s3"
    "\<And>w. translate_in s3 ?r w = (if same_page w USER_CODE then Some (page OR user_flags) else translate_in s2 ?r w)"
    "\<And>q. is_path q \<Longrightarrow> walkable_in s2 ?r q \<Longrightarrow> walkable_in s3 ?r q"
    "table_in s3 ?r (path_of USER_CODE) \<noteq> None" "page \<notin> free_frames s3" "card (free_frames s3) + Suc 3 = card (free_frames s2)"
    using user_page_maps [of s2 USER_CODE, unfolded as(1) miss, OF ok2 w2 c2 t2] by blast
  have sp: "\<not> same_page USER_STACK USER_CODE" by (simp add: same_page_def user_paths)
  have "table_in s3 ?r [0] \<noteq> None" "table_in s3 ?r [0, 0] \<noteq> None"
    using 3(9) table_at_prefix [of "mem s3" "hhdm_offset s3" ?r 2 "[0, 0]"]
      table_at_prefix [of "mem s3" "hhdm_offset s3" ?r 0 "[0]"] unfolding user_paths by blast+
  then have "missing s3 ?r USER_STACK \<le> 1" by (simp add: missing_def user_paths)
  then have c3: "Suc (missing s3 ?r USER_STACK) \<le> card (free_frames s3)" using 3(11) fr2 g(7) assms(2) by simp
  have w3: "walkable_in s3 ?r (path_of USER_STACK)" using 3(8) [OF low(4) wk(2)] by (simp add: user_paths)
  have t3: "translate_in s3 ?r USER_STACK = None" using 3(7) [of USER_STACK] sp tr2 lowi(2) by simp
  have as3: "pml4 (user_as s3) = ?r" using 3(3) as(1) by simp
  obtain stack s4 where 4: "user_page USER_STACK s3 = (Ret stack, s4)" "stack \<in> free_frames s3" "user_as s4 = user_as s3"
    "vm_ok ?r s4" "hhdm_offset s4 = hhdm_offset s3" "same_but_memory s3 s4"
    "\<And>w. translate_in s4 ?r w = (if same_page w USER_STACK then Some (stack OR user_flags) else translate_in s3 ?r w)"
    "\<And>q. is_path q \<Longrightarrow> walkable_in s3 ?r q \<Longrightarrow> walkable_in s4 ?r q"
    "table_in s4 ?r (path_of USER_STACK) \<noteq> None" "stack \<notin> free_frames s4"
    "card (free_frames s4) + Suc (missing s3 ?r USER_STACK) = card (free_frames s3)"
    using user_page_maps [of s3 USER_STACK, unfolded as3, OF 3(4) w3 c3 t3] by blast
  define s5 where "s5 = s4\<lparr>user_cr3 := pml4_phys (user_as s4), u_buf := page + hhdm_offset s4\<rparr>"
  have boot: "(get_cr3 s AND NOT 0xFFF) + ?h = ?b" by (simp add: get_cr3_def boot_root_def)
  have "user_tables s = (Ret (), s5)"
    using g(1,5,6) f1 3(1) 4(1) copied_after_clearing [OF al, of "mem s"] boot
    by (simp add: user_tables_def routine_simps bind_def phys2virt_def s2_def as_def s5_def get_cr3_def boot_root_def)
  have "free_frames s3 \<subseteq> free_frames s2" using 3(1) user_page_takes by (metis only_takes_def snd_conv)
  then have fr: "stack \<in> free_frames s" "page \<in> free_frames s" "page \<noteq> stack"
    using 4(2) 3(2,10) fr2 taken_subset [OF g(1)] by auto
  have as5: "user_as s5 = as" using 4(3) 3(3) by (simp add: s5_def s2_def)
  have h4: "hhdm_offset s4 = ?h" using 4(5) 3(5) as(2) by simp
  have s5: "pml4 (user_as s5) = ?r" "user_cr3 s5 = root" "pml4_phys (user_as s5) = root" "u_buf s5 = page + ?h" "vm_ok ?r s5"
    using as5 h4 4(3,4) 3(3) by (simp_all add: as_def s5_def s2_def)
  have tr: "translate_in s5 ?r w =
       (if same_page w USER_STACK then Some (stack OR user_flags)
        else if same_page w USER_CODE then Some (page OR user_flags)
        else if 256 \<le> unat (pml4_i w) then translate_in s ?b w else None)" for w
  proof -
    have "translate_in s5 ?r w = translate_in s4 ?r w" by (simp add: s5_def)
    then show ?thesis unfolding 4(7) 3(7) tr2 .
  qed
  have "user_space_built s s5"
    unfolding user_space_built_def Let_def s5(1-4) using s5(5) g(2) fr tr by blast
  moreover have "iv_lock s5 = iv_lock s" "vectors s5 = vectors s"
    using same_but_memory_field [OF g(4), of iv_lock] same_but_memory_field [OF 3(6), of iv_lock]
      same_but_memory_field [OF 4(6), of iv_lock] same_but_memory_field [OF g(4), of vectors]
      same_but_memory_field [OF 3(6), of vectors] same_but_memory_field [OF 4(6), of vectors]
    by (simp_all add: s5_def s2_def)
  ultimately show ?thesis using \<open>user_tables s = (Ret (), s5)\<close> that by blast
qed

text \<open>Property C10: with seven free page frames \<open>user_tables\<close> returns and builds the user's address space: the code and
  the stack page translate to two different, formerly free frames, user-accessible and writable; every other
  lower-half address is unmapped and every upper-half address translates as in the kernel's tables; the
  tables form a tree apart from the free pages, and \<open>user_cr3\<close> and \<open>u_buf\<close> name the new table and
  the code page.\<close>

theorem user_tables_correct:
  assumes "vm_ok (boot_root s) s" and "7 \<le> card (free_frames s)"
  shows "\<exists>s'. user_tables s = (Ret (), s') \<and> user_space_built s s'"
  using user_tables_run [OF assms] by blast

lemma user_stack_pages: "same_page (0x802000 - 8) USER_CODE \<longleftrightarrow> False" "same_page (0x802000 - 8) USER_STACK \<longleftrightarrow> False"
  "same_page USER_CODE USER_STACK \<longleftrightarrow> False" "\<not> 256 \<le> unat (pml4_i (0x802000 - 8))"
  by (simp_all add: same_page_def path_of_def leaf_of_def USER_CODE_def USER_STACK_def pml4_i_def pdpt_i_def pd_i_def pt_i_def)

lemma enter_userspace_run:
  assumes "iv_lock s = unlocked" "\<not> vectors s 0x80" "current_cpu s \<noteq> -1"
  obtains s' fr where "enter_userspace s = (Stopped, s')" "user_frame s' = Some fr" "frame_rip fr = USER_CODE"
    "frame_rsp fr = 0x802000" "cr3 s' = user_cr3 s" "mem s' = mem s" "hhdm_offset s' = hhdm_offset s" "user_as s' = user_as s"
proof -
  have "lock_free (iv_lock s)" using assms(1) by (simp add: lock_free_def unlocked_def)
  then have l: "aquire_lock (current_cpu s) (iv_lock s) = Some \<lparr>held = True, holding_cpu = current_cpu s\<rparr>"
    using assms(3) by (rule aquire_free)
  show ?thesis
    by (rule that [of "snd (enter_userspace s)" "the (user_frame (snd (enter_userspace s)))"])
       (use assms(2) l in \<open>simp_all add: enter_userspace_def RegisterInterruptVector_def routine_simps bind_def jmp2user_def
        Let_def LogfStr_event_def idt_set_gate_def USER_CODE_def\<close>)
qed

text \<open>Theorem: entering user space after \<open>user_tables\<close> starts the program at a mapped address, but its stack
  pointer, 0x802000, lies two pages above the one mapped stack page: the first push of the program faults.\<close>

theorem user_stack_pointer_unmapped:
  assumes "vm_ok (boot_root s) s" and "7 \<le> card (free_frames s)" and "iv_lock s = unlocked" and "\<not> vectors s 0x80"
  shows "\<exists>s' s'' fr. user_tables s = (Ret (), s') \<and> enter_userspace s' = (Stopped, s'') \<and> user_frame s'' = Some fr \<and>
     cr3 s'' = pml4_phys (user_as s'') \<and>
     translate_in s'' (pml4 (user_as s'')) (frame_rip fr) \<noteq> None \<and>
     translate_in s'' (pml4 (user_as s'')) (frame_rsp fr - 8) = None"
proof -
  obtain s' where 1: "user_tables s = (Ret (), s')" "user_space_built s s'" "iv_lock s' = iv_lock s" "vectors s' = vectors s"
    using user_tables_run [OF assms(1,2)] by blast
  have id: "current_cpu s' \<noteq> -1"
    using 1(2) by (simp add: user_space_built_def Let_def vm_ok_def alloc_ready_def)
  obtain s'' fr where 2: "enter_userspace s' = (Stopped, s'')" "user_frame s'' = Some fr" "frame_rip fr = USER_CODE"
    "frame_rsp fr = 0x802000" "cr3 s'' = user_cr3 s'" "mem s'' = mem s'" "hhdm_offset s'' = hhdm_offset s'" "user_as s'' = user_as s'"
    using enter_userspace_run [of s', OF _ _ id] 1(3,4) assms(3,4) by metis
  have "user_cr3 s' = pml4_phys (user_as s')" using 1(2) by (simp add: user_space_built_def Let_def)
  moreover have "translate_in s' (pml4 (user_as s')) USER_CODE \<noteq> None" "translate_in s' (pml4 (user_as s')) (0x802000 - 8) = None"
    using 1(2) user_stack_pages unfolding user_space_built_def Let_def by (auto simp: same_page_def)
  ultimately show ?thesis using 1(1) 2 by auto
qed

section \<open>Witnesses\<close>

lemma vm_ok_cong:
  assumes "mem s = mem t" "page_list s = page_list t" "memory_lock s = memory_lock t" "hhdm_offset s = hhdm_offset t"
    "msr s = msr t" "percpu_off s = percpu_off t"
  shows "vm_ok r s = vm_ok r t" "free_frames s = free_frames t"
  using assms by (simp_all add: vm_ok_def alloc_ready_def id_apart_def free_pages_def free_frames_def current_cpu_def
      ispercpuready_iff percpu_read_def percpu_offsetof_def)

definition user_test :: user_state where
  "user_test = keyboard_state.extend
     (kb_test\<lparr>mem := mem boot_vm, page_list := page_list boot_vm, memory_lock := memory_lock boot_vm,
        hhdm_offset := hhdm_offset boot_vm, msr := msr boot_vm, percpu_off := percpu_off boot_vm, cr3 := cr3 boot_vm,
        iv_lock := unlocked, vectors := (\<lambda>_. False)\<rparr>)
     \<lparr>u_buf = 0, user_cr3 = 0, user_as = \<lparr>pml4_phys = 0, pml4 = 0\<rparr>,
      segments = \<lparr>sel_cs = 0, sel_ds = 0, sel_es = 0, sel_ss = 0, sel_fs = 0, sel_gs = 0\<rparr>,
      rflags_reg = 2, user_frame = None, handle_interrupt_address = 0xFFFFFFFF80001000\<rparr>"

lemma user_test_fields:
  "mem user_test = mem boot_vm" "page_list user_test = page_list boot_vm" "memory_lock user_test = memory_lock boot_vm"
  "hhdm_offset user_test = hhdm_offset boot_vm" "msr user_test = msr boot_vm" "percpu_off user_test = percpu_off boot_vm"
  "cr3 user_test = cr3 boot_vm" "iv_lock user_test = unlocked" "\<not> vectors user_test 0x80"
  by (simp_all add: user_test_def keyboard_state.extend_def)

lemma user_test_ok: "vm_ok (boot_root user_test) user_test" "7 \<le> card (free_frames user_test)"
proof -
  have b: "boot_root user_test = boot_root boot_vm" by (simp add: boot_root_def user_test_fields)
  have "vm_ok (boot_root user_test) user_test = vm_ok (boot_root user_test) boot_vm"
    by (rule vm_ok_cong(1)) (rule user_test_fields)+
  then show "vm_ok (boot_root user_test) user_test" using boot_vm_ready b by (simp add: boot_ready_def)
  have "free_frames user_test = free_frames boot_vm" by (rule vm_ok_cong(2)) (rule user_test_fields)+
  then show "7 \<le> card (free_frames user_test)" by (simp add: boot_vm_frames)
qed

theorem user_tables_correct_witness: "\<exists>s'. user_tables user_test = (Ret (), s') \<and> user_space_built user_test s'"
  by (rule user_tables_correct [OF user_test_ok])

theorem user_stack_pointer_unmapped_witness:
  "\<exists>s' s'' fr. user_tables user_test = (Ret (), s') \<and> enter_userspace s' = (Stopped, s'') \<and> user_frame s'' = Some fr \<and>
     cr3 s'' = pml4_phys (user_as s'') \<and>
     translate_in s'' (pml4 (user_as s'')) (frame_rip fr) \<noteq> None \<and>
     translate_in s'' (pml4 (user_as s'')) (frame_rsp fr - 8) = None"
  by (rule user_stack_pointer_unmapped [OF user_test_ok user_test_fields(8,9)])

end
