(* ===== verification/Boot.thy ===== *)
theory Boot
  imports UserSpace
begin

text \<open>
  Bringing the system up: the requests to the boot loader and \<open>kentry\<close> of \<^verbatim>\<open>entry.c\<close>, \<open>kmain\<close> of \<^verbatim>\<open>kmain.c\<close>,
  \<open>ap_entry\<close> of \<^verbatim>\<open>sys/cpu/generic.c\<close> and the temperature processor of \<^verbatim>\<open>sys/cpu/cpu1\<close>. Endless loops are
  given by their first rounds. What the random number instruction delivers is a stream of the
  environment. The flag \<open>overrun\<close> records that a fixed-size array was indexed beyond its end; nothing is
  said about the memory behind the array.
\<close>

section \<open>Requests\<close>

definition LIMINE_COMMON_MAGIC :: "u64 list" where
  "LIMINE_COMMON_MAGIC = [0xc7b1dd30df4c8b88, 0x0a82e883a194f07b]"

definition LIMINE_BASE_REVISION :: "u64 \<Rightarrow> u64 list" where
  "LIMINE_BASE_REVISION n = [0xf9562b2d5c95a6c8, 0x6a7b384944536bdc, n]"

definition LIMINE_BASE_REVISION_SUPPORTED :: "u64 list \<Rightarrow> bool" where
  "LIMINE_BASE_REVISION_SUPPORTED v \<longleftrightarrow> v ! 2 = 0"

definition LIMINE_REQUESTS_START_MARKER :: "u64 list" where
  "LIMINE_REQUESTS_START_MARKER = [0xf6b8f4b39de7d1ae, 0xfab91a6940fcb9cf, 0x785c6ed015d3e316, 0x181e920a7852b9d9]"

definition LIMINE_REQUESTS_END_MARKER :: "u64 list" where
  "LIMINE_REQUESTS_END_MARKER = [0xadc0e0531bb10d03, 0x9572709f31764c62]"

definition LIMINE_HHDM_REQUEST_ID :: "u64 list" where
  "LIMINE_HHDM_REQUEST_ID = LIMINE_COMMON_MAGIC @ [0x48dcf1cb8ad2b852, 0x63984e959a98244b]"

definition LIMINE_FRAMEBUFFER_REQUEST_ID :: "u64 list" where
  "LIMINE_FRAMEBUFFER_REQUEST_ID = LIMINE_COMMON_MAGIC @ [0x9d5827dcd881dd75, 0xa3148604f6fab11b]"

definition LIMINE_MP_REQUEST_ID :: "u64 list" where
  "LIMINE_MP_REQUEST_ID = LIMINE_COMMON_MAGIC @ [0x95a67b819a1b857e, 0xa0b61b723b6a73e0]"

definition LIMINE_MEMMAP_REQUEST_ID :: "u64 list" where
  "LIMINE_MEMMAP_REQUEST_ID = LIMINE_COMMON_MAGIC @ [0x67cf3d9d378a806f, 0xe304acdfc50c3c62]"

definition LIMINE_RSDP_REQUEST_ID :: "u64 list" where
  "LIMINE_RSDP_REQUEST_ID = LIMINE_COMMON_MAGIC @ [0xc5e77b6b397e7b43, 0x27637845accdcf3c]"

record limine_request =
  req_id :: "u64 list"
  req_revision :: u64

definition framebuffer_request :: limine_request where
  "framebuffer_request = \<lparr>req_id = LIMINE_FRAMEBUFFER_REQUEST_ID, req_revision = 0\<rparr>"

definition memmap_request :: limine_request where
  "memmap_request = \<lparr>req_id = LIMINE_MEMMAP_REQUEST_ID, req_revision = 0\<rparr>"

definition hhdm_request :: limine_request where
  "hhdm_request = \<lparr>req_id = LIMINE_HHDM_REQUEST_ID, req_revision = 0\<rparr>"

definition mp_request :: limine_request where
  "mp_request = \<lparr>req_id = LIMINE_MP_REQUEST_ID, req_revision = 0\<rparr>"

definition rsdp_request :: limine_request where
  "rsdp_request = \<lparr>req_id = LIMINE_RSDP_REQUEST_ID, req_revision = 0\<rparr>"

section \<open>State\<close>

record limine_mp_info =
  processor_id :: u32
  lapic_id :: u32
  mp_reserved :: u64
  goto_address :: u64
  extra_argument :: u64

record limine_mp_response =
  mp_revision :: u64
  mp_flags :: u32
  bsp_lapic_id :: u32
  cpus :: "limine_mp_info list"

text \<open>A response the loader did not give is a null pointer. The framebuffer, the root pointer and the direct-map
  offset are fields of the components that use them; \<open>hhdm_answered\<close> says whether the last one was given.\<close>

record boot_state = user_state +
  kentry_ran :: bool
  limine_base_revision :: "u64 list"
  memmap_response :: "limine_memmap_entry list option"
  hhdm_answered :: bool
  mp_response :: "limine_mp_response option"
  core :: u8
  ap_entry_address :: u64
  rdrand_in :: "nat \<Rightarrow> u64 option"
  rdrand_reads :: nat
  overrun :: bool

section \<open>The boot processor\<close>

definition serial_init :: "'a machine_scheme \<Rightarrow> 'a machine_scheme" where
  "serial_init s =
     x86_outb (0x3F8 + 4) 0x0B (x86_outb (0x3F8 + 2) 0xC7 (x86_outb (0x3F8 + 3) 0x03 (x86_outb (0x3F8 + 1) 0x00
    (x86_outb (0x3F8 + 0) 0x03 (x86_outb (0x3F8 + 3) 0x80 (x86_outb (0x3F8 + 1) 0x00 s))))))"

definition kmain :: "(nat \<Rightarrow> nat \<Rightarrow> bool) \<Rightarrow> nat \<Rightarrow> ('a fb_state_scheme, unit) routine" where
  "kmain answers n = seq set_up_framebuffer (seq kmain_fill (jump_to_watchdog answers n))"

text \<open>The loop over the processors; the entry address is stored where the loader waits for it.\<close>

primrec start_cpus :: "u64 \<Rightarrow> u32 \<Rightarrow> nat \<Rightarrow> limine_mp_info list \<Rightarrow> limine_mp_info list \<times> log_event list" where
  "start_cpus entry bsp i [] = ([], [])"
| "start_cpus entry bsp i (c # cl) =
     (let (cl', es) = start_cpus entry bsp (Suc i) cl
      in if lapic_id c \<noteq> bsp
         then (c\<lparr>goto_address := entry\<rparr> # cl',
               LogfStr_call ''kernel'' (''sending cpu %i to ap entry'' @ [CHR 0x0A]) [IntArg (of_nat i)] # es)
         else (c # cl', es))"

definition start_all :: "limine_mp_response \<Rightarrow> 'a boot_state_scheme \<Rightarrow> 'a boot_state_scheme" where
  "start_all mp s =
     (let (cl, es) = start_cpus (ap_entry_address s) (bsp_lapic_id mp) 0 (cpus mp)
      in log_calls es (s\<lparr>mp_response := Some (mp\<lparr>cpus := cl\<rparr>)\<rparr>))"

definition log_framebuffer :: "('a boot_state_scheme, unit) routine" where
  "log_framebuffer s =
     (case RequestFrameBuffer 0 s of
        None \<Rightarrow> null_fault s
      | Some f \<Rightarrow>
          (Ret (), LogfStr_event ''kernel'' (''framebuffer %lux%lu pitch=%lu bpp=%u'' @ [CHR 0x0A])
             [IntArg (height f), IntArg (width f), IntArg (pitch f), IntArg (ucast (bpp f))] s))"

definition kentry_setup :: "device_t \<times> pci_device \<Rightarrow> ('a boot_state_scheme, unit) routine" where
  "kentry_setup stack =
     seq (modify serial_init)
    (seq (modify InterruptInit)
    (seq (bind (gets (\<lambda>s. (the (memmap_response s), hhdm_response_offset s))) (\<lambda>(m, h). memory_init m h))
    (seq virtual_memory_init
    (seq user_space_init
    (seq check_watchdog
    (seq (modify load_drivers)
    (seq (parse_acpi stack)
         log_framebuffer)))))))"

definition kentry :: "device_t \<times> pci_device \<Rightarrow> (nat \<Rightarrow> nat \<Rightarrow> bool) \<Rightarrow> nat \<Rightarrow> ('a boot_state_scheme, unit) routine" where
  "kentry stack answers n =
     bind (gets kentry_ran) (\<lambda>ran.
     seq (modify (\<lambda>s. s\<lparr>kentry_ran := True\<rparr>))
    (if ran then stop_with (Panic ''kentry ran twice'' STATUS_UNKNOWN)
     else bind (gets limine_base_revision) (\<lambda>rev.
     if \<not> LIMINE_BASE_REVISION_SUPPORTED rev then stop_with (Panic ''Bootloader doesnt support our revision'' STATUS_UNKNOWN)
     else bind (gets fb_response) (\<lambda>fb.
     if fb = None \<or> length (the fb) < 1 then stop_with (Panic ''Didnt recieve a framebuffer'' STATUS_UNKNOWN)
     else bind (gets memmap_response) (\<lambda>mm.
     if mm = None \<or> length (the mm) < 1 then stop_with (Panic ''Didnt recieve a memmap'' STATUS_UNKNOWN)
     else bind (gets hhdm_answered) (\<lambda>hh.
     if \<not> hh then stop_with (Panic ''Didnt recieve a hhdm'' STATUS_UNKNOWN)
     else bind (gets mp_response) (\<lambda>mp.
     if mp = None then stop_with (Panic ''Didnt recieve a mp'' STATUS_UNKNOWN)
     else
       seq (kentry_setup stack)
      (seq (modify (start_all (the mp)))
      (seq (kmain answers n) cpu_stop)))))))))"

section \<open>The other processors\<close>

definition rdrand :: "('a boot_state_scheme, u64 option) routine" where
  "rdrand s = (Ret (rdrand_in s (rdrand_reads s)), s\<lparr>rdrand_reads := Suc (rdrand_reads s)\<rparr>)"

text \<open>One round of the temperature loop.\<close>

definition temperature_round :: "('a boot_state_scheme, unit) routine" where
  "temperature_round =
     seq (bind rdrand (\<lambda>r.
            case r of
              Some x \<Rightarrow> modify (\<lambda>s. s\<lparr>temperature := x mod 131\<rparr>)
            | None \<Rightarrow>
                seq (modify (LogfStr_event ''temp'' ''rdrand failed stopping high tech temperature sensor tech'' []))
                    cpu_stop))
    (bind (gets (percpu_read V_cpu_state)) (\<lambda>st.
       if st AND 0x1 = 0 then
         seq (modify (LogStr_event ''temp'' ''temp shutting down cuz cpu state says so''))
        (seq (modify cpu_stop_interrupts) cpu_stop)
       else return ()))"

primrec temperature_rounds :: "nat \<Rightarrow> ('a boot_state_scheme, unit) routine" where
  "temperature_rounds 0 = return ()"
| "temperature_rounds (Suc n) = seq temperature_round (temperature_rounds n)"

definition temperature_entry :: "nat \<Rightarrow> ('a boot_state_scheme, unit) routine" where
  "temperature_entry n =
     seq (modify (\<lambda>s. LogfStr_event ''temp'' (''cpu %i is ready to read the temperature'' @ [CHR 0x0A])
            [IntArg (percpu_read V_cpu_id s)] s))
    (seq (modify (percpu_write V_cpu_state 0x1))
         (temperature_rounds n))"

text \<open>The per-CPU page of the processor; the arrays have 32 and 64 elements.\<close>

definition ap_percpu :: "limine_mp_info \<Rightarrow> u64 \<Rightarrow> ('a boot_state_scheme, unit) routine" where
  "ap_percpu cpu my_core =
     bind KGetPage (\<lambda>n_block.
     seq (modify (\<lambda>s. s\<lparr>mem := snd (memset n_block 0 4096 (mem s))\<rparr>))
    (seq (modify (\<lambda>s. s\<lparr>mem := snd (memcpy n_block (percpu_start s) (percpu_size s) (mem s))\<rparr>))
    (seq (modify (wrmsr MSR_GS_BASE n_block))
    (seq (modify (percpu_write V_cpu_id (ucast (lapic_id cpu))))
    (seq (modify (\<lambda>s. (percpu_write V_tss (tssforcpus s + ucast (lapic_id cpu) * tss_cpu_size) s)
                       \<lparr>overrun := overrun s \<or> 32 \<le> lapic_id cpu\<rparr>))
         (modify (\<lambda>s. s\<lparr>cpu_percpu := (cpu_percpu s)[unat my_core := n_block],
                       overrun := overrun s \<or> of_nat MAX_CPUS \<le> my_core\<rparr>)))))))"

definition ap_entry :: "nat \<Rightarrow> limine_mp_info \<Rightarrow> ('a boot_state_scheme, unit) routine" where
  "ap_entry n cpu =
     bind (gets (\<lambda>s. ucast (core s) + 1)) (\<lambda>my_core.
     seq (modify (\<lambda>s. s\<lparr>core := core s + 1\<rparr>))
    (seq (modify cpu_stop_interrupts)
    (seq (modify InterruptInit)
    (seq (modify load_gdt)
    (bind (gets percpu_size) (\<lambda>sz.
     if 4096 \<le> sz then
       seq (modify (LogfStr_event ''kernel'' ''percpu size = %u'' [IntArg sz]))
           (stop_with (Panic (''percpu tables too big prob like something wrong or ill fix it later or something'' @ [CHR 0x0A])
              STATUS_UNKNOWN))
     else
       seq (ap_percpu cpu my_core)
      (seq tss_init
      (seq (modify cpu_enable_interrupts)
      (seq (modify (percpu_write V_sil 0))
      (seq (modify (LogfStr_event ''kernel'' (''enabling cpu %i '' @ [CHR 0x0A]) [IntArg my_core]))
      (seq (if my_core = 1 then temperature_entry n
            else if my_core = 2 then sound_entry
            else cpu_stop)
      (seq (modify (\<lambda>s. LogfStr_event ''kernel'' (''core %lu returned halting on core'' @ [CHR 0x0A])
              [IntArg (percpu_read V_cpu_id s)] s))
      (seq (modify (percpu_write V_sil 10))
      (seq (modify (percpu_write V_cpu_state 0x1))
           cpu_stop))))))))))))))"

section \<open>Properties\<close>

text \<open>The checks in the order in which they are made.\<close>

definition boot_checks :: "'a boot_state_scheme \<Rightarrow> (bool \<times> string) list" where
  "boot_checks s =
     [(kentry_ran s, ''kentry ran twice''),
      (limine_base_revision s ! 2 \<noteq> 0, ''Bootloader doesnt support our revision''),
      (fb_response s = None \<or> fb_response s = Some [], ''Didnt recieve a framebuffer''),
      (memmap_response s = None \<or> memmap_response s = Some [], ''Didnt recieve a memmap''),
      (\<not> hhdm_answered s, ''Didnt recieve a hhdm''),
      (mp_response s = None, ''Didnt recieve a mp'')]"

definition boot_failure :: "'a boot_state_scheme \<Rightarrow> string option" where
  "boot_failure s = map_option snd (find fst (boot_checks s))"

lemma missing_list: "(x = None \<or> length (the x) < 1) \<longleftrightarrow> (x = None \<or> x = Some [])"
  by (cases x) auto

lemma kentry_checks:
  "kentry stack answers n s =
     (case boot_failure s of
        Some msg \<Rightarrow> (Panic msg STATUS_UNKNOWN, s\<lparr>kentry_ran := True\<rparr>)
      | None \<Rightarrow>
          seq (kentry_setup stack) (seq (modify (start_all (the (mp_response s)))) (seq (kmain answers n) cpu_stop))
            (s\<lparr>kentry_ran := True\<rparr>))"
  unfolding kentry_def boot_failure_def boot_checks_def missing_list
  by (simp add: bind_def gets_def modify_def stop_with_def seq_def LIMINE_BASE_REVISION_SUPPORTED_def)

text \<open>Property C30: when something the kernel needs is missing, or when \<open>kentry\<close> has run before, it panics with the
  message of the first failed check and has done nothing but record that it ran; in particular no device has been touched.\<close>

theorem kentry_refuses:
  assumes "boot_failure s = Some msg"
  shows "kentry stack answers n s = (Panic msg STATUS_UNKNOWN, s\<lparr>kentry_ran := True\<rparr>) \<and>
     boot_failure (s\<lparr>kentry_ran := True\<rparr>) = Some ''kentry ran twice''"
  using assms by (simp add: kentry_checks) (simp add: boot_failure_def boot_checks_def)

lemma start_cpus_eq:
  "fst (start_cpus entry bsp i cl) = map (\<lambda>c. if lapic_id c \<noteq> bsp then c\<lparr>goto_address := entry\<rparr> else c) cl"
  "length (snd (start_cpus entry bsp i cl)) = length (filter (\<lambda>c. lapic_id c \<noteq> bsp) cl)"
  by (induction cl arbitrary: i) (simp_all add: case_prod_unfold Let_def)

text \<open>Theorem: \<open>kentry\<close> gives the entry address to exactly the processors other than the boot processor, changes
  nothing else of their structures, and logs one line for each.\<close>

theorem start_all_others:
  "mp_response (start_all mp s) =
     Some (mp\<lparr>cpus := map (\<lambda>c. if lapic_id c \<noteq> bsp_lapic_id mp then c\<lparr>goto_address := ap_entry_address s\<rparr> else c) (cpus mp)\<rparr>) \<and>
   length (klog (start_all mp s)) = length (klog s) + length (filter (\<lambda>c. lapic_id c \<noteq> bsp_lapic_id mp) (cpus mp))"
  by (simp add: start_all_def case_prod_unfold Let_def start_cpus_eq) (simp add: log_calls_def)

section \<open>The temperature\<close>

definition temperature_ok :: "'a boot_state_scheme \<Rightarrow> bool" where
  "temperature_ok s \<longleftrightarrow> temperature s < 131"

lemma temperature_round_ok: "temperature_ok s \<Longrightarrow> temperature_ok (snd (temperature_round s))"
proof -
  assume "temperature_ok s"
  moreover have "x mod 131 < (131 :: u64)" for x by (simp add: word_less_nat_alt unat_mod)
  ultimately show ?thesis
    by (auto simp: temperature_round_def seq_def bind_def rdrand_def modify_def gets_def return_def cpu_stop_def
        temperature_ok_def LogfStr_event_def LogStr_event_def cpu_enable_interrupts_def cpu_stop_interrupts_def split: option.split)
qed

lemma seq_snd_cases: "snd (seq f g s) = snd (f s) \<or> snd (seq f g s) = snd (g (snd (f s)))"
  by (cases "f s"; cases "fst (f s)") (simp_all add: seq_def bind_def)

text \<open>Theorem: the temperature that the first application processor publishes is always below 131, however many rounds it
  makes and however the random numbers come out.\<close>

theorem temperature_bounded:
  assumes "temperature_ok s"
  shows "temperature_ok (snd (temperature_entry n s))"
proof -
  have rounds: "temperature_ok (snd (temperature_rounds n s))" if "temperature_ok s" for s :: "'a boot_state_scheme"
    using that
  proof (induction n arbitrary: s)
    case 0
    then show ?case by (simp add: return_def)
  next
    case (Suc n)
    then show ?case
      using seq_snd_cases [of temperature_round "temperature_rounds n" s] temperature_round_ok [OF Suc.prems] by auto
  qed
  have "temperature_ok (percpu_write V_cpu_state 1 (LogfStr_event m f as s))" for m f as
    using assms by (simp add: temperature_ok_def percpu_write_def LogfStr_event_def)
  from rounds [OF this] show ?thesis by (simp add: temperature_entry_def seq_def bind_def modify_def)
qed

section \<open>The per-CPU page of an application processor\<close>

text \<open>A variable of the page is written inside the page.\<close>

lemma percpu_write_inside:
  assumes "template_ok s" "\<not> in_range p 4096 x" "percpu_off q = percpu_off s" "msr q MSR_GS_BASE = p"
  shows "mem (percpu_write v y q) x = mem q x"
proof -
  have "unat (percpu_off s v) + 8 \<le> unat (percpu_size s)" "unat (percpu_size s) \<le> 4096"
    using assms(1) by (simp_all add: template_ok_def word_le_nat_alt)
  then have o: "unat (percpu_off s v) + 8 \<le> 4096" by (rule order_trans)
  have "\<not> in_range (p + percpu_off s v) 8 x"
  proof
    assume i: "in_range (p + percpu_off s v) 8 x"
    define y where "y = x - (p + percpu_off s v)"
    have "unat y < 8" using i by (simp add: in_range_def y_def)
    then have "unat (y + percpu_off s v) = unat y + unat (percpu_off s v)" using o by (simp add: unat_word_ariths)
    moreover have "x - p = y + percpu_off s v" by (simp add: y_def)
    ultimately show False using \<open>unat y < 8\<close> o assms(2) by (simp add: in_range_def)
  qed
  then show ?thesis using assms(3,4) by (simp add: percpu_write_def percpu_offsetof_def store64_outside)
qed

text \<open>Property C29: an application processor that runs this code with the allocator to itself takes a free page out of the allocator and moves
  its variables there: they read as its own identifier, its own task state segment and otherwise the template values, the page is
  registered under its number, and no byte outside the page changes. An array is
  overrun exactly when the identifier of its interrupt controller is 32 or more or its number is 64 or more; the code checks
  neither.\<close>

theorem ap_percpu_page:
  assumes "alloc_ready s" and "free_pages s \<noteq> {}" and "template_ok s"
  shows "\<exists>s' p. ap_percpu cpu my_core s = (Ret (), s') \<and> p \<in> free_pages s \<and> free_pages s' = free_pages s - {p} \<and>
     used_pages s' = insert p (used_pages s) \<and> msr s' MSR_GS_BASE = p \<and>
     cpu_percpu s' = (cpu_percpu s)[unat my_core := p] \<and>
     (\<forall>v. percpu_read v s' =
        (if v = V_cpu_id then ucast (lapic_id cpu)
         else if v = V_tss then tssforcpus s + ucast (lapic_id cpu) * tss_cpu_size
         else load64 (mem s) (percpu_start s + percpu_off s v))) \<and>
     (\<forall>x. \<not> in_range p 4096 x \<longrightarrow> mem s' x = mem s x) \<and>
     overrun s' = (overrun s \<or> 32 \<le> lapic_id cpu \<or> 64 \<le> my_core)"
proof -
  obtain p pl where g: "KGetPage s = (Ret p, s\<lparr>page_list := pl, memory_lock := unlocked\<rparr>)" "p \<in> free_pages s"
      "free_pages (s\<lparr>page_list := pl, memory_lock := unlocked\<rparr>) = free_pages s - {p}"
      "used_pages (s\<lparr>page_list := pl, memory_lock := unlocked\<rparr>) = insert p (used_pages s)"
    using KGetPage_frame [OF assms(1,2)] by blast
  let ?id = "ucast (lapic_id cpu) :: u64"
  let ?t = "tssforcpus s + ?id * tss_cpu_size"
  define m where "m = snd (memcpy p (percpu_start s) (percpu_size s) (snd (memset p 0 4096 (mem s))))"
  define s0 where "s0 = s\<lparr>page_list := pl, memory_lock := unlocked, mem := m, msr := (msr s)(MSR_GS_BASE := p)\<rparr>"
  define s1 where "s1 = percpu_write V_tss ?t (percpu_write V_cpu_id ?id s0)"
  define s2 where "s2 = s1\<lparr>cpu_percpu := (cpu_percpu s)[unat my_core := p], overrun := overrun s \<or> 32 \<le> lapic_id cpu \<or> 64 \<le> my_core\<rparr>"
  have run: "ap_percpu cpu my_core s = (Ret (), s2)"
    using g(1) by (simp add: ap_percpu_def routine_simps bind_def s2_def s1_def s0_def m_def percpu_size_def
        percpu_write_def percpu_offsetof_def MAX_CPUS_def)
  have lay: "percpu_layout_ok (percpu_off s)" and al: "aligned 8 p"
    using assms(3) g(2) by (auto simp: template_ok_def intro: aligned_dvd [of 4096])
  have rd: "percpu_read v s2 = (if v = V_cpu_id then ?id else if v = V_tss then ?t else load64 (mem s) (percpu_start s + percpu_off s v))" for v
  proof -
    have "percpu_read v s0 = load64 (mem s) (percpu_start s + percpu_off s v)"
      using template_copied [OF assms(3) g(2), of v] by (simp add: s0_def percpu_read_def percpu_offsetof_def m_def)
    moreover have "percpu_read v s2 = percpu_read v s1" by (simp add: s2_def percpu_read_def percpu_offsetof_def)
    ultimately show ?thesis using lay al by (auto simp: s1_def s0_def percpu_read_write_other)
  qed
  have frame: "mem s2 x = mem s x" if x: "\<not> in_range p 4096 x" for x
  proof -
    have "mem s1 x = mem (percpu_write V_cpu_id ?id s0) x" unfolding s1_def
      by (rule percpu_write_inside [OF assms(3) x]) (simp_all add: s0_def)
    also have "\<dots> = mem s0 x" by (rule percpu_write_inside [OF assms(3) x]) (simp_all add: s0_def)
    also have "\<dots> = mem s x" using template_copy_apart(2) [OF assms(3) g(2) x] by (simp add: s0_def m_def)
    finally show ?thesis by (simp add: s2_def)
  qed
  have "free_pages s2 = free_pages s - {p}" "used_pages s2 = insert p (used_pages s)" "msr s2 MSR_GS_BASE = p"
      "cpu_percpu s2 = (cpu_percpu s)[unat my_core := p]" "overrun s2 = (overrun s \<or> 32 \<le> lapic_id cpu \<or> 64 \<le> my_core)"
    using g(3,4) by (simp_all add: s2_def s1_def s0_def percpu_write_def free_pages_def used_pages_def free_frames_def used_frames_def)
  then show ?thesis using run g(2) rd frame by (intro exI [of _ s2] exI [of _ p]) blast
qed

section \<open>Witnesses\<close>

definition ap_cpu :: limine_mp_info where
  "ap_cpu = \<lparr>processor_id = 1, lapic_id = 1, mp_reserved = 0, goto_address = 0, extra_argument = 0\<rparr>"

definition boot_test :: boot_state where
  "boot_test = user_state.extend
     (user_test\<lparr>mem := mem bsp_test, page_list := page_list bsp_test, memory_lock := memory_lock bsp_test,
        hhdm_offset := hhdm_offset bsp_test, msr := msr bsp_test, percpu_off := percpu_off bsp_test,
        percpu_start := percpu_start bsp_test, percpu_end := percpu_end bsp_test, temperature := 0, fb_response := None\<rparr>)
     \<lparr>kentry_ran = False, limine_base_revision = LIMINE_BASE_REVISION 0, memmap_response = None, hhdm_answered = True,
      mp_response = None, core = 0, ap_entry_address = 0xFFFFFFFF80002000, rdrand_in = (\<lambda>n. Some (of_nat n)), rdrand_reads = 0,
      overrun = False\<rparr>"

lemma boot_test_fields:
  "mem boot_test = mem bsp_test" "page_list boot_test = page_list bsp_test" "memory_lock boot_test = memory_lock bsp_test"
  "hhdm_offset boot_test = hhdm_offset bsp_test" "msr boot_test = msr bsp_test" "percpu_off boot_test = percpu_off bsp_test"
  "percpu_start boot_test = percpu_start bsp_test" "percpu_end boot_test = percpu_end bsp_test" "temperature boot_test = 0"
  "fb_response boot_test = None" "kentry_ran boot_test = False" "limine_base_revision boot_test = LIMINE_BASE_REVISION 0"
  by (simp_all add: boot_test_def user_state.extend_def)

theorem kentry_refuses_witness:
  "kentry (ahci_device, dev_pci ahci_device) (\<lambda>_ _. True) 3 boot_test =
     (Panic ''Didnt recieve a framebuffer'' STATUS_UNKNOWN, boot_test\<lparr>kentry_ran := True\<rparr>) \<and>
   boot_failure (boot_test\<lparr>kentry_ran := True\<rparr>) = Some ''kentry ran twice''"
  by (rule kentry_refuses) (simp add: boot_failure_def boot_checks_def boot_test_fields LIMINE_BASE_REVISION_def)

theorem temperature_bounded_witness: "temperature_ok (snd (temperature_entry 5 boot_test))"
  by (rule temperature_bounded) (simp add: temperature_ok_def boot_test_fields)

theorem ap_percpu_page_witness:
  "\<exists>s' p. ap_percpu ap_cpu 1 boot_test = (Ret (), s') \<and> p \<in> free_pages boot_test \<and> free_pages s' = free_pages boot_test - {p} \<and>
     percpu_read V_cpu_id s' = 1 \<and> percpu_read V_irq s' = load64 (mem boot_test) (percpu_start boot_test + percpu_off boot_test V_irq)"
proof -
  have fp: "free_pages boot_test = free_pages bsp_test" by (simp add: free_pages_def free_frames_def boot_test_fields)
  have f: "free_pages boot_test \<noteq> {}" unfolding fp using bsp_test_ready(2) .
  have a: "alloc_ready boot_test"
    using bsp_test_ready(1) by (simp add: alloc_ready_def current_cpu_def ispercpuready_iff percpu_read_def
        percpu_offsetof_def boot_test_fields split: if_splits)
  have "template_ok boot_test"
    using bsp_test_ready(3) unfolding template_ok_def fp by (simp add: percpu_size_def boot_test_fields)
  from ap_percpu_page [OF a f this, of ap_cpu 1] obtain s' p where r: "ap_percpu ap_cpu 1 boot_test = (Ret (), s')" "p \<in> free_pages boot_test"
      "free_pages s' = free_pages boot_test - {p}"
      "\<forall>v. percpu_read v s' = (if v = V_cpu_id then ucast (lapic_id ap_cpu)
         else if v = V_tss then tssforcpus boot_test + ucast (lapic_id ap_cpu) * tss_cpu_size
         else load64 (mem boot_test) (percpu_start boot_test + percpu_off boot_test v))" by blast
  from r(4) have "percpu_read V_cpu_id s' = 1" "percpu_read V_irq s' = load64 (mem boot_test) (percpu_start boot_test + percpu_off boot_test V_irq)"
    by (simp_all add: ap_cpu_def)
  then show ?thesis using r(1-3) by blast
qed

end
