(* ===== verification/FatTool.thy ===== *)
theory FatTool
  imports Prelude
begin

text \<open>
  The host tool \<^verbatim>\<open>tools/fat/fat.c\<close>, which prints a file of a FAT12 disk image. The image is a byte list
  with a read position; \<open>fseek\<close> and \<open>fread\<close> are the standard functions on a regular file. Blocks of
  memory are byte lists, a null pointer is \<open>None\<close>, and what a fresh block holds, or whether \<open>malloc\<close>
  succeeds, is the environment's choice. \<open>Undefined\<close> is an access outside a block, a signed overflow or
  a division by zero. The loop of \<open>readFile\<close> follows the cluster chain of the image and may never end,
  so it is a partial function: \<open>None\<close> is a run that does not return.
\<close>

section \<open>Structures\<close>

definition le16 :: "u8 list \<Rightarrow> nat \<Rightarrow> u16" where
  "le16 b i = of_nat (unat (b ! i) + 256 * unat (b ! (i + 1)))"

definition le32 :: "u8 list \<Rightarrow> nat \<Rightarrow> u32" where
  "le32 b i = of_nat (unat (b ! i) + 256 * unat (b ! (i + 1)) + 65536 * unat (b ! (i + 2)) + 16777216 * unat (b ! (i + 3)))"

definition sub_bytes :: "nat \<Rightarrow> nat \<Rightarrow> 'a list \<Rightarrow> 'a list" where
  "sub_bytes i n b = take n (drop i b)"

record BootSector =
  BootJumpInstruction :: "u8 list"
  OemIdentifier :: "u8 list"
  BytesPerSector :: u16
  SectorsPerCluster :: u8
  ReservedSectors :: u16
  FatCount :: u8
  DirEntryCount :: u16
  TotalSectors :: u16
  MediaDescriptorType :: u8
  SectorsPerFat :: u16
  SectorsPerTrack :: u16
  Heads :: u16
  HiddenSectors :: u32
  LargeSectorCount :: u32
  DriveNumber :: u8
  Reserved_boot :: u8
  BootSignature :: u8
  VolumeId :: u32
  VolumeLabel :: "u8 list"
  SystemId :: "u8 list"

definition sizeof_BootSector :: nat where
  "sizeof_BootSector = 3 + 8 + 2 + 1 + 2 + 1 + 2 + 2 + 1 + 2 + 2 + 2 + 4 + 4 + 1 + 1 + 1 + 4 + 11 + 8"

definition as_BootSector :: "u8 list \<Rightarrow> BootSector" where
  "as_BootSector b =
     \<lparr>BootJumpInstruction = sub_bytes 0 3 b, OemIdentifier = sub_bytes 3 8 b, BytesPerSector = le16 b 11,
      SectorsPerCluster = b ! 13, ReservedSectors = le16 b 14, FatCount = b ! 16, DirEntryCount = le16 b 17,
      TotalSectors = le16 b 19, MediaDescriptorType = b ! 21, SectorsPerFat = le16 b 22,
      SectorsPerTrack = le16 b 24, Heads = le16 b 26, HiddenSectors = le32 b 28, LargeSectorCount = le32 b 32,
      DriveNumber = b ! 36, Reserved_boot = b ! 37, BootSignature = b ! 38, VolumeId = le32 b 39,
      VolumeLabel = sub_bytes 43 11 b, SystemId = sub_bytes 54 8 b\<rparr>"

record DirectoryEntry =
  FileName :: "u8 list"
  Attributes :: u8
  Reserved_entry :: u8
  CreatedTimeTenths :: u8
  CreatedTime :: u16
  CreatedDate :: u16
  AccessedDate :: u16
  FirstClusterHigh :: u16
  ModifiedTime :: u16
  ModifiedDate :: u16
  FirstClusterLow :: u16
  FileSize :: u32

definition sizeof_DirectoryEntry :: nat where
  "sizeof_DirectoryEntry = 11 + 1 + 1 + 1 + 2 + 2 + 2 + 2 + 2 + 2 + 2 + 4"

definition as_DirectoryEntry :: "u8 list \<Rightarrow> DirectoryEntry" where
  "as_DirectoryEntry b =
     \<lparr>FileName = sub_bytes 0 11 b, Attributes = b ! 11, Reserved_entry = b ! 12, CreatedTimeTenths = b ! 13,
      CreatedTime = le16 b 14, CreatedDate = le16 b 16, AccessedDate = le16 b 18, FirstClusterHigh = le16 b 20,
      ModifiedTime = le16 b 22, ModifiedDate = le16 b 24, FirstClusterLow = le16 b 26, FileSize = le32 b 28\<rparr>"

section \<open>State\<close>

text \<open>The globals and the open image. The boot sector is kept as its bytes, which \<open>fread\<close> fills.\<close>

record fat_state =
  boot_bytes :: "u8 list"
  g_Fat :: "u8 list option"
  g_RootDirectory :: "u8 list option"
  g_RootDirectoryEnd :: u32
  disk_image :: "u8 list"
  image_pos :: nat
  fresh :: "nat \<Rightarrow> (nat \<Rightarrow> u8) option"

definition g_BootSector :: "fat_state \<Rightarrow> BootSector" where
  "g_BootSector s = as_BootSector (boot_bytes s)"

datatype 'a cresult = Value 'a | Undefined

primrec cbind :: "'a cresult \<Rightarrow> ('a \<Rightarrow> 'b cresult) \<Rightarrow> 'b cresult" where
  "cbind (Value x) f = f x"
| "cbind Undefined f = Undefined"

definition malloc :: "nat \<Rightarrow> fat_state \<Rightarrow> u8 list option" where
  "malloc n s = map_option (\<lambda>f. map f [0..<n]) (fresh s n)"

definition patch :: "'a list \<Rightarrow> nat \<Rightarrow> 'a list \<Rightarrow> 'a list" where
  "patch b off xs = take off b @ xs @ drop (off + length xs) b"

text \<open>\<open>fread\<close> into a block at an offset: the bytes up to the end of the file, the number of whole items.\<close>

definition fread :: "u8 list option \<Rightarrow> nat \<Rightarrow> nat \<Rightarrow> nat \<Rightarrow> fat_state \<Rightarrow> (nat \<times> u8 list option \<times> fat_state) cresult" where
  "fread b off isize n s =
     (let got = take (isize * n) (drop (image_pos s) (disk_image s))
      in if got = [] then Value (0, b, s)
         else case b of
                None \<Rightarrow> Undefined
              | Some bs \<Rightarrow>
                  if off + length got \<le> length bs
                  then Value (length got div isize, Some (patch bs off got),
                              s\<lparr>image_pos := image_pos s + length got\<rparr>)
                  else Undefined)"

section \<open>Operations\<close>

definition readBootSector :: "fat_state \<Rightarrow> (bool \<times> fat_state) cresult" where
  "readBootSector s =
     cbind (fread (Some (boot_bytes s)) 0 sizeof_BootSector 1 s)
       (\<lambda>(n, b, s'). Value (0 < n, s'\<lparr>boot_bytes := the b\<rparr>))"

definition readSectors :: "u32 \<Rightarrow> u32 \<Rightarrow> u8 list option \<Rightarrow> nat \<Rightarrow> fat_state \<Rightarrow> (bool \<times> u8 list option \<times> fat_state) cresult" where
  "readSectors lba count b off s =
     (let bps = BytesPerSector (g_BootSector s)
      in cbind (fread b off (unat bps) (unat count) (s\<lparr>image_pos := unat (lba * ucast bps)\<rparr>))
           (\<lambda>(n, b', s'). Value (n = unat count, b', s')))"

text \<open>The product of two 16-bit fields is computed as a signed \<open>int\<close>.\<close>

definition readFat :: "fat_state \<Rightarrow> (bool \<times> fat_state) cresult" where
  "readFat s =
     (let bs = g_BootSector s; n = unat (SectorsPerFat bs) * unat (BytesPerSector bs)
      in if 2 ^ 31 \<le> n then Undefined
         else cbind (readSectors (ucast (ReservedSectors bs)) (ucast (SectorsPerFat bs)) (malloc n s) 0 s)
                (\<lambda>(ok, b, s'). Value (ok, s'\<lparr>g_Fat := b\<rparr>)))"

definition rootdir_lba :: "BootSector \<Rightarrow> u32" where
  "rootdir_lba bs = ucast (ReservedSectors bs) + ucast (SectorsPerFat bs) * ucast (FatCount bs)"

definition rootdir_sectors :: "BootSector \<Rightarrow> u32" where
  "rootdir_sectors bs =
     (let size = of_nat sizeof_DirectoryEntry * ucast (DirEntryCount bs); bps = ucast (BytesPerSector bs)
      in size div bps + (if 0 < size mod bps then 1 else 0))"

definition readRootDirectory :: "fat_state \<Rightarrow> (bool \<times> fat_state) cresult" where
  "readRootDirectory s =
     (let bs = g_BootSector s; lba = rootdir_lba bs; sectors = rootdir_sectors bs
      in if BytesPerSector bs = 0 then Undefined
         else cbind (readSectors lba sectors (malloc (unat (sectors * ucast (BytesPerSector bs))) s) 0
                       (s\<lparr>g_RootDirectoryEnd := lba + sectors\<rparr>))
                (\<lambda>(ok, b, s'). Value (ok, s'\<lparr>g_RootDirectory := b\<rparr>)))"

definition dir_entry :: "u8 list \<Rightarrow> nat \<Rightarrow> DirectoryEntry" where
  "dir_entry dir i = as_DirectoryEntry (sub_bytes (i * sizeof_DirectoryEntry) sizeof_DirectoryEntry dir)"

text \<open>The loop of \<open>findFile\<close> from index \<open>i\<close> on; \<open>name\<close> is the memory from the argument's first byte on.\<close>

primrec findFile_loop :: "u8 list \<Rightarrow> u8 list \<Rightarrow> nat \<Rightarrow> nat \<Rightarrow> DirectoryEntry option" where
  "findFile_loop name dir i 0 = None"
| "findFile_loop name dir i (Suc n) =
     (if take 11 name = FileName (dir_entry dir i) then Some (dir_entry dir i) else findFile_loop name dir (Suc i) n)"

definition findFile :: "u8 list \<Rightarrow> fat_state \<Rightarrow> DirectoryEntry option cresult" where
  "findFile name s =
     (let n = unat (DirEntryCount (g_BootSector s))
      in if n = 0 then Value None
         else case g_RootDirectory s of
                None \<Rightarrow> Undefined
              | Some dir \<Rightarrow>
                  if length name < 11 \<or> length dir < n * sizeof_DirectoryEntry then Undefined
                  else Value (findFile_loop name dir 0 n))"

text \<open>The entry of a cluster in the table: twelve bits at one and a half bytes per cluster.\<close>

definition next_cluster :: "u8 list \<Rightarrow> u16 \<Rightarrow> u16 cresult" where
  "next_cluster fat c =
     (let fatIndex = unat c * 3 div 2
      in if length fat < fatIndex + 2 then Undefined
         else Value (if even (unat c) then le16 fat fatIndex AND 0x0FFF else drop_bit 4 (le16 fat fatIndex)))"

definition cluster_lba :: "fat_state \<Rightarrow> u16 \<Rightarrow> u32" where
  "cluster_lba s c = g_RootDirectoryEnd s + (ucast c - 2) * ucast (SectorsPerCluster (g_BootSector s))"

definition cluster_bytes :: "fat_state \<Rightarrow> nat" where
  "cluster_bytes s = unat (SectorsPerCluster (g_BootSector s)) * unat (BytesPerSector (g_BootSector s))"

text \<open>One pass of the loop body, then the loop. The first pass is made with \<open>ok\<close> true and every later one too.\<close>

definition readFile_body :: "u16 \<Rightarrow> u8 list option \<Rightarrow> nat \<Rightarrow> fat_state \<Rightarrow> (bool \<times> u16 \<times> u8 list option \<times> fat_state) cresult" where
  "readFile_body c out off s =
     cbind (readSectors (cluster_lba s c) (ucast (SectorsPerCluster (g_BootSector s))) out off s)
       (\<lambda>(ok, out', s'). case g_Fat s' of
           None \<Rightarrow> Undefined
         | Some fat \<Rightarrow> cbind (next_cluster fat c) (\<lambda>c'. Value (ok, c', out', s')))"

partial_function (option) readFile_loop ::
  "u16 \<Rightarrow> u8 list option \<Rightarrow> nat \<Rightarrow> fat_state \<Rightarrow> (bool \<times> u8 list option \<times> fat_state) cresult option" where
  "readFile_loop c out off s =
     (case readFile_body c out off s of
        Undefined \<Rightarrow> Some Undefined
      | Value (ok, c', out', s') \<Rightarrow>
          if ok \<and> c' < 0x0FF8 then readFile_loop c' out' (off + cluster_bytes s) s'
          else Some (Value (ok, out', s')))"

definition readFile :: "DirectoryEntry \<Rightarrow> u8 list option \<Rightarrow> fat_state \<Rightarrow> (bool \<times> u8 list option \<times> fat_state) cresult option" where
  "readFile e out s = readFile_loop (FirstClusterLow e) out 0 s"

section \<open>The program\<close>

text \<open>In the C locale the printable characters are 0x20 to 0x7E; the others are printed as \<open>%02x\<close>.\<close>

definition hex_digit :: "nat \<Rightarrow> char" where
  "hex_digit n = ''0123456789abcdef'' ! n"

definition show_byte :: "u8 \<Rightarrow> string" where
  "show_byte b =
     (if 0x20 \<le> b \<and> b \<le> 0x7E then [char_of (unat b)]
      else [CHR ''<'', hex_digit (unat b div 16), hex_digit (unat b mod 16), CHR ''>''])"

definition show_file :: "u32 \<Rightarrow> u8 list option \<Rightarrow> string cresult" where
  "show_file n out =
     (if n = 0 then Value ''''
      else case out of
             None \<Rightarrow> Undefined
           | Some b \<Rightarrow> if length b < unat n then Undefined else Value (concat (map show_byte (take (unat n) b))))"

record exit_state =
  exit_code :: int
  stdout :: string
  stderr :: string

definition fail :: "int \<Rightarrow> string \<Rightarrow> exit_state cresult option" where
  "fail code msg = Some (Value \<lparr>exit_code = code, stdout = '''', stderr = msg @ [CHR 0x0A]\<rparr>)"

text \<open>The part of \<open>main\<close> after the image is open; \<open>name\<close> is the memory at \<open>argv[2]\<close>, \<open>fname\<close> its text.\<close>

definition print_file :: "u8 list \<Rightarrow> string \<Rightarrow> fat_state \<Rightarrow> exit_state cresult option" where
  "print_file name fname s0 =
     (case readBootSector s0 of Undefined \<Rightarrow> Some Undefined | Value (ok, s1) \<Rightarrow>
      if \<not> ok then fail (-2) ''Could not read boot sector!''
      else case readFat s1 of Undefined \<Rightarrow> Some Undefined | Value (ok, s2) \<Rightarrow>
      if \<not> ok then fail (-3) ''Could not read FAT!''
      else case readRootDirectory s2 of Undefined \<Rightarrow> Some Undefined | Value (ok, s3) \<Rightarrow>
      if \<not> ok then fail (-4) ''Could not read FAT!''
      else case findFile name s3 of Undefined \<Rightarrow> Some Undefined
      | Value None \<Rightarrow> fail (-5) (''Could not find file '' @ fname @ ''!'')
      | Value (Some e) \<Rightarrow>
          let n = FileSize e + ucast (BytesPerSector (g_BootSector s3))
          in case readFile e (malloc (unat n) s3) s3 of
               None \<Rightarrow> None
             | Some Undefined \<Rightarrow> Some Undefined
             | Some (Value (ok, out, s4)) \<Rightarrow>
                 if \<not> ok then fail (-5) (''Could not read file '' @ fname @ ''!'')
                 else Some (cbind (show_file (FileSize e) out)
                        (\<lambda>t. Value \<lparr>exit_code = 0, stdout = t @ [CHR 0x0A], stderr = ''''\<rparr>)))"

text \<open>The globals start as zero bytes and null pointers. \<open>fopen\<close> looks the name up in \<open>files\<close>; \<open>after\<close> is
  the memory behind the terminator of \<open>argv[2]\<close>.\<close>

definition start_state :: "(nat \<Rightarrow> (nat \<Rightarrow> u8) option) \<Rightarrow> u8 list \<Rightarrow> fat_state" where
  "start_state fr img =
     \<lparr>boot_bytes = replicate sizeof_BootSector 0, g_Fat = None, g_RootDirectory = None, g_RootDirectoryEnd = 0,
      disk_image = img, image_pos = 0, fresh = fr\<rparr>"

definition c_bytes :: "string \<Rightarrow> u8 list" where
  "c_bytes t = map (\<lambda>c. of_nat (of_char c)) t @ [0]"

definition fat_main ::
  "(string \<rightharpoonup> u8 list) \<Rightarrow> (nat \<Rightarrow> (nat \<Rightarrow> u8) option) \<Rightarrow> u8 list \<Rightarrow> string list \<Rightarrow> exit_state cresult option" where
  "fat_main files fr after argv =
     (if argv = [] then Some Undefined
      else if length argv < 3 then
        Some (Value \<lparr>exit_code = -1, stdout = ''Syntax: '' @ argv ! 0 @ '' <disk image> <file name>'' @ [CHR 0x0A], stderr = ''''\<rparr>)
      else case files (argv ! 1) of
             None \<Rightarrow> fail (-1) (''Cannot open disk image '' @ argv ! 1 @ ''!'')
           | Some img \<Rightarrow> print_file (c_bytes (argv ! 2) @ after) (argv ! 2) (start_state fr img))"

section \<open>Lemmas\<close>

lemma length_patch [simp]: "off + length xs \<le> length b \<Longrightarrow> length (patch b off xs) = length b"
  by (simp add: patch_def)

lemma patch_patch:
  "off + length xs + length ys \<le> length b \<Longrightarrow> patch (patch b off xs) (off + length xs) ys = patch b off (xs @ ys)"
  by (simp add: patch_def add.assoc add.commute add.left_commute)

lemma patch_0: "patch b 0 xs = xs @ drop (length xs) b"
  by (simp add: patch_def)

lemma length_sub_bytes [simp]: "length (sub_bytes i n b) = min n (length b - i)"
  by (simp add: sub_bytes_def)

lemma cbind_Value: "cbind m f = Value y \<Longrightarrow> (\<And>x. m = Value x \<Longrightarrow> f x = Value y \<Longrightarrow> P) \<Longrightarrow> P"
  by (cases m) auto

lemma fread_Value_bound:
  assumes "fread b off k n s = Value (r, b', s')" and "r \<noteq> 0"
  obtains bs bs' where "b = Some bs" "b' = Some bs'" "length bs' = length bs" "off + r * k \<le> length bs"
proof -
  let ?got = "take (k * n) (drop (image_pos s) (disk_image s))"
  have g: "?got \<noteq> []" using assms by (auto simp: fread_def Let_def split: if_splits)
  then obtain bs where bs: "b = Some bs" "off + length ?got \<le> length bs"
      "r = length ?got div k" "b' = Some (patch bs off ?got)"
    using assms(1) unfolding fread_def Let_def by (auto split: option.splits if_splits)
  have "r * k \<le> length ?got" unfolding bs(3) by (rule div_times_less_eq_dividend)
  then have "off + r * k \<le> length bs" using bs(2) by linarith
  then show ?thesis using that [OF bs(1,4)] length_patch [OF bs(2)] by blast
qed

lemma fread_in_image:
  assumes "0 < k * n" and "image_pos s + k * n \<le> length (disk_image s)"
  shows "fread (Some bs) off k n s =
     (if off + k * n \<le> length bs
      then Value (n, Some (patch bs off (sub_bytes (image_pos s) (k * n) (disk_image s))), s\<lparr>image_pos := image_pos s + k * n\<rparr>)
      else Undefined)"
proof -
  let ?got = "take (k * n) (drop (image_pos s) (disk_image s))"
  have l: "length ?got = k * n" using assms(2) by simp
  then have "?got \<noteq> []" using assms(1) by (metis length_0_conv less_irrefl)
  then show ?thesis using assms(1) unfolding fread_def Let_def sub_bytes_def l by (simp add: l)
qed

lemma g_BootSector_update [simp]: "g_BootSector (s\<lparr>image_pos := p\<rparr>) = g_BootSector s"
  by (simp add: g_BootSector_def)

lemma fread_keeps:
  "fread b off k n s = Value (r, b', s') \<Longrightarrow> \<exists>p. s' = s\<lparr>image_pos := p\<rparr>"
  by (auto simp: fread_def Let_def split: if_splits option.splits intro: exI [of _ "image_pos s"])

lemma readSectors_keeps:
  assumes "readSectors l c b off s = Value (ok, b', s')"
  shows "\<exists>p. s' = s\<lparr>image_pos := p\<rparr>"
proof (cases "fread b off (unat (BytesPerSector (g_BootSector s))) (unat c)
    (s\<lparr>image_pos := unat (l * ucast (BytesPerSector (g_BootSector s)))\<rparr>)")
  case (Value x)
  then obtain n where "fread b off (unat (BytesPerSector (g_BootSector s))) (unat c)
    (s\<lparr>image_pos := unat (l * ucast (BytesPerSector (g_BootSector s)))\<rparr>) = Value (n, b', s')"
    using assms by (auto simp: readSectors_def Let_def split: prod.splits)
  from fread_keeps [OF this] show ?thesis by auto
next
  case Undefined
  then show ?thesis using assms by (simp add: readSectors_def Let_def)
qed

section \<open>The cluster chain\<close>

text \<open>A table of twelve-bit entries packed two in three bytes.\<close>

fun fat12_encode :: "nat list \<Rightarrow> u8 list" where
  "fat12_encode (a # b # xs) = [of_nat a, of_nat (a div 256 + 16 * (b mod 16)), of_nat (b div 16)] @ fat12_encode xs"
| "fat12_encode [a] = [of_nat a, of_nat (a div 256)]"
| "fat12_encode [] = []"

lemma unat_le16: "unat (le16 b i) = unat (b ! i) + 256 * unat (b ! (i + 1))"
proof -
  have "unat (b ! i) < 256" "unat (b ! (i + 1)) < 256" using unat_lt2p [of "b ! i"] unat_lt2p [of "b ! (i + 1)"] by simp_all
  then show ?thesis unfolding le16_def unat_of_nat by simp
qed

lemma fat12_encode_read:
  "list_all (\<lambda>x. x < 4096) xs \<Longrightarrow> c < length xs \<Longrightarrow>
     c * 3 div 2 + 2 \<le> length (fat12_encode xs) \<and>
     unat (fat12_encode xs ! (c * 3 div 2)) + 256 * unat (fat12_encode xs ! (c * 3 div 2 + 1)) =
       (if even c then xs ! c + 4096 * (if Suc c < length xs then xs ! Suc c mod 16 else 0)
        else 16 * (xs ! c) + (xs ! (c - 1)) div 256)"
proof (induction xs arbitrary: c rule: fat12_encode.induct)
  case (1 a b xs)
  have ab: "a < 4096" "b < 4096" using 1 by auto
  have "a div 256 < 16" "b mod 16 < 16" "b div 16 < 256" using ab by (simp_all add: less_mult_imp_div_less)
  then have low: "unat (of_nat a :: u8) = a mod 256" "unat (of_nat (b div 16) :: u8) = b div 16"
      "unat (of_nat (a div 256 + 16 * (b mod 16)) :: u8) = a div 256 + 16 * (b mod 16)"
    unfolding unat_of_nat by simp_all
  consider "c = 0" | "c = 1" | d where "c = Suc (Suc d)" by (metis One_nat_def nat.exhaust)
  then show ?case
  proof cases
    case 1
    then show ?thesis using ab by (simp add: low del: of_nat_add of_nat_mult)
  next
    case 2
    have "16 * (b mod 16) + 256 * (b div 16) = 16 * b" using mult_div_mod_eq [of 16 b] by linarith
    with 2 show ?thesis using ab by (simp add: low del: of_nat_add of_nat_mult)
  next
    case (3 d)
    have "c * 3 div 2 = Suc (Suc (Suc (d * 3 div 2)))" by (simp add: 3)
    then show ?thesis using "1.IH" [of d] "1.prems" by (auto simp: 3 nth_Cons split: nat.splits)
  qed
next
  case (2 a)
  then have "unat (of_nat a :: u8) = a mod 256" "unat (of_nat (a div 256) :: u8) = a div 256" by (simp_all add: unat_of_nat)
  then show ?case using 2 by simp
qed simp

text \<open>Theorem: reading the packed table back gives the entries it was made from.\<close>

theorem next_cluster_roundtrip:
  assumes "list_all (\<lambda>x. x < 4096) xs" and "unat c < length xs"
  shows "next_cluster (fat12_encode xs) c = Value (of_nat (xs ! unat c))"
proof -
  let ?v = "le16 (fat12_encode xs) (unat c * 3 div 2)"
  note r = fat12_encode_read [OF assms]
  have x: "xs ! unat c < 4096" using assms by (simp add: list_all_length)
  have nx: "(if Suc (unat c) < length xs then xs ! Suc (unat c) mod 16 else 0) < 16" by simp
  note v = unat_le16 [of "fat12_encode xs" "unat c * 3 div 2"]
  have "(if even (unat c) then ?v AND 0x0FFF else drop_bit 4 ?v) = of_nat (xs ! unat c)"
  proof (cases "even (unat c)")
    case True
    then have "unat ?v mod 4096 = xs ! unat c" using v r x by simp
    moreover have "?v AND 0x0FFF = take_bit 12 ?v" by (simp add: take_bit_eq_mask mask_eq_exp_minus_1)
    ultimately show ?thesis using True x by (simp add: word_unat_eq_iff take_bit_eq_mod unat_mod unat_of_nat)
  next
    case False
    have "(xs ! (unat c - 1)) div 256 < 16" using assms by (simp add: list_all_length less_mult_imp_div_less)
    then have "unat ?v div 16 = xs ! unat c" using False v r x by simp
    then show ?thesis using False x by (simp add: word_unat_eq_iff drop_bit_eq_div unat_div unat_of_nat)
  qed
  then show ?thesis using r by (simp add: next_cluster_def Let_def)
qed

text \<open>The clusters of a file as the table links them; the last one points to an end mark.\<close>

fun chain :: "u8 list \<Rightarrow> u16 list \<Rightarrow> bool" where
  "chain fat [] = False"
| "chain fat [c] = (case next_cluster fat c of Value d \<Rightarrow> 0x0FF8 \<le> d | Undefined \<Rightarrow> False)"
| "chain fat (c # d # cs) = (next_cluster fat c = Value d \<and> d < 0x0FF8 \<and> chain fat (d # cs))"

definition cluster_pos :: "fat_state \<Rightarrow> u16 \<Rightarrow> nat" where
  "cluster_pos s c = unat (cluster_lba s c * ucast (BytesPerSector (g_BootSector s)))"

definition cluster_data :: "fat_state \<Rightarrow> u16 \<Rightarrow> u8 list" where
  "cluster_data s c = sub_bytes (cluster_pos s c) (cluster_bytes s) (disk_image s)"

definition in_image :: "fat_state \<Rightarrow> u16 \<Rightarrow> bool" where
  "in_image s c \<longleftrightarrow> cluster_pos s c + cluster_bytes s \<le> length (disk_image s)"

lemma cluster_update [simp]:
  "cluster_lba (s\<lparr>image_pos := p\<rparr>) c = cluster_lba s c" "cluster_bytes (s\<lparr>image_pos := p\<rparr>) = cluster_bytes s"
  "cluster_data (s\<lparr>image_pos := p\<rparr>) = cluster_data s" "in_image (s\<lparr>image_pos := p\<rparr>) = in_image s"
  by (simp_all add: fun_eq_iff cluster_lba_def cluster_bytes_def cluster_data_def cluster_pos_def in_image_def)

lemma length_cluster_data [simp]: "in_image s c \<Longrightarrow> length (cluster_data s c) = cluster_bytes s"
  by (simp add: in_image_def cluster_data_def)

lemma length_clusters: "list_all (in_image s) cs \<Longrightarrow> length (concat (map (cluster_data s) cs)) = cluster_bytes s * length cs"
  by (induction cs) auto

lemma readFile_body_in_image:
  assumes "in_image s c" and "0 < cluster_bytes s" and "g_Fat s = Some fat" and "next_cluster fat c = Value d"
  shows "readFile_body c (Some b) off s =
     (if off + cluster_bytes s \<le> length b
      then Value (True, d, Some (patch b off (cluster_data s c)), s\<lparr>image_pos := cluster_pos s c + cluster_bytes s\<rparr>)
      else Undefined)"
proof -
  let ?k = "unat (BytesPerSector (g_BootSector s))" and ?n = "unat (SectorsPerCluster (g_BootSector s))"
  have "unat (ucast (SectorsPerCluster (g_BootSector s)) :: u32) = ?n"
    by (simp add: unsigned_ucast_eq take_bit_nat_eq_self unat_lt2p [THEN less_le_trans])
  moreover have "fread (Some b) off ?k ?n (s\<lparr>image_pos := cluster_pos s c\<rparr>) =
     (if off + cluster_bytes s \<le> length b
      then Value (?n, Some (patch b off (cluster_data s c)), s\<lparr>image_pos := cluster_pos s c + cluster_bytes s\<rparr>)
      else Undefined)"
    using fread_in_image [of ?k ?n "s\<lparr>image_pos := cluster_pos s c\<rparr>" b off] assms(1,2)
    by (simp add: cluster_data_def in_image_def cluster_bytes_def mult.commute)
  ultimately show ?thesis
    using assms(3,4) by (simp add: readFile_body_def readSectors_def cluster_pos_def Let_def)
qed

lemma readFile_loop_chain:
  "chain fat (c # cs) \<Longrightarrow> list_all (in_image s) (c # cs) \<Longrightarrow> 0 < cluster_bytes s \<Longrightarrow> g_Fat s = Some fat \<Longrightarrow> off \<le> length b \<Longrightarrow>
   \<exists>p. readFile_loop c (Some b) off s = Some
     (if off + cluster_bytes s * length (c # cs) \<le> length b
      then Value (True, Some (patch b off (concat (map (cluster_data s) (c # cs)))), s\<lparr>image_pos := p\<rparr>)
      else Undefined)"
proof (induction cs arbitrary: c b off s)
  case Nil
  then obtain d where d: "next_cluster fat c = Value d" "\<not> d < 0x0FF8" by (auto split: cresult.splits simp: not_less)
  note body = readFile_body_in_image [OF _ Nil(3,4) d(1), of b off]
  show ?case
    using Nil d(2) by (intro exI [of _ "cluster_pos s c + cluster_bytes s"]) (subst readFile_loop.simps, simp add: body)
next
  case (Cons d cs)
  then have d: "next_cluster fat c = Value d" "d < 0x0FF8" "chain fat (d # cs)" by auto
  have ic: "in_image s c" using Cons.prems(2) by simp
  note body = readFile_body_in_image [OF ic Cons.prems(3,4) d(1), of b off]
  show ?case
  proof (cases "off + cluster_bytes s \<le> length b")
    case False
    then show ?thesis by (intro exI [of _ 0]) (subst readFile_loop.simps, simp add: body)
  next
    case True
    let ?b = "patch b off (cluster_data s c)" and ?s = "s\<lparr>image_pos := cluster_pos s c + cluster_bytes s\<rparr>"
    have lb: "length ?b = length b" using True ic by simp
    have step: "readFile_loop c (Some b) off s = readFile_loop d (Some ?b) (off + cluster_bytes s) ?s"
      by (subst readFile_loop.simps) (simp add: body True d(2))
    have img: "list_all (in_image ?s) (d # cs)" using Cons.prems(2) by simp
    obtain p where p: "readFile_loop d (Some ?b) (off + cluster_bytes s) ?s = Some
       (if off + cluster_bytes s + cluster_bytes ?s * length (d # cs) \<le> length ?b
        then Value (True, Some (patch ?b (off + cluster_bytes s) (concat (map (cluster_data ?s) (d # cs)))), ?s\<lparr>image_pos := p\<rparr>)
        else Undefined)"
      using Cons.IH [OF d(3) img, of "off + cluster_bytes s" ?b] Cons.prems(3,4) True lb by auto
    have len: "length (concat (map (cluster_data s) (d # cs))) = cluster_bytes s * length (d # cs)"
      using Cons.prems(2) by (intro length_clusters) simp
    have "patch ?b (off + cluster_bytes s) (concat (map (cluster_data s) (d # cs))) =
        patch b off (concat (map (cluster_data s) (c # d # cs)))"
      if "off + cluster_bytes s + cluster_bytes s * length (d # cs) \<le> length b"
      using patch_patch [of off "cluster_data s c" "concat (map (cluster_data s) (d # cs))" b] that len ic by simp
    with p lb show ?thesis unfolding step by (intro exI [of _ p]) (simp add: algebra_simps)
  qed
qed

text \<open>Theorem: on a file whose clusters lie in the image, \<open>readFile\<close> returns true with the contents of
  the clusters in chain order if they fit into the buffer, and otherwise writes behind its end.\<close>

theorem readFile_result:
  assumes "chain fat cs" and "hd cs = FirstClusterLow e" and "g_Fat s = Some fat"
    and "list_all (in_image s) cs" and "0 < cluster_bytes s"
  shows "\<exists>p. readFile e (Some b) s = Some
     (if cluster_bytes s * length cs \<le> length b
      then Value (True, Some (concat (map (cluster_data s) cs) @ drop (cluster_bytes s * length cs) b), s\<lparr>image_pos := p\<rparr>)
      else Undefined)"
proof -
  obtain ds where cs: "cs = FirstClusterLow e # ds" using assms(1,2) by (cases cs) auto
  have "patch b 0 (concat (map (cluster_data s) cs)) = concat (map (cluster_data s) cs) @ drop (cluster_bytes s * length cs) b"
    using length_clusters [OF assms(4)] by (simp add: patch_0)
  moreover obtain p where "readFile_loop (FirstClusterLow e) (Some b) 0 s = Some
     (if 0 + cluster_bytes s * length cs \<le> length b
      then Value (True, Some (patch b 0 (concat (map (cluster_data s) cs))), s\<lparr>image_pos := p\<rparr>)
      else Undefined)"
    using readFile_loop_chain [of fat "FirstClusterLow e" ds s 0 b] assms unfolding cs [symmetric] by blast
  ultimately have "readFile e (Some b) s = Some
     (if cluster_bytes s * length cs \<le> length b
      then Value (True, Some (concat (map (cluster_data s) cs) @ drop (cluster_bytes s * length cs) b), s\<lparr>image_pos := p\<rparr>)
      else Undefined)"
    unfolding readFile_def by simp
  then show ?thesis by blast
qed

section \<open>Termination\<close>

lemma readFile_body_progress:
  assumes "readFile_body c out off s = Value (True, c', out', s')" and "SectorsPerCluster (g_BootSector s) \<noteq> 0"
  obtains b b' p where "out = Some b" "out' = Some b'" "length b' = length b" "off + cluster_bytes s \<le> length b"
    "0 < cluster_bytes s" "s' = s\<lparr>image_pos := p\<rparr>"
proof -
  let ?bs = "g_BootSector s"
  let ?k = "unat (BytesPerSector ?bs)" and ?n = "unat (SectorsPerCluster ?bs)"
  let ?s = "s\<lparr>image_pos := unat (cluster_lba s c * ucast (BytesPerSector ?bs))\<rparr>"
  have n: "unat (ucast (SectorsPerCluster ?bs) :: u32) = ?n" "?n \<noteq> 0"
    using assms(2) by (simp_all add: unsigned_ucast_eq take_bit_nat_eq_self unat_lt2p [THEN less_le_trans] unat_eq_0)
  have f: "fread out off ?k ?n ?s = Value (?n, out', s')"
    using assms(1) by (auto simp: readFile_body_def readSectors_def Let_def n(1) split: option.splits cresult.splits
        elim!: cbind_Value)
  obtain b b' where b: "out = Some b" "out' = Some b'" "length b' = length b" "off + ?n * ?k \<le> length b"
    using fread_Value_bound [OF f n(2)] .
  obtain p where "s' = ?s\<lparr>image_pos := p\<rparr>" using fread_keeps [OF f] by blast
  moreover have "?k \<noteq> 0"
  proof
    assume "?k = 0"
    then have "fread out off ?k ?n ?s = Value (0, out, ?s)" by (simp add: fread_def)
    with f n(2) show False by simp
  qed
  ultimately show ?thesis using b n(2) that [of b b' p] by (simp add: cluster_bytes_def)
qed

text \<open>Theorem: whatever the image holds, \<open>readFile\<close> comes to an end unless a cluster has no sectors.\<close>

theorem readFile_terminates:
  assumes "SectorsPerCluster (g_BootSector s) \<noteq> 0"
  shows "\<exists>r. readFile e out s = Some r"
proof -
  have "\<exists>r. readFile_loop c out off s = Some r"
    if "SectorsPerCluster (g_BootSector s) \<noteq> 0" for c out off s
    using that
  proof (induction "length (the out) - off" arbitrary: c out off s rule: less_induct)
    case less
    show ?case
    proof (cases "\<exists>c' out' s'. readFile_body c out off s = Value (True, c', out', s') \<and> c' < 0x0FF8")
      case False
      then show ?thesis by (subst readFile_loop.simps) (auto split: cresult.splits)
    next
      case True
      then obtain c' out' s' where st: "readFile_body c out off s = Value (True, c', out', s')" "c' < 0x0FF8" by blast
      obtain b b' p where b: "out = Some b" "out' = Some b'" "length b' = length b" "off + cluster_bytes s \<le> length b"
          "0 < cluster_bytes s" "s' = s\<lparr>image_pos := p\<rparr>"
        using readFile_body_progress [OF st(1) less.prems] .
      have "\<exists>r. readFile_loop c' out' (off + cluster_bytes s) s' = Some r"
        using less.hyps [of out' "off + cluster_bytes s" s' c'] less.prems b by simp
      then show ?thesis using st by (subst readFile_loop.simps) simp
    qed
  qed
  with assms show ?thesis by (simp add: readFile_def)
qed

section \<open>A whole run\<close>

text \<open>The parts of an image as its boot sector lays them out, and the globals once they have been read.\<close>

definition vol_boot :: "u8 list \<Rightarrow> BootSector" where
  "vol_boot img = as_BootSector (sub_bytes 0 sizeof_BootSector img)"

definition vol_bps :: "u8 list \<Rightarrow> nat" where
  "vol_bps img = unat (BytesPerSector (vol_boot img))"

definition vol_fat :: "u8 list \<Rightarrow> u8 list" where
  "vol_fat img = sub_bytes (unat (ReservedSectors (vol_boot img)) * vol_bps img) (unat (SectorsPerFat (vol_boot img)) * vol_bps img) img"

definition vol_dir :: "u8 list \<Rightarrow> u8 list" where
  "vol_dir img = sub_bytes (unat (rootdir_lba (vol_boot img)) * vol_bps img) (unat (rootdir_sectors (vol_boot img)) * vol_bps img) img"

definition vol_entries :: "u8 list \<Rightarrow> DirectoryEntry list" where
  "vol_entries img = map (dir_entry (vol_dir img)) [0..<unat (DirEntryCount (vol_boot img))]"

definition volume_ok :: "u8 list \<Rightarrow> bool" where
  "volume_ok img \<longleftrightarrow> sizeof_BootSector \<le> length img \<and> length img < 2 ^ 32 \<and> 0 < vol_bps img \<and>
     unat (SectorsPerFat (vol_boot img)) * vol_bps img < 2 ^ 31 \<and>
     (unat (ReservedSectors (vol_boot img)) + unat (SectorsPerFat (vol_boot img))) * vol_bps img \<le> length img \<and>
     (unat (rootdir_lba (vol_boot img)) + unat (rootdir_sectors (vol_boot img))) * vol_bps img \<le> length img"

definition vol_state :: "(nat \<Rightarrow> nat \<Rightarrow> u8) \<Rightarrow> u8 list \<Rightarrow> fat_state" where
  "vol_state fr img =
     \<lparr>boot_bytes = sub_bytes 0 sizeof_BootSector img, g_Fat = Some (vol_fat img), g_RootDirectory = Some (vol_dir img),
      g_RootDirectoryEnd = rootdir_lba (vol_boot img) + rootdir_sectors (vol_boot img),
      disk_image = img, image_pos = 0, fresh = (\<lambda>n. Some (fr n))\<rparr>"

lemma findFile_loop_find: "findFile_loop name dir i n = find (\<lambda>e. take 11 name = FileName e) (map (dir_entry dir) [i..<i + n])"
proof (induction n arbitrary: i)
  case (Suc n)
  have "[i..<i + Suc n] = i # [Suc i..<Suc i + n]" by (simp add: upt_conv_Cons)
  then show ?case using Suc.IH [of "Suc i"] by simp
qed simp

lemma readSectors_block:
  assumes "0 < unat (BytesPerSector (g_BootSector s))" and "length (disk_image s) < 2 ^ 32"
    and "(unat l + unat c) * unat (BytesPerSector (g_BootSector s)) \<le> length (disk_image s)"
    and "length b = unat c * unat (BytesPerSector (g_BootSector s))"
  shows "\<exists>p. readSectors l c (Some b) 0 s = Value (True, Some (sub_bytes (unat l * unat (BytesPerSector (g_BootSector s)))
     (unat c * unat (BytesPerSector (g_BootSector s))) (disk_image s)), s\<lparr>image_pos := p\<rparr>)"
proof -
  let ?w = "BytesPerSector (g_BootSector s)"
  let ?k = "unat ?w"
  have "unat (ucast ?w :: u32) = ?k" by (simp add: unsigned_ucast_eq take_bit_nat_eq_self unat_lt2p [THEN less_le_trans])
  moreover have "unat l * ?k < 2 ^ 32" using assms(2,3) by (simp add: algebra_simps)
  ultimately have pos: "unat (l * ucast ?w) = unat l * ?k" by (simp add: unat_word_ariths)
  show ?thesis
  proof (cases "c = 0")
    case True
    then show ?thesis using assms(4) by (intro exI [of _ "unat l * ?k"]) (simp add: readSectors_def Let_def pos fread_def sub_bytes_def)
  next
    case False
    then have "0 < ?k * unat c" using assms(1) by (simp add: unat_gt_0)
    then show ?thesis
      using fread_in_image [of ?k "unat c" "s\<lparr>image_pos := unat l * ?k\<rparr>" b 0] assms(3,4)
      by (intro exI [of _ "unat l * ?k + ?k * unat c"])
        (simp add: readSectors_def Let_def pos patch_0 algebra_simps)
  qed
qed

lemma ceil_div_cover:
  assumes "unat x < 2 ^ 22" and "0 < unat b"
  shows "unat x \<le> unat (x div b + (if 0 < x mod b then 1 else 0) :: u32) * unat b"
proof (cases "x mod b = 0")
  case True
  then have "unat x mod unat b = 0" by (metis unat_mod unat_0)
  then show ?thesis using True div_mult_mod_eq [of "unat x" "unat b"] by (simp add: unat_div)
next
  case False
  have "unat x div unat b < 2 ^ 22" by (rule le_less_trans [OF div_le_dividend assms(1)])
  then have "unat (x div b + 1) = Suc (unat x div unat b)" by (simp add: unat_word_ariths unat_div)
  moreover have "unat x \<le> Suc (unat x div unat b) * unat b"
    using dividend_less_div_times [OF assms(2), of "unat x"] by simp
  ultimately show ?thesis using False by (simp add: word_greater_zero_iff)
qed

lemma rootdir_sectors_cover:
  assumes "BytesPerSector bs \<noteq> 0"
  shows "unat (DirEntryCount bs) * sizeof_DirectoryEntry \<le> unat (rootdir_sectors bs) * unat (BytesPerSector bs)"
proof -
  let ?size = "of_nat sizeof_DirectoryEntry * ucast (DirEntryCount bs) :: u32" and ?b = "ucast (BytesPerSector bs) :: u32"
  have n: "unat (ucast (DirEntryCount bs) :: u32) = unat (DirEntryCount bs)" and k: "unat ?b = unat (BytesPerSector bs)"
    by (simp_all add: unsigned_ucast_eq take_bit_nat_eq_self unat_lt2p [THEN less_le_trans])
  have le: "unat (DirEntryCount bs) < 65536" using unat_lt2p [of "DirEntryCount bs"] by simp
  have size: "unat ?size = unat (DirEntryCount bs) * sizeof_DirectoryEntry"
    using le by (simp add: unat_word_ariths n sizeof_DirectoryEntry_def)
  have "unat ?size < 2 ^ 22" using le unfolding size by (simp add: sizeof_DirectoryEntry_def)
  from ceil_div_cover [OF this, of ?b] show ?thesis
    using assms k size by (simp add: rootdir_sectors_def Let_def unat_gt_0)
qed

lemma vol_readBootSector:
  assumes "volume_ok img"
  shows "\<exists>p. readBootSector (start_state fr img) =
     Value (True, (start_state fr img)\<lparr>boot_bytes := sub_bytes 0 sizeof_BootSector img, image_pos := p\<rparr>)"
proof -
  have "fread (Some (boot_bytes (start_state fr img))) 0 sizeof_BootSector 1 (start_state fr img) =
      Value (1, Some (sub_bytes 0 sizeof_BootSector img), (start_state fr img)\<lparr>image_pos := sizeof_BootSector\<rparr>)"
    using fread_in_image [of sizeof_BootSector 1 "start_state fr img" "replicate sizeof_BootSector 0" 0] assms
    by (simp add: volume_ok_def start_state_def patch_0 sizeof_BootSector_def)
  then show ?thesis by (intro exI [of _ sizeof_BootSector]) (simp add: readBootSector_def start_state_def)
qed

lemma vol_readFat:
  assumes "volume_ok img" and "boot_bytes s = sub_bytes 0 sizeof_BootSector img" and "disk_image s = img" and "fresh s = (\<lambda>n. Some (fr n))"
  shows "\<exists>p. readFat s = Value (True, s\<lparr>g_Fat := Some (vol_fat img), image_pos := p\<rparr>)"
proof -
  let ?bs = "vol_boot img"
  have bs: "g_BootSector s = ?bs" using assms(2) by (simp add: g_BootSector_def vol_boot_def)
  have u: "unat (ucast (ReservedSectors ?bs) :: u32) = unat (ReservedSectors ?bs)" "unat (ucast (SectorsPerFat ?bs) :: u32) = unat (SectorsPerFat ?bs)"
    by (simp_all add: unsigned_ucast_eq take_bit_nat_eq_self unat_lt2p [THEN less_le_trans])
  let ?n = "unat (SectorsPerFat ?bs) * unat (BytesPerSector ?bs)"
  obtain p where "readSectors (ucast (ReservedSectors ?bs)) (ucast (SectorsPerFat ?bs)) (Some (map (fr ?n) [0..<?n])) 0 s =
      Value (True, Some (vol_fat img), s\<lparr>image_pos := p\<rparr>)"
    using readSectors_block [of s "ucast (ReservedSectors ?bs)" "ucast (SectorsPerFat ?bs)" "map (fr ?n) [0..<?n]"] assms(1,3)
    unfolding bs u by (auto simp: volume_ok_def vol_bps_def vol_fat_def)
  then show ?thesis using assms(1,4) unfolding readFat_def Let_def bs
    by (intro exI [of _ p]) (simp add: malloc_def volume_ok_def vol_bps_def)
qed

lemma vol_readRootDirectory:
  assumes "volume_ok img" and "boot_bytes s = sub_bytes 0 sizeof_BootSector img" and "disk_image s = img" and "fresh s = (\<lambda>n. Some (fr n))"
  shows "\<exists>p. readRootDirectory s = Value (True, s\<lparr>g_RootDirectory := Some (vol_dir img),
     g_RootDirectoryEnd := rootdir_lba (vol_boot img) + rootdir_sectors (vol_boot img), image_pos := p\<rparr>)"
proof -
  let ?bs = "vol_boot img"
  let ?l = "rootdir_lba ?bs" and ?c = "rootdir_sectors ?bs" and ?w = "BytesPerSector ?bs"
  have bs: "g_BootSector s = ?bs" using assms(2) by (simp add: g_BootSector_def vol_boot_def)
  let ?s = "s\<lparr>g_RootDirectoryEnd := ?l + ?c\<rparr>"
  have bs': "g_BootSector ?s = ?bs" using assms(2) by (simp add: g_BootSector_def vol_boot_def)
  let ?n = "unat ?c * unat ?w"
  have w: "?w \<noteq> 0" using assms(1) by (simp add: volume_ok_def vol_bps_def unat_gt_0)
  have "?n < 2 ^ 32" using assms(1) by (simp add: volume_ok_def vol_bps_def algebra_simps)
  moreover have "unat (ucast ?w :: u32) = unat ?w"
    by (simp add: unsigned_ucast_eq take_bit_nat_eq_self unat_lt2p [THEN less_le_trans])
  ultimately have n: "unat (?c * ucast ?w) = ?n" by (simp add: unat_word_ariths)
  obtain p where "readSectors ?l ?c (Some (map (fr ?n) [0..<?n])) 0 ?s = Value (True, Some (vol_dir img), ?s\<lparr>image_pos := p\<rparr>)"
    using readSectors_block [of ?s ?l ?c "map (fr ?n) [0..<?n]"] assms(1,3)
    unfolding bs' by (auto simp: volume_ok_def vol_bps_def vol_dir_def)
  then show ?thesis using assms(4) w unfolding readRootDirectory_def Let_def bs n
    by (intro exI [of _ p]) (simp add: malloc_def)
qed

lemma vol_findFile:
  assumes "volume_ok img" and "boot_bytes s = sub_bytes 0 sizeof_BootSector img" and "g_RootDirectory s = Some (vol_dir img)"
    and "11 \<le> length name"
  shows "findFile name s = Value (find (\<lambda>e. take 11 name = FileName e) (vol_entries img))"
proof -
  let ?bs = "vol_boot img"
  have bs: "g_BootSector s = ?bs" using assms(2) by (simp add: g_BootSector_def vol_boot_def)
  have "BytesPerSector ?bs \<noteq> 0" using assms(1) by (simp add: volume_ok_def vol_bps_def unat_gt_0)
  moreover have "length (vol_dir img) = unat (rootdir_sectors ?bs) * unat (BytesPerSector ?bs)"
    using assms(1) by (auto simp: vol_dir_def volume_ok_def vol_bps_def add_mult_distrib)
  ultimately have "\<not> length (vol_dir img) < unat (DirEntryCount ?bs) * sizeof_DirectoryEntry"
    using rootdir_sectors_cover [of ?bs] by simp
  then show ?thesis
    using assms(3,4) by (simp add: findFile_def Let_def bs findFile_loop_find vol_entries_def)
qed

text \<open>Property C20: on a well-formed image the tool prints exactly the bytes of the file, in the order of its
  cluster chain, and exits with 0, provided the clusters fit into the file size plus one sector; if the
  last cluster has more than a sector to spare, the buffer is overrun.\<close>

theorem fat_main_prints:
  fixes fr :: "nat \<Rightarrow> nat \<Rightarrow> u8"
  assumes vol: "volume_ok img" "files path = Some img"
    and name: "11 \<le> length (c_bytes nm @ after)"
      "find (\<lambda>e. take 11 (c_bytes nm @ after) = FileName e) (vol_entries img) = Some e"
    and cs: "chain (vol_fat img) cs" "hd cs = FirstClusterLow e" "list_all (in_image (vol_state fr img)) cs"
    and size: "0 < cluster_bytes (vol_state fr img)" "unat (FileSize e) + vol_bps img < 2 ^ 32"
      "unat (FileSize e) \<le> cluster_bytes (vol_state fr img) * length cs"
  shows "fat_main files (\<lambda>n. Some (fr n)) after [prog, path, nm] = Some
     (if cluster_bytes (vol_state fr img) * length cs \<le> unat (FileSize e) + vol_bps img
      then Value \<lparr>exit_code = 0,
        stdout = concat (map show_byte (take (unat (FileSize e)) (concat (map (cluster_data (vol_state fr img)) cs)))) @ [CHR 0x0A],
        stderr = ''''\<rparr>
      else Undefined)"
proof -
  let ?V = "vol_state fr img" and ?name = "c_bytes nm @ after"
  let ?s0 = "start_state (\<lambda>n. Some (fr n)) img"
  obtain p1 where 1: "readBootSector ?s0 = Value (True, ?s0\<lparr>boot_bytes := sub_bytes 0 sizeof_BootSector img, image_pos := p1\<rparr>)"
    using vol_readBootSector [OF vol(1)] by blast
  let ?s1 = "?s0\<lparr>boot_bytes := sub_bytes 0 sizeof_BootSector img, image_pos := p1\<rparr>"
  obtain p2 where 2: "readFat ?s1 = Value (True, ?s1\<lparr>g_Fat := Some (vol_fat img), image_pos := p2\<rparr>)"
    using vol_readFat [OF vol(1), of ?s1 fr] by (auto simp: start_state_def)
  let ?s2 = "?s1\<lparr>g_Fat := Some (vol_fat img), image_pos := p2\<rparr>"
  obtain p3 where 3: "readRootDirectory ?s2 = Value (True, ?V\<lparr>image_pos := p3\<rparr>)"
    using vol_readRootDirectory [OF vol(1), of ?s2 fr] by (auto simp: start_state_def vol_state_def)
  let ?s3 = "?V\<lparr>image_pos := p3\<rparr>"
  have bs: "g_BootSector ?V = vol_boot img" by (simp add: g_BootSector_def vol_boot_def vol_state_def)
  have 4: "findFile ?name ?s3 = Value (Some e)"
    using vol_findFile [OF vol(1) _ _ name(1), of ?s3] name(2) by (simp add: vol_state_def)
  have n: "unat (FileSize e + ucast (BytesPerSector (vol_boot img))) = unat (FileSize e) + vol_bps img"
    using size(2) by (simp add: unat_word_ariths unsigned_ucast_eq take_bit_nat_eq_self vol_bps_def unat_lt2p [THEN less_le_trans])
  let ?n = "unat (FileSize e) + vol_bps img"
  define b where "b = map (fr ?n) [0..<?n]"
  have m: "malloc ?n ?s3 = Some b" by (simp add: malloc_def vol_state_def b_def)
  have lb: "length b = ?n" by (simp add: b_def)
  have fat: "g_Fat ?s3 = Some (vol_fat img)" by (simp add: vol_state_def)
  obtain p where 5: "readFile e (Some b) ?s3 = Some
     (if cluster_bytes ?V * length cs \<le> ?n
      then Value (True, Some (concat (map (cluster_data ?V) cs) @ drop (cluster_bytes ?V * length cs) b), ?s3\<lparr>image_pos := p\<rparr>)
      else Undefined)"
    using readFile_result [OF cs(1,2) fat, of b] cs(3) size(1) unfolding lb cluster_update by blast
  let ?out = "concat (map (cluster_data ?V) cs) @ drop (cluster_bytes ?V * length cs) b"
  have "take (unat (FileSize e)) ?out = take (unat (FileSize e)) (concat (map (cluster_data ?V) cs))"
      "\<not> length ?out < unat (FileSize e)"
    using size(3) length_clusters [OF cs(3)] by simp_all
  then have "show_file (FileSize e) (Some ?out) =
      Value (concat (map show_byte (take (unat (FileSize e)) (concat (map (cluster_data ?V) cs)))))"
    by (auto simp: show_file_def simp del: take_append length_append)
  then have "print_file ?name nm ?s0 = Some
     (if cluster_bytes ?V * length cs \<le> ?n
      then Value \<lparr>exit_code = 0,
        stdout = concat (map show_byte (take (unat (FileSize e)) (concat (map (cluster_data ?V) cs)))) @ [CHR 0x0A],
        stderr = ''''\<rparr>
      else Undefined)"
    unfolding print_file_def 1 cresult.case prod.case 2 3 4 option.case Let_def g_BootSector_update bs n m 5 by simp
  then show ?thesis using vol(2) by (simp add: fat_main_def)
qed

text \<open>Theorem: with no sectors in a cluster a chain that returns to its cluster is followed for ever.\<close>

theorem readFile_diverges:
  assumes "SectorsPerCluster (g_BootSector s) = 0" and "g_Fat s = Some fat"
    and "next_cluster fat (FirstClusterLow e) = Value (FirstClusterLow e)" and "FirstClusterLow e < 0x0FF8"
  shows "readFile e out s = None"
proof -
  have body: "readFile_body (FirstClusterLow e) out off s = Value (True, FirstClusterLow e, out, s\<lparr>image_pos := p\<rparr>)"
    if "p = unat (cluster_lba s (FirstClusterLow e) * ucast (BytesPerSector (g_BootSector s)))"
      "SectorsPerCluster (g_BootSector s) = 0" "g_Fat s = Some fat" for s off p out
    using that assms(3) by (simp add: readFile_body_def readSectors_def fread_def Let_def)
  let ?stuck = "\<lambda>c s. c = FirstClusterLow e \<and> SectorsPerCluster (g_BootSector s) = 0 \<and> g_Fat s = Some fat"
  show ?thesis
  proof (rule ccontr)
    assume "readFile e out s \<noteq> None"
    then obtain r where ret: "readFile_loop (FirstClusterLow e) out 0 s = Some r" by (auto simp: readFile_def)
    have "\<not> ?stuck (FirstClusterLow e) s"
    proof (rule readFile_loop.raw_induct [where P = "\<lambda>c out off s r. \<not> ?stuck c s", OF _ ret], rule notI)
      fix loop c out off s r
      assume IH: "\<And>c out off s r. loop c out off s = Some r \<Longrightarrow> \<not> ?stuck c s"
        and run: "(case readFile_body c out off s of Undefined \<Rightarrow> Some Undefined
          | Value (ok, c', out', s') \<Rightarrow>
              if ok \<and> c' < 0x0FF8 then loop c' out' (off + cluster_bytes s) s' else Some (Value (ok, out', s'))) = Some r"
        and a: "?stuck c s"
      let ?p = "unat (cluster_lba s (FirstClusterLow e) * ucast (BytesPerSector (g_BootSector s)))"
      have "loop c out (off + cluster_bytes s) (s\<lparr>image_pos := ?p\<rparr>) = Some r"
        using run a assms(4) body [of ?p s out off] by auto
      from IH [OF this] a show False by simp
    qed
    with assms(1,2) show False by simp
  qed
qed

section \<open>Witnesses\<close>

text \<open>An image of six sectors of 64 bytes: boot sector, table, root directory and three clusters. The file
  \<open>ABCDEFGHIJK\<close> has 70 bytes in the clusters 4 and 2.\<close>

definition fat_test_boot :: "u8 list" where
  "fat_test_boot = replicate 11 0 @ [64, 0, 1, 1, 0, 1, 2, 0, 0, 0, 0, 1, 0] @ replicate 40 0"

definition fat_test_fat :: "u8 list" where
  "fat_test_fat = fat12_encode [0xFF8, 0xFFF, 0xFFF, 0, 2, 0] @ replicate 55 0"

definition fat_test_dir :: "u8 list" where
  "fat_test_dir = replicate 32 0 @ [0x41, 0x42, 0x43, 0x44, 0x45, 0x46, 0x47, 0x48, 0x49, 0x4A, 0x4B] @ replicate 15 0 @ [4, 0, 70, 0, 0, 0]"

definition fat_test :: "u8 list" where
  "fat_test = fat_test_boot @ fat_test_fat @ fat_test_dir @ (replicate 6 0x62 @ replicate 58 1) @ replicate 64 2 @ replicate 64 0x61"

definition fat_test_entry :: DirectoryEntry where
  "fat_test_entry = dir_entry (vol_dir fat_test) 1"

theorem next_cluster_roundtrip_witness:
  "list_all (\<lambda>x. x < 4096) [0xFF8, 0xFFF, 3 :: nat] \<and> next_cluster (fat12_encode [0xFF8, 0xFFF, 3]) 1 = Value 0xFFF"
  using next_cluster_roundtrip [of "[0xFF8, 0xFFF, 3]" 1] by simp

lemma fat_test_lengths [simp]: "length fat_test_boot = 64" "length fat_test_fat = 64" "length fat_test_dir = 64"
  by (simp_all add: fat_test_boot_def fat_test_fat_def fat_test_dir_def)

lemma fat_test_fields:
  "BytesPerSector (vol_boot fat_test) = 64" "SectorsPerCluster (vol_boot fat_test) = 1"
  "ReservedSectors (vol_boot fat_test) = 1" "FatCount (vol_boot fat_test) = 1" "DirEntryCount (vol_boot fat_test) = 2"
  "SectorsPerFat (vol_boot fat_test) = 1"
proof -
  have "sub_bytes 0 sizeof_BootSector fat_test = take 62 fat_test_boot"
    by (simp add: sub_bytes_def sizeof_BootSector_def fat_test_def)
  then show "BytesPerSector (vol_boot fat_test) = 64" "SectorsPerCluster (vol_boot fat_test) = 1"
    "ReservedSectors (vol_boot fat_test) = 1" "FatCount (vol_boot fat_test) = 1" "DirEntryCount (vol_boot fat_test) = 2"
    "SectorsPerFat (vol_boot fat_test) = 1"
    by (simp_all add: vol_boot_def as_BootSector_def le16_def fat_test_boot_def nth_append)
qed

lemma fat_test_parts: "rootdir_lba (vol_boot fat_test) = 2" "rootdir_sectors (vol_boot fat_test) = 1" "vol_bps fat_test = 64"
  "vol_fat fat_test = fat_test_fat" "vol_dir fat_test = fat_test_dir"
  by (simp_all add: rootdir_lba_def rootdir_sectors_def vol_bps_def vol_fat_def vol_dir_def fat_test_fields
      sizeof_DirectoryEntry_def sub_bytes_def) (simp_all add: fat_test_def)

lemma fat_test_volume: "volume_ok fat_test"
  by (simp add: volume_ok_def fat_test_parts fat_test_fields sizeof_BootSector_def) (simp add: fat_test_def)

lemma fat_test_entry: "FirstClusterLow fat_test_entry = 4" "FileSize fat_test_entry = 70"
  "FileName fat_test_entry = map of_nat [0x41..<0x4C]" "hd (FileName (dir_entry fat_test_dir 0)) = 0"
  by (simp_all add: fat_test_entry_def fat_test_parts dir_entry_def as_DirectoryEntry_def sizeof_DirectoryEntry_def
      sub_bytes_def fat_test_dir_def le16_def le32_def nth_append upt_rec)

lemma fat_test_chain: "chain (vol_fat fat_test) [4, 2]"
  by (simp add: fat_test_parts next_cluster_def Let_def) (simp add: fat_test_fat_def le16_def nth_append)

lemma fat_test_name: "find (\<lambda>e. take 11 (c_bytes ''ABCDEFGHIJK'' @ []) = FileName e) (vol_entries fat_test) = Some fat_test_entry"
proof -
  have "vol_entries fat_test = [dir_entry fat_test_dir 0, fat_test_entry]"
    by (simp add: vol_entries_def fat_test_fields fat_test_parts fat_test_entry_def upt_rec)
  moreover have "take 11 (c_bytes ''ABCDEFGHIJK'' @ []) \<noteq> FileName (dir_entry fat_test_dir 0)"
    using fat_test_entry(4) by (auto simp: c_bytes_def dest!: arg_cong [of _ _ hd])
  ultimately show ?thesis by (simp add: fat_test_entry c_bytes_def upt_rec)
qed

lemma fat_test_state: "cluster_bytes (vol_state fr fat_test) = 64" "in_image (vol_state fr fat_test) 4" "in_image (vol_state fr fat_test) 2"
  "cluster_data (vol_state fr fat_test) 4 = replicate 64 0x61" "cluster_data (vol_state fr fat_test) 2 = replicate 6 0x62 @ replicate 58 1"
proof -
  have bs: "g_BootSector (vol_state fr fat_test) = vol_boot fat_test" by (simp add: g_BootSector_def vol_boot_def vol_state_def)
  have c: "cluster_bytes (vol_state fr fat_test) = 64" by (simp add: cluster_bytes_def bs fat_test_fields)
  have p: "cluster_pos (vol_state fr fat_test) 4 = 320" "cluster_pos (vol_state fr fat_test) 2 = 192"
    by (simp_all add: cluster_pos_def cluster_lba_def bs fat_test_fields) (simp_all add: vol_state_def fat_test_parts)
  have i: "disk_image (vol_state fr fat_test) = fat_test" by (simp add: vol_state_def)
  show "cluster_bytes (vol_state fr fat_test) = 64" "in_image (vol_state fr fat_test) 4" "in_image (vol_state fr fat_test) 2"
    "cluster_data (vol_state fr fat_test) 4 = replicate 64 0x61" "cluster_data (vol_state fr fat_test) 2 = replicate 6 0x62 @ replicate 58 1"
    by (simp_all add: c p i in_image_def cluster_data_def sub_bytes_def) (simp_all add: fat_test_def)
qed

theorem fat_main_prints_witness:
  "fat_main (\<lambda>_. Some fat_test) (\<lambda>n. Some (\<lambda>_. 0xCC)) [] [''fat'', ''disk.img'', ''ABCDEFGHIJK''] =
     Some (Value \<lparr>exit_code = 0, stdout = replicate 64 CHR ''a'' @ replicate 6 CHR ''b'' @ [CHR 0x0A], stderr = ''''\<rparr>)"
proof -
  have "show_byte 0x61 = ''a''" "show_byte 0x62 = ''b''" by (simp_all add: show_byte_def char_of_def bit_Suc_0_iff)
  then have "concat (map show_byte (take 70 (replicate 64 0x61 @ replicate 6 0x62 @ replicate 58 1))) =
      replicate 64 CHR ''a'' @ replicate 6 CHR ''b''"
    by (simp add: map_replicate_const concat_replicate_trivial)
  then show ?thesis
    using fat_main_prints [of fat_test "\<lambda>_. Some fat_test" "''disk.img''" "''ABCDEFGHIJK''" "[]" fat_test_entry "[4, 2]"
        "\<lambda>n _. 0xCC" "''fat''", OF fat_test_volume refl _ fat_test_name fat_test_chain]
    by (simp add: fat_test_entry fat_test_state fat_test_parts c_bytes_def)
qed

theorem readFile_terminates_witness:
  "\<exists>r. readFile fat_test_entry (Some []) (vol_state (\<lambda>_ _. 0) fat_test) = Some r"
proof (rule readFile_terminates)
  have "g_BootSector (vol_state (\<lambda>_ _. 0) fat_test) = vol_boot fat_test" by (simp add: g_BootSector_def vol_boot_def vol_state_def)
  then show "SectorsPerCluster (g_BootSector (vol_state (\<lambda>_ _. 0) fat_test)) \<noteq> 0" by (simp add: fat_test_fields)
qed

end
