(* ===== verification/LoaderMap.thy ===== *)
theory LoaderMap
  imports Prelude "HOL-Library.Multiset"
begin

text \<open>
  The memory map of the boot loader, \<^verbatim>\<open>limine/common/mm/pmm.s2.c\<close>, \<^verbatim>\<open>pmm.c\<close> and \<^verbatim>\<open>pmm.h\<close> as built for the
  BIOS: the list of regions the kernel receives. The list holds the first \<open>memmap_entries\<close> elements of
  the array \<open>memmap\<close>, which has room for 512. A call of \<open>panic\<close> is \<open>Inl\<close> with its message. The
  restart of the outer loop after a removal is a recursive call with index 0.
\<close>

section \<open>Checked arithmetic\<close>

definition CHECKED_ADD :: "u64 \<Rightarrow> u64 \<Rightarrow> u64 option" where
  "CHECKED_ADD a b = (if unat a + unat b < 2 ^ 64 then Some (a + b) else None)"

definition CHECKED_MUL :: "u64 \<Rightarrow> u64 \<Rightarrow> u64 option" where
  "CHECKED_MUL a b = (if unat a * unat b < 2 ^ 64 then Some (a * b) else None)"

definition DIV_ROUNDUP :: "u64 \<Rightarrow> u64 \<Rightarrow> u64 option" where
  "DIV_ROUNDUP a b = map_option (\<lambda>v. v div b) (CHECKED_ADD a (b - 1))"

definition ALIGN_UP :: "u64 \<Rightarrow> u64 \<Rightarrow> u64 option" where
  "ALIGN_UP x a = map_option (\<lambda>v. v * a) (DIV_ROUNDUP x a)"

definition ALIGN_DOWN :: "u64 \<Rightarrow> u64 \<Rightarrow> u64" where
  "ALIGN_DOWN x a = x div a * a"

section \<open>Entries\<close>

record memmap_entry =
  mm_base :: u64
  mm_length :: u64
  mm_type :: u32
  mm_unused :: u32

definition MEMMAP_USABLE :: u32 where "MEMMAP_USABLE = 1"
definition MEMMAP_RESERVED :: u32 where "MEMMAP_RESERVED = 2"
definition MEMMAP_ACPI_RECLAIMABLE :: u32 where "MEMMAP_ACPI_RECLAIMABLE = 3"
definition MEMMAP_ACPI_NVS :: u32 where "MEMMAP_ACPI_NVS = 4"
definition MEMMAP_BAD_MEMORY :: u32 where "MEMMAP_BAD_MEMORY = 5"
definition MEMMAP_BOOTLOADER_RECLAIMABLE :: u32 where "MEMMAP_BOOTLOADER_RECLAIMABLE = 0x1000"
definition MEMMAP_KERNEL_AND_MODULES :: u32 where "MEMMAP_KERNEL_AND_MODULES = 0x1001"
definition MEMMAP_FRAMEBUFFER :: u32 where "MEMMAP_FRAMEBUFFER = 0x1002"
definition MEMMAP_RESERVED_MAPPED :: u32 where "MEMMAP_RESERVED_MAPPED = 0x1003"
definition MEMMAP_EFI_RECLAIMABLE :: u32 where "MEMMAP_EFI_RECLAIMABLE = 0x2000"

definition memmap_max_entries :: nat where "memmap_max_entries = 512"

definition memmap_type :: "u32 \<Rightarrow> string" where
  "memmap_type t =
     (if t = MEMMAP_USABLE then ''Usable RAM''
      else if t = MEMMAP_RESERVED then ''Reserved''
      else if t = MEMMAP_RESERVED_MAPPED then ''Reserved (Mapped)''
      else if t = MEMMAP_ACPI_RECLAIMABLE then ''ACPI reclaimable''
      else if t = MEMMAP_ACPI_NVS then ''ACPI NVS''
      else if t = MEMMAP_BAD_MEMORY then ''Bad memory''
      else if t = MEMMAP_FRAMEBUFFER then ''Framebuffer''
      else if t = MEMMAP_BOOTLOADER_RECLAIMABLE then ''Bootloader reclaimable''
      else if t = MEMMAP_KERNEL_AND_MODULES then ''Kernel/Modules''
      else if t = MEMMAP_EFI_RECLAIMABLE then ''EFI reclaimable''
      else ''???'')"

definition entry_top :: "memmap_entry \<Rightarrow> u64 option" where
  "entry_top e = CHECKED_ADD (mm_base e) (mm_length e)"

definition set_range :: "u64 \<Rightarrow> u64 \<Rightarrow> memmap_entry \<Rightarrow> memmap_entry" where
  "set_range b l e = e\<lparr>mm_base := b, mm_length := l\<rparr>"

definition align_entry :: "u64 \<Rightarrow> u64 \<Rightarrow> (u64 \<times> u64) option" where
  "align_entry base len =
     (if len < 4096 then None
      else case ALIGN_UP base 4096 of
             None \<Rightarrow> None
           | Some b \<Rightarrow>
               let l = ALIGN_DOWN (len - (b - base)) 4096
               in if l = 0 then None else Some (b, l))"

section \<open>Removing overlaps\<close>

text \<open>The removal of an element: the last one takes its place.\<close>

definition remove_at :: "nat \<Rightarrow> 'a list \<Rightarrow> 'a list" where
  "remove_at i m = (if i < length m - 1 then butlast (m[i := last m]) else butlast m)"

text \<open>A usable range \<open>[base, tp)\<close> cut by another one: the new range and, if the other one lies inside, the
  range above it.\<close>

definition cut :: "u64 \<Rightarrow> u64 \<Rightarrow> u64 \<Rightarrow> u64 \<Rightarrow> (u64 \<times> u64) \<times> (u64 \<times> u64) option" where
  "cut base tp res_base res_top =
     (let nested = (res_base \<ge> base \<and> res_base < tp \<and> res_top \<ge> base \<and> res_top < tp);
          top1 = (if nested then res_base else tp);
          top2 = (if res_base \<ge> base \<and> res_base < top1 then res_base else top1);
          base2 = (if res_top \<ge> base \<and> res_top < top2 then res_top else base)
      in ((base2, top2), if nested then Some (res_top, tp - res_top) else None))"

text \<open>The inner loop on entry \<open>i\<close> from \<open>j\<close> on. The flag says that the entry wraps around and is to be removed.\<close>

function overlap_loop :: "memmap_entry list \<Rightarrow> nat \<Rightarrow> nat \<Rightarrow> string + (bool \<times> memmap_entry list)" where
  "overlap_loop m i j =
     (if length m \<le> j \<or> length m \<le> i then Inr (False, m)
      else if j = i then overlap_loop m i (Suc j)
      else case entry_top (m ! i) of
        None \<Rightarrow> Inr (True, m)
      | Some tp \<Rightarrow>
        case entry_top (m ! j) of
          None \<Rightarrow> overlap_loop m i (Suc j)
        | Some res_top \<Rightarrow>
          if mm_length (m ! j) = 0 then overlap_loop m i (Suc j)
          else if mm_base (m ! j) \<le> mm_base (m ! i) \<and> res_top \<ge> tp then Inr (False, m[i := set_range tp 0 (m ! i)])
          else case cut (mm_base (m ! i)) tp (mm_base (m ! j)) res_top of
            ((b, t), None) \<Rightarrow> overlap_loop (m[i := set_range b (t - b) (m ! i)]) i (Suc j)
          | ((b, t), Some (tb, tn)) \<Rightarrow>
              if memmap_max_entries \<le> length m then Inl ''Memory map exhausted.''
              else overlap_loop (m[i := set_range b (t - b) (m ! i)] @ [set_range tb tn (m ! i)]) i (Suc j))"
  by pat_completeness auto

section \<open>Regions\<close>

text \<open>The addresses of an entry; an entry that wraps around has none.\<close>

definition region :: "memmap_entry \<Rightarrow> nat set" where
  "region e = (if entry_top e = None then {} else {unat (mm_base e) ..< unat (mm_base e) + unat (mm_length e)})"

lemma CHECKED_ADD_Some: "CHECKED_ADD a b = Some t \<longleftrightarrow> unat a + unat b < 2 ^ 64 \<and> t = a + b"
  by (auto simp: CHECKED_ADD_def)

lemma CHECKED_ADD_unat: "CHECKED_ADD a b = Some t \<Longrightarrow> unat t = unat a + unat b"
  by (auto simp: CHECKED_ADD_def unat_word_ariths split: if_splits)

lemma entry_top_Some: "(\<exists>tp. entry_top e = Some tp) \<longleftrightarrow> unat (mm_base e) + unat (mm_length e) < 2 ^ 64"
  by (simp add: entry_top_def CHECKED_ADD_def)

lemma region_top: "entry_top e = Some t \<Longrightarrow> region e = {unat (mm_base e) ..< unat t}"
  by (auto simp: region_def entry_top_def dest: CHECKED_ADD_unat)

lemma region_None [simp]: "entry_top e = None \<Longrightarrow> region e = {}"
  by (simp add: region_def)

lemma set_range_simps [simp]: "mm_type (set_range b l e) = mm_type e" "mm_base (set_range b l e) = b"
  "mm_length (set_range b l e) = l"
  by (simp_all add: set_range_def)

lemma entry_top_range:
  "b \<le> t \<Longrightarrow> entry_top (set_range b (t - b) e) = Some t"
proof -
  assume "b \<le> t"
  then have "unat b + unat (t - b) = unat t" by (simp add: unat_sub word_le_nat_alt)
  then show ?thesis using unat_lt2p [of t] by (simp add: entry_top_def CHECKED_ADD_def)
qed

lemma region_range: "b \<le> t \<Longrightarrow> region (set_range b (t - b) e) = {unat b ..< unat t}"
  using region_top [OF entry_top_range] by simp

text \<open>What a cut leaves: the range without the other one, in one piece or two.\<close>

lemma cut_pieces:
  assumes "cut base tp rb rt = ((b, t), tail)" and "base \<le> tp" and "rb < rt" and "\<not> (rb \<le> base \<and> rt \<ge> tp)"
  shows "base \<le> b" "b \<le> t" "t \<le> tp" "{unat b ..< unat t} \<inter> {unat rb ..< unat rt} = {}"
    and "tail = None \<Longrightarrow> {unat b ..< unat t} = {unat base ..< unat tp} - {unat rb ..< unat rt}"
    and "tail = Some (tb, tn) \<Longrightarrow> tb = rt \<and> tn = tp - rt \<and> rt < tp \<and> t < rt \<and> base = b \<and> rb = t \<and>
      {unat b ..< unat t} \<union> {unat rt ..< unat tp} = {unat base ..< unat tp} - {unat rb ..< unat rt}"
  using assms unfolding cut_def Let_def word_less_nat_alt word_le_nat_alt word_unat_eq_iff
  by (auto split: if_splits)

lemma entry_top_le: "entry_top e = Some tp \<Longrightarrow> mm_base e \<le> tp \<and> unat tp = unat (mm_base e) + unat (mm_length e)"
  by (auto simp: entry_top_def word_le_nat_alt dest: CHECKED_ADD_unat)

lemma entry_top_less: "entry_top e = Some tp \<Longrightarrow> mm_length e \<noteq> 0 \<Longrightarrow> mm_base e < tp"
  using entry_top_le [of e tp] by (auto simp: word_less_nat_alt unat_gt_0)

lemma entry_length: "entry_top e = Some tp \<Longrightarrow> unat (mm_length e) = unat tp - unat (mm_base e)"
  by (simp add: entry_top_le)

lemma cut_shrinks:
  assumes "entry_top e = Some tp" and "entry_top r = Some rt" and "mm_length r \<noteq> 0"
    and "\<not> (mm_base r \<le> mm_base e \<and> rt \<ge> tp)" and "cut (mm_base e) tp (mm_base r) rt = ((b, t), tail)"
  shows "unat (t - b) + (if tail = None then 0 else Suc (unat (tp - rt))) \<le> unat (mm_length e)"
proof -
  note c = cut_pieces [OF assms(5) entry_top_le [OF assms(1), THEN conjunct1] entry_top_less [OF assms(2,3)] assms(4)]
  have "unat (t - b) = unat t - unat b" using c(2) by (simp add: unat_sub word_le_nat_alt)
  moreover have "rt \<le> tp \<Longrightarrow> unat (tp - rt) = unat tp - unat rt" by (simp add: unat_sub word_le_nat_alt)
  ultimately show ?thesis
    using c(1,2,3,6) entry_length [OF assms(1)] by (cases tail) (auto simp: word_le_nat_alt word_less_nat_alt)
qed

termination overlap_loop
proof (relation "measures [\<lambda>(m, i, j). unat (mm_length (m ! i)), \<lambda>(m, i, j). length m - j]"; (simp; fail)?)
  fix m i j tp rt c b t tail assume a: "\<not> (length m \<le> j \<or> length m \<le> i)" "j \<noteq> i" "entry_top (m ! i) = Some tp"
    "entry_top (m ! j) = Some rt" "mm_length (m ! j) \<noteq> 0" "\<not> (mm_base (m ! j) \<le> mm_base (m ! i) \<and> tp \<le> rt)"
    "(c, tail) = cut (mm_base (m ! i)) tp (mm_base (m ! j)) rt" "(b, t) = c" "tail = None"
  have "unat (t - b) \<le> unat (mm_length (m ! i))"
    using cut_shrinks [OF a(3-6), of b t tail] a(7-9) by simp
  with a(1) show "((m[i := set_range b (t - b) (m ! i)], i, Suc j), m, i, j)
      \<in> measures [\<lambda>(m, i, j). unat (mm_length (m ! i)), \<lambda>(m, i, j). length m - j]"
    by auto
next
  fix m i j tp rt c b t tail u tb tn assume a: "\<not> (length m \<le> j \<or> length m \<le> i)" "j \<noteq> i" "entry_top (m ! i) = Some tp"
    "entry_top (m ! j) = Some rt" "mm_length (m ! j) \<noteq> 0" "\<not> (mm_base (m ! j) \<le> mm_base (m ! i) \<and> tp \<le> rt)"
    "(c, tail) = cut (mm_base (m ! i)) tp (mm_base (m ! j)) rt" "(b, t) = c" "tail = Some u" "(tb, tn) = u"
    "\<not> memmap_max_entries \<le> length m"
  have "unat (t - b) < unat (mm_length (m ! i))"
    using cut_shrinks [OF a(3-6), of b t tail] a(7-9) by simp
  with a(1) show "((m[i := set_range b (t - b) (m ! i)] @ [set_range tb tn (m ! i)], i, Suc j), m, i, j)
      \<in> measures [\<lambda>(m, i, j). unat (mm_length (m ! i)), \<lambda>(m, i, j). length m - j]"
    by (auto simp: nth_append)
qed auto

declare overlap_loop.simps [simp del]

section \<open>What the map describes\<close>

definition usable :: "memmap_entry list \<Rightarrow> nat set" where
  "usable m = {a. \<exists>k < length m. mm_type (m ! k) = MEMMAP_USABLE \<and> a \<in> region (m ! k)}"

definition reserved :: "memmap_entry list \<Rightarrow> nat set" where
  "reserved m = {a. \<exists>k < length m. mm_type (m ! k) \<noteq> MEMMAP_USABLE \<and> a \<in> region (m ! k)}"

definition total_length :: "memmap_entry list \<Rightarrow> nat" where
  "total_length m = sum_list (map (\<lambda>e. unat (mm_length e)) m)"

text \<open>Splits and removals make this number smaller.\<close>

definition weight :: "memmap_entry list \<Rightarrow> nat" where
  "weight m = 2 * total_length m + length m"

definition usable_but :: "nat \<Rightarrow> memmap_entry list \<Rightarrow> nat set" where
  "usable_but i m = {a. \<exists>k < length m. k \<noteq> i \<and> mm_type (m ! k) = MEMMAP_USABLE \<and> a \<in> region (m ! k)}"

lemma usable_split: "i < length m \<Longrightarrow> mm_type (m ! i) = MEMMAP_USABLE \<Longrightarrow> usable m = region (m ! i) \<union> usable_but i m"
  by (auto simp: usable_def usable_but_def)

lemma usable_but_update [simp]: "usable_but i (m[i := e]) = usable_but i m"
  by (auto simp: usable_but_def nth_list_update)

lemma usable_but_append: "i < length m \<Longrightarrow> mm_type e = MEMMAP_USABLE \<Longrightarrow> usable_but i (m @ [e]) = usable_but i m \<union> region e"
  by (auto simp: usable_but_def nth_append Ex_less_Suc)

lemma reserved_update: "mm_type (m ! i) = MEMMAP_USABLE \<Longrightarrow> mm_type e = MEMMAP_USABLE \<Longrightarrow> reserved (m[i := e]) = reserved m"
proof -
  assume a: "mm_type (m ! i) = MEMMAP_USABLE" "mm_type e = MEMMAP_USABLE"
  have "mm_type (m[i := e] ! k) \<noteq> MEMMAP_USABLE \<and> x \<in> region (m[i := e] ! k) \<longleftrightarrow> mm_type (m ! k) \<noteq> MEMMAP_USABLE \<and> x \<in> region (m ! k)"
    if "k < length m" for k x using that a by (cases "k = i") auto
  then show ?thesis unfolding reserved_def by auto
qed

lemma reserved_append: "mm_type e = MEMMAP_USABLE \<Longrightarrow> reserved (m @ [e]) = reserved m"
  by (auto simp: reserved_def nth_append less_Suc_eq split: if_splits)

lemma total_length_update: "i < length m \<Longrightarrow> total_length (m[i := e]) + unat (mm_length (m ! i)) = total_length m + unat (mm_length e)"
  by (induction m arbitrary: i) (auto simp: total_length_def nth_Cons split: nat.splits)

lemma total_length_append [simp]: "total_length (m @ m') = total_length m + total_length m'"
  by (simp add: total_length_def)

text \<open>What the inner loop does to the map: entry \<open>i\<close> shrinks, the pieces it loses are kept as new entries or
  belong to another entry.\<close>

definition no_wrap :: "memmap_entry list \<Rightarrow> bool" where
  "no_wrap m \<longleftrightarrow> list_all (\<lambda>e. entry_top e \<noteq> None) m"

definition shrinks :: "nat \<Rightarrow> memmap_entry list \<Rightarrow> memmap_entry list \<Rightarrow> bool" where
  "shrinks i m m' \<longleftrightarrow>
     length m \<le> length m' \<and> mm_type (m' ! i) = MEMMAP_USABLE \<and> region (m' ! i) \<subseteq> region (m ! i) \<and>
     (\<forall>k < length m. k \<noteq> i \<longrightarrow> m' ! k = m ! k) \<and>
     (\<forall>k < length m'. length m \<le> k \<longrightarrow> mm_type (m' ! k) = MEMMAP_USABLE \<and> region (m' ! k) \<subseteq> region (m ! i)) \<and>
     usable m' - reserved m = usable m - reserved m \<and> reserved m' = reserved m \<and>
     weight m' + (if length m' = length m then 0 else 1) \<le> weight m \<and> (no_wrap m \<longrightarrow> no_wrap m')"

definition apart :: "nat \<Rightarrow> nat \<Rightarrow> memmap_entry list \<Rightarrow> bool" where
  "apart i j m \<longleftrightarrow> (\<forall>k < length m. j \<le> k \<and> k \<noteq> i \<longrightarrow> region (m ! i) \<inter> region (m ! k) = {})"

lemma shrinks_refl: "mm_type (m ! i) = MEMMAP_USABLE \<Longrightarrow> shrinks i m m"
  by (simp add: shrinks_def)

lemma shrinksD:
  assumes "shrinks i m m'"
  shows "length m \<le> length m'" "mm_type (m' ! i) = MEMMAP_USABLE" "region (m' ! i) \<subseteq> region (m ! i)"
    "k < length m \<Longrightarrow> k \<noteq> i \<Longrightarrow> m' ! k = m ! k"
    "k < length m' \<Longrightarrow> length m \<le> k \<Longrightarrow> mm_type (m' ! k) = MEMMAP_USABLE \<and> region (m' ! k) \<subseteq> region (m ! i)"
    "usable m' - reserved m = usable m - reserved m" "reserved m' = reserved m"
    "weight m' + (if length m' = length m then 0 else 1) \<le> weight m" "no_wrap m \<Longrightarrow> no_wrap m'"
  using assms unfolding shrinks_def by blast+

lemma shrinks_trans:
  assumes "i < length m" and "shrinks i m m1" and "shrinks i m1 m2"
  shows "shrinks i m m2"
  unfolding shrinks_def
proof (intro conjI allI impI)
  note a = shrinksD [OF assms(2)] and b = shrinksD [OF assms(3)]
  show "length m \<le> length m2" using a(1) b(1) by simp
  show "mm_type (m2 ! i) = MEMMAP_USABLE" using b(2) .
  show "region (m2 ! i) \<subseteq> region (m ! i)" using a(3) b(3) by blast
  show "usable m2 - reserved m = usable m - reserved m" using a(6,7) b(6) by simp
  show "reserved m2 = reserved m" using a(7) b(7) by simp
  show "weight m2 + (if length m2 = length m then 0 else 1) \<le> weight m" using a(8) b(8) by (simp split: if_splits)
  show "no_wrap m2" if "no_wrap m" using a(9) b(9) that by blast
  fix k
  show "m2 ! k = m ! k" if "k < length m" "k \<noteq> i" using that a(1) a(4) [of k] b(4) [of k] by simp
  assume k: "k < length m2" "length m \<le> k"
  show "mm_type (m2 ! k) = MEMMAP_USABLE"
  proof (cases "k < length m1")
    case True
    then show ?thesis using assms(1) k a(5) [of k] b(4) [of k] by simp
  next
    case False
    then show ?thesis using k b(5) [of k] by simp
  qed
  show "region (m2 ! k) \<subseteq> region (m ! i)"
  proof (cases "k < length m1")
    case True
    then show ?thesis using assms(1) k a(5) [of k] b(4) [of k] by simp
  next
    case False
    then show ?thesis using k a(3) b(5) [of k] by auto
  qed
qed

lemma no_wrap_update: "no_wrap m \<Longrightarrow> entry_top e \<noteq> None \<Longrightarrow> no_wrap (m[i := e])"
  by (auto simp: no_wrap_def list_all_iff dest!: set_update_subset_insert [THEN subsetD])

lemma entry_top_0 [simp]: "entry_top (set_range b 0 e) = Some b"
  using unat_lt2p [of b] by (simp add: entry_top_def CHECKED_ADD_def)

lemma region_empty [simp]: "region (set_range b 0 e) = {}"
  by (simp add: region_def)

lemma no_wrap_append: "no_wrap (m @ [e]) \<longleftrightarrow> no_wrap m \<and> entry_top e \<noteq> None"
  by (simp add: no_wrap_def)

lemma shrinks_contained:
  assumes "i < length m" "j < length m" "j \<noteq> i" "mm_type (m ! i) = MEMMAP_USABLE" "region (m ! i) \<subseteq> region (m ! j)"
  shows "shrinks i m (m[i := set_range b 0 (m ! i)])"
proof -
  let ?m = "m[i := set_range b 0 (m ! i)]"
  have "region (m ! i) \<subseteq> usable_but i m \<union> reserved m"
    using assms(2,3,5) by (auto simp: usable_but_def reserved_def)
  moreover have "usable m = region (m ! i) \<union> usable_but i m" "usable ?m = usable_but i m"
    using usable_split [of i m] usable_split [of i ?m] assms(1,4) by simp_all
  ultimately have "usable ?m - reserved m = usable m - reserved m" by blast
  then show ?thesis
    using assms(1,4) total_length_update [OF assms(1), of "set_range b 0 (m ! i)"]
    by (auto simp: shrinks_def reserved_update weight_def no_wrap_update)
qed

lemma shrinks_cut:
  assumes "i < length m" "j < length m" "j \<noteq> i" "mm_type (m ! i) = MEMMAP_USABLE"
    and tops: "entry_top (m ! i) = Some tp" "entry_top (m ! j) = Some rt" "mm_length (m ! j) \<noteq> 0"
      "\<not> (mm_base (m ! j) \<le> mm_base (m ! i) \<and> rt \<ge> tp)"
    and cut: "cut (mm_base (m ! i)) tp (mm_base (m ! j)) rt = ((b, t), tail)"
    and m1: "m1 = m[i := set_range b (t - b) (m ! i)] @ (case tail of None \<Rightarrow> [] | Some (tb, tn) \<Rightarrow> [set_range tb tn (m ! i)])"
  shows "shrinks i m m1 \<and> region (m1 ! i) \<inter> region (m1 ! j) = {}"
proof -
  note c = cut_pieces [OF cut entry_top_le [OF tops(1), THEN conjunct1] entry_top_less [OF tops(2,3)] tops(4)]
  note s = cut_shrinks [OF tops cut]
  let ?e = "set_range b (t - b) (m ! i)"
  have ri: "region (m ! i) = {unat (mm_base (m ! i)) ..< unat tp}" and rj: "region (m ! j) = {unat (mm_base (m ! j)) ..< unat rt}"
    using region_top tops(1,2) by blast+
  have re: "region ?e = {unat b ..< unat t}" using region_range [OF c(2)] .
  have out: "region (m ! i) \<inter> region (m ! j) \<subseteq> usable_but i m \<union> reserved m"
    using assms(2,3) by (auto simp: usable_but_def reserved_def)
  have um: "usable m = region (m ! i) \<union> usable_but i m" using usable_split assms(1,4) by blast
  have tl: "total_length (m[i := ?e]) + unat (mm_length (m ! i)) = total_length m + unat (t - b)"
    using total_length_update [OF assms(1), of ?e] by simp
  have sub: "region ?e \<subseteq> region (m ! i)" unfolding re ri using c(1,3) by (auto simp: word_le_nat_alt)
  have dis: "region ?e \<inter> region (m ! j) = {}" unfolding re rj using c(4) .
  show ?thesis
  proof (cases tail)
    case None
    have e: "region ?e = region (m ! i) - region (m ! j)" unfolding re ri rj using c(5) [OF None] .
    have m1': "m1 = m[i := ?e]" by (simp add: m1 None)
    have u1: "usable m1 = region ?e \<union> usable_but i m" using usable_split [of i m1] assms(1,4) by (simp add: m1')
    have "usable m1 - reserved m = usable m - reserved m" unfolding u1 um e using out by blast
    moreover have "weight m1 \<le> weight m" using s tl by (simp add: None weight_def m1')
    ultimately show ?thesis using assms(1-4) sub dis by (simp add: m1' shrinks_def reserved_update no_wrap_update entry_top_range c(2))
  next
    case (Some u)
    obtain tb tn where u: "u = (tb, tn)" by (cases u)
    have d: "tb = rt" "tn = tp - rt" "rt < tp"
      "{unat b ..< unat t} \<union> {unat rt ..< unat tp} = {unat (mm_base (m ! i)) ..< unat tp} - {unat (mm_base (m ! j)) ..< unat rt}"
      using c(6) [of tb tn] Some u by auto
    let ?f = "set_range tb tn (m ! i)"
    have rf: "region ?f = {unat rt ..< unat tp}" using region_range [of rt tp] d by simp
    have e: "region ?e \<union> region ?f = region (m ! i) - region (m ! j)" unfolding re ri rj rf using d(4) .
    have m1': "m1 = m[i := ?e] @ [?f]" by (simp add: m1 Some u)
    have u1: "usable m1 = region ?e \<union> region ?f \<union> usable_but i m"
      using usable_split [of i m1] assms(1,4) by (auto simp: m1' nth_append usable_but_append)
    have "usable m1 - reserved m = usable m - reserved m" unfolding u1 um e using out by blast
    moreover have "weight m1 < weight m" using s tl by (simp add: Some weight_def m1' d total_length_def)
    moreover have "region ?f \<subseteq> region (m ! i)" using e by blast
    moreover have "no_wrap m \<longrightarrow> no_wrap (m[i := ?e] @ [?f])"
      using entry_top_range [of rt tp "m ! i"] d(1-3) no_wrap_update [of m ?e i] entry_top_range [OF c(2), of "m ! i"]
      by (simp add: no_wrap_append)
    ultimately show ?thesis using assms(1-4) sub dis
      by (auto simp: m1' shrinks_def reserved_update reserved_append nth_append)
  qed
qed

lemma apart_step:
  assumes "shrinks i m1 m'" "apart i (Suc j) m'" "j < length m1" "j = i \<or> region (m1 ! i) \<inter> region (m1 ! j) = {}"
  shows "apart i j m'"
  unfolding apart_def
proof (intro allI impI)
  fix k assume k: "k < length m'" "j \<le> k \<and> k \<noteq> i"
  show "region (m' ! i) \<inter> region (m' ! k) = {}"
  proof (cases "k = j")
    case True
    then have "m' ! k = m1 ! j" using k assms(3) shrinksD(4) [OF assms(1), of j] by simp
    then show ?thesis using True k assms(4) shrinksD(3) [OF assms(1)] by auto
  next
    case False
    then show ?thesis using k assms(2) by (simp add: apart_def)
  qed
qed

lemma overlap_loop_post:
  "overlap_loop m i j = Inr (del, m') \<Longrightarrow> i < length m \<Longrightarrow> mm_type (m ! i) = MEMMAP_USABLE \<Longrightarrow>
   shrinks i m m' \<and> apart i j m' \<and> (del \<longrightarrow> region (m' ! i) = {}) \<and> (length m \<le> memmap_max_entries \<longrightarrow> length m' \<le> memmap_max_entries)"
proof (induction m i j rule: overlap_loop.induct)
  case (1 m i j)
  note run = "1.prems"(1) and i = "1.prems"(2) and ty = "1.prems"(3)
  show ?case
  proof (cases "length m \<le> j")
    case True
    then show ?thesis using run ty by (subst (asm) overlap_loop.simps) (auto simp: shrinks_refl apart_def)
  next
    case j: False
    show ?thesis
    proof (cases "j = i")
      case True
      then have "overlap_loop m i (Suc j) = Inr (del, m')" using run i j by (subst (asm) overlap_loop.simps) simp
      from "1.IH"(1) [OF _ True this i ty] i j show ?thesis using apart_step [of i m m' j] True by auto
    next
      case ne: False
      show ?thesis
      proof (cases "entry_top (m ! i)")
        case None
        then have "del \<and> m' = m" using run i j ne by (subst (asm) overlap_loop.simps) simp
        then show ?thesis using None ty by (simp add: shrinks_refl apart_def)
      next
        case ti: (Some tp)
        show ?thesis
        proof (cases "entry_top (m ! j) = None \<or> mm_length (m ! j) = 0")
          case True
          then have e: "region (m ! j) = {}" by (auto simp: region_def)
          have r: "overlap_loop m i (Suc j) = Inr (del, m')"
            using run i j ne ti True by (cases "entry_top (m ! j)"; subst (asm) overlap_loop.simps) simp_all
          have "shrinks i m m' \<and> apart i (Suc j) m' \<and> (del \<longrightarrow> region (m' ! i) = {}) \<and> (length m \<le> memmap_max_entries \<longrightarrow> length m' \<le> memmap_max_entries)"
          proof (cases "entry_top (m ! j)")
            case None
            then show ?thesis using "1.IH"(2) [OF _ ne ti None r i ty] i j by simp
          next
            case (Some rt)
            then show ?thesis using "1.IH"(3) [OF _ ne ti Some _ r i ty] True i j by simp
          qed
          then show ?thesis using apart_step [of i m m' j] e j by simp
        next
          case False
          then obtain rt where tj: "entry_top (m ! j) = Some rt" and l: "mm_length (m ! j) \<noteq> 0" by auto
          show ?thesis
          proof (cases "mm_base (m ! j) \<le> mm_base (m ! i) \<and> rt \<ge> tp")
            case True
            then have m': "\<not> del" "m' = m[i := set_range tp 0 (m ! i)]"
              using run i j ne ti tj l by (subst (asm) overlap_loop.simps; simp)+
            have "region (m ! i) \<subseteq> region (m ! j)" using True region_top [OF ti] region_top [OF tj] by (auto simp: word_le_nat_alt)
            then show ?thesis using shrinks_contained [of i m j tp] i j ne ty m' by (simp add: apart_def)
          next
            case nc: False
            obtain b t tail where cut: "cut (mm_base (m ! i)) tp (mm_base (m ! j)) rt = ((b, t), tail)"
              by (metis surj_pair)
            define m1 where "m1 = m[i := set_range b (t - b) (m ! i)] @ (case tail of None \<Rightarrow> [] | Some (tb, tn) \<Rightarrow> [set_range tb tn (m ! i)])"
            have s: "shrinks i m m1" "region (m1 ! i) \<inter> region (m1 ! j) = {}"
              using shrinks_cut [OF i _ ne ty ti tj l nc cut m1_def] j by auto
            have i1: "i < length m1" "mm_type (m1 ! i) = MEMMAP_USABLE" "j < length m1"
              using i j shrinksD(1,2) [OF s(1)] by auto
            have "shrinks i m1 m' \<and> apart i (Suc j) m' \<and> (del \<longrightarrow> region (m' ! i) = {}) \<and> (length m \<le> memmap_max_entries \<longrightarrow> length m' \<le> memmap_max_entries)"
            proof (cases tail)
              case None
              then have m1: "m1 = m[i := set_range b (t - b) (m ! i)]" by (simp add: m1_def)
              have "overlap_loop m1 i (Suc j) = Inr (del, m')"
                using run i j ne ti tj l nc cut None unfolding m1 by (subst (asm) overlap_loop.simps) auto
              then show ?thesis
                using "1.IH"(4) [OF _ ne ti tj l nc cut [symmetric] refl None] i j i1 unfolding m1 by simp
            next
              case (Some u)
              obtain tb tn where u: "u = (tb, tn)" by (cases u)
              have m1: "m1 = m[i := set_range b (t - b) (m ! i)] @ [set_range tb tn (m ! i)]" by (simp add: m1_def Some u)
              have lm: "\<not> memmap_max_entries \<le> length m" and r: "overlap_loop m1 i (Suc j) = Inr (del, m')"
                using run i j ne ti tj l nc cut Some u unfolding m1
                by (subst (asm) overlap_loop.simps; auto split: if_splits)+
              then show ?thesis
                using "1.IH"(5) [OF _ ne ti tj l nc cut [symmetric] refl Some u [symmetric] lm] i j i1 unfolding m1 by simp
            qed
            then show ?thesis
              using shrinks_trans [OF i s(1)] apart_step [of i m1 m' j] s(2) i1(3) by auto
          qed
        qed
      qed
    qed
  qed
qed

section \<open>The outer loop\<close>

lemma length_remove_at [simp]: "length (remove_at i m) = length m - 1"
  by (simp add: remove_at_def)

lemma mset_remove_at: "i < length m \<Longrightarrow> mset m = add_mset (m ! i) (mset (remove_at i m))"
proof (cases "m = []")
  case False
  assume i: "i < length m"
  obtain xs x where m: "m = xs @ [x]" using False by (metis append_butlast_last_id)
  show ?thesis
  proof (cases "i < length xs")
    case True
    then have "mset xs = add_mset (xs ! i) (mset xs - {#xs ! i#})" by simp
    then have "mset (xs @ [x]) = add_mset x (add_mset (xs ! i) (mset xs - {#xs ! i#}))" by simp
    moreover have "mset (xs[i := x]) = add_mset x (mset xs - {#xs ! i#})" using True by (simp add: mset_update)
    moreover have "remove_at i m = xs[i := x]" using True by (simp add: remove_at_def m list_update_append)
    ultimately show ?thesis using True by (simp add: m nth_append)
  next
    case F: False
    then have "i = length xs" using i by (simp add: m)
    then show ?thesis by (simp add: m remove_at_def)
  qed
qed simp

lemma set_remove_at: "i < length m \<Longrightarrow> set m = insert (m ! i) (set (remove_at i m))"
  using mset_remove_at [of i m] by (metis set_mset_add_mset_insert set_mset_mset)

lemma usable_set: "usable m = (\<Union>e \<in> {e \<in> set m. mm_type e = MEMMAP_USABLE}. region e)"
  by (auto simp: usable_def in_set_conv_nth)

lemma reserved_set: "reserved m = (\<Union>e \<in> {e \<in> set m. mm_type e \<noteq> MEMMAP_USABLE}. region e)"
  by (auto simp: reserved_def in_set_conv_nth)

lemma cover_remove_at:
  assumes "i < length m" and "region (m ! i) = {}"
  shows "usable (remove_at i m) = usable m" "reserved (remove_at i m) = reserved m"
  using assms(2) set_remove_at [OF assms(1)] by (auto simp: usable_set reserved_set)

lemma total_length_mset: "total_length m = (\<Sum>e \<in># mset m. unat (mm_length e))"
  by (simp add: total_length_def sum_mset_sum_list flip: mset_map)

lemma weight_remove_at: "i < length m \<Longrightarrow> weight (remove_at i m) < weight m"
proof -
  assume i: "i < length m"
  then have "total_length m = unat (mm_length (m ! i)) + total_length (remove_at i m)"
    unfolding total_length_mset by (subst mset_remove_at [OF i]) simp
  then show ?thesis using i by (auto simp: weight_def)
qed

lemma align_entry_spec:
  assumes "align_entry base len = Some (b, l)"
  shows "unat l \<le> unat len" "unat b mod 4096 = 0" "unat l mod 4096 = 0" "unat l \<noteq> 0" "unat base \<le> unat b"
    "unat b + unat l = (unat base + unat len) div 4096 * 4096"
proof -
  from assms have big: "\<not> len < 4096" and up: "ALIGN_UP base 4096 = Some b"
      and l: "l = ALIGN_DOWN (len - (b - base)) 4096" "l \<noteq> 0"
    by (auto simp: align_entry_def Let_def split: if_splits option.splits)
  have ov: "unat base + 4095 < 2 ^ 64" and b: "b = (base + 4095) div 4096 * 4096"
    using up by (auto simp: ALIGN_UP_def DIV_ROUNDUP_def CHECKED_ADD_def split: if_splits)
  have s: "unat (base + 4095) = unat base + 4095" using ov by (simp add: unat_word_ariths)
  have ub: "unat b = (unat base + 4095) div 4096 * 4096"
  proof -
    have "(unat base + 4095) div 4096 * 4096 < 2 ^ 64" using ov div_times_less_eq_dividend [of "unat base + 4095" 4096] by linarith
    then show ?thesis unfolding b by (simp add: unat_word_ariths unat_div s)
  qed
  have le: "unat base \<le> unat b" "unat b < unat base + 4096"
    unfolding ub using dividend_less_div_times [of 4096 "unat base"] div_times_less_eq_dividend [of "unat base + 4095" 4096] by linarith+
  have len: "4096 \<le> unat len" using big by (simp add: word_less_nat_alt)
  have d: "unat (len - (b - base)) = unat len - (unat b - unat base)"
    using le len by (simp add: unat_sub word_le_nat_alt)
  have ul: "unat l = (unat len - (unat b - unat base)) div 4096 * 4096"
  proof -
    have "(unat len - (unat b - unat base)) div 4096 * 4096 \<le> unat len"
      using div_times_less_eq_dividend [of "unat len - (unat b - unat base)" 4096] by linarith
    then have "(unat len - (unat b - unat base)) div 4096 * 4096 < 2 ^ 64" using unat_lt2p [of len] by simp
    then show ?thesis unfolding l(1) ALIGN_DOWN_def by (simp add: unat_word_ariths unat_div d)
  qed
  show "unat l \<le> unat len" unfolding ul using div_times_less_eq_dividend [of "unat len - (unat b - unat base)" 4096] by linarith
  show "unat b mod 4096 = 0" "unat l mod 4096 = 0" unfolding ub ul by simp_all
  show "unat l \<noteq> 0" using l(2) by (simp add: unat_eq_0)
  show "unat base \<le> unat b" by (rule le(1))
  show "unat b + unat l = (unat base + unat len) div 4096 * 4096"
  proof -
    define q where "q = (unat base + 4095) div 4096"
    have b: "unat b = q * 4096" by (simp add: ub q_def)
    have r: "unat base + unat len = (unat len - (unat b - unat base)) + q * 4096"
      using le len b by linarith
    have "q * 4096 + x div 4096 * 4096 = (x + q * 4096) div 4096 * 4096" for x :: nat by simp
    then show ?thesis unfolding ul r unfolding b .
  qed
qed

lemma align_entry_region:
  assumes "align_entry (mm_base e) (mm_length e) = Some (b, l)"
  shows "region (set_range b l e) \<subseteq> region e"
proof -
  note s = align_entry_spec [OF assms]
  let ?n = "unat (mm_base e) + unat (mm_length e)"
  have le: "?n div 4096 * 4096 \<le> ?n" by simp
  have "entry_top e = None \<Longrightarrow> entry_top (set_range b l e) = None"
  proof -
    assume "entry_top e = None"
    then have "2 ^ 64 \<le> ?n" by (auto simp: entry_top_def CHECKED_ADD_def split: if_splits)
    then have "2 ^ 52 \<le> ?n div 4096" using div_le_mono [of "2 ^ 64" ?n 4096] by simp
    then have "\<not> unat b + unat l < 2 ^ 64" unfolding s(6) by simp
    then show ?thesis by (simp add: entry_top_def CHECKED_ADD_def)
  qed
  then show ?thesis using s(5,6) le by (auto simp: region_def)
qed

function overlap_pass :: "bool \<Rightarrow> memmap_entry list \<Rightarrow> nat \<Rightarrow> string + memmap_entry list" where
  "overlap_pass align m i =
     (if length m \<le> i then Inr m
      else if mm_type (m ! i) \<noteq> MEMMAP_USABLE then overlap_pass align m (Suc i)
      else case overlap_loop m i 0 of
        Inl msg \<Rightarrow> Inl msg
      | Inr (del, m') \<Rightarrow>
          if del \<or> mm_length (m' ! i) = 0 then overlap_pass align (remove_at i m') 0
          else if align then
            (case align_entry (mm_base (m' ! i)) (mm_length (m' ! i)) of
               None \<Rightarrow> overlap_pass align (remove_at i m') 0
             | Some (b, l) \<Rightarrow> overlap_pass align (m'[i := set_range b l (m' ! i)]) (Suc i))
          else overlap_pass align m' (Suc i))"
  by pat_completeness auto

lemma weight_align:
  assumes "i < length m" and "align_entry (mm_base (m ! i)) (mm_length (m ! i)) = Some (b, l)"
  shows "weight (m[i := set_range b l (m ! i)]) \<le> weight m"
  using total_length_update [OF assms(1), of "set_range b l (m ! i)"] align_entry_spec(1) [OF assms(2)] by (simp add: weight_def)

termination overlap_pass
proof (relation "measures [\<lambda>(a, m, i). weight m, \<lambda>(a, m, i). length m - i]"; (simp; fail)?)
  fix align :: bool and m i r del m'
  assume a: "\<not> length m \<le> i" "\<not> mm_type (m ! i) \<noteq> MEMMAP_USABLE" "overlap_loop m i 0 = Inr r" "(del, m') = r"
  have s: "shrinks i m m'" using overlap_loop_post [of m i 0 del m'] a by simp
  have i: "i < length m'" and w: "weight m' + (if length m' = length m then 0 else 1) \<le> weight m"
    using shrinksD(1,8) [OF s] a(1) by auto
  show "((align, remove_at i m', 0), align, m, i) \<in> measures [\<lambda>(a, m, i). weight m, \<lambda>(a, m, i). length m - i]"
    using weight_remove_at [OF i] w by simp
  then show "((align, remove_at i m', 0), align, m, i) \<in> measures [\<lambda>(a, m, i). weight m, \<lambda>(a, m, i). length m - i]" .
  show "((align, m', Suc i), align, m, i) \<in> measures [\<lambda>(a, m, i). weight m, \<lambda>(a, m, i). length m - i]"
    using w a(1) by (auto split: if_splits)
  fix x b l assume x: "align_entry (mm_base (m' ! i)) (mm_length (m' ! i)) = Some x" "(b, l) = x"
  then show "((align, m'[i := set_range b l (m' ! i)], Suc i), align, m, i) \<in> measures [\<lambda>(a, m, i). weight m, \<lambda>(a, m, i). length m - i]"
    using w a(1) weight_align [OF i, of b l] by (auto split: if_splits)
qed

declare overlap_pass.simps [simp del]

definition page_entry :: "memmap_entry \<Rightarrow> bool" where
  "page_entry e \<longleftrightarrow> unat (mm_base e) mod 4096 = 0 \<and> unat (mm_length e) mod 4096 = 0"

text \<open>The usable entries before \<open>i\<close> are settled: not empty, apart from all others and, if asked for, aligned.\<close>

definition settled :: "bool \<Rightarrow> memmap_entry list \<Rightarrow> nat \<Rightarrow> bool" where
  "settled align m i \<longleftrightarrow> (\<forall>k < length m. k < i \<and> mm_type (m ! k) = MEMMAP_USABLE \<longrightarrow>
     mm_length (m ! k) \<noteq> 0 \<and> apart k 0 m \<and> (align \<longrightarrow> page_entry (m ! k)))"

lemma settled_0 [simp]: "settled align m 0"
  by (simp add: settled_def)

lemma settled_shrinks:
  assumes "settled align m i" "shrinks i m m'" "apart i 0 m'" "i < length m" "mm_length (m' ! i) \<noteq> 0"
    "align \<longrightarrow> page_entry (m' ! i)"
  shows "settled align m' (Suc i)"
  unfolding settled_def
proof (intro allI impI)
  note sh = shrinksD [OF assms(2)]
  fix k assume k: "k < length m'" "k < Suc i \<and> mm_type (m' ! k) = MEMMAP_USABLE"
  show "mm_length (m' ! k) \<noteq> 0 \<and> apart k 0 m' \<and> (align \<longrightarrow> page_entry (m' ! k))"
  proof (cases "k = i")
    case True
    then show ?thesis using assms by simp
  next
    case False
    then have lt: "k < i" "k < length m" using k assms(4) by auto
    then have mk: "m' ! k = m ! k" using sh(4) [of k] by simp
    then have old: "mm_length (m ! k) \<noteq> 0" "apart k 0 m" "align \<longrightarrow> page_entry (m ! k)"
      using assms(1) lt k by (auto simp: settled_def)
    have "region (m ! k) \<inter> region (m ! i) = {}" using old(2) assms(4) lt by (auto simp: apart_def)
    then have "region (m' ! k) \<inter> region (m' ! l) = {}" if "l < length m'" "l \<noteq> k" for l
    proof (cases "l < length m \<and> l \<noteq> i")
      case True
      then show ?thesis using sh(4) [of l] mk old(2) that by (simp add: apart_def)
    next
      case F: False
      then have "region (m' ! l) \<subseteq> region (m ! i)" using sh(3) sh(5) [of l] that by (cases "l = i") auto
      then show ?thesis using mk \<open>region (m ! k) \<inter> region (m ! i) = {}\<close> by auto
    qed
    then show ?thesis using old mk by (simp add: apart_def)
  qed
qed

lemma shrinks_align:
  assumes "i < length m" "mm_type (m ! i) = MEMMAP_USABLE" "align_entry (mm_base (m ! i)) (mm_length (m ! i)) = Some (b, l)"
    "settled align m i" "apart i 0 m"
  defines "m' \<equiv> m[i := set_range b l (m ! i)]"
  shows "settled align m' (Suc i)" "reserved m' = reserved m" "usable m' \<subseteq> usable m" "no_wrap m \<Longrightarrow> no_wrap m'"
proof -
  note s = align_entry_spec [OF assms(3)] and r = align_entry_region [OF assms(3)]
  have sub: "region (m' ! k) \<subseteq> region (m ! k)" for k using r assms(1) by (cases "k = i") (simp_all add: m'_def)
  have ty: "mm_type (m' ! k) = mm_type (m ! k)" for k using assms(1) by (cases "k = i") (simp_all add: m'_def)
  have ap: "apart k 0 m \<Longrightarrow> apart k 0 m'" for k
    unfolding apart_def using sub [of k] sub by (simp add: m'_def) blast
  have "page_entry (set_range b l (m ! i))" using s(2,3) by (simp add: page_entry_def)
  moreover have "l \<noteq> 0" using s(4) by auto
  ultimately show "settled align m' (Suc i)"
    using assms(1,4,5) ap ty unfolding settled_def m'_def by (auto simp: less_Suc_eq nth_list_update)
  show "reserved m' = reserved m" using assms(2) by (simp add: m'_def reserved_update)
  show "usable m' \<subseteq> usable m" using sub ty by (auto simp: usable_def m'_def)
  assume nw: "no_wrap m"
  then have "unat (mm_base (m ! i)) + unat (mm_length (m ! i)) < 2 ^ 64"
    using assms(1) by (simp add: no_wrap_def list_all_length entry_top_Some)
  then have "unat b + unat l < 2 ^ 64" unfolding s(6) using div_times_less_eq_dividend le_less_trans by blast
  then have "entry_top (set_range b l (m ! i)) \<noteq> None" by (simp add: entry_top_def CHECKED_ADD_def)
  then show "no_wrap m'" using nw unfolding m'_def by (intro no_wrap_update)
qed

lemma overlap_pass_post:
  "overlap_pass align m i = Inr m' \<Longrightarrow> settled align m i \<Longrightarrow>
   settled align m' (length m') \<and> reserved m' = reserved m \<and> usable m' - reserved m \<subseteq> usable m - reserved m \<and>
   (\<not> align \<longrightarrow> usable m' - reserved m = usable m - reserved m) \<and> (no_wrap m \<longrightarrow> no_wrap m') \<and>
   (length m \<le> memmap_max_entries \<longrightarrow> length m' \<le> memmap_max_entries)"
proof (induction align m i rule: overlap_pass.induct)
  case (1 align m i)
  note run = "1.prems"(1) and set = "1.prems"(2)
  show ?case
  proof (cases "length m \<le> i")
    case True
    then show ?thesis using run set by (subst (asm) overlap_pass.simps) (auto simp: settled_def)
  next
    case i: False
    show ?thesis
    proof (cases "mm_type (m ! i) = MEMMAP_USABLE")
      case False
      have "settled align m (Suc i)" using set False by (auto simp: settled_def less_Suc_eq)
      moreover have "overlap_pass align m (Suc i) = Inr m'" using run i False by (subst (asm) overlap_pass.simps) simp
      ultimately show ?thesis using "1.IH"(1) [OF i False] by simp
    next
      case ty: True
      then have nty: "\<not> mm_type (m ! i) \<noteq> MEMMAP_USABLE" by simp
      obtain del m1 where l: "overlap_loop m i 0 = Inr (del, m1)"
        using run i ty by (subst (asm) overlap_pass.simps) (auto split: sum.splits)
      have post: "shrinks i m m1" "apart i 0 m1" "del \<Longrightarrow> region (m1 ! i) = {}"
          "length m \<le> memmap_max_entries \<Longrightarrow> length m1 \<le> memmap_max_entries"
        using overlap_loop_post [OF l _ ty] i by auto
      note sh = shrinksD [OF post(1)]
      have i1: "i < length m1" using sh(1) i by simp
      have gone: ?thesis if r: "overlap_pass align (remove_at i m1) 0 = Inr m'" and u: "align \<or> region (m1 ! i) = {}"
        and ih: "overlap_pass align (remove_at i m1) 0 = Inr m' \<Longrightarrow> settled align (remove_at i m1) 0 \<Longrightarrow>
          settled align m' (length m') \<and> reserved m' = reserved (remove_at i m1) \<and>
          usable m' - reserved (remove_at i m1) \<subseteq> usable (remove_at i m1) - reserved (remove_at i m1) \<and>
          (\<not> align \<longrightarrow> usable m' - reserved (remove_at i m1) = usable (remove_at i m1) - reserved (remove_at i m1)) \<and>
          (no_wrap (remove_at i m1) \<longrightarrow> no_wrap m') \<and>
          (length (remove_at i m1) \<le> memmap_max_entries \<longrightarrow> length m' \<le> memmap_max_entries)"
      proof -
        have st: "set m1 = insert (m1 ! i) (set (remove_at i m1))" using set_remove_at [OF i1] .
        have res: "reserved (remove_at i m1) = reserved m1" using st sh(2) by (auto simp: reserved_set)
        have us: "usable (remove_at i m1) \<subseteq> usable m1" using st by (auto simp: usable_set)
        have eq: "\<not> align \<Longrightarrow> usable (remove_at i m1) = usable m1" using u cover_remove_at(1) [OF i1] by blast
        have nw: "no_wrap m1 \<Longrightarrow> no_wrap (remove_at i m1)" using st by (auto simp: no_wrap_def list_all_iff)
        show ?thesis
          using ih [OF r settled_0] res us eq nw sh(6,7,9) post(4) by auto
      qed
      consider (del) "del \<or> mm_length (m1 ! i) = 0" | (plain) "\<not> (del \<or> mm_length (m1 ! i) = 0)" "\<not> align"
        | (none) "\<not> (del \<or> mm_length (m1 ! i) = 0)" align "align_entry (mm_base (m1 ! i)) (mm_length (m1 ! i)) = None"
        | (al) b l where "\<not> (del \<or> mm_length (m1 ! i) = 0)" align "align_entry (mm_base (m1 ! i)) (mm_length (m1 ! i)) = Some (b, l)"
        by (metis not_None_eq surj_pair)
      then show ?thesis
      proof cases
        case del
        have "overlap_pass align (remove_at i m1) 0 = Inr m'" using run i ty l del by (subst (asm) overlap_pass.simps) simp
        moreover have "region (m1 ! i) = {}" using del post(3) by (auto simp: region_def)
        ultimately show ?thesis using gone "1.IH"(2) [OF i nty l refl del] by blast
      next
        case plain
        then have "overlap_pass align m1 (Suc i) = Inr m'" using run i ty l by (subst (asm) overlap_pass.simps) simp
        moreover have "settled align m1 (Suc i)" using settled_shrinks [OF set post(1,2)] i plain by simp
        ultimately show ?thesis using "1.IH"(5) [OF i nty l refl plain] sh(6,7,9) post(4) by simp
      next
        case none
        have "overlap_pass align (remove_at i m1) 0 = Inr m'" using run i ty l none by (subst (asm) overlap_pass.simps) simp
        then show ?thesis using gone "1.IH"(3) [OF i nty l refl none] none(2) by blast
      next
        case al
        let ?m2 = "m1[i := set_range b l (m1 ! i)]"
        have r: "overlap_pass align ?m2 (Suc i) = Inr m'" using run i ty l al by (subst (asm) overlap_pass.simps) simp
        have "settled False m1 (Suc i)"
          using settled_shrinks [of False m i m1] set post(1,2) i al by (auto simp: settled_def)
        have "settled align m1 i"
          unfolding settled_def
        proof (intro allI impI)
          fix k assume k: "k < length m1" "k < i \<and> mm_type (m1 ! k) = MEMMAP_USABLE"
          then have "m1 ! k = m ! k" using sh(4) [of k] i by simp
          then show "mm_length (m1 ! k) \<noteq> 0 \<and> apart k 0 m1 \<and> (align \<longrightarrow> page_entry (m1 ! k))"
            using k i set \<open>settled False m1 (Suc i)\<close> by (auto simp: settled_def)
        qed
        note a = shrinks_align [OF i1 sh(2) al(3) this post(2)]
        show ?thesis
          using "1.IH"(4) [OF i nty l refl al(1,2,3) refl r a(1)] a(2,3,4) al(2) sh(6,7,9) post(4) by auto
      qed
    qed
  qed
qed

section \<open>Clipping, sorting and merging\<close>

function clip_pass :: "bool \<Rightarrow> memmap_entry list \<Rightarrow> nat \<Rightarrow> memmap_entry list" where
  "clip_pass keep_first m i =
     (if length m \<le> i then m
      else
        let e = m ! i; clip = (mm_type e = MEMMAP_USABLE \<and> \<not> keep_first \<and> mm_base e < 0x1000)
        in if clip \<and> (case entry_top e of None \<Rightarrow> True | Some tp \<Rightarrow> tp \<le> 0x1000) then clip_pass keep_first (remove_at i m) i
           else let e' = (if clip then set_range 0x1000 (mm_length e - (0x1000 - mm_base e)) e else e)
                in if mm_length e' = 0 then clip_pass keep_first (remove_at i m) i
                   else clip_pass keep_first (m[i := e']) (Suc i))"
  by pat_completeness auto
termination
  by (relation "measure (\<lambda>(k, m, i). length m - i)") auto

primrec min_loop :: "memmap_entry list \<Rightarrow> nat \<Rightarrow> nat \<Rightarrow> nat \<Rightarrow> nat" where
  "min_loop m i 0 min_index = min_index"
| "min_loop m i (Suc n) min_index = min_loop m (Suc i) n (if mm_base (m ! i) < mm_base (m ! min_index) then i else min_index)"

function sort_pass :: "memmap_entry list \<Rightarrow> nat \<Rightarrow> memmap_entry list" where
  "sort_pass m p =
     (if p + 1 < length m
      then let k = min_loop m p (length m - p) p
           in sort_pass (m[k := m ! p, p := m ! k]) (Suc p)
      else m)"
  by pat_completeness auto
termination
  by (relation "measure (\<lambda>(m, p). length m - p)") auto

definition mergeable :: "u32 \<Rightarrow> bool" where
  "mergeable t \<longleftrightarrow> t = MEMMAP_BOOTLOADER_RECLAIMABLE \<or> t = MEMMAP_RESERVED_MAPPED \<or> t = MEMMAP_KERNEL_AND_MODULES \<or> t = MEMMAP_USABLE"

function merge_pass :: "memmap_entry list \<Rightarrow> nat \<Rightarrow> memmap_entry list" where
  "merge_pass m i =
     (if length m \<le> i + 1 then m
      else if \<not> mergeable (mm_type (m ! i)) then merge_pass m (Suc i)
      else case entry_top (m ! i) of
        None \<Rightarrow> merge_pass m (Suc i)
      | Some merge_top \<Rightarrow>
          if mm_type (m ! (i + 1)) = mm_type (m ! i) \<and> mm_base (m ! (i + 1)) = merge_top then
            (case CHECKED_ADD (mm_length (m ! i)) (mm_length (m ! (i + 1))) of
               None \<Rightarrow> merge_pass m (Suc i)
             | Some l \<Rightarrow> merge_pass (take i m @ [(m ! i)\<lparr>mm_length := l\<rparr>] @ drop (i + 2) m) i)
          else merge_pass m (Suc i))"
  by pat_completeness auto
termination
  by (relation "measure (\<lambda>(m, i). length m - i)") auto

declare clip_pass.simps [simp del] sort_pass.simps [simp del] merge_pass.simps [simp del]

definition pmm_sanitise_entries :: "bool \<Rightarrow> memmap_entry list \<Rightarrow> bool \<Rightarrow> string + memmap_entry list" where
  "pmm_sanitise_entries keep_first m align =
     (case overlap_pass align m 0 of
        Inl msg \<Rightarrow> Inl msg
      | Inr m1 \<Rightarrow> Inr (merge_pass (sort_pass (clip_pass keep_first m1 0) 0) 0))"

section \<open>The sanitised map\<close>

definition clear :: "memmap_entry \<Rightarrow> memmap_entry \<Rightarrow> bool" where
  "clear e f \<longleftrightarrow> (mm_type e = MEMMAP_USABLE \<or> mm_type f = MEMMAP_USABLE \<longrightarrow> region e \<inter> region f = {})"

lemma clear_sym: "clear e f \<longleftrightarrow> clear f e"
  by (auto simp: clear_def)

lemma sorted_wrt_perm:
  assumes "\<And>x y. R x y \<Longrightarrow> R y x" and "mset xs = mset ys" and "sorted_wrt R xs"
  shows "sorted_wrt R ys"
  using assms(2,3)
proof (induction xs arbitrary: ys)
  case (Cons x xs)
  have "x \<in> set ys" using Cons.prems(1) by (metis list.set_intros(1) mset_eq_setD)
  then obtain us vs where ys: "ys = us @ x # vs" by (meson split_list)
  have m: "mset xs = mset (us @ vs)" using Cons.prems(1) by (simp add: ys)
  then have s: "set xs = set (us @ vs)" by (rule mset_eq_setD)
  have "sorted_wrt R (us @ vs)" using Cons.IH [OF m] Cons.prems(2) by simp
  then show ?case using Cons.prems(2) s assms(1) by (auto simp: ys sorted_wrt_append)
qed simp

lemma settled_clear: "settled align m (length m) \<Longrightarrow> sorted_wrt clear m"
  unfolding sorted_wrt_iff_nth_less settled_def apart_def clear_def by (metis inf_commute le0 less_irrefl order_less_trans)

definition cover :: "u32 \<Rightarrow> memmap_entry list \<Rightarrow> nat set" where
  "cover t m = (\<Union>e \<in> {e \<in> set m. mm_type e = t}. region e)"

lemma usable_cover: "usable m = cover MEMMAP_USABLE m"
  by (auto simp: usable_set cover_def)

lemma reserved_cover: "reserved m = (\<Union>t \<in> - {MEMMAP_USABLE}. cover t m)"
  by (auto simp: reserved_set cover_def)

lemma cover_mset: "mset m = mset m' \<Longrightarrow> cover t m = cover t m'"
  by (drule mset_eq_setD) (simp add: cover_def)

lemma min_loop_bounds:
  "best < length m \<Longrightarrow> i + n \<le> length m \<Longrightarrow>
     (min_loop m i n best = best \<or> i \<le> min_loop m i n best \<and> min_loop m i n best < i + n) \<and>
     mm_base (m ! min_loop m i n best) \<le> mm_base (m ! best) \<and>
     (\<forall>k. i \<le> k \<and> k < i + n \<longrightarrow> mm_base (m ! min_loop m i n best) \<le> mm_base (m ! k))"
proof (induction n arbitrary: i best)
  case (Suc n)
  define b where "b = (if mm_base (m ! i) < mm_base (m ! best) then i else best)"
  have b: "b < length m" "mm_base (m ! b) \<le> mm_base (m ! i)" "mm_base (m ! b) \<le> mm_base (m ! best)" "b = best \<or> b = i"
    using Suc.prems by (auto simp: b_def)
  note ih = Suc.IH [of b "Suc i"]
  have eq: "min_loop m i (Suc n) best = min_loop m (Suc i) n b" by (simp add: b_def)
  have "mm_base (m ! min_loop m (Suc i) n b) \<le> mm_base (m ! k)" if "i \<le> k" "k < i + Suc n" for k
    using ih b that Suc.prems by (cases "k = i") (auto intro: order_trans)
  then show ?case using ih b Suc.prems unfolding eq by (auto intro: order_trans)
qed auto

lemma sort_pass_post:
  "sorted (map mm_base (take p m)) \<Longrightarrow> (\<And>x y. x < p \<Longrightarrow> p \<le> y \<Longrightarrow> y < length m \<Longrightarrow> mm_base (m ! x) \<le> mm_base (m ! y)) \<Longrightarrow>
     sorted (map mm_base (sort_pass m p)) \<and> mset (sort_pass m p) = mset m"
proof (induction m p rule: sort_pass.induct)
  case (1 m p)
  show ?case
  proof (cases "p + 1 < length m")
    case False
    have "sorted (map mm_base m)"
    proof (cases "length m \<le> p")
      case True
      then show ?thesis using "1.prems"(1) by simp
    next
      case F: False
      then have l: "length m = Suc p" using False by simp
      then have m: "m = take p m @ [m ! p]" by (metis lessI take_Suc_conv_app_nth take_all order_refl)
      have "\<forall>b \<in> set (take p m). mm_base b \<le> mm_base (m ! p)"
        using "1.prems"(2) [of _ p] l by (auto simp: in_set_conv_nth)
      then have "sorted (map mm_base (take p m @ [m ! p]))" using "1.prems"(1) by (simp add: sorted_append)
      then show ?thesis using m by simp
    qed
    then show ?thesis using False by (subst (1 2) sort_pass.simps) simp
  next
    case True
    define k where "k = min_loop m p (length m - p) p"
    have k: "p \<le> k" "k < length m" "\<And>x. p \<le> x \<Longrightarrow> x < length m \<Longrightarrow> mm_base (m ! k) \<le> mm_base (m ! x)"
      using min_loop_bounds [of p m p "length m - p"] True by (auto simp: k_def)
    define m1 where "m1 = m[k := m ! p, p := m ! k]"
    have eq: "sort_pass m p = sort_pass m1 (Suc p)" using True by (subst sort_pass.simps) (simp add: m1_def k_def Let_def)
    have nth: "m1 ! x = (if x = p then m ! k else if x = k then m ! p else m ! x)" if "x < length m" for x
      using that True by (simp add: m1_def nth_list_update)
    have ms: "mset m1 = mset m" using k True mset_swap [of p m k] by (simp add: m1_def list_update_swap)
    have "take p m1 = take p m" using k by (simp add: m1_def)
    then have t: "take (Suc p) m1 = take p m @ [m ! k]" using True by (simp add: take_Suc_conv_app_nth m1_def)
    have "sorted (map mm_base (take (Suc p) m1))"
      unfolding t using "1.prems"(1) "1.prems"(2) [of _ k] k by (auto simp: sorted_append in_set_conv_nth)
    moreover have "mm_base (m1 ! x) \<le> mm_base (m1 ! y)" if "x < Suc p" "Suc p \<le> y" "y < length m1" for x y
    proof -
      have y: "y < length m" using that by (simp add: m1_def)
      show ?thesis
      proof (cases "x = p")
        case True
        then show ?thesis using that y k nth [of p] nth [of y] by auto
      next
        case False
        then show ?thesis using that y k nth [of x] nth [of y] "1.prems"(2) [of x y] "1.prems"(2) [of x p] by auto
      qed
    qed
    ultimately show ?thesis
      using "1.IH" [OF True refl] unfolding eq by (simp add: m1_def [unfolded k_def] ms [unfolded m1_def k_def])
  qed
qed

lemma clip_region:
  assumes "mm_base e < 0x1000" and "entry_top e = Some tp" and "\<not> tp \<le> 0x1000"
  defines "e' \<equiv> set_range 0x1000 (mm_length e - (0x1000 - mm_base e)) e"
  shows "region e' = region e - {..<4096}" "entry_top e' = Some tp" "page_entry e \<Longrightarrow> page_entry e'" "mm_length e' \<noteq> 0"
proof -
  have tp: "unat tp = unat (mm_base e) + unat (mm_length e)" using entry_top_le [OF assms(2)] by simp
  have b: "unat (mm_base e) < 4096" "4096 < unat tp" using assms(1,3) by (simp_all add: word_less_nat_alt word_le_nat_alt)
  have tpe: "tp = mm_base e + mm_length e" using assms(2) by (simp add: entry_top_def CHECKED_ADD_def split: if_splits)
  then have l: "mm_length e - (0x1000 - mm_base e) = tp - 0x1000" by simp
  have e': "e' = set_range 0x1000 (tp - 0x1000) e" unfolding e'_def l by (rule refl)
  have le: "0x1000 \<le> tp" using b by (simp add: word_le_nat_alt)
  show "entry_top e' = Some tp" unfolding e' using entry_top_range [OF le] .
  show "region e' = region e - {..<4096}"
    unfolding e' region_range [OF le] region_top [OF assms(2)] using b by auto
  have ul: "unat (tp - 0x1000) = unat tp - 4096" using b by (simp add: unat_sub word_le_nat_alt)
  then show "mm_length e' \<noteq> 0" using b by (auto simp: e')
  assume "page_entry e"
  then have "unat (mm_base e) = 0" "unat (mm_length e) mod 4096 = 0" using b by (auto simp: page_entry_def)
  then have "(unat tp - 4096) mod 4096 = 0" using tp b by (simp add: mod_if)
  then show "page_entry e'" by (simp add: e' page_entry_def ul)
qed

definition first_page :: "bool \<Rightarrow> nat set" where
  "first_page keep_first = (if keep_first then {} else {..<4096})"

definition all_nonempty :: "memmap_entry list \<Rightarrow> bool" where
  "all_nonempty m \<longleftrightarrow> list_all (\<lambda>e. mm_length e \<noteq> 0) m"

definition pages_usable :: "memmap_entry list \<Rightarrow> bool" where
  "pages_usable m \<longleftrightarrow> list_all (\<lambda>e. mm_type e = MEMMAP_USABLE \<longrightarrow> page_entry e) m"

lemma nth_remove_at: "k < i \<Longrightarrow> k < length m - 1 \<Longrightarrow> remove_at i m ! k = m ! k"
  by (simp add: remove_at_def nth_butlast)

lemma set_update_remove: "i < length m \<Longrightarrow> mset (m[i := e]) = add_mset e (mset (remove_at i m))"
  using mset_update [of i m e] mset_remove_at [of i m] by simp

lemma clear_remove_at:
  assumes "i < length m" "sorted_wrt clear m"
  shows "sorted_wrt clear (remove_at i m)" "y \<in> set (remove_at i m) \<Longrightarrow> clear (m ! i) y"
proof -
  have "mset m = mset (m ! i # remove_at i m)" using mset_remove_at [OF assms(1)] by simp
  from sorted_wrt_perm [OF _ this assms(2)] have "sorted_wrt clear (m ! i # remove_at i m)" using clear_sym by blast
  then show "sorted_wrt clear (remove_at i m)" "y \<in> set (remove_at i m) \<Longrightarrow> clear (m ! i) y" by simp_all
qed

lemma clear_update:
  assumes "i < length m" "sorted_wrt clear m" "region e \<subseteq> region (m ! i)" "mm_type e = mm_type (m ! i)"
  shows "sorted_wrt clear (m[i := e])"
proof -
  have "sorted_wrt clear (e # remove_at i m)"
    using clear_remove_at [OF assms(1,2)] assms(3,4) by (auto simp: clear_def)
  moreover have "mset (e # remove_at i m) = mset (m[i := e])" using set_update_remove [OF assms(1)] by simp
  ultimately show ?thesis using sorted_wrt_perm [of clear] clear_sym by blast
qed

lemma cover_split:
  assumes "i < length m"
  shows "cover t m = (if mm_type (m ! i) = t then region (m ! i) else {}) \<union> cover t (remove_at i m)"
    "cover t (m[i := e]) = (if mm_type e = t then region e else {}) \<union> cover t (remove_at i m)"
proof -
  show "cover t m = (if mm_type (m ! i) = t then region (m ! i) else {}) \<union> cover t (remove_at i m)"
    using set_remove_at [OF assms] by (auto simp: cover_def)
  have "set (m[i := e]) = insert e (set (remove_at i m))"
    using set_update_remove [OF assms, of e] by (metis set_mset_add_mset_insert set_mset_mset)
  then show "cover t (m[i := e]) = (if mm_type e = t then region e else {}) \<union> cover t (remove_at i m)"
    by (auto simp: cover_def)
qed

lemma list_all_remove_at: "list_all P m \<Longrightarrow> i < length m \<Longrightarrow> list_all P (remove_at i m)"
  using set_remove_at [of i m] by (auto simp: list_all_iff)

lemma list_all_update: "list_all P m \<Longrightarrow> P e \<Longrightarrow> list_all P (m[i := e])"
  by (auto simp: list_all_iff dest!: set_update_subset_insert [THEN subsetD])

text \<open>The second loop clips away the first page and drops empty entries.\<close>

definition clips :: "bool \<Rightarrow> memmap_entry list \<Rightarrow> memmap_entry list \<Rightarrow> bool" where
  "clips keep_first m m' \<longleftrightarrow> sorted_wrt clear m' \<and> cover MEMMAP_USABLE m' = cover MEMMAP_USABLE m - first_page keep_first \<and>
     (\<forall>t. t \<noteq> MEMMAP_USABLE \<longrightarrow> cover t m' = cover t m) \<and> (no_wrap m \<longrightarrow> no_wrap m') \<and>
     (pages_usable m \<longrightarrow> pages_usable m') \<and> length m' \<le> length m"

definition clipped :: "bool \<Rightarrow> memmap_entry list \<Rightarrow> nat \<Rightarrow> bool" where
  "clipped keep_first m i \<longleftrightarrow> (\<forall>k < length m. k < i \<longrightarrow>
     mm_length (m ! k) \<noteq> 0 \<and> (mm_type (m ! k) = MEMMAP_USABLE \<longrightarrow> region (m ! k) \<inter> first_page keep_first = {}))"

lemma clip_pass_post:
  "sorted_wrt clear m \<Longrightarrow> clipped keep_first m i \<Longrightarrow>
   clips keep_first m (clip_pass keep_first m i) \<and> all_nonempty (clip_pass keep_first m i)"
proof (induction keep_first m i rule: clip_pass.induct)
  case (1 keep_first m i)
  note cl = "1.prems"(1) and pre = "1.prems"(2)
  show ?case
  proof (cases "length m \<le> i")
    case True
    then have "clip_pass keep_first m i = m" by (subst clip_pass.simps) simp
    moreover have "cover MEMMAP_USABLE m \<inter> first_page keep_first = {}"
      using pre True by (auto simp: cover_def clipped_def in_set_conv_nth)
    ultimately show ?thesis using pre True cl by (auto simp: clips_def all_nonempty_def list_all_length clipped_def)
  next
    case F: False
    then have i: "i < length m" by simp
    let ?e = "m ! i"
    define clip where "clip = (mm_type ?e = MEMMAP_USABLE \<and> \<not> keep_first \<and> mm_base ?e < 0x1000)"
    define e' where "e' = (if clip then set_range 0x1000 (mm_length ?e - (0x1000 - mm_base ?e)) ?e else ?e)"
    define out where "out = (clip \<and> (case entry_top ?e of None \<Rightarrow> True | Some tp \<Rightarrow> tp \<le> 0x1000))"
    have eq: "clip_pass keep_first m i = (if out \<or> mm_length e' = 0 then clip_pass keep_first (remove_at i m) i
        else clip_pass keep_first (m[i := e']) (Suc i))"
      using F by (subst clip_pass.simps) (simp add: Let_def clip_def out_def e'_def)
    have ke: "region e' = region ?e - (if clip then first_page keep_first else {})" "page_entry ?e \<Longrightarrow> page_entry e'"
        "entry_top ?e \<noteq> None \<Longrightarrow> entry_top e' \<noteq> None" "mm_type e' = mm_type ?e" if "\<not> out"
      using that clip_region [of ?e]
      by (cases "entry_top ?e"; auto simp: out_def clip_def e'_def first_page_def split: option.splits)+
    have nc: "\<not> clip \<Longrightarrow> mm_type ?e = MEMMAP_USABLE \<Longrightarrow> region ?e \<inter> first_page keep_first = {}"
      by (auto simp: clip_def first_page_def region_def word_less_nat_alt split: if_splits)
    have res: "region ?e - first_page keep_first = {} \<and> (mm_type ?e \<noteq> MEMMAP_USABLE \<longrightarrow> region ?e = {})" if "out \<or> mm_length e' = 0"
    proof (cases out)
      case True
      then show ?thesis
        by (cases "entry_top ?e") (auto simp: out_def clip_def first_page_def region_top word_le_nat_alt)
    next
      case no: False
      then have "region e' = {}" using that by (auto simp: region_def)
      then show ?thesis using ke(1) [OF no] by (auto simp: clip_def split: if_splits)
    qed
    show ?thesis
    proof (cases "out \<or> mm_length e' = 0")
      case True
      let ?m = "remove_at i m"
      have "clipped keep_first ?m i" using pre by (auto simp: clipped_def nth_remove_at)
      moreover have "clip_pass keep_first m i = clip_pass keep_first ?m i" using eq True by simp
      moreover have "clips keep_first ?m (clip_pass keep_first ?m i) \<and> all_nonempty (clip_pass keep_first ?m i)"
        if c: "clipped keep_first ?m i"
      proof (cases out)
        case o: True
        show ?thesis using "1.IH"(1) [OF F refl refl o [unfolded out_def clip_def] clear_remove_at(1) [OF i cl] c] .
      next
        case o: False
        then have l: "mm_length e' = 0" using True by simp
        show ?thesis
          using "1.IH"(2) [OF F refl refl o [unfolded out_def clip_def] e'_def [unfolded clip_def] l clear_remove_at(1) [OF i cl] c] .
      qed
      ultimately have ih: "clips keep_first ?m (clip_pass keep_first m i)" "all_nonempty (clip_pass keep_first m i)" by auto
      have "cover MEMMAP_USABLE ?m - first_page keep_first = cover MEMMAP_USABLE m - first_page keep_first"
          "\<And>t. t \<noteq> MEMMAP_USABLE \<Longrightarrow> cover t ?m = cover t m"
        using cover_split(1) [OF i] res [OF True] by auto
      then show ?thesis using ih list_all_remove_at [OF _ i]
        by (auto simp: clips_def no_wrap_def pages_usable_def)
    next
      case no: False
      then have nout: "\<not> out" by simp
      let ?m = "m[i := e']"
      note ke = ke [OF nout]
      have re: "mm_type ?e = MEMMAP_USABLE \<Longrightarrow> region e' = region ?e - first_page keep_first" "mm_type ?e \<noteq> MEMMAP_USABLE \<Longrightarrow> region e' = region ?e"
        using ke(1) nc by (auto simp: clip_def)
      have "clipped keep_first ?m (Suc i)" using pre no ke(4) re i by (auto simp: clipped_def nth_list_update less_Suc_eq)
      moreover have "sorted_wrt clear ?m" using clear_update [OF i cl _ ke(4)] ke(1) by auto
      moreover have "clip_pass keep_first m i = clip_pass keep_first ?m (Suc i)" using eq no by simp
      moreover have "mm_length e' \<noteq> 0" using no by simp
      ultimately have ih: "clips keep_first ?m (clip_pass keep_first m i)" "all_nonempty (clip_pass keep_first m i)"
        using "1.IH"(3) [OF F refl refl nout [unfolded out_def clip_def] e'_def [unfolded clip_def]] by simp_all
      have "cover MEMMAP_USABLE ?m - first_page keep_first = cover MEMMAP_USABLE m - first_page keep_first"
          "\<And>t. t \<noteq> MEMMAP_USABLE \<Longrightarrow> cover t ?m = cover t m"
        using cover_split [OF i] re ke(4) by auto
      moreover have "no_wrap m \<longrightarrow> no_wrap ?m" "pages_usable m \<longrightarrow> pages_usable ?m"
        using ke(2,3,4) i by (auto simp: no_wrap_def pages_usable_def list_all_length intro!: list_all_update [unfolded list_all_length, rule_format] simp: nth_list_update)
      ultimately show ?thesis using ih by (auto simp: clips_def)
    qed
  qed
qed

text \<open>The result of the last three loops: sorted, free of conflicts, without empty or wrapping entries.\<close>

definition tidy :: "memmap_entry list \<Rightarrow> bool" where
  "tidy m \<longleftrightarrow> sorted (map mm_base m) \<and> sorted_wrt clear m \<and> no_wrap m \<and> all_nonempty m"

lemma merge_two:
  assumes "entry_top e = Some tp" "mm_base f = tp" "entry_top f \<noteq> None" "CHECKED_ADD (mm_length e) (mm_length f) = Some l"
  defines "g \<equiv> e\<lparr>mm_length := l\<rparr>"
  shows "region g = region e \<union> region f" "entry_top g = entry_top f" "mm_length e \<noteq> 0 \<Longrightarrow> mm_length g \<noteq> 0"
    "page_entry e \<Longrightarrow> page_entry f \<Longrightarrow> page_entry g"
proof -
  have tp: "unat tp = unat (mm_base e) + unat (mm_length e)" "tp = mm_base e + mm_length e"
    using assms(1) entry_top_le [OF assms(1)] by (auto simp: entry_top_def CHECKED_ADD_def split: if_splits)
  have l: "unat l = unat (mm_length e) + unat (mm_length f)" "l = mm_length e + mm_length f"
    using assms(4) CHECKED_ADD_unat [OF assms(4)] by (auto simp: CHECKED_ADD_def split: if_splits)
  obtain tf where tf: "entry_top f = Some tf" using assms(3) by auto
  have g: "entry_top g = Some tf"
    using tf tp l assms(2) by (auto simp: g_def entry_top_def CHECKED_ADD_def add.assoc split: if_splits)
  then show "entry_top g = entry_top f" using tf by simp
  show "region g = region e \<union> region f"
    unfolding region_top [OF g] region_top [OF tf] region_top [OF assms(1)] using entry_top_le [OF tf] tp assms(2)
    by (auto simp: g_def)
  show "mm_length g \<noteq> 0" if "mm_length e \<noteq> 0" using that l(1) by (auto simp: g_def simp flip: unat_eq_0)
  show "page_entry g" if "page_entry e" "page_entry f" using that l(1) by (auto simp: g_def page_entry_def mod_add_eq)
qed

lemma merge_pass_post:
  "tidy m \<Longrightarrow> tidy (merge_pass m i) \<and> (\<forall>t. cover t (merge_pass m i) = cover t m) \<and>
     (pages_usable m \<longrightarrow> pages_usable (merge_pass m i)) \<and> length (merge_pass m i) \<le> length m"
proof (induction m i rule: merge_pass.induct)
  case (1 m i)
  note tidy = "1.prems"
  show ?case
  proof (cases "length m \<le> i + 1 \<or> \<not> mergeable (mm_type (m ! i)) \<or> entry_top (m ! i) = None \<or>
      \<not> (mm_type (m ! (i + 1)) = mm_type (m ! i) \<and> Some (mm_base (m ! (i + 1))) = entry_top (m ! i)) \<or>
      CHECKED_ADD (mm_length (m ! i)) (mm_length (m ! (i + 1))) = None")
    case True
    then consider "length m \<le> i + 1" | "\<not> length m \<le> i + 1" "\<not> mergeable (mm_type (m ! i))"
      | "\<not> length m \<le> i + 1" "mergeable (mm_type (m ! i))" "entry_top (m ! i) = None"
      | tp where "\<not> length m \<le> i + 1" "mergeable (mm_type (m ! i))" "entry_top (m ! i) = Some tp"
          "\<not> (mm_type (m ! (i + 1)) = mm_type (m ! i) \<and> mm_base (m ! (i + 1)) = tp)"
      | tp where "\<not> length m \<le> i + 1" "mergeable (mm_type (m ! i))" "entry_top (m ! i) = Some tp"
          "mm_type (m ! (i + 1)) = mm_type (m ! i) \<and> mm_base (m ! (i + 1)) = tp"
          "CHECKED_ADD (mm_length (m ! i)) (mm_length (m ! (i + 1))) = None"
      by fastforce
    then show ?thesis
    proof cases
      case 1
      then show ?thesis using tidy by (subst (1 2 3 4) merge_pass.simps) simp
    next
      case 2
      then have "merge_pass m i = merge_pass m (Suc i)" by (subst merge_pass.simps) simp
      then show ?thesis using "1.IH"(1) 2 tidy by simp
    next
      case 3
      then have "merge_pass m i = merge_pass m (Suc i)" by (subst merge_pass.simps) simp
      then show ?thesis using "1.IH"(2) 3 tidy by simp
    next
      case 4
      then have "merge_pass m i = merge_pass m (Suc i)" by (subst merge_pass.simps) auto
      then show ?thesis using "1.IH"(5) 4 tidy by simp
    next
      case 5
      then have "merge_pass m i = merge_pass m (Suc i)" by (subst merge_pass.simps) simp
      then show ?thesis using "1.IH"(3) 5 tidy by simp
    qed
  next
    case False
    let ?e = "m ! i" and ?f = "m ! (i + 1)"
    obtain tp l where c: "\<not> length m \<le> i + 1" "\<not> \<not> mergeable (mm_type ?e)" "entry_top ?e = Some tp"
        "mm_type ?f = mm_type ?e \<and> mm_base ?f = tp" "CHECKED_ADD (mm_length ?e) (mm_length ?f) = Some l"
      using False by auto
    let ?g = "?e\<lparr>mm_length := l\<rparr>"
    let ?m = "take i m @ [?g] @ drop (i + 2) m"
    have eq: "merge_pass m i = merge_pass ?m i" using c by (subst merge_pass.simps) simp
    define A where "A = take i m"
    define B where "B = drop (i + 2) m"
    have m: "m = A @ ?e # ?f # B"
      using c(1) by (simp add: A_def B_def) (metis Cons_nth_drop_Suc add_2_eq_Suc' append_take_drop_id not_le Suc_eq_plus1 Suc_lessD)
    have m': "?m = A @ ?g # B" by (simp add: A_def B_def)
    have fne: "entry_top ?f \<noteq> None" using tidy c(1) by (simp add: tidy_def no_wrap_def list_all_length)
    note g = merge_two [OF c(3) _ fne c(5), OF c(4) [THEN conjunct2]]
    have gty: "mm_type ?g = mm_type ?e" "mm_type ?f = mm_type ?e" "mm_base ?g = mm_base ?e" using c(4) by simp_all
    from tidy have t: "sorted (map mm_base (A @ ?e # ?f # B))" "sorted_wrt clear (A @ ?e # ?f # B)"
        "no_wrap (A @ ?e # ?f # B)" "all_nonempty (A @ ?e # ?f # B)" unfolding tidy_def using m by metis+
    have "sorted (map mm_base (A @ ?g # B))" using t(1) gty by (auto simp: sorted_append)
    moreover have "sorted_wrt clear (A @ ?g # B)" using t(2) g(1) gty by (auto simp: sorted_wrt_append clear_def)
    moreover have "no_wrap (A @ ?g # B)" using t(3) g(2) by (auto simp: no_wrap_def)
    moreover have "all_nonempty (A @ ?g # B)" using t(4) g(3) by (auto simp: all_nonempty_def)
    ultimately have tm: "tidy ?m" unfolding m' tidy_def by blast
    have "cover t (A @ ?g # B) = cover t (A @ ?e # ?f # B)" for t
      using g(1) gty by (auto simp: cover_def)
    then have cov: "cover t ?m = cover t m" for t unfolding m' using m by metis
    have "pages_usable (A @ ?e # ?f # B) \<Longrightarrow> pages_usable (A @ ?g # B)" using g(4) gty by (auto simp: pages_usable_def)
    then have pg: "pages_usable m \<Longrightarrow> pages_usable ?m" unfolding m' using m by metis
    have "length ?m \<le> length m" using c(1) by simp
    then show ?thesis using "1.IH"(4) [OF c tm] cov pg unfolding eq by auto
  qed
qed

text \<open>The passes together; it is enough that nothing wraps around after the first one.\<close>

lemma sanitise_passes:
  assumes "pmm_sanitise_entries keep_first m align = Inr m'" and nw: "\<And>m1. overlap_pass align m 0 = Inr m1 \<Longrightarrow> no_wrap m1"
    and len: "length m \<le> memmap_max_entries"
  shows "tidy m'" "length m' \<le> memmap_max_entries" "reserved m' = reserved m" "align \<Longrightarrow> pages_usable m'"
    "usable m' \<subseteq> usable m - reserved m - first_page keep_first"
    "\<not> align \<Longrightarrow> usable m' = usable m - reserved m - first_page keep_first"
proof -
  obtain m1 where m1: "overlap_pass align m 0 = Inr m1" and m': "m' = merge_pass (sort_pass (clip_pass keep_first m1 0) 0) 0"
    using assms(1) by (auto simp: pmm_sanitise_entries_def split: sum.splits)
  note p = overlap_pass_post [OF m1 settled_0]
  have st: "settled align m1 (length m1)" using p by simp
  have cl: "sorted_wrt clear m1" using st by (rule settled_clear)
  have dis: "usable m1 \<inter> reserved m1 = {}" using st by (auto simp: usable_def reserved_def settled_def apart_def)
  define m2 where "m2 = clip_pass keep_first m1 0"
  have c: "clips keep_first m1 m2" "all_nonempty m2"
    using clip_pass_post [OF cl, of keep_first 0] by (auto simp: clipped_def m2_def)
  define m3 where "m3 = sort_pass m2 0"
  have s: "sorted (map mm_base m3)" "mset m3 = mset m2" using sort_pass_post [of 0 m2] by (auto simp: m3_def)
  have "sorted_wrt clear m3" using sorted_wrt_perm [of clear m2 m3] c(1) s(2) clear_sym by (auto simp: clips_def)
  moreover have "no_wrap m2" using c(1) nw [OF m1] by (simp add: clips_def)
  then have "no_wrap m3" using mset_eq_setD [OF s(2)] by (simp add: no_wrap_def list_all_iff)
  moreover have "all_nonempty m3" using c(2) mset_eq_setD [OF s(2)] by (simp add: all_nonempty_def list_all_iff)
  ultimately have "tidy m3" using s(1) by (simp add: tidy_def)
  from merge_pass_post [OF this, of 0] have t: "tidy m'" "\<And>t. cover t m' = cover t m3" "length m' \<le> length m3"
      "pages_usable m3 \<Longrightarrow> pages_usable m'"
    by (auto simp: m' m3_def m2_def)
  have cov: "cover t m' = cover t m2" for t using t(2) cover_mset [OF s(2)] by simp
  show "tidy m'" by (rule t(1))
  have r1: "reserved m1 = reserved m" using p by simp
  show "reserved m' = reserved m" using c(1) r1 by (simp add: reserved_cover cov clips_def)
  have u: "usable m' = usable m1 - first_page keep_first" using c(1) by (simp add: usable_cover cov clips_def)
  have u1: "usable m1 \<subseteq> usable m - reserved m" "\<not> align \<Longrightarrow> usable m1 = usable m - reserved m" using p dis r1 by auto
  show "usable m' \<subseteq> usable m - reserved m - first_page keep_first" using u u1 by auto
  show "usable m' = usable m - reserved m - first_page keep_first" if "\<not> align" using u u1 that by simp
  show "length m' \<le> memmap_max_entries"
    using t(3) c(1) p len mset_eq_length [OF s(2)] by (auto simp: clips_def)
  show "pages_usable m'" if align
  proof -
    have "pages_usable m1" using st that by (auto simp: settled_def pages_usable_def list_all_length)
    then have "pages_usable m2" using c(1) by (simp add: clips_def)
    then show ?thesis using t(4) mset_eq_setD [OF s(2)] by (auto simp: pages_usable_def list_all_iff)
  qed
qed

text \<open>A usable entry that wraps around is removed by the first pass as soon as there is another entry to compare it with.\<close>

definition reserved_no_wrap :: "memmap_entry list \<Rightarrow> bool" where
  "reserved_no_wrap m \<longleftrightarrow> list_all (\<lambda>e. mm_type e \<noteq> MEMMAP_USABLE \<longrightarrow> entry_top e \<noteq> None) m"

definition old_wraps :: "nat \<Rightarrow> memmap_entry list \<Rightarrow> memmap_entry list \<Rightarrow> bool" where
  "old_wraps i m m' \<longleftrightarrow> (\<forall>k < length m'. entry_top (m' ! k) = None \<longrightarrow> k < length m \<and> k \<noteq> i \<and> m' ! k = m ! k)"

lemma overlap_loop_old_wraps:
  "overlap_loop m i j = Inr (del, m') \<Longrightarrow> i < length m \<Longrightarrow> entry_top (m ! i) \<noteq> None \<Longrightarrow> old_wraps i m m'"
proof (induction m i j rule: overlap_loop.induct)
  case (1 m i j)
  note run = "1.prems"(1) and i = "1.prems"(2)
  obtain tp where ti: "entry_top (m ! i) = Some tp" using "1.prems"(3) by auto
  have same: "old_wraps i m m" using "1.prems"(3) by (auto simp: old_wraps_def)
  consider (fin) "length m \<le> j" | (self) "j < length m" "j = i" | (none) "j < length m" "j \<noteq> i" "entry_top (m ! j) = None"
    | (zero) rt where "j < length m" "j \<noteq> i" "entry_top (m ! j) = Some rt" "mm_length (m ! j) = 0"
    | (inside) rt where "j < length m" "j \<noteq> i" "entry_top (m ! j) = Some rt" "mm_length (m ! j) \<noteq> 0"
        "mm_base (m ! j) \<le> mm_base (m ! i) \<and> tp \<le> rt"
    | (cut) rt b t tail where "j < length m" "j \<noteq> i" "entry_top (m ! j) = Some rt" "mm_length (m ! j) \<noteq> 0"
        "\<not> (mm_base (m ! j) \<le> mm_base (m ! i) \<and> tp \<le> rt)" "cut (mm_base (m ! i)) tp (mm_base (m ! j)) rt = ((b, t), tail)"
    by (metis not_None_eq not_less surj_pair)
  then show ?case
  proof cases
    case fin
    then show ?thesis using run same by (subst (asm) overlap_loop.simps) simp
  next
    case self
    then have "overlap_loop m i (Suc j) = Inr (del, m')" using run i by (subst (asm) overlap_loop.simps) simp
    then show ?thesis using "1.IH"(1) self i "1.prems"(3) by simp
  next
    case none
    then have "overlap_loop m i (Suc j) = Inr (del, m')" using run i ti by (subst (asm) overlap_loop.simps) simp
    then show ?thesis using "1.IH"(2) none i ti by simp
  next
    case zero
    then have "overlap_loop m i (Suc j) = Inr (del, m')" using run i ti by (subst (asm) overlap_loop.simps) simp
    then show ?thesis using "1.IH"(3) zero i ti by simp
  next
    case inside
    then have m': "m' = m[i := set_range tp 0 (m ! i)]" using run i ti by (subst (asm) overlap_loop.simps) simp
    have "entry_top (set_range tp 0 (m ! i)) = Some tp" using entry_top_range [of tp tp "m ! i"] by simp
    then show ?thesis using i unfolding m' old_wraps_def by (auto simp: nth_list_update)
  next
    case cut
    note p = cut_pieces [OF cut(6) entry_top_le [OF ti, THEN conjunct1] entry_top_less [OF cut(3,4)] cut(5)]
    have e: "entry_top (set_range b (t - b) (m ! i)) = Some t" using p(2) by (rule entry_top_range)
    show ?thesis
    proof (cases tail)
      case None
      let ?m = "m[i := set_range b (t - b) (m ! i)]"
      have "overlap_loop ?m i (Suc j) = Inr (del, m')" using run i ti cut None by (subst (asm) overlap_loop.simps) simp
      then have "old_wraps i ?m m'" using "1.IH"(4) [OF _ cut(2) ti cut(3,4,5), of "(b, t)" None b t] cut(1,6) None i e by simp
      then show ?thesis by (auto simp: old_wraps_def nth_list_update)
    next
      case (Some pr)
      obtain tb tn where pr: "pr = (tb, tn)" by (cases pr)
      let ?f = "set_range tb tn (m ! i)"
      let ?m = "m[i := set_range b (t - b) (m ! i)] @ [?f]"
      have q: "tb = rt" "tn = tp - rt" "rt < tp" using p(6) [of tb tn] Some pr by auto
      then have f: "entry_top ?f = Some tp" using entry_top_range [of rt tp] by simp
      have r: "\<not> memmap_max_entries \<le> length m" "overlap_loop ?m i (Suc j) = Inr (del, m')"
        using run i ti cut Some pr by (subst (asm) overlap_loop.simps, simp split: if_splits)+
      have "i < length ?m" "entry_top (?m ! i) \<noteq> None" using i e by (simp_all add: nth_append)
      then have "old_wraps i ?m m'"
        using "1.IH"(5) [OF _ cut(2) ti cut(3,4,5) cut(6) [symmetric] refl Some pr [symmetric] r] i cut(1) by simp
      then have ow: "k < length ?m \<and> k \<noteq> i \<and> m' ! k = ?m ! k" if "k < length m'" "entry_top (m' ! k) = None" for k
        using that unfolding old_wraps_def by blast
      have "k < length m" if "k < length m'" "entry_top (m' ! k) = None" for k
      proof (rule ccontr)
        assume "\<not> k < length m"
        then have "?m ! k = ?f" using ow [OF that] by (simp add: nth_append)
        then show False using ow [OF that] that(2) f by simp
      qed
      moreover have "m' ! k = m ! k" if "k < length m'" "entry_top (m' ! k) = None" for k
        using ow [OF that] calculation [OF that] by (auto simp: nth_append)
      ultimately show ?thesis using ow unfolding old_wraps_def by simp
    qed
  qed
qed

lemma overlap_loop_wrapping:
  assumes "i < length m" "entry_top (m ! i) = None" "length m \<noteq> 1"
  shows "overlap_loop m i 0 = Inr (True, m)"
proof -
  have s: "overlap_loop m i j = Inr (True, m)" if "j < length m" "j \<noteq> i" for j
    using that assms by (subst overlap_loop.simps) simp
  show ?thesis
  proof (cases "i = 0")
    case True
    then have "overlap_loop m i 0 = overlap_loop m i 1" using assms(1) by (subst overlap_loop.simps) simp
    then show ?thesis using s [of 1] assms(1,3) True by simp
  next
    case False
    then show ?thesis using s [of 0] assms(1) by (cases m) simp_all
  qed
qed

lemma overlap_loop_single: "length m = 1 \<Longrightarrow> overlap_loop m 0 0 = Inr (False, m)"
  by (subst overlap_loop.simps, simp) (subst overlap_loop.simps, simp)

lemma reserved_no_wrap_shrinks:
  assumes "reserved_no_wrap m" "old_wraps i m m1"
  shows "reserved_no_wrap m1"
  using assms by (auto simp: reserved_no_wrap_def old_wraps_def list_all_length)

lemma reserved_no_wrap_remove: "reserved_no_wrap m \<Longrightarrow> i < length m \<Longrightarrow> reserved_no_wrap (remove_at i m)"
  unfolding reserved_no_wrap_def by (rule list_all_remove_at)

lemma overlap_pass_wrap:
  "overlap_pass align m i = Inr m' \<Longrightarrow> \<not> align \<Longrightarrow> reserved_no_wrap m \<Longrightarrow>
   length m = 1 \<or> (\<forall>k < length m. k < i \<longrightarrow> entry_top (m ! k) \<noteq> None) \<Longrightarrow>
   no_wrap m' \<or> (\<exists>w. m' = [w] \<and> entry_top w = None)"
proof (induction align m i rule: overlap_pass.induct)
  case (1 align m i)
  note run = "1.prems"(1) and na = "1.prems"(2) and rn = "1.prems"(3) and pre = "1.prems"(4)
  show ?case
  proof (cases "length m \<le> i")
    case True
    then have "m' = m" using run by (subst (asm) overlap_pass.simps) simp
    then show ?thesis using pre True by (cases m) (auto simp: no_wrap_def list_all_length)
  next
    case i: False
    show ?thesis
    proof (cases "mm_type (m ! i) = MEMMAP_USABLE")
      case False
      then have "entry_top (m ! i) \<noteq> None" using rn i by (auto simp: reserved_no_wrap_def list_all_length)
      moreover have "overlap_pass align m (Suc i) = Inr m'" using run i False by (subst (asm) overlap_pass.simps) simp
      ultimately show ?thesis using "1.IH"(1) [OF i False] na rn pre by (auto simp: less_Suc_eq)
    next
      case ty: True
      then have nty: "\<not> mm_type (m ! i) \<noteq> MEMMAP_USABLE" by simp
      obtain del m1 where l: "overlap_loop m i 0 = Inr (del, m1)"
        using run i ty by (subst (asm) overlap_pass.simps) (auto split: sum.splits)
      have sh: "shrinks i m m1" using overlap_loop_post [OF l _ ty] i by simp
      have i1: "i < length m1" using shrinksD(1) [OF sh] i by simp
      have rn1: "reserved_no_wrap m1 \<and> (\<not> del \<longrightarrow> length m1 = 1 \<or> (\<forall>k < length m1. k < Suc i \<longrightarrow> entry_top (m1 ! k) \<noteq> None))"
      proof (cases "length m = 1")
        case True
        then have "i = 0" using i by simp
        then have "m1 = m" using overlap_loop_single [OF True] l by simp
        then show ?thesis using rn True by simp
      next
        case len: False
        show ?thesis
        proof (cases "entry_top (m ! i) = None")
          case True
          then show ?thesis using overlap_loop_wrapping [OF _ True len] i l rn by simp
        next
          case False
          have ow: "old_wraps i m m1" using overlap_loop_old_wraps [OF l _ False] i by simp
          then show ?thesis using reserved_no_wrap_shrinks [OF rn ow] pre len by (fastforce simp: old_wraps_def less_Suc_eq)
        qed
      qed
      show ?thesis
      proof (cases "del \<or> mm_length (m1 ! i) = 0")
        case True
        have "overlap_pass align (remove_at i m1) 0 = Inr m'" using run i ty l True by (subst (asm) overlap_pass.simps) simp
        then show ?thesis using "1.IH"(2) [OF i nty l refl True] na rn1 reserved_no_wrap_remove i1 by simp
      next
        case False
        then have "overlap_pass align m1 (Suc i) = Inr m'" using run i ty l na by (subst (asm) overlap_pass.simps) simp
        then show ?thesis using "1.IH"(5) [OF i nty l refl False na] na rn1 False by simp
      qed
    qed
  qed
qed

text \<open>A map of which only a single wrapping entry is left stays that entry or becomes empty.\<close>

lemma sanitise_single:
  assumes "entry_top w = None"
  shows "set (merge_pass (sort_pass (clip_pass keep_first [w] 0) 0) 0) \<subseteq> {w}"
proof -
  have "mm_length w \<noteq> 0"
  proof
    assume "mm_length w = 0"
    then show False using assms unat_lt2p [of "mm_base w"] by (simp add: entry_top_def CHECKED_ADD_def)
  qed
  then have "clip_pass keep_first [w] 0 = [] \<or> clip_pass keep_first [w] 0 = [w]"
    using assms clip_pass.simps [of False "[]" 0] clip_pass.simps [of keep_first "[]" 0] clip_pass.simps [of keep_first "[w]" 0] clip_pass.simps [of keep_first "[w]" "Suc 0"]
    by (simp add: Let_def remove_at_def)
  moreover have "sort_pass x 0 = x" "merge_pass x 0 = x" if "length x \<le> 1" for x
    using that by (subst sort_pass.simps merge_pass.simps, simp)+
  ultimately show ?thesis by auto
qed

lemma sanitise_wrap:
  assumes "pmm_sanitise_entries keep_first m False = Inr m'" "reserved_no_wrap m" "length m \<le> memmap_max_entries"
  shows "(tidy m' \<and> length m' \<le> memmap_max_entries \<and> usable m' \<inter> first_page keep_first = {}) \<or> list_all (\<lambda>e. entry_top e = None) m'"
proof -
  obtain m1 where m1: "overlap_pass False m 0 = Inr m1" and m': "m' = merge_pass (sort_pass (clip_pass keep_first m1 0) 0) 0"
    using assms(1) by (auto simp: pmm_sanitise_entries_def split: sum.splits)
  have "no_wrap m1 \<or> (\<exists>w. m1 = [w] \<and> entry_top w = None)" by (rule overlap_pass_wrap [OF m1]) (use assms(2) in simp_all)
  then consider "no_wrap m1" | w where "m1 = [w]" "entry_top w = None" by blast
  then show ?thesis
  proof cases
    case 1
    then have "\<And>m2. overlap_pass False m 0 = Inr m2 \<Longrightarrow> no_wrap m2" using m1 by simp
    from sanitise_passes [OF assms(1) this assms(3)] show ?thesis by auto
  next
    case 2
    then show ?thesis using sanitise_single [of w keep_first] by (auto simp: m' list_all_iff)
  qed
qed

lemma sanitise_core:
  assumes "pmm_sanitise_entries keep_first m align = Inr m'" and "no_wrap m" and "length m \<le> memmap_max_entries"
  shows "tidy m'" "length m' \<le> memmap_max_entries" "reserved m' = reserved m" "align \<Longrightarrow> pages_usable m'"
    "usable m' \<subseteq> usable m - reserved m - first_page keep_first"
    "\<not> align \<Longrightarrow> usable m' = usable m - reserved m - first_page keep_first"
  using sanitise_passes [OF assms(1) _ assms(3)] overlap_pass_post [OF _ settled_0] assms(2) by blast+

text \<open>Property C6: sanitising the map gives a list that is sorted by base address, in which no usable entry
  meets any other entry, none is empty, and which describes the same memory: the usable addresses are
  those of the old map that no other kind of entry claims, without the first page if that is not kept, and
  the memory that is not usable is what it was.\<close>

theorem pmm_sanitise_entries_correct:
  assumes "pmm_sanitise_entries keep_first m False = Inr m'" and "no_wrap m" and "length m \<le> memmap_max_entries"
  shows "sorted (map mm_base m') \<and> sorted_wrt clear m' \<and> all_nonempty m' \<and> no_wrap m' \<and> length m' \<le> memmap_max_entries \<and>
     usable m' = usable m - reserved m - first_page keep_first \<and> reserved m' = reserved m"
  using sanitise_core [OF assms] by (simp add: tidy_def)

text \<open>Theorem: the map handed over to the kernel, aligned to pages: every usable entry consists of whole pages
  that were usable and claimed by no other entry.\<close>

theorem pmm_sanitise_entries_aligned:
  assumes "pmm_sanitise_entries keep_first m True = Inr m'" and "no_wrap m" and "length m \<le> memmap_max_entries"
  shows "sorted (map mm_base m') \<and> sorted_wrt clear m' \<and> pages_usable m' \<and>
     usable m' \<subseteq> usable m - reserved m - first_page keep_first \<and> reserved m' = reserved m"
  using sanitise_core [OF assms] by (simp add: tidy_def)

section \<open>Witnesses\<close>

definition mm :: "u64 \<Rightarrow> u64 \<Rightarrow> u32 \<Rightarrow> memmap_entry" where
  "mm b l t = \<lparr>mm_base = b, mm_length = l, mm_type = t, mm_unused = 0\<rparr>"

text \<open>A reserved hole inside a usable range that starts at address 0.\<close>

definition mm_test :: "memmap_entry list" where
  "mm_test = [mm 0 0x9000 1, mm 0x3000 0x2000 2]"

definition mm_result :: "memmap_entry list" where
  "mm_result = [mm 0x1000 0x2000 1, mm 0x3000 0x2000 2, mm 0x5000 0x4000 1]"

lemma mm_test_run: "pmm_sanitise_entries False mm_test False = Inr mm_result"
  by (simp add: pmm_sanitise_entries_def mm_test_def mm_result_def mm_def overlap_pass.simps overlap_loop.simps clip_pass.simps
      sort_pass.simps merge_pass.simps cut_def entry_top_def CHECKED_ADD_def Let_def MEMMAP_USABLE_def set_range_def
      remove_at_def memmap_max_entries_def mergeable_def MEMMAP_BOOTLOADER_RECLAIMABLE_def MEMMAP_RESERVED_MAPPED_def
      MEMMAP_KERNEL_AND_MODULES_def)

theorem pmm_sanitise_entries_correct_witness:
  "sorted (map mm_base mm_result) \<and> sorted_wrt clear mm_result \<and> all_nonempty mm_result \<and> no_wrap mm_result \<and>
     length mm_result \<le> memmap_max_entries \<and>
     usable mm_result = usable mm_test - reserved mm_test - first_page False \<and> reserved mm_result = reserved mm_test"
proof (rule pmm_sanitise_entries_correct [OF mm_test_run])
  show "no_wrap mm_test" by (simp add: no_wrap_def mm_test_def mm_def entry_top_def CHECKED_ADD_def)
  show "length mm_test \<le> memmap_max_entries" by (simp add: mm_test_def memmap_max_entries_def)
qed

end
