(* ===== verification/LoaderAlloc.thy ===== *)
theory LoaderAlloc
  imports LoaderMap
begin

text \<open>
  Allocation in the boot loader's memory map, \<^verbatim>\<open>limine/common/mm/pmm.s2.c\<close> and \<^verbatim>\<open>pmm.c\<close> (BIOS build, 32-bit
  code): claiming a range, the two allocators, freeing, and the queries. The padding field of an entry
  that the code appends without setting it is zero here; nothing reads it.
\<close>

section \<open>Claiming a range\<close>

text \<open>The loop of \<open>pmm_new_entry\<close> on \<open>[base, tp)\<close>; \<open>base \<le> tp\<close> holds for every caller.\<close>

definition nested_in :: "u64 \<Rightarrow> u64 \<Rightarrow> memmap_entry \<Rightarrow> bool" where
  "nested_in base tp e \<longleftrightarrow> base > mm_base e \<and> (case entry_top e of None \<Rightarrow> False | Some et \<Rightarrow> tp < et)"

function new_entry_loop :: "u64 \<Rightarrow> u64 \<Rightarrow> memmap_entry list \<Rightarrow> nat \<Rightarrow> string + memmap_entry list" where
  "new_entry_loop base tp m i =
     (if length m \<le> i \<or> tp < base then Inr m
      else case entry_top (m ! i) of
        None \<Rightarrow> new_entry_loop base tp m (Suc i)
      | Some et \<Rightarrow>
          let eb = mm_base (m ! i); el = mm_length (m ! i)
          in if base \<le> eb \<and> tp \<ge> et then new_entry_loop base tp (remove_at i m) i
             else if base \<le> eb \<and> tp < et \<and> tp > eb then
               new_entry_loop base tp (m[i := set_range (eb + (tp - eb)) (el - (tp - eb)) (m ! i)]) (Suc i)
             else if base > eb \<and> base < et \<and> tp \<ge> et then
               new_entry_loop base tp (m[i := set_range eb (el - (et - base)) (m ! i)]) (Suc i)
             else if base > eb \<and> tp < et then
               (if memmap_max_entries \<le> length m then Inl ''Memory map exhausted.''
                else new_entry_loop base tp (m[i := set_range eb (el - (et - base)) (m ! i)] @
                       [\<lparr>mm_base = tp, mm_length = et - tp, mm_type = mm_type (m ! i), mm_unused = 0\<rparr>]) (Suc i))
             else new_entry_loop base tp m (Suc i))"
  by pat_completeness auto

definition nested_from :: "u64 \<Rightarrow> u64 \<Rightarrow> memmap_entry list \<Rightarrow> nat \<Rightarrow> nat" where
  "nested_from base tp m i = length (filter (nested_in base tp) (drop i m))"

lemma nested_from_Suc: "i < length m \<Longrightarrow> nested_from base tp m i = (if nested_in base tp (m ! i) then 1 else 0) + nested_from base tp m (Suc i)"
  by (simp add: nested_from_def Cons_nth_drop_Suc [symmetric])

lemma nested_from_update: "i < length m \<Longrightarrow> nested_from base tp (m[i := e]) (Suc i) = nested_from base tp m (Suc i)"
  by (simp add: nested_from_def)

lemma mset_drop_remove_at:
  assumes "i < length m"
  shows "mset (drop i (remove_at i m)) = mset (drop (Suc i) m)"
proof -
  have t: "take i (remove_at i m) = take i m"
    using assms by (auto simp: remove_at_def take_butlast butlast_conv_take)
  have "mset m = mset (take i m) + mset (m ! i # drop (Suc i) m)"
    by (metis append_take_drop_id mset_append Cons_nth_drop_Suc assms)
  moreover have "mset (remove_at i m) = mset (take i m) + mset (drop i (remove_at i m))"
    by (metis append_take_drop_id mset_append t)
  ultimately show ?thesis using mset_remove_at [OF assms] by simp
qed

lemma nested_from_remove: "i < length m \<Longrightarrow> nested_from base tp (remove_at i m) i = nested_from base tp m (Suc i)"
  unfolding nested_from_def using mset_drop_remove_at [of i m] by (metis mset_filter size_mset)

termination new_entry_loop
proof (relation "measures [\<lambda>(b, t, m, i). nested_from b t m i, \<lambda>(b, t, m, i). length m - i]"; (simp; fail)?)
  fix base tp :: u64 and m i et x xa
  assume a: "\<not> (length m \<le> i \<or> tp < base)" "entry_top (m ! i) = Some et" "x = mm_base (m ! i)" "xa = mm_length (m ! i)"
    and n: "x < base \<and> tp < et"
  let ?f = "\<lparr>mm_base = tp, mm_length = et - tp, mm_type = mm_type (m ! i), mm_unused = 0\<rparr>"
  have "nested_in base tp (m ! i)" "\<not> nested_in base tp ?f" using a n by (auto simp: nested_in_def)
  then show "((base, tp, m[i := set_range x (xa - (et - base)) (m ! i)] @ [?f], Suc i), base, tp, m, i)
      \<in> measures [\<lambda>(b, t, m, i). nested_from b t m i, \<lambda>(b, t, m, i). length m - i]"
    using a(1) nested_from_Suc [of i m base tp] by (simp add: nested_from_def)
qed (auto simp: nested_from_Suc nested_from_update nested_from_remove)

declare new_entry_loop.simps [simp del]

definition pmm_new_entry :: "memmap_entry list \<Rightarrow> u64 \<Rightarrow> u64 \<Rightarrow> u32 \<Rightarrow> string + memmap_entry list" where
  "pmm_new_entry m base len ty =
     (case CHECKED_ADD base len of
        None \<Rightarrow> Inl ''pmm: Integer overflow in memory range calculation''
      | Some tp \<Rightarrow>
          case new_entry_loop base tp m 0 of
            Inl msg \<Rightarrow> Inl msg
          | Inr m1 \<Rightarrow>
              if memmap_max_entries \<le> length m1 then Inl ''Memory map exhausted.''
              else Inr (m1 @ [\<lparr>mm_base = base, mm_length = len, mm_type = ty, mm_unused = 0\<rparr>]))"

section \<open>What claiming a range does\<close>

definition span :: "u64 \<Rightarrow> u64 \<Rightarrow> nat set" where
  "span base tp = {unat base ..< unat tp}"

lemma region_span: "entry_top e = Some et \<Longrightarrow> region e = span (mm_base e) et"
  by (simp add: region_top span_def)

lemma entry_top_cong: "mm_base e = mm_base f \<Longrightarrow> mm_length e = mm_length f \<Longrightarrow> entry_top e = entry_top f"
  by (simp add: entry_top_def)

lemma span_entry:
  assumes "mm_base e = b" "mm_length e = t - b" "b \<le> t"
  shows "entry_top e = Some t" "region e = span b t"
proof -
  show "entry_top e = Some t" using entry_top_cong [of e "set_range b (t - b) e"] entry_top_range [OF assms(3)] assms by simp
  then show "region e = span b t" using region_span assms(1) by blast
qed

lemma cover_append: "cover t (m @ m') = cover t m \<union> cover t m'"
  by (auto simp: cover_def)

lemma cover_single: "cover t [e] = (if mm_type e = t then region e else {})"
  by (auto simp: cover_def)

lemma cover_replace:
  assumes "i < length m" "mm_type e = mm_type (m ! i)" "list_all (\<lambda>f. mm_type f = mm_type (m ! i)) es"
    "region e \<union> \<Union> (region ` set es) = region (m ! i) - X"
  shows "cover t (m[i := e] @ es) - X = cover t m - X"
proof -
  have "cover t es = (if mm_type (m ! i) = t then \<Union> (region ` set es) else {})"
    using assms(3) by (auto simp: cover_def list_all_iff)
  then show ?thesis unfolding cover_append cover_split [OF assms(1)] using assms(2,4) by auto
qed

lemma new_entry_loop_post:
  "new_entry_loop base tp m i = Inr m' \<Longrightarrow> base \<le> tp \<Longrightarrow> list_all (\<lambda>e. region e \<inter> span base tp = {}) (take i m) \<Longrightarrow>
   (\<forall>t. cover t m' = cover t m - span base tp) \<and> (no_wrap m \<longrightarrow> no_wrap m') \<and>
   (length m \<le> memmap_max_entries \<longrightarrow> length m' \<le> memmap_max_entries)"
proof (induction base tp m i rule: new_entry_loop.induct)
  case (1 base tp m i)
  note run = "1.prems"(1) and bt = "1.prems"(2) and pre = "1.prems"(3)
  let ?X = "span base tp"
  show ?case
  proof (cases "length m \<le> i")
    case True
    then have "m' = m" using run by (subst (asm) new_entry_loop.simps) simp
    moreover have "cover t m \<inter> ?X = {}" for t using pre True by (auto simp: cover_def list_all_iff)
    ultimately show ?thesis by (auto simp: Diff_triv)
  next
    case False
    then have i: "i < length m" and g: "\<not> (length m \<le> i \<or> tp < base)" using bt by auto
    have keep: "list_all (\<lambda>e. region e \<inter> ?X = {}) (take (Suc i) (m[i := e] @ es))" if "region e \<inter> ?X = {}" for e es
      using pre that i by (simp add: take_Suc_conv_app_nth)
    have step: ?thesis
      if r: "new_entry_loop base tp (m[i := e] @ es) (Suc i) = Inr m'"
        and e: "mm_type e = mm_type (m ! i)" "list_all (\<lambda>f. mm_type f = mm_type (m ! i)) es"
          "region e \<union> \<Union> (region ` set es) = region (m ! i) - ?X" "entry_top (m ! i) \<noteq> None \<Longrightarrow> list_all (\<lambda>f. entry_top f \<noteq> None) (e # es)"
        and l: "length m \<le> memmap_max_entries \<Longrightarrow> length m + length es \<le> memmap_max_entries"
        and ih: "new_entry_loop base tp (m[i := e] @ es) (Suc i) = Inr m' \<Longrightarrow> base \<le> tp \<Longrightarrow>
          list_all (\<lambda>e. region e \<inter> ?X = {}) (take (Suc i) (m[i := e] @ es)) \<Longrightarrow>
          (\<forall>t. cover t m' = cover t (m[i := e] @ es) - ?X) \<and> (no_wrap (m[i := e] @ es) \<longrightarrow> no_wrap m') \<and>
          (length (m[i := e] @ es) \<le> memmap_max_entries \<longrightarrow> length m' \<le> memmap_max_entries)" for e es
    proof -
      have "no_wrap (m[i := e] @ es)" if nw: "no_wrap m"
      proof -
        have "entry_top (m ! i) \<noteq> None" using nw i by (simp add: no_wrap_def list_all_length)
        then have "entry_top e \<noteq> None" "list_all (\<lambda>f. entry_top f \<noteq> None) es" using e(4) by auto
        then show ?thesis using no_wrap_update [OF nw, of e i] by (simp add: no_wrap_def)
      qed
      moreover have "region e \<inter> ?X = {}" using e(3) by auto
      ultimately show ?thesis
        using ih [OF r bt keep] cover_replace [OF i e(1-3)] l by simp
    qed
    show ?thesis
    proof (cases "entry_top (m ! i)")
      case None
      then have "new_entry_loop base tp (m[i := m ! i] @ []) (Suc i) = Inr m'" using run g by (subst (asm) new_entry_loop.simps) simp
      then show ?thesis using step [of "m ! i" "[]"] "1.IH"(1) [OF g None] None by simp
    next
      case et: (Some et)
      define eb el where "eb = mm_base (m ! i)" and "el = mm_length (m ! i)"
      have ete: "et = eb + el" "eb \<le> et" using et entry_top_le [OF et] by (auto simp: eb_def el_def entry_top_def CHECKED_ADD_def split: if_splits)
      have re: "region (m ! i) = span eb et" using region_span [OF et] by (simp add: eb_def)
      consider (full) "base \<le> eb \<and> tp \<ge> et"
        | (bottom) "\<not> (base \<le> eb \<and> tp \<ge> et)" "base \<le> eb \<and> tp < et \<and> tp > eb"
        | (high) "\<not> (base \<le> eb \<and> tp \<ge> et)" "\<not> (base \<le> eb \<and> tp < et \<and> tp > eb)" "base > eb \<and> base < et \<and> tp \<ge> et"
        | (inside) "\<not> (base \<le> eb \<and> tp \<ge> et)" "\<not> (base \<le> eb \<and> tp < et \<and> tp > eb)"
            "\<not> (base > eb \<and> base < et \<and> tp \<ge> et)" "base > eb \<and> tp < et"
        | (none) "\<not> (base \<le> eb \<and> tp \<ge> et)" "\<not> (base \<le> eb \<and> tp < et \<and> tp > eb)"
            "\<not> (base > eb \<and> base < et \<and> tp \<ge> et)" "\<not> (base > eb \<and> tp < et)" by blast
      then show ?thesis
      proof cases
        case full
        have r: "new_entry_loop base tp (remove_at i m) i = Inr m'"
          using run g et full by (subst (asm) new_entry_loop.simps) (simp add: Let_def eb_def)
        have "take i (remove_at i m) = take i m" using i by (auto simp: remove_at_def take_butlast butlast_conv_take)
        then have "list_all (\<lambda>e. region e \<inter> ?X = {}) (take i (remove_at i m))" using pre by simp
        note ih = "1.IH"(2) [OF g et refl refl full [unfolded eb_def] r bt this]
        have "span eb et \<subseteq> ?X" using full by (auto simp: span_def word_le_nat_alt)
        then have "cover t (remove_at i m) - ?X = cover t m - ?X" for t using cover_split(1) [OF i, of t] re by auto
        then show ?thesis using ih i list_all_remove_at [OF _ i] by (auto simp: no_wrap_def)
      next
        case bottom
        let ?e = "set_range (eb + (tp - eb)) (el - (tp - eb)) (m ! i)"
        have r: "new_entry_loop base tp (m[i := ?e] @ []) (Suc i) = Inr m'"
          using run g et bottom by (subst (asm) new_entry_loop.simps) (simp add: Let_def eb_def el_def)
        have le: "tp \<le> et" using bottom by simp
        have "mm_base ?e = tp" "mm_length ?e = et - tp" using ete by simp_all
        note s = span_entry [OF this le]
        have "region ?e = region (m ! i) - ?X" unfolding s(2) re using bottom by (auto simp: span_def word_le_nat_alt word_less_nat_alt)
        then show ?thesis
          using step [OF r] "1.IH"(3) [OF g et refl refl bottom [unfolded eb_def]] s(1) by (simp add: eb_def el_def)
      next
        case high
        let ?e = "set_range eb (el - (et - base)) (m ! i)"
        have r: "new_entry_loop base tp (m[i := ?e] @ []) (Suc i) = Inr m'"
          using run g et high by (subst (asm) new_entry_loop.simps) (auto simp add: Let_def eb_def el_def split: if_splits)
        have le: "eb \<le> base" using high by simp
        have "mm_base ?e = eb" "mm_length ?e = base - eb" using ete by simp_all
        note s = span_entry [OF this le]
        have "region ?e = region (m ! i) - ?X" unfolding s(2) re using high by (auto simp: span_def word_le_nat_alt word_less_nat_alt)
        then show ?thesis
          using step [OF r] "1.IH"(4) [OF g et refl refl high [unfolded eb_def]] s(1) by (simp add: eb_def el_def)
      next
        case inside
        let ?e = "set_range eb (el - (et - base)) (m ! i)"
        let ?f = "\<lparr>mm_base = tp, mm_length = et - tp, mm_type = mm_type (m ! i), mm_unused = 0\<rparr>"
        have mx: "\<not> memmap_max_entries \<le> length m" and r: "new_entry_loop base tp (m[i := ?e] @ [?f]) (Suc i) = Inr m'"
          using run g et inside by (subst (asm) new_entry_loop.simps; auto simp add: Let_def eb_def el_def split: if_splits)+
        have le: "eb \<le> base" "tp \<le> et" using inside(4) by (simp_all add: less_imp_le)
        have "mm_base ?e = eb" "mm_length ?e = base - eb" using ete by simp_all
        note s = span_entry [OF this le(1)]
        have f: "entry_top ?f = Some et" "region ?f = span tp et" using span_entry [of ?f tp et] le by simp_all
        have "region ?e \<union> region ?f = region (m ! i) - ?X"
          unfolding s(2) f(2) re using inside bt by (auto simp: span_def word_le_nat_alt word_less_nat_alt)
        then show ?thesis
          using step [OF r] "1.IH"(5) [OF g et refl refl inside [unfolded eb_def] mx] s(1) f(1) mx by (simp add: eb_def el_def)
      next
        case none
        have r: "new_entry_loop base tp (m[i := m ! i] @ []) (Suc i) = Inr m'"
          using run g et none by (subst (asm) new_entry_loop.simps) (auto simp add: Let_def eb_def el_def split: if_splits)
        have "region (m ! i) = region (m ! i) - ?X"
          unfolding re using none by (auto simp: span_def word_le_nat_alt word_less_nat_alt)
        then show ?thesis
          using step [OF r] "1.IH"(6) [OF g et refl refl none [unfolded eb_def]] et by simp
      qed
    qed
  qed
qed

lemma new_entry_post:
  assumes "pmm_new_entry m base len ty = Inr m'"
  obtains tp where "CHECKED_ADD base len = Some tp" "\<And>t. cover t m' = cover t m - span base tp \<union> (if t = ty then span base tp else {})"
    "no_wrap m \<Longrightarrow> no_wrap m'" "length m' \<le> memmap_max_entries"
proof -
  obtain tp m1 where tp: "CHECKED_ADD base len = Some tp" and l: "new_entry_loop base tp m 0 = Inr m1" "\<not> memmap_max_entries \<le> length m1"
      and m': "m' = m1 @ [\<lparr>mm_base = base, mm_length = len, mm_type = ty, mm_unused = 0\<rparr>]"
    using assms by (auto simp: pmm_new_entry_def split: option.splits sum.splits if_splits)
  let ?e = "\<lparr>mm_base = base, mm_length = len, mm_type = ty, mm_unused = 0\<rparr>"
  have et: "entry_top ?e = Some tp" using tp by (simp add: entry_top_def)
  have "base \<le> tp" using entry_top_le [OF et] by simp
  note p = new_entry_loop_post [OF l(1) this]
  have "region ?e = span base tp" using region_span [OF et] by simp
  then have "cover t m' = cover t m - span base tp \<union> (if t = ty then span base tp else {})" for t
    using p unfolding m' cover_append cover_single by simp
  then show ?thesis using that [OF tp] p l(2) et by (simp add: m' no_wrap_append)
qed

section \<open>memmap_alloc_range\<close>

definition fits :: "u64 \<Rightarrow> u64 \<Rightarrow> u32 \<Rightarrow> memmap_entry \<Rightarrow> bool" where
  "fits base tp overlay_type e \<longleftrightarrow>
     (overlay_type = 0 \<or> mm_type e = overlay_type) \<and>
     (case entry_top e of None \<Rightarrow> False | Some et \<Rightarrow> base \<ge> mm_base e \<and> base < et \<and> tp \<le> et)"

definition claim :: "bool \<Rightarrow> memmap_entry list \<Rightarrow> u64 \<Rightarrow> u64 \<Rightarrow> u32 \<Rightarrow> string + (bool \<times> memmap_entry list)" where
  "claim keep_first m base len ty =
     (case pmm_new_entry m base len ty of
        Inl msg \<Rightarrow> Inl msg
      | Inr m1 \<Rightarrow>
          case pmm_sanitise_entries keep_first m1 False of
            Inl msg \<Rightarrow> Inl msg
          | Inr m2 \<Rightarrow> Inr (True, m2))"

definition memmap_alloc_range_in ::
  "bool \<Rightarrow> memmap_entry list \<Rightarrow> u64 \<Rightarrow> u64 \<Rightarrow> u32 \<Rightarrow> u32 \<Rightarrow> bool \<Rightarrow> bool \<Rightarrow> bool \<Rightarrow> string + (bool \<times> memmap_entry list)" where
  "memmap_alloc_range_in keep_first m base len ty overlay_type do_panic simulation new_entry =
     (if len = 0 \<or> simulation \<and> new_entry then Inr (True, m)
      else case CHECKED_ADD base len of
        None \<Rightarrow> if do_panic then Inl ''Memory allocation overflow.'' else Inr (False, m)
      | Some tp \<Rightarrow>
          if list_ex (fits base tp overlay_type) m then (if simulation then Inr (True, m) else claim keep_first m base len ty)
          else if \<not> new_entry \<and> do_panic then Inl ''Memory allocation failure.''
          else if \<not> new_entry then Inr (False, m)
          else claim keep_first m base len ty)"

text \<open>The invariant of the map: at most 512 entries, none wraps around or is empty, sorted, and usable memory is
  claimed by no other entry.\<close>

definition sane :: "bool \<Rightarrow> memmap_entry list \<Rightarrow> bool" where
  "sane keep_first m \<longleftrightarrow> tidy m \<and> length m \<le> memmap_max_entries \<and> usable m \<inter> first_page keep_first = {}"

lemma tidy_disjoint: "tidy m \<Longrightarrow> usable m \<inter> reserved m = {}"
proof -
  assume "tidy m"
  then have s: "sorted_wrt clear m" by (simp add: tidy_def)
  have "region (m ! k) \<inter> region (m ! l) = {}" if kl: "k < length m" "l < length m" "mm_type (m ! k) = MEMMAP_USABLE" "mm_type (m ! l) \<noteq> MEMMAP_USABLE" for k l
  proof -
    consider "k < l" | "l < k" using kl by (metis linorder_less_linear)
    then have "clear (m ! k) (m ! l)" using s kl clear_sym unfolding sorted_wrt_iff_nth_less by cases blast+
    then show ?thesis using kl by (simp add: clear_def)
  qed
  then show ?thesis unfolding usable_def reserved_def by blast
qed

lemma sanitise_sane:
  assumes "pmm_sanitise_entries keep_first m False = Inr m'" "no_wrap m" "length m \<le> memmap_max_entries"
  shows "sane keep_first m'"
  using sanitise_core [OF assms] by (auto simp: sane_def)

lemma claim_post:
  assumes "claim keep_first m base len ty = Inr (ok, m')" and "sane keep_first m"
  obtains tp where "ok" "CHECKED_ADD base len = Some tp" "sane keep_first m'"
    "usable m' = (if ty = MEMMAP_USABLE then usable m \<union> span base tp - first_page keep_first else usable m - span base tp)"
    "reserved m' = (if ty = MEMMAP_USABLE then reserved m - span base tp else reserved m \<union> span base tp)"
proof -
  obtain m1 where m1: "pmm_new_entry m base len ty = Inr m1" and s: "pmm_sanitise_entries keep_first m1 False = Inr m'" and ok
    using assms(1) by (auto simp: claim_def split: sum.splits)
  have nw: "no_wrap m" and us: "usable m \<inter> reserved m = {}" "usable m \<inter> first_page keep_first = {}"
    using assms(2) tidy_disjoint by (auto simp: sane_def tidy_def)
  obtain tp where tp: "CHECKED_ADD base len = Some tp"
      and cov: "\<And>t. cover t m1 = cover t m - span base tp \<union> (if t = ty then span base tp else {})"
      and m1': "no_wrap m1" "length m1 \<le> memmap_max_entries"
    using new_entry_post [OF m1] nw by metis
  note c = sanitise_core [OF s m1']
  have u1: "usable m1 = usable m - span base tp \<union> (if ty = MEMMAP_USABLE then span base tp else {})"
    unfolding usable_cover cov by auto
  have r1: "reserved m1 = reserved m - span base tp \<union> (if ty = MEMMAP_USABLE then {} else span base tp)"
  proof -
    have "(\<Union>t \<in> S. A t - X \<union> (if t = ty then X else {})) = (\<Union>t \<in> S. A t) - X \<union> (if ty \<in> S then X else {})"
      for A :: "u32 \<Rightarrow> nat set" and S X by (auto split: if_splits) metis
    then show ?thesis unfolding reserved_cover cov by (simp only:) simp
  qed
  have "usable m' = (if ty = MEMMAP_USABLE then usable m \<union> span base tp - first_page keep_first else usable m - span base tp)"
    using c(6) us unfolding u1 r1 by auto
  moreover have "reserved m' = (if ty = MEMMAP_USABLE then reserved m - span base tp else reserved m \<union> span base tp)"
    using c(3) unfolding r1 by auto
  ultimately show ?thesis using that [OF \<open>ok\<close> tp sanitise_sane [OF s m1']] by blast
qed

section \<open>The allocators\<close>

text \<open>The globals of the allocator. \<open>ebda\<close> is the start of the extended BIOS data area, \<open>e820_map\<close> the map the BIOS
  reports and \<open>bss_end\<close> the end of the loader's image.\<close>

record loader_state =
  memmap :: "memmap_entry list"
  allocations_disallowed :: bool
  conv_base :: u64
  keep_first_page :: bool
  loader_mem :: memory
  e820_map :: "memmap_entry list"
  ebda :: u64
  bss_end :: u64

definition zero_fill :: "u64 \<Rightarrow> u64 \<Rightarrow> memory \<Rightarrow> memory" where
  "zero_fill a n m = (\<lambda>x. if in_range a (unat n) x then 0 else m x)"

definition sanitise :: "bool \<Rightarrow> loader_state \<Rightarrow> string + loader_state" where
  "sanitise align s =
     (case pmm_sanitise_entries (keep_first_page s) (memmap s) align of
        Inl msg \<Rightarrow> Inl msg
      | Inr m \<Rightarrow> Inr (s\<lparr>memmap := m\<rparr>))"

definition memmap_alloc_range ::
  "u64 \<Rightarrow> u64 \<Rightarrow> u32 \<Rightarrow> u32 \<Rightarrow> bool \<Rightarrow> bool \<Rightarrow> bool \<Rightarrow> loader_state \<Rightarrow> string + (bool \<times> loader_state)" where
  "memmap_alloc_range base len ty overlay_type do_panic simulation new_entry s =
     (case memmap_alloc_range_in (keep_first_page s) (memmap s) base len ty overlay_type do_panic simulation new_entry of
        Inl msg \<Rightarrow> Inl msg
      | Inr (ok, m) \<Rightarrow> Inr (ok, s\<lparr>memmap := m\<rparr>))"

text \<open>The range one entry offers below \<open>limit\<close>: the highest aligned one that is large enough.\<close>

definition offer :: "u64 \<Rightarrow> u64 \<Rightarrow> u64 \<Rightarrow> memmap_entry \<Rightarrow> (u64 \<times> u64) option" where
  "offer limit cnt alignment e =
     (if mm_type e \<noteq> 1 then None
      else case entry_top e of
        None \<Rightarrow> None
      | Some et \<Rightarrow>
          let tp = (if et > limit then limit else et)
          in if et > limit \<and> mm_base e \<ge> tp then None
             else if tp - mm_base e < cnt then None
             else let alloc_base = ALIGN_DOWN (tp - cnt) alignment
                  in if alloc_base < mm_base e then None else Some (alloc_base, tp - alloc_base))"

primrec first_offer :: "u64 \<Rightarrow> u64 \<Rightarrow> u64 \<Rightarrow> memmap_entry list \<Rightarrow> (u64 \<times> u64) option" where
  "first_offer limit cnt alignment [] = None"
| "first_offer limit cnt alignment (e # m) =
     (case offer limit cnt alignment e of None \<Rightarrow> first_offer limit cnt alignment m | Some r \<Rightarrow> Some r)"

definition find_offer :: "u64 \<Rightarrow> u64 \<Rightarrow> bool \<Rightarrow> memmap_entry list \<Rightarrow> (u64 \<times> u64) option" where
  "find_offer cnt alignment allow_high_allocs m =
     (case first_offer 0x100000000 cnt alignment (rev m) of
        Some r \<Rightarrow> Some r
      | None \<Rightarrow> if allow_high_allocs then first_offer 0xFFFFFFFFFFFFFFFF cnt alignment (rev m) else None)"

definition ext_mem_alloc_type_aligned_mode :: "u64 \<Rightarrow> u32 \<Rightarrow> u64 \<Rightarrow> bool \<Rightarrow> loader_state \<Rightarrow> string + (u64 \<times> loader_state)" where
  "ext_mem_alloc_type_aligned_mode cnt ty alignment allow_high_allocs s =
     (case CHECKED_ADD (if cnt = 0 then 1 else cnt) (alignment - 1) of
        None \<Rightarrow> Inl ''ext_mem_alloc: count overflows when aligning''
      | Some c \<Rightarrow>
          let n = ALIGN_DOWN c alignment
          in if allocations_disallowed s then Inl ''Memory allocations disallowed''
             else case find_offer n alignment allow_high_allocs (memmap s) of
                    None \<Rightarrow> Inl ''High memory allocator: Out of memory''
                  | Some (alloc_base, aligned_length) \<Rightarrow>
                      case memmap_alloc_range alloc_base aligned_length ty MEMMAP_USABLE True False False s of
                        Inl msg \<Rightarrow> Inl msg
                      | Inr (_, s1) \<Rightarrow>
                          let s2 = (if allow_high_allocs then s1 else s1\<lparr>loader_mem := zero_fill alloc_base n (loader_mem s1)\<rparr>)
                          in case sanitise False s2 of Inl msg \<Rightarrow> Inl msg | Inr s3 \<Rightarrow> Inr (alloc_base, s3))"

definition ext_mem_alloc_type_aligned :: "u64 \<Rightarrow> u32 \<Rightarrow> u64 \<Rightarrow> loader_state \<Rightarrow> string + (u64 \<times> loader_state)" where
  "ext_mem_alloc_type_aligned cnt ty alignment = ext_mem_alloc_type_aligned_mode cnt ty alignment False"

definition ext_mem_alloc_type :: "u64 \<Rightarrow> u32 \<Rightarrow> loader_state \<Rightarrow> string + (u64 \<times> loader_state)" where
  "ext_mem_alloc_type cnt ty = ext_mem_alloc_type_aligned cnt ty 4096"

definition ext_mem_alloc :: "u64 \<Rightarrow> loader_state \<Rightarrow> string + (u64 \<times> loader_state)" where
  "ext_mem_alloc cnt = ext_mem_alloc_type cnt MEMMAP_BOOTLOADER_RECLAIMABLE"

definition ext_mem_alloc_counted :: "u64 \<Rightarrow> u64 \<Rightarrow> loader_state \<Rightarrow> string + (u64 \<times> loader_state)" where
  "ext_mem_alloc_counted cnt elem_size s =
     (case CHECKED_MUL cnt elem_size of
        None \<Rightarrow> Inl ''ext_mem_alloc_counted: allocation size overflow''
      | Some n \<Rightarrow> ext_mem_alloc n s)"

definition pmm_free :: "u64 \<Rightarrow> u64 \<Rightarrow> loader_state \<Rightarrow> string + loader_state" where
  "pmm_free ptr cnt s =
     (if ptr = 0 then Inr s
      else if ptr mod 4096 \<noteq> 0 then Inl ''pmm_free: Unaligned pointer''
      else case ALIGN_UP (if cnt = 0 then 1 else cnt) 4096 of
        None \<Rightarrow> Inl ''Alignment overflow''
      | Some n \<Rightarrow>
          if allocations_disallowed s then Inl ''Memory allocations disallowed''
          else case memmap_alloc_range ptr n MEMMAP_USABLE 0 False False True s of
                 Inl msg \<Rightarrow> Inl msg
               | Inr (_, s') \<Rightarrow> Inr s')"

definition copy_bytes :: "u64 \<Rightarrow> u64 \<Rightarrow> u64 \<Rightarrow> memory \<Rightarrow> memory" where
  "copy_bytes dst src n m = (\<lambda>x. if in_range dst (unat n) x then m (src + (x - dst)) else m x)"

definition pmm_realloc :: "u64 \<Rightarrow> u64 \<Rightarrow> u64 \<Rightarrow> loader_state \<Rightarrow> string + (u64 \<times> loader_state)" where
  "pmm_realloc old_ptr old_size new_size s =
     (if old_ptr = 0 then ext_mem_alloc new_size s
      else case ext_mem_alloc new_size s of
        Inl msg \<Rightarrow> Inl msg
      | Inr (new_ptr, s1) \<Rightarrow>
          case pmm_free old_ptr old_size
                 (s1\<lparr>loader_mem := copy_bytes new_ptr old_ptr (if new_size > old_size then old_size else new_size) (loader_mem s1)\<rparr>) of
            Inl msg \<Rightarrow> Inl msg
          | Inr s2 \<Rightarrow> Inr (new_ptr, s2))"

text \<open>The search of \<open>conv_mem_alloc\<close>; its position is kept from call to call.\<close>

function conv_loop :: "u64 \<Rightarrow> u64 \<Rightarrow> loader_state \<Rightarrow> string + (u64 \<times> loader_state)" where
  "conv_loop cnt base s =
     (if base + cnt > 0x100000 then Inl ''Conventional memory allocation failed''
      else case memmap_alloc_range base cnt MEMMAP_BOOTLOADER_RECLAIMABLE MEMMAP_USABLE False False False s of
        Inl msg \<Rightarrow> Inl msg
      | Inr (ok, s1) \<Rightarrow>
          if ok then
            (case sanitise False (s1\<lparr>loader_mem := zero_fill base cnt (loader_mem s1), conv_base := base + cnt\<rparr>) of
               Inl msg \<Rightarrow> Inl msg
             | Inr s2 \<Rightarrow> Inr (base, s2))
          else conv_loop cnt (base + 4096) s)"
  by pat_completeness auto
termination
proof (relation "measure (\<lambda>(cnt, base, s). 0x200000 - unat (base + cnt))")
  fix cnt base :: u64 and s :: loader_state
  assume "\<not> 0x100000 < base + cnt"
  then have le: "unat (base + cnt) \<le> 0x100000" by (simp add: word_less_nat_alt)
  have "unat (w + 4096) = unat w + 4096" if "unat w \<le> 0x100000" for w :: u64
    using that by (simp add: unat_word_ariths)
  from this [OF le] have "unat (base + cnt + 4096) = unat (base + cnt) + 4096" .
  moreover have eq: "base + 4096 + cnt = base + cnt + 4096" by simp
  ultimately have "0x200000 - unat (base + 4096 + cnt) < 0x200000 - unat (base + cnt)" unfolding eq using le by linarith
  then show "((cnt, base + 4096, s), cnt, base, s) \<in> measure (\<lambda>(cnt, base, s). 0x200000 - unat (base + cnt))"
    by simp
qed simp

declare conv_loop.simps [simp del]

definition conv_mem_alloc :: "u64 \<Rightarrow> loader_state \<Rightarrow> string + (u64 \<times> loader_state)" where
  "conv_mem_alloc cnt s =
     (if allocations_disallowed s then Inl ''Memory allocations disallowed''
      else case ALIGN_UP (if cnt = 0 then 1 else cnt) 4096 of
        None \<Rightarrow> Inl ''Alignment overflow''
      | Some n \<Rightarrow> conv_loop n (conv_base s) s)"

section \<open>Correctness of the allocators\<close>

abbreviation sane_state :: "loader_state \<Rightarrow> bool" where
  "sane_state s \<equiv> sane (keep_first_page s) (memmap s)"

lemma unat_ALIGN_DOWN: "unat (ALIGN_DOWN x a) = unat x div unat a * unat a"
proof -
  have "unat x div unat a * unat a < 2 ^ 64" using le_less_trans [OF div_times_less_eq_dividend unat_lt2p [of x]] by simp
  moreover have "unat x div unat a < 2 ^ 64" using le_less_trans [OF div_le_dividend unat_lt2p [of x]] by simp
  ultimately show ?thesis by (simp add: ALIGN_DOWN_def unat_word_ariths unat_div)
qed

lemma align_count:
  assumes "CHECKED_ADD n (a - 1) = Some c" and "a \<noteq> 0"
  shows "unat n \<le> unat (ALIGN_DOWN c a)"
proof -
  have a: "0 < unat a" using assms(2) by (simp add: unat_gt_0)
  have "unat c = unat n + (unat a - 1)" using CHECKED_ADD_unat [OF assms(1)] assms(2) by (simp add: unat_minus_1)
  then show ?thesis unfolding unat_ALIGN_DOWN using dividend_less_div_times [OF a, of "unat c"] a by linarith
qed

lemma offer_spec:
  assumes "offer limit cnt alignment e = Some (p, l)"
  shows "mm_type e = MEMMAP_USABLE" "mm_base e \<le> p" "unat cnt \<le> unat l" "unat p mod unat alignment = 0"
    "\<exists>tp et. entry_top e = Some et \<and> CHECKED_ADD p l = Some tp \<and> tp \<le> et \<and> tp \<le> limit"
proof -
  obtain et where et: "entry_top e = Some et" and ty: "mm_type e = 1"
    using assms by (auto simp: offer_def split: if_splits option.splits)
  define tp where "tp = (if et > limit then limit else et)"
  have o: "\<not> (et > limit \<and> mm_base e \<ge> tp)" "\<not> tp - mm_base e < cnt" "\<not> p < mm_base e"
      "p = ALIGN_DOWN (tp - cnt) alignment" "l = tp - p"
    using assms et ty by (auto simp: offer_def Let_def tp_def [symmetric] split: if_splits)
  have b: "mm_base e \<le> tp" using o(1) entry_top_le [OF et] by (auto simp: tp_def)
  have c: "unat cnt \<le> unat tp - unat (mm_base e)" using o(2) b by (simp add: word_less_nat_alt word_le_nat_alt unat_sub)
  then have tc: "unat (tp - cnt) = unat tp - unat cnt" by (simp add: unat_sub word_le_nat_alt)
  have p: "unat p \<le> unat tp - unat cnt" unfolding o(4) unat_ALIGN_DOWN tc by simp
  have l: "unat l = unat tp - unat p" using p by (simp add: o(5) unat_sub word_le_nat_alt)
  show "mm_type e = MEMMAP_USABLE" using ty by (simp add: MEMMAP_USABLE_def)
  show "mm_base e \<le> p" using o(3) by simp
  show "unat cnt \<le> unat l" using p l c by linarith
  show "unat p mod unat alignment = 0" unfolding o(4) unat_ALIGN_DOWN by simp
  have "unat p + unat l = unat tp" using p l by linarith
  then have "CHECKED_ADD p l = Some tp" using unat_lt2p [of tp] by (simp add: CHECKED_ADD_def o(5))
  moreover have "tp \<le> et" "tp \<le> limit" by (auto simp: tp_def)
  ultimately show "\<exists>tp et. entry_top e = Some et \<and> CHECKED_ADD p l = Some tp \<and> tp \<le> et \<and> tp \<le> limit" using et by blast
qed

lemma first_offer_some: "first_offer limit cnt alignment m = Some r \<Longrightarrow> \<exists>e \<in> set m. offer limit cnt alignment e = Some r"
  by (induction m) (auto split: option.splits)

lemma find_offer_spec:
  assumes "find_offer cnt alignment high m = Some (p, l)" and "cnt \<noteq> 0"
  obtains tp where "CHECKED_ADD p l = Some tp" "list_ex (fits p tp MEMMAP_USABLE) m" "span p tp \<subseteq> usable m"
    "unat cnt \<le> unat l" "l \<noteq> 0" "unat p mod unat alignment = 0" "\<not> high \<Longrightarrow> unat tp \<le> 2 ^ 32"
proof -
  obtain e limit where e: "e \<in> set m" "offer limit cnt alignment e = Some (p, l)" "\<not> high \<Longrightarrow> limit = 0x100000000"
    using assms(1) by (auto simp: find_offer_def split: option.splits if_splits dest!: first_offer_some)
  note o = offer_spec [OF e(2)]
  obtain tp et where t: "entry_top e = Some et" "CHECKED_ADD p l = Some tp" "tp \<le> et" "tp \<le> limit" using o(5) by blast
  have l0: "0 < unat l" using o(3) assms(2) unat_gt_0 [of cnt] by linarith
  then have "p < tp" using CHECKED_ADD_unat [OF t(2)] by (simp add: word_less_nat_alt)
  then have "fits p tp MEMMAP_USABLE e" using o(1,2) t by (auto simp: fits_def)
  then have "list_ex (fits p tp MEMMAP_USABLE) m" using e(1) by (auto simp: list_ex_iff)
  moreover have "span p tp \<subseteq> region e" using region_span [OF t(1)] o(2) t(3) by (auto simp: span_def word_le_nat_alt)
  then have "span p tp \<subseteq> usable m" using e(1) o(1) by (auto simp: usable_set)
  moreover have "l \<noteq> 0" using l0 by auto
  moreover have "unat tp \<le> 2 ^ 32" if "\<not> high" using t(4) e(3) [OF that] by (simp add: word_le_nat_alt)
  ultimately show ?thesis using that [OF t(2)] o(3,4) by blast
qed

lemma sanitise_same:
  assumes "sanitise False s = Inr s'" and "sane_state s"
  shows "\<exists>m. s' = s\<lparr>memmap := m\<rparr> \<and> sane (keep_first_page s) m \<and> usable m = usable (memmap s) \<and> reserved m = reserved (memmap s)"
proof -
  obtain m where m: "pmm_sanitise_entries (keep_first_page s) (memmap s) False = Inr m" "s' = s\<lparr>memmap := m\<rparr>"
    using assms(1) by (auto simp: sanitise_def split: sum.splits)
  have w: "no_wrap (memmap s)" "length (memmap s) \<le> memmap_max_entries" using assms(2) by (auto simp: sane_def tidy_def)
  note c = sanitise_core [OF m(1) w]
  have "usable m = usable (memmap s)" using c(6) assms(2) tidy_disjoint [of "memmap s"] by (auto simp: sane_def)
  then show ?thesis using m(2) c(3) sanitise_sane [OF m(1) w] by blast
qed

lemma memmap_alloc_range_cases:
  assumes "memmap_alloc_range base len ty ov dp False ne s = Inr (ok, s')" and "sane_state s"
  shows "sane_state s' \<and> keep_first_page s' = keep_first_page s \<and> loader_mem s' = loader_mem s"
proof -
  obtain m where m: "memmap_alloc_range_in (keep_first_page s) (memmap s) base len ty ov dp False ne = Inr (ok, m)" "s' = s\<lparr>memmap := m\<rparr>"
    using assms(1) by (auto simp: memmap_alloc_range_def split: sum.splits)
  have "m = memmap s \<or> claim (keep_first_page s) (memmap s) base len ty = Inr (ok, m)"
    using m(1) by (auto simp: memmap_alloc_range_in_def split: if_splits option.splits)
  then have "sane (keep_first_page s) m" using claim_post [OF _ assms(2)] assms(2) by metis
  then show ?thesis using m(2) by simp
qed

lemma memmap_alloc_range_claims:
  assumes "memmap_alloc_range base len ty ov dp False ne s = Inr (ok, s')" and "len \<noteq> 0" and "CHECKED_ADD base len = Some tp"
    and "list_ex (fits base tp ov) (memmap s)"
  shows "\<exists>m. s' = s\<lparr>memmap := m\<rparr> \<and> claim (keep_first_page s) (memmap s) base len ty = Inr (ok, m)"
  using assms by (auto simp: memmap_alloc_range_def memmap_alloc_range_in_def split: sum.splits)

lemma ext_mem_alloc_core:
  assumes "ext_mem_alloc_type_aligned_mode cnt ty alignment high s = Inr (p, s')" and "sane_state s"
    and "alignment \<noteq> 0" and "ty \<noteq> MEMMAP_USABLE"
  shows "sane_state s' \<and> usable (memmap s') \<subseteq> usable (memmap s) \<and>
     {unat p ..< unat p + unat cnt} \<subseteq> usable (memmap s) - usable (memmap s') \<and> unat p mod unat alignment = 0 \<and>
     (high \<or> unat p + unat cnt \<le> 2 ^ 32 \<and> (\<forall>x. in_range p (unat cnt) x \<longrightarrow> loader_mem s' x = 0))"
    "keep_first_page s' = keep_first_page s \<and> (\<exists>c. CHECKED_ADD (if cnt = 0 then 1 else cnt) (alignment - 1) = Some c \<and>
       {unat p ..< unat p + unat (ALIGN_DOWN c alignment)} \<subseteq> usable (memmap s))"
proof -
  let ?c = "if cnt = 0 then 1 else cnt :: u64"
  obtain c l s1 ok where c: "CHECKED_ADD ?c (alignment - 1) = Some c"
      and f: "find_offer (ALIGN_DOWN c alignment) alignment high (memmap s) = Some (p, l)"
      and r: "memmap_alloc_range p l ty MEMMAP_USABLE True False False s = Inr (ok, s1)"
      and s: "sanitise False (if high then s1 else s1\<lparr>loader_mem := zero_fill p (ALIGN_DOWN c alignment) (loader_mem s1)\<rparr>) = Inr s'"
    using assms(1) unfolding ext_mem_alloc_type_aligned_mode_def Let_def
    by (auto simp del: split_paired_Ex split: option.splits if_splits sum.splits prod.splits)
  let ?n = "ALIGN_DOWN c alignment"
  have n: "unat ?c \<le> unat ?n" using align_count [OF c assms(3)] .
  have "0 < unat ?c" by (simp add: unat_gt_0)
  then have n0: "?n \<noteq> 0" using n by auto
  have cn: "unat cnt \<le> unat ?n" using n by (auto split: if_splits)
  obtain tp where tp: "CHECKED_ADD p l = Some tp" "list_ex (fits p tp MEMMAP_USABLE) (memmap s)" "span p tp \<subseteq> usable (memmap s)"
      "unat ?n \<le> unat l" "l \<noteq> 0" "unat p mod unat alignment = 0" "\<not> high \<Longrightarrow> unat tp \<le> 2 ^ 32"
    using find_offer_spec [OF f n0] by blast
  obtain m where m: "s1 = s\<lparr>memmap := m\<rparr>" "claim (keep_first_page s) (memmap s) p l ty = Inr (ok, m)"
    using memmap_alloc_range_claims [OF r tp(5,1,2)] by blast
  obtain tp' where cl: "CHECKED_ADD p l = Some tp'" "sane (keep_first_page s) m" "usable m = usable (memmap s) - span p tp'"
    using claim_post [OF m(2) assms(2)] assms(4) by metis
  define s2 where "s2 = (if high then s1 else s1\<lparr>loader_mem := zero_fill p ?n (loader_mem s1)\<rparr>)"
  have s2: "memmap s2 = m" "keep_first_page s2 = keep_first_page s" by (simp_all add: s2_def m(1))
  obtain m' where m': "s' = s2\<lparr>memmap := m'\<rparr>" "sane (keep_first_page s) m'" "usable m' = usable m"
    using sanitise_same [OF s [folded s2_def]] cl(2) s2 by auto
  have sub: "{unat p ..< unat p + unat cnt} \<subseteq> span p tp" using CHECKED_ADD_unat [OF tp(1)] cn tp(4) by (auto simp: span_def)
  have "unat p + unat cnt \<le> unat tp" using CHECKED_ADD_unat [OF tp(1)] cn tp(4) by simp
  moreover have "loader_mem s' x = 0" if "\<not> high" "in_range p (unat cnt) x" for x
    using that cn by (auto simp: m'(1) s2_def zero_fill_def in_range_def)
  ultimately show "sane_state s' \<and> usable (memmap s') \<subseteq> usable (memmap s) \<and>
     {unat p ..< unat p + unat cnt} \<subseteq> usable (memmap s) - usable (memmap s') \<and> unat p mod unat alignment = 0 \<and>
     (high \<or> unat p + unat cnt \<le> 2 ^ 32 \<and> (\<forall>x. in_range p (unat cnt) x \<longrightarrow> loader_mem s' x = 0))"
    using m' cl tp(1,3,6,7) sub s2 by auto
  have "{unat p ..< unat p + unat ?n} \<subseteq> span p tp" using CHECKED_ADD_unat [OF tp(1)] tp(4) by (auto simp: span_def)
  then show "keep_first_page s' = keep_first_page s \<and> (\<exists>c. CHECKED_ADD ?c (alignment - 1) = Some c \<and>
       {unat p ..< unat p + unat (ALIGN_DOWN c alignment)} \<subseteq> usable (memmap s))"
    using c tp(3) m'(1) s2 by auto
qed

text \<open>Property C23: memory that \<open>ext_mem_alloc\<close> returns was usable, is aligned and is usable no longer; unless
  memory above 4 GiB is allowed, it lies below 4 GiB and is cleared. The map keeps its invariant.\<close>

theorem ext_mem_alloc_correct:
  assumes "ext_mem_alloc_type_aligned_mode cnt ty alignment high s = Inr (p, s')" and "sane_state s"
    and "alignment \<noteq> 0" and "ty \<noteq> MEMMAP_USABLE"
  shows "sane_state s' \<and> usable (memmap s') \<subseteq> usable (memmap s) \<and>
     {unat p ..< unat p + unat cnt} \<subseteq> usable (memmap s) - usable (memmap s') \<and> unat p mod unat alignment = 0 \<and>
     (high \<or> unat p + unat cnt \<le> 2 ^ 32 \<and> (\<forall>x. in_range p (unat cnt) x \<longrightarrow> loader_mem s' x = 0))"
  using ext_mem_alloc_core(1) [OF assms] .

section \<open>The contract of an allocator\<close>

primrec alloc_all :: "('n \<Rightarrow> 's \<Rightarrow> 'e + ('p \<times> 's)) \<Rightarrow> 'n list \<Rightarrow> 's \<Rightarrow> 'e + ('p list \<times> 's)" where
  "alloc_all alloc [] s = Inr ([], s)"
| "alloc_all alloc (n # ns) s =
     (case alloc n s of
        Inl e \<Rightarrow> Inl e
      | Inr (p, s1) \<Rightarrow> (case alloc_all alloc ns s1 of Inl e \<Rightarrow> Inl e | Inr (ps, s2) \<Rightarrow> Inr (p # ps, s2)))"

text \<open>An allocator hands out parts of a set of free addresses, which then are free no longer.\<close>

locale range_allocator =
  fixes alloc :: "'n \<Rightarrow> 's \<Rightarrow> 'e + ('p \<times> 's)"
    and free :: "'s \<Rightarrow> nat set"
    and block :: "'n \<Rightarrow> 'p \<Rightarrow> nat set"
    and inv :: "'s \<Rightarrow> bool"
  assumes alloc_takes: "inv s \<Longrightarrow> alloc n s = Inr (p, s') \<Longrightarrow> inv s' \<and> block n p \<subseteq> free s - free s' \<and> free s' \<subseteq> free s"
begin

lemma alloc_all_blocks:
  "inv s \<Longrightarrow> alloc_all alloc ns s = Inr (ps, s') \<Longrightarrow>
     inv s' \<and> free s' \<subseteq> free s \<and> list_all (\<lambda>A. A \<subseteq> free s - free s') (map2 block ns ps) \<and>
     sorted_wrt (\<lambda>A B. A \<inter> B = {}) (map2 block ns ps)"
proof (induction ns arbitrary: s ps)
  case (Cons n ns)
  obtain p s1 qs where a: "alloc n s = Inr (p, s1)" and r: "alloc_all alloc ns s1 = Inr (qs, s')" and ps: "ps = p # qs"
    using Cons.prems(2) by (auto split: sum.splits prod.splits)
  have s1: "inv s1" "block n p \<subseteq> free s - free s1" "free s1 \<subseteq> free s" using alloc_takes [OF Cons.prems(1) a] by auto
  note ih = Cons.IH [OF s1(1) r]
  have "A \<inter> block n p = {}" "A \<subseteq> free s - free s'" if "A \<in> set (map2 block ns qs)" for A
    using ih s1 that by (fastforce simp: list_all_iff)+
  then show ?case using ih s1 by (auto simp: ps list_all_iff)
qed simp

end

definition bytes_of :: "u64 \<Rightarrow> u64 \<Rightarrow> nat set" where
  "bytes_of n p = {unat p ..< unat p + unat n}"

lemma reclaimable_facts: "(4096 :: u64) \<noteq> 0" "MEMMAP_BOOTLOADER_RECLAIMABLE \<noteq> MEMMAP_USABLE"
  by (simp_all add: MEMMAP_USABLE_def MEMMAP_BOOTLOADER_RECLAIMABLE_def)

lemmas ext_mem_alloc_defs = ext_mem_alloc_def ext_mem_alloc_type_def ext_mem_alloc_type_aligned_def

lemma sanitise_keeps_sane: "sanitise False s = Inr s' \<Longrightarrow> sane_state s \<Longrightarrow> sane_state s' \<and> usable (memmap s') = usable (memmap s)"
  using sanitise_same [of s s'] by auto

lemma conv_loop_takes:
  "conv_loop n base s = Inr (p, s') \<Longrightarrow> n \<noteq> 0 \<Longrightarrow> sane_state s \<Longrightarrow>
     sane_state s' \<and> bytes_of n p \<subseteq> usable (memmap s) - usable (memmap s') \<and> usable (memmap s') \<subseteq> usable (memmap s)"
proof (induction n base s rule: conv_loop.induct)
  case (1 n base s)
  obtain ok s1 where b: "\<not> base + n > 0x100000"
      and r: "memmap_alloc_range base n MEMMAP_BOOTLOADER_RECLAIMABLE MEMMAP_USABLE False False False s = Inr (ok, s1)"
    using "1.prems"(1) by (subst (asm) conv_loop.simps) (auto split: sum.splits if_splits)
  show ?case
  proof (cases ok)
    case False
    then have "conv_loop n (base + 4096) s = Inr (p, s')" using "1.prems"(1) b r by (subst (asm) conv_loop.simps) simp
    then show ?thesis using "1.IH" [OF b r refl False] "1.prems"(2,3) by simp
  next
    case True
    then have p: "p = base" and s': "sanitise False (s1\<lparr>loader_mem := zero_fill base n (loader_mem s1), conv_base := base + n\<rparr>) = Inr s'"
      using "1.prems"(1) b r by (subst (asm) conv_loop.simps; auto split: sum.splits)+
    obtain tp m where tp: "CHECKED_ADD base n = Some tp" "list_ex (fits base tp MEMMAP_USABLE) (memmap s)"
        and m: "claim (keep_first_page s) (memmap s) base n MEMMAP_BOOTLOADER_RECLAIMABLE = Inr (ok, m)" "s1 = s\<lparr>memmap := m\<rparr>"
      using r True "1.prems"(2) by (auto simp: memmap_alloc_range_def memmap_alloc_range_in_def split: sum.splits option.splits if_splits)
    have c: "sane (keep_first_page s) m" "usable m = usable (memmap s) - span base tp"
      using claim_post [OF m(1) "1.prems"(3)] tp(1) reclaimable_facts(2) by (metis option.inject)+
    obtain e where e: "e \<in> set (memmap s)" "fits base tp MEMMAP_USABLE e" using tp(2) by (auto simp: list_ex_iff)
    then have "span base tp \<subseteq> region e" "mm_type e = MEMMAP_USABLE"
      by (auto simp: fits_def region_top span_def word_le_nat_alt MEMMAP_USABLE_def split: option.splits)
    then have "span base tp \<subseteq> usable (memmap s)" using e(1) by (auto simp: usable_set)
    moreover have "bytes_of n p = span base tp" using CHECKED_ADD_unat [OF tp(1)] by (simp add: bytes_of_def span_def p)
    moreover have "sane_state s' \<and> usable (memmap s') = usable m" using sanitise_keeps_sane [OF s'] c m(2) by simp
    ultimately show ?thesis using c by auto
  qed
qed

lemma ALIGN_UP_grows:
  assumes "ALIGN_UP (if n = 0 then 1 else n) 4096 = Some k"
  shows "unat n \<le> unat k" "k \<noteq> 0"
proof -
  let ?n = "if n = 0 then 1 else n"
  obtain c where c: "CHECKED_ADD ?n (4096 - 1) = Some c" "k = ALIGN_DOWN c 4096"
    using assms by (auto simp: ALIGN_UP_def DIV_ROUNDUP_def ALIGN_DOWN_def)
  have le: "unat ?n \<le> unat k" using align_count [OF c(1)] by (simp add: c(2))
  then show "unat n \<le> unat k" by (auto split: if_splits)
  have "0 < unat ?n" by (simp add: unat_gt_0)
  then show "k \<noteq> 0" using le by auto
qed

interpretation ext: range_allocator ext_mem_alloc "\<lambda>s. usable (memmap s)" bytes_of sane_state
proof
  fix s n p s' assume a: "sane_state s" "ext_mem_alloc n s = Inr (p, s')"
  show "sane_state s' \<and> bytes_of n p \<subseteq> usable (memmap s) - usable (memmap s') \<and> usable (memmap s') \<subseteq> usable (memmap s)"
    using ext_mem_alloc_core(1) [OF a(2) [unfolded ext_mem_alloc_defs] a(1) reclaimable_facts] by (simp add: bytes_of_def)
qed

interpretation conv: range_allocator conv_mem_alloc "\<lambda>s. usable (memmap s)" bytes_of sane_state
proof
  fix s n p s' assume a: "sane_state s" "conv_mem_alloc n s = Inr (p, s')"
  obtain k where k: "ALIGN_UP (if n = 0 then 1 else n) 4096 = Some k" "conv_loop k (conv_base s) s = Inr (p, s')"
    using a(2) by (auto simp: conv_mem_alloc_def split: if_splits option.splits)
  note g = ALIGN_UP_grows [OF k(1)]
  have "bytes_of n p \<subseteq> bytes_of k p" using g(1) by (auto simp: bytes_of_def)
  then show "sane_state s' \<and> bytes_of n p \<subseteq> usable (memmap s) - usable (memmap s') \<and> usable (memmap s') \<subseteq> usable (memmap s)"
    using conv_loop_takes [OF k(2) g(2) a(1)] by auto
qed

text \<open>Property C8: the blocks that any number of successive allocations return were all usable and do not overlap.\<close>

theorem ext_mem_allocs_disjoint:
  assumes "alloc_all ext_mem_alloc ns s = Inr (ps, s')" and "sane_state s"
  shows "sorted_wrt (\<lambda>A B. A \<inter> B = {}) (map2 bytes_of ns ps) \<and> list_all (\<lambda>A. A \<subseteq> usable (memmap s)) (map2 bytes_of ns ps)"
  using ext.alloc_all_blocks [OF assms(2,1)] by (auto simp: list_all_iff)

text \<open>Theorem: the same holds of the allocator of conventional memory.\<close>

theorem conv_mem_allocs_disjoint:
  assumes "alloc_all conv_mem_alloc ns s = Inr (ps, s')" and "sane_state s"
  shows "sorted_wrt (\<lambda>A B. A \<inter> B = {}) (map2 bytes_of ns ps) \<and> list_all (\<lambda>A. A \<subseteq> usable (memmap s)) (map2 bytes_of ns ps)"
  using conv.alloc_all_blocks [OF assms(2,1)] by (auto simp: list_all_iff)

section \<open>Set-up, hand-over and queries\<close>

text \<open>One entry of the BIOS map as it is taken over; \<open>None\<close> is an entry that is skipped.\<close>

definition take_over :: "u64 \<Rightarrow> memmap_entry \<Rightarrow> memmap_entry option" where
  "take_over ebda_base e =
     (case entry_top e of
        None \<Rightarrow> None
      | Some tp \<Rightarrow>
          if mm_type e = MEMMAP_USABLE then
            if mm_base e \<ge> ebda_base \<and> mm_base e < 0x100000 then
              if tp \<le> 0x100000 then None
              else let e1 = set_range 0x100000 (mm_length e - (0x100000 - mm_base e)) e
                   in Some (if tp > ebda_base \<and> tp \<le> 0x100000 then set_range (mm_base e1) (mm_length e1 - (tp - ebda_base)) e1 else e1)
            else Some (if tp > ebda_base \<and> tp \<le> 0x100000 then set_range (mm_base e) (mm_length e - (tp - ebda_base)) e else e)
          else Some e)"

primrec take_over_loop :: "u64 \<Rightarrow> memmap_entry list \<Rightarrow> memmap_entry list \<Rightarrow> string + memmap_entry list" where
  "take_over_loop ebda_base [] m = Inr m"
| "take_over_loop ebda_base (e # es) m =
     (if length m = memmap_max_entries then Inl ''Memory map exhausted.''
      else case take_over ebda_base e of
             None \<Rightarrow> take_over_loop ebda_base es m
           | Some e' \<Rightarrow> take_over_loop ebda_base es (m @ [e']))"

definition init_memmap :: "loader_state \<Rightarrow> string + loader_state" where
  "init_memmap s =
     (case take_over_loop (ebda s) (e820_map s) (memmap s) of
        Inl msg \<Rightarrow> Inl msg
      | Inr m \<Rightarrow>
          case sanitise False (s\<lparr>memmap := m\<rparr>) of
            Inl msg \<Rightarrow> Inl msg
          | Inr s1 \<Rightarrow>
              case ALIGN_UP (bss_end s) 4096 of
                None \<Rightarrow> Inl ''Alignment overflow''
              | Some e \<Rightarrow>
                  case memmap_alloc_range 4096 (e - 4096) MEMMAP_BOOTLOADER_RECLAIMABLE 0 True False False s1 of
                    Inl msg \<Rightarrow> Inl msg
                  | Inr (_, s2) \<Rightarrow>
                      case sanitise False s2 of
                        Inl msg \<Rightarrow> Inl msg
                      | Inr s3 \<Rightarrow> Inr (s3\<lparr>allocations_disallowed := False\<rparr>))"

definition get_memmap :: "loader_state \<Rightarrow> string + (memmap_entry list \<times> loader_state)" where
  "get_memmap s =
     (case sanitise True s of
        Inl msg \<Rightarrow> Inl msg
      | Inr s1 \<Rightarrow> Inr (memmap s1, s1\<lparr>allocations_disallowed := True\<rparr>))"

definition holds_addr :: "u64 \<Rightarrow> memmap_entry \<Rightarrow> bool" where
  "holds_addr addr e = (case entry_top e of None \<Rightarrow> False | Some et \<Rightarrow> addr \<ge> mm_base e \<and> addr < et)"

definition pmm_check_type :: "u64 \<Rightarrow> loader_state \<Rightarrow> u64" where
  "pmm_check_type addr s = (case find (holds_addr addr) (memmap s) of None \<Rightarrow> - 1 | Some e \<Rightarrow> ucast (mm_type e))"

text \<open>\<open>mmap_get_info\<close>: one pass over the entries, then passes until none makes progress.\<close>

definition info_step :: "memmap_entry \<Rightarrow> bool \<times> u64 \<times> u64 \<Rightarrow> bool \<times> u64 \<times> u64" where
  "info_step e r =
     (if mm_type e \<noteq> MEMMAP_USABLE then r
      else case entry_top e of
        None \<Rightarrow> r
      | Some tp \<Rightarrow>
          case r of (progress, lower_end, upper_end) \<Rightarrow>
            let low = (mm_base e \<le> lower_end \<and> tp > lower_end); high = (mm_base e \<le> upper_end \<and> tp > upper_end)
            in (progress \<or> low \<or> high, if low then tp else lower_end, if high then tp else upper_end))"

primrec info_pass :: "memmap_entry list \<Rightarrow> bool \<times> u64 \<times> u64 \<Rightarrow> bool \<times> u64 \<times> u64" where
  "info_pass [] r = r"
| "info_pass (e # m) r = info_pass m (info_step e r)"

definition info_le :: "bool \<times> u64 \<times> u64 \<Rightarrow> bool \<times> u64 \<times> u64 \<Rightarrow> bool" where
  "info_le r r' = (case (r, r') of ((p, l, u), (p', l', u')) \<Rightarrow>
     l \<le> l' \<and> u \<le> u' \<and> (p \<longrightarrow> p') \<and> (p' \<longrightarrow> p \<or> l < l' \<or> u < u') \<and> (\<not> p' \<longrightarrow> r' = r))"

lemma info_le_trans:
  assumes "info_le r1 r2" and "info_le r2 r3"
  shows "info_le r1 r3"
proof -
  obtain p1 l1 u1 p2 l2 u2 p3 l3 u3 where r: "r1 = (p1, l1, u1)" "r2 = (p2, l2, u2)" "r3 = (p3, l3, u3)" by (metis surj_pair)
  have a: "l1 \<le> l2" "u1 \<le> u2" "p1 \<longrightarrow> p2" "p2 \<longrightarrow> p1 \<or> l1 < l2 \<or> u1 < u2" "\<not> p2 \<longrightarrow> r2 = r1"
    using assms(1) unfolding info_le_def r by simp_all
  have b: "l2 \<le> l3" "u2 \<le> u3" "p2 \<longrightarrow> p3" "p3 \<longrightarrow> p2 \<or> l2 < l3 \<or> u2 < u3" "\<not> p3 \<longrightarrow> r3 = r2"
    using assms(2) unfolding info_le_def r by simp_all
  have "p3 \<longrightarrow> p1 \<or> l1 < l3 \<or> u1 < u3" using a(1,2,4) b(1,2,4) by (metis order.strict_trans1 order.strict_trans2)
  moreover have "\<not> p3 \<longrightarrow> r3 = r1" using a(5) b(3,5) by metis
  ultimately show ?thesis using order_trans [OF a(1) b(1)] order_trans [OF a(2) b(2)] a(3) b(3) unfolding info_le_def r by simp
qed

lemma info_step_le: "info_le r (info_step e r)"
  by (auto simp: info_step_def info_le_def Let_def split: prod.splits option.splits)

lemma info_pass_le: "info_le r (info_pass m r)"
proof (induction m arbitrary: r)
  case (Cons e m)
  show ?case using info_le_trans [OF info_step_le Cons.IH] by simp
qed (simp add: info_le_def split: prod.splits)

definition info_room :: "u64 \<times> u64 \<Rightarrow> nat" where
  "info_room r = (2 ^ 64 - unat (fst r)) + (2 ^ 64 - unat (snd r))"

lemma info_pass_progress:
  assumes "info_pass m (False, r) = (True, r')"
  shows "info_room r' < info_room r"
proof -
  obtain l u l' u' where r: "r = (l, u)" "r' = (l', u')" by (metis surj_pair)
  have "l \<le> l' \<and> u \<le> u' \<and> (l < l' \<or> u < u')"
    using info_pass_le [of "(False, l, u)" m] assms by (simp add: info_le_def r)
  then show ?thesis
    using unat_lt2p [of l'] unat_lt2p [of u'] by (auto simp: r info_room_def word_le_nat_alt word_less_nat_alt)
qed

function info_loop :: "memmap_entry list \<Rightarrow> u64 \<times> u64 \<Rightarrow> u64 \<times> u64" where
  "info_loop m r = (case info_pass m (False, r) of (progress, r') \<Rightarrow> if progress then info_loop m r' else r')"
  by pat_completeness auto
termination
  by (relation "measure (\<lambda>(m, r). info_room r)") (auto dest!: sym [of "(_, _)"] intro: info_pass_progress)

declare info_loop.simps [simp del]

text \<open>The fields have the width of \<open>size_t\<close>, 32 bits in this build.\<close>

record meminfo =
  uppermem :: u32
  lowermem :: u32

definition mmap_get_info :: "memmap_entry list \<Rightarrow> meminfo" where
  "mmap_get_info m =
     (case info_loop m (0, 0x100000) of (lower_end, upper_end) \<Rightarrow>
        \<lparr>uppermem = ucast (upper_end - 0x100000), lowermem = ucast (if lower_end > 0x100000 then 0x100000 else lower_end)\<rparr>)"

section \<open>What the queries say\<close>

lemma info_pass_settled:
  "info_pass m r = r' \<Longrightarrow> \<not> fst r' \<Longrightarrow> r' = r \<and> (\<forall>e \<in> set m. info_step e r = r)"
proof (induction m arbitrary: r)
  case (Cons e m)
  then have ih: "r' = info_step e r" "\<forall>f \<in> set m. info_step f (info_step e r) = info_step e r" by auto
  then have "info_step e r = r" using info_step_le [of r e] Cons.prems(2) by (auto simp: info_le_def split: prod.splits)
  then show ?case using ih by simp
qed auto

definition info_inv :: "memmap_entry list \<Rightarrow> u64 \<times> u64 \<Rightarrow> bool" where
  "info_inv m r \<longleftrightarrow> {0 ..< unat (fst r)} \<subseteq> usable m \<and> {0x100000 ..< unat (snd r)} \<subseteq> usable m"

lemma interval_extend: "{a ..< x} \<subseteq> U \<Longrightarrow> {b ..< t} \<subseteq> U \<Longrightarrow> b \<le> x \<Longrightarrow> {a ..< t} \<subseteq> (U :: nat set)"
  by (meson atLeastLessThan_iff le_trans linorder_not_less subset_iff)

lemma info_step_inv:
  assumes "e \<in> set m" "info_inv m (snd r)"
  shows "info_inv m (snd (info_step e r))"
proof -
  obtain p l u where r: "r = (p, l, u)" by (metis surj_pair)
  have i: "{0 ..< unat l} \<subseteq> usable m" "{0x100000 ..< unat u} \<subseteq> usable m" using assms(2) by (simp_all add: r info_inv_def)
  show ?thesis
  proof (cases "mm_type e = MEMMAP_USABLE \<and> entry_top e \<noteq> None")
    case True
    then obtain tp where tp: "entry_top e = Some tp" by auto
    have "{unat (mm_base e) ..< unat tp} \<subseteq> usable m" using assms(1) True region_top [OF tp] by (auto simp: usable_set)
    note ext = interval_extend [OF i(1) this] interval_extend [OF i(2) this]
    show ?thesis using i ext tp True by (auto simp: r info_step_def info_inv_def Let_def word_le_nat_alt)
  next
    case False
    then show ?thesis using assms(2) by (auto simp: info_step_def)
  qed
qed

lemma info_pass_inv: "set m' \<subseteq> set m \<Longrightarrow> info_inv m (snd r) \<Longrightarrow> info_inv m (snd (info_pass m' r))"
  by (induction m' arbitrary: r) (auto simp: info_step_inv)

lemma info_loop_post: "info_inv m r \<Longrightarrow> info_inv m (info_loop m r) \<and>
   unat (fst (info_loop m r)) \<notin> usable m \<and> unat (snd (info_loop m r)) \<notin> usable m"
proof (induction m r rule: info_loop.induct)
  case (1 m r)
  obtain progress r' where p: "info_pass m (False, r) = (progress, r')" by (metis surj_pair)
  show ?case
  proof (cases progress)
    case True
    then have "info_loop m r = info_loop m r'" using p by (subst info_loop.simps) simp
    moreover have "info_inv m r'" using info_pass_inv [of m m "(False, r)"] "1.prems" p by simp
    ultimately show ?thesis using "1.IH" [OF p [symmetric] True] by simp
  next
    case False
    then have l: "info_loop m r = r'" using p by (subst info_loop.simps) simp
    have s: "r' = r" "\<forall>e \<in> set m. info_step e (False, r) = (False, r)" using info_pass_settled [OF p] False by auto
    have "x \<noteq> unat (fst r) \<and> x \<noteq> unat (snd r)" if e: "e \<in> set m" "mm_type e = MEMMAP_USABLE" "x \<in> region e" for e x
    proof -
      obtain tp where tp: "entry_top e = Some tp" using e(3) by (cases "entry_top e") auto
      have "info_step e (False, r) = (False, r)" using s(2) e(1) by blast
      then have "\<not> (mm_base e \<le> fst r \<and> tp > fst r)" "\<not> (mm_base e \<le> snd r \<and> tp > snd r)"
        using tp e(2) by (auto simp: info_step_def Let_def split: prod.splits if_splits)
      then show ?thesis using e(3) tp by (auto simp: region_top word_le_nat_alt word_less_nat_alt)
    qed
    then show ?thesis using l s(1) "1.prems" by (auto simp: usable_set)
  qed
qed

text \<open>Theorem: \<open>mmap_get_info\<close> comes to an end and reports the usable memory from 0, at most 1 MiB, and from
  1 MiB up to the first hole; the second number is cut off to 32 bits.\<close>

theorem mmap_get_info_correct:
  "\<exists>u. uppermem (mmap_get_info m) = of_nat (u - 0x100000) \<and> {0x100000 ..< u} \<subseteq> usable m \<and> u \<notin> usable m \<and> 0x100000 \<le> u \<and>
     {0 ..< unat (lowermem (mmap_get_info m))} \<subseteq> usable m \<and>
     (unat (lowermem (mmap_get_info m)) = 0x100000 \<or> unat (lowermem (mmap_get_info m)) \<notin> usable m)"
proof -
  obtain l u where lu: "info_loop m (0, 0x100000) = (l, u)" by (metis surj_pair)
  have i: "{0 ..< unat l} \<subseteq> usable m" "{0x100000 ..< unat u} \<subseteq> usable m" "unat l \<notin> usable m" "unat u \<notin> usable m"
    using info_loop_post [of m "(0, 0x100000)"] lu by (simp_all add: info_inv_def)
  have mono: "snd r \<le> snd (info_loop m r)" for r
  proof (induction m r rule: info_loop.induct)
    case (1 m r)
    obtain progress r' where p: "info_pass m (False, r) = (progress, r')" by (metis surj_pair)
    have le: "snd r \<le> snd r'" using info_pass_le [of "(False, r)" m] p by (auto simp: info_le_def split: prod.splits)
    show ?case
    proof (cases progress)
      case True
      then have "info_loop m r = info_loop m r'" using p by (subst info_loop.simps) simp
      then show ?thesis using "1.IH" [OF p [symmetric] True] le by simp
    next
      case False
      then have "info_loop m r = r'" using p by (subst info_loop.simps) simp
      then show ?thesis using le by simp
    qed
  qed
  have u: "0x100000 \<le> unat u" using mono [of "(0, 0x100000)"] by (simp add: lu word_le_nat_alt)
  then have eq: "unat (u - 0x100000) = unat u - 0x100000" by (simp add: unat_sub word_le_nat_alt)
  have "(ucast (u - 0x100000) :: u32) = of_nat (unat (u - 0x100000))" by simp
  then have "(ucast (u - 0x100000) :: u32) = of_nat (unat u - 0x100000)" unfolding eq .
  moreover have "unat (ucast (if l > 0x100000 then 0x100000 else l) :: u32) = (if unat l > 0x100000 then 0x100000 else unat l)"
    by (auto simp: word_less_nat_alt unsigned_ucast_eq take_bit_nat_eq_self)
  moreover have "{0 ..< (if unat l > 0x100000 then 0x100000 else unat l)} \<subseteq> usable m" using i(1) by auto
  ultimately show ?thesis using i(2,3,4) u by (intro exI [of _ "unat u"]) (simp add: mmap_get_info_def lu)
qed

section \<open>Freeing\<close>

lemma pmm_free_core:
  assumes "pmm_free p n s = Inr s'" and "sane_state s" and "p \<noteq> 0"
  obtains k where "ALIGN_UP (if n = 0 then 1 else n) 4096 = Some k" "sane_state s'" "keep_first_page s' = keep_first_page s"
    "k \<noteq> 0 \<Longrightarrow> usable (memmap s') = usable (memmap s) \<union> {unat p ..< unat p + unat k} - first_page (keep_first_page s)
       \<or> memmap s' = memmap s \<and> CHECKED_ADD p k = None"
proof -
  obtain k ok where k: "ALIGN_UP (if n = 0 then 1 else n) 4096 = Some k"
      and r: "memmap_alloc_range p k MEMMAP_USABLE 0 False False True s = Inr (ok, s')"
    using assms(1,3) by (auto simp: pmm_free_def split: if_splits option.splits sum.splits prod.splits)
  have s: "sane_state s'" "keep_first_page s' = keep_first_page s" using memmap_alloc_range_cases [OF r assms(2)] by blast+
  have "usable (memmap s') = usable (memmap s) \<union> {unat p ..< unat p + unat k} - first_page (keep_first_page s)
       \<or> memmap s' = memmap s \<and> CHECKED_ADD p k = None" if k0: "k \<noteq> 0"
  proof (cases "CHECKED_ADD p k")
    case None
    then show ?thesis using r k0 by (auto simp: memmap_alloc_range_def memmap_alloc_range_in_def)
  next
    case (Some tp)
    then obtain m where m: "claim (keep_first_page s) (memmap s) p k MEMMAP_USABLE = Inr (ok, m)" "s' = s\<lparr>memmap := m\<rparr>"
      using r k0 by (auto simp: memmap_alloc_range_def memmap_alloc_range_in_def split: sum.splits if_splits)
    have "usable m = usable (memmap s) \<union> span p tp - first_page (keep_first_page s)"
      using claim_post [OF m(1) assms(2)] Some by (metis option.inject)
    then show ?thesis using m(2) CHECKED_ADD_unat [OF Some] by (simp add: span_def)
  qed
  then show ?thesis using that [OF k s] by blast
qed

text \<open>Theorem: freeing what was allocated makes all of it usable again, and nothing that was not usable before.\<close>

theorem ext_mem_alloc_free:
  assumes "ext_mem_alloc n s = Inr (p, s1)" and "pmm_free p n s1 = Inr s2" and "sane_state s" and "\<not> keep_first_page s"
  shows "sane_state s2 \<and> usable (memmap s2) \<subseteq> usable (memmap s) \<and> {unat p ..< unat p + unat n} \<subseteq> usable (memmap s2)"
proof -
  note a = ext_mem_alloc_core [OF assms(1) [unfolded ext_mem_alloc_defs] assms(3) reclaimable_facts]
  let ?n = "if n = 0 then 1 else n"
  obtain c where c: "CHECKED_ADD ?n 4095 = Some c" "{unat p ..< unat p + unat (ALIGN_DOWN c 4096)} \<subseteq> usable (memmap s)"
    using a(2) by auto
  have al: "ALIGN_UP ?n 4096 = Some (ALIGN_DOWN c 4096)" using c(1) by (simp add: ALIGN_UP_def DIV_ROUNDUP_def ALIGN_DOWN_def)
  let ?k = "ALIGN_DOWN c 4096"
  have k: "unat ?n \<le> unat ?k" using align_count [of ?n 4096 c] c(1) by simp
  moreover have "0 < unat ?n" by (simp add: unat_gt_0)
  ultimately have k0: "0 < unat ?k" by linarith
  have "unat p \<in> usable (memmap s)" using c(2) k0 by auto
  moreover have "usable (memmap s) \<inter> {..<4096} = {}" using assms(3,4) by (auto simp: sane_def first_page_def)
  ultimately have "4096 \<le> unat p" by (auto simp: disjoint_iff not_less)
  then have p0: "p \<noteq> 0" by auto
  have s1: "sane_state s1" "usable (memmap s1) \<subseteq> usable (memmap s)" "keep_first_page s1 = keep_first_page s" using a by auto
  obtain k' where k': "ALIGN_UP ?n 4096 = Some k'" "sane_state s2"
      "k' \<noteq> 0 \<Longrightarrow> usable (memmap s2) = usable (memmap s1) \<union> {unat p ..< unat p + unat k'} - first_page (keep_first_page s1)
       \<or> memmap s2 = memmap s1 \<and> CHECKED_ADD p k' = None"
    using pmm_free_core [OF assms(2) s1(1) p0] by metis
  have kk: "k' = ?k" using k'(1) al by simp
  have "?k \<noteq> 0" using k0 by auto
  moreover have "CHECKED_ADD p ?k \<noteq> None"
  proof -
    have "unat p + unat ?k - 1 \<in> usable (memmap s)" using c(2) k0 by auto
    then obtain e where "unat p + unat ?k - 1 \<in> region e" by (auto simp: usable_def)
    then obtain tp :: u64 where "unat p + unat ?k - 1 < unat tp" by (cases "entry_top e") (auto simp: region_top)
    then have "unat p + unat ?k < 2 ^ 64" using unat_lt2p [of tp] k0 by simp
    then show ?thesis by (simp add: CHECKED_ADD_def)
  qed
  ultimately have "usable (memmap s2) = usable (memmap s1) \<union> {unat p ..< unat p + unat ?k} - {..<4096}"
    using k'(3) kk s1(3) assms(4) by (auto simp: first_page_def)
  moreover have "unat n \<le> unat ?k" using k by (auto split: if_splits)
  ultimately show ?thesis using k'(2) s1(2) c(2) \<open>4096 \<le> unat p\<close> by auto
qed

section \<open>The invariant\<close>

inductive loader_step :: "loader_state \<Rightarrow> loader_state \<Rightarrow> bool" where
  alloc_step: "ext_mem_alloc_type_aligned_mode n ty alignment high s = Inr (p, s') \<Longrightarrow> loader_step s s'"
| conv_step: "conv_mem_alloc n s = Inr (p, s') \<Longrightarrow> loader_step s s'"
| free_step: "pmm_free p n s = Inr s' \<Longrightarrow> loader_step s s'"
| realloc_step: "pmm_realloc p n k s = Inr (q, s') \<Longrightarrow> loader_step s s'"
| claim_step: "memmap_alloc_range b l ty ov dp sim ne s = Inr (ok, s') \<Longrightarrow> loader_step s s'"

lemma claim_sane:
  assumes "memmap_alloc_range base len ty ov dp sim ne s = Inr (ok, s')" and "sane_state s"
  shows "sane_state s'"
proof (cases sim)
  case True
  then have "s' = s" using assms(1)
    by (auto simp: memmap_alloc_range_def memmap_alloc_range_in_def claim_def split: sum.splits if_splits option.splits)
  then show ?thesis using assms(2) by simp
next
  case False
  then have "memmap_alloc_range base len ty ov dp False ne s = Inr (ok, s')" using assms(1) by simp
  then show ?thesis using memmap_alloc_range_cases assms(2) by blast
qed

lemma sane_state_update [simp]: "sane_state (s\<lparr>loader_mem := x\<rparr>) = sane_state s" "sane_state (s\<lparr>conv_base := y\<rparr>) = sane_state s"
  "sane_state (s\<lparr>allocations_disallowed := z\<rparr>) = sane_state s"
  by simp_all

lemma alloc_sane: "ext_mem_alloc_type_aligned_mode n ty alignment high s = Inr (p, s') \<Longrightarrow> sane_state s \<Longrightarrow> sane_state s'"
  unfolding ext_mem_alloc_type_aligned_mode_def Let_def
  by (auto split: option.splits if_splits sum.splits prod.splits dest!: claim_sane sanitise_keeps_sane)

lemma conv_sane: "conv_mem_alloc n s = Inr (p, s') \<Longrightarrow> sane_state s \<Longrightarrow> sane_state s'"
  using conv.alloc_takes by blast

lemma free_sane: "pmm_free p n s = Inr s' \<Longrightarrow> sane_state s \<Longrightarrow> sane_state s'"
  by (auto simp: pmm_free_def split: option.splits if_splits sum.splits prod.splits dest!: claim_sane)

lemma realloc_sane: "pmm_realloc p n k s = Inr (q, s') \<Longrightarrow> sane_state s \<Longrightarrow> sane_state s'"
  unfolding pmm_realloc_def ext_mem_alloc_def ext_mem_alloc_type_def ext_mem_alloc_type_aligned_def
  by (auto split: if_splits sum.splits prod.splits dest!: alloc_sane free_sane)

lemma loader_step_sane: "loader_step s s' \<Longrightarrow> sane_state s \<Longrightarrow> sane_state s'"
  by (induction rule: loader_step.induct)
    (auto dest: alloc_sane conv_sane free_sane realloc_sane claim_sane)

lemma take_over_reserved:
  "take_over ebda_base e = Some e' \<Longrightarrow> mm_type e' \<noteq> MEMMAP_USABLE \<Longrightarrow> entry_top e' \<noteq> None"
  by (auto simp: take_over_def Let_def split: option.splits if_splits)

lemma take_over_loop_bounds:
  "take_over_loop ebda_base es m = Inr m' \<Longrightarrow> reserved_no_wrap m \<Longrightarrow> length m \<le> memmap_max_entries \<Longrightarrow>
     reserved_no_wrap m' \<and> length m' \<le> memmap_max_entries"
proof (induction es arbitrary: m)
  case (Cons e es)
  then have l: "length m \<noteq> memmap_max_entries" by auto
  show ?case
  proof (cases "take_over ebda_base e")
    case None
    then show ?thesis using Cons l by simp
  next
    case (Some e')
    then have "take_over_loop ebda_base es (m @ [e']) = Inr m'" using Cons.prems(1) l by simp
    then show ?thesis using Cons.IH [of "m @ [e']"] Cons.prems(2,3) l take_over_reserved [OF Some]
      by (auto simp: reserved_no_wrap_def)
  qed
qed simp

text \<open>The set-up fails when no entry can hold the loader's image.\<close>

lemma image_needs_entry:
  assumes "memmap_alloc_range base len ty ov True False False s = Inr r" and "len \<noteq> 0"
  shows "\<not> list_all (\<lambda>e. entry_top e = None) (memmap s)"
proof
  assume "list_all (\<lambda>e. entry_top e = None) (memmap s)"
  then have "\<not> list_ex (fits base tp ov) (memmap s)" for tp by (auto simp: list_all_iff list_ex_iff fits_def)
  then show False using assms
    by (auto simp: memmap_alloc_range_def memmap_alloc_range_in_def split: option.splits sum.splits)
qed

lemma init_memmap_sane:
  assumes "init_memmap s = Inr s'" and "memmap s = []" and "4096 < bss_end s"
  shows "sane_state s'"
proof -
  obtain m s1 e ok s2 s3 where m: "take_over_loop (ebda s) (e820_map s) (memmap s) = Inr m"
      and s1: "sanitise False (s\<lparr>memmap := m\<rparr>) = Inr s1" and e: "ALIGN_UP (bss_end s) 4096 = Some e"
      and s2: "memmap_alloc_range 4096 (e - 4096) MEMMAP_BOOTLOADER_RECLAIMABLE 0 True False False s1 = Inr (ok, s2)"
      and s3: "sanitise False s2 = Inr s3" "s' = s3\<lparr>allocations_disallowed := False\<rparr>"
    using assms(1) unfolding init_memmap_def by (auto split: sum.splits option.splits prod.splits)
  have b: "reserved_no_wrap m" "length m \<le> memmap_max_entries"
    using take_over_loop_bounds [OF m] assms(2) by (simp_all add: reserved_no_wrap_def)
  have "bss_end s \<noteq> 0" using assms(3) by auto
  then have "4096 < e" using ALIGN_UP_grows(1) [of "bss_end s" e] e assms(3) by (simp add: word_less_nat_alt)
  then have "e - 4096 \<noteq> 0" by auto
  from image_needs_entry [OF s2 this] have ne: "\<not> list_all (\<lambda>e. entry_top e = None) (memmap s1)" .
  obtain m1 where m1: "pmm_sanitise_entries (keep_first_page s) m False = Inr m1" "s1 = s\<lparr>memmap := m1\<rparr>"
    using s1 by (auto simp: sanitise_def split: sum.splits)
  have "sane_state s1" using sanitise_wrap [OF m1(1) b] ne m1(2) by (simp add: sane_def)
  then show ?thesis using claim_sane [OF s2] sanitise_keeps_sane [OF s3(1)] s3(2) by simp
qed

text \<open>Theorem: an empty usable entry of the BIOS map at one megabyte is taken over with a length below zero, so that it wraps
  around; the invariant below holds nevertheless, because the sanitiser removes such an entry, and the set-up panics if there is
  no other.\<close>

theorem take_over_wraps:
  "take_over 0x9FC00 \<lparr>mm_base = 0x100000, mm_length = 0, mm_type = MEMMAP_USABLE, mm_unused = 0\<rparr> =
     Some \<lparr>mm_base = 0x100000, mm_length = - 0x60400, mm_type = MEMMAP_USABLE, mm_unused = 0\<rparr>"
  by (simp add: take_over_def entry_top_def CHECKED_ADD_def set_range_def)

text \<open>Property C7: from the set-up on, whatever map the BIOS reports and whatever sequence of allocations, frees and claims runs,
  the map stays sorted, within its 512 entries and without empty or wrapping entries, and no usable entry meets any other entry
  (entries that are not usable may overlap each other, as in the BIOS map). The loader's image ends above the first page: it is
  linked at 0xf000.\<close>

theorem loader_map_invariant:
  assumes "init_memmap s0 = Inr s" and "memmap s0 = []" and "4096 < bss_end s0" and "loader_step\<^sup>*\<^sup>* s s'"
  shows "sane_state s' \<and> usable (memmap s') \<inter> reserved (memmap s') = {}"
proof -
  have "sane_state s'" using assms(4)
    by (induction rule: rtranclp_induct) (use init_memmap_sane [OF assms(1-3)] loader_step_sane in blast)+
  then show ?thesis using tidy_disjoint by (auto simp: sane_def)
qed

section \<open>Is a range in memory?\<close>

definition full_overlap_check :: "u64 \<Rightarrow> u64 \<Rightarrow> u64 \<Rightarrow> u64 \<Rightarrow> bool" where
  "full_overlap_check base1 top1 base2 top2 \<longleftrightarrow> (base1 \<ge> base2 \<and> base1 < top2) \<and> (top1 > base2 \<and> top1 \<le> top2)"

definition is_ram :: "memmap_entry \<Rightarrow> bool" where
  "is_ram e \<longleftrightarrow> mm_type e = MEMMAP_USABLE \<or> mm_type e = MEMMAP_BOOTLOADER_RECLAIMABLE \<or> mm_type e = MEMMAP_KERNEL_AND_MODULES"

primrec check_usable_loop :: "u64 \<Rightarrow> u64 \<Rightarrow> memmap_entry list \<Rightarrow> u64 \<Rightarrow> bool" where
  "check_usable_loop base tp [] overlap_remaining = False"
| "check_usable_loop base tp (e # m) overlap_remaining =
     (if \<not> is_ram e then check_usable_loop base tp m overlap_remaining
      else case entry_top e of
        None \<Rightarrow> check_usable_loop base tp m overlap_remaining
      | Some memmap_top \<Rightarrow>
          if full_overlap_check base tp (mm_base e) memmap_top then True
          else if mm_base e < tp \<and> memmap_top > base then
            let overlap_bottom = (if mm_base e > base then mm_base e else base);
                overlap_top = (if memmap_top < tp then memmap_top else tp);
                remaining = overlap_remaining - (overlap_top - overlap_bottom)
            in if remaining = 0 then True else check_usable_loop base tp m remaining
          else check_usable_loop base tp m overlap_remaining)"

definition check_usable_memory :: "u64 \<Rightarrow> u64 \<Rightarrow> loader_state \<Rightarrow> bool" where
  "check_usable_memory base tp s = check_usable_loop base tp (memmap s) (tp - base)"

definition ram :: "memmap_entry list \<Rightarrow> nat set" where
  "ram m = (\<Union>e \<in> {e \<in> set m. is_ram e}. region e)"

definition ram_apart :: "memmap_entry list \<Rightarrow> bool" where
  "ram_apart m \<longleftrightarrow> sorted_wrt (\<lambda>e f. is_ram e \<and> is_ram f \<longrightarrow> region e \<inter> region f = {}) m"

lemma ram_simps: "ram [] = {}" "ram (e # m) = (if is_ram e then region e else {}) \<union> ram m"
  by (auto simp: ram_def)

lemma check_usable_loop_covers:
  "ram_apart m \<Longrightarrow> ram m \<inter> D = {} \<Longrightarrow> unat left = card (span base tp - D) \<Longrightarrow> left \<noteq> 0 \<Longrightarrow>
     check_usable_loop base tp m left \<longleftrightarrow> span base tp \<subseteq> D \<union> ram m"
proof (induction m arbitrary: left D)
  case Nil
  then have "span base tp - D \<noteq> {}" by (metis card.empty unat_eq_0)
  then show ?case by (auto simp: ram_simps)
next
  case (Cons e m)
  let ?X = "span base tp"
  have fin: "finite ?X" by (simp add: span_def)
  have ap: "ram_apart m" "ram m \<inter> D = {}" using Cons.prems(1,2) by (auto simp: ram_apart_def ram_simps)
  show ?case
  proof (cases "is_ram e \<and> entry_top e \<noteq> None")
    case False
    then have "(if is_ram e then region e else {}) = {}" by auto
    then show ?thesis using False Cons.IH [OF ap Cons.prems(3,4)] by (auto simp: ram_simps)
  next
    case True
    then obtain et where et: "entry_top e = Some et" and r: "is_ram e" by auto
    have re: "region e = span (mm_base e) et" using region_span [OF et] .
    have rD: "region e \<inter> D = {}" "region e \<inter> ram m = {}"
      using Cons.prems(1,2) r by (auto simp: ram_apart_def ram_simps ram_def)
    show ?thesis
    proof (cases "full_overlap_check base tp (mm_base e) et")
      case full: True
      then have "?X \<subseteq> region e" unfolding re by (auto simp: full_overlap_check_def span_def word_le_nat_alt)
      then show ?thesis using full et r by (auto simp: ram_simps)
    next
      case nf: False
      show ?thesis
      proof (cases "mm_base e < tp \<and> et > base")
        case no: False
        then have "?X \<inter> region e = {}" unfolding re by (auto simp: span_def word_less_nat_alt)
        then have "?X \<subseteq> D \<union> ram (e # m) \<longleftrightarrow> ?X \<subseteq> D \<union> ram m" by (auto simp: ram_simps r)
        moreover have "check_usable_loop base tp (e # m) left = check_usable_loop base tp m left"
          unfolding check_usable_loop.simps et option.case if_not_P [OF nf] if_not_P [OF no] using r by simp
        ultimately show ?thesis using Cons.IH [OF ap Cons.prems(3,4)] by simp
      next
        case yes: True
        define ob where "ob = (if mm_base e > base then mm_base e else base)"
        define ot where "ot = (if et < tp then et else tp)"
        have base: "base < tp" using Cons.prems(3,4) by (auto simp: span_def word_less_nat_alt simp flip: unat_eq_0 intro: ccontr)
        have be: "mm_base e \<le> et" using entry_top_le [OF et] by simp
        have o: "?X \<inter> region e = {unat ob ..< unat ot}"
          unfolding re by (auto simp: span_def ob_def ot_def word_less_nat_alt)
        have le: "unat ob \<le> unat ot" using yes base be by (auto simp: ob_def ot_def word_less_nat_alt word_le_nat_alt)
        have uo: "unat (ot - ob) = unat ot - unat ob" using le by (simp add: unat_sub word_le_nat_alt)
        have co: "card (?X \<inter> region e) = unat (ot - ob)" unfolding o uo by simp
        have sub: "?X \<inter> region e \<subseteq> ?X - D" using rD by auto
        have cl: "unat (ot - ob) \<le> unat left" using card_mono [OF _ sub] fin co Cons.prems(3) by simp
        have "card (?X - (D \<union> region e)) = card (?X - D) - card (?X \<inter> region e)"
        proof -
          have "?X - (D \<union> region e) = (?X - D) - (?X \<inter> region e)" by auto
          then show ?thesis using card_Diff_subset [OF _ sub] fin finite_subset [OF sub] by simp
        qed
        then have rem: "unat (left - (ot - ob)) = card (?X - (D \<union> region e))"
          using cl co Cons.prems(3) by (simp add: unat_sub word_le_nat_alt)
        have run: "check_usable_loop base tp (e # m) left = (left - (ot - ob) = 0 \<or> check_usable_loop base tp m (left - (ot - ob)))"
          using yes nf et r by (simp add: Let_def ob_def ot_def)
        show ?thesis
        proof (cases "left - (ot - ob) = 0")
          case True
          then have "?X - (D \<union> region e) = {}" using rem fin by simp
          then show ?thesis using True run by (auto simp: ram_simps r)
        next
          case False
          have "ram m \<inter> (D \<union> region e) = {}" using ap(2) rD by auto
          from Cons.IH [OF ap(1) this rem False] show ?thesis using False run by (auto simp: ram_simps r)
        qed
      qed
    qed
  qed
qed

text \<open>Theorem: on a map whose memory entries do not overlap, \<open>check_usable_memory\<close> holds exactly of the ranges that
  lie in memory.\<close>

theorem check_usable_memory_correct:
  assumes "ram_apart (memmap s)" and "base < tp"
  shows "check_usable_memory base tp s \<longleftrightarrow> {unat base ..< unat tp} \<subseteq> ram (memmap s)"
proof -
  have "unat (tp - base) = card (span base tp - {})" using assms(2) by (simp add: span_def unat_sub less_imp_le)
  moreover have "tp - base \<noteq> 0" using assms(2) by auto
  ultimately show ?thesis
    using check_usable_loop_covers [OF assms(1), of "{}" "tp - base" base tp] by (simp add: check_usable_memory_def span_def)
qed

text \<open>Theorem: \<open>pmm_check_type\<close> reports an address as usable exactly if it is.\<close>

theorem pmm_check_type_usable:
  assumes "sane_state s"
  shows "pmm_check_type addr s = 1 \<longleftrightarrow> unat addr \<in> usable (memmap s)"
proof -
  have h: "holds_addr addr e \<longleftrightarrow> unat addr \<in> region e" for e
    by (cases "entry_top e") (auto simp: holds_addr_def region_top word_le_nat_alt word_less_nat_alt)
  have dis: "usable (memmap s) \<inter> reserved (memmap s) = {}" using assms tidy_disjoint by (simp add: sane_def)
  have one: "(ucast t :: u64) = 1 \<longleftrightarrow> t = MEMMAP_USABLE" for t :: u32
    by (auto simp: MEMMAP_USABLE_def word_unat_eq_iff unsigned_ucast_eq take_bit_nat_eq_self unat_lt2p [THEN less_le_trans])
  show ?thesis
  proof (cases "find (holds_addr addr) (memmap s)")
    case None
    then have "\<forall>e \<in> set (memmap s). unat addr \<notin> region e" using h by (auto simp: find_None_iff)
    then show ?thesis using None by (auto simp: pmm_check_type_def usable_set)
  next
    case (Some e)
    then have e: "e \<in> set (memmap s)" "unat addr \<in> region e" using h by (auto simp: find_Some_iff in_set_conv_nth)
    then have "mm_type e = MEMMAP_USABLE \<longleftrightarrow> unat addr \<in> usable (memmap s)"
      using dis by (auto simp: usable_set reserved_set)
    then show ?thesis using Some one by (simp add: pmm_check_type_def)
  qed
qed

section \<open>Witnesses\<close>

definition loader_test :: loader_state where
  "loader_test = \<lparr>memmap = mm_result, allocations_disallowed = False, conv_base = 4096, keep_first_page = False,
     loader_mem = (\<lambda>_. 1), e820_map = mm_test, ebda = 0x9FC00, bss_end = 0x1800\<rparr>"

definition loader_test1 :: loader_state where
  "loader_test1 = loader_test\<lparr>memmap := [mm 0x1000 0x2000 1, mm 0x3000 0x2000 2, mm 0x5000 0x3000 1, mm 0x8000 0x1000 0x1000],
     loader_mem := zero_fill 0x8000 0x1000 (loader_mem loader_test)\<rparr>"

definition loader_test2 :: loader_state where
  "loader_test2 = loader_test1\<lparr>memmap := [mm 0x1000 0x2000 1, mm 0x3000 0x2000 2, mm 0x5000 0x2000 1, mm 0x7000 0x2000 0x1000],
     loader_mem := zero_fill 0x7000 0x1000 (loader_mem loader_test1)\<rparr>"

lemmas map_run = pmm_sanitise_entries_def mm_def overlap_pass.simps overlap_loop.simps clip_pass.simps
  sort_pass.simps merge_pass.simps cut_def entry_top_def CHECKED_ADD_def Let_def MEMMAP_USABLE_def set_range_def
  remove_at_def memmap_max_entries_def mergeable_def MEMMAP_BOOTLOADER_RECLAIMABLE_def MEMMAP_RESERVED_MAPPED_def
  MEMMAP_KERNEL_AND_MODULES_def new_entry_loop.simps pmm_new_entry_def

lemma claim_run1: "claim False mm_result 0x8000 0x1000 0x1000 = Inr (True, memmap loader_test1)"
  by (simp add: claim_def mm_result_def loader_test1_def map_run)

lemma claim_run2: "claim False (memmap loader_test1) 0x7000 0x1000 0x1000 = Inr (True, memmap loader_test2)"
  by (simp add: claim_def loader_test1_def loader_test2_def map_run)

lemma claim_run3: "claim False (memmap loader_test1) 0x8000 0x1000 1 = Inr (True, mm_result)"
  by (simp add: claim_def loader_test1_def mm_result_def map_run)

lemma sanitise_run: "pmm_sanitise_entries False (memmap loader_test1) False = Inr (memmap loader_test1)"
  "pmm_sanitise_entries False (memmap loader_test2) False = Inr (memmap loader_test2)"
  by (simp_all add: loader_test1_def loader_test2_def map_run)

lemma loader_test_sane: "sane_state loader_test"
  using sanitise_sane [OF mm_test_run] by (simp add: loader_test_def no_wrap_def mm_test_def mm_def entry_top_def
      CHECKED_ADD_def memmap_max_entries_def)

lemma offer_run: "find_offer 0x1000 0x1000 False mm_result = Some (0x8000, 0x1000)"
  "find_offer 0x1000 0x1000 False (memmap loader_test1) = Some (0x7000, 0x1000)"
  by (simp_all add: find_offer_def offer_def ALIGN_DOWN_def mm_result_def loader_test1_def map_run)

lemma fits_run: "list_ex (fits 0x8000 0x9000 1) mm_result" "list_ex (fits 0x7000 0x8000 1) (memmap loader_test1)"
  by (simp_all add: fits_def mm_result_def loader_test1_def map_run)

lemma keep_run [simp]: "keep_first_page loader_test = False" "keep_first_page loader_test1 = False"
  "memmap loader_test = mm_result" "allocations_disallowed loader_test = False" "allocations_disallowed loader_test1 = False"
  by (simp_all add: loader_test_def loader_test1_def)

lemma range_run:
  "memmap_alloc_range 0x8000 0x1000 0x1000 1 True False False loader_test = Inr (True, loader_test\<lparr>memmap := memmap loader_test1\<rparr>)"
  "memmap_alloc_range 0x7000 0x1000 0x1000 1 True False False loader_test1 = Inr (True, loader_test1\<lparr>memmap := memmap loader_test2\<rparr>)"
  using fits_run claim_run1 claim_run2
  by (simp_all add: memmap_alloc_range_def memmap_alloc_range_in_def CHECKED_ADD_def)

lemma alloc_run: "ext_mem_alloc_type_aligned_mode 1 0x1000 0x1000 False loader_test = Inr (0x8000, loader_test1)"
  "ext_mem_alloc_type_aligned_mode 1 0x1000 0x1000 False loader_test1 = Inr (0x7000, loader_test2)"
  using sanitise_run
  by (simp_all add: ext_mem_alloc_type_aligned_mode_def CHECKED_ADD_def ALIGN_DOWN_def offer_run MEMMAP_USABLE_def range_run Let_def sanitise_def)
    (simp_all add: loader_test_def loader_test1_def loader_test2_def)

theorem ext_mem_alloc_correct_witness:
  "sane_state loader_test1 \<and> usable (memmap loader_test1) \<subseteq> usable (memmap loader_test) \<and>
     {0x8000 ..< 0x8001} \<subseteq> usable (memmap loader_test) - usable (memmap loader_test1) \<and> loader_mem loader_test1 0x8000 = 0"
proof -
  note r = ext_mem_alloc_correct [OF alloc_run(1) loader_test_sane]
  show ?thesis using r by (simp add: MEMMAP_USABLE_def in_range_def)
qed

lemma alloc_run_plain: "ext_mem_alloc 1 = ext_mem_alloc_type_aligned_mode 1 0x1000 0x1000 False"
  by (simp add: fun_eq_iff ext_mem_alloc_defs MEMMAP_BOOTLOADER_RECLAIMABLE_def)

theorem ext_mem_allocs_disjoint_witness:
  "sorted_wrt (\<lambda>A B. A \<inter> B = {}) (map2 bytes_of [1, 1] [0x8000, 0x7000]) \<and>
   list_all (\<lambda>A. A \<subseteq> usable (memmap loader_test)) (map2 bytes_of [1, 1] [0x8000, 0x7000])"
proof (rule ext_mem_allocs_disjoint [OF _ loader_test_sane])
  show "alloc_all ext_mem_alloc [1, 1] loader_test = Inr ([0x8000, 0x7000], loader_test2)"
    by (simp add: alloc_run_plain alloc_run)
qed

lemma free_run: "pmm_free 0x8000 1 loader_test1 = Inr (loader_test1\<lparr>memmap := mm_result\<rparr>)"
proof -
  have "memmap_alloc_range 0x8000 0x1000 1 0 False False True loader_test1 = Inr (True, loader_test1\<lparr>memmap := mm_result\<rparr>)"
    using claim_run3 by (simp add: memmap_alloc_range_def memmap_alloc_range_in_def CHECKED_ADD_def)
  then show ?thesis by (simp add: pmm_free_def ALIGN_UP_def DIV_ROUNDUP_def CHECKED_ADD_def MEMMAP_USABLE_def)
qed

theorem ext_mem_alloc_free_witness:
  "sane_state (loader_test1\<lparr>memmap := mm_result\<rparr>) \<and> usable mm_result \<subseteq> usable (memmap loader_test) \<and>
     {0x8000 ..< 0x8001} \<subseteq> usable mm_result"
proof -
  note a = alloc_run(1) [folded alloc_run_plain]
  from ext_mem_alloc_free [OF a free_run loader_test_sane] show ?thesis by simp
qed

definition loader_test0 :: loader_state where
  "loader_test0 = loader_test\<lparr>memmap := []\<rparr>"

definition loader_started :: loader_state where
  "loader_started = loader_test\<lparr>memmap := [mm 0x1000 0x1000 0x1000, mm 0x2000 0x1000 1, mm 0x3000 0x2000 2, mm 0x5000 0x4000 1]\<rparr>"

lemma init_run: "init_memmap loader_test0 = Inr loader_started"
proof -
  have t: "take_over_loop 0x9FC00 mm_test [] = Inr mm_test"
    by (simp add: mm_test_def take_over_def map_run)
  have c: "claim False mm_result 0x1000 0x1000 0x1000 = Inr (True, memmap loader_started)"
    by (simp add: claim_def mm_result_def loader_started_def map_run)
  have f: "list_ex (fits 0x1000 0x2000 0) mm_result" by (simp add: fits_def mm_result_def map_run)
  have s: "pmm_sanitise_entries False (memmap loader_started) False = Inr (memmap loader_started)"
    by (simp add: loader_started_def map_run)
  have a: "ALIGN_UP 0x1800 0x1000 = Some 0x2000" by (simp add: ALIGN_UP_def DIV_ROUNDUP_def CHECKED_ADD_def)
  have "sanitise False (loader_test0\<lparr>memmap := mm_test\<rparr>) = Inr loader_test"
    using mm_test_run by (simp add: sanitise_def loader_test0_def loader_test_def)
  moreover have "memmap_alloc_range 0x1000 0x1000 0x1000 0 True False False loader_test = Inr (True, loader_started)"
    using c f by (simp add: memmap_alloc_range_def memmap_alloc_range_in_def CHECKED_ADD_def loader_started_def)
  moreover have "sanitise False loader_started = Inr loader_started"
    using s by (simp add: sanitise_def loader_started_def loader_test_def)
  moreover have "ebda loader_test0 = 0x9FC00" "e820_map loader_test0 = mm_test" "memmap loader_test0 = []" "bss_end loader_test0 = 0x1800"
      "loader_started\<lparr>allocations_disallowed := False\<rparr> = loader_started"
    by (simp_all add: loader_test0_def loader_test_def loader_started_def)
  ultimately show ?thesis
    using t a by (simp add: init_memmap_def MEMMAP_BOOTLOADER_RECLAIMABLE_def)
qed

text \<open>Two steps after the set-up: an allocation and its release.\<close>

definition loader_stepped :: loader_state where
  "loader_stepped = loader_started\<lparr>memmap := [mm 0x1000 0x1000 0x1000, mm 0x2000 0x1000 1, mm 0x3000 0x2000 2, mm 0x5000 0x3000 1,
       mm 0x8000 0x1000 0x1000], loader_mem := zero_fill 0x8000 0x1000 (loader_mem loader_started)\<rparr>"

lemma started_run: "ext_mem_alloc_type_aligned_mode 1 0x1000 0x1000 False loader_started = Inr (0x8000, loader_stepped)"
proof -
  have "claim False (memmap loader_started) 0x8000 0x1000 0x1000 = Inr (True, memmap loader_stepped)"
    by (simp add: claim_def loader_started_def loader_stepped_def map_run)
  moreover have "list_ex (fits 0x8000 0x9000 1) (memmap loader_started)" by (simp add: fits_def loader_started_def map_run)
  moreover have k: "keep_first_page loader_started = False" "allocations_disallowed loader_started = False"
    by (simp_all add: loader_started_def)
  ultimately have "memmap_alloc_range 0x8000 0x1000 0x1000 1 True False False loader_started =
      Inr (True, loader_started\<lparr>memmap := memmap loader_stepped\<rparr>)"
    by (simp add: memmap_alloc_range_def memmap_alloc_range_in_def CHECKED_ADD_def)
  moreover have "find_offer 0x1000 0x1000 False (memmap loader_started) = Some (0x8000, 0x1000)"
    by (simp add: find_offer_def offer_def ALIGN_DOWN_def loader_started_def map_run)
  moreover have "pmm_sanitise_entries False (memmap loader_stepped) False = Inr (memmap loader_stepped)"
    by (simp add: loader_stepped_def map_run)
  ultimately show ?thesis using k
    by (simp add: ext_mem_alloc_type_aligned_mode_def CHECKED_ADD_def ALIGN_DOWN_def MEMMAP_USABLE_def Let_def sanitise_def)
      (simp add: loader_started_def loader_stepped_def loader_test_def)
qed

lemma stepped_run: "\<exists>s. pmm_free 0x8000 1 loader_stepped = Inr s \<and> memmap s = memmap loader_started"
proof -
  have c: "claim False (memmap loader_stepped) 0x8000 0x1000 1 = Inr (True, memmap loader_started)"
    by (simp add: claim_def loader_started_def loader_stepped_def map_run)
  have k: "keep_first_page loader_stepped = False" "allocations_disallowed loader_stepped = False"
    by (simp_all add: loader_stepped_def loader_started_def)
  with c have "memmap_alloc_range 0x8000 0x1000 1 0 False False True loader_stepped = Inr (True, loader_stepped\<lparr>memmap := memmap loader_started\<rparr>)"
    by (simp add: memmap_alloc_range_def memmap_alloc_range_in_def CHECKED_ADD_def)
  then show ?thesis using k by (simp add: pmm_free_def ALIGN_UP_def DIV_ROUNDUP_def CHECKED_ADD_def MEMMAP_USABLE_def)
qed

theorem loader_map_invariant_witness:
  "\<exists>s. loader_step loader_started loader_stepped \<and> loader_step loader_stepped s \<and> memmap s = memmap loader_started \<and>
     sane_state s \<and> usable (memmap s) \<inter> reserved (memmap s) = {}"
proof -
  obtain s where s: "pmm_free 0x8000 1 loader_stepped = Inr s" "memmap s = memmap loader_started" using stepped_run by blast
  have st: "loader_step loader_started loader_stepped" "loader_step loader_stepped s"
    using alloc_step [OF started_run] free_step [OF s(1)] by simp_all
  then have run: "loader_step\<^sup>*\<^sup>* loader_started s" by (metis rtranclp.simps)
  have "memmap loader_test0 = []" "4096 < bss_end loader_test0" by (simp_all add: loader_test0_def loader_test_def)
  from loader_map_invariant [OF init_run this run] st s(2) show ?thesis by blast
qed

end
