(* ===== verification/Blake2b.thy ===== *)
theory Blake2b
  imports Prelude
begin

text \<open>
  The hash of the boot loader's file verification, \<^verbatim>\<open>limine/common/crypt/blake2b.c\<close>: the compression function,
  the streaming interface with its 128-byte buffer, and the filter that hashes a file while it is read.
  The word and buffer arrays are lists; a length is a natural number. The refinement at the end relates
  the buffered code to a description without a buffer.
\<close>

section \<open>Tables\<close>

definition BLAKE2B_OUT_BYTES :: nat where "BLAKE2B_OUT_BYTES = 64"
definition BLAKE2B_BLOCK_BYTES :: nat where "BLAKE2B_BLOCK_BYTES = 128"
definition BLAKE2B_SALT_BYTES :: nat where "BLAKE2B_SALT_BYTES = 16"
definition BLAKE2B_PERSONAL_BYTES :: nat where "BLAKE2B_PERSONAL_BYTES = 16"

definition blake2b_iv :: "u64 list" where
  "blake2b_iv =
     [0x6a09e667f3bcc908, 0xbb67ae8584caa73b, 0x3c6ef372fe94f82b, 0xa54ff53a5f1d36f1,
      0x510e527fade682d1, 0x9b05688c2b3e6c1f, 0x1f83d9abfb41bd6b, 0x5be0cd19137e2179]"

definition blake2b_sigma :: "nat list list" where
  "blake2b_sigma =
     [[ 0,  1,  2,  3,  4,  5,  6,  7,  8,  9, 10, 11, 12, 13, 14, 15],
      [14, 10,  4,  8,  9, 15, 13,  6,  1, 12,  0,  2, 11,  7,  5,  3],
      [11,  8, 12,  0,  5,  2, 15, 13, 10, 14,  3,  6,  7,  1,  9,  4],
      [ 7,  9,  3,  1, 13, 12, 11, 14,  2,  6,  5, 10,  4,  0, 15,  8],
      [ 9,  0,  5,  7,  2,  4, 10, 15, 14,  1, 11, 12,  6,  8,  3, 13],
      [ 2, 12,  6, 10,  0, 11,  8,  3,  4, 13,  7,  5, 15, 14,  1,  9],
      [12,  5,  1, 15, 14, 13,  4, 10,  0,  7,  6,  3,  9,  2,  8, 11],
      [13, 11,  7, 14, 12,  1,  3,  9,  5,  0, 15,  4,  8,  6,  2, 10],
      [ 6, 15, 14,  9, 11,  3,  0,  8, 12,  2, 13,  7,  1,  4, 10,  5],
      [10,  2,  8,  4,  7,  6,  1,  5, 15, 11,  9, 14,  3, 12, 13,  0],
      [ 0,  1,  2,  3,  4,  5,  6,  7,  8,  9, 10, 11, 12, 13, 14, 15],
      [14, 10,  4,  8,  9, 15, 13,  6,  1, 12,  0,  2, 11,  7,  5,  3]]"

record blake2b_state =
  b2_h :: "u64 list"
  b2_t0 :: u64
  b2_t1 :: u64
  b2_f0 :: u64
  b2_f1 :: u64
  b2_buf :: "u8 list"
  b2_buf_len :: nat
  b2_last_node :: u8

record blake2b_param =
  digest_length :: u8
  key_length :: u8
  fan_out :: u8
  depth :: u8
  leaf_length :: u32
  node_offset :: u32
  xof_length :: u32
  node_depth :: u8
  inner_length :: u8
  param_reserved :: "u8 list"
  salt :: "u8 list"
  personal :: "u8 list"

section \<open>Compression\<close>

definition load64_le :: "u8 list \<Rightarrow> u64" where
  "load64_le b = foldr (\<lambda>x acc. ucast x OR push_bit 8 acc) (take 8 b) 0"

definition store64_le :: "u64 \<Rightarrow> u8 list" where
  "store64_le v = map (\<lambda>i. ucast (drop_bit (8 * i) v)) [0..<8]"

definition store32_le :: "u32 \<Rightarrow> u8 list" where
  "store32_le v = map (\<lambda>i. ucast (drop_bit (8 * i) v)) [0..<4]"

text \<open>The packed layout of the parameter block.\<close>

definition param_bytes :: "blake2b_param \<Rightarrow> u8 list" where
  "param_bytes p =
     [digest_length p, key_length p, fan_out p, depth p] @ store32_le (leaf_length p) @ store32_le (node_offset p) @
     store32_le (xof_length p) @ [node_depth p, inner_length p] @ param_reserved p @ salt p @ personal p"

definition blake2b_increment_counter :: "blake2b_state \<Rightarrow> u64 \<Rightarrow> blake2b_state" where
  "blake2b_increment_counter s inc =
     (let t0 = b2_t0 s + inc in s\<lparr>b2_t0 := t0, b2_t1 := b2_t1 s + (if t0 < inc then 1 else 0)\<rparr>)"

definition rotr64 :: "u64 \<Rightarrow> nat \<Rightarrow> u64" where
  "rotr64 w c = drop_bit c w OR push_bit (64 - c) w"

definition mix_G :: "u64 list \<Rightarrow> nat \<Rightarrow> nat \<Rightarrow> nat \<Rightarrow> nat \<Rightarrow> nat \<Rightarrow> nat \<Rightarrow> u64 list \<Rightarrow> u64 list" where
  "mix_G m r i ia ib ic ie v =
     (let a = v ! ia; b = v ! ib; c = v ! ic; d = v ! ie;
          a = a + b + m ! (blake2b_sigma ! r ! (2 * i + 0));
          d = rotr64 (d XOR a) 32;
          c = c + d;
          b = rotr64 (b XOR c) 24;
          a = a + b + m ! (blake2b_sigma ! r ! (2 * i + 1));
          d = rotr64 (d XOR a) 16;
          c = c + d;
          b = rotr64 (b XOR c) 63
      in v[ia := a, ib := b, ic := c, ie := d])"

definition mix_ROUND :: "u64 list \<Rightarrow> nat \<Rightarrow> u64 list \<Rightarrow> u64 list" where
  "mix_ROUND m r v =
     mix_G m r 7 3 4 9 14 (mix_G m r 6 2 7 8 13 (mix_G m r 5 1 6 11 12 (mix_G m r 4 0 5 10 15
    (mix_G m r 3 3 7 11 15 (mix_G m r 2 2 6 10 14 (mix_G m r 1 1 5 9 13 (mix_G m r 0 0 4 8 12 v)))))))"

definition blake2b_compress :: "blake2b_state \<Rightarrow> u8 list \<Rightarrow> blake2b_state" where
  "blake2b_compress s block =
     (let m = map (\<lambda>i. load64_le (drop (i * 8) block)) [0..<16];
          v = map (\<lambda>i. b2_h s ! i) [0..<8] @
              [blake2b_iv ! 0, blake2b_iv ! 1, blake2b_iv ! 2, blake2b_iv ! 3, blake2b_iv ! 4 XOR b2_t0 s,
               blake2b_iv ! 5 XOR b2_t1 s, blake2b_iv ! 6 XOR b2_f0 s, blake2b_iv ! 7 XOR b2_f1 s];
          v' = fold (mix_ROUND m) [0..<12] v
      in s\<lparr>b2_h := map (\<lambda>i. b2_h s ! i XOR v' ! i XOR v' ! (i + 8)) [0..<8]\<rparr>)"

section \<open>The streaming interface\<close>

definition blake2b_zero :: blake2b_state where
  "blake2b_zero = \<lparr>b2_h = replicate 8 0, b2_t0 = 0, b2_t1 = 0, b2_f0 = 0, b2_f1 = 0,
     b2_buf = replicate BLAKE2B_BLOCK_BYTES 0, b2_buf_len = 0, b2_last_node = 0\<rparr>"

definition blake2b_init :: blake2b_state where
  "blake2b_init =
     (let param = \<lparr>digest_length = of_nat BLAKE2B_OUT_BYTES, key_length = 0, fan_out = 1, depth = 1, leaf_length = 0,
                    node_offset = 0, xof_length = 0, node_depth = 0, inner_length = 0, param_reserved = replicate 14 0,
                    salt = replicate BLAKE2B_SALT_BYTES 0, personal = replicate BLAKE2B_PERSONAL_BYTES 0\<rparr>
      in blake2b_zero\<lparr>b2_h := map (\<lambda>i. blake2b_iv ! i XOR load64_le (drop (8 * i) (param_bytes param))) [0..<8]\<rparr>)"

text \<open>A copy into the buffer at an offset.\<close>

definition put :: "u8 list \<Rightarrow> nat \<Rightarrow> u8 list \<Rightarrow> u8 list" where
  "put b off xs = take off b @ xs @ drop (off + length xs) b"

text \<open>The loop over the blocks that are hashed straight from the input; it returns the rest.\<close>

function update_loop :: "blake2b_state \<Rightarrow> u8 list \<Rightarrow> blake2b_state \<times> u8 list" where
  "update_loop s inp =
     (if length inp > BLAKE2B_BLOCK_BYTES
      then update_loop (blake2b_compress (blake2b_increment_counter s (of_nat BLAKE2B_BLOCK_BYTES)) (take BLAKE2B_BLOCK_BYTES inp))
             (drop BLAKE2B_BLOCK_BYTES inp)
      else (s, inp))"
  by pat_completeness auto
termination
  by (relation "measure (\<lambda>(s, inp). length inp)") (auto simp: BLAKE2B_BLOCK_BYTES_def)

declare update_loop.simps [simp del]

definition blake2b_update :: "blake2b_state \<Rightarrow> u8 list \<Rightarrow> blake2b_state" where
  "blake2b_update s inp =
     (if inp = [] then s
      else
        let left = b2_buf_len s; fill = BLAKE2B_BLOCK_BYTES - left;
            (s1, rest) =
              (if length inp > fill then
                 let s1 = s\<lparr>b2_buf_len := 0, b2_buf := put (b2_buf s) left (take fill inp)\<rparr>;
                     s2 = blake2b_increment_counter s1 (of_nat BLAKE2B_BLOCK_BYTES);
                     s3 = blake2b_compress s2 (b2_buf s2)
                 in update_loop s3 (drop fill inp)
               else (s, inp))
        in s1\<lparr>b2_buf := put (b2_buf s1) (b2_buf_len s1) rest, b2_buf_len := b2_buf_len s1 + length rest\<rparr>)"

definition blake2b_final :: "blake2b_state \<Rightarrow> blake2b_state \<times> u8 list" where
  "blake2b_final s =
     (let s1 = blake2b_increment_counter s (of_nat (b2_buf_len s));
          s2 = s1\<lparr>b2_f0 := - 1, b2_buf := put (b2_buf s1) (b2_buf_len s1) (replicate (BLAKE2B_BLOCK_BYTES - b2_buf_len s1) 0)\<rparr>;
          s3 = blake2b_compress s2 (b2_buf s2)
      in (s3, concat (map (\<lambda>i. store64_le (b2_h s3 ! i)) [0..<8])))"

definition blake2b :: "u8 list \<Rightarrow> u8 list" where
  "blake2b inp = snd (blake2b_final (blake2b_update blake2b_init inp))"

section \<open>The filter\<close>

text \<open>A file that lies in memory below 4 GiB, and \<open>fread\<close> on it.\<close>

definition fread :: "u8 list \<Rightarrow> nat \<Rightarrow> nat \<Rightarrow> string + u8 list" where
  "fread bytes loc cnt =
     (if loc > length bytes \<or> cnt > length bytes - loc then Inl ''fread: attempted out of bounds read''
      else Inr (take cnt (drop loc bytes)))"

record blake2b_handle =
  bh_source :: "u8 list"
  bh_state :: blake2b_state
  bh_pos :: nat
  bh_finalized :: bool
  bh_digest :: "u8 list"

definition blake2b_read :: "nat \<Rightarrow> nat \<Rightarrow> blake2b_handle \<Rightarrow> string + (u8 list \<times> blake2b_handle)" where
  "blake2b_read loc cnt fh =
     (if loc \<noteq> bh_pos fh then Inl ''blake2b filter: non-sequential read''
      else case fread (bh_source fh) loc cnt of
             Inl msg \<Rightarrow> Inl msg
           | Inr bytes \<Rightarrow>
               Inr (bytes, fh\<lparr>bh_state := blake2b_update (bh_state fh) bytes, bh_pos := bh_pos fh + length bytes\<rparr>))"

text \<open>The handle is zero-initialised memory.\<close>

definition blake2b_open :: "u8 list \<Rightarrow> blake2b_handle" where
  "blake2b_open source = \<lparr>bh_source = source, bh_state = blake2b_init, bh_pos = 0, bh_finalized = False,
     bh_digest = replicate BLAKE2B_OUT_BYTES 0\<rparr>"

definition blake2b_check_hash :: "blake2b_handle \<Rightarrow> u8 list \<Rightarrow> bool \<times> blake2b_handle" where
  "blake2b_check_hash fh reference_hash =
     (let fh' = (if bh_finalized fh then fh
                 else case blake2b_final (bh_state fh) of (s, digest) \<Rightarrow>
                        fh\<lparr>bh_state := s, bh_digest := digest, bh_finalized := True\<rparr>)
      in (bh_digest fh' = take BLAKE2B_OUT_BYTES reference_hash, fh'))"

section \<open>The buffer refines a list of pending bytes\<close>

definition b2_ok :: "blake2b_state \<Rightarrow> bool" where
  "b2_ok s \<longleftrightarrow> length (b2_buf s) = BLAKE2B_BLOCK_BYTES \<and> b2_buf_len s \<le> BLAKE2B_BLOCK_BYTES"

definition core :: "blake2b_state \<Rightarrow> blake2b_state" where
  "core s = s\<lparr>b2_buf := [], b2_buf_len := 0\<rparr>"

definition pending :: "blake2b_state \<Rightarrow> u8 list" where
  "pending s = take (b2_buf_len s) (b2_buf s)"

text \<open>The abstract state: the chaining value with its counter, and the bytes that wait for a full block.\<close>

definition abs_state :: "blake2b_state \<Rightarrow> blake2b_state \<times> u8 list" where
  "abs_state s = (core s, pending s)"

definition absorb :: "u8 list \<Rightarrow> blake2b_state \<times> u8 list \<Rightarrow> blake2b_state \<times> u8 list" where
  "absorb inp a = update_loop (fst a) (snd a @ inp)"

lemma core_simps [simp]: "core (blake2b_increment_counter s n) = blake2b_increment_counter (core s) n"
  "core (blake2b_compress s b) = blake2b_compress (core s) b" "core (core s) = core s"
  "core (s\<lparr>b2_buf := x\<rparr>) = core s" "core (s\<lparr>b2_buf_len := k\<rparr>) = core s"
  by (simp_all add: core_def blake2b_increment_counter_def blake2b_compress_def Let_def)

lemma buf_simps [simp]: "b2_buf (blake2b_increment_counter s n) = b2_buf s" "b2_buf (blake2b_compress s b) = b2_buf s"
  "b2_buf_len (blake2b_increment_counter s n) = b2_buf_len s" "b2_buf_len (blake2b_compress s b) = b2_buf_len s"
  by (simp_all add: blake2b_increment_counter_def blake2b_compress_def Let_def)

lemma put_length [simp]: "off + length xs \<le> length b \<Longrightarrow> length (put b off xs) = length b"
  by (simp add: put_def)

lemma put_take: "off + length xs \<le> length b \<Longrightarrow> take (off + length xs) (put b off xs) = take off b @ xs"
  by (simp add: put_def)

lemma update_loop_core:
  "update_loop (core s) inp = (core (fst (update_loop s inp)), snd (update_loop s inp)) \<and>
     b2_buf (fst (update_loop s inp)) = b2_buf s \<and> b2_buf_len (fst (update_loop s inp)) = b2_buf_len s \<and>
     length (snd (update_loop s inp)) \<le> BLAKE2B_BLOCK_BYTES"
proof (induction s inp rule: update_loop.induct)
  case (1 s inp)
  show ?case
  proof (cases "length inp > BLAKE2B_BLOCK_BYTES")
    case True
    then show ?thesis using 1 by (subst (1 2 3 4 5 6) update_loop.simps) simp
  next
    case False
    then show ?thesis by (subst (1 2 3 4 5 6) update_loop.simps) simp
  qed
qed

lemma update_loop_long:
  "length inp > BLAKE2B_BLOCK_BYTES \<Longrightarrow> update_loop s inp =
     update_loop (blake2b_compress (blake2b_increment_counter s (of_nat BLAKE2B_BLOCK_BYTES)) (take BLAKE2B_BLOCK_BYTES inp))
       (drop BLAKE2B_BLOCK_BYTES inp)"
  by (subst update_loop.simps) simp

lemma update_loop_short: "length inp \<le> BLAKE2B_BLOCK_BYTES \<Longrightarrow> update_loop s inp = (s, inp)"
  by (subst update_loop.simps) simp

lemma update_refines:
  assumes "b2_ok s"
  shows "b2_ok (blake2b_update s inp)" "abs_state (blake2b_update s inp) = absorb inp (abs_state s)"
proof -
  have lb: "length (b2_buf s) = BLAKE2B_BLOCK_BYTES" "b2_buf_len s \<le> BLAKE2B_BLOCK_BYTES" using assms by (simp_all add: b2_ok_def)
  let ?left = "b2_buf_len s" and ?fill = "BLAKE2B_BLOCK_BYTES - b2_buf_len s"
  have lp: "length (pending s) = ?left" using lb by (simp add: pending_def)
  have "b2_ok (blake2b_update s inp) \<and> abs_state (blake2b_update s inp) = absorb inp (abs_state s)"
  proof (cases "inp = []")
    case True
    then show ?thesis using assms lp lb by (simp add: blake2b_update_def absorb_def abs_state_def update_loop_short)
  next
    case ne: False
    show ?thesis
    proof (cases "length inp > ?fill")
      case False
      let ?s = "s\<lparr>b2_buf := put (b2_buf s) ?left inp, b2_buf_len := ?left + length inp\<rparr>"
      have u: "blake2b_update s inp = ?s" using ne False by (simp add: blake2b_update_def Let_def)
      have fit: "?left + length inp \<le> length (b2_buf s)" using False lb by simp
      have "pending ?s = pending s @ inp" using put_take [OF fit] by (simp add: pending_def)
      then show ?thesis using fit lb lp unfolding u
        by (simp add: b2_ok_def absorb_def abs_state_def update_loop_short)
    next
      case True
      let ?s1 = "s\<lparr>b2_buf_len := 0, b2_buf := put (b2_buf s) ?left (take ?fill inp)\<rparr>"
      let ?s3 = "blake2b_compress (blake2b_increment_counter ?s1 (of_nat BLAKE2B_BLOCK_BYTES)) (b2_buf ?s1)"
      obtain s4 rest where r: "update_loop ?s3 (drop ?fill inp) = (s4, rest)" by (metis surj_pair)
      have u: "blake2b_update s inp = s4\<lparr>b2_buf := put (b2_buf s4) (b2_buf_len s4) rest, b2_buf_len := b2_buf_len s4 + length rest\<rparr>"
        using ne True r by (simp add: blake2b_update_def Let_def)
      note c = update_loop_core [of ?s3 "drop ?fill inp", unfolded r]
      have lt: "length (take ?fill inp) = ?fill" using True by simp
      have blk: "b2_buf ?s1 = pending s @ take ?fill inp" using lt lb by (simp add: put_def pending_def)
      have l1: "length (b2_buf ?s1) = BLAKE2B_BLOCK_BYTES" unfolding blk using lp lt lb by simp
      have s4: "b2_buf s4 = b2_buf ?s1" "b2_buf_len s4 = 0" "length rest \<le> BLAKE2B_BLOCK_BYTES" using c by simp_all
      have fit: "0 + length rest \<le> length (b2_buf s4)" using s4 l1 by simp
      have "pending (blake2b_update s inp) = rest"
        unfolding u pending_def using put_take [OF fit] s4(2) by simp
      moreover have "core (blake2b_update s inp) = core s4" unfolding u by simp
      moreover have "absorb inp (abs_state s) = (core s4, rest)"
      proof -
        have "length (pending s @ inp) > BLAKE2B_BLOCK_BYTES" using lp True lb by simp
        moreover have "take BLAKE2B_BLOCK_BYTES (pending s @ inp) = b2_buf ?s1" "drop BLAKE2B_BLOCK_BYTES (pending s @ inp) = drop ?fill inp"
          using lp lb blk by simp_all
        ultimately have "absorb inp (abs_state s) = update_loop (core ?s3) (drop ?fill inp)"
          by (simp add: absorb_def abs_state_def update_loop_long)
        then show ?thesis using c by simp
      qed
      moreover have "b2_ok (blake2b_update s inp)" unfolding u b2_ok_def using fit s4 l1 by simp
      ultimately show ?thesis by (simp add: abs_state_def)
    qed
  qed
  then show "b2_ok (blake2b_update s inp)" "abs_state (blake2b_update s inp) = absorb inp (abs_state s)" by simp_all
qed

lemma update_loop_append:
  "update_loop s (xs @ ys) = (case update_loop s xs of (s', r) \<Rightarrow> update_loop s' (r @ ys))"
proof (induction s xs rule: update_loop.induct)
  case (1 s xs)
  show ?case
  proof (cases "length xs > BLAKE2B_BLOCK_BYTES")
    case True
    then show ?thesis using 1 [OF True] by (simp add: update_loop_long)
  next
    case False
    then show ?thesis by (simp add: update_loop_short)
  qed
qed

lemma absorb_append: "absorb (xs @ ys) a = absorb ys (absorb xs a)"
  using update_loop_append [of "fst a" "snd a @ xs" ys] by (simp add: absorb_def split: prod.splits)

section \<open>A reference description\<close>

text \<open>The state without buffer: chaining value, 128-bit count of bytes, finalisation flag.\<close>

definition plain_state :: "u64 list \<Rightarrow> nat \<Rightarrow> u64 \<Rightarrow> blake2b_state" where
  "plain_state h n f = \<lparr>b2_h = h, b2_t0 = of_nat n, b2_t1 = of_nat (n div 2 ^ 64), b2_f0 = f, b2_f1 = 0, b2_buf = [],
     b2_buf_len = 0, b2_last_node = 0\<rparr>"

definition spec_F :: "u64 list \<Rightarrow> u8 list \<Rightarrow> nat \<Rightarrow> bool \<Rightarrow> u64 list" where
  "spec_F h block n final = b2_h (blake2b_compress (plain_state h n (if final then - 1 else 0)) block)"

text \<open>All blocks but the last are full; the last one is padded with zeros and counts the bytes of the message.\<close>

function spec_hash :: "u64 list \<Rightarrow> nat \<Rightarrow> u8 list \<Rightarrow> u64 list" where
  "spec_hash h n msg =
     (if length msg > 128 then spec_hash (spec_F h (take 128 msg) (n + 128) False) (n + 128) (drop 128 msg)
      else spec_F h (msg @ replicate (128 - length msg) 0) (n + length msg) True)"
  by pat_completeness auto
termination
  by (relation "measure (\<lambda>(h, n, msg). length msg)") auto

declare spec_hash.simps [simp del]

definition spec_blake2b :: "u8 list \<Rightarrow> u8 list" where
  "spec_blake2b msg = concat (map store64_le (spec_hash (b2_h blake2b_init) 0 msg))"

lemma carry_nat:
  fixes M :: nat
  assumes "k < M"
  shows "(n mod M + k) mod M < k \<longleftrightarrow> M \<le> n mod M + k" "(n + k) div M = n div M + (if M \<le> n mod M + k then 1 else 0)"
proof -
  have r: "n mod M < M" using assms by simp
  show "(n mod M + k) mod M < k \<longleftrightarrow> M \<le> n mod M + k"
  proof (cases "M \<le> n mod M + k")
    case True
    then have "(n mod M + k) mod M = (n mod M + k - M) mod M" by (rule le_mod_geq)
    also have "\<dots> = n mod M + k - M" using r assms by (intro mod_less) linarith
    finally have "(n mod M + k) mod M = n mod M + k - M" .
    then show ?thesis using True r by simp
  next
    case False
    then show ?thesis by simp
  qed
  have "(n mod M + k) div M = (if M \<le> n mod M + k then 1 else 0)" 
  proof (cases "M \<le> n mod M + k")
    case True
    have "n mod M + k - M < M" using r assms by linarith
    then show ?thesis using True assms by (simp add: le_div_geq)
  qed simp
  then show "(n + k) div M = n div M + (if M \<le> n mod M + k then 1 else 0)"
    using assms by (simp add: div_add1_eq [of n k M])
qed

lemma counter_carry:
  assumes "k < 2 ^ 64"
  shows "(of_nat (n + k) :: u64) < of_nat k \<longleftrightarrow> 2 ^ 64 \<le> n mod 2 ^ 64 + k"
proof -
  have "unat (of_nat (n + k) :: u64) = (n + k) mod 2 ^ 64" unfolding unat_of_nat by simp
  then have "unat (of_nat (n + k) :: u64) = (n mod 2 ^ 64 + k) mod 2 ^ 64" by (simp only: mod_add_left_eq)
  moreover have "unat (of_nat k :: u64) = k" using assms by (rule unat_of_nat64)
  ultimately show ?thesis unfolding word_less_nat_alt using carry_nat(1) [OF assms, of n] by (simp only:)
qed

lemmas counter_div = carry_nat(2) [of _ "2 ^ 64"]

lemma increment_plain:
  assumes "k < 2 ^ 64"
  shows "blake2b_increment_counter (plain_state h n f) (of_nat k) = plain_state h (n + k) f"
  using counter_carry [OF assms, of n] counter_div [OF assms, of n]
  by (auto simp: blake2b_increment_counter_def plain_state_def Let_def)

lemma compress_plain:
  "blake2b_compress (plain_state h n f) b = plain_state (b2_h (blake2b_compress (plain_state h n f) b)) n f"
  by (simp add: blake2b_compress_def plain_state_def Let_def)

definition digest_of :: "blake2b_state \<times> u8 list \<Rightarrow> u64 list" where
  "digest_of a = (case a of (c, p) \<Rightarrow>
     b2_h (blake2b_compress ((blake2b_increment_counter c (of_nat (length p)))\<lparr>b2_f0 := - 1\<rparr>)
       (p @ replicate (BLAKE2B_BLOCK_BYTES - length p) 0)))"

lemma b2_h_core: "b2_h (core s) = b2_h s"
  by (simp add: core_def)

lemma core_f0: "core (s\<lparr>b2_f0 := x\<rparr>) = (core s)\<lparr>b2_f0 := x\<rparr>"
  by (simp add: core_def)

lemma final_digest:
  assumes "b2_ok s"
  shows "snd (blake2b_final s) = concat (map store64_le (digest_of (abs_state s)))"
proof -
  let ?n = "b2_buf_len s"
  let ?s1 = "blake2b_increment_counter s (of_nat ?n)"
  let ?z = "replicate (BLAKE2B_BLOCK_BYTES - ?n) 0"
  have lp: "length (pending s) = ?n" using assms by (simp add: b2_ok_def pending_def)
  have put: "put (b2_buf s) ?n ?z = pending s @ ?z" using assms by (simp add: put_def pending_def b2_ok_def)
  let ?s3 = "blake2b_compress (?s1\<lparr>b2_f0 := - 1, b2_buf := pending s @ ?z\<rparr>) (pending s @ ?z)"
  have "b2_h ?s3 = b2_h (core ?s3)" by (simp only: b2_h_core)
  also have "core ?s3 = blake2b_compress ((blake2b_increment_counter (core s) (of_nat ?n))\<lparr>b2_f0 := - 1\<rparr>) (pending s @ ?z)"
    by (simp add: core_f0)
  also have "b2_h \<dots> = digest_of (abs_state s)" by (simp add: digest_of_def abs_state_def lp)
  finally have h: "b2_h ?s3 = digest_of (abs_state s)" .
  have l: "length (b2_h ?s3) = 8" by (simp add: blake2b_compress_def Let_def)
  have "map (\<lambda>i. f (xs ! i)) [0..<8] = map f xs" if "length xs = 8" for f :: "u64 \<Rightarrow> u8 list" and xs
    using that by (intro nth_equalityI) simp_all
  then have "map (\<lambda>i. store64_le (b2_h ?s3 ! i)) [0..<8] = map store64_le (b2_h ?s3)" using l by blast
  then have "snd (blake2b_final s) = concat (map store64_le (b2_h ?s3))" by (simp add: blake2b_final_def Let_def put)
  then show ?thesis using h by simp
qed

lemma spec_hash_absorb: "spec_hash h n msg = digest_of (update_loop (plain_state h n 0) msg)"
proof (induction h n msg rule: spec_hash.induct)
  case (1 h n msg)
  show ?case
  proof (cases "length msg > 128")
    case True
    have "blake2b_compress (blake2b_increment_counter (plain_state h n 0) (of_nat BLAKE2B_BLOCK_BYTES)) (take 128 msg) =
        plain_state (spec_F h (take 128 msg) (n + 128) False) (n + 128) 0"
      using increment_plain [of 128 h n 0] compress_plain [of h "n + 128" 0] by (simp add: BLAKE2B_BLOCK_BYTES_def spec_F_def)
    then show ?thesis using 1 [OF True] True by (subst spec_hash.simps) (simp add: update_loop_long BLAKE2B_BLOCK_BYTES_def)
  next
    case False
    have "(plain_state h k 0)\<lparr>b2_f0 := - 1\<rparr> = plain_state h k (- 1)" for k by (simp add: plain_state_def)
    then show ?thesis using False increment_plain [of "length msg" h n 0]
      by (subst spec_hash.simps) (simp add: update_loop_short digest_of_def spec_F_def BLAKE2B_BLOCK_BYTES_def)
  qed
qed

lemma init_ok: "b2_ok blake2b_init" "abs_state blake2b_init = (plain_state (b2_h blake2b_init) 0 0, [])"
  by (simp_all add: b2_ok_def blake2b_init_def blake2b_zero_def Let_def abs_state_def core_def pending_def plain_state_def)

lemma blake2b_spec: "blake2b msg = spec_blake2b msg"
  using update_refines [OF init_ok(1), of msg] final_digest [of "blake2b_update blake2b_init msg"]
  by (simp add: blake2b_def spec_blake2b_def spec_hash_absorb init_ok(2) absorb_def)

text \<open>Property C21: the buffered code computes the hash of the reference description, for messages of any length.\<close>

theorem blake2b_correct: "blake2b msg = spec_blake2b msg"
  by (rule blake2b_spec)

text \<open>Property C5: the update of the buffered state refines the absorption of bytes by the abstract state, and
  hashing in pieces is hashing the whole.\<close>

theorem blake2b_update_refines:
  assumes "b2_ok s"
  shows "b2_ok (blake2b_update s xs) \<and> abs_state (blake2b_update s xs) = absorb xs (abs_state s) \<and>
     abs_state (blake2b_update (blake2b_update s xs) ys) = abs_state (blake2b_update s (xs @ ys)) \<and>
     snd (blake2b_final (blake2b_update (blake2b_update s xs) ys)) = snd (blake2b_final (blake2b_update s (xs @ ys)))"
  using update_refines [OF assms, of xs] update_refines [OF update_refines(1) [OF assms, of xs], of ys]
    update_refines [OF assms, of "xs @ ys"] final_digest by (simp add: absorb_append)

theorem blake2b_update_refines_witness:
  "abs_state (blake2b_update (blake2b_update blake2b_init [1, 2]) [3]) = abs_state (blake2b_update blake2b_init [1, 2, 3])"
  using blake2b_update_refines [OF init_ok(1), of "[1, 2]" "[3]"] by simp

section \<open>Hashing a file while it is read\<close>

text \<open>A client of the filter: reads of the given sizes, each where the last one ended.\<close>

primrec read_pieces :: "nat list \<Rightarrow> blake2b_handle \<Rightarrow> string + (u8 list \<times> blake2b_handle)" where
  "read_pieces [] fh = Inr ([], fh)"
| "read_pieces (n # ns) fh = (case blake2b_read (bh_pos fh) n fh of
     Inl msg \<Rightarrow> Inl msg
   | Inr (bytes, fh') \<Rightarrow> (case read_pieces ns fh' of
       Inl msg \<Rightarrow> Inl msg
     | Inr (later, fh'') \<Rightarrow> Inr (bytes @ later, fh'')))"

definition handle_ok :: "blake2b_handle \<Rightarrow> bool" where
  "handle_ok fh \<longleftrightarrow> b2_ok (bh_state fh) \<and> \<not> bh_finalized fh \<and> bh_pos fh \<le> length (bh_source fh) \<and>
     abs_state (bh_state fh) = absorb (take (bh_pos fh) (bh_source fh)) (abs_state blake2b_init)"

lemma handle_ok_open: "handle_ok (blake2b_open src)"
  by (simp add: handle_ok_def blake2b_open_def init_ok absorb_def update_loop_short)

lemma blake2b_read_ok:
  assumes "handle_ok fh" "n \<le> length (bh_source fh) - bh_pos fh"
  shows "\<exists>fh'. blake2b_read (bh_pos fh) n fh = Inr (take n (drop (bh_pos fh) (bh_source fh)), fh') \<and> handle_ok fh' \<and>
     bh_source fh' = bh_source fh \<and> bh_pos fh' = bh_pos fh + n"
proof -
  let ?b = "take n (drop (bh_pos fh) (bh_source fh))"
  let ?fh = "fh\<lparr>bh_state := blake2b_update (bh_state fh) ?b, bh_pos := bh_pos fh + n\<rparr>"
  have ok: "b2_ok (bh_state fh)" "bh_pos fh \<le> length (bh_source fh)" using assms(1) by (simp_all add: handle_ok_def)
  have l: "length ?b = n" using assms(2) by simp
  have "blake2b_read (bh_pos fh) n fh = Inr (?b, ?fh)"
    using ok(2) assms(2) l by (simp add: blake2b_read_def fread_def)
  moreover have "handle_ok ?fh"
    using assms ok update_refines [OF ok(1), of ?b] by (simp add: handle_ok_def take_add absorb_append)
  ultimately show ?thesis by auto
qed

lemma read_pieces_ok:
  assumes "handle_ok fh" "bh_pos fh + sum_list ns \<le> length (bh_source fh)"
  shows "\<exists>fh'. read_pieces ns fh = Inr (take (sum_list ns) (drop (bh_pos fh) (bh_source fh)), fh') \<and> handle_ok fh' \<and>
     bh_source fh' = bh_source fh \<and> bh_pos fh' = bh_pos fh + sum_list ns"
  using assms
proof (induction ns arbitrary: fh)
  case Nil
  then show ?case by simp
next
  case (Cons n ns)
  obtain fh1 where r: "blake2b_read (bh_pos fh) n fh = Inr (take n (drop (bh_pos fh) (bh_source fh)), fh1)" "handle_ok fh1"
      "bh_source fh1 = bh_source fh" "bh_pos fh1 = bh_pos fh + n"
    using blake2b_read_ok [OF Cons.prems(1), of n] Cons.prems(2) by fastforce
  then obtain fh2 where "read_pieces ns fh1 = Inr (take (sum_list ns) (drop (bh_pos fh + n) (bh_source fh)), fh2)" "handle_ok fh2"
      "bh_source fh2 = bh_source fh" "bh_pos fh2 = bh_pos fh + n + sum_list ns"
    using Cons.IH [of fh1] Cons.prems(2) by auto
  then show ?case using r by (simp add: take_add add.commute)
qed

lemma check_hash_ok:
  assumes "handle_ok fh" "bh_pos fh = length (bh_source fh)"
  shows "fst (blake2b_check_hash fh ref) \<longleftrightarrow> blake2b (bh_source fh) = take BLAKE2B_OUT_BYTES ref"
    "blake2b_check_hash (snd (blake2b_check_hash fh ref)) ref' = (blake2b (bh_source fh) = take BLAKE2B_OUT_BYTES ref', snd (blake2b_check_hash fh ref))"
proof -
  have "b2_ok (blake2b_update blake2b_init (bh_source fh))"
      "abs_state (blake2b_update blake2b_init (bh_source fh)) = abs_state (bh_state fh)"
    using assms update_refines [OF init_ok(1), of "bh_source fh"] by (simp_all add: handle_ok_def)
  then have "snd (blake2b_final (bh_state fh)) = blake2b (bh_source fh)"
    using assms(1) final_digest by (simp add: blake2b_def handle_ok_def)
  then show "fst (blake2b_check_hash fh ref) \<longleftrightarrow> blake2b (bh_source fh) = take BLAKE2B_OUT_BYTES ref"
    "blake2b_check_hash (snd (blake2b_check_hash fh ref)) ref' = (blake2b (bh_source fh) = take BLAKE2B_OUT_BYTES ref', snd (blake2b_check_hash fh ref))"
    using assms(1) by (auto simp: blake2b_check_hash_def handle_ok_def split: prod.splits)
qed

text \<open>Property C22: a client that reads a file through the filter in pieces of any sizes gets the bytes of the file, and
  the hash check afterwards, the first and every later one, compares the reference with the hash of the whole file.\<close>

theorem filter_checks_file:
  assumes "sum_list sizes = length src"
  shows "\<exists>fh. read_pieces sizes (blake2b_open src) = Inr (src, fh) \<and>
     fst (blake2b_check_hash fh ref) = (spec_blake2b src = take BLAKE2B_OUT_BYTES ref) \<and>
     blake2b_check_hash (snd (blake2b_check_hash fh ref)) ref' =
       (spec_blake2b src = take BLAKE2B_OUT_BYTES ref', snd (blake2b_check_hash fh ref))"
proof -
  have "bh_source (blake2b_open src) = src" "bh_pos (blake2b_open src) = 0" by (simp_all add: blake2b_open_def)
  then obtain fh where "read_pieces sizes (blake2b_open src) = Inr (src, fh)" "handle_ok fh" "bh_source fh = src" "bh_pos fh = length src"
    using read_pieces_ok [OF handle_ok_open [of src], of sizes] assms by auto
  then show ?thesis using check_hash_ok [of fh] blake2b_spec [of src] by auto
qed

theorem filter_checks_file_witness:
  "\<exists>fh. read_pieces [1, 0, 2] (blake2b_open [97, 98, 99]) = Inr ([97, 98, 99], fh) \<and>
     fst (blake2b_check_hash fh (spec_blake2b [97, 98, 99])) = (spec_blake2b [97, 98, 99] = take BLAKE2B_OUT_BYTES (spec_blake2b [97, 98, 99]))"
  using filter_checks_file [of "[1, 0, 2]" "[97, 98, 99]" "spec_blake2b [97, 98, 99]" "[]"] by auto

text \<open>Theorem: a read that does not continue the last one stops the machine.\<close>

theorem filter_refuses_seek:
  "loc \<noteq> bh_pos fh \<Longrightarrow> blake2b_read loc n fh = Inl ''blake2b filter: non-sequential read''"
  by (simp add: blake2b_read_def)

end
