(* ===== verification/LoaderTime.thy ===== *)
theory LoaderTime
  imports Prelude "HOL-Library.Signed_Division"
begin

text \<open>
  The clock and the integer routines of the boot loader: \<^verbatim>\<open>limine/common/lib/time.c\<close> (BIOS build), the
  binary-coded decimals of \<^verbatim>\<open>misc.s2.c\<close>, the square root and the trailing zeros of \<^verbatim>\<open>misc.c\<close>. The firmware's clock
  is an argument: the answer to the \<open>n\<close>-th call of the real-time clock interrupt. A division of C
  integers is \<open>sdiv\<close>, which rounds towards zero.
\<close>

section \<open>Integer routines\<close>

function sqrt_start :: "u64 \<Rightarrow> u64 \<Rightarrow> u64" where
  "sqrt_start op one = (if one > op then sqrt_start op (drop_bit 2 one) else one)"
  by pat_completeness auto
termination
  by (relation "measure (\<lambda>(op, one). unat one)") (auto simp: drop_bit_eq_div unat_div word_less_nat_alt)

function sqrt_loop :: "u64 \<Rightarrow> u64 \<Rightarrow> u64 \<Rightarrow> u64" where
  "sqrt_loop op res one =
     (if one \<noteq> 0 then
        (if op \<ge> res + one then sqrt_loop (op - (res + one)) (drop_bit 1 (res + 2 * one)) (drop_bit 2 one)
         else sqrt_loop op (drop_bit 1 res) (drop_bit 2 one))
      else res)"
  by pat_completeness auto
termination
  by (relation "measure (\<lambda>(op, res, one). unat one)") (auto simp: drop_bit_eq_div unat_div unat_gt_0)

declare sqrt_start.simps [simp del] sqrt_loop.simps [simp del]

definition loader_sqrt :: "u64 \<Rightarrow> u64" where
  "loader_sqrt a = sqrt_loop a 0 (sqrt_start a (push_bit 62 1))"

function trailing_loop :: "nat \<Rightarrow> u64 \<Rightarrow> nat" where
  "trailing_loop i val = (if 64 \<le> i then 64 else if val AND 1 \<noteq> 0 then i else trailing_loop (Suc i) (drop_bit 1 val))"
  by pat_completeness auto
termination
  by (relation "measure (\<lambda>(i, val). 64 - i)") auto

declare trailing_loop.simps [simp del]

definition get_trailing_zeros :: "u64 \<Rightarrow> nat" where
  "get_trailing_zeros val = trailing_loop 0 val"

definition bcd_to_int :: "u8 \<Rightarrow> u8" where
  "bcd_to_int val = (val AND 0x0F) + drop_bit 4 (val AND 0xF0) * 10"

definition int_to_bcd :: "u8 \<Rightarrow> u8" where
  "int_to_bcd val = (val mod 10) OR push_bit 4 (val div 10)"

section \<open>The clock\<close>

definition get_jdn :: "int \<Rightarrow> int \<Rightarrow> int \<Rightarrow> int" where
  "get_jdn days months years =
     (1461 * (years + 4800 + (months - 14) sdiv 12)) sdiv 4 + (367 * (months - 2 - 12 * ((months - 14) sdiv 12))) sdiv 12 -
     (3 * ((years + 4900 + (months - 14) sdiv 12) sdiv 100)) sdiv 4 + days - 32075"

definition get_unix_epoch :: "u8 \<Rightarrow> u8 \<Rightarrow> u8 \<Rightarrow> u8 \<Rightarrow> u8 \<Rightarrow> u16 \<Rightarrow> u64" where
  "get_unix_epoch seconds minutes hours days months years =
     (let jdn_current = of_int (get_jdn (uint days) (uint months) (uint years)) :: u64;
          jdn_1970 = of_int (get_jdn 1 1 1970) :: u64
      in if jdn_current < jdn_1970 then 0
         else (jdn_current - jdn_1970) * (60 * 60 * 24) + of_int (uint hours * 3600) + of_int (uint minutes * 60) + of_int (uint seconds))"

text \<open>An answer of the clock: the carry flag reports a failure.\<close>

record rtc_answer =
  rtc_carry :: bool
  rtc_ecx :: u32
  rtc_edx :: u32

definition low_bcd :: "u32 \<Rightarrow> u8" where
  "low_bcd r = bcd_to_int (ucast (r AND 0xFF))"

definition high_bcd :: "u32 \<Rightarrow> u8" where
  "high_bcd r = bcd_to_int (ucast (drop_bit 8 (r AND 0xFF00)))"

text \<open>Calls \<open>i\<close> and \<open>i + 2\<close> ask for the date, call \<open>i + 1\<close> for the time; when the day has changed in between
  everything is asked again.\<close>

partial_function (option) rtc_time :: "(nat \<Rightarrow> rtc_answer) \<Rightarrow> nat \<Rightarrow> u64 option" where
  "rtc_time rm_int i =
     (let r = rm_int i
      in if rtc_carry r then Some 0
         else let day = low_bcd (rtc_edx r); month = high_bcd (rtc_edx r);
                  year = ucast (low_bcd (rtc_ecx r)) + ucast (high_bcd (rtc_ecx r)) * 100 :: u16;
                  t = rm_int (i + 1)
              in if rtc_carry t then Some 0
                 else let second = high_bcd (rtc_edx t); minute = low_bcd (rtc_ecx t); hour = high_bcd (rtc_ecx t);
                          r' = rm_int (i + 2)
                      in if rtc_carry r' then Some 0
                         else if low_bcd (rtc_edx r') \<noteq> day then rtc_time rm_int (i + 3)
                         else Some (get_unix_epoch second minute hour day month year))"

definition loader_time :: "(nat \<Rightarrow> rtc_answer) \<Rightarrow> u64 option" where
  "loader_time rm_int = rtc_time rm_int 0"

section \<open>The square root\<close>

lemma unat_pow4: "k \<le> 31 \<Longrightarrow> unat (4 ^ k :: u64) = 4 ^ k"
proof -
  assume "k \<le> 31"
  then have "(4 :: nat) ^ k \<le> 4 ^ 31" by (intro power_increasing) simp_all
  then have "(4 :: nat) ^ k < 2 ^ 64" by (rule le_less_trans) simp
  moreover have "(4 ^ k :: u64) = of_nat (4 ^ k)" by simp
  ultimately show ?thesis using unat_of_nat64 [of "4 ^ k"] by simp
qed

lemma quarter: "drop_bit 2 (4 ^ Suc k :: u64) = 4 ^ k" if "Suc k \<le> 31"
proof -
  have "unat (drop_bit 2 (4 ^ Suc k :: u64)) = 4 ^ k"
    using unat_pow4 [OF that] by (simp add: drop_bit_eq_div unat_div)
  then show ?thesis using unat_pow4 [of k] that by (simp add: word_unat_eq_iff)
qed

lemma root_word_bound:
  fixes q :: nat
  assumes "q + 2 ^ Suc k \<le> 2 ^ 32" "k \<le> 31"
  shows "q * 2 ^ Suc k + 2 * 4 ^ k < 2 ^ 64"
proof -
  have p: "(4 :: nat) ^ k = 2 ^ k * 2 ^ k" by (simp add: power_mult_distrib [symmetric])
  have "q * 2 ^ Suc k + 2 * 4 ^ k < (q + 2 ^ Suc k) * 2 ^ Suc k" by (simp add: p algebra_simps)
  also have "\<dots> \<le> 2 ^ 32 * 2 ^ Suc k" using assms(1) by (rule mult_right_mono) simp
  also have "\<dots> \<le> 2 ^ 32 * 2 ^ 32" using assms(2) by (intro mult_left_mono power_increasing) simp_all
  finally show ?thesis by simp
qed

lemma half_of_nat: "n < 2 ^ 64 \<Longrightarrow> drop_bit 1 (of_nat n :: u64) = of_nat (n div 2)"
  by (simp add: drop_bit_eq_div word_unat_eq_iff unat_div unat_of_nat64 del: unat_of_nat)

lemma square_next: "(q + 2 ^ k) * (q + 2 ^ k) = q * q + (q * 2 ^ Suc k + 4 ^ k)" for q :: nat
proof -
  have "(4 :: nat) ^ k = 2 ^ k * 2 ^ k" by (simp add: power_mult_distrib [symmetric])
  then show ?thesis by (simp add: algebra_simps)
qed

lemma sqrt_loop_at:
  assumes "one \<noteq> 0" "res + one = a" "drop_bit 1 (res + 2 * one) = h" "drop_bit 1 res = l" "op \<ge> a \<longleftrightarrow> P"
  shows "sqrt_loop op res one = (if P then sqrt_loop (op - a) h (drop_bit 2 one) else sqrt_loop op l (drop_bit 2 one))"
  using assms by (subst sqrt_loop.simps) simp

lemma sqrt_step:
  fixes q N :: nat
  assumes "k \<le> 31" "q * q \<le> N" "N < (q + 2 ^ Suc k) * (q + 2 ^ Suc k)" "q + 2 ^ Suc k \<le> 2 ^ 32" "N < 2 ^ 64"
  obtains r where "sqrt_loop (of_nat (N - q * q)) (of_nat (q * 2 ^ Suc k)) (4 ^ k) = sqrt_loop (of_nat (N - r * r)) (of_nat (r * 2 ^ k)) (drop_bit 2 (4 ^ k))"
    "r * r \<le> N" "N < (r + 2 ^ k) * (r + 2 ^ k)" "r + 2 ^ k \<le> 2 ^ 32"
proof -
  let ?R = "q * 2 ^ Suc k" and ?O = "4 ^ k :: nat"
  have b: "?R + 2 * ?O < 2 ^ 64" by (rule root_word_bound [OF assms(4,1)])
  have o: "(4 ^ k :: u64) = of_nat ?O" by simp
  have ne: "(4 ^ k :: u64) \<noteq> 0" using unat_pow4 [OF assms(1)] by (metis power_not_zero unat_0 zero_neq_numeral)
  have sum: "of_nat ?R + 4 ^ k = (of_nat (?R + ?O) :: u64)" "of_nat ?R + 2 * 4 ^ k = (of_nat (?R + 2 * ?O) :: u64)" by simp_all
  have cmp: "(of_nat (N - q * q) :: u64) \<ge> of_nat (?R + ?O) \<longleftrightarrow> (q + 2 ^ k) * (q + 2 ^ k) \<le> N"
  proof -
    have "unat (of_nat (N - q * q) :: u64) = N - q * q" "unat (of_nat (?R + ?O) :: u64) = ?R + ?O"
      using assms(5) b by (intro unat_of_nat64; linarith)+
    then show ?thesis unfolding word_le_nat_alt square_next using assms(2) by linarith
  qed
  have unfold: "sqrt_loop (of_nat (N - q * q)) (of_nat ?R) (4 ^ k) =
     (if (q + 2 ^ k) * (q + 2 ^ k) \<le> N
      then sqrt_loop (of_nat (N - q * q) - of_nat (?R + ?O)) (of_nat ((?R + 2 * ?O) div 2)) (drop_bit 2 (4 ^ k))
      else sqrt_loop (of_nat (N - q * q)) (of_nat (?R div 2)) (drop_bit 2 (4 ^ k)))"
  proof (rule sqrt_loop_at [OF ne sum(1) _ _ cmp])
    show "drop_bit 1 (of_nat ?R + 2 * 4 ^ k :: u64) = of_nat ((?R + 2 * ?O) div 2)" unfolding sum(2) by (rule half_of_nat [OF b])
    show "drop_bit 1 (of_nat ?R :: u64) = of_nat (?R div 2)" using b by (intro half_of_nat) linarith
  qed
  show ?thesis
  proof (cases "(q + 2 ^ k) * (q + 2 ^ k) \<le> N")
    case True
    have "(?R + 2 * ?O) div 2 = (q + 2 ^ k) * 2 ^ k" by (simp add: algebra_simps power_mult_distrib [symmetric])
    moreover have "of_nat (N - q * q) - of_nat (?R + ?O) = (of_nat (N - (q + 2 ^ k) * (q + 2 ^ k)) :: u64)"
      using True unfolding square_next by (simp add: of_nat_diff)
    moreover have "(q + 2 ^ k) + 2 ^ k = q + 2 ^ Suc k" by simp
    ultimately show ?thesis using that [of "q + 2 ^ k"] True assms(3,4) unfolding unfold by (simp only: if_True)
  next
    case False
    have "?R div 2 = q * 2 ^ k" by simp
    moreover have "q + 2 ^ k \<le> 2 ^ 32" using assms(4) by (simp add: algebra_simps)
    ultimately show ?thesis using that [of q] False assms(2) unfolding unfold by (simp only: if_False not_le)
  qed
qed

lemma sqrt_loop_root:
  fixes q N :: nat
  assumes "k \<le> 31" "q * q \<le> N" "N < (q + 2 ^ Suc k) * (q + 2 ^ Suc k)" "q + 2 ^ Suc k \<le> 2 ^ 32" "N < 2 ^ 64"
  shows "\<exists>r. sqrt_loop (of_nat (N - q * q)) (of_nat (q * 2 ^ Suc k)) (4 ^ k) = of_nat r \<and> r * r \<le> N \<and> N < (r + 1) * (r + 1) \<and> r < 2 ^ 32"
  using assms
proof (induction k arbitrary: q)
  case 0
  obtain r where r: "sqrt_loop (of_nat (N - q * q)) (of_nat (q * 2 ^ Suc 0)) (4 ^ 0) = sqrt_loop (of_nat (N - r * r)) (of_nat (r * 2 ^ 0)) (drop_bit 2 (4 ^ 0))"
    "r * r \<le> N" "N < (r + 2 ^ 0) * (r + 2 ^ 0)" "r + 2 ^ 0 \<le> 2 ^ 32" using sqrt_step [OF 0] .
  have "drop_bit 2 (4 ^ 0 :: u64) = 0" by (simp add: drop_bit_eq_div word_unat_eq_iff unat_div)
  then have "sqrt_loop (of_nat (N - r * r)) (of_nat (r * 2 ^ 0)) (drop_bit 2 (4 ^ 0)) = of_nat r" by (subst sqrt_loop.simps) simp
  then show ?case using r by (intro exI [of _ r]) simp
next
  case (Suc k)
  obtain r where r: "sqrt_loop (of_nat (N - q * q)) (of_nat (q * 2 ^ Suc (Suc k))) (4 ^ Suc k) =
      sqrt_loop (of_nat (N - r * r)) (of_nat (r * 2 ^ Suc k)) (drop_bit 2 (4 ^ Suc k))"
    "r * r \<le> N" "N < (r + 2 ^ Suc k) * (r + 2 ^ Suc k)" "r + 2 ^ Suc k \<le> 2 ^ 32" using sqrt_step [OF Suc.prems] .
  show ?case using Suc.IH [OF _ r(2,3,4) Suc.prems(5)] Suc.prems(1) unfolding r(1) quarter [OF Suc.prems(1)] by simp
qed

lemma sqrt_start_pow:
  assumes "k \<le> 31" "unat op < 4 ^ Suc k"
  shows "op = 0 \<and> sqrt_start op (4 ^ k) = 0 \<or> (\<exists>j\<le>31. sqrt_start op (4 ^ k) = 4 ^ j \<and> unat op < 4 ^ Suc j)"
  using assms
proof (induction k)
  case 0
  have z: "sqrt_start 0 0 = 0" "drop_bit 2 (1 :: u64) = 0" by (subst sqrt_start.simps, simp, simp add: drop_bit_eq_div word_unat_eq_iff unat_div)
  show ?case
  proof (cases "op = 0")
    case True
    then show ?thesis using z by (subst sqrt_start.simps) simp
  next
    case False
    then have "\<not> 1 > op" by (simp add: word_less_1)
    then show ?thesis using 0 by (subst (2) sqrt_start.simps) (auto intro: exI [of _ 0])
  qed
next
  case (Suc k)
  show ?case
  proof (cases "4 ^ Suc k > op")
    case True
    then have "unat op < 4 ^ Suc k" using unat_pow4 [OF Suc.prems(1)] by (simp add: word_less_nat_alt)
    moreover have "sqrt_start op (4 ^ Suc k) = sqrt_start op (4 ^ k)" using True quarter [OF Suc.prems(1)] by (subst sqrt_start.simps) simp
    ultimately show ?thesis using Suc by simp
  next
    case False
    then have "sqrt_start op (4 ^ Suc k) = 4 ^ Suc k" by (subst sqrt_start.simps) simp
    then show ?thesis using Suc.prems by blast
  qed
qed

text \<open>Property C35: the square root of the loader is the largest integer whose square does not exceed the argument,
  for every 64-bit argument.\<close>

theorem loader_sqrt_correct:
  "unat (loader_sqrt a) * unat (loader_sqrt a) \<le> unat a \<and> unat a < (unat (loader_sqrt a) + 1) * (unat (loader_sqrt a) + 1)"
proof -
  have a: "unat a < 2 ^ 64" using unat_lt2p [of a] by simp
  have one: "push_bit 62 1 = (4 ^ 31 :: u64)" by (simp add: push_bit_eq_mult)
  consider "a = 0" "sqrt_start a (4 ^ 31) = 0" | j where "j \<le> 31" "sqrt_start a (4 ^ 31) = 4 ^ j" "unat a < 4 ^ Suc j"
    using sqrt_start_pow [of 31 a] a by auto
  then show ?thesis
  proof cases
    case 1
    then have "loader_sqrt a = 0" unfolding loader_sqrt_def one by (subst sqrt_loop.simps) simp
    then show ?thesis using 1 by simp
  next
    case 2
    have "(0 + 2 ^ Suc j) * (0 + 2 ^ Suc j) = (4 :: nat) ^ Suc j" by (simp add: power_mult_distrib [symmetric])
    moreover have "(2 :: nat) ^ Suc j \<le> 2 ^ 32" using 2(1) by (intro power_increasing) simp_all
    ultimately obtain r where r: "sqrt_loop (of_nat (unat a - 0 * 0)) (of_nat (0 * 2 ^ Suc j)) (4 ^ j) = of_nat r" "r * r \<le> unat a"
        "unat a < (r + 1) * (r + 1)" "r < 2 ^ 32"
      using sqrt_loop_root [of j 0 "unat a"] 2 a by auto
    have "loader_sqrt a = of_nat r" using r(1) unfolding loader_sqrt_def one 2(2) by simp
    moreover have "unat (of_nat r :: u64) = r" using r(4) by (intro unat_of_nat64) simp
    ultimately show ?thesis using r(2,3) by simp
  qed
qed


lemma trailing_loop_correct:
  "i \<le> 64 \<Longrightarrow> trailing_loop i (drop_bit i v) = (if \<exists>j. i \<le> j \<and> j < 64 \<and> bit v j then (LEAST j. i \<le> j \<and> bit v j) else 64)"
proof (induction "64 - i" arbitrary: i)
  case 0
  then show ?case by (subst trailing_loop.simps) auto
next
  case (Suc k)
  have odd: "drop_bit i v AND 1 \<noteq> 0 \<longleftrightarrow> bit v i" by (simp add: and_one_eq odd_iff_mod_2_eq_one [symmetric] bit_iff_odd_drop_bit)
  show ?case
  proof (cases "bit v i")
    case True
    then have "(LEAST j. i \<le> j \<and> bit v j) = i" by (intro Least_equality) auto
    moreover have "\<exists>j. i \<le> j \<and> j < 64 \<and> bit v j" using True Suc.hyps(2) by (intro exI [of _ i]) auto
    ultimately show ?thesis using True odd Suc.hyps(2) by (subst trailing_loop.simps) auto
  next
    case False
    have le: "i \<le> j \<and> bit v j \<longleftrightarrow> Suc i \<le> j \<and> bit v j" for j using False by (auto simp: Suc_le_eq intro: le_neq_implies_less)
    have "trailing_loop i (drop_bit i v) = trailing_loop (Suc i) (drop_bit (Suc i) v)"
      using False odd Suc.hyps(2) by (subst trailing_loop.simps) (auto simp: drop_bit_drop_bit)
    also have "\<dots> = (if \<exists>j. Suc i \<le> j \<and> j < 64 \<and> bit v j then (LEAST j. Suc i \<le> j \<and> bit v j) else 64)"
      using Suc.hyps by (intro Suc.hyps(1)) auto
    also have "\<dots> = (if \<exists>j. i \<le> j \<and> j < 64 \<and> bit v j then (LEAST j. i \<le> j \<and> bit v j) else 64)"
    proof -
      have "(\<exists>j. Suc i \<le> j \<and> j < 64 \<and> bit v j) \<longleftrightarrow> (\<exists>j. i \<le> j \<and> j < 64 \<and> bit v j)" using le by blast
      then show ?thesis by (simp only: le)
    qed
    finally show ?thesis .
  qed
qed

text \<open>Theorem: the number of trailing zeros is the index of the lowest bit that is set, and 64 for zero.\<close>

theorem get_trailing_zeros_correct:
  "get_trailing_zeros v = (if v = 0 then 64 else (LEAST j. bit v j))"
proof -
  have "v = 0 \<longleftrightarrow> \<not> (\<exists>j<64. bit v j)" by (auto simp: bit_eq_iff bit_imp_le_length dest: bit_imp_le_length)
  then show ?thesis using trailing_loop_correct [of 0 v] by (auto simp: get_trailing_zeros_def)
qed

section \<open>The calendar\<close>

definition leap :: "int \<Rightarrow> bool" where
  "leap y \<longleftrightarrow> 4 dvd y \<and> \<not> 100 dvd y \<or> 400 dvd y"

definition year_days :: "int \<Rightarrow> int" where
  "year_days y = (if leap y then 366 else 365)"

definition month_days :: "int \<Rightarrow> nat \<Rightarrow> int" where
  "month_days y m = [31, if leap y then 29 else 28, 31, 30, 31, 30, 31, 31, 30, 31, 30, 31] ! (m - 1)"

text \<open>The days from the first of January 1970 to a date, counted by years and months.\<close>

definition days_since_1970 :: "int \<Rightarrow> nat \<Rightarrow> int \<Rightarrow> int" where
  "days_since_1970 y m d = sum_list (map year_days [1970..y - 1]) + sum_list (map (month_days y) [1..<m]) + d - 1"

lemma jdn_simple:
  assumes "1 \<le> m" "m \<le> 12" "0 \<le> y"
  shows "get_jdn d m y = (let e = if m \<le> 2 then - 1 else 0 in
     (1461 * (y + 4800 + e)) div 4 + (367 * (m - 2 - 12 * e)) div 12 - (3 * ((y + 4900 + e) div 100)) div 4 + d - 32075)"
proof -
  have "list_all (\<lambda>m :: int. (m - 14) sdiv 12 = (if m \<le> 2 then - 1 else 0)) [1..12]" by code_simp
  moreover have "m \<in> set [1..12]" using assms(1,2) by simp
  ultimately have e: "(m - 14) sdiv 12 = (if m \<le> 2 then - 1 else 0)" unfolding list_all_iff by blast
  have pos: "a sdiv b = a div b" if "0 \<le> a" "0 < b" for a b :: int using that by (simp add: signed_divide_int_def sgn_if)
  show ?thesis unfolding get_jdn_def e Let_def using assms
    by (simp add: pos pos_imp_zdiv_nonneg_iff)
qed

lemma january: "get_jdn 1 1 z = (1461 * (z + 4799)) div 4 + 336 - (3 * ((z + 4899) div 100)) div 4 - 32074" if "0 \<le> z"
  using jdn_simple [of 1 z 1] that by (simp add: add.commute mult.commute)

lemma new_year: "get_jdn 1 1 (y + 1) - get_jdn 1 1 y = year_days y" if "0 \<le> y"
proof -
  have shift: "(1461 * (400 * a + b)) div 4 = 146100 * a + (1461 * b) div 4" "(3 * ((400 * a + b) div 100)) div 4 = 3 * a + (3 * (b div 100)) div 4"
    for a b :: int
  proof -
    have "1461 * (400 * a + b) = 1461 * b + 4 * (146100 * a)" by simp
    then show "(1461 * (400 * a + b)) div 4 = 146100 * a + (1461 * b) div 4" by simp
    have "400 * a + b = b + 100 * (4 * a)" by simp
    then have "(400 * a + b) div 100 = 4 * a + b div 100" by simp
    then have "3 * ((400 * a + b) div 100) = 3 * (b div 100) + 4 * (3 * a)" by simp
    then show "(3 * ((400 * a + b) div 100)) div 4 = 3 * a + (3 * (b div 100)) div 4" by simp
  qed
  have table: "list_all (\<lambda>b. (1461 * (b + 4800)) div 4 - (3 * ((b + 4900) div 100)) div 4 -
      ((1461 * (b + 4799)) div 4 - (3 * ((b + 4899) div 100)) div 4) = year_days b) [0..399]" by code_simp
  define a b where "a = y div 400" and "b = y mod 400"
  have y: "y = 400 * a + b" "0 \<le> b" "b < 400" by (simp_all add: a_def b_def)
  have ly: "year_days y = year_days b"
  proof -
    have "k dvd 400 * a + b \<longleftrightarrow> k dvd b" if "k dvd 400" for k :: int
      by (rule dvd_add_right_iff) (rule dvd_mult2 [OF that])
    from this [of 4] this [of 100] this [of 400] show ?thesis unfolding y(1) year_days_def leap_def by simp
  qed
  have "b \<in> set [0..399]" using y by simp
  then have tb: "(1461 * (b + 4800)) div 4 - (3 * ((b + 4900) div 100)) div 4 -
      ((1461 * (b + 4799)) div 4 - (3 * ((b + 4899) div 100)) div 4) = year_days b" using table unfolding list_all_iff by blast
  have sum: "y + 1 + 4799 = 400 * a + (b + 4800)" "y + 1 + 4899 = 400 * a + (b + 4900)" "y + 4799 = 400 * a + (b + 4799)"
      "y + 4899 = 400 * a + (b + 4899)" using y(1) by simp_all
  have "0 \<le> y + 1" using that by simp
  from january [OF this] january [OF that] tb show ?thesis unfolding ly sum shift by linarith
qed

lemma list_all_member: "list_all P xs \<Longrightarrow> x \<in> set xs \<Longrightarrow> P x"
  by (simp add: list_all_iff)

lemma month_start:
  assumes "1 \<le> m" "m \<le> 12" "0 \<le> y"
  shows "get_jdn d (int m) y = get_jdn 1 1 y + sum_list (map (month_days y) [1..<m]) + d - 1"
proof (cases "m \<le> 2")
  case True
  then consider "m = 1" | "m = 2" using assms(1) by linarith
  then show ?thesis
  proof cases
    case 1
    then show ?thesis using assms(3) by (simp add: jdn_simple)
  next
    case 2
    have "[1..<2] = [1 :: nat]" by code_simp
    then show ?thesis using 2 assms(3) by (simp add: jdn_simple month_days_def)
  qed
next
  case False
  define y0 :: int where "y0 = (if leap y then 2000 else 2001)"
  have "leap y0 = leap y" by (simp add: y0_def leap_def)
  then have y0: "year_days y = year_days y0" "month_days y = month_days y0" by (simp_all add: year_days_def month_days_def fun_eq_iff)
  have "list_all (\<lambda>y. list_all (\<lambda>m. (367 * (int m - 2)) div 12 - 336 + year_days y = sum_list (map (month_days y) [1..<m])) [3..<13]) [2000, 2001]"
    by code_simp
  then have "list_all (\<lambda>m. (367 * (int m - 2)) div 12 - 336 + year_days y = sum_list (map (month_days y) [1..<m])) [3..<13]"
    unfolding y0 by (rule list_all_member) (simp add: y0_def)
  moreover have "m \<in> set [3..<13]" unfolding set_upt using False assms(2) by simp
  ultimately have t: "(367 * (int m - 2)) div 12 - 336 + year_days y = sum_list (map (month_days y) [1..<m])" unfolding list_all_iff by blast
  have "0 \<le> y + 1" using assms(3) by simp
  from january [OF this] have j: "get_jdn 1 1 (y + 1) = (1461 * (y + 4800)) div 4 + 336 - (3 * ((y + 4900) div 100)) div 4 - 32074" by (simp add: add.commute)
  have "get_jdn d (int m) y = (1461 * (y + 4800)) div 4 + (367 * (int m - 2)) div 12 - (3 * ((y + 4900) div 100)) div 4 + d - 32075"
    using False assms jdn_simple [of "int m" y d] by simp
  then show ?thesis using new_year [OF assms(3)] j t by linarith
qed

lemma years_since: "get_jdn 1 1 (1970 + int n) = get_jdn 1 1 1970 + sum_list (map year_days [1970..1970 + int n - 1])"
proof (induction n)
  case 0
  then show ?case by simp
next
  case (Suc n)
  have "[1970..1970 + int (Suc n) - 1] = [1970..1970 + int n - 1] @ [1970 + int n]"
    using upto_rec2 [of 1970 "1970 + int n"] by (simp add: algebra_simps)
  then show ?case using Suc new_year [of "1970 + int n"] by (simp add: algebra_simps)
qed

definition valid_date :: "int \<Rightarrow> nat \<Rightarrow> int \<Rightarrow> bool" where
  "valid_date y m d \<longleftrightarrow> 0 \<le> y \<and> 1 \<le> m \<and> m \<le> 12 \<and> 1 \<le> d \<and> d \<le> month_days y m"

lemma jdn_days:
  assumes "valid_date y m d" "1970 \<le> y"
  shows "get_jdn d (int m) y = get_jdn 1 1 1970 + days_since_1970 y m d"
proof -
  have "y = 1970 + int (nat (y - 1970))" using assms(2) by simp
  then show ?thesis using years_since [of "nat (y - 1970)"] month_start [of m y d] assms
    by (simp add: valid_date_def days_since_1970_def)
qed


lemma jdn_mono: "0 \<le> y \<Longrightarrow> get_jdn 1 1 y \<le> get_jdn 1 1 (y + int n)"
proof (induction n)
  case 0
  then show ?case by simp
next
  case (Suc n)
  then show ?case using new_year [of "y + int n"] by (simp add: year_days_def algebra_simps split: if_splits)
qed

lemma month_within:
  assumes "valid_date y m d"
  shows "get_jdn 1 1 y \<le> get_jdn d (int m) y" "get_jdn d (int m) y < get_jdn 1 1 (y + 1)"
proof -
  have v: "0 \<le> y" "1 \<le> m" "m \<le> 12" "1 \<le> d" "d \<le> month_days y m" using assms by (simp_all add: valid_date_def)
  define y0 :: int where "y0 = (if leap y then 2000 else 2001)"
  have "leap y0 = leap y" by (simp add: y0_def leap_def)
  then have y0: "year_days y = year_days y0" "month_days y = month_days y0" by (simp_all add: year_days_def month_days_def fun_eq_iff)
  have "list_all (\<lambda>y. list_all (\<lambda>m. 0 \<le> sum_list (map (month_days y) [1..<m]) \<and>
      sum_list (map (month_days y) [1..<m]) + month_days y m \<le> year_days y) [1..<13]) [2000, 2001]"
    by code_simp
  then have "list_all (\<lambda>m. 0 \<le> sum_list (map (month_days y) [1..<m]) \<and>
      sum_list (map (month_days y) [1..<m]) + month_days y m \<le> year_days y) [1..<13]"
    unfolding y0 by (rule list_all_member) (simp add: y0_def)
  then have "0 \<le> sum_list (map (month_days y) [1..<m]) \<and> sum_list (map (month_days y) [1..<m]) + month_days y m \<le> year_days y"
    by (rule list_all_member) (use v in \<open>simp add: set_upt del: upt_rec_numeral\<close>)
  then show "get_jdn 1 1 y \<le> get_jdn d (int m) y" "get_jdn d (int m) y < get_jdn 1 1 (y + 1)"
    using month_start [OF v(2,3,1), of d] new_year [OF v(1)] v(4,5) by linarith+
qed

lemma jdn_1970: "get_jdn 1 1 1970 = 2440588"
  by code_simp

lemma jdn_65536: "get_jdn 1 1 65536 < 2 ^ 32"
  by code_simp

lemma unix_epoch_core:
  assumes "valid_date (uint years) (unat months) (uint days)"
  shows "get_unix_epoch seconds minutes hours days months years =
     (if 1970 \<le> uint years
      then of_int (days_since_1970 (uint years) (unat months) (uint days) * 86400 + uint hours * 3600 + uint minutes * 60 + uint seconds)
      else 0)"
proof -
  let ?y = "uint years"
  let ?j = "get_jdn (uint days) (uint months) ?y"
  have y: "0 \<le> ?y" "?y \<le> 65535" using uint_lt2p [of years] by simp_all
  have m: "int (unat months) = uint months" by simp
  have w: "get_jdn 1 1 ?y \<le> ?j" "?j < get_jdn 1 1 (?y + 1)" using month_within [OF assms] unfolding m by simp_all
  have "get_jdn 1 1 0 \<le> get_jdn 1 1 ?y" using jdn_mono [of 0 "nat ?y"] y by simp
  moreover have "get_jdn 1 1 0 = 1721060" by code_simp
  moreover have "get_jdn 1 1 (?y + 1) \<le> get_jdn 1 1 65536" using jdn_mono [of "?y + 1" "nat (65535 - ?y)"] y by simp
  ultimately have r: "0 \<le> ?j" "?j < 2 ^ 64" using w jdn_65536 by simp_all
  have u: "uint (of_int ?j :: u64) = ?j" using r by (simp add: uint_word_of_int_eq take_bit_int_eq_self)
  have cmp: "(of_int ?j :: u64) < of_int (get_jdn 1 1 1970) \<longleftrightarrow> ?j < get_jdn 1 1 1970" unfolding word_less_def u jdn_1970 by simp
  show ?thesis
  proof (cases "1970 \<le> ?y")
    case True
    have "get_jdn 1 1 1970 \<le> get_jdn 1 1 ?y" using jdn_mono [of 1970 "nat (?y - 1970)"] True by simp
    then have "\<not> ?j < get_jdn 1 1 1970" using w by linarith
    moreover have "?j = get_jdn 1 1 1970 + days_since_1970 ?y (unat months) (uint days)" using jdn_days [OF assms True] unfolding m .
    ultimately show ?thesis using True cmp unfolding get_unix_epoch_def Let_def by simp
  next
    case False
    have "get_jdn 1 1 (?y + 1) \<le> get_jdn 1 1 1970" using jdn_mono [of "?y + 1" "nat (1969 - ?y)"] False y by simp
    then have "?j < get_jdn 1 1 1970" using w by linarith
    then show ?thesis using False cmp unfolding get_unix_epoch_def Let_def by simp
  qed
qed


text \<open>Property C36: the seconds since 1970 of a valid date are those of the calendar, with the leap years of the
  Gregorian rule; a date before 1970 gives 0.\<close>

theorem get_unix_epoch_correct:
  assumes "valid_date (uint years) (unat months) (uint days)"
  shows "get_unix_epoch seconds minutes hours days months years =
     (if 1970 \<le> uint years
      then of_int (days_since_1970 (uint years) (unat months) (uint days) * 86400 + uint hours * 3600 + uint minutes * 60 + uint seconds)
      else 0)"
  using assms by (rule unix_epoch_core)

theorem get_unix_epoch_correct_witness: "get_unix_epoch 7 6 5 29 2 1972 = of_int (789 * 86400 + 5 * 3600 + 6 * 60 + 7)"
proof -
  have "days_since_1970 1972 2 29 = 789" by code_simp
  then show ?thesis using get_unix_epoch_correct [of 1972 2 29 7 6 5] by (simp add: valid_date_def month_days_def leap_def)
qed

section \<open>Reading the clock\<close>

lemma bcd_roundtrip: "v < 100 \<Longrightarrow> bcd_to_int (int_to_bcd v) = v"
proof -
  assume "v < 100"
  then have "unat v < 100" by (simp add: word_less_nat_alt)
  then have m: "unat v \<in> set [0..<100]" unfolding set_upt by simp
  have "list_all (\<lambda>n. bcd_to_int (int_to_bcd (of_nat n)) = of_nat n) [0..<100]" by code_simp
  from list_all_member [OF this m] show ?thesis by simp
qed

definition bcd_pair :: "u8 \<Rightarrow> u8 \<Rightarrow> u32" where
  "bcd_pair low high = ucast (int_to_bcd low) OR push_bit 8 (ucast (int_to_bcd high))"

lemma bcd_pair_read: "low < 100 \<Longrightarrow> low_bcd (bcd_pair low high) = low" "high < 100 \<Longrightarrow> high_bcd (bcd_pair low high) = high"
proof -
  have m: "(0xFF :: u32) = mask 8" "(0xFF00 :: u32) = push_bit 8 (mask 8)" by (simp_all add: mask_eq_exp_minus_1 push_bit_eq_mult)
  have "ucast (bcd_pair low high AND 0xFF) = int_to_bcd low" unfolding bcd_pair_def m
    by (rule bit_word_eqI) (auto simp: bit_simps)
  then show "low < 100 \<Longrightarrow> low_bcd (bcd_pair low high) = low" by (simp add: low_bcd_def bcd_roundtrip)
  have "ucast (drop_bit 8 (bcd_pair low high AND 0xFF00)) = int_to_bcd high" unfolding bcd_pair_def m
    by (rule bit_word_eqI) (auto simp: bit_simps dest: bit_imp_le_length)
  then show "high < 100 \<Longrightarrow> high_bcd (bcd_pair low high) = high" by (simp add: high_bcd_def bcd_roundtrip)
qed

text \<open>What a working clock answers.\<close>

definition rtc_date :: "u16 \<Rightarrow> u8 \<Rightarrow> u8 \<Rightarrow> rtc_answer" where
  "rtc_date y m d = \<lparr>rtc_carry = False, rtc_ecx = bcd_pair (ucast (y mod 100)) (ucast (y div 100)), rtc_edx = bcd_pair d m\<rparr>"

definition rtc_clock :: "u8 \<Rightarrow> u8 \<Rightarrow> u8 \<Rightarrow> rtc_answer" where
  "rtc_clock h m s = \<lparr>rtc_carry = False, rtc_ecx = bcd_pair m h, rtc_edx = bcd_pair 0 s\<rparr>"

text \<open>A round in which the day changes between the two readings of the date.\<close>

definition midnight :: "(nat \<Rightarrow> rtc_answer) \<Rightarrow> nat \<Rightarrow> bool" where
  "midnight rm_int i \<longleftrightarrow> \<not> rtc_carry (rm_int i) \<and> \<not> rtc_carry (rm_int (i + 1)) \<and> \<not> rtc_carry (rm_int (i + 2)) \<and>
     low_bcd (rtc_edx (rm_int (i + 2))) \<noteq> low_bcd (rtc_edx (rm_int i))"

lemma rtc_time_retries: "list_all (\<lambda>j. midnight rm_int (3 * j)) [i..<k] \<Longrightarrow> i \<le> k \<Longrightarrow> rtc_time rm_int (3 * i) = rtc_time rm_int (3 * k)"
proof (induction "k - i" arbitrary: i)
  case 0
  then show ?case by simp
next
  case (Suc n)
  then have "[i..<k] = i # [Suc i..<k]" by (simp add: upt_conv_Cons)
  then have m: "midnight rm_int (3 * i)" "list_all (\<lambda>j. midnight rm_int (3 * j)) [Suc i..<k]" using Suc.prems(1) by simp_all
  have "rtc_time rm_int (3 * i) = rtc_time rm_int (3 * Suc i)"
    using m(1) by (subst rtc_time.simps) (simp add: midnight_def Let_def add.commute)
  then show ?case using Suc.hyps(1) [of "Suc i"] Suc.hyps(2) m(2) by simp
qed

lemma year_digits:
  assumes "y < (10000 :: u16)"
  shows "ucast (y mod 100) < (100 :: u8)" "ucast (y div 100) < (100 :: u8)"
    "ucast (ucast (y mod 100) :: u8) + ucast (ucast (y div 100) :: u8) * 100 = y"
proof -
  let ?n = "unat y"
  have n: "?n < 10000" using assms by (simp add: word_less_nat_alt)
  have u: "unat (ucast (y mod 100) :: u8) = ?n mod 100" "unat (ucast (y div 100) :: u8) = ?n div 100"
    using n by (simp_all add: unat_mod unat_div unsigned_ucast_eq take_bit_nat_eq_self less_mult_imp_div_less)
  then show "ucast (y mod 100) < (100 :: u8)" "ucast (y div 100) < (100 :: u8)"
    using n by (simp_all add: word_less_nat_alt less_mult_imp_div_less)
  have up: "unat (ucast a :: u16) = unat a" for a :: u8 using unat_lt2p [of a] by (simp add: unsigned_ucast_eq take_bit_nat_eq_self)
  have "unat (ucast (ucast (y mod 100) :: u8) :: u16) = ?n mod 100" "unat (ucast (ucast (y div 100) :: u8) :: u16) = ?n div 100"
    unfolding up u by (rule refl)+
  then show "ucast (ucast (y mod 100) :: u8) + ucast (ucast (y div 100) :: u8) * 100 = y"
    using n by (simp add: word_unat_eq_iff unat_word_ariths)
qed

text \<open>Theorem: whatever number of midnights strikes between the readings, the clock routine asks again until the two readings of the
  day agree, and then returns the seconds since 1970 of the date and time read.\<close>

theorem loader_time_correct:
  assumes "list_all (\<lambda>j. midnight rm_int (3 * j)) [0..<k]" and "rm_int (3 * k) = rtc_date y m d" and "rm_int (3 * k + 1) = rtc_clock h mi s"
    and "rm_int (3 * k + 2) = rtc_date y m d" and "valid_date (uint y) (unat m) (uint d)" and "1970 \<le> uint y" and "y < 10000"
    and "h < 24" and "mi < 60" and "s < 60"
  shows "loader_time rm_int = Some (of_int (days_since_1970 (uint y) (unat m) (uint d) * 86400 + uint h * 3600 + uint mi * 60 + uint s))"
proof -
  have v: "uint d \<le> 31" "unat m \<le> 12"
  proof -
    have "list_all (\<lambda>y. list_all (\<lambda>m. month_days y m \<le> 31) [1..<13]) [2000, 2001]" by code_simp
    moreover have "month_days (uint y) = month_days (if leap (uint y) then 2000 else 2001)" by (simp add: month_days_def leap_def fun_eq_iff)
    moreover have "unat m \<in> set [1..<13]" unfolding set_upt using assms(5) by (simp add: valid_date_def)
    ultimately have "month_days (uint y) (unat m) \<le> 31" by (simp only: list_all_iff list.set ball_simps split: if_split) blast
    then show "uint d \<le> 31" "unat m \<le> 12" using assms(5) by (simp_all add: valid_date_def)
  qed
  have "unat d \<le> 31" using v(1) unfolding unat_eq_nat_uint by (simp only: nat_le_iff)
  then have b: "d < 100" "m < 100" "h < 100" "mi < 100" "s < 100"
    using v(2) assms(8-10) by (simp_all add: word_less_nat_alt)
  note yd = year_digits [OF assms(7)]
  have "loader_time rm_int = rtc_time rm_int (3 * k)" using rtc_time_retries [OF assms(1)] by (simp add: loader_time_def)
  also have "\<dots> = Some (get_unix_epoch s mi h d m y)"
    using assms(2-4) by (subst rtc_time.simps) (simp add: Let_def rtc_date_def rtc_clock_def bcd_pair_read b yd)
  finally show ?thesis using unix_epoch_core [OF assms(5)] assms(6) by simp
qed

theorem loader_time_correct_witness:
  "loader_time ((\<lambda>_. rtc_date 2024 2 29)(1 := rtc_clock 23 59 58)) = Some (of_int (19782 * 86400 + 23 * 3600 + 59 * 60 + 58))"
proof -
  have "days_since_1970 2024 2 29 = 19782" by code_simp
  then show ?thesis using loader_time_correct [of "(\<lambda>_. rtc_date 2024 2 29)(1 := rtc_clock 23 59 58)" 0 2024 2 29 23 59 58]
    by (simp add: valid_date_def month_days_def leap_def word_less_nat_alt)
qed

end
