(* ===== verification/LoaderText.thy ===== *)
theory LoaderText
  imports LoaderMap
begin

text \<open>
  Text in the boot loader: numbers, addresses, resolutions and GUIDs of the configuration
  (\<^verbatim>\<open>limine/common/lib/misc.s2.c\<close>, \<^verbatim>\<open>misc.c\<close>, \<^verbatim>\<open>libc.s2.c\<close> and \<^verbatim>\<open>guid.c\<close>). A C string is the list of its bytes
  without the terminator, a pointer into it is the rest of the list, and what it points to at the end of the
  list is the terminator 0. No function here moves a pointer beyond the terminator. A \<open>size_t\<close> has 32 bits, as in the BIOS build.
\<close>

type_synonym ctext = "u8 list"

fun deref :: "ctext \<Rightarrow> u8" where
  "deref [] = 0"
| "deref (c # cs) = c"

section \<open>Characters\<close>

definition isprint :: "int \<Rightarrow> bool" where "isprint c \<longleftrightarrow> 0x20 \<le> c \<and> c \<le> 0x7E"
definition isspace :: "int \<Rightarrow> bool" where "isspace c \<longleftrightarrow> 9 \<le> c \<and> c \<le> 0xD \<or> c = 0x20"
definition isalpha :: "int \<Rightarrow> bool" where "isalpha c \<longleftrightarrow> 0x61 \<le> c \<and> c \<le> 0x7A \<or> 0x41 \<le> c \<and> c \<le> 0x5A"
definition isdigit :: "int \<Rightarrow> bool" where "isdigit c \<longleftrightarrow> 0x30 \<le> c \<and> c \<le> 0x39"
definition toupper :: "int \<Rightarrow> int" where "toupper c = (if 0x61 \<le> c \<and> c \<le> 0x7A then c - 0x20 else c)"
definition tolower :: "int \<Rightarrow> int" where "tolower c = (if 0x41 \<le> c \<and> c \<le> 0x5A then c + 0x20 else c)"

definition digit_to_int :: "u8 \<Rightarrow> int" where
  "digit_to_int c =
     (if 0x61 \<le> c \<and> c \<le> 0x66 then uint c - 0x61 + 10
      else if 0x41 \<le> c \<and> c \<le> 0x46 then uint c - 0x41 + 10
      else if 0x30 \<le> c \<and> c \<le> 0x39 then uint c - 0x30
      else - 1)"

section \<open>Comparisons\<close>

text \<open>The four comparisons of \<^verbatim>\<open>libc.s2.c\<close>; the loops stop at the terminator of both strings or at the first difference.\<close>

fun loader_strcmp :: "ctext \<Rightarrow> ctext \<Rightarrow> int" where
  "loader_strcmp s1 s2 =
     (if deref s1 \<noteq> deref s2 then (if deref s1 < deref s2 then - 1 else 1)
      else case s1 of [] \<Rightarrow> 0 | c # cs \<Rightarrow> if c = 0 then 0 else loader_strcmp cs (tl s2))"

fun strcasecmp :: "ctext \<Rightarrow> ctext \<Rightarrow> int" where
  "strcasecmp s1 s2 =
     (if tolower (uint (deref s1)) \<noteq> tolower (uint (deref s2))
      then (if tolower (uint (deref s1)) < tolower (uint (deref s2)) then - 1 else 1)
      else case s1 of [] \<Rightarrow> 0 | c # cs \<Rightarrow> if c = 0 then 0 else strcasecmp cs (tl s2))"

fun loader_strncmp :: "ctext \<Rightarrow> ctext \<Rightarrow> nat \<Rightarrow> int" where
  "loader_strncmp s1 s2 0 = 0"
| "loader_strncmp s1 s2 (Suc n) =
     (if deref s1 \<noteq> deref s2 then (if deref s1 < deref s2 then - 1 else 1)
      else if deref s1 = 0 then 0 else loader_strncmp (tl s1) (tl s2) n)"

fun strncasecmp :: "ctext \<Rightarrow> ctext \<Rightarrow> nat \<Rightarrow> int" where
  "strncasecmp s1 s2 0 = 0"
| "strncasecmp s1 s2 (Suc n) =
     (if tolower (uint (deref s1)) \<noteq> tolower (uint (deref s2))
      then (if tolower (uint (deref s1)) < tolower (uint (deref s2)) then - 1 else 1)
      else if deref s1 = 0 then 0 else strncasecmp (tl s1) (tl s2) n)"

fun loader_strlen :: "ctext \<Rightarrow> nat" where
  "loader_strlen s = (case s of [] \<Rightarrow> 0 | c # cs \<Rightarrow> if c = 0 then 0 else Suc (loader_strlen cs))"

declare loader_strcmp.simps [simp del] strcasecmp.simps [simp del] loader_strlen.simps [simp del]

section \<open>Numbers\<close>

text \<open>The result is the number and the pointer stored through \<open>end\<close>.\<close>

fun strtoui_loop :: "ctext \<Rightarrow> int \<Rightarrow> u64 \<Rightarrow> u64 \<times> ctext" where
  "strtoui_loop [] base n = (n, [])"
| "strtoui_loop (c # cs) base n =
     (let d = digit_to_int c
      in if d = - 1 \<or> d \<ge> base then (n, c # cs)
         else case CHECKED_MUL n (of_int base) of
                None \<Rightarrow> (- 1, c # cs)
              | Some m \<Rightarrow> (case CHECKED_ADD m (of_int d) of
                    None \<Rightarrow> (- 1, c # cs)
                  | Some n' \<Rightarrow> strtoui_loop cs base n'))"

definition strtoui :: "ctext \<Rightarrow> int \<Rightarrow> u64 \<times> ctext" where
  "strtoui s base = strtoui_loop s base 0"

text \<open>The loop over the four parts of an address; \<open>None\<close> is the result -1.\<close>

function inet_loop :: "nat \<Rightarrow> ctext \<Rightarrow> u8 list \<Rightarrow> u8 list option" where
  "inet_loop i current array =
     (if 4 \<le> i then Some array
      else case strtoui current 10 of (value, newcur) \<Rightarrow>
        if length newcur = length current then None
        else if i < 3 \<and> deref newcur \<noteq> 0x2E then None
        else if \<not> i < 3 \<and> deref newcur \<noteq> 0 then None
        else if value > 255 then None
        else inet_loop (Suc i) (if i < 3 then tl newcur else newcur) (array @ [ucast value]))"
  by pat_completeness auto
termination
  by (relation "measure (\<lambda>(i, s, xs). 4 - i)") auto

declare inet_loop.simps [simp del]

definition inet_pton :: "ctext \<Rightarrow> u8 list option" where
  "inet_pton src = inet_loop 0 src []"

text \<open>The loop over at most three numbers separated by one character each.\<close>

function resolution_loop :: "nat \<Rightarrow> ctext \<Rightarrow> u32 list \<Rightarrow> u32 list" where
  "resolution_loop i first res =
     (if 3 \<le> i then res
      else case strtoui first 10 of (x, newpos) \<Rightarrow>
        if length newpos = length first then res
        else let res = res[i := ucast x]
             in if deref newpos = 0 then res else resolution_loop (Suc i) (tl newpos) res)"
  by pat_completeness auto
termination
  by (relation "measure (\<lambda>(i, s, xs). 3 - i)") auto

declare resolution_loop.simps [simp del]

definition parse_resolution :: "ctext \<Rightarrow> (u32 \<times> u32 \<times> u32) option" where
  "parse_resolution buf =
     (let res = resolution_loop 0 buf [0, 0, 0]
      in if res ! 0 = 0 \<or> res ! 1 = 0 then None
         else Some (res ! 0, res ! 1, if res ! 2 = 0 then 32 else res ! 2))"

section \<open>GUIDs\<close>

record guid =
  guid_a :: u32
  guid_b :: u16
  guid_c :: u16
  guid_d :: "u8 list"

text \<open>The sixteen bytes of the structure in memory, and back.\<close>

definition guid_bytes :: "guid \<Rightarrow> u8 list" where
  "guid_bytes g = map (\<lambda>i. ucast (drop_bit (8 * i) (guid_a g))) [0..<4] @ map (\<lambda>i. ucast (drop_bit (8 * i) (guid_b g))) [0..<2] @
     map (\<lambda>i. ucast (drop_bit (8 * i) (guid_c g))) [0..<2] @ guid_d g"

definition guid_of_bytes :: "u8 list \<Rightarrow> guid" where
  "guid_of_bytes b =
     \<lparr>guid_a = ucast (b ! 0) OR push_bit 8 (ucast (b ! 1)) OR push_bit 16 (ucast (b ! 2)) OR push_bit 24 (ucast (b ! 3)),
      guid_b = ucast (b ! 4) OR push_bit 8 (ucast (b ! 5)), guid_c = ucast (b ! 6) OR push_bit 8 (ucast (b ! 7)),
      guid_d = drop 8 b\<rparr>"

fun valid_guid_from :: "nat \<Rightarrow> ctext \<Rightarrow> bool" where
  "valid_guid_from i s =
     (if i = 8 \<or> i = 13 \<or> i = 18 \<or> i = 23 then
        (case s of [] \<Rightarrow> False | c # cs \<Rightarrow> c = 0x2D \<and> valid_guid_from (Suc i) cs)
      else if i = 36 then deref s = 0
      else (case s of [] \<Rightarrow> False | c # cs \<Rightarrow> digit_to_int c \<noteq> - 1 \<and> valid_guid_from (Suc i) cs))"

declare valid_guid_from.simps [simp del]

definition is_valid_guid :: "ctext \<Rightarrow> bool" where
  "is_valid_guid s = valid_guid_from 0 s"

text \<open>A step of the two conversion loops at index \<open>i\<close>: the bytes, and the position within the cluster that starts at \<open>off\<close>.\<close>

definition le_step :: "nat \<Rightarrow> ctext \<Rightarrow> nat \<Rightarrow> u8 list \<times> nat \<Rightarrow> u8 list \<times> nat" where
  "le_step off s i st = (case st of (dest, p) \<Rightarrow>
     (let val = of_int (digit_to_int (s ! i)) :: u8
      in if odd i then (dest[off + p := val], p) else (dest[off + p := dest ! (off + p) OR push_bit 4 val], Suc p)))"

definition be_step :: "nat \<Rightarrow> ctext \<Rightarrow> nat \<Rightarrow> u8 list \<times> nat \<Rightarrow> u8 list \<times> nat" where
  "be_step off s i st = (case st of (dest, p) \<Rightarrow>
     (let val = of_int (digit_to_int (s ! i)) :: u8
      in if odd i then (dest[off + p := dest ! (off + p) OR val], Suc p) else (dest[off + p := push_bit 4 val], p)))"

definition guid_convert_le_cluster :: "nat \<Rightarrow> ctext \<Rightarrow> nat \<Rightarrow> u8 list \<Rightarrow> u8 list" where
  "guid_convert_le_cluster off s len dest = fst (fold (le_step off s) (rev [0..<len]) (dest, 0))"

definition guid_convert_be_cluster :: "nat \<Rightarrow> ctext \<Rightarrow> nat \<Rightarrow> u8 list \<Rightarrow> u8 list" where
  "guid_convert_be_cluster off s len dest = fst (fold (be_step off s) [0..<len] (dest, 0))"

definition string_to_guid_be :: "guid \<Rightarrow> ctext \<Rightarrow> bool \<times> guid" where
  "string_to_guid_be g s =
     (if \<not> is_valid_guid s then (False, g)
      else (True, guid_of_bytes (guid_convert_be_cluster 10 (drop 24 s) 12 (guid_convert_be_cluster 8 (drop 19 s) 4
        (guid_convert_be_cluster 6 (drop 14 s) 4 (guid_convert_be_cluster 4 (drop 9 s) 4
        (guid_convert_be_cluster 0 s 8 (guid_bytes g))))))))"

definition string_to_guid_mixed :: "guid \<Rightarrow> ctext \<Rightarrow> bool \<times> guid" where
  "string_to_guid_mixed g s =
     (if \<not> is_valid_guid s then (False, g)
      else (True, guid_of_bytes (guid_convert_be_cluster 10 (drop 24 s) 12 (guid_convert_be_cluster 8 (drop 19 s) 4
        (guid_convert_le_cluster 6 (drop 14 s) 4 (guid_convert_le_cluster 4 (drop 9 s) 4
        (guid_convert_le_cluster 0 s 8 (guid_bytes g))))))))"

definition guid_hex_digit :: "u32 \<Rightarrow> u8" where
  "guid_hex_digit v = (if v < 10 then 0x30 + ucast v else 0x61 + ucast v - 10)"

definition uint_to_hex :: "u32 \<Rightarrow> nat \<Rightarrow> ctext" where
  "uint_to_hex num len = map (\<lambda>i. guid_hex_digit (drop_bit ((len - 1 - i) * 4) num AND 0xF)) [0..<len]"

definition guid_to_string :: "guid \<Rightarrow> ctext" where
  "guid_to_string g =
     uint_to_hex (guid_a g) 8 @ [0x2D] @ uint_to_hex (ucast (guid_b g)) 4 @ [0x2D] @ uint_to_hex (ucast (guid_c g)) 4 @ [0x2D] @
     uint_to_hex (ucast (guid_d g ! 0)) 2 @ uint_to_hex (ucast (guid_d g ! 1)) 2 @ [0x2D] @ uint_to_hex (ucast (guid_d g ! 2)) 2 @
     uint_to_hex (ucast (guid_d g ! 3)) 2 @ uint_to_hex (ucast (guid_d g ! 4)) 2 @ uint_to_hex (ucast (guid_d g ! 5)) 2 @
     uint_to_hex (ucast (guid_d g ! 6)) 2 @ uint_to_hex (ucast (guid_d g ! 7)) 2"

section \<open>Numbers are read as written\<close>

definition is_digit :: "int \<Rightarrow> u8 \<Rightarrow> bool" where
  "is_digit base c \<longleftrightarrow> digit_to_int c \<noteq> - 1 \<and> digit_to_int c < base"

text \<open>The number that a list of digits denotes.\<close>

definition digits_value :: "int \<Rightarrow> nat \<Rightarrow> ctext \<Rightarrow> nat" where
  "digits_value base = foldl (\<lambda>n c. n * nat base + nat (digit_to_int c))"

lemma digit_to_int_range: "digit_to_int c = - 1 \<or> 0 \<le> digit_to_int c \<and> digit_to_int c < 16"
proof -
  have "uint c - 0x61 + 10 \<in> {10..15}" if "0x61 \<le> c" "c \<le> 0x66"
    using that by (auto simp: word_le_def)
  moreover have "uint c - 0x41 + 10 \<in> {10..15}" if "0x41 \<le> c" "c \<le> 0x46"
    using that by (auto simp: word_le_def)
  moreover have "uint c - 0x30 \<in> {0..9}" if "0x30 \<le> c" "c \<le> 0x39"
    using that by (auto simp: word_le_def)
  ultimately show ?thesis unfolding digit_to_int_def by auto
qed

lemma digits_value_mono: "n \<le> digits_value base n ds" if "1 \<le> base"
proof (induction ds arbitrary: n)
  case Nil
  show ?case by (simp add: digits_value_def)
next
  case (Cons d ds)
  have "n \<le> n * nat base" using that by (cases "nat base") auto
  then have "n \<le> n * nat base + nat (digit_to_int d)" by linarith
  also have "\<dots> \<le> digits_value base (n * nat base + nat (digit_to_int d)) ds" by (rule Cons.IH)
  finally show ?case by (simp add: digits_value_def)
qed

lemma strtoui_loop_reads:
  assumes base: "2 \<le> base" "base \<le> 16" and ds: "list_all (is_digit base) ds" and rest: "rest = [] \<or> \<not> is_digit base (hd rest)"
  shows "fst (strtoui_loop (ds @ rest) base n) = of_nat (min (digits_value base (unat n) ds) (2 ^ 64 - 1)) \<and>
     (digits_value base (unat n) ds < 2 ^ 64 \<longrightarrow> snd (strtoui_loop (ds @ rest) base n) = rest) \<and>
     length (snd (strtoui_loop (ds @ rest) base n)) \<le> length (ds @ rest) \<and>
     (n = 0 \<and> ds \<noteq> [] \<longrightarrow> length (snd (strtoui_loop (ds @ rest) base n)) < length (ds @ rest))"
  using ds
proof (induction ds arbitrary: n)
  case Nil
  have "unat n < 2 ^ 64" using unat_lt2p [of n] by simp
  then have "min (unat n) (2 ^ 64 - 1) = unat n" by (simp add: min_def)
  moreover have "strtoui_loop rest base n = (n, rest)"
    using rest by (cases rest) (auto simp: Let_def is_digit_def)
  ultimately show ?case by (simp add: digits_value_def)
next
  case (Cons c ds)
  let ?d = "digit_to_int c"
  have d: "0 \<le> ?d" "?d < base" "?d \<noteq> - 1" using Cons.prems digit_to_int_range [of c] by (auto simp: is_digit_def)
  have ub: "unat (of_int base :: u64) = nat base"
    using base by (subst unat_eq_nat_uint) (simp add: uint_word_of_int_eq take_bit_int_eq_self)
  have ud: "unat (of_int ?d :: u64) = nat ?d"
    using base d by (subst unat_eq_nat_uint) (simp add: uint_word_of_int_eq take_bit_int_eq_self)
  let ?v = "unat n * nat base + nat ?d"
  have unf: "digits_value base (unat n) (c # ds) = digits_value base ?v ds" by (simp add: digits_value_def)
  have mono: "?v \<le> digits_value base ?v ds" using base by (intro digits_value_mono) simp
  consider (mul) "2 ^ 64 \<le> unat n * nat base" | (plus) "unat n * nat base < 2 ^ 64" "2 ^ 64 \<le> ?v" | (fit) "?v < 2 ^ 64" by linarith
  then show ?case
  proof cases
    case mul
    then have "CHECKED_MUL n (of_int base) = None" by (simp only: CHECKED_MUL_def ub not_less [symmetric] if_False)
    then have run: "strtoui_loop ((c # ds) @ rest) base n = (- 1, (c # ds) @ rest)" using d by (simp add: Let_def)
    have big: "2 ^ 64 \<le> digits_value base (unat n) (c # ds)" using mul mono unfolding unf by linarith
    have "n \<noteq> 0" using mul by auto
    then show ?thesis using big unfolding run by (simp add: min_def)
  next
    case plus
    then have m: "CHECKED_MUL n (of_int base) = Some (n * of_int base)" by (simp add: CHECKED_MUL_def ub)
    have um: "unat (n * of_int base) = unat n * nat base" using plus(1) ub by (simp add: unat_word_ariths)
    have "CHECKED_ADD (n * of_int base) (of_int ?d) = None" using plus(2) by (simp only: CHECKED_ADD_def um ud not_less [symmetric] if_False)
    then have run: "strtoui_loop ((c # ds) @ rest) base n = (- 1, (c # ds) @ rest)" using d m by (simp add: Let_def)
    have big: "2 ^ 64 \<le> digits_value base (unat n) (c # ds)" using plus mono unfolding unf by linarith
    have "n \<noteq> 0" using plus(2) base d by auto
    then show ?thesis using big unfolding run by (simp add: min_def)
  next
    case fit
    then have m: "CHECKED_MUL n (of_int base) = Some (n * of_int base)" by (simp add: CHECKED_MUL_def ub)
    have um: "unat (n * of_int base) = unat n * nat base" using fit ub by (simp add: unat_word_ariths)
    have a: "CHECKED_ADD (n * of_int base) (of_int ?d) = Some (n * of_int base + of_int ?d)" using fit by (simp add: CHECKED_ADD_def um ud)
    have ua: "unat (n * of_int base + of_int ?d) = ?v" using fit um ud by (simp add: unat_word_ariths)
    have run: "strtoui_loop ((c # ds) @ rest) base n = strtoui_loop (ds @ rest) base (n * of_int base + of_int ?d)"
      using d m a by (simp add: Let_def)
    show ?thesis using Cons.IH [of "n * of_int base + of_int ?d"] Cons.prems unfolding run unf ua by auto
  qed
qed

lemma strtoui_reads:
  assumes "2 \<le> base" "base \<le> 16" "list_all (is_digit base) ds" "rest = [] \<or> \<not> is_digit base (hd rest)"
  shows "fst (strtoui (ds @ rest) base) = of_nat (min (digits_value base 0 ds) (2 ^ 64 - 1))"
    "digits_value base 0 ds < 2 ^ 64 \<Longrightarrow> snd (strtoui (ds @ rest) base) = rest"
    "ds \<noteq> [] \<Longrightarrow> length (snd (strtoui (ds @ rest) base)) < length (ds @ rest)"
  using strtoui_loop_reads [OF assms, of 0] by (simp_all add: strtoui_def)

section \<open>Addresses\<close>

text \<open>A decimal number of at most 255, leading zeros included, and four of them with dots between.\<close>

definition octet_ok :: "ctext \<Rightarrow> bool" where
  "octet_ok d \<longleftrightarrow> d \<noteq> [] \<and> list_all (is_digit 10) d \<and> digits_value 10 0 d \<le> 255"

fun dotted :: "ctext list \<Rightarrow> ctext" where
  "dotted [] = []"
| "dotted [d] = d"
| "dotted (d # ds) = d @ 0x2E # dotted ds"

lemma dotted_Cons: "dotted (d # ds) = d @ (if ds = [] then [] else 0x2E # dotted ds)"
  by (cases ds) simp_all

lemma not_digit: "\<not> is_digit 10 0x2E" "\<not> is_digit 10 0"
  by (simp_all add: is_digit_def digit_to_int_def)

lemma read_octet:
  assumes "octet_ok d" "rest = [] \<or> \<not> is_digit 10 (hd rest)"
  shows "strtoui (d @ rest) 10 = (of_nat (digits_value 10 0 d), rest)"
proof -
  have v: "digits_value 10 0 d < 2 ^ 64" "min (digits_value 10 0 d) (2 ^ 64 - 1) = digits_value 10 0 d"
    using assms(1) by (simp_all add: octet_ok_def)
  have o: "list_all (is_digit 10) d" using assms(1) by (simp add: octet_ok_def)
  show ?thesis using strtoui_reads(1,2) [of 10 d rest, OF _ _ o assms(2)] v by (cases "strtoui (d @ rest) 10") simp
qed

lemma small_byte:
  assumes "n \<le> 255"
  shows "(of_nat n :: u64) \<le> 255" "ucast (of_nat n :: u64) = (of_nat n :: u8)"
proof -
  have "unat (of_nat n :: u64) = n" using assms by (intro unat_of_nat64) simp
  then show "(of_nat n :: u64) \<le> 255" using assms by (simp add: word_le_nat_alt)
  show "ucast (of_nat n :: u64) = (of_nat n :: u8)" using assms by (simp add: unsigned_of_nat take_bit_nat_eq_self)
qed

lemma big_byte:
  assumes "255 < n"
  shows "(255 :: u64) < of_nat (min n (2 ^ 64 - 1))"
proof -
  have "unat (of_nat (min n (2 ^ 64 - 1)) :: u64) = min n (2 ^ 64 - 1)" by (intro unat_of_nat64) (simp add: min_def)
  then show ?thesis using assms by (simp add: word_less_nat_alt)
qed

lemma inet_step:
  fixes cur :: ctext
  defines "d \<equiv> takeWhile (is_digit 10) cur" and "r \<equiv> dropWhile (is_digit 10) cur"
  assumes "i < 4"
  shows "inet_loop i cur arr =
     (if octet_ok d \<and> deref r = (if i < 3 then 0x2E else 0)
      then inet_loop (Suc i) (if i < 3 then tl r else r) (arr @ [of_nat (digits_value 10 0 d)]) else None)"
proof -
  have cur: "cur = d @ r" by (simp add: d_def r_def)
  have dig: "list_all (is_digit 10) d" by (auto simp: d_def list_all_iff dest: set_takeWhileD)
  have r: "r = [] \<or> \<not> is_digit 10 (hd r)" using hd_dropWhile [of "is_digit 10" cur] by (auto simp: r_def)
  consider "d = []" | "d \<noteq> []" "255 < digits_value 10 0 d" | "octet_ok d" using dig not_le_imp_less unfolding octet_ok_def by blast
  then show ?thesis
  proof cases
    case 1
    then have "strtoui cur 10 = (0, cur)" using r cur by (cases cur) (auto simp: strtoui_def is_digit_def Let_def)
    then show ?thesis using assms 1 by (subst inet_loop.simps) (simp add: octet_ok_def)
  next
    case 2
    then have "255 < fst (strtoui cur 10)" using strtoui_reads(1) [of 10 d r, OF _ _ dig r] big_byte [of "digits_value 10 0 d"] cur by simp
    moreover have "\<not> octet_ok d" using 2 by (simp add: octet_ok_def)
    ultimately show ?thesis using assms(3) by (subst inet_loop.simps) (simp add: case_prod_unfold)
  next
    case 3
    have "length cur \<noteq> length r" using 3 cur by (simp add: octet_ok_def)
    then show ?thesis using read_octet [OF 3 r] small_byte [of "digits_value 10 0 d"] 3 assms(3) cur
      by (subst inet_loop.simps) (auto simp: octet_ok_def not_less)
  qed
qed

lemma dotted_first:
  assumes "octet_ok d"
  shows "takeWhile (is_digit 10) (dotted (d # ds)) = d"
    "dropWhile (is_digit 10) (dotted (d # ds)) = (if ds = [] then [] else 0x2E # dotted ds)"
proof -
  have d: "\<forall>x \<in> set d. is_digit 10 x" using assms by (simp add: octet_ok_def list_all_iff)
  show "takeWhile (is_digit 10) (dotted (d # ds)) = d" using d not_digit by (cases ds) auto
  show "dropWhile (is_digit 10) (dotted (d # ds)) = (if ds = [] then [] else 0x2E # dotted ds)" using d not_digit by (cases ds) auto
qed

lemma no_zero_tl: "0 \<notin> set xs \<Longrightarrow> 0 \<notin> set (tl xs)"
  by (cases xs) auto

lemma deref_zero: "0 \<notin> set xs \<Longrightarrow> deref xs = 0 \<longleftrightarrow> xs = []"
  by (cases xs) auto

lemma deref_Cons: "c \<noteq> 0 \<Longrightarrow> xs = c # ys \<longleftrightarrow> deref xs = c \<and> tl xs = ys"
  by (cases xs) auto

lemma inet_loop_iff:
  assumes "i < 4" "0 \<notin> set cur"
  shows "inet_loop i cur arr = Some bs \<longleftrightarrow>
     (\<exists>ds. length ds = 4 - i \<and> list_all octet_ok ds \<and> cur = dotted ds \<and> bs = arr @ map (\<lambda>d. of_nat (digits_value 10 0 d)) ds)"
  using assms
proof (induction "4 - i" arbitrary: i cur arr)
  case 0
  then show ?case by simp
next
  case (Suc k)
  let ?d = "takeWhile (is_digit 10) cur" and ?r = "dropWhile (is_digit 10) cur"
  let ?v = "\<lambda>d. of_nat (digits_value 10 0 d) :: u8"
  have z: "0 \<notin> set ?r" using Suc.prems(2) set_dropWhileD by fastforce
  have zt: "0 \<notin> set (tl ?r)" using z by (rule no_zero_tl)
  have split: "(\<exists>ds. length ds = 4 - i \<and> list_all octet_ok ds \<and> cur = dotted ds \<and> bs = arr @ map ?v ds) \<longleftrightarrow>
      (\<exists>ds. length ds = 3 - i \<and> octet_ok ?d \<and> list_all octet_ok ds \<and> ?r = (if ds = [] then [] else 0x2E # dotted ds) \<and>
         bs = arr @ ?v ?d # map ?v ds)"
    (is "?L \<longleftrightarrow> ?R")
  proof
    assume ?L
    then obtain es where es: "length es = 4 - i" "list_all octet_ok es" "cur = dotted es" "bs = arr @ map ?v es" by blast
    then obtain e ds where eq: "es = e # ds" using Suc.prems(1) by (cases es) auto
    then have "length ds = 3 - i" using es(1) by simp
    then show ?R using dotted_first [of e ds] es unfolding eq by auto
  next
    assume ?R
    then obtain ds where ds: "length ds = 3 - i" "octet_ok ?d" "list_all octet_ok ds"
      "?r = (if ds = [] then [] else 0x2E # dotted ds)" "bs = arr @ ?v ?d # map ?v ds" by blast
    have "?d @ ?r = cur" by (rule takeWhile_dropWhile_id)
    then have "dotted (?d # ds) = cur" unfolding ds(4) dotted_Cons .
    then show ?L using ds Suc.prems(1) by (intro exI [of _ "?d # ds"]) (simp add: Suc_diff_le)
  qed
  show ?case
  proof (cases "i < 3")
    case True
    have ih: "inet_loop (Suc i) (tl ?r) (arr @ [?v ?d]) = Some bs \<longleftrightarrow>
        (\<exists>ds. length ds = 3 - i \<and> list_all octet_ok ds \<and> tl ?r = dotted ds \<and> bs = arr @ ?v ?d # map ?v ds)"
      using Suc.hyps(1) [of "Suc i" "tl ?r" "arr @ [?v ?d]"] Suc.hyps(2) True zt by simp
    have dot: "?r = (if ds = [] then [] else 0x2E # dotted ds) \<longleftrightarrow> deref ?r = 0x2E \<and> tl ?r = dotted ds" if "length ds = 3 - i" for ds
      using that True deref_Cons [of "0x2E" ?r "dotted ds"] by auto
    have "inet_loop i cur arr = Some bs \<longleftrightarrow> octet_ok ?d \<and> deref ?r = 0x2E \<and> inet_loop (Suc i) (tl ?r) (arr @ [?v ?d]) = Some bs"
      using True by (subst inet_step [OF Suc.prems(1)]) auto
    then show ?thesis unfolding split ih using dot by blast
  next
    case False
    then have i: "i = 3" using Suc.prems(1) by simp
    have "deref ?r = 0 \<longleftrightarrow> ?r = []" using z deref_zero by blast
    then show ?thesis unfolding split inet_step [OF Suc.prems(1)] using i by (auto simp: inet_loop.simps [of 4])
  qed
qed

text \<open>Theorem: \<open>inet_pton\<close> accepts exactly four decimal numbers of at most 255 with dots between, and returns them.\<close>

theorem inet_pton_correct:
  assumes "0 \<notin> set s"
  shows "inet_pton s = Some bs \<longleftrightarrow>
     (\<exists>ds. length ds = 4 \<and> list_all octet_ok ds \<and> s = dotted ds \<and> bs = map (\<lambda>d. of_nat (digits_value 10 0 d)) ds)"
  using inet_loop_iff [of 0 s "[]" bs] assms by (simp add: inet_pton_def)

theorem inet_pton_correct_witness:
  "inet_pton [0x31, 0x30, 0x2E, 0x30, 0x2E, 0x32, 0x2E, 0x32, 0x35, 0x35] = Some [10, 0, 2, 255]"
  by (subst inet_pton_correct, simp, intro exI [of _ "[[0x31, 0x30], [0x30], [0x32], [0x32, 0x35, 0x35]]"])
    (simp add: octet_ok_def digits_value_def is_digit_def digit_to_int_def)


section \<open>GUIDs survive printing and parsing\<close>

definition nibble :: "u8 \<Rightarrow> u8" where
  "nibble c = of_int (digit_to_int c)"

definition pair_byte :: "ctext \<Rightarrow> nat \<Rightarrow> u8" where
  "pair_byte s k = push_bit 4 (nibble (s ! (2 * k))) OR nibble (s ! (2 * k + 1))"

lemma put_byte: "off < length b \<Longrightarrow> b[off := x] = take off b @ x # drop (Suc off) b"
  by (simp add: upd_conv_take_nth_drop)

lemma be_cluster_fold:
  "off + n \<le> length dest \<Longrightarrow> fold (be_step off s) [0..<2 * n] (dest, 0) =
     (take off dest @ map (pair_byte s) [0..<n] @ drop (off + n) dest, n)"
proof (induction n)
  case 0
  then show ?case by simp
next
  case (Suc n)
  let ?m = "take off dest @ map (pair_byte s) [0..<n] @ drop (off + n) dest"
  have l: "length (take off dest @ map (pair_byte s) [0..<n]) = off + n" using Suc.prems by simp
  have d: "drop (off + n) dest = dest ! (off + n) # drop (Suc (off + n)) dest" using Suc.prems by (simp add: Cons_nth_drop_Suc)
  have upt: "[0..<2 * Suc n] = [0..<2 * n] @ [2 * n, Suc (2 * n)]" by simp
  have upd: "?m[off + n := x] = take off dest @ map (pair_byte s) [0..<n] @ x # drop (Suc (off + n)) dest" for x
    using l unfolding d by (metis append.assoc list_update_length)
  have at: "(take off dest @ map (pair_byte s) [0..<n] @ x # r) ! (off + n) = x" for x r
    using l by (metis append.assoc nth_append_length)
  have up2: "(take off dest @ map (pair_byte s) [0..<n] @ x # r)[off + n := y] = take off dest @ map (pair_byte s) [0..<n] @ y # r" for x y r
    using l by (metis append.assoc list_update_length)
  have step1: "be_step off s (2 * n) (?m, n) = (take off dest @ map (pair_byte s) [0..<n] @ push_bit 4 (nibble (s ! (2 * n))) # drop (Suc (off + n)) dest, n)"
    by (simp add: be_step_def Let_def nibble_def upd)
  have step2: "be_step off s (Suc (2 * n)) (take off dest @ map (pair_byte s) [0..<n] @ push_bit 4 (nibble (s ! (2 * n))) # drop (Suc (off + n)) dest, n) =
      (take off dest @ map (pair_byte s) [0..<n] @ pair_byte s n # drop (Suc (off + n)) dest, Suc n)"
    by (simp add: be_step_def Let_def nibble_def [symmetric] at up2 pair_byte_def)
  have "fold (be_step off s) [0..<2 * n] (dest, 0) = (?m, n)" using Suc by simp
  then show ?case unfolding upt fold_append comp_apply fold_simps step1 step2 by (simp only: step1 step2) simp
qed

lemma le_cluster_fold:
  "off + p + n \<le> length dest \<Longrightarrow> fold (le_step off s) (rev [0..<2 * n]) (dest, p) =
     (take (off + p) dest @ rev (map (pair_byte s) [0..<n]) @ drop (off + p + n) dest, p + n)"
proof (induction n arbitrary: dest p)
  case 0
  then show ?case by simp
next
  case (Suc n)
  let ?d = "dest[off + p := pair_byte s n]"
  have upt: "rev [0..<2 * Suc n] = [Suc (2 * n), 2 * n] @ rev [0..<2 * n]" by simp
  have step: "le_step off s (2 * n) (le_step off s (Suc (2 * n)) (dest, p)) = (?d, Suc p)"
    using Suc.prems by (simp add: le_step_def Let_def nibble_def pair_byte_def or.commute)
  have "take (off + Suc p) ?d = take (off + p) dest @ [pair_byte s n]"
    using Suc.prems by (simp add: take_Suc_conv_app_nth)
  moreover have "drop (off + Suc p + n) ?d = drop (off + p + Suc n) dest" by simp
  ultimately show ?case using Suc.IH [of "Suc p" ?d] Suc.prems
    unfolding upt fold_append comp_apply fold_simps step by simp
qed

lemma convert_be: "off + n \<le> length dest \<Longrightarrow>
    guid_convert_be_cluster off s (2 * n) dest = take off dest @ map (pair_byte s) [0..<n] @ drop (off + n) dest"
  by (simp add: guid_convert_be_cluster_def be_cluster_fold)

lemma convert_le: "off + n \<le> length dest \<Longrightarrow>
    guid_convert_le_cluster off s (2 * n) dest = take off dest @ rev (map (pair_byte s) [0..<n]) @ drop (off + n) dest"
  using le_cluster_fold [of off 0 n dest s] by (simp add: guid_convert_le_cluster_def)

lemma mixed_bytes:
  assumes "length b = 16"
  shows "guid_convert_be_cluster 10 (drop 24 s) 12 (guid_convert_be_cluster 8 (drop 19 s) 4
        (guid_convert_le_cluster 6 (drop 14 s) 4 (guid_convert_le_cluster 4 (drop 9 s) 4 (guid_convert_le_cluster 0 s 8 b)))) =
     rev (map (pair_byte s) [0..<4]) @ rev (map (pair_byte (drop 9 s)) [0..<2]) @ rev (map (pair_byte (drop 14 s)) [0..<2]) @
     map (pair_byte (drop 19 s)) [0..<2] @ map (pair_byte (drop 24 s)) [0..<6]"
  using assms convert_be [of 10 6 _ "drop 24 s"] convert_be [of 8 2 _ "drop 19 s"] convert_le [of 6 2 _ "drop 14 s"]
    convert_le [of 4 2 _ "drop 9 s"] convert_le [of 0 4 b s] by simp

lemma digit_hex:
  assumes "v < 16"
  shows "digit_to_int (guid_hex_digit v) = uint v"
proof -
  have all: "list_all (\<lambda>k. digit_to_int (guid_hex_digit (of_nat k)) = int k) [0..<16]" by code_simp
  have "unat v < 16" using assms by (simp add: word_less_nat_alt)
  then have "unat v \<in> set [0..<16]" by simp
  then have "digit_to_int (guid_hex_digit (of_nat (unat v))) = int (unat v)" using all unfolding list_all_iff by (rule bspec [rotated])
  then show ?thesis by simp
qed

lemma low_digit: "(x :: u32) AND 0xF < 16"
proof -
  have "x AND 0xF = take_bit 4 x" by (simp add: take_bit_eq_mask mask_eq_exp_minus_1)
  then show ?thesis by (simp add: word_less_nat_alt take_bit_eq_mod unat_mod)
qed

lemma nibble_hex: "nibble (guid_hex_digit (x AND 0xF)) = ucast (x AND 0xF)"
  using digit_hex [OF low_digit [of x]] by (simp add: nibble_def)

lemma hex_is_digit: "digit_to_int (guid_hex_digit (x AND 0xF)) \<noteq> - 1"
  using digit_hex [OF low_digit [of x]] uint_ge_0 [of "x AND 0xF"] by linarith

lemma byte_join: "push_bit 4 (ucast (drop_bit (8 * m + 4) x AND 0xF)) OR ucast (drop_bit (8 * m) x AND 0xF) = (ucast (drop_bit (8 * m) (x :: u32)) :: u8)"
proof -
  have f: "(0xF :: u32) = mask 4" by (simp add: mask_eq_exp_minus_1)
  show ?thesis unfolding f by (rule bit_word_eqI) (auto simp: bit_simps)
qed

lemma pair_byte_hex:
  assumes "k < n"
  shows "pair_byte (uint_to_hex num (2 * n) @ rest) k = ucast (drop_bit (8 * (n - 1 - k)) num)"
proof -
  have i: "(2 * n - 1 - 2 * k) * 4 = 8 * (n - 1 - k) + 4" "(2 * n - 1 - (2 * k + 1)) * 4 = 8 * (n - 1 - k)" using assms by auto
  have "(uint_to_hex num (2 * n) @ rest) ! (2 * k) = guid_hex_digit (drop_bit ((2 * n - 1 - 2 * k) * 4) num AND 0xF)"
    "(uint_to_hex num (2 * n) @ rest) ! (2 * k + 1) = guid_hex_digit (drop_bit ((2 * n - 1 - (2 * k + 1)) * 4) num AND 0xF)"
    using assms by (simp_all add: nth_append uint_to_hex_def)
  then show ?thesis unfolding pair_byte_def i by (simp only: nibble_hex byte_join)
qed


lemma length_hex [simp]: "length (uint_to_hex num n) = n"
  by (simp add: uint_to_hex_def)

lemma hex_digits: "list_all (\<lambda>c. digit_to_int c \<noteq> - 1) (uint_to_hex num n)"
  using hex_is_digit by (simp add: uint_to_hex_def list_all_iff)

lemma valid_hex_run:
  "list_all (\<lambda>c. digit_to_int c \<noteq> - 1) xs \<Longrightarrow> {i..<i + length xs} \<inter> {8, 13, 18, 23, 36} = {} \<Longrightarrow>
   valid_guid_from i (xs @ ys) = valid_guid_from (i + length xs) ys"
proof (induction xs arbitrary: i)
  case Nil
  then show ?case by simp
next
  case (Cons x xs)
  have "i \<in> {i..<i + length (x # xs)}" by simp
  then have i: "i \<notin> {8, 13, 18, 23, 36}" using Cons.prems(2) by blast
  have "{Suc i..<Suc i + length xs} \<subseteq> {i..<i + length (x # xs)}" by auto
  then have "{Suc i..<Suc i + length xs} \<inter> {8, 13, 18, 23, 36} = {}" using Cons.prems(2) by blast
  then have "valid_guid_from (Suc i) (xs @ ys) = valid_guid_from (Suc i + length xs) ys" using Cons by simp
  then show ?case using i Cons.prems(1) by (subst valid_guid_from.simps) simp
qed

lemma valid_dash: "valid_guid_from i (0x2D # ys) = valid_guid_from (Suc i) ys" if "i \<in> {8, 13, 18, 23}"
  using that by (subst valid_guid_from.simps) simp

lemma valid_hex: "{i..<i + n} \<inter> {8, 13, 18, 23, 36} = {} \<Longrightarrow> valid_guid_from i (uint_to_hex num n @ ys) = valid_guid_from (i + n) ys"
  using valid_hex_run [OF hex_digits [of num n], of i ys] by simp

lemma guid_to_string_valid: "is_valid_guid (guid_to_string g)"
proof -
  have e: "valid_guid_from 34 (uint_to_hex num 2)" for num
    using valid_hex [of 34 2 num "[]"] by (simp add: valid_guid_from.simps [of 36])
  show ?thesis unfolding is_valid_guid_def guid_to_string_def append_Cons append_Nil
    by (simp add: valid_hex valid_dash e)
qed


lemma pair_byte_skip: "length xs = 2 \<Longrightarrow> pair_byte (xs @ ys) (Suc k) = pair_byte ys k"
  by (simp add: pair_byte_def nth_append)

definition hex_bytes :: "u8 list \<Rightarrow> ctext" where
  "hex_bytes ds = concat (map (\<lambda>d. uint_to_hex (ucast d) 2) ds)"

lemma pair_bytes_hex2: "map (pair_byte (hex_bytes ds @ rest)) [0..<length ds] = ds"
proof (induction ds)
  case Nil
  then show ?case by simp
next
  case (Cons d ds)
  have "ucast (ucast d :: u32) = d" by (rule bit_word_eqI) (auto simp: bit_simps)
  then have "pair_byte (uint_to_hex (ucast d) 2 @ xs) 0 = d" for xs
    using pair_byte_hex [of 0 1 "ucast d" xs] by simp
  moreover have "pair_byte (hex_bytes (d # ds) @ rest) (Suc k) = pair_byte (hex_bytes ds @ rest) k" for k
    using pair_byte_skip [of "uint_to_hex (ucast d) 2"] by (simp add: hex_bytes_def)
  ultimately show ?case using Cons.IH by (simp add: upt_conv_Cons map_Suc_upt [symmetric] o_def hex_bytes_def del: upt_Suc)
qed

lemma word32_bytes:
  "ucast (ucast a :: u8) OR push_bit 8 (ucast (ucast (drop_bit 8 a) :: u8)) OR push_bit 16 (ucast (ucast (drop_bit 16 a) :: u8)) OR
     push_bit 24 (ucast (ucast (drop_bit 24 a) :: u8)) = (a :: u32)"
proof (rule bit_word_eqI)
  fix n assume "n < LENGTH(32)"
  then consider "n < 8" | "8 \<le> n" "n < 16" | "16 \<le> n" "n < 24" | "24 \<le> n" "n < 32" by fastforce
  then show "bit (ucast (ucast a :: u8) OR push_bit 8 (ucast (ucast (drop_bit 8 a) :: u8)) OR push_bit 16 (ucast (ucast (drop_bit 16 a) :: u8)) OR
     push_bit 24 (ucast (ucast (drop_bit 24 a) :: u8)) :: u32) n \<longleftrightarrow> bit a n"
    by cases (auto simp: bit_simps)
qed

lemma word16_bytes:
  "ucast (ucast (ucast (b :: u16) :: u32) :: u8) OR push_bit 8 (ucast (ucast (drop_bit 8 (ucast b :: u32)) :: u8)) = b"
  by (rule bit_word_eqI) (auto simp: bit_simps)

lemma pair_bytes_hex: "map (pair_byte (uint_to_hex num (2 * n) @ rest)) [0..<n] = map (\<lambda>k. ucast (drop_bit (8 * (n - 1 - k)) num)) [0..<n]"
  by (simp add: pair_byte_hex)

lemma guid_d_list: "length d = 8 \<Longrightarrow> d = [d ! 0, d ! 1, d ! 2, d ! 3, d ! 4, d ! 5, d ! 6, d ! 7]"
  by (rule nth_equalityI) (auto simp: less_Suc_eq numeral_eq_Suc)

lemma guid_clusters:
  fixes g :: guid
  defines "s \<equiv> guid_to_string g"
  shows "rev (map (pair_byte s) [0..<4]) = map (\<lambda>k. ucast (drop_bit (8 * k) (guid_a g))) [0..<4]"
    "rev (map (pair_byte (drop 9 s)) [0..<2]) = map (\<lambda>k. ucast (drop_bit (8 * k) (ucast (guid_b g) :: u32))) [0..<2]"
    "rev (map (pair_byte (drop 14 s)) [0..<2]) = map (\<lambda>k. ucast (drop_bit (8 * k) (ucast (guid_c g) :: u32))) [0..<2]"
    "map (pair_byte (drop 19 s)) [0..<2] = [guid_d g ! 0, guid_d g ! 1]"
    "map (pair_byte (drop 24 s)) [0..<6] = [guid_d g ! 2, guid_d g ! 3, guid_d g ! 4, guid_d g ! 5, guid_d g ! 6, guid_d g ! 7]"
proof -
  have hex: "map (pair_byte (uint_to_hex num 8 @ rest)) [0..<4] = [ucast (drop_bit 24 num), ucast (drop_bit 16 num), ucast (drop_bit 8 num), ucast num]"
     "map (pair_byte (uint_to_hex num 4 @ rest)) [0..<2] = [ucast (drop_bit 8 num), ucast num]" for num rest
    using pair_bytes_hex [of num 4 rest] pair_bytes_hex [of num 2 rest] by (simp_all add: upt_rec)
  show "rev (map (pair_byte s) [0..<4]) = map (\<lambda>k. ucast (drop_bit (8 * k) (guid_a g))) [0..<4]"
    unfolding s_def guid_to_string_def hex by (simp add: upt_rec)
  show "rev (map (pair_byte (drop 9 s)) [0..<2]) = map (\<lambda>k. ucast (drop_bit (8 * k) (ucast (guid_b g) :: u32))) [0..<2]"
    using hex(2) [of "ucast (guid_b g)"] by (simp add: s_def guid_to_string_def) (simp add: upt_rec)
  show "rev (map (pair_byte (drop 14 s)) [0..<2]) = map (\<lambda>k. ucast (drop_bit (8 * k) (ucast (guid_c g) :: u32))) [0..<2]"
    using hex(2) [of "ucast (guid_c g)"] by (simp add: s_def guid_to_string_def) (simp add: upt_rec)
  have tail: "drop 19 s = hex_bytes [guid_d g ! 0, guid_d g ! 1] @ 0x2D # drop 24 s"
      "drop 24 s = hex_bytes ([guid_d g ! 2, guid_d g ! 3, guid_d g ! 4, guid_d g ! 5, guid_d g ! 6, guid_d g ! 7]) @ []"
    by (simp_all add: s_def guid_to_string_def hex_bytes_def)
  show "map (pair_byte (drop 19 s)) [0..<2] = [guid_d g ! 0, guid_d g ! 1]"
    using pair_bytes_hex2 [of "[guid_d g ! 0, guid_d g ! 1]" "0x2D # drop 24 s"] unfolding tail(1) by (simp add: numeral_eq_Suc)
  show "map (pair_byte (drop 24 s)) [0..<6] = [guid_d g ! 2, guid_d g ! 3, guid_d g ! 4, guid_d g ! 5, guid_d g ! 6, guid_d g ! 7]"
    using pair_bytes_hex2 [of "[guid_d g ! 2, guid_d g ! 3, guid_d g ! 4, guid_d g ! 5, guid_d g ! 6, guid_d g ! 7]" "[]"] unfolding tail(2) by (simp add: numeral_eq_Suc)
qed


text \<open>Property C34: a GUID that is printed and parsed again is the same, whatever the structure held before, and the text of
  every GUID is valid.\<close>

theorem guid_roundtrip:
  assumes "length (guid_d g) = 8" and "length (guid_d g0) = 8"
  shows "string_to_guid_mixed g0 (guid_to_string g) = (True, g)"
proof -
  let ?d = "guid_d g"
  let ?w = "\<lambda>k. ucast (drop_bit (8 * k) (guid_a g)) :: u8"
  have l: "length (guid_bytes g0) = 16" using assms(2) by (simp add: guid_bytes_def)
  have "string_to_guid_mixed g0 (guid_to_string g) = (True, guid_of_bytes (
      map ?w [0..<4] @ map (\<lambda>k. ucast (drop_bit (8 * k) (ucast (guid_b g) :: u32))) [0..<2] @
      map (\<lambda>k. ucast (drop_bit (8 * k) (ucast (guid_c g) :: u32))) [0..<2] @ [?d ! 0, ?d ! 1] @ [?d ! 2, ?d ! 3, ?d ! 4, ?d ! 5, ?d ! 6, ?d ! 7]))"
    using guid_to_string_valid [of g] by (simp only: string_to_guid_mixed_def mixed_bytes [OF l] guid_clusters) simp
  also have "\<dots> = (True, g)"
  proof -
    have "[?d ! 0, ?d ! 1] @ [?d ! 2, ?d ! 3, ?d ! 4, ?d ! 5, ?d ! 6, ?d ! 7] = ?d"
      using guid_d_list [OF assms(1)] by simp
    then have "guid_of_bytes (map ?w [0..<4] @ map (\<lambda>k. ucast (drop_bit (8 * k) (ucast (guid_b g) :: u32))) [0..<2] @
      map (\<lambda>k. ucast (drop_bit (8 * k) (ucast (guid_c g) :: u32))) [0..<2] @ ?d) = g"
      by (simp add: guid_of_bytes_def upt_rec word32_bytes word16_bytes)
    then show ?thesis using \<open>[?d ! 0, ?d ! 1] @ [?d ! 2, ?d ! 3, ?d ! 4, ?d ! 5, ?d ! 6, ?d ! 7] = ?d\<close> by (simp only:)
  qed
  finally show ?thesis .
qed

definition some_guid :: guid where
  "some_guid = \<lparr>guid_a = 0xC12A7328, guid_b = 0xF81F, guid_c = 0x11D2, guid_d = [0xBA, 0x4B, 0, 0xA0, 0xC9, 0x3E, 0xC9, 0x3B]\<rparr>"

theorem guid_roundtrip_witness: "string_to_guid_mixed some_guid (guid_to_string some_guid) = (True, some_guid)"
  by (rule guid_roundtrip) (simp_all add: some_guid_def)


section \<open>Comparisons are the byte order\<close>

lemma loader_strcmp_lexord:
  "0 \<notin> set s1 \<Longrightarrow> 0 \<notin> set s2 \<Longrightarrow> (loader_strcmp s1 s2 = 0 \<longleftrightarrow> s1 = s2) \<and> (loader_strcmp s1 s2 < 0 \<longleftrightarrow> (s1, s2) \<in> lexord {(a, b). a < b})"
proof (induction s1 arbitrary: s2)
  case Nil
  then show ?case by (cases s2) (auto simp: loader_strcmp.simps [of "[]"] word_gt_0)
next
  case (Cons c cs)
  show ?case
  proof (cases s2)
    case Nil
    then show ?thesis using Cons.prems by (auto simp: loader_strcmp.simps [of "c # cs"])
  next
    case s2: (Cons d ds)
    then show ?thesis using Cons.IH [of ds] Cons.prems by (auto simp: loader_strcmp.simps [of "c # cs"])
  qed
qed

text \<open>The bounded comparison is the unbounded one on the first bytes, and ignoring case is comparing in lower case.\<close>

definition lower :: "u8 \<Rightarrow> u8" where
  "lower c = of_int (tolower (uint c))"

lemma lower_uint: "uint (lower c) = tolower (uint c)"
proof -
  have "uint c < 2 ^ 8" "0 \<le> uint c" using uint_lt2p [of c] by simp_all
  then have "0 \<le> tolower (uint c)" "tolower (uint c) < 2 ^ 8" by (auto simp: tolower_def)
  then show ?thesis by (simp add: lower_def uint_word_of_int_eq take_bit_int_eq_self)
qed

lemma lower_zero: "lower c = 0 \<longleftrightarrow> c = 0"
proof -
  have "0 \<le> uint c" by simp
  then have "tolower (uint c) = 0 \<longleftrightarrow> uint c = 0" by (auto simp: tolower_def)
  moreover have "x = 0 \<longleftrightarrow> uint x = 0" for x :: u8 by (simp add: uint_0_iff)
  ultimately show ?thesis using lower_uint [of c] by metis
qed

lemma lower_zero' [simp]: "lower 0 = 0" "0 = lower c \<longleftrightarrow> c = 0"
  using lower_zero [of 0] lower_zero [of c] by metis+

lemma lower_deref: "deref (map lower s) = lower (deref s)"
  using lower_zero [of 0] by (cases s) simp_all

lemma lower_cmp: "tolower (uint a) \<noteq> tolower (uint b) \<longleftrightarrow> lower a \<noteq> lower b" "tolower (uint a) < tolower (uint b) \<longleftrightarrow> lower a < lower b"
  by (simp_all add: lower_uint [symmetric] word_less_def word_uint_eq_iff)

lemma strcasecmp_lower: "strcasecmp s1 s2 = loader_strcmp (map lower s1) (map lower s2)"
proof (induction s1 arbitrary: s2)
  case Nil
  show ?case by (subst strcasecmp.simps, subst loader_strcmp.simps) (simp only: lower_cmp lower_deref list.map list.case deref.simps lower_zero'(1))
next
  case (Cons c cs)
  then show ?case by (subst strcasecmp.simps, subst loader_strcmp.simps) (simp add: lower_cmp lower_deref lower_zero map_tl)
qed

lemma strncasecmp_lower: "strncasecmp s1 s2 n = loader_strncmp (map lower s1) (map lower s2) n"
  by (induction n arbitrary: s1 s2) (auto simp: lower_cmp lower_deref lower_zero map_tl)

lemma loader_strncmp_take: "loader_strncmp s1 s2 n = loader_strcmp (take n s1) (take n s2)"
proof (induction n arbitrary: s1 s2)
  case 0
  show ?case by (simp add: loader_strcmp.simps)
next
  case (Suc n)
  have d: "deref (take (Suc n) s) = deref s" "tl (take (Suc n) s) = take n (tl s)" for s by (cases s; simp)+
  show ?case
  proof (cases s1)
    case Nil
    then show ?thesis by (subst loader_strcmp.simps) (simp add: d)
  next
    case (Cons c cs)
    then show ?thesis using Suc.IH [of cs "tl s2"] by (subst loader_strcmp.simps) (simp add: d)
  qed
qed

text \<open>Theorem: the four comparisons of the loader return zero exactly on equal strings and a negative number exactly when
  the first string comes first in the order of the bytes, of the first \<open>n\<close> bytes, or of the lower-case bytes.\<close>

theorem comparisons_order:
  assumes "0 \<notin> set s1" and "0 \<notin> set s2"
  shows "(loader_strcmp s1 s2 = 0 \<longleftrightarrow> s1 = s2) \<and> (loader_strcmp s1 s2 < 0 \<longleftrightarrow> (s1, s2) \<in> lexord {(a, b). a < b}) \<and>
     (loader_strncmp s1 s2 n = 0 \<longleftrightarrow> take n s1 = take n s2) \<and> (loader_strncmp s1 s2 n < 0 \<longleftrightarrow> (take n s1, take n s2) \<in> lexord {(a, b). a < b}) \<and>
     (strcasecmp s1 s2 = 0 \<longleftrightarrow> map lower s1 = map lower s2) \<and>
     (strncasecmp s1 s2 n = 0 \<longleftrightarrow> take n (map lower s1) = take n (map lower s2))"
proof -
  have z: "0 \<notin> set (take n xs)" "0 \<notin> set (map lower xs)" if "0 \<notin> set xs" for xs n
    using that lower_zero by (auto dest: in_set_takeD)
  show ?thesis using assms loader_strcmp_lexord [of s1 s2] loader_strcmp_lexord [OF z(1) z(1), of s1 s2 n n] loader_strcmp_lexord [OF z(2) z(2), of s1 s2]
      loader_strcmp_lexord [OF z(1) [OF z(2)] z(1) [OF z(2)], of s1 s2 n n]
    unfolding loader_strncmp_take strcasecmp_lower strncasecmp_lower by blast
qed

section \<open>Resolutions\<close>

definition number_text :: "ctext \<Rightarrow> nat \<Rightarrow> bool" where
  "number_text d n \<longleftrightarrow> d \<noteq> [] \<and> list_all (is_digit 10) d \<and> digits_value 10 0 d = n \<and> n < 2 ^ 32"

definition separator :: "u8 \<Rightarrow> bool" where
  "separator c \<longleftrightarrow> c \<noteq> 0 \<and> \<not> is_digit 10 c"

lemma read_number:
  assumes "number_text d n" "rest = [] \<or> \<not> is_digit 10 (hd rest)"
  shows "strtoui (d @ rest) 10 = (of_nat n, rest)"
proof -
  have v: "digits_value 10 0 d = n" "n < 2 ^ 64" "min n (2 ^ 64 - 1) = n" using assms(1) by (simp_all add: number_text_def)
  have o: "list_all (is_digit 10) d" using assms(1) by (simp add: number_text_def)
  show ?thesis using strtoui_reads(1,2) [of 10 d rest, OF _ _ o assms(2)] v by (cases "strtoui (d @ rest) 10") simp
qed

lemma resolution_step:
  assumes "number_text d n" "separator c" "i < 3"
  shows "resolution_loop i (d @ c # rest) res = resolution_loop (Suc i) rest (res[i := of_nat n])"
    "resolution_loop i d res = res[i := of_nat n]"
proof -
  have "ucast (of_nat n :: u64) = (of_nat n :: u32)" using assms(1) by (simp add: number_text_def unsigned_of_nat take_bit_nat_eq_self)
  moreover have "d \<noteq> []" using assms(1) by (simp add: number_text_def)
  ultimately show "resolution_loop i (d @ c # rest) res = resolution_loop (Suc i) rest (res[i := of_nat n])"
    "resolution_loop i d res = res[i := of_nat n]"
    using read_number [OF assms(1), of "c # rest"] read_number [OF assms(1), of "[]"] assms(2,3)
    by (subst resolution_loop.simps, simp add: separator_def)+
qed

text \<open>Theorem: a resolution of two or three numbers below 2 to the 32 is read as these numbers; a width or height of zero is
  refused, and a missing or zero depth is 32.\<close>

theorem parse_resolution_correct:
  assumes "number_text w nw" and "number_text h nh" and "number_text d nd" and "separator c" and "separator c'"
  shows "parse_resolution (w @ c # h) = (if nw = 0 \<or> nh = 0 then None else Some (of_nat nw, of_nat nh, 32)) \<and>
     parse_resolution (w @ c # h @ c' # d) =
       (if nw = 0 \<or> nh = 0 then None else Some (of_nat nw, of_nat nh, if nd = 0 then 32 else of_nat nd))"
proof -
  have z: "(of_nat n :: u32) = 0 \<longleftrightarrow> n = 0" if "number_text x n" for x n
    using that by (auto simp: number_text_def word_of_nat_eq_0_iff dest: dvd_imp_le)
  show ?thesis using assms z
    by (simp add: parse_resolution_def Let_def resolution_step [OF assms(1,4)] resolution_step [OF assms(2,5)] resolution_step [OF assms(3,5)])
qed

end
