(* ===== verification/LoaderVolume.thy ===== *)
theory LoaderVolume
  imports LoaderText
begin

text \<open>
  Reading a volume in the boot loader: the block cache and \<open>volume_read\<close> of \<^verbatim>\<open>limine/common/lib/part.s2.c\<close>, over
  \<open>disk_read_sectors\<close> of \<^verbatim>\<open>limine/common/drivers/disk.s2.c\<close> (BIOS build, where \<open>size_t\<close> has 32 bits). The BIOS service that
  reads sectors is an argument: for a drive, a sector and a number of sectors it gives the bytes, or \<open>None\<close> for a
  set carry flag. A routine returns \<open>Inl\<close> with the message of a panic, or \<open>Inr\<close> with its result and the volume, whose cache
  it changes; the contents of the caller's buffer after a failed read are not modelled, no caller looks at them. The memory for the cache and
  for the transfer buffer is taken as given: that the allocator may panic there is not part of the model.
\<close>

section \<open>Volumes\<close>

text \<open>Pointers to other volumes are addresses, a null pointer to a text or an identifier that is not valid is \<open>None\<close>;
  \<open>ebr_part\<close>, which only a disk with logical partitions has, is added where it is used.\<close>

record volume =
  drive :: int
  fastest_xfer_size :: u32
  vol_index :: int
  is_optical :: bool
  pxe :: bool
  vol_partition :: int
  sector_size :: int
  backing_dev :: u64
  max_partition :: int
  cache_ready :: bool
  cache :: "u8 list option"
  cached_block :: u64
  ebr_walk_index :: int
  ebr_walk_sector :: u64
  ebr_walk_size :: u64
  first_sect :: u64
  sect_count :: u64
  vol_guid :: "guid option"
  part_guid :: "guid option"
  part_type_guid :: "guid option"
  fslabel :: "ctext option"

type_synonym bios_disk = "int \<Rightarrow> u64 \<Rightarrow> nat \<Rightarrow> u8 list option"

definition XFER_BUF_SIZE :: u32 where "XFER_BUF_SIZE = 64 * 512"

text \<open>\<open>None\<close> is \<open>DISK_FAILURE\<close>.\<close>

definition disk_read_sectors :: "bios_disk \<Rightarrow> 'a volume_scheme \<Rightarrow> u64 \<Rightarrow> u32 \<Rightarrow> string + u8 list option" where
  "disk_read_sectors int13 v block cnt =
     (if cnt * of_int (sector_size v) > XFER_BUF_SIZE then Inl ''XFER''
      else Inr (map_option (take (unat (cnt * of_int (sector_size v)))) (int13 (drive v) block (unat (ucast cnt :: u16)))))"

text \<open>The number of 512-byte units in a sector.\<close>

definition sector_units :: "'a volume_scheme \<Rightarrow> u64" where
  "sector_units v = of_int (sector_size v div 512)"

text \<open>The number of sectors to transfer: the rest of the volume may be smaller than a block.\<close>

definition clamp_xfer :: "'a volume_scheme \<Rightarrow> u64 \<Rightarrow> u64 \<Rightarrow> u64 option" where
  "clamp_xfer v first read_sector =
     (let xfer_size = ucast (fastest_xfer_size v) :: u64
      in if sect_count v = - 1 then Some xfer_size
         else case DIV_ROUNDUP (sect_count v) (sector_units v) of
           None \<Rightarrow> None
         | Some volume_sectors \<Rightarrow>
             let end_sector = (case CHECKED_ADD first volume_sectors of None \<Rightarrow> - 1 | Some e \<Rightarrow> e)
             in if read_sector \<ge> end_sector then None
                else Some (if xfer_size > end_sector - read_sector then end_sector - read_sector else xfer_size))"

text \<open>Where a block of the cache lies on the disk: its first sector and the number of sectors to read.\<close>

definition locate_block :: "'a volume_scheme \<Rightarrow> u64 \<Rightarrow> (u64 \<times> u64) option" where
  "locate_block v block =
     (if first_sect v mod sector_units v \<noteq> 0 then None
      else let first = first_sect v div sector_units v
           in case CHECKED_MUL block (ucast (fastest_xfer_size v)) of
                None \<Rightarrow> None
              | Some block_offset \<Rightarrow> (case CHECKED_ADD first block_offset of
                  None \<Rightarrow> None
                | Some read_sector \<Rightarrow> map_option (\<lambda>xfer_size. (read_sector, xfer_size)) (clamp_xfer v first read_sector)))"

definition alloc_cache :: "'a volume_scheme \<Rightarrow> string + 'a volume_scheme" where
  "alloc_cache v =
     (if cache v \<noteq> None then Inr v
      else case CHECKED_MUL (ucast (fastest_xfer_size v)) (of_int (sector_size v)) of
             None \<Rightarrow> Inl ''cache_block: block size overflow''
           | Some n \<Rightarrow> Inr (v\<lparr>cache := Some (replicate (unat n) 0)\<rparr>))"

definition cache_block :: "bios_disk \<Rightarrow> u64 \<Rightarrow> 'a volume_scheme \<Rightarrow> string + bool \<times> 'a volume_scheme" where
  "cache_block int13 block v =
     (if cache_ready v \<and> block = cached_block v then Inr (True, v)
      else case alloc_cache (v\<lparr>cache_ready := False\<rparr>) of
        Inl msg \<Rightarrow> Inl msg
      | Inr v1 \<Rightarrow> (case locate_block v1 block of
          None \<Rightarrow> Inr (False, v1)
        | Some (read_sector, xfer_size) \<Rightarrow> (case disk_read_sectors int13 v1 read_sector (ucast xfer_size) of
            Inl msg \<Rightarrow> Inl msg
          | Inr None \<Rightarrow> Inr (False, v1)
          | Inr (Some bytes) \<Rightarrow>
              Inr (True, v1\<lparr>cache := map_option (\<lambda>c. bytes @ drop (length bytes) c) (cache v1),
                            cache_ready := True, cached_block := block\<rparr>))))"

text \<open>The loop of \<open>volume_read\<close>: the bytes from \<open>progress\<close> on. A block size of zero, the product having wrapped, is a division by zero.\<close>

function read_loop :: "bios_disk \<Rightarrow> u64 \<Rightarrow> u64 \<Rightarrow> u64 \<Rightarrow> u64 \<Rightarrow> 'a volume_scheme \<Rightarrow> string + u8 list option \<times> 'a volume_scheme" where
  "read_loop int13 block_size loc cnt progress v =
     (if \<not> progress < cnt then Inr (Some [], v)
      else if block_size = 0 then Inl ''Division by zero''
      else case cache_block int13 ((loc + progress) div block_size) v of
        Inl msg \<Rightarrow> Inl msg
      | Inr (False, v1) \<Rightarrow> Inr (None, v1)
      | Inr (True, v1) \<Rightarrow>
          (let offset = (loc + progress) mod block_size;
               chunk = (if cnt - progress > block_size - offset then block_size - offset else cnt - progress)
           in case read_loop int13 block_size loc cnt (progress + chunk) v1 of
                Inl msg \<Rightarrow> Inl msg
              | Inr (None, v2) \<Rightarrow> Inr (None, v2)
              | Inr (Some later, v2) \<Rightarrow> Inr (Some (take (unat chunk) (drop (unat offset) (the (cache v1))) @ later), v2)))"
  by pat_completeness auto
termination
proof (relation "measure (\<lambda>(int13, block_size, loc, cnt, progress, v). unat cnt - unat progress)", simp)
  fix int13 :: bios_disk and block_size loc cnt progress offset chunk :: u64 and v v1 :: "'a volume_scheme"
  assume lt: "\<not> \<not> progress < cnt" and bs: "block_size \<noteq> 0" and offset: "offset = (loc + progress) mod block_size"
    and chunk: "chunk = (if cnt - progress > block_size - offset then block_size - offset else cnt - progress)"
  have "offset < block_size" unfolding offset using bs by (rule word_mod_less_divisor [OF word_neq_0_conv [THEN iffD1]])
  then have "unat chunk > 0" "unat chunk \<le> unat (cnt - progress)"
    using lt unfolding chunk by (auto simp: word_less_nat_alt word_le_nat_alt unat_sub_if')
  then show "((int13, block_size, loc, cnt, progress + chunk, v1), (int13, block_size, loc, cnt, progress, v)) \<in>
      measure (\<lambda>(int13, block_size, loc, cnt, progress, v). unat cnt - unat progress)"
    using lt unat_lt2p [of cnt] by (simp add: word_less_nat_alt unat_sub_if' unat_word_ariths)
qed

declare read_loop.simps [simp del]

definition volume_read :: "bios_disk \<Rightarrow> u64 \<Rightarrow> u64 \<Rightarrow> 'a volume_scheme \<Rightarrow> string + u8 list option \<times> 'a volume_scheme" where
  "volume_read int13 loc cnt v =
     (if pxe v then Inl ''Attempted volume_read() on pxe''
      else if fastest_xfer_size v = 0 \<or> sector_size v < 512 \<or> sector_size v mod 512 \<noteq> 0 then Inr (None, v)
      else if sect_count v \<noteq> - 1 \<and>
          (case CHECKED_MUL (sect_count v) 512 of None \<Rightarrow> True | Some part_size \<Rightarrow> loc \<ge> part_size \<or> cnt > part_size - loc)
        then Inr (None, v)
      else read_loop int13 (ucast (fastest_xfer_size v * of_int (sector_size v))) loc cnt 0 v)"

section \<open>What a volume holds\<close>

definition sector_bytes :: "'a volume_scheme \<Rightarrow> nat" where
  "sector_bytes v = nat (sector_size v)"

definition block_bytes :: "'a volume_scheme \<Rightarrow> nat" where
  "block_bytes v = unat (fastest_xfer_size v) * sector_bytes v"

definition units :: "'a volume_scheme \<Rightarrow> nat" where
  "units v = sector_bytes v div 512"

text \<open>A volume whose blocks fit into the transfer buffer and which starts at a sector of its disk.\<close>

definition geometry_ok :: "'a volume_scheme \<Rightarrow> bool" where
  "geometry_ok v \<longleftrightarrow> \<not> pxe v \<and> fastest_xfer_size v \<noteq> 0 \<and> 512 \<le> sector_size v \<and> sector_size v mod 512 = 0 \<and> block_bytes v \<le> 32768 \<and>
     unat (first_sect v) mod units v = 0 \<and> (sect_count v = - 1 \<or> unat (first_sect v) + unat (sect_count v) < 2 ^ 64)"

text \<open>The bytes of the sectors the volume has a part in; without a known size there is no limit.\<close>

definition within :: "'a volume_scheme \<Rightarrow> nat \<Rightarrow> bool" where
  "within v p \<longleftrightarrow> sect_count v = - 1 \<or> p < (unat (sect_count v) + units v - 1) div units v * sector_bytes v"

text \<open>The BIOS gives the bytes of the disk \<open>D\<close>.\<close>

definition disk_has :: "bios_disk \<Rightarrow> 'a volume_scheme \<Rightarrow> (nat \<Rightarrow> u8) \<Rightarrow> bool" where
  "disk_has int13 v D \<longleftrightarrow> (\<forall>lba n b. int13 (drive v) lba n = Some b \<longrightarrow>
     b = map (\<lambda>i. D (unat lba * sector_bytes v + i)) [0..<n * sector_bytes v])"

definition volume_byte :: "(nat \<Rightarrow> u8) \<Rightarrow> 'a volume_scheme \<Rightarrow> nat \<Rightarrow> u8" where
  "volume_byte D v p = D (unat (first_sect v) * 512 + p)"

definition cache_ok :: "(nat \<Rightarrow> u8) \<Rightarrow> 'a volume_scheme \<Rightarrow> bool" where
  "cache_ok D v \<longleftrightarrow> (\<forall>c. cache v = Some c \<longrightarrow> length c = block_bytes v) \<and>
     (cache_ready v \<longrightarrow> (\<exists>c. cache v = Some c \<and> (\<forall>i < block_bytes v.
        within v (unat (cached_block v) * block_bytes v + i) \<longrightarrow> c ! i = volume_byte D v (unat (cached_block v) * block_bytes v + i))))"

text \<open>Nothing but the cache differs.\<close>

definition same_volume :: "'a volume_scheme \<Rightarrow> 'a volume_scheme \<Rightarrow> bool" where
  "same_volume v v' \<longleftrightarrow> v' = v\<lparr>cache := cache v', cache_ready := cache_ready v', cached_block := cached_block v'\<rparr>"

lemma same_volume_refl: "same_volume v v"
  by (simp add: same_volume_def)

lemma same_volume_trans: "same_volume a b \<Longrightarrow> same_volume b c \<Longrightarrow> same_volume a c"
  unfolding same_volume_def by (metis (no_types, lifting) volume.surjective volume.update_convs(10-12))

lemma same_volume_fields:
  assumes "same_volume v v'"
  shows "geometry_ok v' = geometry_ok v" "within v' = within v" "disk_has int13 v' D = disk_has int13 v D"
    "volume_byte D v' = volume_byte D v" "block_bytes v' = block_bytes v" "sector_bytes v' = sector_bytes v"
    "sect_count v' = sect_count v" "first_sect v' = first_sect v"
proof -
  obtain a b c where v': "v' = v\<lparr>cache := a, cache_ready := b, cached_block := c\<rparr>" using assms by (auto simp: same_volume_def)
  show "geometry_ok v' = geometry_ok v" "within v' = within v" "disk_has int13 v' D = disk_has int13 v D"
    "volume_byte D v' = volume_byte D v" "block_bytes v' = block_bytes v" "sector_bytes v' = sector_bytes v"
    "sect_count v' = sect_count v" "first_sect v' = first_sect v"
    by (simp_all add: v' geometry_ok_def within_def disk_has_def volume_byte_def block_bytes_def sector_bytes_def units_def fun_eq_iff)
qed


lemma same_volume_disk:
  assumes "same_volume v v'"
  shows "locate_block v' = locate_block v" "drive v' = drive v" "fastest_xfer_size v' = fastest_xfer_size v"
proof -
  obtain a b c where v': "v' = v\<lparr>cache := a, cache_ready := b, cached_block := c\<rparr>" using assms by (auto simp: same_volume_def)
  show "drive v' = drive v" "fastest_xfer_size v' = fastest_xfer_size v" by (simp_all add: v')
  have "clamp_xfer v' = clamp_xfer v" by (intro ext) (simp add: v' clamp_xfer_def sector_units_def cong del: if_weak_cong)
  moreover have "first_sect v' = first_sect v" "sector_units v' = sector_units v" "fastest_xfer_size v' = fastest_xfer_size v"
    by (simp_all add: v' sector_units_def)
  ultimately show "locate_block v' = locate_block v" unfolding locate_block_def by (simp only:)
qed

lemma disk_hasD: "disk_has int13 v D \<Longrightarrow> int13 (drive v) lba n = Some b \<Longrightarrow>
    b = map (\<lambda>i. D (unat lba * sector_bytes v + i)) [0..<n * sector_bytes v]"
  unfolding disk_has_def by blast

lemma geometry_facts:
  assumes "geometry_ok v"
  shows "sector_bytes v = 512 * units v" "1 \<le> units v" "units v \<le> 64" "1 \<le> unat (fastest_xfer_size v)" "unat (fastest_xfer_size v) \<le> 64"
    "unat (sector_units v) = units v" "0 < block_bytes v" "unat (of_int (sector_size v) :: u32) = sector_bytes v"
    "unat (of_int (sector_size v) :: u64) = sector_bytes v"
proof -
  have g: "512 \<le> sector_size v" "sector_size v mod 512 = 0" "block_bytes v \<le> 32768" "fastest_xfer_size v \<noteq> 0"
    using assms by (simp_all add: geometry_ok_def)
  obtain k where k: "sector_size v = 512 * k" using g(2) by (auto simp: dvd_def dest: mod_0_imp_dvd)
  then have k1: "1 \<le> k" using g(1) by simp
  have x: "1 \<le> unat (fastest_xfer_size v)" using g(4) by (simp add: Suc_le_eq unat_gt_0)
  have sb: "sector_bytes v = 512 * nat k" using k k1 by (simp add: sector_bytes_def nat_mult_distrib)
  then have u: "units v = nat k" by (simp add: units_def)
  have b: "unat (fastest_xfer_size v) * (512 * nat k) \<le> 32768" using g(3) sb by (simp add: block_bytes_def)
  have "1 * (512 * nat k) \<le> unat (fastest_xfer_size v) * (512 * nat k)" using x by (rule mult_le_mono1)
  then have "nat k \<le> 64" using b by linarith
  then show "units v \<le> 64" using u by simp
  have "unat (fastest_xfer_size v) * (512 * 1) \<le> unat (fastest_xfer_size v) * (512 * nat k)" using k1 by (intro mult_le_mono2) simp
  then show "unat (fastest_xfer_size v) \<le> 64" using b by linarith
  show "sector_bytes v = 512 * units v" "1 \<le> units v" "1 \<le> unat (fastest_xfer_size v)" using sb u k1 x by simp_all
  then show "0 < block_bytes v" by (simp add: block_bytes_def)
  have k64: "k \<le> 64" using \<open>nat k \<le> 64\<close> by simp
  show "unat (sector_units v) = units v"
    using k k1 k64 u by (simp add: sector_units_def unat_eq_nat_uint uint_word_of_int_eq take_bit_int_eq_self)
  show "unat (of_int (sector_size v) :: u32) = sector_bytes v" "unat (of_int (sector_size v) :: u64) = sector_bytes v"
    unfolding k sb using k1 k64 by (simp_all only: unat_eq_nat_uint uint_word_of_int_eq, simp_all add: take_bit_int_eq_self nat_mult_distrib)
qed

lemma checked_Some:
  "CHECKED_ADD a b = Some c \<longleftrightarrow> unat a + unat b < 2 ^ 64 \<and> c = a + b" "CHECKED_MUL a b = Some c \<longleftrightarrow> unat a * unat b < 2 ^ 64 \<and> c = a * b"
  by (auto simp: CHECKED_ADD_def CHECKED_MUL_def)

lemma unat_no_carry: "unat a + unat b < 2 ^ 64 \<Longrightarrow> unat (a + b :: u64) = unat a + unat b"
  "unat a * unat b < 2 ^ 64 \<Longrightarrow> unat (a * b :: u64) = unat a * unat b"
  by (simp_all add: unat_word_ariths)

lemma unat_xfer64: "unat (ucast (x :: u32) :: u64) = unat x"
  using unat_lt2p [of x] by (simp add: unsigned_ucast_eq take_bit_nat_eq_self)

lemma volume_sectors:
  assumes "geometry_ok v" "DIV_ROUNDUP (sect_count v) (sector_units v) = Some n"
  shows "unat n = (unat (sect_count v) + units v - 1) div units v"
proof -
  note g = geometry_facts [OF assms(1)]
  have "unat (sector_units v - 1) = units v - 1" using g(2,6) by (simp add: unat_sub word_le_nat_alt)
  then show ?thesis using assms(2) g(2,6) by (auto simp: DIV_ROUNDUP_def checked_Some unat_div unat_no_carry)
qed

lemma div_roundup_le: "1 \<le> u \<Longrightarrow> (n + u - 1) div u \<le> (n :: nat)"
proof (cases n)
  case (Suc m)
  assume "1 \<le> u"
  then obtain w where "u = Suc w" by (cases u) auto
  then have "n + u - 1 \<le> n * u" using Suc by simp
  then have "(n + u - 1) div u \<le> n * u div u" by (rule div_le_mono)
  then show ?thesis using \<open>1 \<le> u\<close> by simp
qed simp

lemma clamp_covers:
  assumes "geometry_ok v" "clamp_xfer v first rs = Some xs" "unat first = unat (first_sect v) div units v" "unat first \<le> unat rs"
  shows "unat xs \<le> unat (fastest_xfer_size v)"
    "\<lbrakk>i < block_bytes v; within v ((unat rs - unat first) * sector_bytes v + i)\<rbrakk> \<Longrightarrow> i < unat xs * sector_bytes v"
proof -
  note g = geometry_facts [OF assms(1)]
  let ?X = "unat (fastest_xfer_size v)" and ?ss = "sector_bytes v"
  have "unat xs \<le> ?X \<and> (i < block_bytes v \<longrightarrow> within v ((unat rs - unat first) * ?ss + i) \<longrightarrow> i < unat xs * ?ss)"
  proof (cases "sect_count v = - 1")
    case True
    then show ?thesis using assms(2) by (auto simp: clamp_xfer_def Let_def unat_xfer64 block_bytes_def)
  next
    case False
    then obtain n where n: "DIV_ROUNDUP (sect_count v) (sector_units v) = Some n"
      using assms(2) by (auto simp: clamp_xfer_def Let_def split: option.splits)
    note vs = volume_sectors [OF assms(1) n]
    have "unat (first_sect v) + unat (sect_count v) < 2 ^ 64" using assms(1) False by (simp add: geometry_ok_def)
    moreover have "unat first \<le> unat (first_sect v)" using assms(3) by simp
    moreover have "unat n \<le> unat (sect_count v)" unfolding vs by (rule div_roundup_le [OF g(2)])
    ultimately have nc: "unat first + unat n < 2 ^ 64" by linarith
    define e where "e = first + n"
    have e: "unat e = unat first + unat n" unfolding e_def by (rule unat_no_carry(1) [OF nc])
    have c: "CHECKED_ADD first n = Some e" using nc by (simp add: checked_Some e_def)
    have xs: "\<not> rs \<ge> e" "xs = (if ucast (fastest_xfer_size v) > e - rs then e - rs else ucast (fastest_xfer_size v))"
      using assms(2) False n c by (auto simp: clamp_xfer_def Let_def split: if_splits)
    have er: "unat (e - rs) = unat e - unat rs" using xs(1) by (simp add: unat_sub word_le_nat_alt)
    have ux: "unat xs = min ?X (unat e - unat rs)" unfolding xs(2) by (auto simp: word_less_nat_alt er unat_xfer64 min_def)
    have "i < unat xs * ?ss" if i: "i < block_bytes v" and w: "within v ((unat rs - unat first) * ?ss + i)"
    proof -
      have "(unat rs - unat first) * ?ss + i < unat n * ?ss" using w False by (simp add: within_def vs)
      then have "i < (unat n - (unat rs - unat first)) * ?ss" by (simp add: diff_mult_distrib) 
      moreover have "unat n - (unat rs - unat first) = unat e - unat rs" using e assms(4) by simp
      ultimately show ?thesis using i unfolding ux block_bytes_def by (simp add: min_def)
    qed
    then show ?thesis using ux by simp
  qed
  then show "unat xs \<le> ?X" "\<lbrakk>i < block_bytes v; within v ((unat rs - unat first) * ?ss + i)\<rbrakk> \<Longrightarrow> i < unat xs * ?ss" by blast+
qed

lemma locate_block_covers:
  assumes "geometry_ok v" "locate_block v b = Some (rs, xs)"
  shows "unat rs * sector_bytes v = unat (first_sect v) * 512 + unat b * block_bytes v" "unat xs \<le> unat (fastest_xfer_size v)"
    "\<lbrakk>i < block_bytes v; within v (unat b * block_bytes v + i)\<rbrakk> \<Longrightarrow> i < unat xs * sector_bytes v"
proof -
  note g = geometry_facts [OF assms(1)]
  define first where "first = first_sect v div sector_units v"
  have f: "unat first = unat (first_sect v) div units v" by (simp add: first_def unat_div g(6))
  have mul: "unat b * unat (fastest_xfer_size v) < 2 ^ 64" "unat first + unat b * unat (fastest_xfer_size v) < 2 ^ 64"
      "rs = first + b * ucast (fastest_xfer_size v)" "clamp_xfer v first rs = Some xs"
    using assms(2) by (auto simp: locate_block_def Let_def first_def checked_Some unat_xfer64 unat_no_carry split: if_splits option.splits)
  have rs: "unat rs = unat first + unat b * unat (fastest_xfer_size v)"
    unfolding mul(3) using mul(1,2) by (simp add: unat_no_carry unat_xfer64)
  have "unat (first_sect v) mod units v = 0" using assms(1) by (simp add: geometry_ok_def)
  then have "unat first * units v = unat (first_sect v)" unfolding f by (simp add: mod_eq_0_iff_dvd)
  then have fs: "unat first * sector_bytes v = unat (first_sect v) * 512" unfolding g(1) by (metis mult.assoc mult.commute)
  have off: "(unat rs - unat first) * sector_bytes v = unat b * block_bytes v" by (simp add: rs block_bytes_def)
  show "unat rs * sector_bytes v = unat (first_sect v) * 512 + unat b * block_bytes v"
    unfolding rs fs [symmetric] by (simp add: block_bytes_def algebra_simps)
  show "unat xs \<le> unat (fastest_xfer_size v)"
    "\<lbrakk>i < block_bytes v; within v (unat b * block_bytes v + i)\<rbrakk> \<Longrightarrow> i < unat xs * sector_bytes v"
    using clamp_covers [OF assms(1) mul(4) f] rs unfolding off by simp_all
qed


lemma disk_read_ok:
  assumes "geometry_ok v" "disk_has int13 v D" "unat xs \<le> unat (fastest_xfer_size v)"
  shows "disk_read_sectors int13 v rs (ucast xs) = Inr (int13 (drive v) rs (unat xs))"
proof -
  note g = geometry_facts [OF assms(1)]
  have x: "unat (ucast xs :: u32) = unat xs" using assms(3) g(5) by (simp add: unsigned_ucast_eq unsigned_take_bit_eq take_bit_nat_eq_self)
  have "unat xs * sector_bytes v \<le> block_bytes v" using assms(3) by (simp add: block_bytes_def)
  then have b: "unat xs * sector_bytes v \<le> 32768" using assms(1) by (simp add: geometry_ok_def)
  have p: "unat ((ucast xs :: u32) * of_int (sector_size v)) = unat xs * sector_bytes v"
    using b by (simp add: unat_word_ariths x g(8))
  have "unat (ucast (ucast xs :: u32) :: u16) = unat xs" using x assms(3) g(5) by (simp add: unsigned_ucast_eq unsigned_take_bit_eq take_bit_nat_eq_self)
  moreover have "length bytes = unat xs * sector_bytes v" if "int13 (drive v) rs (unat xs) = Some bytes" for bytes
    using disk_hasD [OF assms(2) that] by simp
  ultimately show ?thesis using b p
    by (cases "int13 (drive v) rs (unat xs)") (simp_all add: disk_read_sectors_def word_less_nat_alt XFER_BUF_SIZE_def)
qed

lemma alloc_cache_ok:
  assumes "geometry_ok v" "cache_ok D v"
  shows "\<exists>v1 c. alloc_cache (v\<lparr>cache_ready := False\<rparr>) = Inr v1 \<and> same_volume v v1 \<and> cache v1 = Some c \<and> length c = block_bytes v \<and> \<not> cache_ready v1"
proof (cases "cache v")
  case (Some c)
  then show ?thesis using assms(2) by (auto simp: alloc_cache_def same_volume_def cache_ok_def)
next
  case None
  note g = geometry_facts [OF assms(1)]
  have "block_bytes v < 2 ^ 64" using assms(1) by (simp add: geometry_ok_def)
  then have "CHECKED_MUL (ucast (fastest_xfer_size v)) (of_int (sector_size v)) = Some (ucast (fastest_xfer_size v) * of_int (sector_size v))"
    "unat (ucast (fastest_xfer_size v) * of_int (sector_size v) :: u64) = block_bytes v"
    by (simp_all add: checked_Some unat_xfer64 g(9) unat_no_carry block_bytes_def)
  then show ?thesis using None by (auto simp: alloc_cache_def same_volume_def)
qed

lemma cache_block_ok:
  assumes "geometry_ok v" "cache_ok D v" "disk_has int13 v D"
  shows "\<exists>r v'. cache_block int13 b v = Inr (r, v') \<and> same_volume v v' \<and> cache_ok D v' \<and> (r \<longrightarrow> cache_ready v' \<and> cached_block v' = b) \<and>
     (\<not> r \<longrightarrow> locate_block v b = None \<or> (\<exists>rs n. int13 (drive v) rs n = None))"
proof (cases "cache_ready v \<and> b = cached_block v")
  case True
  then show ?thesis using assms(2) by (auto simp: cache_block_def same_volume_refl)
next
  case False
  obtain v1 c where v1: "alloc_cache (v\<lparr>cache_ready := False\<rparr>) = Inr v1" "same_volume v v1" "cache v1 = Some c" "length c = block_bytes v" "\<not> cache_ready v1"
    using alloc_cache_ok [OF assms(1,2)] by blast
  note sv = same_volume_fields [OF v1(2)]
  note lb = same_volume_disk [OF v1(2)]
  have c1: "cache_ok D v1" using v1 sv by (simp add: cache_ok_def)
  show ?thesis
  proof (cases "locate_block v b")
    case None
    then show ?thesis using False v1 lb c1 by (auto simp: cache_block_def)
  next
    case (Some p)
    obtain rs xs where p: "p = (rs, xs)" by (cases p)
    note l = locate_block_covers [OF assms(1) Some [unfolded p]]
    have x1: "unat xs \<le> unat (fastest_xfer_size v1)" using l(2) lb by simp
    have "geometry_ok v1" "disk_has int13 v1 D" using assms(1,3) by (simp_all only: sv)
    note rd = disk_read_ok [OF this x1, of rs, unfolded lb]
    show ?thesis
    proof (cases "int13 (drive v) rs (unat xs)")
      case None
      then show ?thesis using False v1 lb c1 Some p rd by (auto simp: cache_block_def)
    next
      case bytes: (Some bytes)
      let ?c = "bytes @ drop (length bytes) c"
      let ?v = "v1\<lparr>cache := Some ?c, cache_ready := True, cached_block := b\<rparr>"
      have bs: "bytes = map (\<lambda>i. D (unat rs * sector_bytes v + i)) [0..<unat xs * sector_bytes v]"
        by (rule disk_hasD [OF assms(3) bytes])
      have le: "length bytes \<le> block_bytes v" using l(2) by (simp add: bs block_bytes_def)
      have run: "cache_block int13 b v = Inr (True, ?v)" using v1 lb Some p rd bytes unfolding cache_block_def if_not_P [OF False] by simp
      have sv': "same_volume v ?v" by (rule same_volume_trans [OF v1(2)]) (simp add: same_volume_def)
      have "?c ! i = volume_byte D v (unat b * block_bytes v + i)"
        if "i < block_bytes v" "within v (unat b * block_bytes v + i)" for i
      proof -
        have "i < unat xs * sector_bytes v" using l(3) that by blast
        then have "?c ! i = D (unat rs * sector_bytes v + i)" by (simp add: bs nth_append)
        then show ?thesis by (simp add: volume_byte_def l(1) add.assoc)
      qed
      then have "cache_ok D ?v" using le v1(4) same_volume_fields [OF sv'] by (simp add: cache_ok_def)
      then show ?thesis using run sv' by auto
    qed
  qed
qed


lemma block_size_word: "geometry_ok v \<Longrightarrow> unat (ucast (fastest_xfer_size v * of_int (sector_size v)) :: u64) = block_bytes v"
  using geometry_facts(8) [of v] by (simp add: unat_xfer64 unat_word_ariths block_bytes_def geometry_ok_def)

text \<open>The piece that is copied out of the cache.\<close>

lemma cached_piece:
  assumes "cache_ok D v" "cache_ready v" "unat (cached_block v) = p div block_bytes v" "0 < block_bytes v"
    "n \<le> block_bytes v - p mod block_bytes v" "\<And>i. i < n \<Longrightarrow> within v (p + i)"
  shows "take n (drop (p mod block_bytes v) (the (cache v))) = map (\<lambda>i. volume_byte D v (p + i)) [0..<n]"
proof -
  let ?B = "block_bytes v" and ?o = "p mod block_bytes v"
  obtain c where c: "cache v = Some c" "length c = ?B"
      "\<And>i. i < ?B \<Longrightarrow> within v (p div ?B * ?B + i) \<Longrightarrow> c ! i = volume_byte D v (p div ?B * ?B + i)"
    using assms(1-3) by (auto simp: cache_ok_def)
  have o: "?o < ?B" using assms(4) by simp
  have "c ! (?o + i) = volume_byte D v (p + i)" if "i < n" for i
    using c(3) [of "?o + i"] assms(5,6) that o by (simp add: add.assoc [symmetric])
  moreover have "length (take n (drop ?o c)) = n" using c(2) assms(5) by simp
  ultimately show ?thesis using c(1,2) by (intro nth_equalityI) simp_all
qed

text \<open>Why a read can fail: a block that cannot be located, or the disk.\<close>

definition read_fault :: "bios_disk \<Rightarrow> 'a volume_scheme \<Rightarrow> u64 \<Rightarrow> u64 \<Rightarrow> bool" where
  "read_fault int13 v loc cnt \<longleftrightarrow> (\<exists>rs n. int13 (drive v) rs n = None) \<or>
     (\<exists>b i. locate_block v b = None \<and> i < unat cnt \<and> unat b = (unat loc + i) div block_bytes v)"

lemma read_fault_same: "same_volume v v' \<Longrightarrow> read_fault int13 v' loc cnt = read_fault int13 v loc cnt"
  by (simp only: read_fault_def same_volume_disk same_volume_fields)

lemma upt_split: "k \<le> n \<Longrightarrow> [0..<n] = [0..<k] @ map (\<lambda>i. k + i) [0..<n - k]"
  by (rule nth_equalityI) (auto simp: nth_append)

lemma read_loop_ok:
  assumes "geometry_ok v" "cache_ok D v" "disk_has int13 v D" "unat bs = block_bytes v" "unat loc + unat cnt < 2 ^ 64"
    "\<And>i. i < unat cnt \<Longrightarrow> within v (unat loc + i)" "unat pr \<le> unat cnt"
  shows "\<exists>r v'. read_loop int13 bs loc cnt pr v = Inr (r, v') \<and> same_volume v v' \<and> cache_ok D v' \<and>
     (r = None \<or> r = Some (map (\<lambda>i. volume_byte D v (unat loc + unat pr + i)) [0..<unat cnt - unat pr])) \<and>
     (r = None \<longrightarrow> read_fault int13 v loc cnt)"
  using assms
proof (induction int13 bs loc cnt pr v rule: read_loop.induct)
  case (1 int13 bs loc cnt pr v)
  note g = "1.prems"
  let ?B = "block_bytes v"
  have B: "0 < ?B" using geometry_facts(7) [OF g(1)] .
  show ?case
  proof (cases "pr < cnt")
    case False
    then have "unat cnt - unat pr = 0" by (simp add: word_less_nat_alt)
    then show ?thesis using False g(2) same_volume_refl by (subst read_loop.simps) auto
  next
    case True
    have bs: "bs \<noteq> 0" using B g(4) by (metis unat_0 less_irrefl)
    have lp: "unat (loc + pr) = unat loc + unat pr" using True g(5) by (intro unat_no_carry) (simp add: word_less_nat_alt)
    let ?b = "(loc + pr) div bs" and ?o = "(loc + pr) mod bs"
    let ?p = "unat loc + unat pr"
    have b: "unat ?b = ?p div ?B" "unat ?o = ?p mod ?B" by (simp_all add: unat_div unat_mod lp g(4))
    define chunk where "chunk = (if cnt - pr > bs - ?o then bs - ?o else cnt - pr)"
    have un: "unat (cnt - pr) = unat cnt - unat pr" "unat (bs - ?o) = ?B - ?p mod ?B"
      using True B b(2) g(4) by (simp_all add: unat_sub word_le_nat_alt word_less_nat_alt less_imp_le)
    have ch: "unat chunk = min (?B - ?p mod ?B) (unat cnt - unat pr)" unfolding chunk_def by (auto simp: word_less_nat_alt un min_def)
    obtain r1 v1 where r1: "cache_block int13 ?b v = Inr (r1, v1)" "same_volume v v1" "cache_ok D v1" "r1 \<longrightarrow> cache_ready v1 \<and> cached_block v1 = ?b"
        "\<not> r1 \<longrightarrow> locate_block v ?b = None \<or> (\<exists>rs n. int13 (drive v) rs n = None)"
      using cache_block_ok [OF g(1,2,3)] by blast
    note sv = same_volume_fields [OF r1(2)] same_volume_disk [OF r1(2)]
    show ?thesis
    proof (cases r1)
      case False
      then have "read_loop int13 bs loc cnt pr v = Inr (None, v1)" using True bs r1(1) by (subst read_loop.simps) simp
      moreover have "unat pr < unat cnt" using True by (simp add: word_less_nat_alt)
      ultimately have "read_fault int13 v loc cnt" using r1(5) False b(1) unfolding read_fault_def by blast
      then show ?thesis using r1(2,3) \<open>read_loop int13 bs loc cnt pr v = Inr (None, v1)\<close> by auto
    next
      case rt: True
      have pc: "unat (pr + chunk) = unat pr + unat chunk" using ch g(5) True by (intro unat_no_carry) (simp add: word_less_nat_alt)
      have le: "unat (pr + chunk) \<le> unat cnt" unfolding pc ch using True by (simp add: word_less_nat_alt)
      have ih: "\<exists>r v'. read_loop int13 bs loc cnt (pr + chunk) v1 = Inr (r, v') \<and> same_volume v1 v' \<and> cache_ok D v' \<and>
          (r = None \<or> r = Some (map (\<lambda>i. volume_byte D v (unat loc + unat (pr + chunk) + i)) [0..<unat cnt - unat (pr + chunk)])) \<and>
          (r = None \<longrightarrow> read_fault int13 v loc cnt)"
        using "1.IH" [of "(True, v1)" True v1 ?o chunk] True bs r1 rt g sv le read_fault_same [OF r1(2)] unfolding chunk_def by simp
      then obtain r v' where r: "read_loop int13 bs loc cnt (pr + chunk) v1 = Inr (r, v')" "same_volume v1 v'" "cache_ok D v'"
          "r = None \<or> r = Some (map (\<lambda>i. volume_byte D v (?p + unat chunk + i)) [0..<unat cnt - unat pr - unat chunk])"
          "r = None \<longrightarrow> read_fault int13 v loc cnt"
        unfolding pc add.assoc diff_diff_left by blast
      have piece: "take (unat chunk) (drop (unat ?o) (the (cache v1))) = map (\<lambda>i. volume_byte D v (?p + i)) [0..<unat chunk]"
      proof -
        have w: "within v1 (?p + i)" if "i < unat chunk" for i
          unfolding sv(2) add.assoc by (rule g(6)) (use that ch in linarith)
        have "unat (cached_block v1) = ?p div block_bytes v1" "0 < block_bytes v1" "unat chunk \<le> block_bytes v1 - ?p mod block_bytes v1" "cache_ready v1"
          using r1(4) rt b(1) B ch sv(5) by simp_all
        from cached_piece [OF r1(3) this(4,1,2,3) w] show ?thesis by (simp only: sv(4,5) b(2))
      qed
      have split: "[0..<unat cnt - unat pr] = [0..<unat chunk] @ map (\<lambda>i. unat chunk + i) [0..<unat cnt - unat pr - unat chunk]"
        using ch by (intro upt_split) linarith
      have "read_loop int13 bs loc cnt pr v = (case r of None \<Rightarrow> Inr (None, v') | Some later \<Rightarrow>
          Inr (Some (take (unat chunk) (drop (unat ?o) (the (cache v1))) @ later), v'))"
        using True bs r1(1) rt r(1) by (subst read_loop.simps) (simp add: Let_def chunk_def split: option.splits)
      then show ?thesis using r same_volume_trans [OF r1(2) r(2)] unfolding piece split by (auto simp: add.assoc)
    qed
  qed
qed


text \<open>A range of bytes that the volume has, for volumes of known size.\<close>

definition range_ok :: "'a volume_scheme \<Rightarrow> u64 \<Rightarrow> u64 \<Rightarrow> bool" where
  "range_ok v loc cnt \<longleftrightarrow> unat (sect_count v) * 512 < 2 ^ 64 \<and> unat loc < unat (sect_count v) * 512 \<and>
     unat loc + unat cnt \<le> unat (sect_count v) * 512"

lemma range_within:
  assumes "geometry_ok v" "range_ok v loc cnt" "i < unat cnt"
  shows "within v (unat loc + i)"
proof -
  note g = geometry_facts [OF assms(1)]
  let ?n = "unat (sect_count v)" and ?u = "units v"
  have "?n + ?u - 1 = ?u * ((?n + ?u - 1) div ?u) + (?n + ?u - 1) mod ?u" by simp
  moreover have "(?n + ?u - 1) mod ?u \<le> ?u - 1" using g(2) by (metis Suc_pred' le_simps(2) mod_less_divisor less_le_trans zero_less_one)
  ultimately have "?n \<le> ?u * ((?n + ?u - 1) div ?u)" using g(2) by linarith
  then have "?n * 512 \<le> (?n + ?u - 1) div ?u * sector_bytes v" unfolding g(1) by (simp add: algebra_simps)
  then show ?thesis using assms(2,3) unfolding within_def range_ok_def by linarith
qed

lemma volume_read_checks:
  assumes "geometry_ok v" "sect_count v \<noteq> - 1"
  shows "volume_read int13 loc cnt v =
     (if range_ok v loc cnt then read_loop int13 (ucast (fastest_xfer_size v * of_int (sector_size v))) loc cnt 0 v else Inr (None, v))"
proof -
  have m: "unat (sect_count v * 512) = unat (sect_count v) * 512" if "unat (sect_count v) * 512 < 2 ^ 64" using that unat_no_carry(2) [of "sect_count v" 512] by simp
  have "(case CHECKED_MUL (sect_count v) 512 of None \<Rightarrow> True | Some part_size \<Rightarrow> loc \<ge> part_size \<or> cnt > part_size - loc) \<longleftrightarrow> \<not> range_ok v loc cnt"
  proof (cases "unat (sect_count v) * 512 < 2 ^ 64")
    case True
    show ?thesis
    proof (cases "loc \<ge> sect_count v * 512")
      case le: True
      then show ?thesis using True m [OF True] by (auto simp: CHECKED_MUL_def range_ok_def word_le_nat_alt)
    next
      case False
      then have "unat (sect_count v * 512 - loc) = unat (sect_count v) * 512 - unat loc" using m [OF True] by (simp add: unat_sub word_le_nat_alt)
      then show ?thesis using True False m [OF True] by (auto simp: CHECKED_MUL_def range_ok_def word_le_nat_alt word_less_nat_alt)
    qed
  next
    case False
    then show ?thesis by (simp add: CHECKED_MUL_def range_ok_def)
  qed
  then show ?thesis using assms by (auto simp: volume_read_def geometry_ok_def)
qed

lemma volume_read_core:
  assumes "geometry_ok v" "cache_ok D v" "disk_has int13 v D" "sect_count v \<noteq> - 1"
  shows "\<exists>r v'. volume_read int13 loc cnt v = Inr (r, v') \<and> same_volume v v' \<and> cache_ok D v' \<and>
     (r = None \<or> range_ok v loc cnt \<and> r = Some (map (\<lambda>i. volume_byte D v (unat loc + i)) [0..<unat cnt])) \<and>
     (r = None \<longrightarrow> \<not> range_ok v loc cnt \<or> read_fault int13 v loc cnt)"
proof (cases "range_ok v loc cnt")
  case False
  then show ?thesis using volume_read_checks [OF assms(1,4)] assms(2) same_volume_refl by auto
next
  case True
  then have "unat loc + unat cnt < 2 ^ 64" unfolding range_ok_def by linarith
  from read_loop_ok [OF assms(1,2,3) block_size_word [OF assms(1)] this, of 0] range_within [OF assms(1) True] True
  show ?thesis unfolding volume_read_checks [OF assms(1,4)] by simp
qed

text \<open>A block that holds a byte of the volume can be located.\<close>

lemma locate_block_Some:
  assumes "geometry_ok v" "sect_count v \<noteq> - 1" "within v (unat b * block_bytes v)" "unat (sect_count v) * 512 < 2 ^ 64"
  shows "locate_block v b \<noteq> None"
proof -
  note g = geometry_facts [OF assms(1)]
  let ?X = "unat (fastest_xfer_size v)" and ?n = "unat (sect_count v)"
  let ?vs = "(?n + units v - 1) div units v"
  have fs: "unat (first_sect v) + ?n < 2 ^ 64" "unat (first_sect v) mod units v = 0" using assms(1,2) by (simp_all add: geometry_ok_def)
  have "unat b * ?X * sector_bytes v < ?vs * sector_bytes v" using assms(2,3) by (simp add: within_def block_bytes_def mult.assoc)
  then have bx: "unat b * ?X < ?vs" by simp
  have vs: "?vs \<le> ?n" by (rule div_roundup_le [OF g(2)])
  define first where "first = first_sect v div sector_units v"
  have f: "unat first \<le> unat (first_sect v)" by (simp add: first_def unat_div)
  have m: "CHECKED_MUL b (ucast (fastest_xfer_size v)) = Some (b * ucast (fastest_xfer_size v))" "unat (b * ucast (fastest_xfer_size v) :: u64) = unat b * ?X"
    using bx vs fs(1) by (simp_all add: checked_Some unat_xfer64 unat_no_carry)
  define rs where "rs = first + b * ucast (fastest_xfer_size v)"
  have nc: "unat first + unat b * ?X < 2 ^ 64" using bx vs fs(1) f by linarith
  have a: "CHECKED_ADD first (b * ucast (fastest_xfer_size v)) = Some rs" "unat rs = unat first + unat b * ?X"
    using nc m(2) by (simp_all add: checked_Some rs_def unat_no_carry)
  have su: "unat (sector_units v - 1) = units v - 1" using g(2,6) by (simp add: unat_sub word_le_nat_alt)
  have "?n + (units v - 1) < 2 ^ 64" using assms(4) g(3) by simp
  then obtain q where q: "DIV_ROUNDUP (sect_count v) (sector_units v) = Some q" by (simp add: DIV_ROUNDUP_def CHECKED_ADD_def su)
  note uq = volume_sectors [OF assms(1) q]
  have "unat first + unat q < 2 ^ 64" using f fs(1) vs uq by linarith
  then have e: "CHECKED_ADD first q = Some (first + q)" "unat (first + q) = unat first + unat q" by (simp_all add: checked_Some unat_no_carry)
  have "\<not> rs \<ge> first + q" using a(2) e(2) bx uq by (simp add: word_le_nat_alt)
  then have "clamp_xfer v first rs \<noteq> None" using assms(2) q e(1) by (simp add: clamp_xfer_def Let_def)
  moreover have "first_sect v mod sector_units v = 0" using fs(2) by (simp add: word_unat_eq_iff unat_mod g(6))
  ultimately show ?thesis using m(1) a(1) by (auto simp: locate_block_def Let_def first_def [symmetric])
qed

text \<open>Property C12: reading a volume through its block cache is reading the disk: whatever was read before, the call returns and
  either delivers exactly the bytes of the requested range of the volume or reports a failure; the cache stays consistent
  and nothing else of the volume changes. On a disk without faults it fails exactly on a range that the volume does not have.\<close>

theorem volume_read_refines:
  assumes "geometry_ok v" and "cache_ok D v" and "disk_has int13 v D" and "sect_count v \<noteq> - 1"
  shows "\<exists>r v'. volume_read int13 loc cnt v = Inr (r, v') \<and> same_volume v v' \<and> cache_ok D v' \<and>
     (r = None \<or> r = Some (map (\<lambda>i. volume_byte D v (unat loc + i)) [0..<unat cnt])) \<and>
     (\<not> range_ok v loc cnt \<longrightarrow> r = None) \<and>
     (range_ok v loc cnt \<and> (\<forall>lba n. int13 (drive v) lba n \<noteq> None) \<longrightarrow> r \<noteq> None)"
proof -
  obtain r v' where r: "volume_read int13 loc cnt v = Inr (r, v')" "same_volume v v'" "cache_ok D v'"
     "r = None \<or> range_ok v loc cnt \<and> r = Some (map (\<lambda>i. volume_byte D v (unat loc + i)) [0..<unat cnt])"
     "r = None \<longrightarrow> \<not> range_ok v loc cnt \<or> read_fault int13 v loc cnt"
    using volume_read_core [OF assms] by blast
  have loc: "locate_block v b \<noteq> None" if "range_ok v loc cnt" "i < unat cnt" "unat b = (unat loc + i) div block_bytes v" for b i
  proof (rule locate_block_Some [OF assms(1,4)])
    have "unat b * block_bytes v \<le> unat loc + i" using that(3) by simp
    moreover have "within v (unat loc + i)" by (rule range_within [OF assms(1) that(1,2)])
    ultimately show "within v (unat b * block_bytes v)" unfolding within_def by linarith
    show "unat (sect_count v) * 512 < 2 ^ 64" using that(1) by (simp add: range_ok_def)
  qed
  have "\<not> read_fault int13 v loc cnt" if "range_ok v loc cnt" "\<forall>lba n. int13 (drive v) lba n \<noteq> None"
    using loc [OF that(1)] that(2) unfolding read_fault_def by blast
  then have "range_ok v loc cnt \<and> (\<forall>lba n. int13 (drive v) lba n \<noteq> None) \<longrightarrow> r \<noteq> None" using r(5) by blast
  moreover have "\<not> range_ok v loc cnt \<longrightarrow> r = None" using r(4) by blast
  ultimately show ?thesis using r(1-4) by blast
qed


theorem volume_read_refines_witness:
  "\<exists>(v :: volume) r v'. sect_count v = 4 \<and> volume_read (\<lambda>d lba n. Some (map (\<lambda>i. of_nat (unat lba * 512 + i)) [0..<n * 512])) 510 4 v = Inr (r, v') \<and>
     r = Some (map (\<lambda>i. of_nat (512 + 510 + i)) [0..<4])"
proof -
  define v :: volume where "v = \<lparr>drive = 128, fastest_xfer_size = 1, vol_index = 1, is_optical = False, pxe = False, vol_partition = 1,
     sector_size = 512, backing_dev = 0, max_partition = 0, cache_ready = False, cache = None, cached_block = 0, ebr_walk_index = 0,
     ebr_walk_sector = 0, ebr_walk_size = 0, first_sect = 1, sect_count = 4, vol_guid = None, part_guid = None, part_type_guid = None, fslabel = None\<rparr>"
  let ?D = "\<lambda>p. of_nat p :: u8" and ?disk = "\<lambda>d lba n. Some (map (\<lambda>i. of_nat (unat lba * 512 + i)) [0..<n * 512])"
  have "geometry_ok v" "cache_ok ?D v" "disk_has ?disk v ?D" "sect_count v \<noteq> - 1" "range_ok v 510 4"
    by (simp_all add: v_def geometry_ok_def cache_ok_def disk_has_def block_bytes_def sector_bytes_def units_def range_ok_def)
  from volume_read_refines [OF this(1-4), of 510 4] this(5)
  have "\<exists>r v'. volume_read ?disk 510 4 v = Inr (r, v') \<and> r = Some (map (\<lambda>i. volume_byte ?D v (510 + i)) [0..<4])" by auto
  moreover have "volume_byte ?D v = (\<lambda>p. of_nat (512 + p))" by (simp add: fun_eq_iff volume_byte_def v_def)
  moreover have "sect_count v = 4" by (simp add: v_def)
  ultimately show ?thesis by (auto simp: add.assoc)
qed

section \<open>Reads never panic\<close>

text \<open>The part of the geometry that all volumes of a device share.\<close>

definition transfer_ok :: "'a volume_scheme \<Rightarrow> bool" where
  "transfer_ok v \<longleftrightarrow> \<not> pxe v \<and> fastest_xfer_size v \<noteq> 0 \<and> 512 \<le> sector_size v \<and> sector_size v mod 512 = 0 \<and> block_bytes v \<le> 32768"

lemma transfer_facts:
  assumes "transfer_ok v"
  shows "unat (fastest_xfer_size v) \<le> 64" "0 < block_bytes v" "unat (of_int (sector_size v) :: u32) = sector_bytes v"
    "unat (of_int (sector_size v) :: u64) = sector_bytes v" "unat (ucast (fastest_xfer_size v * of_int (sector_size v)) :: u64) = block_bytes v"
proof -
  let ?w = "v\<lparr>first_sect := 0, sect_count := - 1\<rparr>"
  have g: "geometry_ok ?w" using assms by (simp add: transfer_ok_def geometry_ok_def block_bytes_def sector_bytes_def)
  note f = geometry_facts [OF g] block_size_word [OF g]
  show "unat (fastest_xfer_size v) \<le> 64" "0 < block_bytes v" "unat (of_int (sector_size v) :: u32) = sector_bytes v"
    "unat (of_int (sector_size v) :: u64) = sector_bytes v" "unat (ucast (fastest_xfer_size v * of_int (sector_size v)) :: u64) = block_bytes v"
    using f by (simp_all add: block_bytes_def sector_bytes_def)
qed

lemma same_volume_transfer: "same_volume v v' \<Longrightarrow> transfer_ok v' = transfer_ok v"
proof -
  assume "same_volume v v'"
  then obtain a b c where v': "v' = v\<lparr>cache := a, cache_ready := b, cached_block := c\<rparr>" by (auto simp: same_volume_def)
  show ?thesis by (simp add: v' transfer_ok_def block_bytes_def sector_bytes_def)
qed

lemma clamp_xfer_le: "clamp_xfer v first rs = Some xs \<Longrightarrow> unat xs \<le> unat (fastest_xfer_size v)"
  by (auto simp: clamp_xfer_def Let_def unat_xfer64 word_less_nat_alt split: option.splits if_splits)

lemma disk_read_total:
  assumes "transfer_ok v" "unat xs \<le> unat (fastest_xfer_size v)"
  shows "\<exists>b. disk_read_sectors int13 v rs (ucast xs) = Inr b"
proof -
  have le: "unat (ucast xs :: u32) * sector_bytes v \<le> block_bytes v"
    unfolding block_bytes_def using assms(2) by (intro mult_le_mono1) (simp add: unsigned_ucast_eq unsigned_take_bit_eq le_trans [OF take_bit_nat_less_eq_self])
  also have b: "\<dots> \<le> 32768" using assms(1) by (simp add: transfer_ok_def)
  finally have "unat (ucast xs * of_int (sector_size v) :: u32) = unat (ucast xs :: u32) * sector_bytes v"
    by (simp add: unat_word_ariths transfer_facts(3) [OF assms(1)])
  then have "\<not> ucast xs * of_int (sector_size v) > XFER_BUF_SIZE" using le b by (simp add: XFER_BUF_SIZE_def word_less_nat_alt)
  then show ?thesis by (simp add: disk_read_sectors_def)
qed

lemma cache_block_total:
  assumes "transfer_ok v"
  shows "\<exists>r v'. cache_block int13 b v = Inr (r, v') \<and> same_volume v v'"
proof (cases "cache_ready v \<and> b = cached_block v")
  case True
  then show ?thesis by (auto simp: cache_block_def same_volume_refl)
next
  case False
  have nc: "unat (fastest_xfer_size v) * sector_bytes v < 2 ^ 64" using assms by (simp add: transfer_ok_def block_bytes_def)
  obtain v1 where v1: "alloc_cache (v\<lparr>cache_ready := False\<rparr>) = Inr v1" "same_volume v v1"
    using nc by (cases "cache v") (auto simp: alloc_cache_def CHECKED_MUL_def unat_xfer64 transfer_facts(4) [OF assms] same_volume_def)
  note t = same_volume_transfer [OF v1(2)] same_volume_disk [OF v1(2)]
  show ?thesis
  proof (cases "locate_block v1 b")
    case None
    then show ?thesis using False v1 by (auto simp: cache_block_def)
  next
    case (Some p)
    obtain rs xs where p: "p = (rs, xs)" by (cases p)
    have "unat xs \<le> unat (fastest_xfer_size v1)"
      using Some p by (auto simp: locate_block_def Let_def split: if_splits option.splits dest: clamp_xfer_le)
    then obtain bytes where "disk_read_sectors int13 v1 rs (ucast xs) = Inr bytes" using disk_read_total assms t(1) by blast
    then have "cache_block int13 b v = (case bytes of None \<Rightarrow> Inr (False, v1) | Some bs \<Rightarrow>
        Inr (True, v1\<lparr>cache := map_option (\<lambda>c. bs @ drop (length bs) c) (cache v1), cache_ready := True, cached_block := b\<rparr>))"
      using False v1(1) Some p unfolding cache_block_def if_not_P [OF False] by (simp split: option.splits)
    moreover have "same_volume v (v1\<lparr>cache := c, cache_ready := True, cached_block := b\<rparr>)" for c
      by (rule same_volume_trans [OF v1(2)]) (simp add: same_volume_def)
    ultimately show ?thesis using v1(2) by (cases bytes) auto
  qed
qed

lemma read_loop_total:
  assumes "transfer_ok v" "bs \<noteq> 0"
  shows "\<exists>r v'. read_loop int13 bs loc cnt pr v = Inr (r, v') \<and> same_volume v v'"
  using assms
proof (induction int13 bs loc cnt pr v rule: read_loop.induct)
  case (1 int13 bs loc cnt pr v)
  show ?case
  proof (cases "pr < cnt")
    case False
    then show ?thesis using same_volume_refl by (subst read_loop.simps) auto
  next
    case True
    let ?o = "(loc + pr) mod bs"
    obtain r1 v1 where r1: "cache_block int13 ((loc + pr) div bs) v = Inr (r1, v1)" "same_volume v v1" using cache_block_total [OF 1(2)] by blast
    define chunk where "chunk = (if cnt - pr > bs - ?o then bs - ?o else cnt - pr)"
    show ?thesis
    proof (cases r1)
      case False
      then show ?thesis using True 1(3) r1 by (subst read_loop.simps) simp
    next
      case rt: True
      have "\<exists>r v'. read_loop int13 bs loc cnt (pr + chunk) v1 = Inr (r, v') \<and> same_volume v1 v'"
        using "1.IH" [of "(True, v1)" True v1 ?o chunk] True 1(2,3) r1 rt same_volume_transfer [OF r1(2)] unfolding chunk_def by simp
      then obtain r v' where r: "read_loop int13 bs loc cnt (pr + chunk) v1 = Inr (r, v')" "same_volume v1 v'" by blast
      have "\<exists>r'. read_loop int13 bs loc cnt pr v = Inr (r', v')"
        using True 1(3) r1(1) rt r(1) by (subst read_loop.simps) (simp add: Let_def chunk_def split: option.splits)
      then show ?thesis using same_volume_trans [OF r1(2) r(2)] by blast
    qed
  qed
qed

lemma volume_read_total:
  assumes "transfer_ok v"
  obtains r v' where "volume_read int13 loc cnt v = Inr (r, v')" "same_volume v v'"
proof -
  have "\<exists>r v'. volume_read int13 loc cnt v = Inr (r, v') \<and> same_volume v v'"
  proof (cases "sect_count v \<noteq> - 1 \<and> (case CHECKED_MUL (sect_count v) 512 of None \<Rightarrow> True | Some part_size \<Rightarrow> loc \<ge> part_size \<or> cnt > part_size - loc)")
    case True
    then have "volume_read int13 loc cnt v = Inr (None, v)" using assms by (simp add: volume_read_def transfer_ok_def)
    then show ?thesis using same_volume_refl by blast
  next
    case False
    let ?bs = "ucast (fastest_xfer_size v * of_int (sector_size v)) :: u64"
    have "?bs \<noteq> 0" using transfer_facts(2,5) [OF assms] by (metis unat_0 less_irrefl)
    moreover have "volume_read int13 loc cnt v = read_loop int13 ?bs loc cnt 0 v"
      unfolding volume_read_def if_not_P [OF False] using assms by (simp add: transfer_ok_def)
    ultimately show ?thesis using read_loop_total [OF assms] by simp
  qed
  then show thesis using that by blast
qed

end
