(* ===== verification/LoaderGpt.thy ===== *)
theory LoaderGpt
  imports LoaderVolume
begin

text \<open>
  GUID partition tables in the boot loader, the middle of \<^verbatim>\<open>limine/common/lib/part.s2.c\<close>: the checksum, the verification of a
  header and its entry array, the search for a valid header with its memos, and the lookup of a partition. A
  structure read from the disk is the list of its bytes with functions for its fields. The state is the examined
  volume together with the static variables of the file; \<open>volume_addr\<close> is the address of the volume, which the memos
  compare. The two functions that look for a file system on a new partition are arguments.
\<close>

section \<open>Routines that may panic\<close>

type_synonym ('s, 'a) loader = "'s \<Rightarrow> string + 'a \<times> 's"

definition yield :: "'a \<Rightarrow> ('s, 'a) loader" where
  "yield a s = Inr (a, s)"

definition and_then :: "('s, 'a) loader \<Rightarrow> ('a \<Rightarrow> ('s, 'b) loader) \<Rightarrow> ('s, 'b) loader" where
  "and_then m f s = (case m s of Inl msg \<Rightarrow> Inl msg | Inr (a, s') \<Rightarrow> f a s')"

section \<open>Structures on the disk\<close>

fun le_value :: "u8 list \<Rightarrow> nat" where
  "le_value [] = 0"
| "le_value (b # bs) = unat b + 256 * le_value bs"

definition field64 :: "nat \<Rightarrow> u8 list \<Rightarrow> u64" where
  "field64 off b = of_nat (le_value (take 8 (drop off b)))"

definition field32 :: "nat \<Rightarrow> u8 list \<Rightarrow> u32" where
  "field32 off b = of_nat (le_value (take 4 (drop off b)))"

definition sizeof_gpt_header :: nat where "sizeof_gpt_header = 92"
definition header_signature :: "u8 list \<Rightarrow> u8 list" where "header_signature b = take 8 b"
definition header_revision :: "u8 list \<Rightarrow> u32" where "header_revision = field32 8"
definition header_size :: "u8 list \<Rightarrow> u32" where "header_size = field32 12"
definition header_crc32 :: "u8 list \<Rightarrow> u32" where "header_crc32 = field32 16"
definition my_lba :: "u8 list \<Rightarrow> u64" where "my_lba = field64 24"
definition alternate_lba :: "u8 list \<Rightarrow> u64" where "alternate_lba = field64 32"
definition first_usable_lba :: "u8 list \<Rightarrow> u64" where "first_usable_lba = field64 40"
definition last_usable_lba :: "u8 list \<Rightarrow> u64" where "last_usable_lba = field64 48"
definition disk_guid :: "u8 list \<Rightarrow> guid" where "disk_guid b = guid_of_bytes (take 16 (drop 56 b))"
definition partition_entry_lba :: "u8 list \<Rightarrow> u64" where "partition_entry_lba = field64 72"
definition number_of_partition_entries :: "u8 list \<Rightarrow> u32" where "number_of_partition_entries = field32 80"
definition size_of_partition_entry :: "u8 list \<Rightarrow> u32" where "size_of_partition_entry = field32 84"
definition partition_entry_array_crc32 :: "u8 list \<Rightarrow> u32" where "partition_entry_array_crc32 = field32 88"

definition sizeof_gpt_entry :: nat where "sizeof_gpt_entry = 128"
definition entry_type_guid :: "u8 list \<Rightarrow> guid" where "entry_type_guid b = guid_of_bytes (take 16 b)"
definition entry_unique_guid :: "u8 list \<Rightarrow> guid" where "entry_unique_guid b = guid_of_bytes (take 16 (drop 16 b))"
definition starting_lba :: "u8 list \<Rightarrow> u64" where "starting_lba = field64 32"
definition ending_lba :: "u8 list \<Rightarrow> u64" where "ending_lba = field64 40"

definition efi_part :: "u8 list" where "efi_part = [0x45, 0x46, 0x49, 0x20, 0x50, 0x41, 0x52, 0x54]"

section \<open>The checksum\<close>

definition crc32_bit :: "u32 \<Rightarrow> u32" where
  "crc32_bit crc = (if crc AND 1 \<noteq> 0 then drop_bit 1 crc XOR 0xEDB88320 else drop_bit 1 crc)"

definition crc32_byte :: "u32 \<Rightarrow> u8 \<Rightarrow> u32" where
  "crc32_byte crc b = (crc32_bit ^^ 8) (crc XOR ucast b)"

definition crc32_update :: "u32 \<Rightarrow> u8 list \<Rightarrow> u32" where
  "crc32_update = foldl crc32_byte"

function crc32_volume_range :: "bios_disk \<Rightarrow> u64 \<Rightarrow> u64 \<Rightarrow> u32 \<Rightarrow> ('a volume_scheme, u32 option) loader" where
  "crc32_volume_range int13 loc cnt crc v =
     (if cnt = 0 then Inr (Some crc, v)
      else let step = (if cnt < 512 then cnt else 512)
           in case volume_read int13 loc step v of
                Inl msg \<Rightarrow> Inl msg
              | Inr (None, v1) \<Rightarrow> Inr (None, v1)
              | Inr (Some chunk, v1) \<Rightarrow> crc32_volume_range int13 (loc + step) (cnt - step) (crc32_update crc chunk) v1)"
  by pat_completeness auto
termination
proof (relation "measure (\<lambda>(int13, loc, cnt, crc, v). unat cnt)", simp)
  fix int13 :: bios_disk and loc cnt step :: u64 and crc crc' :: u32 and v v1 :: "'a volume_scheme"
  assume "cnt \<noteq> 0" and step: "step = (if cnt < 512 then cnt else 512)"
  then have "step \<le> cnt" "0 < unat step" "0 < unat cnt" by (auto simp: not_less unat_gt_0)
  then show "((int13, loc + step, cnt - step, crc', v1), (int13, loc, cnt, crc, v)) \<in> measure (\<lambda>(int13, loc, cnt, crc, v). unat cnt)"
    by (simp add: unat_sub)
qed

declare crc32_volume_range.simps [simp del]

section \<open>Verification of a header\<close>

definition partition_range_valid :: "'a volume_scheme \<Rightarrow> u64 \<Rightarrow> u64 \<Rightarrow> bool" where
  "partition_range_valid v first n =
     (if n = 0 then False
      else case CHECKED_ADD first n of
             None \<Rightarrow> False
           | Some end_sect \<Rightarrow> \<not> (sect_count v \<noteq> - 1 \<and> end_sect > sect_count v))"

definition GPT_MAX_ARRAY_SIZE :: u64 where "GPT_MAX_ARRAY_SIZE = 1024 * 1024"

text \<open>The checksum of a header: its own checksum field counts as zero, and what the header claims beyond the defined fields is read from the disk.\<close>

definition header_crc :: "bios_disk \<Rightarrow> u8 list \<Rightarrow> u64 \<Rightarrow> ('a volume_scheme, u32 option) loader" where
  "header_crc int13 header header_loc v =
     (let crc = crc32_update 0xFFFFFFFF (take 16 header @ [0, 0, 0, 0] @ drop 20 header)
      in if header_size header > of_nat sizeof_gpt_header then
           (case CHECKED_ADD header_loc (of_nat sizeof_gpt_header) of
              None \<Rightarrow> Inr (None, v)
            | Some tail \<Rightarrow> crc32_volume_range int13 tail (ucast (header_size header - of_nat sizeof_gpt_header)) crc v)
         else Inr (Some crc, v))"

text \<open>Where the entry array lies, if the geometry that the header states is acceptable: its place and size in bytes.\<close>

definition array_geometry :: "u8 list \<Rightarrow> u64 \<Rightarrow> u64 \<Rightarrow> u64 \<Rightarrow> 'a volume_scheme \<Rightarrow> (u64 \<times> u64) option" where
  "array_geometry header header_lba lb_size budget v =
     (let entry_size = size_of_partition_entry header
      in if entry_size < of_nat sizeof_gpt_entry \<or> entry_size AND (entry_size - 1) \<noteq> 0 then None
         else case CHECKED_MUL (ucast (number_of_partition_entries header)) (ucast entry_size) of
           None \<Rightarrow> None
         | Some array_size \<Rightarrow>
             if array_size = 0 \<or> array_size > GPT_MAX_ARRAY_SIZE \<or> array_size > budget then None
             else let array_lba = partition_entry_lba header;
                      array_blocks = (array_size + lb_size - 1) div lb_size
                  in case CHECKED_ADD array_lba array_blocks of
                       None \<Rightarrow> None
                     | Some array_end \<Rightarrow>
                         if first_usable_lba header > last_usable_lba header then None
                         else if array_lba < first_usable_lba header \<and> array_end > first_usable_lba header then None
                         else if \<not> array_lba < first_usable_lba header \<and> (array_lba \<le> last_usable_lba header \<or> array_end > header_lba) then None
                         else if sect_count v \<noteq> - 1 \<and> array_end > sect_count v div (lb_size div 512) then None
                         else map_option (\<lambda>array_loc. (array_loc, array_size)) (CHECKED_MUL array_lba lb_size))"

text \<open>The checksum of the entry array; the result is the verdict and what is left of the budget, as that of \<open>gpt_verify_header\<close>.\<close>

definition verify_array :: "bios_disk \<Rightarrow> u8 list \<Rightarrow> u64 \<Rightarrow> (u64 \<times> u64) option \<Rightarrow> ('a volume_scheme, bool \<times> u64) loader" where
  "verify_array int13 header budget area =
     (case area of
        None \<Rightarrow> yield (False, budget)
      | Some (array_loc, array_size) \<Rightarrow>
          and_then (crc32_volume_range int13 array_loc array_size 0xFFFFFFFF)
            (\<lambda>crc. yield (crc \<noteq> None \<and> NOT (the crc) = partition_entry_array_crc32 header, budget - array_size)))"

definition gpt_verify_header :: "bios_disk \<Rightarrow> u8 list \<Rightarrow> u64 \<Rightarrow> u64 \<Rightarrow> u64 \<Rightarrow> ('a volume_scheme, bool \<times> u64) loader" where
  "gpt_verify_header int13 header header_lba lb_size budget =
     (if header_signature header \<noteq> efi_part \<or> header_revision header \<noteq> 0x00010000 \<or>
         header_size header < of_nat sizeof_gpt_header \<or> ucast (header_size header) > lb_size \<or> my_lba header \<noteq> header_lba
      then yield (False, budget)
      else case CHECKED_MUL header_lba lb_size of
        None \<Rightarrow> yield (False, budget)
      | Some header_loc \<Rightarrow> and_then (header_crc int13 header header_loc) (\<lambda>crc.
          if crc = None \<or> NOT (the crc) \<noteq> header_crc32 header then yield (False, budget)
          else (\<lambda>v. verify_array int13 header budget (array_geometry header header_lba lb_size budget v) v)))"

section \<open>Finding the header\<close>

record gpt_memo =
  memo_volume :: u64
  memo_header :: "u8 list"
  memo_lba :: u64
  memo_lb_size :: u64

record none_memo =
  none_volume :: u64
  none_block :: "u8 list"
  none_readable :: bool

text \<open>The volume and the static variables; a memo whose volume pointer is null is \<open>None\<close>. \<open>ebr_part\<close> is used by the other kind of table.\<close>

record part_state = volume +
  volume_addr :: u64
  the_gpt_memo :: "gpt_memo option"
  the_none_memo :: "none_memo option"
  ebr_part :: "volume option"

definition header_cnt :: u64 where "header_cnt = of_nat sizeof_gpt_header"

definition gpt_memo_none_hit :: "bios_disk \<Rightarrow> ('a part_state_scheme, bool) loader" where
  "gpt_memo_none_hit int13 s =
     (case the_none_memo s of
        None \<Rightarrow> Inr (False, s)
      | Some memo \<Rightarrow>
          if none_volume memo \<noteq> volume_addr s then Inr (False, s)
          else and_then (volume_read int13 512 header_cnt)
                 (\<lambda>fresh. yield (case fresh of None \<Rightarrow> \<not> none_readable memo
                                | Some b \<Rightarrow> none_readable memo \<and> b = none_block memo)) s)"

text \<open>When the block cannot be read, what the buffer holds is not used.\<close>

definition gpt_memo_none_store :: "bios_disk \<Rightarrow> ('a part_state_scheme, unit) loader" where
  "gpt_memo_none_store int13 =
     and_then (volume_read int13 512 header_cnt) (\<lambda>b s.
       Inr ((), s\<lparr>the_none_memo := Some \<lparr>none_volume = volume_addr s, none_block = (case b of None \<Rightarrow> [] | Some x \<Rightarrow> x),
                                        none_readable = (b \<noteq> None)\<rparr>\<rparr>))"

text \<open>The remembered header with its block and block size, if it still is on the disk.\<close>

definition gpt_memo_hit :: "bios_disk \<Rightarrow> ('a part_state_scheme, (u8 list \<times> u64) option) loader" where
  "gpt_memo_hit int13 s =
     (case the_gpt_memo s of
        None \<Rightarrow> Inr (None, s)
      | Some memo \<Rightarrow>
          if memo_volume memo \<noteq> volume_addr s then Inr (None, s)
          else case CHECKED_MUL (memo_lba memo) (memo_lb_size memo) of
            None \<Rightarrow> Inr (None, s)
          | Some loc \<Rightarrow>
              and_then (volume_read int13 loc header_cnt)
                (\<lambda>fresh. yield (if fresh = Some (memo_header memo) then Some (memo_header memo, memo_lb_size memo) else None)) s)"

definition gpt_memo_store :: "u8 list \<Rightarrow> u64 \<Rightarrow> u64 \<Rightarrow> 'a part_state_scheme \<Rightarrow> 'a part_state_scheme" where
  "gpt_memo_store header header_lba lb_size s =
     s\<lparr>the_gpt_memo := Some \<lparr>memo_volume = volume_addr s, memo_header = header, memo_lba = header_lba, memo_lb_size = lb_size\<rparr>\<rparr>"

primrec gpt_protective_mbr_from :: "bios_disk \<Rightarrow> nat list \<Rightarrow> ('a volume_scheme, bool) loader" where
  "gpt_protective_mbr_from int13 [] = yield False"
| "gpt_protective_mbr_from int13 (i # is) =
     and_then (volume_read int13 (0x1BE + 16 * of_nat i + 4) 1) (\<lambda>type.
       if type = None then yield False
       else if type = Some [0xEE] then yield True
       else gpt_protective_mbr_from int13 is)"

definition gpt_protective_mbr :: "bios_disk \<Rightarrow> ('a volume_scheme, bool) loader" where
  "gpt_protective_mbr int13 = gpt_protective_mbr_from int13 [0, 1, 2, 3]"

text \<open>A candidate block: the header read there and the verdict on it. A verified header is remembered.\<close>

definition try_header :: "bios_disk \<Rightarrow> u64 \<Rightarrow> u64 \<Rightarrow> u8 list \<Rightarrow> u64 \<Rightarrow> ('a part_state_scheme, bool \<times> u64) loader" where
  "try_header int13 lba guess header budget =
     and_then (gpt_verify_header int13 header lba guess budget) (\<lambda>(ok, budget') s.
       Inr ((ok, budget'), if ok then gpt_memo_store header lba guess s else s))"

primrec try_candidates :: "bios_disk \<Rightarrow> u64 \<Rightarrow> u64 list \<Rightarrow> u64 \<Rightarrow> ('a part_state_scheme, u8 list option \<times> u64) loader" where
  "try_candidates int13 guess [] budget = yield (None, budget)"
| "try_candidates int13 guess (lba # lbas) budget =
     (case CHECKED_MUL lba guess of
        None \<Rightarrow> try_candidates int13 guess lbas budget
      | Some loc \<Rightarrow> and_then (volume_read int13 loc header_cnt) (\<lambda>h. case h of
          None \<Rightarrow> try_candidates int13 guess lbas budget
        | Some header \<Rightarrow> and_then (try_header int13 lba guess header budget) (\<lambda>(ok, budget').
            if ok then yield (Some header, budget') else try_candidates int13 guess lbas budget')))"

text \<open>The blocks where the alternate header may be: the last one of the volume before the one the primary names.\<close>

definition alternate_candidates :: "u64 \<Rightarrow> u64 \<Rightarrow> u8 list option \<Rightarrow> u64 list" where
  "alternate_candidates sectors guess primary =
     (let claimed = (case primary of None \<Rightarrow> []
                     | Some h \<Rightarrow> if header_signature h = efi_part \<and> alternate_lba h > 1 then [alternate_lba h] else []);
          blocks = sectors div (guess div 512)
      in if sectors \<noteq> - 1 \<and> guess \<ge> 512 \<and> blocks \<ge> 2
         then (blocks - 1) # (if claimed = [blocks - 1] then [] else claimed)
         else claimed)"

primrec try_guesses :: "bios_disk \<Rightarrow> u64 list \<Rightarrow> u64 \<Rightarrow> ('a part_state_scheme, (u8 list \<times> u64) option) loader" where
  "try_guesses int13 [] budget = yield None"
| "try_guesses int13 (guess # guesses) budget =
     and_then (volume_read int13 (guess * 1) header_cnt) (\<lambda>primary.
     and_then (case primary of None \<Rightarrow> yield (False, budget) | Some header \<Rightarrow> try_header int13 1 guess header budget) (\<lambda>(ok, budget') s.
       if ok then Inr (Some (the primary, guess), s)
       else and_then (try_candidates int13 guess (alternate_candidates (sect_count s) guess primary) budget') (\<lambda>(found, budget'').
              case found of Some header \<Rightarrow> yield (Some (header, guess)) | None \<Rightarrow> try_guesses int13 guesses budget'') s))"

definition gpt_locate_header :: "bios_disk \<Rightarrow> ('a part_state_scheme, (u8 list \<times> u64) option) loader" where
  "gpt_locate_header int13 =
     and_then (gpt_memo_hit int13) (\<lambda>hit. case hit of
       Some h \<Rightarrow> yield (Some h)
     | None \<Rightarrow> and_then (gpt_memo_none_hit int13) (\<lambda>none.
         if none then yield None
         else and_then (gpt_protective_mbr int13) (\<lambda>protective.
           if \<not> protective then yield None
           else and_then (try_guesses int13 [512, 2048, 4096] (GPT_MAX_ARRAY_SIZE * 2)) (\<lambda>found. case found of
             Some h \<Rightarrow> yield (Some h)
           | None \<Rightarrow> and_then (gpt_memo_none_store int13) (\<lambda>_. yield None)))))"

definition gpt_get_guid :: "bios_disk \<Rightarrow> ('a part_state_scheme, guid option) loader" where
  "gpt_get_guid int13 = and_then (gpt_locate_header int13) (\<lambda>h. yield (map_option (\<lambda>(header, lb). disk_guid header) h))"

section \<open>A partition of the table\<close>

definition NO_PARTITION :: int where "NO_PARTITION = - 1"
definition INVALID_TABLE :: int where "INVALID_TABLE = - 2"
definition END_OF_TABLE :: int where "END_OF_TABLE = - 3"
definition MAX_GPT_PARTITIONS :: u32 where "MAX_GPT_PARTITIONS = 256"

text \<open>The functions that look for a file system, \<open>fs_get_guid\<close> and \<open>fs_get_label\<close>, work on the new volume.\<close>

record fs_probe =
  fs_get_guid :: "(volume, guid option) loader"
  fs_get_label :: "(volume, ctext option) loader"

text \<open>The fields of a new partition, common to both kinds of tables.\<close>

definition new_partition :: "'a volume_scheme \<Rightarrow> u64 \<Rightarrow> int \<Rightarrow> u64 \<Rightarrow> u64 \<Rightarrow> volume \<Rightarrow> volume" where
  "new_partition v dev number first n ret =
     ret\<lparr>drive := drive v, fastest_xfer_size := fastest_xfer_size v, vol_index := vol_index v, is_optical := is_optical v,
         vol_partition := number, sector_size := sector_size v, first_sect := first, sect_count := n, backing_dev := dev\<rparr>"

definition probe_fs :: "fs_probe \<Rightarrow> guid option \<Rightarrow> guid option \<Rightarrow> volume \<Rightarrow> string + volume" where
  "probe_fs fs pguid tguid ret =
     (case and_then (fs_get_guid fs) (\<lambda>g r. Inr ((), r\<lparr>vol_guid := g\<rparr>)) ret of
        Inl msg \<Rightarrow> Inl msg
      | Inr (_, r1) \<Rightarrow> (case and_then (fs_get_label fs) (\<lambda>l r. Inr ((), r\<lparr>fslabel := l\<rparr>)) r1 of
          Inl msg \<Rightarrow> Inl msg
        | Inr (_, r2) \<Rightarrow> Inr (r2\<lparr>part_guid := pguid, part_type_guid := tguid\<rparr>)))"

text \<open>The first sector and the size of an entry in 512-byte units, if the entry describes a partition.\<close>

definition gpt_entry_range :: "u8 list \<Rightarrow> u64 \<Rightarrow> (u64 \<times> u64) option" where
  "gpt_entry_range entry lb_size =
     (if take 16 entry = replicate 16 0 \<or> ending_lba entry < starting_lba entry then None
      else let sect_multiplier = lb_size div 512
           in case CHECKED_MUL (starting_lba entry) sect_multiplier of
                None \<Rightarrow> None
              | Some first \<Rightarrow>
                  let partition_size = ending_lba entry - starting_lba entry
                  in if partition_size = - 1 then None
                     else map_option (\<lambda>n. (first, n)) (CHECKED_MUL (partition_size + 1) sect_multiplier))"

text \<open>What is made of an entry.\<close>

definition gpt_entry_part :: "fs_probe \<Rightarrow> int \<Rightarrow> volume \<Rightarrow> u64 \<Rightarrow> u8 list \<Rightarrow> ('a part_state_scheme, int + volume) loader" where
  "gpt_entry_part fs pno ret lb_size entry s =
     (case gpt_entry_range entry lb_size of
        None \<Rightarrow> Inr (Inl NO_PARTITION, s)
      | Some (first, cnt) \<Rightarrow>
          if \<not> partition_range_valid s first cnt then Inr (Inl NO_PARTITION, s)
          else (case probe_fs fs (Some (entry_unique_guid entry)) (Some (entry_type_guid entry))
                       (new_partition s (volume_addr s) (pno + 1) first cnt ret) of
                  Inl msg \<Rightarrow> Inl msg
                | Inr part \<Rightarrow> Inr (Inr part, s)))"

text \<open>A negative result is an error code; a partition is returned in the volume \<open>ret\<close>.\<close>

definition gpt_get_part :: "bios_disk \<Rightarrow> fs_probe \<Rightarrow> int \<Rightarrow> volume \<Rightarrow> ('a part_state_scheme, int + volume) loader" where
  "gpt_get_part int13 fs pno ret =
     and_then (gpt_locate_header int13) (\<lambda>h. case h of
       None \<Rightarrow> yield (Inl INVALID_TABLE)
     | Some (header, lb_size) \<Rightarrow>
         let n = number_of_partition_entries header;
             entry_count = (if n > MAX_GPT_PARTITIONS then MAX_GPT_PARTITIONS else n);
             entry_size = size_of_partition_entry header
         in if of_int pno \<ge> entry_count then yield (Inl END_OF_TABLE)
            else if entry_size < of_nat sizeof_gpt_entry then yield (Inl INVALID_TABLE)
            else (case CHECKED_MUL (partition_entry_lba header) lb_size of
              None \<Rightarrow> yield (Inl INVALID_TABLE)
            | Some base \<Rightarrow> (case CHECKED_ADD base (of_int pno * ucast entry_size) of
                None \<Rightarrow> yield (Inl INVALID_TABLE)
              | Some entry_offset \<Rightarrow>
                  and_then (volume_read int13 entry_offset (of_nat sizeof_gpt_entry)) (\<lambda>e. case e of
                    None \<Rightarrow> yield (Inl END_OF_TABLE)
                  | Some entry \<Rightarrow> gpt_entry_part fs pno ret lb_size entry))))"

section \<open>The checksum is the remainder of a division\<close>

text \<open>
  The reference for the checksum: the bits of the message, the lowest bit of each byte first, are the coefficients of a polynomial
  over the two-element field, the highest power first. \<open>long_division\<close> is the division by hand with the generator of IEEE 802.3:
  where the leading coefficient is set the generator is subtracted, and the leading place is dropped until 32 are left.
\<close>

definition generator_exponents :: "nat list" where
  "generator_exponents = [32, 26, 23, 22, 16, 12, 11, 10, 8, 7, 5, 4, 2, 1, 0]"

definition generator :: "bool list" where
  "generator = map (\<lambda>k. k \<in> set generator_exponents) (rev [0..<33])"

fun subtract_front :: "bool list \<Rightarrow> bool list \<Rightarrow> bool list" where
  "subtract_front (g # gs) (b # bs) = (g \<noteq> b) # subtract_front gs bs"
| "subtract_front gs bs = bs"

lemma length_subtract_front [simp]: "length (subtract_front gs bs) = length bs"
  by (induction gs bs rule: subtract_front.induct) simp_all

fun long_division :: "bool list \<Rightarrow> bool list" where
  "long_division bs =
     (if length bs \<le> 32 then bs
      else if hd bs then long_division (tl (subtract_front generator bs))
      else long_division (tl bs))"

declare long_division.simps [simp del]

definition message_bits :: "u8 list \<Rightarrow> bool list" where
  "message_bits bytes = concat (map (\<lambda>b. map (bit b) [0..<8]) bytes)"

definition register_bits :: "u32 \<Rightarrow> bool list" where
  "register_bits c = map (bit c) [0..<32]"

lemma nth_subtract_front: "i < length bs \<Longrightarrow> subtract_front gs bs ! i \<longleftrightarrow> (i < length gs \<and> gs ! i) \<noteq> bs ! i"
  by (induction gs bs arbitrary: i rule: subtract_front.induct) (auto simp: nth_Cons split: nat.split)

lemma length_register_bits [simp]: "length (register_bits c) = 32"
  by (simp add: register_bits_def)

lemma nth_register_bits [simp]: "i < 32 \<Longrightarrow> register_bits c ! i = bit c i"
  by (simp add: register_bits_def)

lemma generator_register: "generator = True # register_bits 0xEDB88320"
  by code_simp

lemma crc32_bit_bits: "bit (crc32_bit c) i \<longleftrightarrow> (bit c 0 \<and> bit (0xEDB88320 :: u32) i) \<noteq> bit c (Suc i)"
proof -
  have low: "c AND 1 \<noteq> 0 \<longleftrightarrow> bit c 0" by (simp add: bit_0 and_one_eq odd_iff_mod_2_eq_one)
  show ?thesis unfolding crc32_bit_def low by (auto simp: bit_xor_iff bit_drop_bit_eq)
qed

lemma division_step:
  assumes "32 \<le> length bs"
  shows "long_division (subtract_front (register_bits c) (False # bs)) = long_division (subtract_front (register_bits (crc32_bit c)) bs)"
proof -
  let ?s = "subtract_front (register_bits c) (False # bs)"
  have h: "hd ?s \<longleftrightarrow> bit c 0" using nth_subtract_front [of 0 "False # bs" "register_bits c"] by (simp add: hd_conv_nth flip: length_greater_0_conv)
  have t: "tl (if hd ?s then subtract_front generator ?s else ?s) = subtract_front (register_bits (crc32_bit c)) bs"
  proof (rule nth_equalityI)
    fix i assume "i < length (tl (if hd ?s then subtract_front generator ?s else ?s))"
    then have i: "i < length bs" by (simp split: if_splits)
    have o: "bit c (Suc i) \<Longrightarrow> Suc i < 32" using bit_imp_le_length [of c "Suc i"] by simp
    show "tl (if hd ?s then subtract_front generator ?s else ?s) ! i = subtract_front (register_bits (crc32_bit c)) bs ! i"
      using i o bit_imp_le_length [of "0xEDB88320 :: u32" i] unfolding h
      by (auto simp: nth_tl nth_subtract_front generator_register crc32_bit_bits)
  qed (simp split: if_splits)
  show ?thesis using assms t by (subst long_division.simps) (auto split: if_splits)
qed

lemma division_steps:
  "32 \<le> length bs \<Longrightarrow> long_division (subtract_front (register_bits c) (replicate n False @ bs)) =
     long_division (subtract_front (register_bits ((crc32_bit ^^ n) c)) bs)"
  by (induction n arbitrary: c) (simp_all add: division_step funpow_swap1)

lemma division_byte:
  assumes "32 \<le> length bs"
  shows "long_division (subtract_front (register_bits c) (map (bit b) [0..<8] @ bs)) =
     long_division (subtract_front (register_bits (crc32_byte c b)) bs)"
proof -
  have "subtract_front (register_bits c) (map (bit b) [0..<8] @ bs) =
      subtract_front (register_bits (c XOR ucast b)) (replicate 8 False @ bs)"
  proof (rule nth_equalityI)
    fix i assume i: "i < length (subtract_front (register_bits c) (map (bit b) [0..<8] @ bs))"
    have "bit (c XOR ucast b) i \<longleftrightarrow> bit c i \<noteq> bit b i" if "i < 32" using that by (simp add: bit_xor_iff bit_unsigned_iff)
    moreover have "bit b i \<Longrightarrow> i < 8" using bit_imp_le_length [of b i] by simp
    ultimately show "subtract_front (register_bits c) (map (bit b) [0..<8] @ bs) ! i =
        subtract_front (register_bits (c XOR ucast b)) (replicate 8 False @ bs) ! i"
      using i by (cases "i < 8") (auto simp: nth_subtract_front nth_append)
  qed simp
  then show ?thesis using division_steps [OF assms, of "c XOR ucast b" 8] by (simp only: crc32_byte_def)
qed

text \<open>Property C37: the checksum of the loader is the CRC-32 of IEEE 802.3. For every start value and every byte sequence
  \<open>crc32_update\<close> is the remainder, by long division over the two-element field with the generator
  x^32 + x^26 + x^23 + x^22 + x^16 + x^12 + x^11 + x^10 + x^8 + x^7 + x^5 + x^4 + x^2 + x + 1, of the message, the lowest bit of
  each byte first, followed by 32 zero bits and with the start value added to its first 32 bits.\<close>

theorem crc32_update_remainder:
  "register_bits (crc32_update c bytes) =
     long_division (subtract_front (register_bits c) (message_bits bytes @ replicate 32 False))"
proof (induction bytes arbitrary: c)
  case Nil
  have "subtract_front (register_bits c) (replicate 32 False) = register_bits c"
    by (rule nth_equalityI) (simp_all add: nth_subtract_front)
  then show ?case by (subst long_division.simps) (simp add: crc32_update_def message_bits_def)
next
  case (Cons b bytes)
  have "long_division (subtract_front (register_bits c) (message_bits (b # bytes) @ replicate 32 False)) =
      long_division (subtract_front (register_bits (crc32_byte c b)) (message_bits bytes @ replicate 32 False))"
    using division_byte [of "message_bits bytes @ replicate 32 False" c b] by (simp only: message_bits_def list.map concat.simps append_assoc) simp
  then show ?case using Cons [of "crc32_byte c b"] by (simp add: crc32_update_def)
qed

section \<open>The checksum detects a changed byte\<close>

lemma xor_cancel: "x XOR z = y XOR z \<Longrightarrow> x = y" for x y z :: u32
  by (metis xor.assoc xor.right_neutral xor_self_eq)

lemma crc32_bit_inj: "crc32_bit a = crc32_bit b \<Longrightarrow> a = b"
proof -
  assume eq: "crc32_bit a = crc32_bit b"
  have low: "c AND 1 \<noteq> 0 \<longleftrightarrow> bit c 0" for c :: u32 by (simp add: bit_0 and_one_eq odd_iff_mod_2_eq_one)
  have top31: "bit (crc32_bit c) 31 \<longleftrightarrow> bit c 0" for c
    unfolding crc32_bit_def low by (auto simp: bit_simps dest: bit_imp_le_length)
  have same: "bit a 0 = bit b 0" using top31 [of a] top31 [of b] eq by simp
  then have "drop_bit 1 a = drop_bit 1 b" using eq unfolding crc32_bit_def low
    by (cases "bit a 0") (simp_all only: if_True if_False simp_thms, erule xor_cancel)
  then have "bit a (Suc n) = bit b (Suc n)" for n by (metis One_nat_def bit_drop_bit_eq comp_apply plus_1_eq_Suc)
  then show "a = b" using same by (intro bit_word_eqI) (metis old.nat.exhaust)
qed

lemma crc32_bits_inj: "(crc32_bit ^^ n) a = (crc32_bit ^^ n) b \<Longrightarrow> a = b"
  by (induction n) (auto dest: crc32_bit_inj)

lemma crc32_byte_inj: "crc32_byte c b = crc32_byte d b \<Longrightarrow> c = d" "crc32_byte c a = crc32_byte c b \<Longrightarrow> a = b"
proof -
  note x = xor_cancel
  show "crc32_byte c b = crc32_byte d b \<Longrightarrow> c = d" unfolding crc32_byte_def by (drule crc32_bits_inj) (rule x)
  assume "crc32_byte c a = crc32_byte c b"
  then have "c XOR ucast a = c XOR ucast b" unfolding crc32_byte_def by (rule crc32_bits_inj)
  then have "(ucast a :: u32) = ucast b" using xor_cancel [of "ucast a" c "ucast b"] by (simp add: xor.commute)
  then have "unat (ucast a :: u32) = unat (ucast b :: u32)" by simp
  moreover have "unat (ucast y :: u32) = unat y" for y :: u8 using unat_lt2p [of y] by (simp add: unsigned_ucast_eq take_bit_nat_eq_self)
  ultimately show "a = b" by (simp add: word_unat_eq_iff)
qed

lemma crc32_update_inj: "crc32_update c bs = crc32_update d bs \<Longrightarrow> c = d"
  by (induction bs arbitrary: c d) (auto simp: crc32_update_def dest: crc32_byte_inj(1))

lemma crc32_update_append: "crc32_update c (xs @ ys) = crc32_update (crc32_update c xs) ys"
  by (simp add: crc32_update_def)

text \<open>Theorem: whatever is summed, a change of a single byte changes the checksum.\<close>

theorem crc32_detects_byte:
  assumes "a \<noteq> b"
  shows "crc32_update c (xs @ a # ys) \<noteq> crc32_update c (xs @ b # ys)"
proof
  assume "crc32_update c (xs @ a # ys) = crc32_update c (xs @ b # ys)"
  then have "crc32_update (crc32_byte (crc32_update c xs) a) ys = crc32_update (crc32_byte (crc32_update c xs) b) ys"
    by (simp add: crc32_update_append) (simp add: crc32_update_def)
  then show False using crc32_update_inj crc32_byte_inj(2) assms by blast
qed

theorem crc32_detects_byte_witness: "crc32_update 0xFFFFFFFF [1, 2, 3] \<noteq> crc32_update 0xFFFFFFFF [1, 7, 3]"
  using crc32_detects_byte [of 2 7 "0xFFFFFFFF" "[1]" "[3]"] by simp

section \<open>Runs on a sound disk\<close>

definition vbytes :: "(nat \<Rightarrow> u8) \<Rightarrow> 'a volume_scheme \<Rightarrow> nat \<Rightarrow> nat \<Rightarrow> u8 list" where
  "vbytes D v off n = map (\<lambda>i. volume_byte D v (off + i)) [0..<n]"

lemma vbytes_append: "vbytes D v off (n + m) = vbytes D v off n @ vbytes D v (off + n) m"
  unfolding vbytes_def by (subst upt_split [of n]) (simp_all add: add.assoc)

lemma length_vbytes [simp]: "length (vbytes D v off n) = n"
  by (simp add: vbytes_def)

definition readable :: "bios_disk \<Rightarrow> (nat \<Rightarrow> u8) \<Rightarrow> 'a volume_scheme \<Rightarrow> bool" where
  "readable int13 D v \<longleftrightarrow> geometry_ok v \<and> cache_ok D v \<and> disk_has int13 v D \<and> sect_count v \<noteq> - 1"

lemma readable_read:
  assumes "readable int13 D v"
  obtains r v' where "volume_read int13 loc cnt v = Inr (r, v')" "same_volume v v'" "readable int13 D v'"
    "r = None \<or> r = Some (vbytes D v (unat loc) (unat cnt))" "r \<noteq> None \<longrightarrow> range_ok v loc cnt"
proof -
  have a: "geometry_ok v" "cache_ok D v" "disk_has int13 v D" "sect_count v \<noteq> - 1" using assms by (simp_all add: readable_def)
  obtain r v' where r: "volume_read int13 loc cnt v = Inr (r, v')" "same_volume v v'" "cache_ok D v'"
     "r = None \<or> range_ok v loc cnt \<and> r = Some (map (\<lambda>i. volume_byte D v (unat loc + i)) [0..<unat cnt])"
    using volume_read_core [OF a] by blast
  have "readable int13 D v'" using a r(3) same_volume_fields [OF r(2)] by (simp add: readable_def)
  then show ?thesis using that r by (auto simp: vbytes_def)
qed

lemma vbytes_same: "same_volume v v' \<Longrightarrow> vbytes D v' = vbytes D v"
  by (simp add: vbytes_def same_volume_fields fun_eq_iff)

lemma crc32_range_run:
  assumes "readable int13 D v"
  shows "\<exists>r v'. crc32_volume_range int13 loc cnt crc v = Inr (r, v') \<and> same_volume v v' \<and> readable int13 D v' \<and>
     (r = None \<or> r = Some (crc32_update crc (vbytes D v (unat loc) (unat cnt))))"
  using assms
proof (induction int13 loc cnt crc v rule: crc32_volume_range.induct)
  case (1 int13 loc cnt crc v)
  show ?case
  proof (cases "cnt = 0")
    case True
    then show ?thesis using 1(2) same_volume_refl by (subst crc32_volume_range.simps) (auto simp: vbytes_def crc32_update_def)
  next
    case False
    define step where "step = (if cnt < 512 then cnt else 512)"
    have st: "step \<le> cnt" unfolding step_def by auto
    then have sub: "unat (cnt - step) = unat cnt - unat step" "unat step \<le> unat cnt" by (simp_all add: unat_sub word_le_nat_alt)
    obtain r v1 where r: "volume_read int13 loc step v = Inr (r, v1)" "same_volume v v1" "readable int13 D v1"
        "r = None \<or> r = Some (vbytes D v (unat loc) (unat step))" "r \<noteq> None \<longrightarrow> range_ok v loc step" using readable_read [OF 1(2)] by metis
    show ?thesis
    proof (cases r)
      case None
      then show ?thesis using r False by (subst crc32_volume_range.simps) (auto simp: Let_def step_def)
    next
      case (Some chunk)
      then have c: "chunk = vbytes D v (unat loc) (unat step)" using r(4) by simp
      have "unat loc + unat step < 2 ^ 64" using r(5) Some by (simp add: range_ok_def)
      then have plus: "unat (loc + step) = unat loc + unat step" by (rule unat_no_carry)
      obtain r' v' where r': "crc32_volume_range int13 (loc + step) (cnt - step) (crc32_update crc chunk) v1 = Inr (r', v')"
          "same_volume v1 v'" "readable int13 D v'" "r' = None \<or> r' = Some (crc32_update (crc32_update crc chunk) (vbytes D v1 (unat loc + unat step) (unat cnt - unat step)))"
        using "1.IH" [OF False step_def r(1) refl Some r(3)] unfolding plus sub by blast
      have "vbytes D v (unat loc) (unat cnt) = chunk @ vbytes D v1 (unat loc + unat step) (unat cnt - unat step)"
        using vbytes_append [of D v "unat loc" "unat step" "unat cnt - unat step"] sub(2) c vbytes_same [OF r(2)] by simp
      moreover have "crc32_volume_range int13 loc cnt crc v = Inr (r', v')" using r(1) r'(1) Some False by (subst crc32_volume_range.simps) (simp add: Let_def step_def)
      ultimately show ?thesis using r'(2-4) same_volume_trans [OF r(2) r'(2)] by (auto simp: crc32_update_append)
    qed
  qed
qed


section \<open>What a verified header promises\<close>

definition zeroed_crc :: "u8 list \<Rightarrow> u8 list" where
  "zeroed_crc b = take 16 b @ [0, 0, 0, 0] @ drop 20 b"

definition array_bytes :: "u8 list \<Rightarrow> nat" where
  "array_bytes header = unat (number_of_partition_entries header) * unat (size_of_partition_entry header)"

text \<open>The header lies in the block that it names, both checksums are right for what is on the disk, and the entry array is not
  in the usable range.\<close>

definition gpt_valid :: "(nat \<Rightarrow> u8) \<Rightarrow> 'a volume_scheme \<Rightarrow> u8 list \<Rightarrow> u64 \<Rightarrow> u64 \<Rightarrow> bool" where
  "gpt_valid D v header lba lb \<longleftrightarrow>
     lb \<in> {512, 2048, 4096} \<and> header = vbytes D v (unat lba * unat lb) 92 \<and> header_signature header = efi_part \<and> my_lba header = lba \<and>
     92 \<le> unat (header_size header) \<and> unat (header_size header) \<le> unat lb \<and>
     header_crc32 header = NOT (crc32_update 0xFFFFFFFF (zeroed_crc (vbytes D v (unat lba * unat lb) (unat (header_size header))))) \<and>
     128 \<le> unat (size_of_partition_entry header) \<and> 0 < array_bytes header \<and> array_bytes header \<le> 1024 * 1024 \<and>
     partition_entry_array_crc32 header =
       NOT (crc32_update 0xFFFFFFFF (vbytes D v (unat (partition_entry_lba header) * unat lb) (array_bytes header))) \<and>
     (unat (partition_entry_lba header) * unat lb + array_bytes header \<le> unat (first_usable_lba header) * unat lb \<or>
      last_usable_lba header < partition_entry_lba header)"

definition memo_ok :: "(nat \<Rightarrow> u8) \<Rightarrow> 'a part_state_scheme \<Rightarrow> bool" where
  "memo_ok D s \<longleftrightarrow> (\<forall>m. the_gpt_memo s = Some m \<and> memo_volume m = volume_addr s \<longrightarrow> gpt_valid D s (memo_header m) (memo_lba m) (memo_lb_size m))"

text \<open>What the routines leave alone: all but the cache and the memos.\<close>

definition fixed_part :: "'a part_state_scheme \<Rightarrow> (int \<times> u32 \<times> int \<times> bool \<times> int \<times> int) \<times> u64 \<times> u64 \<times> u64 \<times> volume option" where
  "fixed_part s = ((drive s, fastest_xfer_size s, vol_index s, is_optical s, sector_size s, vol_partition s), first_sect s, sect_count s, volume_addr s, ebr_part s)"

text \<open>A memo is one there was before or one about this volume.\<close>

definition memo_from :: "'a part_state_scheme \<Rightarrow> 'a part_state_scheme \<Rightarrow> bool" where
  "memo_from s0 s \<longleftrightarrow> (\<forall>m. the_gpt_memo s = Some m \<longrightarrow> the_gpt_memo s0 = Some m \<or> memo_volume m = volume_addr s0)"

definition gpt_inv :: "bios_disk \<Rightarrow> (nat \<Rightarrow> u8) \<Rightarrow> 'a part_state_scheme \<Rightarrow> 'a part_state_scheme \<Rightarrow> bool" where
  "gpt_inv int13 D s0 s \<longleftrightarrow> readable int13 D s \<and> memo_ok D s \<and> fixed_part s = fixed_part s0 \<and> memo_from s0 s"

text \<open>A routine started in a good state returns, in a good state, with a result that satisfies \<open>Q\<close>.\<close>

definition runs :: "('s \<Rightarrow> bool) \<Rightarrow> ('s, 'b) loader \<Rightarrow> ('b \<Rightarrow> bool) \<Rightarrow> bool" where
  "runs I m Q \<longleftrightarrow> (\<forall>s. I s \<longrightarrow> (\<exists>r s'. m s = Inr (r, s') \<and> I s' \<and> Q r))"

lemma runs_yield: "Q a \<Longrightarrow> runs I (yield a) Q"
  by (simp add: runs_def yield_def)

lemma runs_chain: "runs I m P \<Longrightarrow> (\<And>a. P a \<Longrightarrow> runs I (f a) Q) \<Longrightarrow> runs I (and_then m f) Q"
  unfolding runs_def and_then_def by fastforce

lemma runs_state: "(\<And>s. I s \<Longrightarrow> runs I (m s) Q) \<Longrightarrow> runs I (\<lambda>s. m s s) Q"
  unfolding runs_def by blast

lemma vbytes_first: "first_sect v' = first_sect v \<Longrightarrow> vbytes D v' = vbytes D v"
  by (simp add: vbytes_def volume_byte_def fun_eq_iff)

lemma gpt_valid_first: "first_sect v' = first_sect v \<Longrightarrow> gpt_valid D v' = gpt_valid D v"
  by (simp add: gpt_valid_def vbytes_first [of v' v] fun_eq_iff)

lemma same_volume_inv:
  fixes s s' :: "'a part_state_scheme"
  assumes "gpt_inv int13 D s0 s" "same_volume s s'" "readable int13 D s'"
  shows "gpt_inv int13 D s0 s'"
proof -
  obtain a b c where s': "s' = s\<lparr>cache := a, cache_ready := b, cached_block := c\<rparr>" using assms(2) by (auto simp: same_volume_def)
  have "gpt_valid D s' = gpt_valid D s" by (rule gpt_valid_first) (simp add: s')
  then have "memo_ok D s'" using assms(1) by (simp add: gpt_inv_def memo_ok_def s')
  then show ?thesis using assms(1,3) by (simp add: gpt_inv_def fixed_part_def memo_from_def s')
qed

lemma runs_read: "runs (gpt_inv int13 D s0) (volume_read int13 loc cnt) (\<lambda>r. r = None \<or> r = Some (vbytes D s0 (unat loc) (unat cnt)))"
  unfolding runs_def
proof (intro allI impI)
  fix s
  assume i: "gpt_inv int13 D s0 s"
  then have rd: "readable int13 D s" and v: "vbytes D s = vbytes D s0" by (simp_all add: gpt_inv_def fixed_part_def vbytes_first [of s s0])
  obtain r s' where r: "volume_read int13 loc cnt s = Inr (r, s')" "same_volume s s'" "readable int13 D s'"
      "r = None \<or> r = Some (vbytes D s (unat loc) (unat cnt))" using readable_read [OF rd] by metis
  have "gpt_inv int13 D s0 s'" by (rule same_volume_inv [OF i r(2,3)])
  then show "\<exists>r s'. volume_read int13 loc cnt s = Inr (r, s') \<and> gpt_inv int13 D s0 s' \<and> (r = None \<or> r = Some (vbytes D s0 (unat loc) (unat cnt)))"
    using r(1,4) unfolding v by blast
qed

lemma runs_crc: "runs (gpt_inv int13 D s0) (crc32_volume_range int13 loc cnt crc)
    (\<lambda>r. r = None \<or> r = Some (crc32_update crc (vbytes D s0 (unat loc) (unat cnt))))"
  unfolding runs_def
proof (intro allI impI)
  fix s
  assume i: "gpt_inv int13 D s0 s"
  then have rd: "readable int13 D s" and v: "vbytes D s = vbytes D s0" by (simp_all add: gpt_inv_def fixed_part_def vbytes_first [of s s0])
  obtain r s' where r: "crc32_volume_range int13 loc cnt crc s = Inr (r, s')" "same_volume s s'" "readable int13 D s'"
      "r = None \<or> r = Some (crc32_update crc (vbytes D s (unat loc) (unat cnt)))" using crc32_range_run [OF rd] by blast
  have "gpt_inv int13 D s0 s'" by (rule same_volume_inv [OF i r(2,3)])
  then show "\<exists>r s'. crc32_volume_range int13 loc cnt crc s = Inr (r, s') \<and> gpt_inv int13 D s0 s' \<and>
      (r = None \<or> r = Some (crc32_update crc (vbytes D s0 (unat loc) (unat cnt))))"
    using r(1,4) unfolding v by blast
qed

lemma header_crc_cases: "header_crc int13 header loc = (let z = crc32_update 0xFFFFFFFF (zeroed_crc header) in
    if header_size header > of_nat sizeof_gpt_header then
      (case CHECKED_ADD loc (of_nat sizeof_gpt_header) of None \<Rightarrow> yield None
       | Some tail \<Rightarrow> crc32_volume_range int13 tail (ucast (header_size header - of_nat sizeof_gpt_header)) z)
    else yield (Some z))"
  by (intro ext) (simp add: header_crc_def Let_def zeroed_crc_def yield_def split: option.splits)

lemma runs_header_crc:
  assumes h: "header = vbytes D s0 (unat loc) 92" and n: "92 \<le> unat (header_size header)"
  shows "runs (gpt_inv int13 D s0) (header_crc int13 header loc)
    (\<lambda>r. r = None \<or> r = Some (crc32_update 0xFFFFFFFF (zeroed_crc (vbytes D s0 (unat loc) (unat (header_size header))))))"
proof -
  let ?n = "unat (header_size header)" and ?z = "crc32_update 0xFFFFFFFF (zeroed_crc header)"
  have app: "zeroed_crc (vbytes D s0 (unat loc) ?n) = zeroed_crc header @ vbytes D s0 (unat loc + 92) (?n - 92)"
    using vbytes_append [of D s0 "unat loc" 92 "?n - 92"] n h by (simp add: zeroed_crc_def)
  have u: "unat (of_nat sizeof_gpt_header :: u32) = 92" "unat (of_nat sizeof_gpt_header :: u64) = 92" by (simp_all add: sizeof_gpt_header_def)
  show ?thesis
  proof (cases "header_size header > of_nat sizeof_gpt_header")
    case False
    then have "?n = 92" using n by (simp add: word_less_nat_alt u)
    then have "crc32_update 0xFFFFFFFF (zeroed_crc (vbytes D s0 (unat loc) ?n)) = ?z" using app by (simp add: vbytes_def)
    then show ?thesis using False by (simp add: header_crc_cases Let_def runs_yield)
  next
    case True
    show ?thesis
    proof (cases "CHECKED_ADD loc (of_nat sizeof_gpt_header)")
      case None
      then show ?thesis using True by (simp add: header_crc_cases Let_def runs_yield)
    next
      case (Some tail)
      then have t: "unat tail = unat loc + 92" by (auto simp: checked_Some unat_no_carry u)
      have m: "unat (ucast (header_size header - of_nat sizeof_gpt_header) :: u64) = ?n - 92"
        using n by (simp add: unat_xfer64 unat_sub word_le_nat_alt u)
      have "crc32_update 0xFFFFFFFF (zeroed_crc (vbytes D s0 (unat loc) ?n)) = crc32_update ?z (vbytes D s0 (unat tail) (?n - 92))"
        unfolding app t by (rule crc32_update_append)
      then show ?thesis
        using runs_crc [of int13 D s0 tail "ucast (header_size header - of_nat sizeof_gpt_header)" ?z] True Some m by (simp add: header_crc_cases Let_def)
    qed
  qed
qed


lemma roundup_covers: "0 < l \<Longrightarrow> n \<le> (n + l - 1) div l * (l :: nat)"
proof -
  assume "0 < l"
  have "n + l - 1 = (n + l - 1) div l * l + (n + l - 1) mod l" by simp
  moreover have "(n + l - 1) mod l \<le> l - 1" using \<open>0 < l\<close> by (metis Suc_pred' less_Suc_eq_le mod_less_divisor)
  ultimately show ?thesis using \<open>0 < l\<close> by linarith
qed

lemma array_geometry_Some:
  assumes "array_geometry header lba lb budget v = Some (loc, n)" and lb: "lb \<in> {512, 2048, 4096}"
  shows "unat n = array_bytes header" "0 < array_bytes header" "array_bytes header \<le> 1024 * 1024" "128 \<le> unat (size_of_partition_entry header)"
    "unat loc = unat (partition_entry_lba header) * unat lb"
    "unat (partition_entry_lba header) * unat lb + array_bytes header \<le> unat (first_usable_lba header) * unat lb \<or> last_usable_lba header < partition_entry_lba header"
proof -
  let ?es = "size_of_partition_entry header" and ?a = "partition_entry_lba header"
  have big: "\<not> ?es < of_nat sizeof_gpt_entry" using assms(1) by (auto simp: array_geometry_def Let_def split: if_splits)
  obtain sz where sz: "CHECKED_MUL (ucast (number_of_partition_entries header)) (ucast ?es) = Some sz"
    using assms(1) by (auto simp: array_geometry_def Let_def split: if_splits option.splits)
  then have szn: "unat sz = array_bytes header" by (auto simp: checked_Some unat_no_carry unat_xfer64 array_bytes_def)
  have lim: "\<not> (sz = 0 \<or> sz > GPT_MAX_ARRAY_SIZE \<or> sz > budget)" using assms(1) sz by (auto simp: array_geometry_def Let_def split: if_splits)
  obtain e where e: "CHECKED_ADD ?a ((sz + lb - 1) div lb) = Some e"
    using assms(1) sz by (auto simp: array_geometry_def Let_def split: if_splits option.splits)
  have l: "CHECKED_MUL ?a lb = Some loc" "n = sz"
    and out: "\<not> (?a < first_usable_lba header \<and> e > first_usable_lba header)" "\<not> (\<not> ?a < first_usable_lba header \<and> (?a \<le> last_usable_lba header \<or> e > lba))"
    using assms(1) sz e by (auto simp: array_geometry_def Let_def split: if_splits)
  show "unat n = array_bytes header" using l(2) szn by simp
  show pos: "0 < array_bytes header" using lim szn by (metis gr0I unat_0 word_unat_eq_iff)
  have "unat sz \<le> 1048576" using lim by (simp add: GPT_MAX_ARRAY_SIZE_def word_less_nat_alt)
  then show max: "array_bytes header \<le> 1024 * 1024" using szn by simp
  show "128 \<le> unat ?es" using big by (simp add: sizeof_gpt_entry_def word_less_nat_alt)
  show "unat loc = unat ?a * unat lb" using l(1) by (auto simp: checked_Some unat_no_carry)
  have lbn: "512 \<le> unat lb" "unat lb \<le> 4096" using lb by auto
  have s: "unat (sz + lb) = unat sz + unat lb" using \<open>unat sz \<le> 1048576\<close> lbn by (intro unat_no_carry) simp
  then have "unat (sz + lb - 1) = unat sz + unat lb - 1" using lbn by (simp add: unat_sub word_le_nat_alt)
  then have en: "unat e = unat ?a + (unat sz + unat lb - 1) div unat lb" using e by (auto simp: checked_Some unat_no_carry unat_div)
  have "unat sz \<le> (unat sz + unat lb - 1) div unat lb * unat lb" using lbn by (intro roundup_covers) simp
  then have "unat ?a * unat lb + unat sz \<le> unat e * unat lb" unfolding en by (simp add: distrib_right)
  moreover have "unat e * unat lb \<le> unat (first_usable_lba header) * unat lb" if "?a < first_usable_lba header"
    using out(1) that by (intro mult_le_mono1) (simp add: word_less_nat_alt)
  ultimately have "unat ?a * unat lb + unat sz \<le> unat (first_usable_lba header) * unat lb" if "?a < first_usable_lba header" using that by linarith
  then show "unat ?a * unat lb + array_bytes header \<le> unat (first_usable_lba header) * unat lb \<or> last_usable_lba header < ?a"
    using out(2) szn by (cases "?a < first_usable_lba header") auto
qed

lemma runs_verify:
  assumes lb: "lb \<in> {512, 2048, 4096}" and h: "header = vbytes D s0 (unat lba * unat lb) 92"
  shows "runs (gpt_inv int13 D s0) (gpt_verify_header int13 header lba lb budget) (\<lambda>(ok, left). ok \<longrightarrow> gpt_valid D s0 header lba lb)"
proof (cases "header_signature header \<noteq> efi_part \<or> header_revision header \<noteq> 0x00010000 \<or>
    header_size header < of_nat sizeof_gpt_header \<or> ucast (header_size header) > lb \<or> my_lba header \<noteq> lba \<or> CHECKED_MUL lba lb = None")
  case True
  then show ?thesis by (auto simp: gpt_verify_header_def runs_yield)
next
  case False
  then obtain loc where loc: "CHECKED_MUL lba lb = Some loc" by auto
  then have ul: "unat loc = unat lba * unat lb" by (auto simp: checked_Some unat_no_carry)
  have sz: "92 \<le> unat (header_size header)" "unat (header_size header) \<le> unat lb"
    using False by (simp_all add: sizeof_gpt_header_def word_less_nat_alt unat_xfer64)
  let ?hc = "crc32_update 0xFFFFFFFF (zeroed_crc (vbytes D s0 (unat loc) (unat (header_size header))))"
  have area: "runs (gpt_inv int13 D s0) (\<lambda>v. verify_array int13 header budget (array_geometry header lba lb budget v) v)
       (\<lambda>(ok, left). ok \<longrightarrow> gpt_valid D s0 header lba lb)" (is "runs _ _ ?Q") if crc: "header_crc32 header = NOT ?hc"
  proof (rule runs_state [of "gpt_inv int13 D s0" "\<lambda>v. verify_array int13 header budget (array_geometry header lba lb budget v)"])
    fix s
    show "runs (gpt_inv int13 D s0) (verify_array int13 header budget (array_geometry header lba lb budget s)) ?Q"
    proof (cases "array_geometry header lba lb budget s")
      case None
      then show ?thesis by (simp add: verify_array_def runs_yield)
    next
      case (Some p)
      obtain al n where p: "p = (al, n)" by (cases p)
      note g = array_geometry_Some [OF Some [unfolded p] lb]
      have "gpt_valid D s0 header lba lb"
        if "NOT (crc32_update 0xFFFFFFFF (vbytes D s0 (unat al) (unat n))) = partition_entry_array_crc32 header"
        unfolding gpt_valid_def using lb h False sz crc [unfolded ul] g that [unfolded g(1,5), symmetric] by blast
      then have "runs (gpt_inv int13 D s0) (and_then (crc32_volume_range int13 al n 0xFFFFFFFF)
          (\<lambda>crc. yield (crc \<noteq> None \<and> NOT (the crc) = partition_entry_array_crc32 header, budget - n))) ?Q"
        by (intro runs_chain [OF runs_crc] runs_yield) auto
      then show ?thesis using Some p by (simp add: verify_array_def)
    qed
  qed
  have "runs (gpt_inv int13 D s0) (and_then (header_crc int13 header loc) (\<lambda>crc.
          if crc = None \<or> NOT (the crc) \<noteq> header_crc32 header then yield (False, budget)
          else (\<lambda>v. verify_array int13 header budget (array_geometry header lba lb budget v) v)))
     (\<lambda>(ok, left). ok \<longrightarrow> gpt_valid D s0 header lba lb)"
  proof (rule runs_chain)
    show "runs (gpt_inv int13 D s0) (header_crc int13 header loc) (\<lambda>r. r = None \<or> r = Some ?hc)"
      using h unfolding ul [symmetric] by (rule runs_header_crc [OF _ sz(1)])
    fix crc
    assume "crc = None \<or> crc = Some ?hc"
    then show "runs (gpt_inv int13 D s0) (if crc = None \<or> NOT (the crc) \<noteq> header_crc32 header then yield (False, budget)
          else (\<lambda>v. verify_array int13 header budget (array_geometry header lba lb budget v) v)) (\<lambda>(ok, left). ok \<longrightarrow> gpt_valid D s0 header lba lb)"
      using area by (cases "crc = None \<or> NOT (the crc) \<noteq> header_crc32 header") (simp only: if_True if_False runs_yield case_prod_conv simp_thms, auto)
  qed
  then show ?thesis using False loc by (simp add: gpt_verify_header_def)
qed


lemma readable_memos:
  "readable int13 D (s\<lparr>the_gpt_memo := m\<rparr>) = readable int13 D s" "readable int13 D (s\<lparr>the_none_memo := m'\<rparr>) = readable int13 D s"
  by (simp_all add: readable_def geometry_ok_def cache_ok_def disk_has_def block_bytes_def sector_bytes_def units_def within_def volume_byte_def)

lemma inv_store: "gpt_inv int13 D s0 s \<Longrightarrow> gpt_valid D s0 header lba lb \<Longrightarrow> gpt_inv int13 D s0 (gpt_memo_store header lba lb s)"
  using gpt_valid_first [of "gpt_memo_store header lba lb s" s0 D]
  by (simp add: gpt_inv_def fixed_part_def memo_from_def gpt_memo_store_def readable_memos memo_ok_def)

lemma inv_none_store: "gpt_inv int13 D s0 s \<Longrightarrow> gpt_inv int13 D s0 (s\<lparr>the_none_memo := m\<rparr>)"
  using gpt_valid_first [of "s\<lparr>the_none_memo := m\<rparr>" s D] by (simp add: gpt_inv_def fixed_part_def memo_from_def readable_memos memo_ok_def)

lemma runs_step: "(\<And>s. I s \<Longrightarrow> I (f s)) \<Longrightarrow> Q a \<Longrightarrow> runs I (\<lambda>s. Inr (a, f s)) Q"
  by (auto simp: runs_def)

lemma runs_try_header:
  assumes "lb \<in> {512, 2048, 4096}" "header = vbytes D s0 (unat lba * unat lb) 92"
  shows "runs (gpt_inv int13 D s0) (try_header int13 lba lb header budget) (\<lambda>(ok, left). ok \<longrightarrow> gpt_valid D s0 header lba lb)"
  unfolding try_header_def
proof (rule runs_chain [OF runs_verify [OF assms]])
  fix a :: "bool \<times> u64"
  assume a: "case a of (ok, left) \<Rightarrow> ok \<longrightarrow> gpt_valid D s0 header lba lb"
  obtain ok left where p: "a = (ok, left)" by (cases a)
  have "gpt_inv int13 D s0 (if ok then gpt_memo_store header lba lb s else s)" if "gpt_inv int13 D s0 s" for s
    using inv_store [OF that] a that p by simp
  then show "runs (gpt_inv int13 D s0) (case a of (ok, budget') \<Rightarrow> \<lambda>s. Inr ((ok, budget'), if ok then gpt_memo_store header lba lb s else s))
      (\<lambda>(ok, left). ok \<longrightarrow> gpt_valid D s0 header lba lb)"
    unfolding p case_prod_conv by (rule runs_step) (use a [unfolded p] in simp_all)
qed

lemma unat_header_cnt [simp]: "unat header_cnt = 92"
  by (simp add: header_cnt_def sizeof_gpt_header_def)

lemma runs_candidates:
  assumes "lb \<in> {512, 2048, 4096}"
  shows "runs (gpt_inv int13 D s0) (try_candidates int13 lb lbas budget) (\<lambda>(r, left). \<forall>h. r = Some h \<longrightarrow> (\<exists>lba. gpt_valid D s0 h lba lb))"
proof (induction lbas arbitrary: budget)
  case Nil
  then show ?case by (simp add: runs_yield)
next
  case (Cons lba lbas)
  show ?case
  proof (cases "CHECKED_MUL lba lb")
    case None
    then show ?thesis using Cons by simp
  next
    case (Some loc)
    then have ul: "unat loc = unat lba * unat lb" by (auto simp: checked_Some unat_no_carry)
    have one: "runs (gpt_inv int13 D s0) (and_then (try_header int13 lba lb header budget) (\<lambda>(ok, budget').
            if ok then yield (Some header, budget') else try_candidates int13 lb lbas budget'))
        (\<lambda>(r, left). \<forall>h. r = Some h \<longrightarrow> (\<exists>lba. gpt_valid D s0 h lba lb))" if "header = vbytes D s0 (unat loc) 92" for header
      by (rule runs_chain [OF runs_try_header [OF assms that [unfolded ul]]]) (use Cons in \<open>auto intro!: runs_yield split: if_splits\<close>)
    have "runs (gpt_inv int13 D s0) (and_then (volume_read int13 loc header_cnt) (\<lambda>h. case h of
          None \<Rightarrow> try_candidates int13 lb lbas budget
        | Some header \<Rightarrow> and_then (try_header int13 lba lb header budget) (\<lambda>(ok, budget').
            if ok then yield (Some header, budget') else try_candidates int13 lb lbas budget')))
        (\<lambda>(r, left). \<forall>h. r = Some h \<longrightarrow> (\<exists>lba. gpt_valid D s0 h lba lb))"
      by (rule runs_chain [OF runs_read]) (use one Cons in auto)
    then show ?thesis using Some by simp
  qed
qed

lemma runs_guesses:
  fixes s0 :: "'a part_state_scheme"
  assumes "set guesses \<subseteq> {512, 2048, 4096}"
  shows "runs (gpt_inv int13 D s0) (try_guesses int13 guesses budget) (\<lambda>r. \<forall>h lb. r = Some (h, lb) \<longrightarrow> (\<exists>lba. gpt_valid D s0 h lba lb))"
  using assms
proof (induction guesses arbitrary: budget)
  case Nil
  then show ?case by (simp add: runs_yield)
next
  case (Cons g guesses)
  let ?Q = "\<lambda>r. \<forall>h lb. r = Some (h, lb) \<longrightarrow> (\<exists>lba. gpt_valid D s0 h lba lb)"
  have g: "g \<in> {512, 2048, 4096}" using Cons(2) by simp
  have rest: "runs (gpt_inv int13 D s0) (try_guesses int13 guesses b) ?Q" for b using Cons by simp
  have alt: "runs (gpt_inv int13 D s0) (and_then (try_candidates int13 g lbas b) (\<lambda>(found, b').
      case found of Some header \<Rightarrow> yield (Some (header, g)) | None \<Rightarrow> try_guesses int13 guesses b')) ?Q" for lbas b
    by (rule runs_chain [OF runs_candidates [OF g]]) (auto intro!: runs_yield rest split: option.splits)
  show ?case unfolding try_guesses.simps
  proof (rule runs_chain [OF runs_read])
    fix primary
    assume pr: "primary = None \<or> primary = Some (vbytes D s0 (unat (g * 1)) (unat header_cnt))"
    have "runs (gpt_inv int13 D s0) (case primary of None \<Rightarrow> yield (False, budget) | Some header \<Rightarrow> try_header int13 1 g header budget)
        (\<lambda>(ok, left). ok \<longrightarrow> gpt_valid D s0 (the primary) 1 g)"
      using pr runs_try_header [OF g, of "the primary" D s0 1] by (auto intro: runs_yield)
    then show "runs (gpt_inv int13 D s0) (and_then (case primary of None \<Rightarrow> yield (False, budget) | Some header \<Rightarrow> try_header int13 1 g header budget) (\<lambda>(ok, budget') s.
       if ok then Inr (Some (the primary, g), s)
       else and_then (try_candidates int13 g (alternate_candidates (sect_count s) g primary) budget') (\<lambda>(found, budget'').
              case found of Some header \<Rightarrow> yield (Some (header, g)) | None \<Rightarrow> try_guesses int13 guesses budget'') s)) ?Q"
    proof (rule runs_chain)
      fix a :: "bool \<times> u64"
      assume a: "case a of (ok, left) \<Rightarrow> ok \<longrightarrow> gpt_valid D s0 (the primary) 1 g"
      obtain ok b where p: "a = (ok, b)" by (cases a)
      define k where "k s = (if ok then yield (Some (the primary, g))
          else and_then (try_candidates int13 g (alternate_candidates (sect_count s) g primary) b) (\<lambda>(found, budget'').
              case found of Some header \<Rightarrow> yield (Some (header, g)) | None \<Rightarrow> try_guesses int13 guesses budget'') :: ('a part_state_scheme, (u8 list \<times> u64) option) loader)" for s :: "'a part_state_scheme"
      have "runs (gpt_inv int13 D s0) (\<lambda>s. k s s) ?Q"
        by (rule runs_state [of "gpt_inv int13 D s0" k]) (use a p alt in \<open>auto simp: k_def intro: runs_yield\<close>)
      then show "runs (gpt_inv int13 D s0) (case a of (ok, budget') \<Rightarrow> \<lambda>s. if ok then Inr (Some (the primary, g), s)
          else and_then (try_candidates int13 g (alternate_candidates (sect_count s) g primary) budget') (\<lambda>(found, budget'').
              case found of Some header \<Rightarrow> yield (Some (header, g)) | None \<Rightarrow> try_guesses int13 guesses budget'') s) ?Q"
        unfolding p case_prod_conv k_def by (cases ok) (simp_all add: yield_def)
    qed
  qed
qed


lemma runs_memo_hit: "runs (gpt_inv int13 D s0) (gpt_memo_hit int13) (\<lambda>r. \<forall>h lb. r = Some (h, lb) \<longrightarrow> (\<exists>lba. gpt_valid D s0 h lba lb))"
proof -
  let ?Q = "\<lambda>r. \<forall>h lb. r = Some (h, lb) \<longrightarrow> (\<exists>lba. gpt_valid D s0 h lba lb)"
  have "\<exists>r s'. gpt_memo_hit int13 s = Inr (r, s') \<and> gpt_inv int13 D s0 s' \<and> ?Q r" if i: "gpt_inv int13 D s0 s" for s
  proof (cases "\<exists>m loc. the_gpt_memo s = Some m \<and> memo_volume m = volume_addr s \<and> CHECKED_MUL (memo_lba m) (memo_lb_size m) = Some loc")
    case False
    then have "gpt_memo_hit int13 s = Inr (None, s)" by (auto simp: gpt_memo_hit_def split: option.splits)
    then show ?thesis using i by simp
  next
    case True
    then obtain m loc where m: "the_gpt_memo s = Some m" "memo_volume m = volume_addr s" "CHECKED_MUL (memo_lba m) (memo_lb_size m) = Some loc" by blast
    have "gpt_valid D s = gpt_valid D s0" by (rule gpt_valid_first) (use i in \<open>simp add: gpt_inv_def fixed_part_def\<close>)
    then have v: "gpt_valid D s0 (memo_header m) (memo_lba m) (memo_lb_size m)" using i m by (simp add: gpt_inv_def memo_ok_def)
    have "runs (gpt_inv int13 D s0) (and_then (volume_read int13 loc header_cnt)
        (\<lambda>fresh. yield (if fresh = Some (memo_header m) then Some (memo_header m, memo_lb_size m) else None))) ?Q"
      by (rule runs_chain [OF runs_read]) (use v in \<open>auto intro!: runs_yield\<close>)
    then show ?thesis using i m unfolding runs_def by (simp add: gpt_memo_hit_def)
  qed
  then show ?thesis unfolding runs_def by blast
qed

lemma runs_none_hit: "runs (gpt_inv int13 D s0) (gpt_memo_none_hit int13) (\<lambda>_. True)"
proof -
  have "runs (gpt_inv int13 D s0) (and_then (volume_read int13 512 header_cnt) (\<lambda>fresh. yield (f fresh))) (\<lambda>_. True)" for f :: "u8 list option \<Rightarrow> bool"
    by (rule runs_chain [OF runs_read]) (simp add: runs_yield)
  then show ?thesis by (auto simp: runs_def gpt_memo_none_hit_def split: option.splits)
qed

lemma runs_none_store: "runs (gpt_inv int13 D s0) (gpt_memo_none_store int13) (\<lambda>_. True)"
  unfolding gpt_memo_none_store_def by (rule runs_chain [OF runs_read]) (auto intro: runs_step inv_none_store)

lemma runs_protective: "runs (gpt_inv int13 D s0) (gpt_protective_mbr int13) (\<lambda>_. True)"
proof -
  have "runs (gpt_inv int13 D s0) (gpt_protective_mbr_from int13 is) (\<lambda>_. True)" for "is"
  proof (induction "is")
    case (Cons i "is")
    then show ?case unfolding gpt_protective_mbr_from.simps by (intro runs_chain [OF runs_read]) (simp add: runs_yield)
  qed (simp add: runs_yield)
  then show ?thesis by (simp only: gpt_protective_mbr_def)
qed

lemma runs_locate: "runs (gpt_inv int13 D s0) (gpt_locate_header int13) (\<lambda>r. \<forall>h lb. r = Some (h, lb) \<longrightarrow> (\<exists>lba. gpt_valid D s0 h lba lb))" (is "runs _ _ ?Q")
proof -
  have store: "runs (gpt_inv int13 D s0) (and_then (gpt_memo_none_store int13) (\<lambda>_. yield None)) ?Q"
    by (rule runs_chain [OF runs_none_store]) (simp add: runs_yield)
  have search: "runs (gpt_inv int13 D s0) (and_then (try_guesses int13 [512, 2048, 4096] (GPT_MAX_ARRAY_SIZE * 2)) (\<lambda>found. case found of
             Some h \<Rightarrow> yield (Some h) | None \<Rightarrow> and_then (gpt_memo_none_store int13) (\<lambda>_. yield None))) ?Q"
    by (rule runs_chain [OF runs_guesses]) (use store in \<open>auto intro!: runs_yield split: option.splits\<close>)
  show ?thesis unfolding gpt_locate_header_def
  proof (rule runs_chain [OF runs_memo_hit])
    fix hit :: "(u8 list \<times> u64) option"
    assume h: "?Q hit"
    show "runs (gpt_inv int13 D s0) (case hit of Some h \<Rightarrow> yield (Some h)
     | None \<Rightarrow> and_then (gpt_memo_none_hit int13) (\<lambda>none.
         if none then yield None
         else and_then (gpt_protective_mbr int13) (\<lambda>protective.
           if \<not> protective then yield None
           else and_then (try_guesses int13 [512, 2048, 4096] (GPT_MAX_ARRAY_SIZE * 2)) (\<lambda>found. case found of
             Some h \<Rightarrow> yield (Some h)
           | None \<Rightarrow> and_then (gpt_memo_none_store int13) (\<lambda>_. yield None))))) ?Q"
    proof (cases hit)
      case None
      then show ?thesis using search by (auto intro!: runs_chain [OF runs_none_hit] runs_chain [OF runs_protective] runs_yield)
    next
      case (Some x)
      then show ?thesis using h by (auto intro!: runs_yield)
    qed
  qed
qed

text \<open>Property C13: the search for a partition table always returns, and a header that it reports, fresh or remembered, passes the
  checks that the UEFI specification asks for: it carries the signature, lies in the block that it names, its checksum is that of the
  header bytes on the disk, and the checksum of the entry array is that of the array on the disk, which is not empty, of limited size and outside the
  usable range. The memos and the block cache stay right.\<close>

theorem gpt_locate_sound:
  assumes "readable int13 D s" and "memo_ok D s"
  shows "\<exists>r s'. gpt_locate_header int13 s = Inr (r, s') \<and> readable int13 D s' \<and> memo_ok D s' \<and> fixed_part s' = fixed_part s \<and>
    (\<forall>h lb. r = Some (h, lb) \<longrightarrow> (\<exists>lba. gpt_valid D s h lba lb))"
proof -
  have "gpt_inv int13 D s s" using assms by (simp add: gpt_inv_def memo_from_def)
  then obtain r s' where "gpt_locate_header int13 s = Inr (r, s')" "gpt_inv int13 D s s'" "\<forall>h lb. r = Some (h, lb) \<longrightarrow> (\<exists>lba. gpt_valid D s h lba lb)"
    using runs_locate [of int13 D s] unfolding runs_def by meson
  then show ?thesis by (auto simp: gpt_inv_def)
qed

text \<open>A disk of zeros, as a concrete device.\<close>

definition sample_disk :: bios_disk where
  "sample_disk d lba n = Some (replicate (n * 512) 0)"

definition sample_volume :: volume where
  "sample_volume = \<lparr>drive = 128, fastest_xfer_size = 8, vol_index = 1, is_optical = False, pxe = False, vol_partition = 0,
     sector_size = 512, backing_dev = 0, max_partition = 0, cache_ready = False, cache = None, cached_block = 0, ebr_walk_index = 0,
     ebr_walk_sector = 0, ebr_walk_size = 0, first_sect = 0, sect_count = 4096, vol_guid = None, part_guid = None, part_type_guid = None, fslabel = None\<rparr>"

definition sample_state :: part_state where
  "sample_state = volume.extend sample_volume (part_state.fields 4096 None None None)"

lemma sample_ok: "readable sample_disk (\<lambda>_. 0) sample_state" "memo_ok D sample_state"
  by (simp_all add: sample_state_def sample_volume_def part_state.defs volume.defs readable_def geometry_ok_def cache_ok_def disk_has_def block_bytes_def
      sector_bytes_def units_def sample_disk_def memo_ok_def map_replicate_const)

theorem gpt_locate_sound_witness: "\<exists>r s'. gpt_locate_header sample_disk sample_state = Inr (r, s') \<and> readable sample_disk (\<lambda>_. 0) s'"
  using gpt_locate_sound [OF sample_ok] by auto


section \<open>Partitions lie on the device\<close>

text \<open>A probe for a file system only reads the volume it is given.\<close>

definition probe_ok :: "fs_probe \<Rightarrow> bool" where
  "probe_ok fs \<longleftrightarrow> (\<forall>v. transfer_ok v \<longrightarrow> (\<exists>g v'. fs_get_guid fs v = Inr (g, v') \<and> same_volume v v') \<and>
     (\<exists>l v'. fs_get_label fs v = Inr (l, v') \<and> same_volume v v'))"

text \<open>A partition of a device: not empty, inside the device, and read the way the device is read.\<close>

definition partition_of :: "'a part_state_scheme \<Rightarrow> volume \<Rightarrow> bool" where
  "partition_of s p \<longleftrightarrow> 0 < unat (sect_count p) \<and> unat (first_sect p) + unat (sect_count p) \<le> unat (sect_count s) \<and>
     (drive p, fastest_xfer_size p, vol_index p, is_optical p, sector_size p) = (drive s, fastest_xfer_size s, vol_index s, is_optical s, sector_size s) \<and>
     backing_dev p = volume_addr s"

definition found_ok :: "'a part_state_scheme \<Rightarrow> int + volume \<Rightarrow> bool" where
  "found_ok s r \<longleftrightarrow> (case r of Inl e \<Rightarrow> e \<in> {NO_PARTITION, INVALID_TABLE, END_OF_TABLE} | Inr p \<Rightarrow> partition_of s p)"

lemma partition_range: "partition_range_valid v f n \<Longrightarrow> sect_count v \<noteq> - 1 \<Longrightarrow> 0 < unat n \<and> unat f + unat n \<le> unat (sect_count v)"
  by (auto simp: partition_range_valid_def checked_Some unat_no_carry word_le_nat_alt word_less_nat_alt unat_gt_0 split: if_splits option.splits)

lemma partition_same: "same_volume p p' \<Longrightarrow> partition_of s p' = partition_of s p"
proof -
  assume "same_volume p p'"
  then obtain a b c where p': "p' = p\<lparr>cache := a, cache_ready := b, cached_block := c\<rparr>" by (auto simp: same_volume_def)
  show ?thesis by (simp add: p' partition_of_def)
qed

lemma probe_partition:
  assumes "probe_ok fs" "partition_of s ret" "transfer_ok ret"
  shows "\<exists>p. probe_fs fs pg tg ret = Inr p \<and> partition_of s p"
proof -
  obtain g r1 where g: "fs_get_guid fs ret = Inr (g, r1)" "same_volume ret r1" using assms(1,3) by (auto simp: probe_ok_def)
  let ?r = "r1\<lparr>vol_guid := g\<rparr>"
  have "transfer_ok r1" using same_volume_transfer [OF g(2)] assms(3) by simp
  then have "transfer_ok ?r" by (simp add: transfer_ok_def block_bytes_def sector_bytes_def)
  then obtain l r2 where l: "fs_get_label fs ?r = Inr (l, r2)" "same_volume ?r r2" using assms(1) unfolding probe_ok_def by blast
  have "partition_of s r1" using assms(2) by (simp add: partition_same [OF g(2)])
  then have "partition_of s ?r" by (simp add: partition_of_def)
  then have "partition_of s r2" by (simp add: partition_same [OF l(2)])
  moreover have "probe_fs fs pg tg ret = Inr (r2\<lparr>fslabel := l, part_guid := pg, part_type_guid := tg\<rparr>)"
    using g(1) l(1) by (simp add: probe_fs_def and_then_def)
  ultimately show ?thesis by (simp add: partition_of_def)
qed

lemma readable_transfer: "readable int13 D v \<Longrightarrow> transfer_ok v"
  by (simp add: readable_def geometry_ok_def transfer_ok_def)

lemma new_partition_ok:
  assumes "transfer_ok s" "\<not> pxe ret" "partition_range_valid s f n" "sect_count s \<noteq> - 1"
  shows "partition_of s (new_partition s (volume_addr s) k f n ret)" "transfer_ok (new_partition s (volume_addr s) k f n ret)"
  using assms partition_range [OF assms(3,4)]
  by (simp_all add: partition_of_def new_partition_def transfer_ok_def block_bytes_def sector_bytes_def)

lemma runs_get_part:
  assumes fs: "probe_ok fs" and ret: "\<not> pxe ret"
  shows "runs (gpt_inv int13 D s0) (gpt_get_part int13 fs pno ret) (found_ok s0)"
proof -
  have err [simp]: "runs (gpt_inv int13 D s0) (yield (Inl e)) (found_ok s0)" if "e \<in> {NO_PARTITION, INVALID_TABLE, END_OF_TABLE}" for e
    using that by (intro runs_yield) (simp add: found_ok_def)
  have part: "runs (gpt_inv int13 D s0) (gpt_entry_part fs pno ret lb entry) (found_ok s0)" for lb entry
    unfolding runs_def
  proof (intro allI impI)
    fix s
    assume i: "gpt_inv int13 D s0 s"
    then have t: "transfer_ok s" "sect_count s \<noteq> - 1" by (auto simp: gpt_inv_def readable_def intro: readable_transfer)
    have eq: "partition_of s = partition_of s0" using i by (simp add: fun_eq_iff partition_of_def gpt_inv_def fixed_part_def)
    show "\<exists>r s'. gpt_entry_part fs pno ret lb entry s = Inr (r, s') \<and> gpt_inv int13 D s0 s' \<and> found_ok s0 r"
    proof (cases "\<exists>f k. gpt_entry_range entry lb = Some (f, k) \<and> partition_range_valid s f k")
      case False
      then have "gpt_entry_part fs pno ret lb entry s = Inr (Inl NO_PARTITION, s)" by (auto simp: gpt_entry_part_def split: option.splits)
      then show ?thesis using i by (simp add: found_ok_def)
    next
      case True
      then obtain f k where f: "gpt_entry_range entry lb = Some (f, k)" "partition_range_valid s f k" by blast
      obtain p where "probe_fs fs (Some (entry_unique_guid entry)) (Some (entry_type_guid entry)) (new_partition s (volume_addr s) (pno + 1) f k ret) = Inr p"
          "partition_of s0 p"
        using probe_partition [OF fs new_partition_ok [OF t(1) ret f(2) t(2)]] unfolding eq by blast
      then show ?thesis using f i by (simp add: gpt_entry_part_def found_ok_def)
    qed
  qed
  have entry: "runs (gpt_inv int13 D s0) (and_then (volume_read int13 off n) (\<lambda>e. case e of
      None \<Rightarrow> yield (Inl END_OF_TABLE) | Some entry \<Rightarrow> gpt_entry_part fs pno ret lb entry)) (found_ok s0)" for off n lb
    by (rule runs_chain [OF runs_read]) (auto simp: part split: option.splits)
  show ?thesis unfolding gpt_get_part_def
    by (rule runs_chain [OF runs_locate]) (auto simp: Let_def entry split: option.splits)
qed

end
