(* ===== verification/LoaderMbr.thy ===== *)
theory LoaderMbr
  imports LoaderGpt
begin

text \<open>
  Partition tables of the older kind in the boot loader, the last part of \<^verbatim>\<open>limine/common/lib/part.s2.c\<close>: the master boot record,
  the chain of extended boot records with its memo, \<open>part_get\<close>, which tries both kinds of tables, and the searches among the known volumes.
  The routines for the chain work on the volume of the extended partition, which the device keeps in \<open>ebr_part\<close>.
\<close>

section \<open>Entries\<close>

record mbr_part =
  mbr_type :: u8
  mbr_first :: u64
  mbr_count :: u64

definition mbr_read_entry :: "bios_disk \<Rightarrow> u64 \<Rightarrow> ('a volume_scheme, mbr_part option) loader" where
  "mbr_read_entry int13 offset =
     and_then (volume_read int13 offset 16) (\<lambda>e v.
       let mult = (if is_optical v then 1 else of_int (sector_size v) div 512)
       in Inr (map_option (\<lambda>b. \<lparr>mbr_type = b ! 4, mbr_first = ucast (field32 8 b) * mult, mbr_count = ucast (field32 12 b) * mult\<rparr>) e, v))"

text \<open>A sequence of reads, each with a test of what was read; the first failure ends it.\<close>

primrec all_reads :: "bios_disk \<Rightarrow> (u64 \<times> u64 \<times> (u8 list \<Rightarrow> bool)) list \<Rightarrow> ('a volume_scheme, bool) loader" where
  "all_reads int13 [] = yield True"
| "all_reads int13 (c # cs) =
     (case c of (loc, n, P) \<Rightarrow> and_then (volume_read int13 loc n) (\<lambda>b. case b of
        None \<Rightarrow> yield False
      | Some x \<Rightarrow> if P x then all_reads int13 cs else yield False))"

definition is_valid_mbr :: "bios_disk \<Rightarrow> ('a volume_scheme, bool) loader" where
  "is_valid_mbr int13 = all_reads int13
     [(510, 2, \<lambda>b. b = [0x55, 0xAA]),
      (446, 1, \<lambda>b. b = [0x00] \<or> b = [0x80]),
      (462, 1, \<lambda>b. b = [0x00] \<or> b = [0x80]),
      (478, 1, \<lambda>b. b = [0x00] \<or> b = [0x80]),
      (494, 1, \<lambda>b. b = [0x00] \<or> b = [0x80]),
      (3, 4, \<lambda>b. b \<noteq> [0x4E, 0x54, 0x46, 0x53]),
      (54, 3, \<lambda>b. b \<noteq> [0x46, 0x41, 0x54]),
      (82, 3, \<lambda>b. b \<noteq> [0x46, 0x41, 0x54]),
      (3, 5, \<lambda>b. b \<noteq> [0x46, 0x41, 0x54, 0x33, 0x32]),
      (1080, 2, \<lambda>b. b \<noteq> [0x53, 0xEF])]"

definition mbr_get_id :: "bios_disk \<Rightarrow> ('a volume_scheme, u32) loader" where
  "mbr_get_id int13 = and_then (is_valid_mbr int13) (\<lambda>ok.
     if \<not> ok then yield 0
     else and_then (volume_read int13 0x1B8 4) (\<lambda>b. yield (case b of None \<Rightarrow> 0 | Some x \<Rightarrow> field32 0 x)))"

section \<open>Logical partitions\<close>

definition MAX_LOGICAL_PARTITIONS :: nat where "MAX_LOGICAL_PARTITIONS = 256"

definition mbr_extended :: "mbr_part \<Rightarrow> bool" where
  "mbr_extended entry \<longleftrightarrow> mbr_type entry = 0x0F \<or> mbr_type entry = 0x05 \<or> mbr_type entry = 0x85"

text \<open>The first sector of a logical partition that lies inside the extended one and inside the device.\<close>

definition mbr_logical_entry_contained :: "'b volume_scheme \<Rightarrow> 'a volume_scheme \<Rightarrow> u64 \<Rightarrow> mbr_part \<Rightarrow> u64 option" where
  "mbr_logical_entry_contained dev ext ebr_sector entry =
     (case CHECKED_ADD ebr_sector (mbr_first entry) of
        None \<Rightarrow> None
      | Some rel_first \<Rightarrow>
          if \<not> partition_range_valid ext rel_first (mbr_count entry) then None
          else case CHECKED_ADD (first_sect ext) rel_first of
                 None \<Rightarrow> None
               | Some first \<Rightarrow> if partition_range_valid dev first (mbr_count entry) then Some first else None)"

text \<open>How the loop over the four entries of a record ends: with an error, with the wanted partition, or with the count of partitions so far and the link.\<close>

datatype ebr_scan = Scan_return int | Scan_found u64 u64 | Scan_next int "(u64 \<times> u64) option"

primrec scan_entries :: "bios_disk \<Rightarrow> 'b volume_scheme \<Rightarrow> int \<Rightarrow> u64 \<Rightarrow> u64 \<Rightarrow> nat list \<Rightarrow> int \<Rightarrow> (u64 \<times> u64) option \<Rightarrow> (volume, ebr_scan) loader" where
  "scan_entries int13 dev pno ebr_sector ebr_size [] accepted link = yield (Scan_next accepted link)"
| "scan_entries int13 dev pno ebr_sector ebr_size (i # is) accepted link =
     and_then (mbr_read_entry int13 (ebr_sector * 512 + 0x1BE + 16 * of_nat i)) (\<lambda>e. case e of
       None \<Rightarrow> yield (Scan_return END_OF_TABLE)
     | Some entry \<Rightarrow>
         if mbr_extended entry then
           scan_entries int13 dev pno ebr_sector ebr_size is accepted
             (if link = None \<and> mbr_count entry \<noteq> 0 then Some (mbr_first entry, mbr_count entry) else link)
         else if mbr_count entry = 0 then scan_entries int13 dev pno ebr_sector ebr_size is accepted link
         else (\<lambda>ext.
           let contained = mbr_logical_entry_contained dev ext ebr_sector entry;
               within_link = (mbr_first entry + mbr_count entry \<le> ebr_size)
           in (if i \<ge> 2 \<and> (contained = None \<or> \<not> within_link) then scan_entries int13 dev pno ebr_sector ebr_size is accepted link
               else if accepted = pno then
                 yield (case contained of None \<Rightarrow> Scan_return NO_PARTITION | Some first \<Rightarrow> Scan_found first (mbr_count entry))
               else scan_entries int13 dev pno ebr_sector ebr_size is (accepted + 1) link) ext))"

definition ebr_memo :: "int \<Rightarrow> u64 \<Rightarrow> u64 \<Rightarrow> (volume, unit) loader" where
  "ebr_memo accepted ebr_sector ebr_size ext =
     Inr ((), ext\<lparr>ebr_walk_index := accepted, ebr_walk_sector := ebr_sector, ebr_walk_size := ebr_size\<rparr>)"

text \<open>The walk along the chain, for at most the given number of links: the first sector and the size of the wanted partition.\<close>

primrec walk_ebr :: "bios_disk \<Rightarrow> 'b volume_scheme \<Rightarrow> int \<Rightarrow> nat \<Rightarrow> int \<Rightarrow> u64 \<Rightarrow> u64 \<Rightarrow> (volume, int + u64 \<times> u64) loader" where
  "walk_ebr int13 dev pno 0 accepted ebr_sector ebr_size = yield (Inl END_OF_TABLE)"
| "walk_ebr int13 dev pno (Suc links) accepted ebr_sector ebr_size =
     and_then (ebr_memo accepted ebr_sector ebr_size) (\<lambda>_.
     and_then (volume_read int13 (ebr_sector * 512 + 510) 2) (\<lambda>signature.
       if signature \<noteq> Some [0x55, 0xAA] then yield (Inl END_OF_TABLE)
       else and_then (scan_entries int13 dev pno ebr_sector ebr_size [0, 1, 2, 3] accepted None) (\<lambda>scan. case scan of
         Scan_return e \<Rightarrow> yield (Inl e)
       | Scan_found first n \<Rightarrow> yield (Inr (first, n))
       | Scan_next accepted' None \<Rightarrow> yield (Inl END_OF_TABLE)
       | Scan_next accepted' (Some (link_first, link_count)) \<Rightarrow> (\<lambda>ext.
           if link_first = 0 \<or> link_first \<le> ebr_sector then Inr (Inl END_OF_TABLE, ext)
           else if link_first \<ge> sect_count ext then Inr (Inl END_OF_TABLE, ext)
           else walk_ebr int13 dev pno links accepted' link_first link_count ext))))"

text \<open>Where the walk for a partition starts: at the memo unless it lies behind it.\<close>

definition ebr_start :: "int \<Rightarrow> volume \<Rightarrow> int \<times> u64 \<times> u64" where
  "ebr_start pno ext =
     (if ebr_walk_index ext \<le> pno then (ebr_walk_index ext, ebr_walk_sector ext, ebr_walk_size ext) else (0, 0, sect_count ext))"

definition mbr_get_logical_part :: "bios_disk \<Rightarrow> fs_probe \<Rightarrow> 'b volume_scheme \<Rightarrow> int \<Rightarrow> volume \<Rightarrow> (volume, int + volume) loader" where
  "mbr_get_logical_part int13 fs dev pno ret ext =
     (if pno \<ge> int MAX_LOGICAL_PARTITIONS then Inr (Inl END_OF_TABLE, ext)
      else case ebr_start pno ext of (accepted, ebr_sector, ebr_size) \<Rightarrow>
        and_then (walk_ebr int13 dev pno MAX_LOGICAL_PARTITIONS accepted ebr_sector ebr_size) (\<lambda>r. case r of
          Inl e \<Rightarrow> yield (Inl e)
        | Inr (first, n) \<Rightarrow> (\<lambda>ext1.
            case probe_fs fs None None (new_partition ext1 (backing_dev ext1) (pno + 4 + 1) first n ret) of
              Inl msg \<Rightarrow> Inl msg
            | Inr part \<Rightarrow> Inr (Inr part, ext1))) ext)"

section \<open>The table of a device\<close>

text \<open>A volume as the allocator returns it.\<close>

definition zero_volume :: volume where
  "zero_volume = \<lparr>drive = 0, fastest_xfer_size = 0, vol_index = 0, is_optical = False, pxe = False, vol_partition = 0,
     sector_size = 0, backing_dev = 0, max_partition = 0, cache_ready = False, cache = None, cached_block = 0, ebr_walk_index = 0,
     ebr_walk_sector = 0, ebr_walk_size = 0, first_sect = 0, sect_count = 0, vol_guid = None, part_guid = None, part_type_guid = None, fslabel = None\<rparr>"

primrec find_extended :: "bios_disk \<Rightarrow> nat list \<Rightarrow> ('a part_state_scheme, volume option) loader" where
  "find_extended int13 [] = yield None"
| "find_extended int13 (i # is) =
     and_then (mbr_read_entry int13 (0x1BE + 16 * of_nat i)) (\<lambda>e s.
       (case e of
          None \<Rightarrow> find_extended int13 is
        | Some entry \<Rightarrow>
            if mbr_extended entry \<and> mbr_count entry \<noteq> 0 \<and> partition_range_valid s (mbr_first entry) (mbr_count entry)
            then yield (Some ((new_partition s (volume_addr s) (int i + 1) (mbr_first entry) (mbr_count entry) zero_volume)\<lparr>ebr_walk_size := mbr_count entry\<rparr>))
            else find_extended int13 is) s)"

text \<open>A routine run on the extended partition that the device keeps.\<close>

definition on_extended :: "('a part_state_scheme \<Rightarrow> (volume, 'b) loader) \<Rightarrow> volume \<Rightarrow> ('a part_state_scheme, 'b) loader" where
  "on_extended m ext s = (case m s ext of Inl msg \<Rightarrow> Inl msg | Inr (r, ext') \<Rightarrow> Inr (r, s\<lparr>ebr_part := Some ext'\<rparr>))"

definition mbr_primary :: "fs_probe \<Rightarrow> int \<Rightarrow> volume \<Rightarrow> mbr_part option \<Rightarrow> ('a part_state_scheme, int + volume) loader" where
  "mbr_primary fs pno ret e s =
     (case e of
        None \<Rightarrow> Inr (Inl END_OF_TABLE, s)
      | Some entry \<Rightarrow>
          if mbr_type entry = 0 then Inr (Inl NO_PARTITION, s)
          else if mbr_count entry = 0 then Inr (Inl NO_PARTITION, s)
          else if \<not> partition_range_valid s (mbr_first entry) (mbr_count entry) then Inr (Inl NO_PARTITION, s)
          else (case probe_fs fs None None (new_partition s (volume_addr s) (pno + 1) (mbr_first entry) (mbr_count entry) ret) of
                  Inl msg \<Rightarrow> Inl msg
                | Inr part \<Rightarrow> Inr (Inr part, s)))"

definition mbr_get_part :: "bios_disk \<Rightarrow> fs_probe \<Rightarrow> int \<Rightarrow> volume \<Rightarrow> ('a part_state_scheme, int + volume) loader" where
  "mbr_get_part int13 fs pno ret = and_then (is_valid_mbr int13) (\<lambda>ok.
     if \<not> ok then yield (Inl INVALID_TABLE)
     else if pno > 3 then (\<lambda>s. (case ebr_part s of
         Some ext \<Rightarrow> on_extended (\<lambda>dev. mbr_get_logical_part int13 fs dev (pno - 4) ret) ext
       | None \<Rightarrow> and_then (find_extended int13 [0, 1, 2, 3]) (\<lambda>found. case found of
           None \<Rightarrow> yield (Inl END_OF_TABLE)
         | Some ext \<Rightarrow> on_extended (\<lambda>dev. mbr_get_logical_part int13 fs dev (pno - 4) ret) ext)) s)
     else and_then (mbr_read_entry int13 (0x1BE + 16 * of_int pno)) (mbr_primary fs pno ret))"

definition part_get :: "bios_disk \<Rightarrow> fs_probe \<Rightarrow> int \<Rightarrow> volume \<Rightarrow> ('a part_state_scheme, int + volume) loader" where
  "part_get int13 fs pno ret =
     (if pno < 0 then yield (Inl NO_PARTITION)
      else and_then (gpt_get_part int13 fs pno ret) (\<lambda>r.
        if r \<noteq> Inl INVALID_TABLE then yield r
        else and_then (mbr_get_part int13 fs pno ret) (\<lambda>r'. if r' \<noteq> Inl INVALID_TABLE then yield r' else yield (Inl INVALID_TABLE))))"

section \<open>Known volumes\<close>

definition volume_get_by_guid :: "volume list \<Rightarrow> guid \<Rightarrow> volume option" where
  "volume_get_by_guid volume_index g = find (\<lambda>v. vol_guid v = Some g \<or> part_guid v = Some g) volume_index"

definition volume_get_by_fslabel :: "volume list \<Rightarrow> ctext \<Rightarrow> volume option" where
  "volume_get_by_fslabel volume_index label =
     find (\<lambda>v. case fslabel v of None \<Rightarrow> False | Some l \<Rightarrow> strcasecmp l label = 0) volume_index"

definition volume_get_by_coord :: "volume list \<Rightarrow> bool \<Rightarrow> int \<Rightarrow> int \<Rightarrow> volume option" where
  "volume_get_by_coord volume_index optical d p = find (\<lambda>v. vol_index v = d \<and> is_optical v = optical \<and> vol_partition v = p) volume_index"

definition volume_get_by_bios_drive :: "volume list \<Rightarrow> int \<Rightarrow> volume option" where
  "volume_get_by_bios_drive volume_index d = find (\<lambda>v. drive v = d) volume_index"


section \<open>Logical partitions lie on the device\<close>

definition errors :: "int set" where "errors = {NO_PARTITION, INVALID_TABLE, END_OF_TABLE}"

text \<open>The volume of an extended partition of a device.\<close>

definition extended_of :: "'a part_state_scheme \<Rightarrow> volume \<Rightarrow> bool" where
  "extended_of s e \<longleftrightarrow> partition_of s e \<and> \<not> pxe e"

definition on_device :: "'a part_state_scheme \<Rightarrow> u64 \<Rightarrow> u64 \<Rightarrow> bool" where
  "on_device s f n \<longleftrightarrow> 0 < unat n \<and> unat f + unat n \<le> unat (sect_count s)"

lemma extended_transfer: "extended_of s e \<Longrightarrow> transfer_ok s \<Longrightarrow> transfer_ok e"
  by (auto simp: extended_of_def partition_of_def transfer_ok_def block_bytes_def sector_bytes_def)

lemma extended_same: "same_volume e e' \<Longrightarrow> extended_of s e \<Longrightarrow> extended_of s e'"
proof -
  assume "same_volume e e'" "extended_of s e"
  moreover obtain a b c where "e' = e\<lparr>cache := a, cache_ready := b, cached_block := c\<rparr>" using \<open>same_volume e e'\<close> by (auto simp: same_volume_def)
  ultimately show ?thesis by (simp add: extended_of_def partition_same)
qed

lemma runs_any: "runs I m P \<Longrightarrow> (\<And>r. P r \<Longrightarrow> Q r) \<Longrightarrow> runs I m Q"
  unfolding runs_def by blast

lemma runs_extended_read:
  assumes "transfer_ok s"
  shows "runs (extended_of s) (volume_read int13 loc n) (\<lambda>_. True)"
  unfolding runs_def
proof (intro allI impI)
  fix e
  assume e: "extended_of s e"
  obtain r e' where r: "volume_read int13 loc n e = Inr (r, e')" "same_volume e e'"
    by (rule volume_read_total [OF extended_transfer [OF e assms]])
  then show "\<exists>r e'. volume_read int13 loc n e = Inr (r, e') \<and> extended_of s e' \<and> True" using extended_same [OF r(2) e] by blast
qed

lemma runs_pure: "(\<And>s. I s \<Longrightarrow> Q (f s)) \<Longrightarrow> runs I (\<lambda>s. Inr (f s, s)) Q"
  by (simp add: runs_def)

lemma runs_read_entry:
  assumes "\<And>loc n. runs I (volume_read int13 loc n) (\<lambda>_. True)"
  shows "runs I (mbr_read_entry int13 loc) (\<lambda>_. True)"
  unfolding mbr_read_entry_def Let_def by (rule runs_chain [OF assms runs_pure]) simp

lemma contained_on_device:
  "mbr_logical_entry_contained s e sec entry = Some f \<Longrightarrow> sect_count s \<noteq> - 1 \<Longrightarrow> on_device s f (mbr_count entry)"
  using partition_range [of s f "mbr_count entry"] by (auto simp: mbr_logical_entry_contained_def on_device_def split: option.splits if_splits)

definition scan_ok :: "'a part_state_scheme \<Rightarrow> ebr_scan \<Rightarrow> bool" where
  "scan_ok s r \<longleftrightarrow> (case r of Scan_return e \<Rightarrow> e \<in> errors | Scan_found f n \<Rightarrow> on_device s f n | Scan_next _ _ \<Rightarrow> True)"

lemma runs_scan:
  assumes t: "transfer_ok s" and n: "sect_count s \<noteq> - 1"
  shows "runs (extended_of s) (scan_entries int13 s pno sec sz is acc link) (scan_ok s)"
proof (induction "is" arbitrary: acc link)
  case Nil
  then show ?case by (simp add: runs_yield scan_ok_def)
next
  case (Cons i "is")
  let ?k = "\<lambda>entry ext. if i \<ge> 2 \<and> (mbr_logical_entry_contained s ext sec entry = None \<or> \<not> mbr_first entry + mbr_count entry \<le> sz)
               then scan_entries int13 s pno sec sz is acc link
               else if acc = pno then
                 yield (case mbr_logical_entry_contained s ext sec entry of None \<Rightarrow> Scan_return NO_PARTITION | Some first \<Rightarrow> Scan_found first (mbr_count entry))
               else scan_entries int13 s pno sec sz is (acc + 1) link"
  have k: "runs (extended_of s) (\<lambda>ext. ?k entry ext ext) (scan_ok s)" for entry
  proof (rule runs_state [of "extended_of s" "?k entry"])
    fix ext
    have "scan_ok s (case mbr_logical_entry_contained s ext sec entry of None \<Rightarrow> Scan_return NO_PARTITION | Some first \<Rightarrow> Scan_found first (mbr_count entry))"
      using contained_on_device [OF _ n] by (auto simp: scan_ok_def errors_def split: option.splits)
    then show "runs (extended_of s) (?k entry ext) (scan_ok s)" using Cons by (simp add: runs_yield)
  qed
  have er: "scan_ok s (Scan_return END_OF_TABLE)" by (simp add: scan_ok_def errors_def)
  show ?case unfolding scan_entries.simps Let_def
    by (rule runs_chain [OF runs_read_entry [OF runs_extended_read [OF t]]]) (use Cons k er in \<open>simp add: runs_yield split: option.split\<close>)
qed

definition walk_ok :: "'a part_state_scheme \<Rightarrow> int + u64 \<times> u64 \<Rightarrow> bool" where
  "walk_ok s r \<longleftrightarrow> (case r of Inl e \<Rightarrow> e \<in> errors | Inr (f, n) \<Rightarrow> on_device s f n)"

lemma runs_walk:
  assumes t: "transfer_ok s" and n: "sect_count s \<noteq> - 1"
  shows "runs (extended_of s) (walk_ebr int13 s pno links acc sec sz) (walk_ok s)"
proof (induction links arbitrary: acc sec sz)
  case 0
  then show ?case by (simp add: runs_yield walk_ok_def errors_def)
next
  case (Suc links)
  have memo: "runs (extended_of s) (ebr_memo acc sec sz) (\<lambda>_. True)"
    by (auto simp: runs_def ebr_memo_def extended_of_def partition_of_def)
  have er: "walk_ok s (Inl END_OF_TABLE)" by (simp add: walk_ok_def errors_def)
  have follow: "runs (extended_of s) (\<lambda>ext. if lf = 0 \<or> lf \<le> sec then Inr (Inl END_OF_TABLE, ext)
           else if lf \<ge> sect_count ext then Inr (Inl END_OF_TABLE, ext) else walk_ebr int13 s pno links a lf lc ext) (walk_ok s)" for lf lc a
    using Suc [of a lf lc] er by (simp add: runs_def)
  have scan: "runs (extended_of s) (and_then (scan_entries int13 s pno sec sz [0, 1, 2, 3] acc None) (\<lambda>scan. case scan of
         Scan_return e \<Rightarrow> yield (Inl e)
       | Scan_found first n \<Rightarrow> yield (Inr (first, n))
       | Scan_next accepted' None \<Rightarrow> yield (Inl END_OF_TABLE)
       | Scan_next accepted' (Some (link_first, link_count)) \<Rightarrow> (\<lambda>ext.
           if link_first = 0 \<or> link_first \<le> sec then Inr (Inl END_OF_TABLE, ext)
           else if link_first \<ge> sect_count ext then Inr (Inl END_OF_TABLE, ext)
           else walk_ebr int13 s pno links accepted' link_first link_count ext))) (walk_ok s)"
  proof (rule runs_chain [OF runs_scan [OF t n]])
    fix r
    assume r: "scan_ok s r"
    show "runs (extended_of s) (case r of
         Scan_return e \<Rightarrow> yield (Inl e)
       | Scan_found first n \<Rightarrow> yield (Inr (first, n))
       | Scan_next accepted' None \<Rightarrow> yield (Inl END_OF_TABLE)
       | Scan_next accepted' (Some (link_first, link_count)) \<Rightarrow> (\<lambda>ext.
           if link_first = 0 \<or> link_first \<le> sec then Inr (Inl END_OF_TABLE, ext)
           else if link_first \<ge> sect_count ext then Inr (Inl END_OF_TABLE, ext)
           else walk_ebr int13 s pno links accepted' link_first link_count ext)) (walk_ok s)"
      using r follow er by (auto simp: scan_ok_def walk_ok_def runs_yield split: ebr_scan.splits option.splits)
  qed
  show ?case unfolding walk_ebr.simps
    by (intro runs_chain [OF memo] runs_chain [OF runs_extended_read [OF t]]) (use scan er in \<open>simp add: runs_yield\<close>)
qed

lemma runs_logical:
  assumes t: "transfer_ok s" and n: "sect_count s \<noteq> - 1" and fs: "probe_ok fs" and ret: "\<not> pxe ret"
  shows "runs (extended_of s) (mbr_get_logical_part int13 fs s pno ret) (found_ok s)"
proof -
  have new: "runs (extended_of s) (\<lambda>e. case probe_fs fs None None (new_partition e (backing_dev e) k f m ret) of
      Inl msg \<Rightarrow> Inl msg | Inr part \<Rightarrow> Inr (Inr part, e)) (found_ok s)" if "on_device s f m" for f m k
    unfolding runs_def
  proof (intro allI impI)
    fix e
    assume e: "extended_of s e"
    have "partition_of s (new_partition e (backing_dev e) k f m ret)"
      using e that by (simp add: extended_of_def partition_of_def new_partition_def on_device_def)
    moreover have "transfer_ok (new_partition e (backing_dev e) k f m ret)"
      using extended_transfer [OF e t] ret by (simp add: new_partition_def transfer_ok_def block_bytes_def sector_bytes_def)
    ultimately obtain p where "probe_fs fs None None (new_partition e (backing_dev e) k f m ret) = Inr p" "partition_of s p"
      using probe_partition [OF fs] by blast
    then show "\<exists>r e'. (case probe_fs fs None None (new_partition e (backing_dev e) k f m ret) of
      Inl msg \<Rightarrow> Inl msg | Inr part \<Rightarrow> Inr (Inr part, e)) = Inr (r, e') \<and> extended_of s e' \<and> found_ok s r"
      using e by (simp add: found_ok_def)
  qed
  have rest: "runs (extended_of s) (and_then (walk_ebr int13 s pno MAX_LOGICAL_PARTITIONS acc sec sz) (\<lambda>r. case r of
          Inl e \<Rightarrow> yield (Inl e)
        | Inr (first, n) \<Rightarrow> (\<lambda>ext1.
            case probe_fs fs None None (new_partition ext1 (backing_dev ext1) (pno + 4 + 1) first n ret) of
              Inl msg \<Rightarrow> Inl msg
            | Inr part \<Rightarrow> Inr (Inr part, ext1)))) (found_ok s)" for acc sec sz
    by (rule runs_chain [OF runs_walk [OF t n]]) (use new in \<open>auto simp: walk_ok_def found_ok_def errors_def intro!: runs_yield split: sum.splits\<close>)
  show ?thesis
    unfolding runs_def
  proof (intro allI impI)
    fix e
    assume e: "extended_of s e"
    obtain a b c where st: "ebr_start pno e = (a, b, c)" by (cases "ebr_start pno e")
    show "\<exists>r e'. mbr_get_logical_part int13 fs s pno ret e = Inr (r, e') \<and> extended_of s e' \<and> found_ok s r"
      using rest [of a b c] e unfolding runs_def mbr_get_logical_part_def st by (auto simp: found_ok_def)
  qed
qed


section \<open>The lookup of a partition\<close>

definition ebr_ok :: "'a part_state_scheme \<Rightarrow> bool" where
  "ebr_ok s \<longleftrightarrow> (\<forall>e. ebr_part s = Some e \<longrightarrow> extended_of s e)"

definition dev_inv :: "bios_disk \<Rightarrow> (nat \<Rightarrow> u8) \<Rightarrow> 'a part_state_scheme \<Rightarrow> 'a part_state_scheme \<Rightarrow> bool" where
  "dev_inv int13 D s0 s \<longleftrightarrow> readable int13 D s \<and> memo_ok D s \<and> ebr_ok s \<and> memo_from s0 s \<and>
     fixed_part (s\<lparr>ebr_part := None\<rparr>) = fixed_part (s0\<lparr>ebr_part := None\<rparr>)"

lemma dev_inv_facts:
  assumes "dev_inv int13 D s0 s"
  shows "transfer_ok s" "sect_count s \<noteq> - 1" "partition_of s = partition_of s0" "extended_of s = extended_of s0" "found_ok s = found_ok s0"
proof -
  show "transfer_ok s" "sect_count s \<noteq> - 1" using assms by (auto simp: dev_inv_def readable_def intro: readable_transfer)
  show p: "partition_of s = partition_of s0" using assms by (simp add: dev_inv_def fixed_part_def partition_of_def fun_eq_iff)
  show "extended_of s = extended_of s0" "found_ok s = found_ok s0" by (simp_all add: extended_of_def found_ok_def p fun_eq_iff cong: sum.case_cong)
qed

text \<open>Whatever only touches the cache and the memos keeps the invariant of the device.\<close>

lemma runs_device:
  fixes s0 :: "'a part_state_scheme"
  assumes "\<And>s :: 'a part_state_scheme. runs (gpt_inv int13 D s) m (Q s)" "\<And>s. dev_inv int13 D s0 s \<Longrightarrow> Q s = Q s0"
  shows "runs (dev_inv int13 D s0) m (Q s0)"
  unfolding runs_def
proof (intro allI impI)
  fix s
  assume d: "dev_inv int13 D s0 s"
  then have "gpt_inv int13 D s s" by (simp add: dev_inv_def gpt_inv_def memo_from_def)
  then obtain r s' where r: "m s = Inr (r, s')" "gpt_inv int13 D s s'" "Q s r" using assms(1) [of s] unfolding runs_def by blast
  have f: "fixed_part s' = fixed_part s" "readable int13 D s'" "memo_ok D s'" "memo_from s s'" using r(2) by (simp_all add: gpt_inv_def)
  then have e: "extended_of s' = extended_of s" "ebr_part s' = ebr_part s" by (simp_all add: fixed_part_def extended_of_def partition_of_def fun_eq_iff)
  have "memo_from s0 s'" using f(4) d by (auto simp: memo_from_def dev_inv_def fixed_part_def)
  then have "dev_inv int13 D s0 s'" unfolding dev_inv_def ebr_ok_def e using f d by (simp add: dev_inv_def ebr_ok_def fixed_part_def)
  then show "\<exists>r s'. m s = Inr (r, s') \<and> dev_inv int13 D s0 s' \<and> Q s0 r" using r(1,3) unfolding assms(2) [OF d] by blast
qed

lemma runs_device_read: "runs (dev_inv int13 D s0) (volume_read int13 loc n) (\<lambda>_. True)"
  by (rule runs_device [of int13 D _ "\<lambda>_ _. True"]) (rule runs_any [OF runs_read], simp_all)

lemma runs_all_reads: "runs (dev_inv int13 D s0) (all_reads int13 cs) (\<lambda>_. True)"
proof (induction cs)
  case (Cons c cs)
  obtain loc n P where c: "c = (loc, n, P)" by (cases c)
  show ?case unfolding all_reads.simps c case_prod_conv
    by (rule runs_chain [OF runs_device_read]) (use Cons in \<open>simp add: runs_yield split: option.splits\<close>)
qed (simp add: runs_yield)

lemma new_extended:
  assumes "dev_inv int13 D s0 s" "partition_range_valid s f n"
  shows "extended_of s0 ((new_partition s (volume_addr s) k f n zero_volume)\<lparr>ebr_walk_size := n\<rparr>)"
proof -
  note d = dev_inv_facts [OF assms(1)]
  have "partition_of s (new_partition s (volume_addr s) k f n zero_volume)"
    by (rule new_partition_ok(1) [OF d(1) _ assms(2) d(2)]) (simp add: zero_volume_def)
  then show ?thesis unfolding d(4) [symmetric] by (simp add: extended_of_def partition_of_def new_partition_def zero_volume_def)
qed

lemma runs_find_extended: "runs (dev_inv int13 D s0) (find_extended int13 is) (\<lambda>r. \<forall>e. r = Some e \<longrightarrow> extended_of s0 e)"
proof (induction "is")
  case (Cons i "is")
  let ?k = "\<lambda>e s. case e of None \<Rightarrow> find_extended int13 is
        | Some entry \<Rightarrow>
            if mbr_extended entry \<and> mbr_count entry \<noteq> 0 \<and> partition_range_valid s (mbr_first entry) (mbr_count entry)
            then yield (Some ((new_partition s (volume_addr s) (int i + 1) (mbr_first entry) (mbr_count entry) zero_volume)\<lparr>ebr_walk_size := mbr_count entry\<rparr>))
            else find_extended int13 is"
  have "runs (dev_inv int13 D s0) (\<lambda>s. ?k e s s) (\<lambda>r. \<forall>e. r = Some e \<longrightarrow> extended_of s0 e)" for e
    by (rule runs_state [of "dev_inv int13 D s0" "?k e"]) (use Cons in \<open>auto intro!: runs_yield new_extended split: option.splits\<close>)
  then show ?case unfolding find_extended.simps by (rule runs_chain [OF runs_read_entry [OF runs_device_read]])
qed (simp add: runs_yield)

lemma runs_on_extended:
  assumes "extended_of s0 e" "probe_ok fs" "\<not> pxe ret"
  shows "runs (dev_inv int13 D s0) (on_extended (\<lambda>dev. mbr_get_logical_part int13 fs dev pno ret) e) (found_ok s0)"
  unfolding runs_def
proof (intro allI impI)
  fix s
  assume d: "dev_inv int13 D s0 s"
  note f = dev_inv_facts [OF d]
  obtain r e' where r: "mbr_get_logical_part int13 fs s pno ret e = Inr (r, e')" "extended_of s e'" "found_ok s r"
    using runs_logical [OF f(1,2) assms(2,3), of int13 pno] assms(1) [folded f(4)] unfolding runs_def by blast
  let ?s = "s\<lparr>ebr_part := Some e'\<rparr>"
  have "readable int13 D ?s = readable int13 D s"
    by (simp add: readable_def geometry_ok_def cache_ok_def disk_has_def block_bytes_def sector_bytes_def units_def within_def volume_byte_def)
  moreover have "gpt_valid D ?s = gpt_valid D s" by (rule gpt_valid_first) simp
  moreover have "extended_of ?s = extended_of s" by (simp add: extended_of_def partition_of_def fun_eq_iff)
  ultimately have "dev_inv int13 D s0 ?s" using d r(2) by (simp add: dev_inv_def memo_ok_def memo_from_def ebr_ok_def)
  then show "\<exists>r s'. on_extended (\<lambda>dev. mbr_get_logical_part int13 fs dev pno ret) e s = Inr (r, s') \<and> dev_inv int13 D s0 s' \<and> found_ok s0 r"
    using r f(5) by (simp add: on_extended_def)
qed

lemma runs_primary:
  assumes "probe_ok fs" "\<not> pxe ret"
  shows "runs (dev_inv int13 D s0) (mbr_primary fs pno ret e) (found_ok s0)"
  unfolding runs_def
proof (intro allI impI)
  fix s
  assume d: "dev_inv int13 D s0 s"
  note f = dev_inv_facts [OF d]
  show "\<exists>r s'. mbr_primary fs pno ret e s = Inr (r, s') \<and> dev_inv int13 D s0 s' \<and> found_ok s0 r"
  proof (cases "\<exists>x. e = Some x \<and> mbr_type x \<noteq> 0 \<and> mbr_count x \<noteq> 0 \<and> partition_range_valid s (mbr_first x) (mbr_count x)")
    case True
    then obtain x where x: "e = Some x" "mbr_type x \<noteq> 0" "mbr_count x \<noteq> 0" "partition_range_valid s (mbr_first x) (mbr_count x)" by blast
    obtain p where "probe_fs fs None None (new_partition s (volume_addr s) (pno + 1) (mbr_first x) (mbr_count x) ret) = Inr p" "partition_of s p"
      using probe_partition [OF assms(1) new_partition_ok [OF f(1) assms(2) x(4) f(2)]] by blast
    then show ?thesis using x d f(3) by (simp add: mbr_primary_def found_ok_def)
  next
    case False
    then have "\<exists>c \<in> {NO_PARTITION, END_OF_TABLE}. mbr_primary fs pno ret e s = Inr (Inl c, s)" by (auto simp: mbr_primary_def split: option.splits)
    then show ?thesis using d by (auto simp: found_ok_def)
  qed
qed

lemma runs_mbr:
  assumes fs: "probe_ok fs" and ret: "\<not> pxe ret"
  shows "runs (dev_inv int13 D s0) (mbr_get_part int13 fs pno ret) (found_ok s0)"
proof -
  let ?log = "\<lambda>ext. on_extended (\<lambda>dev. mbr_get_logical_part int13 fs dev (pno - 4) ret) ext"
  let ?new = "and_then (find_extended int13 [0, 1, 2, 3]) (\<lambda>found. case found of None \<Rightarrow> yield (Inl END_OF_TABLE) | Some ext \<Rightarrow> ?log ext)"
  have err: "runs (dev_inv int13 D s0) (yield (Inl e)) (found_ok s0)" if "e \<in> {NO_PARTITION, INVALID_TABLE, END_OF_TABLE}" for e
    using that by (intro runs_yield) (simp add: found_ok_def)
  have new: "runs (dev_inv int13 D s0) ?new (found_ok s0)"
    by (rule runs_chain [OF runs_find_extended]) (auto intro: runs_on_extended [OF _ fs ret] err split: option.splits)
  have log: "runs (dev_inv int13 D s0) (\<lambda>s. (case ebr_part s of Some ext \<Rightarrow> ?log ext | None \<Rightarrow> ?new) s) (found_ok s0)"
  proof (rule runs_state [of "dev_inv int13 D s0" "\<lambda>s. case ebr_part s of Some ext \<Rightarrow> ?log ext | None \<Rightarrow> ?new"])
    fix s
    assume d: "dev_inv int13 D s0 s"
    then have "extended_of s0 ext" if "ebr_part s = Some ext" for ext using that dev_inv_facts(4) [OF d] by (simp add: dev_inv_def ebr_ok_def)
    then show "runs (dev_inv int13 D s0) (case ebr_part s of Some ext \<Rightarrow> ?log ext | None \<Rightarrow> ?new) (found_ok s0)"
      using new by (auto intro: runs_on_extended [OF _ fs ret] split: option.splits)
  qed
  have prim: "runs (dev_inv int13 D s0) (and_then (mbr_read_entry int13 loc) (mbr_primary fs pno ret)) (found_ok s0)" for loc
    by (rule runs_chain [OF runs_read_entry [OF runs_device_read]]) (rule runs_primary [OF fs ret])
  show ?thesis unfolding mbr_get_part_def is_valid_mbr_def
    by (rule runs_chain [OF runs_all_reads]) (use err log prim in simp)
qed

lemma runs_part_get:
  assumes fs: "probe_ok fs" and ret: "\<not> pxe ret"
  shows "runs (dev_inv int13 D s0) (part_get int13 fs pno ret) (found_ok s0)"
proof -
  have gpt: "runs (dev_inv int13 D s0) (gpt_get_part int13 fs pno ret) (found_ok s0)"
    by (rule runs_device [of int13 D _ found_ok]) (rule runs_get_part [OF fs ret], rule dev_inv_facts(5))
  have mbr: "runs (dev_inv int13 D s0) (and_then (mbr_get_part int13 fs pno ret) (\<lambda>r'. if r' \<noteq> Inl INVALID_TABLE then yield r' else yield (Inl INVALID_TABLE))) (found_ok s0)"
    by (rule runs_chain [OF runs_mbr [OF fs ret]]) (auto intro: runs_yield)
  have "runs (dev_inv int13 D s0) (and_then (gpt_get_part int13 fs pno ret) (\<lambda>r.
        if r \<noteq> Inl INVALID_TABLE then yield r
        else and_then (mbr_get_part int13 fs pno ret) (\<lambda>r'. if r' \<noteq> Inl INVALID_TABLE then yield r' else yield (Inl INVALID_TABLE)))) (found_ok s0)"
    by (rule runs_chain [OF gpt]) (use mbr in \<open>simp add: runs_yield\<close>)
  then show ?thesis by (simp add: part_get_def runs_yield found_ok_def)
qed



end
