(* ===== verification/LoaderDisk.thy ===== *)
theory LoaderDisk
  imports LoaderMbr LoaderAlloc
begin

text \<open>
  The list of the volumes of a machine, the BIOS half of \<^verbatim>\<open>limine/common/drivers/disk.s2.c\<close>: the size of the sectors of a drive is
  found by reading one sector over two different backgrounds, the best transfer size by timing, and \<open>disk_create_index\<close> enters every
  drive with all its partitions. What the firmware answers is an argument, and so are the probes for a file system. Every request of these
  routines for memory goes to the allocators of \<open>LoaderAlloc\<close>, whose panics end them; \<open>heap\<close> is the state of the allocators, while what the
  volumes and the list hold is in the records of the model. The memory that the routines below ask for (the block cache, the memo of the
  extended partition, labels) is not charged to it. The loop over the partitions has no bound of its own; it is a partial function, proved to
  return whatever the firmware, the tables and the allocators answer.
\<close>

section \<open>Firmware\<close>

record dpte =
  io_port :: u16
  control_port :: u16
  head_reg_upper :: u8
  bios_vendor_specific :: u8
  irq_info :: u8
  block_count_multiple :: u8
  dma_info :: u8
  pio_info :: u8
  dpte_flags :: u16
  dpte_reserved :: u16
  dpte_revision :: u8
  dpte_checksum :: u8

record bios_drive_params =
  buf_size :: u16
  info_flags :: u16
  cyl :: u32
  heads :: u32
  sects :: u32
  lba_count :: u64
  bytes_per_sect :: u16
  dpte_off :: u16
  dpte_seg :: u16

text \<open>Sector reads, drive parameters, a structure in low memory by segment and offset, the time that the test reads of a size take and the
  number of fixed disks.\<close>

record firmware =
  fw_read :: bios_disk
  fw_params :: "int \<Rightarrow> bios_drive_params option"
  fw_dpte :: "u16 \<Rightarrow> u16 \<Rightarrow> dpte"
  fw_elapsed :: "int \<Rightarrow> u32 \<Rightarrow> u64"
  fw_disks :: u8

section \<open>Transfer size\<close>

definition xfer_sizes :: "u32 list" where "xfer_sizes = [1, 2, 4, 8, 16, 24, 32, 48, 64]"

function timed_reads :: "bios_disk \<Rightarrow> int \<Rightarrow> nat \<Rightarrow> nat \<Rightarrow> bool" where
  "timed_reads int13 d blocks j =
     (if blocks = 0 \<or> j \<ge> 64 then True
      else if int13 d (of_nat j) blocks = None then False
      else timed_reads int13 d blocks (j + blocks))"
  by pat_completeness auto
termination by (relation "measure (\<lambda>(int13, d, blocks, j). 64 - j)") auto

declare timed_reads.simps [simp del]

primrec speed_loop :: "bios_disk \<Rightarrow> (int \<Rightarrow> u32 \<Rightarrow> u64) \<Rightarrow> 'a volume_scheme \<Rightarrow> u32 list \<Rightarrow> u32 \<Rightarrow> u64 \<Rightarrow> u32" where
  "speed_loop int13 elapsed v [] fastest_size last_speed = fastest_size"
| "speed_loop int13 elapsed v (x # xs) fastest_size last_speed =
     (if x * of_int (sector_size v) > XFER_BUF_SIZE then fastest_size
      else if \<not> timed_reads int13 (drive v) (unat x) 0 then 8
      else let speed = elapsed (drive v) x
           in if speed < last_speed then speed_loop int13 elapsed v xs x speed
              else speed_loop int13 elapsed v xs fastest_size last_speed)"

definition measure_xfer_size :: "bios_disk \<Rightarrow> (int \<Rightarrow> u32 \<Rightarrow> u64) \<Rightarrow> 'a volume_scheme \<Rightarrow> u32" where
  "measure_xfer_size int13 elapsed v = speed_loop int13 elapsed v xfer_sizes 1 (- 1)"

section \<open>Sector size\<close>

text \<open>One more than the last position that differs from the background.\<close>

primrec scan_down :: "u8 \<Rightarrow> u8 list \<Rightarrow> nat \<Rightarrow> nat" where
  "scan_down fill buf 0 = 0"
| "scan_down fill buf (Suc i) = (if buf ! i \<noteq> fill then Suc i else scan_down fill buf i)"

text \<open>A sector read into a buffer that was filled with one byte.\<close>

definition read_over :: "u8 \<Rightarrow> u8 list \<Rightarrow> u8 list" where
  "read_over fill bytes = bytes @ drop (length bytes) (replicate (unat XFER_BUF_SIZE) fill)"

definition detect_sector_size :: "bios_disk \<Rightarrow> int \<Rightarrow> int option" where
  "detect_sector_size int13 d =
     (case int13 d 0 1 of
        None \<Rightarrow> None
      | Some a \<Rightarrow>
          let sector_size_a = scan_down 0 (read_over 0 a) (unat XFER_BUF_SIZE)
          in case int13 d 0 1 of
               None \<Rightarrow> None
             | Some b \<Rightarrow>
                 let sector_size_b = scan_down 0xFF (read_over 0xFF b) (unat XFER_BUF_SIZE);
                     sector = (if sector_size_a > sector_size_b then sector_size_a else sector_size_b)
                 in if sector = 0 then None else Some (int sector))"

section \<open>The index\<close>

definition dpte_of :: "firmware \<Rightarrow> bios_drive_params \<Rightarrow> dpte option" where
  "dpte_of fw ps =
     (if buf_size ps \<ge> 0x1E \<and> (dpte_seg ps \<noteq> 0x0000 \<or> dpte_off ps \<noteq> 0x0000) \<and> (dpte_seg ps \<noteq> 0xFFFF \<or> dpte_off ps \<noteq> 0xFFFF)
      then Some (fw_dpte fw (dpte_seg ps) (dpte_off ps)) else None)"

text \<open>Whether a drive is removable and whether it is optical.\<close>

definition drive_kind :: "firmware \<Rightarrow> bios_drive_params \<Rightarrow> int \<Rightarrow> int \<Rightarrow> bool \<times> bool" where
  "drive_kind fw ps d sector =
     (let is_removable = (info_flags ps AND 0x04 \<noteq> 0 \<or>
            (case dpte_of fw ps of None \<Rightarrow> False
             | Some t \<Rightarrow> control_port t AND 0xFF00 \<noteq> 0xA000 \<and> (dpte_flags t AND 0x20 \<noteq> 0 \<or> dpte_flags t AND 0x40 \<noteq> 0)));
          is_atapi = (case dpte_of fw ps of None \<Rightarrow> False | Some t \<Rightarrow> dpte_flags t AND 0x40 \<noteq> 0)
      in if d = 0x9F \<and> sector = 2048 then (True, True) else (is_removable, is_atapi \<or> (sector = 2048 \<and> is_removable)))"

definition device_size :: "bios_drive_params \<Rightarrow> int \<Rightarrow> u64" where
  "device_size ps sector = (if lba_count ps = - 1 \<or> lba_count ps = 0 then - 1 else lba_count ps * of_int (sector div 512))"

text \<open>The label of a file system on the whole medium: the probe works on the volume, whose other fields stay.\<close>

definition whole_label :: "fs_probe \<Rightarrow> (part_state, ctext option) loader" where
  "whole_label fs s =
     (case fs_get_label fs (volume.truncate s) of Inl msg \<Rightarrow> Inl msg | Inr (l, v) \<Rightarrow> Inr (l, volume.extend v (volume.more s)))"

record index_state =
  optical_indices :: int
  hdd_indices :: int
  consumed_bda_disks :: int
  kept_gpt_memo :: "gpt_memo option"
  kept_none_memo :: "none_memo option"
  volume_index :: "volume list"
  index_ptr :: u64
  xfer_buf :: u64
  heap :: loader_state

text \<open>The requests for memory: a volume (156 bytes by the 32-bit ABI), its release, the transfer buffer on the first use, and a longer
  list of pointers.\<close>

definition sizeof_volume :: u64 where "sizeof_volume = 156"

definition alloc_volume :: "index_state \<Rightarrow> string + u64 \<times> index_state" where
  "alloc_volume st = (case ext_mem_alloc sizeof_volume (heap st) of Inl msg \<Rightarrow> Inl msg | Inr (a, h) \<Rightarrow> Inr (a, st\<lparr>heap := h\<rparr>))"

definition free_volume :: "u64 \<Rightarrow> index_state \<Rightarrow> string + index_state" where
  "free_volume a st = (case pmm_free a sizeof_volume (heap st) of Inl msg \<Rightarrow> Inl msg | Inr h \<Rightarrow> Inr (st\<lparr>heap := h\<rparr>))"

definition need_xfer_buf :: "index_state \<Rightarrow> string + index_state" where
  "need_xfer_buf st =
     (if xfer_buf st \<noteq> 0 then Inr st
      else case conv_mem_alloc (ucast XFER_BUF_SIZE) (heap st) of Inl msg \<Rightarrow> Inl msg | Inr (a, h) \<Rightarrow> Inr (st\<lparr>xfer_buf := a, heap := h\<rparr>))"

definition append_volume :: "volume \<Rightarrow> index_state \<Rightarrow> string + index_state" where
  "append_volume v st =
     (case pmm_realloc (index_ptr st) (of_nat (length (volume_index st)) * 4) ((of_nat (length (volume_index st)) + 1) * 4) (heap st) of
        Inl msg \<Rightarrow> Inl msg
      | Inr (a, h) \<Rightarrow> Inr (st\<lparr>index_ptr := a, heap := h, volume_index := volume_index st @ [v]\<rparr>))"

partial_function (option) add_partitions ::
  "bios_disk \<Rightarrow> fs_probe \<Rightarrow> int \<Rightarrow> index_state \<Rightarrow> part_state \<Rightarrow> (string + index_state \<times> part_state) option" where
  "add_partitions int13 fs part st s =
     (case alloc_volume st of
        Inl msg \<Rightarrow> Some (Inl msg)
      | Inr (a, st1) \<Rightarrow>
          (case part_get int13 fs part zero_volume s of
             Inl msg \<Rightarrow> Some (Inl msg)
           | Inr (ret, s') \<Rightarrow>
               (case ret of
                  Inl e \<Rightarrow>
                    (case free_volume a st1 of
                       Inl msg \<Rightarrow> Some (Inl msg)
                     | Inr st2 \<Rightarrow> if e = END_OF_TABLE \<or> e = INVALID_TABLE then Some (Inr (st2, s'))
                                  else add_partitions int13 fs (part + 1) st2 s')
                | Inr p \<Rightarrow>
                    (case append_volume p st1 of
                       Inl msg \<Rightarrow> Some (Inl msg)
                     | Inr st2 \<Rightarrow> add_partitions int13 fs (part + 1) st2 (s'\<lparr>max_partition := max_partition s' + 1\<rparr>)))))"

text \<open>A drive that is entered: its identifier and label, itself, its partitions. The volume in the list is the one that the
  later steps changed, for the list holds a pointer to it.\<close>

definition device_state :: "u64 \<Rightarrow> index_state \<Rightarrow> volume \<Rightarrow> part_state" where
  "device_state addr st v = volume.extend v (part_state.fields addr (kept_gpt_memo st) (kept_none_memo st) None)"

definition enter_drive :: "firmware \<Rightarrow> fs_probe \<Rightarrow> u64 \<Rightarrow> volume \<Rightarrow> index_state \<Rightarrow> (string + index_state) option" where
  "enter_drive fw fs addr block st =
     (case and_then (gpt_get_guid (fw_read fw)) (\<lambda>g. and_then (\<lambda>s. Inr ((), s\<lparr>vol_guid := g\<rparr>)) (\<lambda>_.
             and_then (whole_label fs) (\<lambda>l s. Inr ((), s\<lparr>fslabel := l\<rparr>)))) (device_state addr st block) of
        Inl msg \<Rightarrow> Some (Inl msg)
      | Inr (_, s) \<Rightarrow> (case append_volume (volume.truncate s) st of
          Inl msg \<Rightarrow> Some (Inl msg)
        | Inr st1 \<Rightarrow> (case add_partitions (fw_read fw) fs 0 st1 s of
            None \<Rightarrow> None
          | Some (Inl msg) \<Rightarrow> Some (Inl msg)
          | Some (Inr (st2, s')) \<Rightarrow>
              Some (Inr (st2\<lparr>kept_gpt_memo := the_gpt_memo s', kept_none_memo := the_none_memo s',
                             volume_index := (volume_index st2)[length (volume_index st) := volume.truncate s']\<rparr>)))))"

definition index_drive :: "firmware \<Rightarrow> fs_probe \<Rightarrow> u8 \<Rightarrow> int \<Rightarrow> index_state \<Rightarrow> (string + index_state) option" where
  "index_drive fw fs boot_drive d st =
     (case fw_params fw d of
        None \<Rightarrow> Some (Inr st)
      | Some ps \<Rightarrow> (case alloc_volume st of
          Inl msg \<Rightarrow> Some (Inl msg)
        | Inr (addr, st1) \<Rightarrow> (case need_xfer_buf st1 of
            Inl msg \<Rightarrow> Some (Inl msg)
          | Inr st2 \<Rightarrow> (case detect_sector_size (fw_read fw) d of
              None \<Rightarrow> Some (free_volume addr st2)
            | Some sector \<Rightarrow> (case drive_kind fw ps d sector of (is_removable, optical) \<Rightarrow>
                let fixed_disk = (\<not> is_removable \<and> \<not> optical)
                in if fixed_disk \<and> consumed_bda_disks st2 \<ge> uint (fw_disks fw) \<and> d \<noteq> uint boot_drive then Some (free_volume addr st2)
                   else
                     let st3 = (if fixed_disk then st2\<lparr>consumed_bda_disks := consumed_bda_disks st2 + 1\<rparr> else st2);
                         number = (if optical then optical_indices st3 else hdd_indices st3);
                         st4 = (if optical then st3\<lparr>optical_indices := number + 1\<rparr> else st3\<lparr>hdd_indices := number + 1\<rparr>);
                         block = zero_volume\<lparr>drive := d, max_partition := - 1, sector_size := sector, sect_count := device_size ps sector,
                                             is_optical := optical, vol_index := number\<rparr>
                     in enter_drive fw fs addr (block\<lparr>fastest_xfer_size := measure_xfer_size (fw_read fw) (fw_elapsed fw) block\<rparr>) st4)))))"

primrec index_drives :: "firmware \<Rightarrow> fs_probe \<Rightarrow> u8 \<Rightarrow> int list \<Rightarrow> index_state \<Rightarrow> (string + index_state) option" where
  "index_drives fw fs boot_drive [] st = Some (Inr st)"
| "index_drives fw fs boot_drive (d # ds) st =
     (case index_drive fw fs boot_drive d st of
        None \<Rightarrow> None
      | Some (Inl msg) \<Rightarrow> Some (Inl msg)
      | Some (Inr st') \<Rightarrow> index_drives fw fs boot_drive ds st')"

definition disk_create_index :: "firmware \<Rightarrow> fs_probe \<Rightarrow> u8 \<Rightarrow> loader_state \<Rightarrow> (string + index_state) option" where
  "disk_create_index fw fs boot_drive h = index_drives fw fs boot_drive [0x80..0xEF]
     \<lparr>optical_indices = 1, hdd_indices = 1, consumed_bda_disks = 0, kept_gpt_memo = None, kept_none_memo = None, volume_index = [],
      index_ptr = 0, xfer_buf = 0, heap = h\<rparr>"

section \<open>The sector size is the right one\<close>

lemma scan_down_top: "i < n \<Longrightarrow> buf ! i \<noteq> fill \<Longrightarrow> (\<And>j. i < j \<Longrightarrow> j < n \<Longrightarrow> buf ! j = fill) \<Longrightarrow> scan_down fill buf n = Suc i"
proof (induction n)
  case (Suc n)
  then show ?case by (cases "i = n") auto
qed simp

lemma scan_down_le: "(\<And>j. m \<le> j \<Longrightarrow> j < n \<Longrightarrow> buf ! j = fill) \<Longrightarrow> scan_down fill buf n \<le> m"
proof (induction n)
  case (Suc n)
  then have "scan_down fill buf n \<le> m" by simp
  then show ?case using Suc(2) [of n] by (cases "m \<le> n") auto
qed simp

lemma read_over_rest: "length b \<le> j \<Longrightarrow> j < 32768 \<Longrightarrow> read_over fill b ! j = fill"
  by (simp add: read_over_def XFER_BUF_SIZE_def nth_append)

lemma detect_core:
  assumes "int13 d 0 1 = Some b" "b \<noteq> []" "length b \<le> 32768"
  shows "detect_sector_size int13 d = Some (int (length b))"
proof -
  let ?n = "length b" and ?a = "scan_down 0 (read_over 0 b) 32768" and ?b = "scan_down 0xFF (read_over 0xFF b) 32768"
  have le: "?a \<le> ?n" "?b \<le> ?n" by (rule scan_down_le; simp add: read_over_rest)+
  have n: "?n - 1 < 32768" "Suc (?n - 1) = ?n" using assms(2,3) by (auto simp: Suc_le_eq)
  have at: "read_over fill b ! (?n - 1) = b ! (?n - 1)" for fill using assms(2) by (simp add: read_over_def nth_append)
  have "?a = ?n" if "b ! (?n - 1) \<noteq> 0" using scan_down_top [OF n(1), of "read_over 0 b" 0] that n read_over_rest unfolding at by simp
  moreover have "?b = ?n" if "b ! (?n - 1) = 0" using scan_down_top [OF n(1), of "read_over 0xFF b" "0xFF"] that n read_over_rest unfolding at by simp
  ultimately have "(if ?a > ?b then ?a else ?b) = ?n" using le by (cases "b ! (?n - 1) = 0") auto
  moreover have "unat XFER_BUF_SIZE = 32768" by (simp add: XFER_BUF_SIZE_def)
  ultimately show ?thesis using assms(1,2) by (simp add: detect_sector_size_def Let_def)
qed

text \<open>Theorem: the two test reads give exactly the size of the sectors, whatever the first sector holds.\<close>

theorem detect_sector_size_correct:
  assumes "int13 d 0 1 = Some b" and "b \<noteq> []" and "length b \<le> 32768"
  shows "detect_sector_size int13 d = Some (int (length b))"
  using assms by (rule detect_core)

theorem detect_sector_size_correct_witness:
  "detect_sector_size (\<lambda>d lba n. Some (replicate 510 7 @ [0, 0])) 128 = Some 512"
  using detect_sector_size_correct [of "\<lambda>d lba n. Some (replicate 510 7 @ [0, 0])" 128 "replicate 510 7 @ [0, 0]"] by simp


section \<open>A measured block fits the transfer buffer\<close>

lemma speed_loop_ok:
  assumes "0 < sector_size v" "sector_size v \<le> 4096" "set xs \<subseteq> set xfer_sizes" "fast \<noteq> 0" "unat fast * nat (sector_size v) \<le> 32768"
  shows "speed_loop int13 elapsed v xs fast before \<noteq> 0 \<and> unat (speed_loop int13 elapsed v xs fast before) * nat (sector_size v) \<le> 32768"
  using assms(3-5)
proof (induction xs arbitrary: fast before)
  case (Cons x xs)
  have x: "unat x \<le> 64" "x \<noteq> 0" using Cons(2) by (auto simp: xfer_sizes_def)
  have s: "unat (of_int (sector_size v) :: u32) = nat (sector_size v)"
    using assms(1,2) by (simp add: unat_eq_nat_uint uint_word_of_int_eq take_bit_int_eq_self)
  have "unat x * nat (sector_size v) \<le> 64 * 4096" using x(1) assms(2) by (intro mult_mono) auto
  then have "unat (x * of_int (sector_size v)) = unat x * nat (sector_size v)" by (simp add: unat_word_ariths s)
  then have "unat x * nat (sector_size v) \<le> 32768" if "\<not> x * of_int (sector_size v) > XFER_BUF_SIZE"
    using that by (simp add: XFER_BUF_SIZE_def word_less_nat_alt)
  moreover have "8 * nat (sector_size v) \<le> 32768" using assms(2) by simp
  ultimately show ?case using Cons x(2) by (simp add: Let_def)
qed simp

lemma measure_xfer_ok:
  assumes "0 < sector_size v" "sector_size v \<le> 4096"
  shows "measure_xfer_size int13 elapsed v \<noteq> 0" "unat (measure_xfer_size int13 elapsed v) * nat (sector_size v) \<le> 32768"
  using speed_loop_ok [OF assms, of xfer_sizes 1 int13 elapsed "- 1"] assms by (simp_all add: measure_xfer_size_def)

section \<open>The enumeration of partitions ends\<close>

lemma chain_Inr: "and_then m f s = Inr (r, s'') \<longleftrightarrow> (\<exists>a s'. m s = Inr (a, s') \<and> f a s' = Inr (r, s''))"
  by (auto simp: and_then_def split: sum.splits)

lemma gpt_past_end:
  assumes "gpt_get_part int13 fs 260 ret s = Inr (r, s')"
  shows "r = Inl END_OF_TABLE \<or> r = Inl INVALID_TABLE"
proof -
  have "(of_int 260 :: u32) \<ge> (if n > MAX_GPT_PARTITIONS then MAX_GPT_PARTITIONS else n)" for n
    by (auto simp: MAX_GPT_PARTITIONS_def word_le_nat_alt word_less_nat_alt)
  then show ?thesis using assms by (auto simp: gpt_get_part_def chain_Inr yield_def Let_def split: option.splits)
qed

lemma mbr_past_end:
  assumes "mbr_get_part int13 fs 260 ret s = Inr (r, s')"
  shows "r = Inl END_OF_TABLE \<or> r = Inl INVALID_TABLE"
proof -
  have "mbr_get_logical_part int13 fs dev 256 ret e = Inr (Inl END_OF_TABLE, e)" for dev :: "'a part_state_scheme" and e
    by (simp add: mbr_get_logical_part_def MAX_LOGICAL_PARTITIONS_def)
  then show ?thesis using assms
    by (auto simp: mbr_get_part_def chain_Inr yield_def on_extended_def split: if_splits option.splits)
qed

lemma part_past_end: "part_get int13 fs 260 ret s = Inr (r, s') \<Longrightarrow> r = Inl END_OF_TABLE \<or> r = Inl INVALID_TABLE"
  by (auto simp: part_get_def chain_Inr yield_def split: if_splits dest: gpt_past_end mbr_past_end)

text \<open>What a piece of the work does to the index: it appends at most \<open>k\<close> volumes and keeps the invariant of the memory map.\<close>

definition index_extends :: "nat \<Rightarrow> index_state \<Rightarrow> index_state \<Rightarrow> bool" where
  "index_extends k st st' \<longleftrightarrow> length (volume_index st') \<le> length (volume_index st) + k \<and> (sane_state (heap st) \<longrightarrow> sane_state (heap st'))"

definition ends_with :: "('b \<Rightarrow> bool) \<Rightarrow> (string + 'b) option \<Rightarrow> bool" where
  "ends_with P r \<longleftrightarrow> (case r of None \<Rightarrow> False | Some (Inl msg) \<Rightarrow> True | Some (Inr x) \<Rightarrow> P x)"

lemma ends_with_simps [simp]: "ends_with P (Some (Inl msg))" "ends_with P (Some (Inr x)) \<longleftrightarrow> P x" "\<not> ends_with P None"
  by (simp_all add: ends_with_def)

lemma ends_with_mono: "ends_with P r \<Longrightarrow> (\<And>x. P x \<Longrightarrow> Q x) \<Longrightarrow> ends_with Q r"
  by (auto simp: ends_with_def split: option.splits sum.splits)

lemma index_extends_refl: "index_extends k st st"
  by (simp add: index_extends_def)

lemma index_extends_trans: "index_extends k st st' \<Longrightarrow> index_extends l st' st'' \<Longrightarrow> k + l \<le> m \<Longrightarrow> index_extends m st st''"
  by (auto simp: index_extends_def)

lemma ext_sane: "ext_mem_alloc n h = Inr (a, h') \<Longrightarrow> sane_state h \<Longrightarrow> sane_state h'"
  unfolding ext_mem_alloc_def ext_mem_alloc_type_def ext_mem_alloc_type_aligned_def by (rule alloc_sane)

lemma requests_extend:
  "alloc_volume st = Inr (a, st') \<Longrightarrow> index_extends 0 st st'" "free_volume a st = Inr st' \<Longrightarrow> index_extends 0 st st'"
  "need_xfer_buf st = Inr st' \<Longrightarrow> index_extends 0 st st'" "append_volume v st = Inr st' \<Longrightarrow> index_extends 1 st st'"
  by (auto simp: index_extends_def alloc_volume_def free_volume_def need_xfer_buf_def append_volume_def ext_sane free_sane conv_sane realloc_sane
      split: sum.splits if_splits)

lemma append_volume_length: "append_volume v st = Inr st' \<Longrightarrow> length (volume_index st') = Suc (length (volume_index st))"
  by (auto simp: append_volume_def split: sum.splits)

lemma add_partitions_returns:
  assumes "0 \<le> part" "part \<le> 260"
  shows "ends_with (\<lambda>(st', s'). index_extends (nat (260 - part)) st st') (add_partitions int13 fs part st s)"
  using assms
proof (induction "nat (260 - part)" arbitrary: part st s)
  case 0
  have over: "index_extends n st st2" if "alloc_volume st = Inr (a, st1)" "free_volume a' st1 = Inr st2" for a a' st1 st2 n
    using index_extends_trans [OF requests_extend(1) [OF that(1)] requests_extend(2) [OF that(2)]] by simp
  have past: "part = 260" using 0 by simp
  show ?case unfolding past
    by (subst add_partitions.simps) (auto split: sum.split dest: part_past_end over)
next
  case (Suc k)
  have k: "k = nat (260 - (part + 1))" "0 \<le> part + 1" "part + 1 \<le> 260" using Suc(2,3) by simp_all
  have n: "nat (260 - part) = Suc k" using Suc(2) by simp
  have next_part: "ends_with (\<lambda>(st', s'). index_extends (Suc k) st st') (add_partitions int13 fs (part + 1) st2 s2)"
    if "index_extends 1 st st2" for st2 s2
    using Suc(1) [OF k, of st2 s2] unfolding k(1) [symmetric]
    by (rule ends_with_mono) (use index_extends_trans [OF that, of k] in auto)
  have freed: "index_extends m st st2" if "alloc_volume st = Inr (a, st1)" "free_volume a' st1 = Inr st2" for a a' st1 st2 m
    using index_extends_trans [OF requests_extend(1) [OF that(1)] requests_extend(2) [OF that(2)]] by simp
  have listed: "index_extends 1 st st2" if "alloc_volume st = Inr (a, st1)" "append_volume v st1 = Inr st2" for a v st1 st2
    using index_extends_trans [OF requests_extend(1) [OF that(1)] requests_extend(4) [OF that(2)]] by simp
  show ?case unfolding n
    by (subst add_partitions.simps) (auto split: sum.split intro: next_part freed listed)
qed

lemma enter_drive_returns: "ends_with (index_extends 261 st) (enter_drive fw fs addr block st)"
proof -
  have "ends_with (index_extends 261 st) (case add_partitions (fw_read fw) fs 0 st1 s of
            None \<Rightarrow> None
          | Some (Inl msg) \<Rightarrow> Some (Inl msg)
          | Some (Inr (st2, s')) \<Rightarrow>
              Some (Inr (st2\<lparr>kept_gpt_memo := the_gpt_memo s', kept_none_memo := the_none_memo s',
                             volume_index := (volume_index st2)[length (volume_index st) := volume.truncate s']\<rparr>)))"
    if a: "append_volume v st = Inr st1" for st1 s v
  proof -
    have "ends_with (\<lambda>(st', s'). index_extends 261 st st') (add_partitions (fw_read fw) fs 0 st1 s)"
      by (rule ends_with_mono [OF add_partitions_returns]) (use index_extends_trans [OF requests_extend(4) [OF a], of 260 _ 261] in auto)
    then show ?thesis by (auto simp: ends_with_def index_extends_def split: option.splits sum.splits)
  qed
  then show ?thesis unfolding enter_drive_def by (auto split: sum.split)
qed

lemma index_extends_indices:
  "index_extends k st (st'\<lparr>consumed_bda_disks := i\<rparr>) = index_extends k st st'" "index_extends k st (st'\<lparr>hdd_indices := i\<rparr>) = index_extends k st st'"
  "index_extends k st (st'\<lparr>optical_indices := i\<rparr>) = index_extends k st st'"
  by (simp_all add: index_extends_def)

lemma index_drive_returns: "ends_with (index_extends 261 st) (index_drive fw fs boot d st)"
proof -
  have free: "ends_with (index_extends 261 st) (Some (free_volume a st2))" if "index_extends 0 st st2" for a st2
    using index_extends_trans [OF that requests_extend(2), of a] by (cases "free_volume a st2") auto
  have enter: "ends_with (index_extends 261 st) (enter_drive fw fs a block st4)" if "index_extends 0 st st4" for a block st4
    by (rule ends_with_mono [OF enter_drive_returns]) (use index_extends_trans [OF that, of 261 _ 261] in auto)
  have req: "index_extends 0 st st2" if "alloc_volume st = Inr (a, st1)" "need_xfer_buf st1 = Inr st2" for a st1 st2
    using index_extends_trans [OF requests_extend(1) [OF that(1)] requests_extend(3) [OF that(2)]] by simp
  show ?thesis
    by (auto simp: index_drive_def Let_def index_extends_refl index_extends_indices split: option.split sum.split prod.split
        intro!: free enter dest!: req)
qed

lemma index_drives_returns: "ends_with (index_extends (261 * length ds) st) (index_drives fw fs boot ds st)"
proof (induction ds arbitrary: st)
  case Nil
  then show ?case by (simp add: index_extends_refl)
next
  case (Cons d ds)
  have "ends_with (index_extends (261 * length (d # ds)) st) (index_drives fw fs boot ds st')" if "index_extends 261 st st'" for st'
    by (rule ends_with_mono [OF Cons]) (rule index_extends_trans [OF that], auto)
  then show ?case using index_drive_returns [of st fw fs boot d]
    by (auto simp: ends_with_def [of _ "index_drive fw fs boot d st"] split: option.splits sum.splits)
qed

text \<open>Property C15: building the index of all drives always ends. Whatever the firmware answers, whatever the partition tables hold, whatever
  the probes for a file system do and however much memory there is, \<open>disk_create_index\<close> returns or panics, although its loop over the
  partitions has no bound of its own; an index it returns has at most 261 volumes for each of the 112 drive numbers, and the memory map keeps
  its invariant over all the requests for memory.\<close>

theorem disk_create_index_returns:
  "\<exists>r. disk_create_index fw fs boot h = Some r \<and>
     (case r of Inl msg \<Rightarrow> True | Inr st \<Rightarrow> length (volume_index st) \<le> 112 * 261 \<and> (sane_state h \<longrightarrow> sane_state (heap st)))"
proof -
  have n: "261 * length [0x80..0xEF :: int] = 112 * 261" by simp
  show ?thesis
    using index_drives_returns [of "[0x80..0xEF]" "index_state.make 1 1 0 None None [] 0 0 h" fw fs boot] unfolding n
    by (auto simp: disk_create_index_def ends_with_def index_extends_def index_state.defs simp del: upto_rec_numeral split: option.splits sum.splits)
qed

text \<open>One drive without partitions, and a memory map with a few free pages.\<close>

definition sample_firmware :: firmware where
  "sample_firmware = \<lparr>fw_read = sample_disk,
     fw_params = (\<lambda>d. if d = 0x80 then Some \<lparr>buf_size = 26, info_flags = 0, cyl = 0, heads = 0, sects = 0, lba_count = 4096, bytes_per_sect = 512, dpte_off = 0, dpte_seg = 0\<rparr> else None),
     fw_dpte = (\<lambda>_ _. \<lparr>io_port = 0, control_port = 0, head_reg_upper = 0, bios_vendor_specific = 0, irq_info = 0, block_count_multiple = 0, dma_info = 0, pio_info = 0,
                  dpte_flags = 0, dpte_reserved = 0, dpte_revision = 0, dpte_checksum = 0\<rparr>),
     fw_elapsed = (\<lambda>_ _. 1000), fw_disks = 1\<rparr>"

theorem disk_create_index_returns_witness:
  "\<exists>r. disk_create_index sample_firmware \<lparr>fs_get_guid = yield None, fs_get_label = yield None\<rparr> 0x80 loader_test = Some r \<and>
     (case r of Inl msg \<Rightarrow> True | Inr st \<Rightarrow> length (volume_index st) \<le> 29232 \<and> sane_state (heap st))"
proof -
  let ?fs = "\<lparr>fs_get_guid = yield None, fs_get_label = yield None\<rparr>"
  obtain r where "disk_create_index sample_firmware ?fs 0x80 loader_test = Some r"
      "case r of Inl msg \<Rightarrow> True | Inr st \<Rightarrow> length (volume_index st) \<le> 112 * 261 \<and> (sane_state loader_test \<longrightarrow> sane_state (heap st))"
    using disk_create_index_returns [of sample_firmware ?fs "0x80" loader_test] by blast
  then show ?thesis using loader_test_sane by (cases r) auto
qed

end
