(* ===== verification/Limlz.thy ===== *)
theory Limlz
  imports LoaderGpt
begin

text \<open>
  The front of the packer for the boot loader's second stage, \<^verbatim>\<open>limine/tools/limlzpack.c\<close>: the checksum, the match
  finder and the optimal parse, which chooses for every position of the data a literal or a match. Positions and
  lengths are natural numbers, for the size of the data is below \<open>2 ^ 32\<close>; the arrays of the match finder are
  functions on positions, and what the array \<open>previous\<close> holds before it is written is an argument.
\<close>

section \<open>Checksum\<close>

definition crc_table :: "u32 list" where
  "crc_table = [0x00000000, 0x1DB71064, 0x3B6E20C8, 0x26D930AC, 0x76DC4190, 0x6B6B51F4, 0x4DB26158, 0x5005713C,
                0xEDB88320, 0xF00F9344, 0xD6D6A3E8, 0xCB61B38C, 0x9B64C2B0, 0x86D3D2D4, 0xA00AE278, 0xBDBDF21C]"

definition crc_nibble :: "u32 \<Rightarrow> u32" where
  "crc_nibble crc = drop_bit 4 crc XOR crc_table ! unat (crc AND 15)"

definition limlz_crc32 :: "u8 list \<Rightarrow> u32" where
  "limlz_crc32 bytes = NOT (foldl (\<lambda>crc b. crc_nibble (crc_nibble (crc XOR ucast b))) 0xFFFFFFFF bytes)"

section \<open>Match finder\<close>

definition LIMLZ_MAX_MATCH :: nat where "LIMLZ_MAX_MATCH = 273"
definition CHAIN_LIMIT :: nat where "CHAIN_LIMIT = 128"

record match_finder =
  mf_data :: "u8 list"
  previous :: "nat \<Rightarrow> nat"
  mf_head :: "nat \<Rightarrow> nat"

type_synonym lz_match = "nat \<times> nat"

definition hash_at :: "u8 list \<Rightarrow> nat \<Rightarrow> nat" where
  "hash_at d pos = unat (d ! pos) + 256 * unat (d ! (pos + 1))"

definition mf_insert :: "nat \<Rightarrow> match_finder \<Rightarrow> match_finder" where
  "mf_insert pos mf =
     (if length (mf_data mf) - pos \<ge> 2 then
        let hash = hash_at (mf_data mf) pos
        in mf\<lparr>previous := (previous mf)(pos := mf_head mf hash), mf_head := (mf_head mf)(hash := pos + 1)\<rparr>
      else mf)"

function match_length_from :: "u8 list \<Rightarrow> nat \<Rightarrow> nat \<Rightarrow> nat \<Rightarrow> nat \<Rightarrow> nat" where
  "match_length_from d pos dist limit n =
     (if n < limit \<and> d ! (pos + n) = d ! (pos - dist + n) then match_length_from d pos dist limit (n + 1) else n)"
  by pat_completeness auto
termination by (relation "measure (\<lambda>(d, pos, dist, limit, n). limit - n)") auto

declare match_length_from.simps [simp del]

definition match_length :: "match_finder \<Rightarrow> nat \<Rightarrow> nat \<Rightarrow> nat" where
  "match_length mf pos dist = match_length_from (mf_data mf) pos dist (min (length (mf_data mf) - pos) LIMLZ_MAX_MATCH) 0"

function price_bits :: "nat \<Rightarrow> nat" where
  "price_bits v = (if v \<ge> 4 then 1 + price_bits (v div 2) else 0)"
  by pat_completeness auto
termination by (relation "measure id") auto

declare price_bits.simps [simp del]

definition distance_price :: "nat \<Rightarrow> nat" where
  "distance_price dist = 6 + price_bits (dist - 1)"

section \<open>Parse\<close>

definition length_price :: "nat \<Rightarrow> nat" where
  "length_price n = (if n < 10 then 4 else if n < 18 then 5 else 10)"

text \<open>The lengths of one candidate: the cost of the position and its choice are replaced by any that is not worse.\<close>

primrec try_lengths :: "(nat \<Rightarrow> nat) \<Rightarrow> nat \<Rightarrow> nat \<Rightarrow> nat \<Rightarrow> nat list \<Rightarrow> nat \<times> lz_match \<Rightarrow> nat \<times> lz_match" where
  "try_lengths cost pos price dist [] best = best"
| "try_lengths cost pos price dist (n # ns) best =
     (let next_cost = price + length_price n + cost (pos + n)
      in try_lengths cost pos price dist ns (if next_cost \<le> fst best then (next_cost, (n, dist)) else best))"

primrec try_chain :: "match_finder \<Rightarrow> (nat \<Rightarrow> nat) \<Rightarrow> nat \<Rightarrow> nat \<Rightarrow> nat \<Rightarrow> nat \<Rightarrow> nat \<times> lz_match \<Rightarrow> nat \<times> lz_match" where
  "try_chain mf cost pos 0 candidate longest best = best"
| "try_chain mf cost pos (Suc depth) candidate longest best =
     (if candidate = 0 then best
      else let prev = candidate - 1; candidate' = previous mf prev
           in if longest \<ge> length (mf_data mf) - pos \<or> longest = LIMLZ_MAX_MATCH then best
              else if mf_data mf ! (pos + longest) \<noteq> mf_data mf ! (prev + longest) then try_chain mf cost pos depth candidate' longest best
              else let dist = pos - prev; n = match_length mf pos dist; price = 2 + distance_price dist
                   in try_chain mf cost pos depth candidate' (if n > longest then n else longest)
                        (try_lengths cost pos price dist [longest + 1..<n + 1] best))"

definition parse_at :: "match_finder \<Rightarrow> nat \<Rightarrow> (nat \<Rightarrow> nat) \<times> (nat \<Rightarrow> lz_match) \<Rightarrow> (nat \<Rightarrow> nat) \<times> (nat \<Rightarrow> lz_match)" where
  "parse_at mf pos st =
     (case st of (cost, choices) \<Rightarrow>
        let lit = (9 + cost (pos + 1), (1, 0));
            best = (if length (mf_data mf) - pos < 2 then lit else try_chain mf cost pos CHAIN_LIMIT (previous mf pos) 1 lit)
        in (cost(pos := fst best), choices(pos := snd best)))"

text \<open>From the last position down to the first.\<close>

primrec parse_down :: "match_finder \<Rightarrow> nat \<Rightarrow> (nat \<Rightarrow> nat) \<times> (nat \<Rightarrow> lz_match) \<Rightarrow> (nat \<Rightarrow> nat) \<times> (nat \<Rightarrow> lz_match)" where
  "parse_down mf 0 st = st"
| "parse_down mf (Suc pos) st = parse_down mf pos (parse_at mf pos st)"

definition insert_all :: "match_finder \<Rightarrow> match_finder" where
  "insert_all mf = fold mf_insert [0..<length (mf_data mf)] mf"

text \<open>The costs and choices; \<open>garbage\<close> are the contents of the fresh arrays.\<close>

definition parse :: "(nat \<Rightarrow> nat) \<Rightarrow> (nat \<Rightarrow> lz_match) \<Rightarrow> match_finder \<Rightarrow> (nat \<Rightarrow> nat) \<times> (nat \<Rightarrow> lz_match)" where
  "parse garbage garbage' mf =
     parse_down (insert_all mf) (length (mf_data mf)) (garbage(length (mf_data mf) := 0), garbage')"

section \<open>Tokens\<close>

text \<open>What \<open>compress\<close> writes for a position: a literal, one byte from the last distance, a match at one of the four last distances, or
  a match at a new distance.\<close>

datatype token = Literal u8 | Short_rep | Rep nat nat | Match nat nat

definition match_rep :: "nat list \<Rightarrow> nat \<Rightarrow> nat" where
  "match_rep reps dist = (if dist = reps ! 0 then 0 else if dist = reps ! 1 then 1 else if dist = reps ! 2 then 2 else if dist = reps ! 3 then 3 else 4)"

definition choose_token :: "u8 list \<Rightarrow> lz_match \<Rightarrow> nat list \<Rightarrow> nat \<Rightarrow> token" where
  "choose_token d choice reps pos =
     (case choice of (n, dist) \<Rightarrow>
        if n < 2 then (if reps ! 0 \<le> pos \<and> d ! pos = d ! (pos - reps ! 0) then Short_rep else Literal (d ! pos))
        else if match_rep reps dist < 4 then Rep (match_rep reps dist) n
        else Match n dist)"

text \<open>The entries before \<open>rep\<close> move up by one place, and the distance comes first.\<close>

definition shift_reps :: "nat \<Rightarrow> nat \<Rightarrow> nat list \<Rightarrow> nat list" where
  "shift_reps rep dist reps = dist # take rep reps @ drop (rep + 1) reps"

definition next_reps :: "token \<Rightarrow> nat list \<Rightarrow> nat list" where
  "next_reps t reps = (case t of Literal _ \<Rightarrow> reps | Short_rep \<Rightarrow> reps | Rep r n \<Rightarrow> shift_reps r (reps ! r) reps | Match n dist \<Rightarrow> shift_reps 3 dist reps)"

definition token_length :: "token \<Rightarrow> nat" where
  "token_length t = (case t of Literal _ \<Rightarrow> 1 | Short_rep \<Rightarrow> 1 | Rep r n \<Rightarrow> n | Match n dist \<Rightarrow> n)"

lemma choose_token_pos: "0 < token_length (choose_token d c reps pos)"
  by (auto simp: choose_token_def token_length_def split: prod.splits)

text \<open>The tokens for the data from a position on.\<close>

function tokens_from :: "u8 list \<Rightarrow> (nat \<Rightarrow> lz_match) \<Rightarrow> nat list \<Rightarrow> nat \<Rightarrow> token list" where
  "tokens_from d choices reps pos =
     (if pos < length d then
        let t = choose_token d (choices pos) reps pos
        in t # tokens_from d choices (next_reps t reps) (pos + token_length t)
      else [])"
  by pat_completeness auto
termination
proof (relation "measure (\<lambda>(d, choices, reps, pos). length d - pos)", simp)
  fix d :: "u8 list" and choices :: "nat \<Rightarrow> lz_match" and reps pos t
  assume "pos < length d" "t = choose_token d (choices pos) reps pos"
  then show "((d, choices, next_reps t reps, pos + token_length t), d, choices, reps, pos) \<in> measure (\<lambda>(d, choices, reps, pos). length d - pos)"
    using choose_token_pos [of d "choices pos" reps pos] by simp
qed

declare tokens_from.simps [simp del]

section \<open>The checksum is the bitwise one\<close>

lemma crc32_bit_xor: "crc32_bit (a XOR b) = crc32_bit a XOR crc32_bit b"
proof -
  have low: "c AND 1 \<noteq> 0 \<longleftrightarrow> bit c 0" for c :: u32 by (simp add: bit_0 and_one_eq odd_iff_mod_2_eq_one)
  show ?thesis unfolding crc32_bit_def low by (rule bit_word_eqI) (auto simp: bit_simps)
qed

lemma crc32_bits_xor: "(crc32_bit ^^ n) (a XOR b) = (crc32_bit ^^ n) a XOR (crc32_bit ^^ n) b"
  by (induction n) (simp_all add: crc32_bit_xor)

lemma crc32_bit_push: "crc32_bit (push_bit (Suc n) a) = push_bit n (a :: u32)" if "n < 31" "\<And>k. bit a k \<Longrightarrow> k + Suc n < 32"
proof -
  have "push_bit (Suc n) a AND 1 = 0" by (rule bit_word_eqI) (auto simp: bit_simps simp del: push_bit_Suc)
  moreover have "m < 31" if "bit a (m - n)" "n \<le> m" for m using \<open>\<And>k. bit a k \<Longrightarrow> k + Suc n < 32\<close> [OF that(1)] that(2) by simp
  ultimately show ?thesis unfolding crc32_bit_def by (intro bit_word_eqI) (auto simp: bit_simps simp del: push_bit_Suc)
qed

lemma crc32_bits_high: "(crc32_bit ^^ 4) (push_bit 4 (drop_bit 4 c)) = drop_bit 4 c"
proof -
  have b: "k + 4 < 32" if "bit (drop_bit 4 c) k" for k using that by (auto simp: bit_simps dest: bit_imp_le_length)
  have s: "crc32_bit (push_bit (Suc n) (drop_bit 4 c)) = push_bit n (drop_bit 4 c)" if "n < 4" for n
    by (rule crc32_bit_push) (use that b in \<open>auto dest!: b\<close>)
  have "(crc32_bit ^^ 4) (push_bit 4 (drop_bit 4 c)) = crc32_bit (crc32_bit (crc32_bit (crc32_bit (push_bit (Suc 3) (drop_bit 4 c)))))"
    by (simp add: numeral_eq_Suc)
  also have "\<dots> = crc32_bit (crc32_bit (crc32_bit (push_bit (Suc 2) (drop_bit 4 c))))" by (subst s) (simp_all add: numeral_eq_Suc)
  also have "\<dots> = crc32_bit (crc32_bit (push_bit (Suc 1) (drop_bit 4 c)))" by (subst s) (simp_all add: numeral_eq_Suc)
  also have "\<dots> = crc32_bit (push_bit (Suc 0) (drop_bit 4 c))" by (subst s) simp_all
  also have "\<dots> = drop_bit 4 c" by (subst s) simp_all
  finally show ?thesis .
qed

lemma crc_table_entries: "list_all (\<lambda>i. (crc32_bit ^^ 4) (of_nat i) = crc_table ! i) [0..<16]"
  by code_simp

lemma crc_nibble_bits: "crc_nibble c = (crc32_bit ^^ 4) c"
proof -
  let ?i = "unat (c AND 15)"
  have "c AND 15 = take_bit 4 c" by (rule bit_word_eqI) (auto simp: bit_simps numeral_eq_Suc less_Suc_eq)
  then have i: "?i < 16" using take_bit_nat_less_exp [of 4 "unat c"] by (simp add: unsigned_take_bit_eq)
  have "(crc32_bit ^^ 4) (of_nat ?i) = crc_table ! ?i" using crc_table_entries i unfolding list_all_iff set_upt by (metis atLeastLessThan_iff zero_le)
  moreover have "c = push_bit 4 (drop_bit 4 c) XOR (c AND 15)"
    by (rule bit_word_eqI) (auto simp: bit_simps \<open>c AND 15 = take_bit 4 c\<close>)
  then have "(crc32_bit ^^ 4) c = drop_bit 4 c XOR (crc32_bit ^^ 4) (c AND 15)" by (metis crc32_bits_xor crc32_bits_high)
  ultimately show ?thesis by (simp add: crc_nibble_def)
qed

text \<open>Property C32: the checksum with the table of sixteen entries is the one that the boot loader computes bit by bit.\<close>

theorem limlz_crc32_bitwise: "limlz_crc32 bytes = NOT (crc32_update 0xFFFFFFFF bytes)"
proof -
  have "crc_nibble (crc_nibble c) = (crc32_bit ^^ 8) c" for c
    unfolding crc_nibble_bits by (simp add: numeral_eq_Suc)
  then show ?thesis by (simp add: limlz_crc32_def crc32_update_def crc32_byte_def [abs_def])
qed


section \<open>Every choice is a literal or a true match\<close>

definition same_bytes :: "u8 list \<Rightarrow> nat \<Rightarrow> nat \<Rightarrow> nat \<Rightarrow> bool" where
  "same_bytes d pos dist n \<longleftrightarrow> (\<forall>i < n. d ! (pos + i) = d ! (pos - dist + i))"

definition choice_ok :: "u8 list \<Rightarrow> nat \<Rightarrow> lz_match \<Rightarrow> bool" where
  "choice_ok d pos c \<longleftrightarrow> (case c of (n, dist) \<Rightarrow> pos + n \<le> length d \<and>
     (n = 1 \<and> dist = 0 \<or> 2 \<le> n \<and> n \<le> LIMLZ_MAX_MATCH \<and> 1 \<le> dist \<and> dist \<le> pos \<and> same_bytes d pos dist n))"

lemma match_length_from_ok:
  "same_bytes d pos dist n \<Longrightarrow> n \<le> limit \<Longrightarrow>
     same_bytes d pos dist (match_length_from d pos dist limit n) \<and> match_length_from d pos dist limit n \<le> limit"
proof (induction d pos dist limit n rule: match_length_from.induct)
  case (1 d pos dist limit n)
  show ?case
  proof (cases "n < limit \<and> d ! (pos + n) = d ! (pos - dist + n)")
    case True
    then have "same_bytes d pos dist (n + 1)" using 1(2) by (auto simp: same_bytes_def less_Suc_eq)
    then show ?thesis using 1(1) [OF True] True by (subst (1 2) match_length_from.simps) simp
  next
    case False
    then show ?thesis using 1(2,3) by (subst (1 2) match_length_from.simps) auto
  qed
qed

lemma match_length_ok:
  "same_bytes (mf_data mf) pos dist (match_length mf pos dist)" "match_length mf pos dist \<le> length (mf_data mf) - pos" "match_length mf pos dist \<le> LIMLZ_MAX_MATCH"
  using match_length_from_ok [of "mf_data mf" pos dist 0 "min (length (mf_data mf) - pos) LIMLZ_MAX_MATCH"] by (simp_all add: match_length_def same_bytes_def)

lemma try_lengths_ok:
  "choice_ok d pos (snd best) \<Longrightarrow> (\<And>n. n \<in> set ns \<Longrightarrow> choice_ok d pos (n, dist)) \<Longrightarrow> choice_ok d pos (snd (try_lengths cost pos price dist ns best))"
  by (induction ns arbitrary: best) (simp_all add: Let_def)

text \<open>The chains of the finder lead backwards.\<close>

definition finder_ok :: "match_finder \<Rightarrow> bool" where
  "finder_ok mf \<longleftrightarrow> (\<forall>p. p + 2 \<le> length (mf_data mf) \<longrightarrow> previous mf p \<le> p)"

lemma match_choice:
  assumes "2 \<le> n" "n \<le> match_length mf pos dist" "1 \<le> dist" "dist \<le> pos" "pos \<le> length (mf_data mf)"
  shows "choice_ok (mf_data mf) pos (n, dist)"
proof -
  note m = match_length_ok [of mf pos dist]
  have "same_bytes (mf_data mf) pos dist n" using m(1) assms(2) unfolding same_bytes_def by (meson less_le_trans)
  moreover have "pos + n \<le> length (mf_data mf)" "n \<le> LIMLZ_MAX_MATCH" using m(2,3) assms(2,5) by linarith+
  ultimately show ?thesis using assms(1,3,4) by (simp add: choice_ok_def)
qed

lemma try_chain_ok:
  assumes "finder_ok mf" "pos + 2 \<le> length (mf_data mf)"
  shows "candidate \<le> pos \<Longrightarrow> 1 \<le> longest \<Longrightarrow> choice_ok (mf_data mf) pos (snd best) \<Longrightarrow>
    choice_ok (mf_data mf) pos (snd (try_chain mf cost pos depth candidate longest best))"
proof (induction depth arbitrary: candidate longest best)
  case 0
  then show ?case by (simp only: try_chain.simps)
next
  case (Suc depth)
  define prev where "prev = candidate - 1"
  define dist where "dist = pos - prev"
  define n where "n = match_length mf pos dist"
  define best' where "best' = try_lengths cost pos (2 + distance_price dist) dist [longest + 1..<n + 1] best"
  have step: "try_chain mf cost pos (Suc depth) candidate longest best = (if candidate = 0 then best
      else if longest \<ge> length (mf_data mf) - pos \<or> longest = LIMLZ_MAX_MATCH then best
      else if mf_data mf ! (pos + longest) \<noteq> mf_data mf ! (prev + longest) then try_chain mf cost pos depth (previous mf prev) longest best
      else try_chain mf cost pos depth (previous mf prev) (if n > longest then n else longest) best')"
    by (simp only: try_chain.simps Let_def prev_def dist_def n_def best'_def)
  show ?case
  proof (cases "candidate = 0")
    case True
    then show ?thesis using Suc(4) unfolding step by (simp only: if_True simp_thms)
  next
    case False
    then have p: "prev < pos" "1 \<le> dist" "dist \<le> pos" using Suc(2) by (simp_all add: prev_def dist_def)
    then have "previous mf prev \<le> prev" using assms by (simp add: finder_ok_def)
    then have c: "previous mf prev \<le> pos" using p(1) by simp
    have "choice_ok (mf_data mf) pos (k, dist)" if "k \<in> set [longest + 1..<n + 1]" for k
      using that Suc(3) p assms(2) by (intro match_choice) (auto simp: n_def)
    then have b': "choice_ok (mf_data mf) pos (snd best')" unfolding best'_def by (rule try_lengths_ok [OF Suc(4)])
    have l: "1 \<le> (if n > longest then n else longest)" using Suc(3) by simp
    show ?thesis unfolding step using Suc(1) [OF c Suc(3,4)] Suc(1) [OF c l b'] Suc(4)
      by (cases "length (mf_data mf) - pos \<le> longest \<or> longest = LIMLZ_MAX_MATCH";
          cases "mf_data mf ! (pos + longest) \<noteq> mf_data mf ! (prev + longest)") (simp_all only: if_True if_False False simp_thms)
  qed
qed

lemma insert_all_ok: "mf_data (insert_all mf) = mf_data mf" "(\<And>h. mf_head mf h = 0) \<Longrightarrow> finder_ok (insert_all mf)"
proof -
  have "mf_data (fold mf_insert [0..<k] mf) = mf_data mf \<and> ((\<forall>h. mf_head mf h = 0) \<longrightarrow>
     (\<forall>h. mf_head (fold mf_insert [0..<k] mf) h \<le> k) \<and> (\<forall>p < k. p + 2 \<le> length (mf_data mf) \<longrightarrow> previous (fold mf_insert [0..<k] mf) p \<le> p))" for k
    by (induction k) (auto simp: mf_insert_def Let_def le_Suc_eq less_Suc_eq)
  then show "mf_data (insert_all mf) = mf_data mf" "(\<And>h. mf_head mf h = 0) \<Longrightarrow> finder_ok (insert_all mf)"
    by (auto simp: insert_all_def finder_ok_def)
qed

lemma parse_down_ok:
  assumes "finder_ok mf"
  shows "k \<le> length (mf_data mf) \<Longrightarrow> (\<And>p. k \<le> p \<Longrightarrow> p < length (mf_data mf) \<Longrightarrow> choice_ok (mf_data mf) p (choices p)) \<Longrightarrow>
    p < length (mf_data mf) \<Longrightarrow> choice_ok (mf_data mf) p (snd (parse_down mf k (cost, choices)) p)"
proof (induction k arbitrary: cost choices)
  case (Suc k)
  let ?d = "mf_data mf"
  define best where "best = (if length ?d - k < 2 then (9 + cost (k + 1), (1, 0)) else try_chain mf cost k CHAIN_LIMIT (previous mf k) 1 (9 + cost (k + 1), (1, 0)))"
  have lit: "choice_ok ?d k (1, 0)" using Suc(2) by (simp add: choice_ok_def)
  have "choice_ok ?d k (snd best)"
  proof (cases "length ?d - k < 2")
    case True
    then show ?thesis using lit by (simp add: best_def)
  next
    case False
    then have "k + 2 \<le> length ?d" by simp
    moreover from this have "previous mf k \<le> k" using assms by (simp add: finder_ok_def)
    ultimately show ?thesis using try_chain_ok [OF assms] lit False by (simp add: best_def)
  qed
  then have q: "choice_ok ?d q ((choices(k := snd best)) q)" if "k \<le> q" "q < length ?d" for q using Suc(3) [of q] that by (cases "q = k") auto
  have "parse_down mf (Suc k) (cost, choices) = parse_down mf k (cost(k := fst best), choices(k := snd best))"
    by (simp only: parse_down.simps parse_at_def best_def Let_def prod.case)
  then show ?case using Suc(1) [OF _ q Suc(4), of "cost(k := fst best)"] Suc(2) by (simp only: Suc_leD)
qed simp

lemma parse_ok:
  assumes "\<And>h. mf_head mf h = 0" "p < length (mf_data mf)"
  shows "choice_ok (mf_data mf) p (snd (parse garbage garbage' mf) p)"
  using parse_down_ok [OF insert_all_ok(2) [OF assms(1)], of "length (mf_data mf)" garbage' p "garbage(length (mf_data mf) := 0)"] assms(2)
  by (simp add: parse_def insert_all_ok(1))


section \<open>The tokens describe the data\<close>

text \<open>What a reader of the tokens does: it keeps the bytes so far and the four last distances.\<close>

primrec copy_back :: "nat \<Rightarrow> nat \<Rightarrow> u8 list \<Rightarrow> u8 list" where
  "copy_back dist 0 out = out"
| "copy_back dist (Suc n) out = copy_back dist n (out @ [out ! (length out - dist)])"

definition expand_token :: "token \<Rightarrow> u8 list \<times> nat list \<Rightarrow> u8 list \<times> nat list" where
  "expand_token t st = (case st of (out, reps) \<Rightarrow>
     (case t of Literal b \<Rightarrow> out @ [b] | Short_rep \<Rightarrow> copy_back (reps ! 0) 1 out | Rep r n \<Rightarrow> copy_back (reps ! r) n out
      | Match n dist \<Rightarrow> copy_back dist n out, next_reps t reps))"

definition expand :: "token list \<Rightarrow> u8 list \<times> nat list \<Rightarrow> u8 list \<times> nat list" where
  "expand = fold expand_token"

lemma copy_back_take:
  "same_bytes d pos dist n \<Longrightarrow> pos + n \<le> length d \<Longrightarrow> 1 \<le> dist \<Longrightarrow> dist \<le> pos \<Longrightarrow> copy_back dist n (take pos d) = take (pos + n) d"
proof (induction n arbitrary: pos)
  case (Suc n)
  have l: "length (take pos d) = pos" using Suc(3) by simp
  have "d ! pos = d ! (pos - dist)" using Suc(2) by (auto simp: same_bytes_def dest: spec [of _ 0])
  then have "take pos d @ [take pos d ! (length (take pos d) - dist)] = take (Suc pos) d"
    using Suc(3-5) unfolding l by (simp add: take_Suc_conv_app_nth)
  moreover have "same_bytes d (Suc pos) dist n" using Suc(2,5) unfolding same_bytes_def
    by (metis Suc_diff_le Suc_less_eq add_Suc add_Suc_right)
  then have "copy_back dist n (take (Suc pos) d) = take (Suc pos + n) d" using Suc(1) [of "Suc pos"] Suc(3-5) by simp
  ultimately show ?case by simp
qed simp

lemma match_rep_nth: "match_rep reps dist < 4 \<Longrightarrow> reps ! match_rep reps dist = dist"
  by (auto simp: match_rep_def split: if_splits)

lemma expand_choice:
  assumes "choice_ok d pos c" "pos < length d" "1 \<le> reps ! 0"
  defines "t \<equiv> choose_token d c reps pos"
  shows "expand_token t (take pos d, reps) = (take (pos + token_length t) d, next_reps t reps)"
proof -
  obtain n dist where c: "c = (n, dist)" by (cases c)
  show ?thesis
  proof (cases "n < 2")
    case True
    show ?thesis
    proof (cases "reps ! 0 \<le> pos \<and> d ! pos = d ! (pos - reps ! 0)")
      case s: True
      then have t: "t = Short_rep" using True by (simp add: t_def choose_token_def c)
      have "same_bytes d pos (reps ! 0) 1" using s by (simp add: same_bytes_def)
      then show ?thesis using copy_back_take [of d pos "reps ! 0" 1] assms(2,3) s by (simp add: t expand_token_def token_length_def)
    next
      case False
      then have t: "t = Literal (d ! pos)" using True by (auto simp: t_def choose_token_def c)
      then show ?thesis using assms(2) by (simp add: expand_token_def token_length_def take_Suc_conv_app_nth)
    qed
  next
    case False
    then have m: "same_bytes d pos dist n" "pos + n \<le> length d" "1 \<le> dist" "dist \<le> pos" using assms(1) by (auto simp: choice_ok_def c)
    show ?thesis
    proof (cases "match_rep reps dist < 4")
      case True
      then have "t = Rep (match_rep reps dist) n" using False by (simp add: t_def choose_token_def c)
      then show ?thesis using copy_back_take [OF m] match_rep_nth [OF True] by (simp add: expand_token_def token_length_def)
    next
      case nr: False
      then have "t = Match n dist" using False by (simp add: t_def choose_token_def c)
      then show ?thesis using copy_back_take [OF m] by (simp add: expand_token_def token_length_def)
    qed
  qed
qed

lemma next_reps_pos:
  assumes "choice_ok d pos c" "1 \<le> reps ! 0"
  shows "1 \<le> next_reps (choose_token d c reps pos) reps ! 0"
proof -
  obtain n dist where c: "c = (n, dist)" by (cases c)
  show ?thesis using assms match_rep_nth [of reps dist]
    by (auto simp: choice_ok_def choose_token_def next_reps_def shift_reps_def c split: if_splits)
qed

lemma expand_tokens:
  assumes "\<And>p. p < length d \<Longrightarrow> choice_ok d p (choices p)" "1 \<le> reps ! 0" "pos \<le> length d"
  shows "fst (expand (tokens_from d choices reps pos) (take pos d, reps)) = d"
  using assms(2,3)
proof (induction "length d - pos" arbitrary: pos reps rule: less_induct)
  case less
  show ?case
  proof (cases "pos < length d")
    case False
    then show ?thesis using less(3) by (subst tokens_from.simps) (simp add: expand_def)
  next
    case True
    let ?t = "choose_token d (choices pos) reps pos"
    note ok = assms(1) [OF True]
    note e = expand_choice [OF ok True less(2)]
    have le: "pos + token_length ?t \<le> length d"
      using ok True by (cases "choices pos") (auto simp: choose_token_def token_length_def choice_ok_def)
    have "length d - (pos + token_length ?t) < length d - pos" using True choose_token_pos [of d "choices pos" reps pos] by simp
    from less(1) [OF this next_reps_pos [OF ok less(2)] le]
    show ?thesis using True e by (subst tokens_from.simps) (simp add: Let_def expand_def)
  qed
qed

text \<open>Property C40: whatever the fresh arrays held, the tokens that come out of the parse describe exactly the data: a reader that copies literals and
  matches, with the list of the last distances, rebuilds it.\<close>

theorem parse_expands:
  assumes "\<forall>h. mf_head mf h = 0"
  shows "fst (expand (tokens_from (mf_data mf) (snd (parse garbage garbage' mf)) [1, 1, 1, 1] 0) ([], [1, 1, 1, 1])) = mf_data mf"
  using expand_tokens [of "mf_data mf" "snd (parse garbage garbage' mf)" "[1, 1, 1, 1]" 0] parse_ok assms by simp

theorem parse_expands_witness:
  "fst (expand (tokens_from [97, 98, 97, 98, 97] (snd (parse (\<lambda>_. 7) (\<lambda>_. (0, 0)) \<lparr>mf_data = [97, 98, 97, 98, 97], previous = (\<lambda>_. 9), mf_head = (\<lambda>_. 0)\<rparr>)) [1, 1, 1, 1] 0)
     ([], [1, 1, 1, 1])) = [97, 98, 97, 98, 97]"
  using parse_expands [of "\<lparr>mf_data = [97, 98, 97, 98, 97], previous = (\<lambda>_. 9), mf_head = (\<lambda>_. 0)\<rparr>" "\<lambda>_. 7" "\<lambda>_. (0, 0)"] by simp

end
