(* ===== verification/LimlzCoder.thy ===== *)
theory LimlzCoder
  imports Limlz
begin

text \<open>
  The range encoder of the packer, \<^verbatim>\<open>limine/tools/limlzpack.c\<close>, with its delayed carry. It takes a sequence of decisions, each a bit with the index of its
  probability or a bit of even chance. The decoder for such a sequence is that of \<^verbatim>\<open>limine/stage1/decompressor.asm\<close>; it is proved to read the decisions back.
  Whether memory can be had for a larger buffer is the argument \<open>grow\<close>.
\<close>

section \<open>Range encoder\<close>

definition LIMLZ_PROBS :: nat where "LIMLZ_PROBS = 4918"
definition LIMLZ_IS_REP :: nat where "LIMLZ_IS_REP = 192"
definition LIMLZ_REP_G0 :: nat where "LIMLZ_REP_G0 = 204"
definition LIMLZ_REP_G1 :: nat where "LIMLZ_REP_G1 = 216"
definition LIMLZ_REP_G2 :: nat where "LIMLZ_REP_G2 = 228"
definition LIMLZ_REP_LONG :: nat where "LIMLZ_REP_LONG = 240"
definition LIMLZ_SLOT :: nat where "LIMLZ_SLOT = 432"
definition LIMLZ_SPECIAL :: nat where "LIMLZ_SPECIAL = 688"
definition LIMLZ_ALIGN :: nat where "LIMLZ_ALIGN = 802"
definition LIMLZ_LENGTH :: nat where "LIMLZ_LENGTH = 818"
definition LIMLZ_REP_LENGTH :: nat where "LIMLZ_REP_LENGTH = 1332"
definition LIMLZ_LITERAL :: nat where "LIMLZ_LITERAL = 1846"

lemmas limlz_offsets = LIMLZ_IS_REP_def LIMLZ_REP_G0_def LIMLZ_REP_G1_def LIMLZ_REP_G2_def LIMLZ_REP_LONG_def LIMLZ_SLOT_def
  LIMLZ_SPECIAL_def LIMLZ_ALIGN_def LIMLZ_LENGTH_def LIMLZ_REP_LENGTH_def LIMLZ_LITERAL_def

record range_encoder =
  rc_data :: "u8 list"
  rc_capacity :: nat
  rc_low :: u64
  rc_range :: u32
  pending :: nat
  rc_cache :: u8
  rc_error :: bool
  probs :: "nat \<Rightarrow> u16"

definition put_byte :: "(nat \<Rightarrow> bool) \<Rightarrow> u8 \<Rightarrow> range_encoder \<Rightarrow> range_encoder" where
  "put_byte grow v rc =
     (if rc_error rc then rc
      else if length (rc_data rc) = rc_capacity rc then
        (if rc_capacity rc > (2 ^ 64 - 1) div 2 then rc\<lparr>rc_error := True\<rparr>
         else let cap = (if rc_capacity rc \<noteq> 0 then rc_capacity rc * 2 else 4096)
              in if \<not> grow cap then rc\<lparr>rc_error := True\<rparr>
                 else rc\<lparr>rc_capacity := cap, rc_data := rc_data rc @ [v]\<rparr>)
      else rc\<lparr>rc_data := rc_data rc @ [v]\<rparr>)"

definition put32 :: "(nat \<Rightarrow> bool) \<Rightarrow> u32 \<Rightarrow> range_encoder \<Rightarrow> range_encoder" where
  "put32 grow v rc = fold (\<lambda>i. put_byte grow (ucast (drop_bit i v))) [0, 8, 16, 24] rc"

text \<open>The loop of \<open>shift_low\<close>: the cached byte and the bytes 255 behind it, all with the carry.\<close>

primrec put_pending :: "(nat \<Rightarrow> bool) \<Rightarrow> u8 \<Rightarrow> nat \<Rightarrow> u8 \<Rightarrow> range_encoder \<Rightarrow> range_encoder" where
  "put_pending grow carry 0 v rc = rc"
| "put_pending grow carry (Suc n) v rc = put_pending grow carry n 255 (put_byte grow (v + carry) rc)"

definition shift_low :: "(nat \<Rightarrow> bool) \<Rightarrow> range_encoder \<Rightarrow> range_encoder" where
  "shift_low grow rc =
     (let low = ucast (rc_low rc) :: u32;
          carry = drop_bit 32 (rc_low rc);
          rc1 = (if low < 0xFF000000 \<or> carry \<noteq> 0
                 then (put_pending grow (ucast carry) (pending rc) (rc_cache rc) rc)\<lparr>pending := 0, rc_cache := ucast (drop_bit 24 low)\<rparr>
                 else rc)
      in rc1\<lparr>pending := pending rc1 + 1, rc_low := ucast (push_bit 8 low)\<rparr>)"

definition normalise :: "(nat \<Rightarrow> bool) \<Rightarrow> range_encoder \<Rightarrow> range_encoder" where
  "normalise grow rc =
     (if rc_range rc < 0x1000000 then shift_low grow (rc\<lparr>rc_range := push_bit 8 (rc_range rc)\<rparr>) else rc)"

definition encode_bit :: "(nat \<Rightarrow> bool) \<Rightarrow> nat \<Rightarrow> bool \<Rightarrow> range_encoder \<Rightarrow> range_encoder" where
  "encode_bit grow index b rc =
     (let p = probs rc index;
          bound = drop_bit 11 (rc_range rc) * ucast p
      in normalise grow
           (if \<not> b then rc\<lparr>rc_range := bound, probs := (probs rc)(index := p + drop_bit 5 (2048 - p))\<rparr>
            else rc\<lparr>rc_low := rc_low rc + ucast bound, rc_range := rc_range rc - bound,
                    probs := (probs rc)(index := p - drop_bit 5 p)\<rparr>))"

text \<open>A bit of even chance, the loop body in \<open>encode_distance\<close>.\<close>

definition encode_direct :: "(nat \<Rightarrow> bool) \<Rightarrow> bool \<Rightarrow> range_encoder \<Rightarrow> range_encoder" where
  "encode_direct grow b rc =
     (let r = drop_bit 1 (rc_range rc)
      in normalise grow (rc\<lparr>rc_range := r, rc_low := (if b then rc_low rc + ucast r else rc_low rc)\<rparr>))"

datatype decision = Bit nat bool | Direct bool

definition encode_decision :: "(nat \<Rightarrow> bool) \<Rightarrow> decision \<Rightarrow> range_encoder \<Rightarrow> range_encoder" where
  "encode_decision grow dc rc = (case dc of Bit i b \<Rightarrow> encode_bit grow i b rc | Direct b \<Rightarrow> encode_direct grow b rc)"

definition encode_all :: "(nat \<Rightarrow> bool) \<Rightarrow> decision list \<Rightarrow> range_encoder \<Rightarrow> range_encoder" where
  "encode_all grow = fold (encode_decision grow)"

definition flush :: "(nat \<Rightarrow> bool) \<Rightarrow> range_encoder \<Rightarrow> range_encoder" where
  "flush grow = (shift_low grow ^^ 5)"

section \<open>Range decoder\<close>

record range_decoder =
  de_range :: u32
  de_code :: u32
  de_source :: "u8 list"
  de_probs :: "nat \<Rightarrow> u16"

text \<open>\<open>None\<close> is the jump to the error message at the end of the source.\<close>

definition de_normalise :: "range_decoder \<Rightarrow> range_decoder option" where
  "de_normalise de =
     (if de_range de \<ge> 0x1000000 then Some de
      else case de_source de of
             [] \<Rightarrow> None
           | b # bs \<Rightarrow> Some (de\<lparr>de_range := push_bit 8 (de_range de), de_code := push_bit 8 (de_code de) OR ucast b, de_source := bs\<rparr>))"

definition decode_bit :: "nat \<Rightarrow> range_decoder \<Rightarrow> (bool \<times> range_decoder) option" where
  "decode_bit index de0 =
     (case de_normalise de0 of
        None \<Rightarrow> None
      | Some de \<Rightarrow>
          let p = de_probs de index;
              bound = drop_bit 11 (de_range de) * ucast p
          in if de_code de < bound
             then Some (False, de\<lparr>de_range := bound, de_probs := (de_probs de)(index := p + drop_bit 5 (2048 - p))\<rparr>)
             else Some (True, de\<lparr>de_code := de_code de - bound, de_range := de_range de - bound,
                                 de_probs := (de_probs de)(index := p - drop_bit 5 p)\<rparr>))"

definition decode_direct :: "range_decoder \<Rightarrow> (bool \<times> range_decoder) option" where
  "decode_direct de0 =
     (case de_normalise de0 of
        None \<Rightarrow> None
      | Some de \<Rightarrow>
          let r = drop_bit 1 (de_range de)
          in if de_code de < r then Some (False, de\<lparr>de_range := r\<rparr>)
             else Some (True, de\<lparr>de_range := r, de_code := de_code de - r\<rparr>))"

text \<open>What the decoder must know before it reads a bit: the index of its probability, if it has one.\<close>

definition decision_kind :: "decision \<Rightarrow> nat option" where
  "decision_kind dc = (case dc of Bit i b \<Rightarrow> Some i | Direct b \<Rightarrow> None)"

definition bit_of :: "decision \<Rightarrow> bool" where
  "bit_of dc = (case dc of Bit i b \<Rightarrow> b | Direct b \<Rightarrow> b)"

definition read_kind :: "nat option \<Rightarrow> range_decoder \<Rightarrow> (bool \<times> range_decoder) option" where
  "read_kind k de = (case k of Some i \<Rightarrow> decode_bit i de | None \<Rightarrow> decode_direct de)"

primrec decode_all :: "nat option list \<Rightarrow> range_decoder \<Rightarrow> (bool list \<times> range_decoder) option" where
  "decode_all [] de = Some ([], de)"
| "decode_all (k # ks) de =
     (case read_kind k de of
        None \<Rightarrow> None
      | Some (b, de') \<Rightarrow> map_option (\<lambda>(bs, de''). (b # bs, de'')) (decode_all ks de'))"

text \<open>The end: the number is used up and so is the source.\<close>

definition decoder_done :: "range_decoder \<Rightarrow> bool" where
  "decoder_done de = (case de_normalise de of None \<Rightarrow> False | Some de' \<Rightarrow> de_code de' = 0 \<and> de_source de' = [])"

fun be_value :: "u8 list \<Rightarrow> nat" where
  "be_value [] = 0"
| "be_value (b # bs) = unat b * 256 ^ length bs + be_value bs"

text \<open>The start: the first byte of the stream is zero, the next four are the code.\<close>

definition decoder_start :: "u8 list \<Rightarrow> range_decoder option" where
  "decoder_start s =
     (if length s < 5 \<or> s ! 0 \<noteq> 0 then None
      else Some \<lparr>de_range = 0xFFFFFFFF, de_code = of_nat (be_value (take 4 (drop 1 s))), de_source = drop 5 s, de_probs = (\<lambda>_. 1024)\<rparr>)"

section \<open>The encoder computes with unbounded numbers\<close>

lemma be_append: "be_value (xs @ ys) = be_value xs * 256 ^ length ys + be_value ys"
  by (induction xs) (simp_all add: algebra_simps power_add)

lemma be_less: "be_value bs < 256 ^ length bs"
proof (induction bs)
  case (Cons b bs)
  have "unat b < 256" using unat_lt2p [of b] by simp
  then have "(unat b + 1) * 256 ^ length bs \<le> 256 * 256 ^ length bs" by (intro mult_le_mono1) simp
  also have "\<dots> = 256 ^ length (b # bs)" by simp
  finally have le: "unat b * 256 ^ length bs + 256 ^ length bs \<le> 256 ^ length (b # bs)" by (simp add: distrib_right)
  have "be_value (b # bs) < unat b * 256 ^ length bs + 256 ^ length bs" using Cons by simp
  then show ?case using le by (rule less_le_trans)
qed simp

lemma be_replicate: "be_value (replicate n 255) + 1 = 256 ^ n" "be_value (replicate n 0) = 0"
  by (induction n) simp_all

text \<open>The bytes written, the cached byte and the bytes 255 behind it, and \<open>low\<close> form one number.\<close>

definition exact :: "range_encoder \<Rightarrow> nat" where
  "exact rc = (be_value (rc_data rc) * 256 ^ pending rc + unat (rc_cache rc) * 256 ^ (pending rc - 1) + (256 ^ (pending rc - 1) - 1)) * 2 ^ 32 + unat (rc_low rc)"

definition written :: "range_encoder \<Rightarrow> nat" where
  "written rc = length (rc_data rc) + pending rc"

definition ceiling :: "range_encoder \<Rightarrow> nat" where
  "ceiling rc = (be_value (rc_data rc) + 1) * 256 ^ pending rc * 2 ^ 32"

lemma put_byte_ok: "\<not> rc_error (put_byte grow v rc) \<Longrightarrow> \<not> rc_error rc \<and> rc_data (put_byte grow v rc) = rc_data rc @ [v]"
  by (auto simp: put_byte_def Let_def split: if_splits)

lemma put_byte_fields [simp]:
  "rc_low (put_byte grow v rc) = rc_low rc" "rc_range (put_byte grow v rc) = rc_range rc" "probs (put_byte grow v rc) = probs rc"
  "pending (put_byte grow v rc) = pending rc" "rc_cache (put_byte grow v rc) = rc_cache rc"
  by (simp_all add: put_byte_def Let_def)

lemma put_pending_ok:
  "\<not> rc_error (put_pending grow c (Suc n) v rc) \<Longrightarrow>
     \<not> rc_error rc \<and> rc_data (put_pending grow c (Suc n) v rc) = rc_data rc @ (v + c) # replicate n (255 + c)"
proof (induction n arbitrary: v rc)
  case (Suc n)
  have "\<not> rc_error (put_byte grow (v + c) rc) \<and> rc_data (put_pending grow c (Suc (Suc n)) v rc) = rc_data (put_byte grow (v + c) rc) @ (255 + c) # replicate n (255 + c)"
    using Suc(1) [of 255 "put_byte grow (v + c) rc"] Suc(2) by simp
  then show ?case using put_byte_ok [of grow "v + c" rc] by simp
qed (auto dest: put_byte_ok)

lemma put_pending_fields [simp]:
  "rc_low (put_pending grow c n v rc) = rc_low rc" "rc_range (put_pending grow c n v rc) = rc_range rc" "probs (put_pending grow c n v rc) = probs rc"
  by (induction n arbitrary: v rc) simp_all


lemma low_parts:
  assumes "unat (w :: u64) < 2 ^ 33"
  shows "unat (ucast w :: u32) = unat w mod 2 ^ 32" "unat (drop_bit 32 w) = unat w div 2 ^ 32" "unat (ucast (drop_bit 32 w) :: u8) = unat w div 2 ^ 32"
    "unat w div 2 ^ 32 = 0 \<or> unat w div 2 ^ 32 = 1"
proof -
  show "unat (ucast w :: u32) = unat w mod 2 ^ 32" by (simp add: unsigned_ucast_eq unsigned_take_bit_eq take_bit_eq_mod)
  show d: "unat (drop_bit 32 w) = unat w div 2 ^ 32" by (simp add: drop_bit_eq_div unat_div)
  have "unat w div 2 ^ 32 < 2" using assms by (simp add: less_mult_imp_div_less)
  then show t: "unat w div 2 ^ 32 = 0 \<or> unat w div 2 ^ 32 = 1" by linarith
  have "unat (ucast (drop_bit 32 w) :: u8) = unat (drop_bit 32 w) mod 256" by (simp add: unsigned_ucast_eq unsigned_take_bit_eq take_bit_eq_mod)
  then show "unat (ucast (drop_bit 32 w) :: u8) = unat w div 2 ^ 32" using d t by auto
qed

lemma low_words:
  fixes lo :: u32
  shows "unat (ucast (drop_bit 24 lo) :: u8) = unat lo div 2 ^ 24" "unat (ucast (push_bit 8 lo) :: u64) = unat lo * 256 mod 2 ^ 32"
proof -
  have "unat lo div 2 ^ 24 < 256" using unat_lt2p [of lo] by (simp add: less_mult_imp_div_less)
  then show "unat (ucast (drop_bit 24 lo) :: u8) = unat lo div 2 ^ 24"
    by (simp add: unsigned_ucast_eq unsigned_take_bit_eq drop_bit_eq_div unat_div take_bit_eq_mod)
  show "unat (ucast (push_bit 8 lo) :: u64) = unat lo * 256 mod 2 ^ 32"
    by (simp add: unat_xfer64 push_bit_eq_mult unat_word_ariths)
qed

lemma top_byte: "lo * 256 = lo div 2 ^ 24 * 2 ^ 32 + lo * 256 mod 2 ^ 32" for lo :: nat
proof -
  have "lo * 256 mod 2 ^ 32 = lo mod 2 ^ 24 * 256" using mult_mod_left [of lo "2 ^ 24" 256] by simp
  moreover have "lo * 256 = (lo div 2 ^ 24 * 2 ^ 24 + lo mod 2 ^ 24) * 256" by simp
  then have "lo * 256 = lo div 2 ^ 24 * 2 ^ 32 + lo mod 2 ^ 24 * 256" unfolding distrib_right mult.assoc by simp
  ultimately show ?thesis by simp
qed

text \<open>The bytes that a flush writes.\<close>

lemma be_flushed:
  assumes "cy = 0 \<or> cy = 1" "unat (carry :: u8) = cy" "unat (c :: u8) + cy < 256"
  shows "be_value (ds @ (c + carry) # replicate n (255 + carry)) + 1 = be_value ds * 256 ^ Suc n + unat c * 256 ^ n + 256 ^ n + cy"
proof -
  have u: "unat (c + carry) = unat c + cy" using assms(2,3) by (simp add: unat_word_ariths)
  have r: "be_value (replicate n (255 + carry)) + 1 = (if cy = 0 then 256 ^ n else 1)"
  proof (cases "cy = 0")
    case True
    then have "carry = 0" using assms(2) by (metis unat_0 word_unat_eq_iff)
    then show ?thesis using True be_replicate(1) [of n] by simp
  next
    case False
    then have "carry = 1" using assms(1,2) by (metis unat_1 word_unat_eq_iff)
    moreover have "255 + 1 = (0 :: u8)" by (rule word_unat_eq_iff [THEN iffD2]) (simp add: unat_word_ariths)
    ultimately have "255 + carry = 0" by (simp only:)
    then show ?thesis using False be_replicate(2) [of n] by simp
  qed
  have "be_value (ds @ (c + carry) # replicate n (255 + carry)) + 1 = be_value ds * 256 ^ Suc n + (unat c + cy) * 256 ^ n + (be_value (replicate n (255 + carry)) + 1)"
    by (simp add: be_append u)
  then show ?thesis unfolding r using assms(1) by (auto simp: distrib_right)
qed

lemma exact_alt:
  assumes "pending rc = Suc n"
  shows "exact rc + 2 ^ 32 = (be_value (rc_data rc) * 256 ^ Suc n + unat (rc_cache rc) * 256 ^ n + 256 ^ n) * 2 ^ 32 + unat (rc_low rc)"
proof -
  have "1 \<le> (256 :: nat) ^ n" by simp
  then obtain q where q: "(256 :: nat) ^ n = Suc q" by (metis Suc_le_D One_nat_def)
  have "exact rc = (be_value (rc_data rc) * 256 ^ Suc n + unat (rc_cache rc) * 256 ^ n + q) * 2 ^ 32 + unat (rc_low rc)"
    by (simp add: exact_def assms q)
  then show ?thesis by (simp add: q distrib_right)
qed

lemma shift_low_exact:
  assumes "pending rc \<noteq> 0" "\<not> rc_error (shift_low grow rc)" "0 < x" "x \<le> 2 ^ 24" "unat (rc_low rc) + x \<le> 2 ^ 33" "exact rc + x \<le> ceiling rc"
  shows "exact (shift_low grow rc) = 256 * exact rc" "exact (shift_low grow rc) + 256 * x \<le> ceiling (shift_low grow rc)"
    "unat (rc_low (shift_low grow rc)) < 2 ^ 32" "pending (shift_low grow rc) \<noteq> 0" "written (shift_low grow rc) = Suc (written rc)" "\<not> rc_error rc"
    "rc_range (shift_low grow rc) = rc_range rc" "probs (shift_low grow rc) = probs rc"
proof -
  let ?w = "unat (rc_low rc)" and ?B = "be_value (rc_data rc)" and ?c = "unat (rc_cache rc)" and ?r = "shift_low grow rc"
  obtain n where n: "pending rc = Suc n" using assms(1) by (cases "pending rc") auto
  have w33: "?w < 2 ^ 33" using assms(3,5) by simp
  note lp = low_parts [OF w33]
  define lo where "lo = ?w mod 2 ^ 32"
  define cy where "cy = ?w div 2 ^ 32"
  have w: "?w = cy * 2 ^ 32 + lo" "lo < 2 ^ 32" "cy = 0 \<or> cy = 1" using lp(4) by (simp_all add: lo_def cy_def)
  have ea: "exact rc + 2 ^ 32 = (?B * 256 ^ Suc n + ?c * 256 ^ n + 256 ^ n) * 2 ^ 32 + ?w" by (rule exact_alt [OF n])
  have lw: "unat (rc_low ?r) = lo * 256 mod 2 ^ 32" using lp(1) low_words(2) [of "ucast (rc_low rc)"] by (simp add: shift_low_def Let_def lo_def)
  then show "unat (rc_low ?r) < 2 ^ 32" by simp
  show "rc_range ?r = rc_range rc" "probs ?r = probs rc" by (simp_all add: shift_low_def Let_def)
  have cond: "(ucast (rc_low rc) :: u32) < 0xFF000000 \<longleftrightarrow> lo < 0xFF000000" "drop_bit 32 (rc_low rc) \<noteq> 0 \<longleftrightarrow> cy \<noteq> 0"
    using lp(1,2) by (simp add: word_less_nat_alt lo_def, simp only: word_unat_eq_iff unat_0 cy_def)
  show "pending ?r \<noteq> 0" by (simp add: shift_low_def Let_def)
  have "exact ?r = 256 * exact rc \<and> exact ?r + 256 * x \<le> ceiling ?r \<and> written ?r = Suc (written rc) \<and> \<not> rc_error rc"
  proof (cases "lo < 0xFF000000 \<or> cy \<noteq> 0")
    case False
    then have r: "pending ?r = Suc (Suc n)" "rc_data ?r = rc_data rc" "rc_cache ?r = rc_cache rc" "rc_error ?r = rc_error rc"
      using cond by (simp_all add: shift_low_def Let_def n)
    have "255 * 2 ^ 24 \<le> lo" "lo < 256 * 2 ^ 24" using False w(2) by simp_all
    then have "lo div 2 ^ 24 = 255" by (intro div_nat_eqI) simp_all
    then have "lo * 256 = 255 * 2 ^ 32 + lo * 256 mod 2 ^ 32" using top_byte [of lo] by simp
    then have "exact ?r + 2 ^ 32 = 256 * (exact rc + 2 ^ 32) - 255 * 2 ^ 32"
      using exact_alt [OF r(1)] ea w(1) False lw by (simp add: r distrib_right distrib_left)
    then have e: "exact ?r = 256 * exact rc" by simp
    have "ceiling ?r = 256 * ceiling rc" by (simp add: ceiling_def r n)
    then show ?thesis using e assms(2,6) r by (simp add: written_def n)
  next
    case True
    have fl: "(if (ucast (rc_low rc) :: u32) < 0xFF000000 \<or> drop_bit 32 (rc_low rc) \<noteq> 0 then a else b) = a" for a b :: range_encoder using True cond by simp
    define ds where "ds = rc_data (put_pending grow (ucast (drop_bit 32 (rc_low rc))) (Suc n) (rc_cache rc) rc)"
    have r: "pending ?r = 1" "rc_data ?r = ds" "unat (rc_cache ?r) = lo div 2 ^ 24"
        "rc_error ?r = rc_error (put_pending grow (ucast (drop_bit 32 (rc_low rc))) (Suc n) (rc_cache rc) rc)"
      using low_words(1) [of "ucast (rc_low rc)"] lp(1) unfolding shift_low_def Let_def fl n ds_def lo_def by simp_all
    have noc: "?c + cy < 256"
    proof (rule ccontr)
      assume "\<not> ?c + cy < 256"
      moreover have "?c < 256" using unat_lt2p [of "rc_cache rc"] by simp
      ultimately have "?c = 255" "cy = 1" using w(3) by auto
      then have "exact rc + 2 ^ 32 = (?B * 256 ^ Suc n + 256 ^ Suc n) * 2 ^ 32 + 2 ^ 32 + lo" using ea w(1) by simp
      moreover have "ceiling rc = (?B * 256 ^ Suc n + 256 ^ Suc n) * 2 ^ 32" by (simp add: ceiling_def n distrib_right)
      ultimately show False using assms(3,6) by linarith
    qed
    have pp: "\<not> rc_error rc" "ds = rc_data rc @ (rc_cache rc + ucast (drop_bit 32 (rc_low rc))) # replicate n (255 + ucast (drop_bit 32 (rc_low rc)))"
      using put_pending_ok [of grow _ n "rc_cache rc" rc] assms(2) r(4) by (auto simp: ds_def)
    have "unat (ucast (drop_bit 32 (rc_low rc)) :: u8) = cy" using lp(3) by (simp add: cy_def)
    from be_flushed [OF w(3) this noc] pp(2) have ds: "be_value ds + 1 = ?B * 256 ^ Suc n + ?c * 256 ^ n + 256 ^ n + cy" by simp
    then have "(be_value ds + 1) * 2 ^ 32 = (?B * 256 ^ Suc n + ?c * 256 ^ n + 256 ^ n) * 2 ^ 32 + cy * 2 ^ 32" by (simp add: distrib_right)
    then have ed: "exact rc = be_value ds * 2 ^ 32 + lo" using ea w(1) by (simp add: distrib_right)
    have e: "exact ?r = 256 * exact rc" using top_byte [of lo] unfolding ed by (simp add: exact_def r lw distrib_right)
    have "lo + x \<le> 2 ^ 32" using True w assms(4,5) by auto
    then have "256 * exact rc + 256 * x \<le> ceiling ?r" unfolding ed by (simp add: ceiling_def r distrib_right)
    moreover have "written ?r = Suc (written rc)" using pp(2) by (simp add: written_def r n)
    ultimately show ?thesis using e pp(1) by simp
  qed
  then show "exact ?r = 256 * exact rc" "exact ?r + 256 * x \<le> ceiling ?r" "written ?r = Suc (written rc)" "\<not> rc_error rc" by simp_all
qed


section \<open>A decision narrows the interval\<close>

definition prob_ok :: "u16 \<Rightarrow> bool" where
  "prob_ok p \<longleftrightarrow> 31 \<le> unat p \<and> unat p \<le> 2017"

definition rc_ok :: "range_encoder \<Rightarrow> bool" where
  "rc_ok rc \<longleftrightarrow> pending rc \<noteq> 0 \<and> unat (rc_low rc) + unat (rc_range rc) < 2 ^ 33 \<and> 2 ^ 24 \<le> unat (rc_range rc) \<and>
     exact rc + unat (rc_range rc) \<le> ceiling rc \<and> (\<forall>i. prob_ok (probs rc i))"

definition next_prob :: "bool \<Rightarrow> u16 \<Rightarrow> u16" where
  "next_prob b p = (if b then p - drop_bit 5 p else p + drop_bit 5 (2048 - p))"

lemma next_prob_ok: "prob_ok p \<Longrightarrow> prob_ok (next_prob b p)"
proof -
  assume "prob_ok p"
  then have p: "31 \<le> unat p" "unat p \<le> 2017" by (simp_all add: prob_ok_def)
  define m where "m = unat p div 32"
  define k where "k = (2048 - unat p) div 32"
  have m: "32 * m \<le> unat p" and k: "32 * k \<le> 2048 - unat p" by (simp_all add: m_def k_def)
  have up: "unat p + k \<le> 2017" using p k by (cases k) auto
  have down: "31 + m \<le> unat p" using p m by (cases m) auto
  have d: "unat (drop_bit 5 q) = unat q div 32" for q :: u16 by (simp add: drop_bit_eq_div unat_div)
  have s: "unat (2048 - p) = 2048 - unat p" using p by (simp add: unat_sub word_le_nat_alt)
  have "unat (p - drop_bit 5 p) = unat p - m" by (subst unat_sub) (simp_all add: d word_le_nat_alt m_def)
  moreover have "unat (p + drop_bit 5 (2048 - p)) = unat p + k" using up by (simp add: unat_word_ariths d s k_def)
  moreover have "31 \<le> unat p - m" "unat p - m \<le> 2017" "31 \<le> unat p + k" using down p by linarith+
  ultimately show ?thesis using up by (simp add: next_prob_def prob_ok_def)
qed

text \<open>The part of the interval that a decision selects: its offset and its width.\<close>

definition bound_of :: "u32 \<Rightarrow> u16 \<Rightarrow> nat" where
  "bound_of r p = unat r div 2048 * unat p"

definition part_of :: "decision \<Rightarrow> u32 \<Rightarrow> (nat \<Rightarrow> u16) \<Rightarrow> nat \<times> nat" where
  "part_of dc r ps = (case dc of
     Bit i b \<Rightarrow> (if b then (bound_of r (ps i), unat r - bound_of r (ps i)) else (0, bound_of r (ps i)))
   | Direct b \<Rightarrow> (if b then unat r div 2 else 0, unat r div 2))"

definition probs_after :: "decision \<Rightarrow> (nat \<Rightarrow> u16) \<Rightarrow> nat \<Rightarrow> u16" where
  "probs_after dc ps = (case dc of Bit i b \<Rightarrow> ps(i := next_prob b (ps i)) | Direct b \<Rightarrow> ps)"

lemma bound_of_range:
  assumes "2 ^ 24 \<le> unat r" "prob_ok p"
  shows "2 ^ 16 \<le> bound_of r p" "bound_of r p + 2 ^ 16 \<le> unat r" "unat (drop_bit 11 r * ucast p) = bound_of r p"
proof -
  let ?q = "unat r div 2048"
  have q: "2 ^ 13 \<le> ?q" using assms(1) by (simp add: less_eq_div_iff_mult_less_eq)
  have r: "?q * 2048 \<le> unat r" by simp
  have "2 ^ 13 * 31 \<le> bound_of r p" unfolding bound_of_def using q assms(2) by (intro mult_mono) (simp_all add: prob_ok_def)
  then show "2 ^ 16 \<le> bound_of r p" by simp
  have le: "bound_of r p \<le> ?q * 2017" unfolding bound_of_def using assms(2) by (intro mult_le_mono2) (simp add: prob_ok_def)
  then have "bound_of r p + 65536 \<le> unat r" using q r by simp
  then show "bound_of r p + 2 ^ 16 \<le> unat r" by simp
  have "unat (drop_bit 11 r) = ?q" "unat (ucast p :: u32) = unat p"
    using unat_lt2p [of p] by (simp_all add: drop_bit_eq_div unat_div unsigned_ucast_eq take_bit_nat_eq_self)
  moreover have "bound_of r p < 2 ^ 32" using le r unat_lt2p [of r] by simp
  ultimately show "unat (drop_bit 11 r * ucast p) = bound_of r p" by (simp add: unat_word_ariths bound_of_def)
qed

lemma part_of_range:
  assumes "2 ^ 24 \<le> unat r" "\<And>i. prob_ok (ps i)" "part_of dc r ps = (off, w)"
  shows "2 ^ 16 \<le> w" "off + w \<le> unat r"
proof -
  have "2 ^ 16 \<le> w \<and> off + w \<le> unat r"
  proof (cases dc)
    case (Bit i b)
    then show ?thesis using bound_of_range(1,2) [OF assms(1) assms(2) [of i]] assms(3) by (cases b) (auto simp: part_of_def)
  next
    case (Direct b)
    have "2 ^ 23 \<le> unat r div 2" "unat r div 2 + unat r div 2 \<le> unat r" using assms(1) by simp_all
    then show ?thesis using Direct assms(3) by (cases b) (auto simp: part_of_def)
  qed
  then show "2 ^ 16 \<le> w" "off + w \<le> unat r" by simp_all
qed

lemma exact_low: "unat (rc_low rc) + x < 2 ^ 64 \<Longrightarrow> exact (rc\<lparr>rc_low := rc_low rc + of_nat x\<rparr>) = exact rc + x"
  by (simp add: exact_def unat_word_ariths unat_of_nat)

lemma exact_other: "exact (rc\<lparr>rc_range := r\<rparr>) = exact rc" "exact (rc\<lparr>probs := ps\<rparr>) = exact rc" "ceiling (rc\<lparr>rc_range := r\<rparr>) = ceiling rc"
  "ceiling (rc\<lparr>probs := ps\<rparr>) = ceiling rc" "ceiling (rc\<lparr>rc_low := l\<rparr>) = ceiling rc"
  "written (rc\<lparr>rc_range := r\<rparr>) = written rc" "written (rc\<lparr>probs := ps\<rparr>) = written rc" "written (rc\<lparr>rc_low := l\<rparr>) = written rc"
  by (simp_all add: exact_def ceiling_def written_def)

lemma normalise_exact:
  assumes "pending rc \<noteq> 0" "unat (rc_low rc) + unat (rc_range rc) < 2 ^ 33" "2 ^ 16 \<le> unat (rc_range rc)" "exact rc + unat (rc_range rc) \<le> ceiling rc"
    "\<And>i. prob_ok (probs rc i)" "\<not> rc_error (normalise grow rc)"
  defines "j \<equiv> (if unat (rc_range rc) < 2 ^ 24 then 1 else 0)"
  shows "exact (normalise grow rc) = exact rc * 256 ^ j" "unat (rc_range (normalise grow rc)) = unat (rc_range rc) * 256 ^ j"
    "written (normalise grow rc) = written rc + j" "rc_ok (normalise grow rc)" "\<not> rc_error rc" "probs (normalise grow rc) = probs rc"
proof -
  let ?R = "unat (rc_range rc)" and ?n = "normalise grow rc"
  have "exact ?n = exact rc * 256 ^ j \<and> unat (rc_range ?n) = ?R * 256 ^ j \<and> written ?n = written rc + j \<and> rc_ok ?n \<and> \<not> rc_error rc \<and> probs ?n = probs rc"
  proof (cases "?R < 2 ^ 24")
    case False
    then have "?n = rc" by (simp add: normalise_def word_less_nat_alt)
    then show ?thesis using assms False by (simp add: j_def rc_ok_def)
  next
    case True
    let ?rc = "rc\<lparr>rc_range := push_bit 8 (rc_range rc)\<rparr>"
    have n: "?n = shift_low grow ?rc" using True by (simp add: normalise_def word_less_nat_alt)
    have pr: "pending ?rc \<noteq> 0" "\<not> rc_error (shift_low grow ?rc)" "0 < ?R" "?R \<le> 2 ^ 24" "unat (rc_low ?rc) + ?R \<le> 2 ^ 33" "exact ?rc + ?R \<le> ceiling ?rc"
      using assms(1-4,6) True n by (simp_all add: exact_other)
    note s = shift_low_exact [OF pr]
    have r: "unat (rc_range ?n) = ?R * 256" using True s(7) by (simp add: n push_bit_eq_mult unat_word_ariths)
    have "rc_ok ?n" unfolding rc_ok_def using s(2-4) r True assms(3,5) s(8) by (simp add: n [symmetric])
    then show ?thesis using s r True by (simp add: j_def n exact_other)
  qed
  then show "exact ?n = exact rc * 256 ^ j" "unat (rc_range ?n) = ?R * 256 ^ j" "written ?n = written rc + j" "rc_ok ?n" "\<not> rc_error rc" "probs ?n = probs rc" by simp_all
qed


lemma encode_as_normalise:
  assumes "rc_ok rc" "part_of dc (rc_range rc) (probs rc) = (off, w)"
  shows "encode_decision grow dc rc = normalise grow (rc\<lparr>rc_low := rc_low rc + of_nat off, rc_range := of_nat w, probs := probs_after dc (probs rc)\<rparr>)"
proof (cases dc)
  case (Bit i b)
  have r: "2 ^ 24 \<le> unat (rc_range rc)" "prob_ok (probs rc i)" using assms(1) by (simp_all add: rc_ok_def)
  define bd where "bd = drop_bit 11 (rc_range rc) * ucast (probs rc i)"
  note bb = bound_of_range [OF r]
  have u: "unat bd = bound_of (rc_range rc) (probs rc i)" using bb(3) by (simp add: bd_def)
  show ?thesis
  proof (cases b)
    case True
    have "unat (rc_range rc - bd) = unat (rc_range rc) - unat bd" using bb(2) by (intro unat_sub) (simp add: word_le_nat_alt u)
    then have "off = unat bd" "w = unat (rc_range rc - bd)" using assms(2) Bit True by (auto simp: part_of_def u)
    then show ?thesis using Bit True by (simp add: encode_decision_def encode_bit_def Let_def bd_def [symmetric] probs_after_def next_prob_def)
  next
    case False
    then have "off = 0" "w = unat bd" using assms(2) Bit by (simp_all add: part_of_def u)
    then show ?thesis using Bit False by (cases rc) (simp add: encode_decision_def encode_bit_def Let_def bd_def probs_after_def next_prob_def)
  qed
next
  case (Direct b)
  have "unat (drop_bit 1 (rc_range rc)) = unat (rc_range rc) div 2" by (simp add: drop_bit_eq_div unat_div)
  then have "w = unat (drop_bit 1 (rc_range rc))" "off = (if b then unat (drop_bit 1 (rc_range rc)) else 0)"
    using assms(2) Direct by (auto simp: part_of_def)
  then show ?thesis using Direct by (cases rc) (simp add: encode_decision_def encode_direct_def Let_def probs_after_def)
qed

lemma encode_step:
  assumes ok: "rc_ok rc" and pt: "part_of dc (rc_range rc) (probs rc) = (off, w)" and ne: "\<not> rc_error (encode_decision grow dc rc)"
  defines "j \<equiv> (if w < 2 ^ 24 then 1 else 0)"
  shows "exact (encode_decision grow dc rc) = (exact rc + off) * 256 ^ j" "unat (rc_range (encode_decision grow dc rc)) = w * 256 ^ j"
    "written (encode_decision grow dc rc) = written rc + j" "rc_ok (encode_decision grow dc rc)" "\<not> rc_error rc"
    "probs (encode_decision grow dc rc) = probs_after dc (probs rc)"
proof -
  let ?rc = "rc\<lparr>rc_low := rc_low rc + of_nat off, rc_range := of_nat w, probs := probs_after dc (probs rc)\<rparr>"
  note e = encode_as_normalise [OF ok pt]
  have k: "2 ^ 24 \<le> unat (rc_range rc)" "\<And>i. prob_ok (probs rc i)" "unat (rc_low rc) + unat (rc_range rc) < 2 ^ 33" "exact rc + unat (rc_range rc) \<le> ceiling rc" "pending rc \<noteq> 0"
    using ok by (simp_all add: rc_ok_def)
  note p = part_of_range [OF k(1,2) pt]
  have w: "unat (of_nat w :: u32) = w" using p(2) unat_lt2p [of "rc_range rc"] by (simp add: unat_of_nat)
  have l: "unat (rc_low rc + of_nat off) = unat (rc_low rc) + off" using k(3) p(2) by (simp add: unat_word_ariths unat_of_nat)
  have ex: "exact ?rc = exact rc + off" using exact_low [of rc off] k(3) p(2) by (simp add: exact_other)
  have "prob_ok (probs_after dc (probs rc) i)" for i using k(2) by (cases dc) (simp_all add: probs_after_def next_prob_ok)
  then have pr: "pending ?rc \<noteq> 0" "unat (rc_low ?rc) + unat (rc_range ?rc) < 2 ^ 33" "2 ^ 16 \<le> unat (rc_range ?rc)"
      "exact ?rc + unat (rc_range ?rc) \<le> ceiling ?rc" "\<And>i. prob_ok (probs ?rc i)" "\<not> rc_error (normalise grow ?rc)"
    using k p w l ex ne e by (simp_all add: exact_other)
  note n = normalise_exact [OF pr]
  have ur: "unat (rc_range ?rc) = w" using w by simp
  have wr: "written ?rc = written rc" by (simp add: exact_other)
  have er: "rc_error ?rc = rc_error rc" "probs ?rc = probs_after dc (probs rc)" by simp_all
  show "exact (encode_decision grow dc rc) = (exact rc + off) * 256 ^ j" "unat (rc_range (encode_decision grow dc rc)) = w * 256 ^ j"
    "written (encode_decision grow dc rc) = written rc + j" "rc_ok (encode_decision grow dc rc)" "\<not> rc_error rc"
    "probs (encode_decision grow dc rc) = probs_after dc (probs rc)"
    using n unfolding e j_def ur ex wr er by simp_all
qed

text \<open>Errors stay, and the bytes written stay.\<close>

lemma sticky:
  "rc_error rc \<Longrightarrow> rc_error (put_byte grow v rc)" "rc_error rc \<Longrightarrow> rc_error (put_pending grow c n v rc)" "rc_error rc \<Longrightarrow> rc_error (shift_low grow rc)"
  "rc_error rc \<Longrightarrow> rc_error (encode_decision grow dc rc)" "rc_error rc \<Longrightarrow> rc_error (encode_all grow ds rc)"
proof -
  show b: "rc_error q \<Longrightarrow> rc_error (put_byte grow v q)" for q v by (simp add: put_byte_def)
  show p: "rc_error q \<Longrightarrow> rc_error (put_pending grow c n v q)" for q c n v by (induction n arbitrary: v q) (simp_all add: b)
  show s: "rc_error q \<Longrightarrow> rc_error (shift_low grow q)" for q using p by (simp add: shift_low_def Let_def)
  show e: "rc_error q \<Longrightarrow> rc_error (encode_decision grow x q)" for q x
    using s by (cases x) (simp_all add: encode_decision_def encode_bit_def encode_direct_def Let_def normalise_def)
  then show "rc_error q \<Longrightarrow> rc_error (encode_all grow xs q)" for q xs by (induction xs arbitrary: q) (simp_all add: encode_all_def)
qed

definition extends :: "range_encoder \<Rightarrow> range_encoder \<Rightarrow> bool" where
  "extends rc rc' \<longleftrightarrow> (\<exists>t. rc_data rc' = rc_data rc @ t)"

lemma extends_trans: "extends a b \<Longrightarrow> extends b c \<Longrightarrow> extends a c"
  by (auto simp: extends_def)

lemma extends_ops: "extends rc (put_byte grow v rc)" "extends rc (shift_low grow rc)" "extends rc (encode_decision grow dc rc)" "extends rc (encode_all grow ds rc)"
proof -
  show b: "extends q (put_byte grow v q)" for q v by (simp add: put_byte_def extends_def Let_def)
  have "extends q (put_pending grow c n v q)" for q c n v by (induction n arbitrary: v q) (auto simp: extends_def intro: extends_trans [unfolded extends_def, OF b [unfolded extends_def]])
  then show s: "extends q (shift_low grow q)" for q by (auto simp: shift_low_def Let_def extends_def)
  have n: "extends q (normalise grow q)" for q using s [of "q\<lparr>rc_range := push_bit 8 (rc_range q)\<rparr>"] by (auto simp: normalise_def extends_def)
  have "extends q (normalise grow q')" if "rc_data q' = rc_data q" for q q' using n [of q'] that by (simp add: extends_def)
  then show e: "extends q (encode_decision grow x q)" for q x
    by (cases x) (simp_all add: encode_decision_def encode_bit_def encode_direct_def Let_def)
  show "extends q (encode_all grow xs q)" for q xs
  proof (induction xs arbitrary: q)
    case (Cons x xs)
    have "extends q (encode_all grow xs (encode_decision grow x q))" by (rule extends_trans [OF e Cons])
    then show ?case by (simp add: encode_all_def)
  qed (simp add: encode_all_def extends_def)
qed

text \<open>The interval after some decisions lies in the one before.\<close>

lemma encode_all_nested:
  assumes "rc_ok rc" "\<not> rc_error (encode_all grow ds rc)"
  shows "\<exists>m. written (encode_all grow ds rc) = written rc + m \<and> exact rc * 256 ^ m \<le> exact (encode_all grow ds rc) \<and>
     exact (encode_all grow ds rc) + unat (rc_range (encode_all grow ds rc)) \<le> (exact rc + unat (rc_range rc)) * 256 ^ m \<and>
     rc_ok (encode_all grow ds rc) \<and> \<not> rc_error rc"
  using assms
proof (induction ds arbitrary: rc)
  case Nil
  then show ?case by (intro exI [of _ 0]) (simp add: encode_all_def)
next
  case (Cons dc ds)
  let ?r = "encode_decision grow dc rc" and ?f = "encode_all grow (dc # ds) rc"
  obtain off w where pt: "part_of dc (rc_range rc) (probs rc) = (off, w)" by (cases "part_of dc (rc_range rc) (probs rc)")
  define j where "j = (if w < 2 ^ 24 then 1 else 0 :: nat)"
  have f: "?f = encode_all grow ds ?r" by (simp add: encode_all_def)
  have ne: "\<not> rc_error ?r" using Cons(3) sticky(5) unfolding f by blast
  note s = encode_step [OF Cons(2) pt ne, folded j_def]
  have ok: "2 ^ 24 \<le> unat (rc_range rc)" "\<And>i. prob_ok (probs rc i)" using Cons(2) by (simp_all add: rc_ok_def)
  note p = part_of_range [OF ok pt]
  obtain m where m: "written ?f = written ?r + m" "exact ?r * 256 ^ m \<le> exact ?f" "exact ?f + unat (rc_range ?f) \<le> (exact ?r + unat (rc_range ?r)) * 256 ^ m" "rc_ok ?f"
    using Cons(1) [OF s(4)] Cons(3) unfolding f by blast
  have "exact rc * 256 ^ (j + m) \<le> exact ?r * 256 ^ m" unfolding s(1) power_add mult.assoc [symmetric] by (intro mult_le_mono1) simp
  then have a: "exact rc * 256 ^ (j + m) \<le> exact ?f" using m(2) by linarith
  have "(exact ?r + unat (rc_range ?r)) * 256 ^ m = (exact rc + (off + w)) * 256 ^ (j + m)"
    unfolding s(1,2) by (simp add: power_add algebra_simps)
  also have "\<dots> \<le> (exact rc + unat (rc_range rc)) * 256 ^ (j + m)" using p(2) by (intro mult_le_mono1) simp
  finally have "exact ?f + unat (rc_range ?f) \<le> (exact rc + unat (rc_range rc)) * 256 ^ (j + m)" using m(3) by linarith
  then show ?case using a m(1,4) s(3,5) by (intro exI [of _ "j + m"]) simp
qed


section \<open>The decoder reads the decisions back\<close>

text \<open>The decoder, once it has normalised, holds the distance of the number that is read from the lower end of the interval.\<close>

definition in_step :: "u8 list \<Rightarrow> range_encoder \<Rightarrow> range_decoder \<Rightarrow> bool" where
  "in_step F rc de \<longleftrightarrow> de_range de = rc_range rc \<and> exact rc + unat (de_code de) = be_value (take (written rc + 4) F) \<and>
     de_source de = drop (written rc + 4) F \<and> de_probs de = probs rc"

lemma append_byte: "unat c < 2 ^ 24 \<Longrightarrow> unat (push_bit 8 c OR ucast b :: u32) = unat c * 256 + unat b" for c :: u32 and b :: u8
proof -
  assume c: "unat c < 2 ^ 24"
  have "push_bit 8 c AND ucast b = (0 :: u32)" by (rule bit_word_eqI) (auto simp: bit_simps dest: bit_imp_le_length)
  then have o: "push_bit 8 c OR ucast b = (push_bit 8 c + ucast b :: u32)" by (rule disjunctive_add_eq_or [symmetric])
  have "unat (push_bit 8 c) = unat c * 256" using c by (simp add: push_bit_eq_mult unat_word_ariths)
  moreover have "unat (ucast b :: u32) = unat b" using unat_lt2p [of b] by (simp add: unsigned_ucast_eq take_bit_nat_eq_self)
  moreover have "unat c * 256 + unat b < 2 ^ 32" using c unat_lt2p [of b] by simp
  ultimately show ?thesis unfolding o by (simp add: unat_word_ariths)
qed

lemma read_kind_step:
  assumes ok: "rc_ok rc" and n: "de_normalise de0 = Some de" "de_range de = rc_range rc" "de_probs de = probs rc"
    and pt: "part_of dc (rc_range rc) (probs rc) = (off, w)" and c: "off \<le> unat (de_code de)" "unat (de_code de) < off + w"
  shows "read_kind (decision_kind dc) de0 = Some (bit_of dc, de\<lparr>de_range := of_nat w, de_code := de_code de - of_nat off, de_probs := probs_after dc (probs rc)\<rparr>)"
proof (cases dc)
  case (Bit i b)
  have r: "2 ^ 24 \<le> unat (rc_range rc)" "prob_ok (probs rc i)" using ok by (simp_all add: rc_ok_def)
  define bd where "bd = drop_bit 11 (rc_range rc) * ucast (probs rc i)"
  note bb = bound_of_range [OF r]
  have u: "unat bd = bound_of (rc_range rc) (probs rc i)" using bb(3) by (simp add: bd_def)
  show ?thesis
  proof (cases b)
    case True
    have "unat (rc_range rc - bd) = unat (rc_range rc) - unat bd" using bb(2) by (intro unat_sub) (simp add: word_le_nat_alt u)
    then have o: "off = unat bd" "w = unat (rc_range rc - bd)" using pt Bit True by (auto simp: part_of_def u)
    then have "\<not> de_code de < bd" using c(1) by (simp add: word_less_nat_alt)
    then show ?thesis using Bit True o n
      by (cases de) (simp add: read_kind_def decision_kind_def bit_of_def decode_bit_def Let_def bd_def [symmetric] probs_after_def next_prob_def)
  next
    case False
    then have o: "off = 0" "w = unat bd" using pt Bit by (auto simp: part_of_def u)
    then have "de_code de < bd" using c(2) by (simp add: word_less_nat_alt)
    then show ?thesis using Bit False o n
      by (cases de) (simp add: read_kind_def decision_kind_def bit_of_def decode_bit_def Let_def bd_def [symmetric] probs_after_def next_prob_def)
  qed
next
  case (Direct b)
  let ?r = "drop_bit 1 (rc_range rc)"
  have "unat ?r = unat (rc_range rc) div 2" by (simp add: drop_bit_eq_div unat_div)
  then have o: "w = unat ?r" "off = (if b then unat ?r else 0)" using pt Direct by (auto simp: part_of_def)
  then have "de_code de < ?r \<longleftrightarrow> \<not> b" using c by (auto simp: word_less_nat_alt)
  then show ?thesis using Direct o n
    by (cases de; cases b) (simp_all add: read_kind_def decision_kind_def bit_of_def decode_direct_def Let_def probs_after_def)
qed

lemma be_take_Suc: "k < length F \<Longrightarrow> be_value (take (Suc k) F) = be_value (take k F) * 256 + unat (F ! k)"
  by (simp add: take_Suc_conv_app_nth be_append)

lemma be_take_div: "k \<le> length F \<Longrightarrow> be_value (take k F) = be_value F div 256 ^ (length F - k)"
proof -
  assume "k \<le> length F"
  have "be_value F = be_value (take k F) * 256 ^ (length F - k) + be_value (drop k F)"
    using be_append [of "take k F" "drop k F"] by simp
  moreover have "be_value (drop k F) < 256 ^ (length F - k)" using be_less [of "drop k F"] by simp
  ultimately show ?thesis by simp
qed

lemma in_step_next:
  assumes ok: "rc_ok rc" and ne: "\<not> rc_error (encode_decision grow dc rc)" and s: "in_step F rc de"
    and pt: "part_of dc (rc_range rc) (probs rc) = (off, w)" and c: "off \<le> unat (de_code de)" "unat (de_code de) < off + w"
    and len: "written (encode_decision grow dc rc) + 4 \<le> length F"
  shows "\<exists>de'. de_normalise (de\<lparr>de_range := of_nat w, de_code := de_code de - of_nat off, de_probs := probs_after dc (probs rc)\<rparr>) = Some de' \<and>
     in_step F (encode_decision grow dc rc) de'"
proof -
  let ?r = "encode_decision grow dc rc"
  let ?de = "de\<lparr>de_range := of_nat w, de_code := de_code de - of_nat off, de_probs := probs_after dc (probs rc)\<rparr>"
  let ?k = "written rc + 4"
  note st = encode_step [OF ok pt ne]
  have k: "2 ^ 24 \<le> unat (rc_range rc)" "\<And>i. prob_ok (probs rc i)" using ok by (simp_all add: rc_ok_def)
  note p = part_of_range [OF k pt]
  have w: "unat (of_nat w :: u32) = w" "off < 2 ^ 32" using p unat_lt2p [of "rc_range rc"] by (simp_all add: unat_of_nat)
  have co: "unat (de_code de - of_nat off) = unat (de_code de) - off" using c(1) w(2) by (subst unat_sub) (simp_all add: word_le_nat_alt unat_of_nat)
  have V: "exact rc + off + (unat (de_code de) - off) = be_value (take ?k F)" using s c(1) by (simp add: in_step_def)
  show ?thesis
  proof (cases "w < 2 ^ 24")
    case False
    then have "of_nat w = rc_range ?r" using st(2) w(1) by (simp add: word_unat_eq_iff)
    moreover have "de_normalise ?de = Some ?de" using False w(1) by (simp add: de_normalise_def word_le_nat_alt)
    ultimately show ?thesis using False st V co s by (simp add: in_step_def)
  next
    case True
    have kl: "?k < length F" using len st(3) True by simp
    have "de_source ?de = drop ?k F" using s by (simp add: in_step_def)
    also have "\<dots> = F ! ?k # drop (Suc ?k) F" by (rule Cons_nth_drop_Suc [OF kl, symmetric])
    finally have src: "de_source ?de = F ! ?k # drop (Suc ?k) F" .
    let ?d = "?de\<lparr>de_range := push_bit 8 (of_nat w), de_code := push_bit 8 (de_code de - of_nat off) OR ucast (F ! ?k), de_source := drop (Suc ?k) F\<rparr>"
    have nm: "de_normalise ?de = Some ?d" unfolding de_normalise_def src using True w(1) by (simp add: word_le_nat_alt)
    have "unat (push_bit 8 (of_nat w) :: u32) = w * 256" using True w(1) by (simp add: push_bit_eq_mult unat_word_ariths)
    then have rg: "push_bit 8 (of_nat w) = rc_range ?r" using st(2) True by (simp add: word_unat_eq_iff)
    have "unat (de_code de - of_nat off) < 2 ^ 24" unfolding co using c True by linarith
    note ab = append_byte [OF this, of "F ! ?k"]
    have "exact ?r + unat (push_bit 8 (de_code de - of_nat off) OR ucast (F ! ?k) :: u32) = (exact rc + off + (unat (de_code de) - off)) * 256 + unat (F ! ?k)"
      using st(1) True unfolding ab co by (simp add: distrib_right)
    also have "\<dots> = be_value (take (Suc ?k) F)" unfolding V be_take_Suc [OF kl] ..
    finally have ex: "exact ?r + unat (push_bit 8 (de_code de - of_nat off) OR ucast (F ! ?k) :: u32) = be_value (take (Suc ?k) F)" .
    have wk: "written ?r + 4 = Suc ?k" using st(3) True by simp
    have "in_step F ?r ?d" unfolding in_step_def wk using rg ex st(6) by simp
    then show ?thesis using nm by blast
  qed
qed

lemma interval_bounds:
  assumes "rc_ok rc" "\<not> rc_error (encode_all grow ds rc)" "be_value F = exact (encode_all grow ds rc)" "length F = written (encode_all grow ds rc) + 4"
  shows "exact rc \<le> be_value (take (written rc + 4) F)" "be_value (take (written rc + 4) F) < exact rc + unat (rc_range rc)" "written rc + 4 \<le> length F"
proof -
  let ?f = "encode_all grow ds rc"
  obtain m where m: "written ?f = written rc + m" "exact rc * 256 ^ m \<le> exact ?f" "exact ?f + unat (rc_range ?f) \<le> (exact rc + unat (rc_range rc)) * 256 ^ m" "rc_ok ?f"
    using encode_all_nested [OF assms(1,2)] by blast
  show l: "written rc + 4 \<le> length F" using assms(4) m(1) by simp
  have t: "be_value (take (written rc + 4) F) = exact ?f div 256 ^ m" using be_take_div [OF l] assms(3,4) m(1) by simp
  show "exact rc \<le> be_value (take (written rc + 4) F)" unfolding t using m(2) by (simp add: less_eq_div_iff_mult_less_eq)
  have "exact ?f < (exact rc + unat (rc_range rc)) * 256 ^ m" using m(3,4) by (simp add: rc_ok_def)
  then show "be_value (take (written rc + 4) F) < exact rc + unat (rc_range rc)" unfolding t by (simp add: less_mult_imp_div_less)
qed

lemma decode_run:
  assumes "rc_ok rc" "\<not> rc_error (encode_all grow ds rc)" "be_value F = exact (encode_all grow ds rc)" "length F = written (encode_all grow ds rc) + 4"
    "de_normalise de0 = Some de" "in_step F rc de"
  shows "\<exists>de'. decode_all (map decision_kind ds) de0 = Some (map bit_of ds, de') \<and> decoder_done de'"
  using assms
proof (induction ds arbitrary: rc de0 de)
  case Nil
  then show ?case by (simp add: encode_all_def in_step_def decoder_done_def word_unat_eq_iff)
next
  case (Cons dc ds)
  let ?r = "encode_decision grow dc rc"
  have f: "encode_all grow (dc # ds) rc = encode_all grow ds ?r" by (simp add: encode_all_def)
  have ne: "\<not> rc_error ?r" using Cons(3) sticky(5) unfolding f by blast
  obtain off w where pt: "part_of dc (rc_range rc) (probs rc) = (off, w)" by (cases "part_of dc (rc_range rc) (probs rc)")
  note st = encode_step [OF Cons(2) pt ne]
  note ib = interval_bounds [OF st(4) Cons(3,4,5) [unfolded f]]
  let ?V = "be_value (take (written rc + 4) F)"
  have V: "exact rc + off \<le> ?V \<and> ?V < exact rc + off + w"
  proof (cases "w < 2 ^ 24")
    case False
    then show ?thesis using ib st(1-3) by simp
  next
    case True
    then have "(exact rc + off) * 256 \<le> ?V * 256 + unat (F ! (written rc + 4))" "?V * 256 + unat (F ! (written rc + 4)) < (exact rc + off) * 256 + w * 256"
      using ib st(1-3) be_take_Suc [of "written rc + 4" F] by simp_all
    then show ?thesis using unat_lt2p [of "F ! (written rc + 4)"] by simp
  qed
  have st0: "exact rc + unat (de_code de) = ?V" "de_range de = rc_range rc" "de_probs de = probs rc" using Cons(7) by (simp_all add: in_step_def)
  have c: "off \<le> unat (de_code de)" "unat (de_code de) < off + w" using V st0(1) by linarith+
  let ?d = "de\<lparr>de_range := of_nat w, de_code := de_code de - of_nat off, de_probs := probs_after dc (probs rc)\<rparr>"
  have rk: "read_kind (decision_kind dc) de0 = Some (bit_of dc, ?d)" by (rule read_kind_step [OF Cons(2,6) st0(2,3) pt c])
  obtain de' where de': "de_normalise ?d = Some de'" "in_step F ?r de'" using in_step_next [OF Cons(2) ne Cons(7) pt c ib(3)] by blast
  have "\<exists>de''. decode_all (map decision_kind ds) ?d = Some (map bit_of ds, de'') \<and> decoder_done de''"
    by (rule Cons(1) [OF st(4) Cons(3,4,5) [unfolded f] de'])
  then show ?case using rk by auto
qed

lemma shift_low_low: "unat (rc_low (shift_low grow rc)) = unat (rc_low rc) * 256 mod 2 ^ 32"
proof -
  have "unat (ucast (rc_low rc) :: u32) = unat (rc_low rc) mod 2 ^ 32" by (simp add: unsigned_ucast_eq unsigned_take_bit_eq take_bit_eq_mod)
  then have "unat (rc_low (shift_low grow rc)) = unat (rc_low rc) mod 2 ^ 32 * 256 mod 2 ^ 32"
    using low_words(2) [of "ucast (rc_low rc)"] by (simp add: shift_low_def Let_def)
  then show ?thesis by (simp add: mod_mult_left_eq)
qed

lemma shift_lows_exact:
  assumes "rc_ok rc" "\<not> rc_error ((shift_low grow ^^ k) rc)"
  shows "exact ((shift_low grow ^^ k) rc) = exact rc * 256 ^ k \<and> exact ((shift_low grow ^^ k) rc) + 1 \<le> ceiling ((shift_low grow ^^ k) rc) \<and>
    unat (rc_low ((shift_low grow ^^ k) rc)) + 1 \<le> 2 ^ 33 \<and> pending ((shift_low grow ^^ k) rc) \<noteq> 0 \<and> written ((shift_low grow ^^ k) rc) = written rc + k \<and> \<not> rc_error rc"
  using assms(2)
proof (induction k)
  case 0
  then show ?case using assms(1) by (simp add: rc_ok_def)
next
  case (Suc k)
  let ?q = "(shift_low grow ^^ k) rc"
  have ne: "\<not> rc_error ?q" "\<not> rc_error (shift_low grow ?q)" using Suc(2) sticky(3) by auto
  from Suc(1) [OF ne(1)] have i: "exact ?q = exact rc * 256 ^ k" "exact ?q + 1 \<le> ceiling ?q" "unat (rc_low ?q) + 1 \<le> 2 ^ 33" "pending ?q \<noteq> 0" "written ?q = written rc + k" "\<not> rc_error rc"
    by blast+
  note s = shift_low_exact [OF i(4) ne(2), of 1]
  show ?case using s i by simp
qed

lemma shift_lows_low: "unat (rc_low ((shift_low grow ^^ k) rc)) mod 2 ^ 32 = unat (rc_low rc) * 256 ^ k mod 2 ^ 32"
proof (induction k)
  case (Suc k)
  have "unat (rc_low ((shift_low grow ^^ Suc k) rc)) mod 2 ^ 32 = unat (rc_low ((shift_low grow ^^ k) rc)) mod 2 ^ 32 * 256 mod 2 ^ 32"
    by (simp add: shift_low_low mod_mult_left_eq)
  also have "\<dots> = unat (rc_low rc) * 256 ^ Suc k mod 2 ^ 32" unfolding Suc mod_mult_left_eq by (simp add: ac_simps)
  finally show ?case .
qed simp

text \<open>Five more shifts write the whole number out.\<close>

lemma flush_exact:
  assumes "rc_ok rc" "\<not> rc_error (flush grow rc)"
  shows "be_value (rc_data (flush grow rc)) = exact rc" "length (rc_data (flush grow rc)) = written rc + 4" "\<not> rc_error rc"
proof -
  let ?q = "(shift_low grow ^^ 4) rc" and ?f = "flush grow rc"
  have "?f = (shift_low grow ^^ Suc 4) rc" by (simp only: flush_def Suc_numeral semiring_norm)
  then have f: "?f = shift_low grow ?q" by (simp only: funpow.simps comp_apply)
  have ne: "\<not> rc_error ((shift_low grow ^^ 5) rc)" using assms(2) by (simp add: flush_def)
  note e = shift_lows_exact [OF assms(1) ne, folded flush_def]
  have neq: "\<not> rc_error ?q" using assms(2) sticky(3) unfolding f by blast
  have "unat (rc_low rc) * 256 ^ 4 mod 2 ^ 32 = 0" by simp
  then have z: "unat (rc_low ?q) mod 2 ^ 32 = 0" using shift_lows_low [of 4 grow rc] by simp
  have "unat (rc_low ?q) < 2 ^ 32"
  proof -
    have "?q = (shift_low grow ^^ Suc 3) rc" by (simp only: Suc_numeral semiring_norm)
    then have "?q = shift_low grow ((shift_low grow ^^ 3) rc)" by (simp only: funpow.simps comp_apply)
    then show ?thesis using shift_low_low [of grow "(shift_low grow ^^ 3) rc"] by simp
  qed
  then have "unat (rc_low ?q) = 0" using z by simp
  then have l0: "rc_low ?q = 0" by (simp add: word_unat_eq_iff)
  have p: "pending ?f = 1" "unat (rc_cache ?f) = 0" "rc_low ?f = 0" unfolding f shift_low_def Let_def l0 by simp_all
  have "be_value (rc_data ?f) * 256 * 2 ^ 32 = exact rc * 256 ^ 5" using e p by (simp add: exact_def)
  then show "be_value (rc_data ?f) = exact rc" by simp
  show "length (rc_data ?f) = written rc + 4" using e p(1) by (simp add: written_def)
  show "\<not> rc_error rc" using e by blast
qed

text \<open>The state in which \<open>compress\<close> starts to encode, with some bytes written before.\<close>

definition encoder_start :: "range_encoder \<Rightarrow> range_encoder" where
  "encoder_start rc = rc\<lparr>rc_low := 0, rc_range := 0xFFFFFFFF, pending := 1, rc_cache := 0, probs := (\<lambda>_. 1024)\<rparr>"

lemma encoder_start_ok: "rc_ok (encoder_start rc)" "exact (encoder_start rc) = be_value (rc_data rc) * 2 ^ 40" "written (encoder_start rc) = length (rc_data rc) + 1"
proof -
  show e: "exact (encoder_start rc) = be_value (rc_data rc) * 2 ^ 40" by (simp add: exact_def encoder_start_def)
  show "written (encoder_start rc) = length (rc_data rc) + 1" by (simp add: written_def encoder_start_def)
  have "exact (encoder_start rc) + unat (rc_range (encoder_start rc)) \<le> ceiling (encoder_start rc)"
    unfolding e by (simp add: ceiling_def encoder_start_def distrib_right)
  then show "rc_ok (encoder_start rc)" by (simp add: rc_ok_def encoder_start_def prob_ok_def)
qed

lemma coder_roundtrip:
  assumes "\<not> rc_error (flush grow (encode_all grow ds (encoder_start rc)))"
  shows "\<exists>s de. rc_data (flush grow (encode_all grow ds (encoder_start rc))) = rc_data rc @ s \<and> decoder_start s = Some de \<and>
    (\<exists>de'. decode_all (map decision_kind ds) de = Some (map bit_of ds, de') \<and> decoder_done de')"
proof -
  let ?rc = "encoder_start rc" and ?h = "rc_data rc"
  let ?n = "encode_all grow ds ?rc"
  let ?F = "rc_data (flush grow ?n)"
  have ok: "rc_ok ?rc" by (rule encoder_start_ok)
  have "rc_error q \<Longrightarrow> rc_error (flush grow q)" for q
  proof -
    have "rc_error q \<Longrightarrow> rc_error ((shift_low grow ^^ k) q)" for k by (induction k) (simp_all add: sticky(3))
    then show "rc_error q \<Longrightarrow> rc_error (flush grow q)" by (simp add: flush_def)
  qed
  then have ne: "\<not> rc_error ?n" using assms by blast
  obtain m where okn: "rc_ok ?n" "written ?n = written ?rc + m" using encode_all_nested [OF ok ne] by blast
  note f = flush_exact [OF okn(1) assms]
  have "extends q ((shift_low grow ^^ k) q)" for q k
  proof (induction k)
    case (Suc k)
    show ?case using extends_trans [OF Suc extends_ops(2)] by simp
  qed (simp add: extends_def)
  then have "extends ?n (flush grow ?n)" by (simp add: flush_def)
  then have "extends ?rc (flush grow ?n)" by (rule extends_trans [OF extends_ops(4)])
  then obtain s where F: "?F = ?h @ s" by (auto simp: extends_def encoder_start_def)
  have ls: "5 \<le> length s" using f(2) okn(2) encoder_start_ok(3) F by simp
  then obtain s0 s1 s2 s3 s4 r where s: "s = s0 # s1 # s2 # s3 # s4 # r" by (auto simp: numeral_eq_Suc Suc_le_length_iff)
  let ?c = "be_value [s1, s2, s3, s4]"
  note ib = interval_bounds [OF ok ne f(1,2)]
  have tk: "take (written ?rc + 4) ?F = ?h @ [s0, s1, s2, s3, s4]" unfolding F s encoder_start_ok(3) by (simp add: eval_nat_numeral)
  have c32: "?c < 2 ^ 32" using be_less [of "[s1, s2, s3, s4]"] by simp
  have be: "be_value (take (written ?rc + 4) ?F) = be_value ?h * 2 ^ 40 + unat s0 * 2 ^ 32 + ?c" unfolding tk be_append by simp
  have "unat s0 * 2 ^ 32 + ?c < 2 ^ 32" using ib(2) unfolding be encoder_start_ok(2) by (simp add: encoder_start_def)
  then have "unat s0 = 0" by simp
  then have z: "s0 = 0" by (simp add: word_unat_eq_iff)
  define de where "de = \<lparr>de_range = 0xFFFFFFFF, de_code = of_nat ?c, de_source = r, de_probs = (\<lambda>_. 1024)\<rparr>"
  have st: "decoder_start s = Some de" by (simp add: decoder_start_def s z de_def)
  have "unat (of_nat ?c :: u32) = ?c" using c32 by (simp only: unat_of_nat) simp
  then have "in_step ?F ?rc de" unfolding in_step_def be encoder_start_ok(2) using z
    by (simp add: de_def encoder_start_ok(3) F s) (simp add: encoder_start_def)
  moreover have "de_normalise de = Some de" by (simp add: de_normalise_def de_def)
  ultimately show ?thesis using decode_run [OF ok ne f(1,2)] F st by blast
qed

end
