(* ===== verification/LimlzPack.thy ===== *)
theory LimlzPack
  imports LimlzCoder
begin

text \<open>
  The packer as a whole, \<^verbatim>\<open>limine/tools/limlzpack.c\<close>: the filter that makes the targets of x86 calls absolute, the decisions
  that describe a token, and \<open>compress\<close>. The inner loop of the filter has no bound; it is a partial function, which \<open>LimlzFilter\<close> proves to return.
  Results of allocations are arguments.
\<close>

section \<open>Filter\<close>

definition limlz_read32 :: "u8 list \<Rightarrow> nat \<Rightarrow> u32" where
  "limlz_read32 d p = ucast (d ! p) OR push_bit 8 (ucast (d ! (p + 1))) OR push_bit 16 (ucast (d ! (p + 2))) OR push_bit 24 (ucast (d ! (p + 3)))"

partial_function (option) bcj_value :: "u32 \<Rightarrow> nat \<Rightarrow> bool \<Rightarrow> u32 \<Rightarrow> u32 option" where
  "bcj_value k shift hist value =
     (let v = value + k; high = drop_bit shift v AND 255
      in if \<not> hist \<or> (high \<noteq> 0 \<and> high \<noteq> 255) then Some v
         else bcj_value k shift hist (v XOR NOT (push_bit shift 0xFFFFFF00)))"

function top_bit :: "nat \<Rightarrow> nat" where
  "top_bit h = (if h div 2 = 0 then 0 else 1 + top_bit (h div 2))"
  by pat_completeness auto
termination by (relation "measure id") auto

declare top_bit.simps [simp del]

definition bcj_shift :: "u32 \<Rightarrow> nat" where
  "bcj_shift history = (if history \<noteq> 0 then 24 - top_bit (unat history) * 8 else 0)"

definition age :: "u32 \<Rightarrow> u32" where
  "age history = push_bit 1 (history AND 0x77)"

definition bcj_history :: "u32 \<Rightarrow> u32 \<Rightarrow> u32" where
  "bcj_history gap history = (if gap \<ge> 4 then 0 else (age ^^ unat gap) history)"

definition store_target :: "u8 list \<Rightarrow> nat \<Rightarrow> u32 \<Rightarrow> u8 list" where
  "store_target d pos value =
     d[pos + 4 := 0 - ucast (drop_bit 24 value AND 1), pos + 1 := ucast value, pos + 2 := ucast (drop_bit 8 value), pos + 3 := ucast (drop_bit 16 value)]"

lemma length_store_target [simp]: "length (store_target d pos v) = length d"
  by (simp add: store_target_def)

function bcj_loop :: "u8 list \<Rightarrow> nat \<Rightarrow> u32 \<Rightarrow> u32 \<Rightarrow> u8 list option" where
  "bcj_loop d pos prev history =
     (if length d - pos < 5 then Some d
      else if d ! pos \<noteq> 0xE8 \<and> d ! pos \<noteq> 0xE9 then bcj_loop d (pos + 1) prev history
      else let hist = bcj_history (of_nat pos - prev) history;
               high = d ! (pos + 4)
           in if (high = 0 \<or> high = 255) \<and> hist \<le> 8 \<and> hist \<noteq> 6
              then (case bcj_value (of_nat pos + 5) (bcj_shift hist) (hist \<noteq> 0) (limlz_read32 d (pos + 1)) of
                      None \<Rightarrow> None
                    | Some v \<Rightarrow> bcj_loop (store_target d pos v) (pos + 5) (of_nat pos) 0)
              else bcj_loop d (pos + 1) (of_nat pos) ((hist OR 1) OR (if high = 0 \<or> high = 255 then 16 else 0)))"
  by pat_completeness auto
termination by (relation "measure (\<lambda>(d, pos, prev, history). length d - pos)") auto

declare bcj_loop.simps [simp del]

definition bcj_encode :: "u8 list \<Rightarrow> u8 list option" where
  "bcj_encode d = bcj_loop d 0 (0xFFFFFFFF - 4) 0"

section \<open>Decisions\<close>

primrec tree_bits :: "nat \<Rightarrow> nat \<Rightarrow> nat \<Rightarrow> nat \<Rightarrow> decision list" where
  "tree_bits index v 0 node = []"
| "tree_bits index v (Suc k) node =
     (let b = odd (v div 2 ^ k) in Bit (index + node) b # tree_bits index v k (2 * node + of_bool b))"

definition encode_tree :: "nat \<Rightarrow> nat \<Rightarrow> nat \<Rightarrow> decision list" where
  "encode_tree index bits v = tree_bits index v bits 1"

primrec reverse_bits :: "nat \<Rightarrow> nat \<Rightarrow> nat \<Rightarrow> nat \<Rightarrow> decision list" where
  "reverse_bits index 0 v node = []"
| "reverse_bits index (Suc k) v node =
     (let b = odd v in Bit (index + node) b # reverse_bits index k (v div 2) (2 * node + of_bool b))"

definition encode_reverse :: "nat \<Rightarrow> nat \<Rightarrow> nat \<Rightarrow> decision list" where
  "encode_reverse index bits v = reverse_bits index bits v 1"

definition encode_length :: "nat \<Rightarrow> nat \<Rightarrow> nat \<Rightarrow> decision list" where
  "encode_length index pos n =
     Bit index (n \<ge> 10) #
     (if n < 10 then encode_tree (index + 2 + pos * 8) 3 (n - 2)
      else Bit (index + 1) (n \<ge> 18) #
           (if n < 18 then encode_tree (index + 130 + pos * 8) 3 (n - 10) else encode_tree (index + 258) 8 (n - 18)))"

text \<open>The loop that shortens the value is that of \<open>distance_price\<close>.\<close>

definition distance_slot :: "nat \<Rightarrow> nat" where
  "distance_slot v = (if v \<ge> 4 then (price_bits v + 1) * 2 + v div 2 ^ price_bits v mod 2 else v)"

primrec direct_bits :: "nat \<Rightarrow> nat \<Rightarrow> decision list" where
  "direct_bits extra 0 = []"
| "direct_bits extra (Suc k) = Direct (odd (extra div 2 ^ (k + 4))) # direct_bits extra k"

definition encode_distance :: "nat \<Rightarrow> nat \<Rightarrow> decision list" where
  "encode_distance n dist =
     (let v = dist - 1; bits = (if v \<ge> 4 then price_bits v else 0); slot = distance_slot v; len_state = (if n < 6 then n - 2 else 3);
          base = (2 + slot mod 2) * 2 ^ bits; extra = v - base
      in encode_tree (LIMLZ_SLOT + len_state * 64) 6 slot @
         (if slot < 4 then []
          else if slot < 14 then encode_reverse (LIMLZ_SPECIAL + base - slot - 1) bits extra
          else direct_bits extra (bits - 4) @ encode_reverse LIMLZ_ALIGN 4 (extra mod 16)))"

primrec literal_bits :: "nat \<Rightarrow> nat \<Rightarrow> nat \<Rightarrow> nat \<Rightarrow> bool \<Rightarrow> nat \<Rightarrow> decision list" where
  "literal_bits index c 0 node matched m = []"
| "literal_bits index c (Suc k) node matched m =
     (let b = odd (c div 2 ^ k); m' = 2 * m; above = odd (m' div 256)
      in Bit (index + node + (if matched then 256 else 0) + (if matched \<and> above then 256 else 0)) b #
         literal_bits index c k (2 * node + of_bool b) (matched \<and> b = above) m')"

definition encode_literal :: "u8 list \<Rightarrow> nat \<Rightarrow> nat \<Rightarrow> nat \<Rightarrow> decision list" where
  "encode_literal d pos state dist =
     (let prev = (if pos \<noteq> 0 then unat (d ! (pos - 1)) else 0);
          m = (if state \<ge> 7 then unat (d ! (pos - dist)) else 0)
      in literal_bits (LIMLZ_LITERAL + prev div 64 * 768) (unat (d ! pos)) 8 1 (state \<ge> 7) m)"

definition token_decisions :: "u8 list \<Rightarrow> nat \<Rightarrow> nat \<Rightarrow> nat list \<Rightarrow> token \<Rightarrow> decision list" where
  "token_decisions d pos state reps t =
     (let context = state * 16
      in case t of
           Literal b \<Rightarrow> Bit context False # encode_literal d pos state (reps ! 0)
         | Short_rep \<Rightarrow> [Bit context True, Bit (LIMLZ_IS_REP + state) True, Bit (LIMLZ_REP_G0 + state) False, Bit (LIMLZ_REP_LONG + context) False]
         | Rep r n \<Rightarrow>
             [Bit context True, Bit (LIMLZ_IS_REP + state) True, Bit (LIMLZ_REP_G0 + state) (r \<noteq> 0)] @
             (if r = 0 then [Bit (LIMLZ_REP_LONG + context) True]
              else Bit (LIMLZ_REP_G1 + state) (r \<noteq> 1) # (if r \<ge> 2 then [Bit (LIMLZ_REP_G2 + state) (r = 3)] else [])) @
             encode_length LIMLZ_REP_LENGTH 0 n
         | Match n dist \<Rightarrow>
             [Bit context True, Bit (LIMLZ_IS_REP + state) False] @ encode_length LIMLZ_LENGTH 0 n @ encode_distance n dist)"

definition next_state :: "nat \<Rightarrow> token \<Rightarrow> nat" where
  "next_state state t =
     (case t of
        Literal _ \<Rightarrow> (if state < 4 then 0 else if state < 10 then state - 3 else state - 6)
      | Short_rep \<Rightarrow> (if state < 7 then 9 else 11)
      | Rep r n \<Rightarrow> (if state < 7 then 8 else 11)
      | Match n dist \<Rightarrow> (if state < 7 then 7 else 10))"

section \<open>Compression\<close>

function compress_loop :: "(nat \<Rightarrow> bool) \<Rightarrow> u8 list \<Rightarrow> (nat \<Rightarrow> lz_match) \<Rightarrow> nat \<Rightarrow> nat list \<Rightarrow> nat \<Rightarrow> range_encoder \<Rightarrow> range_encoder" where
  "compress_loop grow d choices state reps pos rc =
     (if pos < length d \<and> \<not> rc_error rc then
        let t = choose_token d (choices pos) reps pos
        in compress_loop grow d choices (next_state state t) (next_reps t reps) (pos + token_length t)
             (encode_all grow (token_decisions d pos state reps t) rc)
      else rc)"
  by pat_completeness auto
termination
proof (relation "measure (\<lambda>(grow, d, choices, state, reps, pos, rc). length d - pos)", simp)
  fix grow :: "nat \<Rightarrow> bool" and d :: "u8 list" and choices :: "nat \<Rightarrow> lz_match" and state reps pos t and rc :: range_encoder
  assume "pos < length d \<and> \<not> rc_error rc" "t = choose_token d (choices pos) reps pos"
  then show "((grow, d, choices, next_state state t, next_reps t reps, pos + token_length t, encode_all grow (token_decisions d pos state reps t) rc),
      grow, d, choices, state, reps, pos, rc) \<in> measure (\<lambda>(grow, d, choices, state, reps, pos, rc). length d - pos)"
    using choose_token_pos [of d "choices pos" reps pos] by auto
qed

declare compress_loop.simps [simp del]

text \<open>What the operating system answers: whether memory for the tables and for a larger buffer can be had, and what fresh arrays hold.\<close>

record host =
  host_grow :: "nat \<Rightarrow> bool"
  host_tables :: bool
  fresh_previous :: "nat \<Rightarrow> nat"
  fresh_cost :: "nat \<Rightarrow> nat"
  fresh_choices :: "nat \<Rightarrow> lz_match"

definition zero_encoder :: range_encoder where
  "zero_encoder = \<lparr>rc_data = [], rc_capacity = 0, rc_low = 0, rc_range = 0, pending = 0, rc_cache = 0, rc_error = False, probs = (\<lambda>_. 0)\<rparr>"

definition encoder_init :: "range_encoder \<Rightarrow> range_encoder" where
  "encoder_init rc = rc\<lparr>rc_range := 0xFFFFFFFF, pending := 1, probs := (\<lambda>_. 1024)\<rparr>"

text \<open>The choices for the filtered data.\<close>

definition chosen :: "host \<Rightarrow> u8 list \<Rightarrow> nat \<Rightarrow> lz_match" where
  "chosen h d = snd (parse (fresh_cost h) (fresh_choices h) \<lparr>mf_data = d, previous = fresh_previous h, mf_head = (\<lambda>_. 0)\<rparr>)"

text \<open>The outer \<open>None\<close> is a filter that does not return, \<open>Some None\<close> the result 0. The three tests of the size compare it with \<open>SIZE_MAX\<close>
  divided by the size of an element, 8, 8 and 4 bytes.\<close>

definition compress :: "host \<Rightarrow> u8 list \<Rightarrow> u8 list option option" where
  "compress h bytes =
     (if length bytes + 1 > (2 ^ 64 - 1) div 8 \<or> length bytes + 1 > (2 ^ 64 - 1) div 4 then Some None
      else let checksum = limlz_crc32 bytes
           in case bcj_encode bytes of
                None \<Rightarrow> None
              | Some d \<Rightarrow>
                  if \<not> host_tables h then Some None
                  else let rc = put32 (host_grow h) (of_nat (length bytes)) (put32 (host_grow h) checksum (encoder_init zero_encoder));
                           rc' = flush (host_grow h) (compress_loop (host_grow h) d (chosen h d) 0 [1, 1, 1, 1] 0 rc)
                       in if rc_error rc' then Some None else Some (Some (rc_data rc')))"

end
