(* ===== verification/LimlzFilter.thy ===== *)
theory LimlzFilter
  imports LimlzPack
begin

text \<open>
  The inverse of the branch filter, as in \<^verbatim>\<open>limine/stage1/decompressor.asm\<close>, and the proof that it undoes the filter of the packer. The history marks the opcodes
  among the last four bytes that were left alone, in bits 0 to 3, and whether the high byte of each looked like that of a target, in bits 4 to 7. The filter changes
  such a high byte only to another one that does not look like that of a target, so the reader takes the same decisions as the packer.
\<close>

section \<open>Reader\<close>

partial_function (option) bcj_unvalue :: "u32 \<Rightarrow> nat \<Rightarrow> bool \<Rightarrow> u32 \<Rightarrow> u32 option" where
  "bcj_unvalue k shift hist value =
     (let v = value - k; high = drop_bit shift v AND 255
      in if \<not> hist \<or> (high \<noteq> 0 \<and> high \<noteq> 255) then Some v
         else bcj_unvalue k shift hist (v XOR NOT (push_bit shift 0xFFFFFF00)))"

function bcj_unloop :: "u8 list \<Rightarrow> nat \<Rightarrow> u32 \<Rightarrow> u32 \<Rightarrow> u8 list option" where
  "bcj_unloop d pos prev history =
     (if length d - pos < 5 then Some d
      else if d ! pos \<noteq> 0xE8 \<and> d ! pos \<noteq> 0xE9 then bcj_unloop d (pos + 1) prev history
      else let hist = bcj_history (of_nat pos - prev) history;
               high = d ! (pos + 4)
           in if (high = 0 \<or> high = 255) \<and> hist \<le> 8 \<and> hist \<noteq> 6
              then (case bcj_unvalue (of_nat pos + 5) (bcj_shift hist) (hist \<noteq> 0) (limlz_read32 d (pos + 1)) of
                      None \<Rightarrow> None
                    | Some v \<Rightarrow> bcj_unloop (store_target d pos v) (pos + 5) (of_nat pos) 0)
              else bcj_unloop d (pos + 1) (of_nat pos) ((hist OR 1) OR (if high = 0 \<or> high = 255 then 16 else 0)))"
  by pat_completeness auto
termination by (relation "measure (\<lambda>(d, pos, prev, history). length d - pos)") auto

declare bcj_unloop.simps [simp del]

definition bcj_decode :: "u8 list \<Rightarrow> u8 list option" where
  "bcj_decode d = bcj_unloop d 0 (0xFFFFFFFF - 4) 0"

section \<open>History\<close>

definition looks_high :: "u8 \<Rightarrow> bool" where
  "looks_high b \<longleftrightarrow> b = 0 \<or> b = 255"

lemma bit_history_mask: "bit (0x77 :: u32) m \<longleftrightarrow> m \<in> {0, 1, 2, 4, 5, 6}"
proof (cases "m < 7")
  case True
  then have "m \<in> {0, 1, 2, 3, 4, 5, 6}" by auto
  then show ?thesis by (auto simp: bit_iff_odd)
next
  case False
  have "(2 :: nat) ^ 7 \<le> 2 ^ m" using False by (intro power_increasing) auto
  then have "(119 :: nat) div 2 ^ m = 0" by simp
  then have "\<not> bit (119 :: nat) m" by (simp add: bit_iff_odd)
  moreover have "bit (unat w) m \<longleftrightarrow> bit w m" for w :: u32 by (auto simp: bit_unsigned_iff dest: bit_imp_le_length)
  from this [of "0x77"] have "bit (0x77 :: u32) m \<longleftrightarrow> bit (119 :: nat) m" by simp
  ultimately show ?thesis using False by auto
qed

lemma bit_age: "n < 8 \<Longrightarrow> bit (age h) n \<longleftrightarrow> n \<noteq> 0 \<and> n \<noteq> 4 \<and> bit h (n - 1)"
  unfolding age_def bit_push_bit_iff bit_and_iff bit_history_mask by auto

lemma bit_age_pow:
  "n < 4 \<Longrightarrow> bit ((age ^^ g) h) n \<longleftrightarrow> g \<le> n \<and> bit h (n - g)"
  "n < 4 \<Longrightarrow> bit ((age ^^ g) h) (n + 4) \<longleftrightarrow> g \<le> n \<and> bit h (n - g + 4)"
proof -
  show "n < 4 \<Longrightarrow> bit ((age ^^ g) h) n \<longleftrightarrow> g \<le> n \<and> bit h (n - g)"
  proof (induction g arbitrary: n)
    case (Suc g)
    then show ?case by (cases n) (simp_all add: bit_age)
  qed simp
  show "n < 4 \<Longrightarrow> bit ((age ^^ g) h) (n + 4) \<longleftrightarrow> g \<le> n \<and> bit h (n - g + 4)"
  proof (induction g arbitrary: n)
    case (Suc g)
    then show ?case by (cases n) (simp_all add: bit_age add.commute [of 4])
  qed simp
qed

text \<open>The history describes the opcodes at \<open>p\<close> and before it.\<close>

definition marks_ok :: "u8 list \<Rightarrow> nat \<Rightarrow> u32 \<Rightarrow> bool" where
  "marks_ok d p h \<longleftrightarrow> (\<forall>i < 4. bit h i \<longrightarrow> i \<le> p \<and> (bit h (i + 4) \<longleftrightarrow> looks_high (d ! (p - i + 4))))"

definition history_ok :: "u8 list \<Rightarrow> nat \<Rightarrow> u32 \<Rightarrow> u32 \<Rightarrow> bool" where
  "history_ok d pos prev h \<longleftrightarrow> h = 0 \<or> (\<exists>p < pos. prev = of_nat p \<and> marks_ok d p h)"

lemma age_zero [simp]: "(age ^^ g) 0 = 0"
  by (induction g) (simp_all add: age_def)

lemma aged_history:
  assumes "p < pos" "pos < 2 ^ 32"
  shows "bcj_history (of_nat pos - of_nat p) h = (if 4 \<le> pos - p then 0 else (age ^^ (pos - p)) h)"
proof -
  have "(of_nat pos - of_nat p :: u32) = of_nat (pos - p)" using assms(1) by (simp add: of_nat_diff)
  moreover have "unat (of_nat (pos - p) :: u32) = pos - p" using assms by (simp only: unat_of_nat) simp
  ultimately show ?thesis by (simp add: bcj_history_def word_le_nat_alt)
qed

lemma aged_marks:
  assumes "history_ok d pos prev h" "pos < 2 ^ 32"
  shows "marks_ok d pos (bcj_history (of_nat pos - prev) h)" "\<not> bit (bcj_history (of_nat pos - prev) h) 0" "\<not> bit (bcj_history (of_nat pos - prev) h) 4"
proof -
  have "marks_ok d pos (bcj_history (of_nat pos - prev) h) \<and> \<not> bit (bcj_history (of_nat pos - prev) h) 0 \<and> \<not> bit (bcj_history (of_nat pos - prev) h) 4"
  proof (cases "h = 0")
    case True
    then show ?thesis by (simp add: bcj_history_def marks_ok_def)
  next
    case False
    then obtain p where p: "p < pos" "prev = of_nat p" "marks_ok d p h" using assms(1) by (auto simp: history_ok_def)
    have "marks_ok d pos ((age ^^ (pos - p)) h)" unfolding marks_ok_def
    proof (intro allI impI)
      fix i assume i: "i < (4 :: nat)" "bit ((age ^^ (pos - p)) h) i"
      then have j: "pos - p \<le> i" "bit h (i - (pos - p))" by (simp_all add: bit_age_pow(1))
      then have m: "i - (pos - p) \<le> p" "bit h (i - (pos - p) + 4) \<longleftrightarrow> looks_high (d ! (p - (i - (pos - p)) + 4))"
        using p(3) [unfolded marks_ok_def, rule_format, of "i - (pos - p)"] i(1) by simp_all
      moreover have "p - (i - (pos - p)) = pos - i" using j(1) p(1) by simp
      ultimately show "i \<le> pos \<and> (bit ((age ^^ (pos - p)) h) (i + 4) \<longleftrightarrow> looks_high (d ! (pos - i + 4)))"
        using i(1) j(1) p(1) by (simp add: bit_age_pow(2))
    qed
    moreover have "marks_ok d pos 0" by (simp add: marks_ok_def)
    ultimately show ?thesis using bit_age_pow [of 0 "pos - p" h] p(1) unfolding p(2) aged_history [OF p(1) assms(2)] by auto
  qed
  then show "marks_ok d pos (bcj_history (of_nat pos - prev) h)" "\<not> bit (bcj_history (of_nat pos - prev) h) 0" "\<not> bit (bcj_history (of_nat pos - prev) h) 4" by auto
qed

lemma skip_marks:
  assumes "marks_ok d pos hist" "\<not> bit hist 0" "\<not> bit hist 4"
  shows "marks_ok d pos ((hist OR 1) OR (if looks_high (d ! (pos + 4)) then 16 else 0))"
proof -
  let ?h = "(hist OR 1) OR (if looks_high (d ! (pos + 4)) then 16 else 0)"
  have "bit (push_bit 4 1 :: u32) n \<longleftrightarrow> n = 4" for n unfolding bit_push_bit_iff bit_1_iff by auto
  then have b: "bit ?h n \<longleftrightarrow> bit hist n \<or> n = 0 \<or> n = 4 \<and> looks_high (d ! (pos + 4))" for n
    by (auto simp: bit_or_iff bit_1_iff)
  show ?thesis unfolding marks_ok_def
  proof (intro allI impI)
    fix i assume i: "i < (4 :: nat)" "bit ?h i"
    show "i \<le> pos \<and> (bit ?h (i + 4) \<longleftrightarrow> looks_high (d ! (pos - i + 4)))"
      using i assms(2,3) assms(1) [unfolded marks_ok_def, rule_format, of i] unfolding b by (cases "i = 0") auto
  qed
qed

section \<open>One target\<close>

text \<open>The byte of a target that is the high byte of an opcode before it.\<close>

definition byte_at :: "nat \<Rightarrow> u32 \<Rightarrow> u8" where
  "byte_at shift v = ucast (drop_bit shift v)"

lemma byte_at_bit: "bit (byte_at shift v) i \<longleftrightarrow> i < 8 \<and> bit v (shift + i)"
  by (simp add: byte_at_def bit_unsigned_iff bit_drop_bit_eq)

lemma byte_at_cong: "take_bit n v = take_bit n w \<Longrightarrow> shift + 8 \<le> n \<Longrightarrow> byte_at shift v = byte_at shift w"
  by (rule bit_eqI) (metis add_less_cancel_left bit_take_bit_iff byte_at_bit order_less_le_trans)

lemma byte_at_high: "drop_bit shift v AND 255 = 0 \<or> drop_bit shift v AND 255 = 255 \<longleftrightarrow> looks_high (byte_at shift v)"
proof -
  have e: "drop_bit shift v AND 255 = ucast (byte_at shift v)"
  proof -
    have "drop_bit shift v AND 255 = take_bit 8 (drop_bit shift v)" by (simp add: take_bit_eq_mask mask_numeral)
    also have "\<dots> = ucast (byte_at shift v)" by (rule bit_eqI) (auto simp: bit_take_bit_iff bit_unsigned_iff byte_at_bit bit_drop_bit_eq)
    finally show ?thesis .
  qed
  have "unat (ucast (byte_at shift v) :: u32) = unat (byte_at shift v)"
    using unat_lt2p [of "byte_at shift v"] by (simp add: unsigned_ucast_eq take_bit_nat_eq_self_iff)
  then show ?thesis unfolding e looks_high_def by (simp add: word_unat_eq_iff)
qed

lemma flip_mask: "shift \<le> 24 \<Longrightarrow> NOT (push_bit shift 0xFFFFFF00) = (mask (shift + 8) :: u32)"
proof (rule bit_word_eqI)
  fix n assume "shift \<le> 24" "n < LENGTH(32)"
  have "(0xFFFFFF00 :: u32) = NOT (mask 8)" by (simp add: mask_numeral)
  then show "bit (NOT (push_bit shift 0xFFFFFF00) :: u32) n \<longleftrightarrow> bit (mask (shift + 8) :: u32) n"
    using \<open>n < LENGTH(32)\<close> by (auto simp only: bit_not_iff bit_push_bit_iff bit_mask_iff possible_bit_word)
qed

lemma byte_at_not: "shift \<le> 24 \<Longrightarrow> byte_at shift (NOT v) = NOT (byte_at shift v)"
  by (rule bit_word_eqI) (simp add: byte_at_bit bit_not_iff)

lemma looks_high_not [simp]: "looks_high (NOT b) \<longleftrightarrow> looks_high b"
proof -
  have "(255 :: u8) = NOT 0" by simp
  moreover have "NOT b = 0 \<longleftrightarrow> b = NOT 0" by (metis bit.double_compl)
  ultimately show ?thesis unfolding looks_high_def by (simp only: bit.compl_eq_compl_iff) blast
qed

lemma plus_cong: "take_bit n (v + k) = take_bit n (w + k)" if "take_bit n v = take_bit n w" for v w k :: u32
proof -
  have "take_bit n (x + k) = take_bit n (take_bit n x + take_bit n k)" for x
    by transfer (simp add: take_bit_add min_def)
  then show ?thesis using that by simp
qed

lemma minus_cong: "take_bit 25 (v - k) = take_bit 25 (w - k)" if "take_bit 25 v = take_bit 25 w" for v w k :: u32
  using plus_cong [OF that, of "- k"] by simp

text \<open>After one round that flips the low bytes, the byte is the complement of what it was.\<close>

lemma flipped_byte:
  assumes "shift \<le> 16"
  shows "byte_at shift (((v + k) XOR NOT (push_bit shift 0xFFFFFF00)) + k) = NOT (byte_at shift v)"
proof -
  let ?n = "shift + 8"
  have "take_bit ?n ((v + k) XOR mask ?n) = take_bit ?n (NOT (v + k))"
    by (rule bit_eqI) (auto simp: bit_take_bit_iff bit_xor_iff bit_mask_iff bit_not_iff dest: bit_imp_le_length)
  then have "take_bit ?n (((v + k) XOR mask ?n) + k) = take_bit ?n (NOT (v + k) + k)" by (rule plus_cong)
  also have "NOT (v + k) + k = NOT v" by (simp add: not_eq_complement)
  finally show ?thesis using byte_at_cong [of ?n _ "NOT v" shift] flip_mask [of shift] byte_at_not [of shift v] assms by simp
qed

lemma bcj_value_plain: "bcj_value k shift False v = Some (v + k)"
  by (subst bcj_value.simps) (simp add: Let_def)

lemma bcj_value_ends:
  assumes "shift \<le> 16" "\<not> looks_high (byte_at shift v)"
  shows "bcj_value k shift True v =
    Some (if looks_high (byte_at shift (v + k)) then ((v + k) XOR NOT (push_bit shift 0xFFFFFF00)) + k else v + k)"
proof -
  have r: "bcj_value k shift True w = (if looks_high (byte_at shift (w + k)) then bcj_value k shift True ((w + k) XOR NOT (push_bit shift 0xFFFFFF00)) else Some (w + k))" for w
    using byte_at_high [of shift "w + k"] by (subst bcj_value.simps) (auto simp: Let_def)
  show ?thesis using r [of v] r [of "(v + k) XOR NOT (push_bit shift 0xFFFFFF00)"] flipped_byte [OF assms(1), of v k] assms(2) by simp
qed

lemma bcj_unvalue_step:
  "bcj_unvalue k shift True w =
    (if looks_high (byte_at shift (w - k)) then bcj_unvalue k shift True ((w - k) XOR NOT (push_bit shift 0xFFFFFF00)) else Some (w - k))"
  using byte_at_high [of shift "w - k"] by (subst bcj_unvalue.simps) (auto simp: Let_def)

text \<open>Only the low 25 bits of a target are kept; from them the reader finds those of the original target.\<close>

lemma bcj_unvalue_ok:
  assumes "shift \<le> 16" "hist \<Longrightarrow> \<not> looks_high (byte_at shift v)"
  shows "\<exists>u. bcj_value k shift hist v = Some u \<and> (hist \<longrightarrow> \<not> looks_high (byte_at shift u)) \<and>
    (\<forall>w. take_bit 25 w = take_bit 25 u \<longrightarrow> (\<exists>x. bcj_unvalue k shift hist w = Some x \<and> take_bit 25 x = take_bit 25 v))"
proof (cases hist)
  case False
  have "bcj_unvalue k shift False w = Some (w - k)" for w by (subst bcj_unvalue.simps) (simp add: Let_def)
  moreover have "take_bit 25 (w - k) = take_bit 25 v" if "take_bit 25 w = take_bit 25 (v + k)" for w using minus_cong [OF that, of k] by simp
  ultimately show ?thesis using False by (simp add: bcj_value_plain)
next
  case True
  let ?m = "NOT (push_bit shift 0xFFFFFF00) :: u32"
  have nl: "\<not> looks_high (byte_at shift v)" using assms(2) True .
  have cong: "looks_high (byte_at shift x) \<longleftrightarrow> looks_high (byte_at shift y)" if "take_bit 25 x = take_bit 25 y" for x y
    using byte_at_cong [OF that, of shift] assms(1) by simp
  show ?thesis
  proof (cases "looks_high (byte_at shift (v + k))")
    case False
    have "bcj_unvalue k shift True w = Some (w - k) \<and> take_bit 25 (w - k) = take_bit 25 v" if "take_bit 25 w = take_bit 25 (v + k)" for w
      using minus_cong [OF that, of k] cong [of "w - k" v] nl by (simp add: bcj_unvalue_step [of _ _ w])
    then show ?thesis using True False bcj_value_ends [OF assms(1) nl, of k] by auto
  next
    case h: True
    let ?u = "((v + k) XOR ?m) + k"
    have "bcj_unvalue k shift True w = Some (((w - k) XOR ?m) - k) \<and> take_bit 25 (((w - k) XOR ?m) - k) = take_bit 25 v" if "take_bit 25 w = take_bit 25 ?u" for w
    proof -
      have a: "take_bit 25 (w - k) = take_bit 25 ((v + k) XOR ?m)" using minus_cong [OF that, of k] by simp
      then have "take_bit 25 ((w - k) XOR ?m) = take_bit 25 (((v + k) XOR ?m) XOR ?m)" by (simp only: take_bit_xor)
      then have b: "take_bit 25 ((w - k) XOR ?m) = take_bit 25 (v + k)" by (simp only: xor.assoc xor_self_eq xor.right_neutral)
      then have c: "take_bit 25 (((w - k) XOR ?m) - k) = take_bit 25 v" using minus_cong [OF b, of k] by simp
      have "byte_at shift ((v + k) XOR ?m) = NOT (byte_at shift (v + k))"
        using flipped_byte [OF assms(1), of "v + k" 0] by simp
      then have "looks_high (byte_at shift (w - k))" using h cong [OF a] by simp
      then show ?thesis using c cong [OF c] nl bcj_unvalue_step [of k shift w] bcj_unvalue_step [of k shift "(w - k) XOR ?m"] by simp
    qed
    moreover have "\<not> looks_high (byte_at shift ?u)" using flipped_byte [OF assms(1), of v k] nl by simp
    ultimately show ?thesis using True h bcj_value_ends [OF assms(1) nl, of k] by auto
  qed
qed

section \<open>Reading and writing a target\<close>

lemma bit_read32: "n < 32 \<Longrightarrow> bit (limlz_read32 d p) n \<longleftrightarrow> bit (d ! (p + n div 8)) (n mod 8)"
proof -
  assume n: "n < 32"
  have b: "bit b m \<Longrightarrow> m < 8" for b :: u8 and m using bit_imp_le_length [of b m] by simp
  have r: "bit (limlz_read32 d p) n \<longleftrightarrow> bit (d ! p) n \<or> 8 \<le> n \<and> bit (d ! (p + 1)) (n - 8) \<or> 16 \<le> n \<and> bit (d ! (p + 2)) (n - 16) \<or> 24 \<le> n \<and> bit (d ! (p + 3)) (n - 24)"
    using n less_imp_diff_less [OF n] by (simp add: limlz_read32_def bit_or_iff bit_push_bit_iff bit_unsigned_iff)
  consider "n < 8" | "8 \<le> n" "n < 16" | "16 \<le> n" "n < 24" | "24 \<le> n" by linarith
  then show ?thesis
  proof cases
    case 1
    then show ?thesis using r by simp
  next
    case 2
    then have "n div 8 = 1" "n mod 8 = n - 8" by presburger+
    then show ?thesis using r 2 b [of "d ! p" n] by auto
  next
    case 3
    then have "n div 8 = 2" "n mod 8 = n - 16" by presburger+
    then show ?thesis using r 3 b [of "d ! p" n] b [of "d ! (p + 1)" "n - 8"] by auto
  next
    case 4
    then have "n div 8 = 3" "n mod 8 = n - 24" using n by presburger+
    then show ?thesis using r 4 b [of "d ! p" n] b [of "d ! (p + 1)" "n - 8"] b [of "d ! (p + 2)" "n - 16"] by auto
  qed
qed

lemma byte_of_read32: "j < 4 \<Longrightarrow> byte_at (8 * j) (limlz_read32 d p) = d ! (p + j)"
  by (rule bit_word_eqI) (simp add: byte_at_bit bit_read32)

definition sign_byte :: "u32 \<Rightarrow> u8" where
  "sign_byte v = (if bit v 24 then 255 else 0)"

lemma nth_store_target:
  assumes "pos + 4 < length d"
  shows "store_target d pos v ! j = (if j = pos + 1 then byte_at 0 v else if j = pos + 2 then byte_at 8 v else if j = pos + 3 then byte_at 16 v
    else if j = pos + 4 then sign_byte v else d ! j)"
proof -
  have "drop_bit 24 v AND 1 = of_bool (bit v 24)"
    by (rule bit_word_eqI) (auto simp: bit_and_iff bit_drop_bit_eq bit_1_iff split: if_splits intro: gr0I)
  then have "(0 - ucast (drop_bit 24 v AND 1) :: u8) = sign_byte v" by (simp add: sign_byte_def)
  then show ?thesis using assms by (auto simp: store_target_def byte_at_def nth_list_update)
qed

lemma looks_high_sign: "looks_high (sign_byte v)" "looks_high (d ! (p + 3)) \<Longrightarrow> sign_byte (limlz_read32 d p) = d ! (p + 3)"
proof -
  show "looks_high (sign_byte v)" by (simp add: looks_high_def sign_byte_def)
  show "looks_high (d ! (p + 3)) \<Longrightarrow> sign_byte (limlz_read32 d p) = d ! (p + 3)"
    by (auto simp: looks_high_def sign_byte_def bit_read32)
qed

lemma read_stored:
  assumes "\<And>j. j < 4 \<Longrightarrow> e ! (pos + 1 + j) = store_target d pos u ! (pos + 1 + j)" "pos + 4 < length d"
  shows "take_bit 25 (limlz_read32 e (pos + 1)) = take_bit 25 u"
proof (rule bit_word_eqI)
  fix n assume "n < LENGTH(32)"
  then have n: "n < 32" by simp
  have nd: "n div 8 < 4" using n by simp
  have "n < 25 \<Longrightarrow> bit (store_target d pos u ! (pos + 1 + n div 8)) (n mod 8) \<longleftrightarrow> bit u n"
  proof -
    assume "n < 25"
    then consider "n < 8" "n div 8 = 0" | "n div 8 = 1" | "n div 8 = 2" | "n = 24" by linarith
    then show ?thesis
    proof cases
      case 4
      then show ?thesis by (simp add: nth_store_target [OF assms(2)] sign_byte_def)
    qed (use mult_div_mod_eq [of 8 n] in \<open>simp_all add: nth_store_target [OF assms(2)] byte_at_bit\<close>)
  qed
  then show "bit (take_bit 25 (limlz_read32 e (pos + 1))) n \<longleftrightarrow> bit (take_bit 25 u) n"
    using n assms(1) [OF nd] by (auto simp: bit_take_bit_iff bit_read32)
qed

lemma restored:
  assumes "take_bit 25 x = take_bit 25 (limlz_read32 d (pos + 1))" "looks_high (d ! (pos + 4))" "pos + 4 < length e" "1 \<le> j" "j \<le> 4"
  shows "store_target e pos x ! (pos + j) = d ! (pos + j)"
proof -
  have b: "byte_at (8 * i) x = d ! (pos + 1 + i)" if "i < 3" for i
    using byte_at_cong [OF assms(1), of "8 * i"] byte_of_read32 [of i d "pos + 1"] that by simp
  have "bit x 24 \<longleftrightarrow> bit (limlz_read32 d (pos + 1)) 24"
    using arg_cong [OF assms(1), of "\<lambda>w. bit w 24"] by (simp add: bit_take_bit_iff)
  moreover have "pos + 1 + 3 = pos + 4" by simp
  ultimately have s: "sign_byte x = d ! (pos + 4)" using looks_high_sign(2) [of d "pos + 1"] assms(2) unfolding sign_byte_def by metis
  have "j = 1 \<or> j = 2 \<or> j = 3 \<or> j = 4" using assms(4,5) by auto
  moreover have "pos + 1 + 2 = pos + 3" "pos + 1 + 1 = pos + 2" by simp_all
  ultimately show ?thesis using s b [of 0] b [of 1] b [of 2, unfolded \<open>pos + 1 + 2 = pos + 3\<close>] by (auto simp: nth_store_target [OF assms(3)])
qed

section \<open>The loops\<close>

lemma history_cases:
  assumes "hist \<le> 8" "hist \<noteq> 6" "\<not> bit hist 0"
  obtains "hist = 0" | j where "1 \<le> j" "j \<le> 3" "hist = 2 ^ j" "bcj_shift hist = 8 * (3 - j)" "\<not> bit hist (j + 4)" "\<And>i. bit hist i \<longleftrightarrow> i = j"
proof -
  have u: "unat hist \<le> 8" using assms(1) by (simp add: word_le_nat_alt)
  have "\<not> bit (unat hist) 0" using assms(3) by (simp add: bit_unsigned_iff)
  then have "even (unat hist)" by (simp add: bit_iff_odd)
  then have "unat hist = 0 \<or> unat hist = 2 \<or> unat hist = 4 \<or> unat hist = 6 \<or> unat hist = 8" using u by presburger
  then have "hist \<in> {0, 2, 4, 6, 8}" by (auto simp: word_unat_eq_iff)
  then consider "hist = 0" | "hist = 2" | "hist = 4" | "hist = 8" using assms(2) by auto
  then show thesis
  proof cases
    case 2
    show thesis using 2 by (intro that(2) [of 1]) (auto simp: bcj_shift_def top_bit.simps bit_2_iff)
  next
    case 3
    have "bit (push_bit 2 1 :: u32) i \<longleftrightarrow> i = 2" for i unfolding bit_push_bit_iff bit_1_iff by auto
    then show thesis using 3 by (intro that(2) [of 2]) (auto simp: bcj_shift_def top_bit.simps)
  next
    case 4
    have "bit (push_bit 3 1 :: u32) i \<longleftrightarrow> i = 3" for i unfolding bit_push_bit_iff bit_1_iff by auto
    then show thesis using 4 by (intro that(2) [of 3]) (auto simp: bcj_shift_def top_bit.simps)
  qed (rule that(1))
qed

text \<open>What happens at an opcode whose target is made absolute: the reader finds the original target, and the marked bytes stay what they are.\<close>

lemma transform:
  assumes "history_ok d pos prev h" "pos < 2 ^ 32"
  defines "hist \<equiv> bcj_history (of_nat pos - prev) h"
  assumes "hist \<le> 8" "hist \<noteq> 6"
  obtains u where "bcj_value (of_nat pos + 5) (bcj_shift hist) (hist \<noteq> 0) (limlz_read32 d (pos + 1)) = Some u"
    "\<And>w. take_bit 25 w = take_bit 25 u \<Longrightarrow> \<exists>x. bcj_unvalue (of_nat pos + 5) (bcj_shift hist) (hist \<noteq> 0) w = Some x \<and> take_bit 25 x = take_bit 25 (limlz_read32 d (pos + 1))"
    "\<And>i. i < 4 \<Longrightarrow> bit hist i \<Longrightarrow> pos + 4 < length d \<Longrightarrow> \<not> looks_high (d ! (pos - i + 4)) \<and> \<not> looks_high (store_target d pos u ! (pos - i + 4))"
proof -
  note m = aged_marks [OF assms(1,2), folded hist_def]
  let ?v = "limlz_read32 d (pos + 1)"
  from assms(4,5) m(2) show thesis
  proof (cases rule: history_cases)
    case 1
    obtain u where "bcj_value (of_nat pos + 5) (bcj_shift hist) (hist \<noteq> 0) ?v = Some u"
      "\<forall>w. take_bit 25 w = take_bit 25 u \<longrightarrow> (\<exists>x. bcj_unvalue (of_nat pos + 5) (bcj_shift hist) (hist \<noteq> 0) w = Some x \<and> take_bit 25 x = take_bit 25 ?v)"
      using bcj_unvalue_ok [of "bcj_shift hist" "hist \<noteq> 0" ?v "of_nat pos + 5"] 1 by (auto simp: bcj_shift_def)
    then show thesis using that 1 by simp
  next
    case (2 j)
    have j: "j \<le> pos" "\<not> looks_high (d ! (pos - j + 4))"
      using m(1) [unfolded marks_ok_def, rule_format, of j] 2 by auto
    have e: "pos - j + 4 = pos + 1 + (3 - j)" using j(1) 2(1,2) by simp
    have s: "bcj_shift hist \<le> 16" using 2(1,4) by simp
    have "byte_at (bcj_shift hist) ?v = d ! (pos + 1 + (3 - j))" using byte_of_read32 [of "3 - j" d "pos + 1"] 2(1,4) by simp
    then have nl: "\<not> looks_high (byte_at (bcj_shift hist) ?v)" using j(2) e by simp
    obtain u where u: "bcj_value (of_nat pos + 5) (bcj_shift hist) (hist \<noteq> 0) ?v = Some u" "hist \<noteq> 0 \<longrightarrow> \<not> looks_high (byte_at (bcj_shift hist) u)"
      "\<forall>w. take_bit 25 w = take_bit 25 u \<longrightarrow> (\<exists>x. bcj_unvalue (of_nat pos + 5) (bcj_shift hist) (hist \<noteq> 0) w = Some x \<and> take_bit 25 x = take_bit 25 ?v)"
      using bcj_unvalue_ok [OF s, of "hist \<noteq> 0" ?v "of_nat pos + 5"] nl by auto
    have h0: "hist \<noteq> 0" using 2(6) [of j] by auto
    have "\<not> looks_high (store_target d pos u ! (pos - j + 4))" if "pos + 4 < length d"
    proof -
      have "j = 1 \<or> j = 2 \<or> j = 3" using 2(1,2) by auto
      then have "store_target d pos u ! (pos + 1 + (3 - j)) = byte_at (8 * (3 - j)) u" by (auto simp: nth_store_target [OF that])
      then show ?thesis unfolding e using u(2) h0 2(4) by simp
    qed
    then have "\<not> looks_high (d ! (pos - i + 4)) \<and> \<not> looks_high (store_target d pos u ! (pos - i + 4))" if "bit hist i" "pos + 4 < length d" for i
      using that j(2) 2(6) [of i] by simp
    then show thesis using u(3) by (intro that [OF u(1)]) blast+
  qed
qed

definition is_branch :: "u8 \<Rightarrow> bool" where
  "is_branch b \<longleftrightarrow> b = 0xE8 \<or> b = 0xE9"

definition takes :: "u8 list \<Rightarrow> nat \<Rightarrow> u32 \<Rightarrow> bool" where
  "takes d pos hist \<longleftrightarrow> looks_high (d ! (pos + 4)) \<and> hist \<le> 8 \<and> hist \<noteq> 6"

definition marked :: "u8 list \<Rightarrow> nat \<Rightarrow> u32 \<Rightarrow> u32" where
  "marked d pos hist = (hist OR 1) OR (if looks_high (d ! (pos + 4)) then 16 else 0)"

lemma bcj_loop_unfold:
  "bcj_loop d pos prev h =
     (if length d - pos < 5 then Some d
      else if \<not> is_branch (d ! pos) then bcj_loop d (pos + 1) prev h
      else if takes d pos (bcj_history (of_nat pos - prev) h)
           then (case bcj_value (of_nat pos + 5) (bcj_shift (bcj_history (of_nat pos - prev) h)) (bcj_history (of_nat pos - prev) h \<noteq> 0) (limlz_read32 d (pos + 1)) of
                   None \<Rightarrow> None | Some v \<Rightarrow> bcj_loop (store_target d pos v) (pos + 5) (of_nat pos) 0)
           else bcj_loop d (pos + 1) (of_nat pos) (marked d pos (bcj_history (of_nat pos - prev) h)))"
  unfolding is_branch_def de_Morgan_disj takes_def marked_def looks_high_def by (subst bcj_loop.simps) (simp only: Let_def)

lemma bcj_unloop_unfold:
  "bcj_unloop d pos prev h =
     (if length d - pos < 5 then Some d
      else if \<not> is_branch (d ! pos) then bcj_unloop d (pos + 1) prev h
      else if takes d pos (bcj_history (of_nat pos - prev) h)
           then (case bcj_unvalue (of_nat pos + 5) (bcj_shift (bcj_history (of_nat pos - prev) h)) (bcj_history (of_nat pos - prev) h \<noteq> 0) (limlz_read32 d (pos + 1)) of
                   None \<Rightarrow> None | Some v \<Rightarrow> bcj_unloop (store_target d pos v) (pos + 5) (of_nat pos) 0)
           else bcj_unloop d (pos + 1) (of_nat pos) (marked d pos (bcj_history (of_nat pos - prev) h)))"
  unfolding is_branch_def de_Morgan_disj takes_def marked_def looks_high_def by (subst bcj_unloop.simps) (simp only: Let_def)

text \<open>The course of the loop, with the opcode at hand.\<close>

lemma bcj_loop_cases [consumes 1, case_names stop plain target skip]:
  assumes "bcj_loop d pos prev h = Some e"
  obtains "length d - pos < 5" "e = d"
  | "5 \<le> length d - pos" "\<not> is_branch (d ! pos)" "bcj_loop d (pos + 1) prev h = Some e"
  | hist v where "5 \<le> length d - pos" "is_branch (d ! pos)" "hist = bcj_history (of_nat pos - prev) h" "takes d pos hist"
      "bcj_value (of_nat pos + 5) (bcj_shift hist) (hist \<noteq> 0) (limlz_read32 d (pos + 1)) = Some v" "bcj_loop (store_target d pos v) (pos + 5) (of_nat pos) 0 = Some e"
  | hist where "5 \<le> length d - pos" "is_branch (d ! pos)" "hist = bcj_history (of_nat pos - prev) h" "\<not> takes d pos hist"
      "bcj_loop d (pos + 1) (of_nat pos) (marked d pos hist) = Some e"
  using assms bcj_loop_unfold [of d pos prev h]
  by (cases "length d - pos < 5"; cases "is_branch (d ! pos)"; cases "takes d pos (bcj_history (of_nat pos - prev) h)") (auto split: option.splits)

lemma bcj_loop_prefix: "bcj_loop d pos prev h = Some e \<Longrightarrow> length e = length d \<and> (\<forall>j \<le> pos. e ! j = d ! j)"
proof (induction "length d - pos" arbitrary: d pos prev h rule: less_induct)
  case less
  from less.prems show ?case
  proof (cases rule: bcj_loop_cases)
    case plain
    then show ?thesis using less.hyps [OF _ plain(3)] by simp
  next
    case (target hist v)
    then show ?thesis using less.hyps [OF _ target(6)] by (simp add: nth_store_target)
  next
    case (skip hist)
    then show ?thesis using less.hyps [OF _ skip(5)] by simp
  qed simp
qed

lemma history_ok_skip:
  "history_ok d pos prev h \<Longrightarrow> pos < 2 ^ 32 \<Longrightarrow> hist = bcj_history (of_nat pos - prev) h \<Longrightarrow> marks_ok d pos (marked d pos hist) \<and> history_ok d (pos + 1) (of_nat pos) (marked d pos hist)"
  using aged_marks [of d pos prev h] skip_marks [of d pos hist] by (auto simp: marked_def history_ok_def)

lemma history_ok_later: "history_ok d pos prev h \<Longrightarrow> history_ok d (pos + 1) prev h"
  by (auto simp: history_ok_def intro: less_SucI)

lemma history_ok_zero: "history_ok d pos prev 0"
  by (simp add: history_ok_def)

lemma bcj_loop_returns: "history_ok d pos prev h \<Longrightarrow> length d < 2 ^ 32 \<Longrightarrow> \<exists>e. bcj_loop d pos prev h = Some e"
proof (induction "length d - pos" arbitrary: d pos prev h rule: less_induct)
  case less
  show ?case
  proof (cases "5 \<le> length d - pos")
    case True
    then have p: "pos < 2 ^ 32" using less.prems(2) by simp
    let ?hist = "bcj_history (of_nat pos - prev) h"
    consider "\<not> is_branch (d ! pos)" | "is_branch (d ! pos)" "takes d pos ?hist" | "is_branch (d ! pos)" "\<not> takes d pos ?hist" by blast
    then show ?thesis
    proof cases
      case 1
      then show ?thesis using less.hyps [of d "pos + 1" prev h] less.prems history_ok_later True by (subst bcj_loop_unfold) simp
    next
      case 2
      then have t: "?hist \<le> 8" "?hist \<noteq> 6" by (simp_all add: takes_def)
      obtain u where "bcj_value (of_nat pos + 5) (bcj_shift ?hist) (?hist \<noteq> 0) (limlz_read32 d (pos + 1)) = Some u"
        by (rule transform [OF less.prems(1) p t])
      then show ?thesis using less.hyps [of "store_target d pos u" "pos + 5" "of_nat pos" 0] less.prems(2) True 2 history_ok_zero
        by (subst bcj_loop_unfold) simp
    next
      case 3
      then show ?thesis using less.hyps [of d "pos + 1" "of_nat pos" "marked d pos ?hist"] less.prems(2) history_ok_skip [OF less.prems(1) p refl] True
        by (subst bcj_loop_unfold) simp
    qed
  qed (subst bcj_loop_unfold, simp)
qed

text \<open>The marked high bytes keep their kind in what the loop still does.\<close>

lemma marks_kept:
  "bcj_loop d pos (of_nat p) h = Some e \<Longrightarrow> p < pos \<Longrightarrow> marks_ok d p h \<Longrightarrow> length d < 2 ^ 32 \<Longrightarrow> i < 4 \<Longrightarrow> bit h i \<Longrightarrow>
   looks_high (e ! (p - i + 4)) \<longleftrightarrow> looks_high (d ! (p - i + 4))"
proof (induction "length d - pos" arbitrary: d pos p h i rule: less_induct)
  case less
  have ho: "history_ok d pos (of_nat p) h" using less.prems(2,3) by (auto simp: history_ok_def)
  have early: "looks_high (e ! (p - i + 4)) \<longleftrightarrow> looks_high (d ! (p - i + 4))" if "p - i + 4 \<le> pos"
    using bcj_loop_prefix [OF less.prems(1)] that by simp
  have later: "pos - p + i < 4 \<and> pos - (pos - p + i) = p - i \<and> bit (bcj_history (of_nat pos - of_nat p) h) (pos - p + i)" if "\<not> p - i + 4 \<le> pos" "pos < 2 ^ 32"
  proof -
    have "i \<le> p" using less.prems(3,5,6) by (auto simp: marks_ok_def)
    moreover have "pos - p + i < 4" using that(1) less.prems(2) calculation by simp
    moreover obtain g where "pos = p + g" using less.prems(2) less_imp_add_positive by blast
    ultimately show ?thesis using aged_history [OF less.prems(2) that(2), of h] bit_age_pow(1) [of "pos - p + i" "pos - p" h] less.prems(2,6) by simp
  qed
  show ?case
  proof (cases "p - i + 4 \<le> pos")
    case False
    from less.prems(1) show ?thesis
    proof (cases rule: bcj_loop_cases)
      case plain
      then show ?thesis using less.hyps [OF _ plain(3)] less.prems by simp
    next
      case (target hist v)
      have p: "pos < 2 ^ 32" "pos + 4 < length d" using target(1) less.prems(4) by simp_all
      note l = later [OF False p(1), folded target(3)]
      obtain u where "bcj_value (of_nat pos + 5) (bcj_shift hist) (hist \<noteq> 0) (limlz_read32 d (pos + 1)) = Some u"
        "\<And>i. i < 4 \<Longrightarrow> bit hist i \<Longrightarrow> pos + 4 < length d \<Longrightarrow> \<not> looks_high (d ! (pos - i + 4)) \<and> \<not> looks_high (store_target d pos u ! (pos - i + 4))"
        using transform [OF ho p(1), folded target(3)] target(4) unfolding takes_def by blast
      then have "\<not> looks_high (d ! (p - i + 4))" "\<not> looks_high (store_target d pos v ! (p - i + 4))" using target(5) l p(2) by (metis option.inject)+
      moreover have "e ! (p - i + 4) = store_target d pos v ! (p - i + 4)" using bcj_loop_prefix [OF target(6)] less.prems(2) by simp
      ultimately show ?thesis by simp
    next
      case (skip hist)
      have p: "pos < 2 ^ 32" using skip(1) less.prems(4) by simp
      note l = later [OF False p, folded skip(3)]
      have "bit (marked d pos hist) (pos - p + i)" using l by (simp add: marked_def bit_or_iff)
      then show ?thesis using less.hyps [OF _ skip(5), of "pos - p + i"] history_ok_skip [OF ho p skip(3)] l less.prems(4) skip(1) by simp
    qed simp
  qed (rule early)
qed

text \<open>The reader starts each round with the original bytes before the position and the filtered ones from there on.\<close>

lemma next_split: "pos < length e \<Longrightarrow> e ! pos = d ! pos \<Longrightarrow> xs @ drop pos e = (xs @ [d ! pos]) @ drop (pos + 1) e"
  using Cons_nth_drop_Suc [of pos e] by simp

lemma nth_tail: "length xs = pos \<Longrightarrow> pos \<le> j \<Longrightarrow> j < length e \<Longrightarrow> (xs @ drop pos e) ! j = e ! j"
  by (simp add: nth_append)

lemma target_restored:
  assumes "length xs = pos" "pos + 4 < length e" "length e = length d" "e ! pos = d ! pos"
    "take_bit 25 x = take_bit 25 (limlz_read32 d (pos + 1))" "looks_high (d ! (pos + 4))"
  shows "store_target (xs @ drop pos e) pos x = (xs @ take 5 (drop pos d)) @ drop (pos + 5) e"
proof (rule nth_equalityI)
  fix j assume "j < length (store_target (xs @ drop pos e) pos x)"
  then have j: "j < length e" using assms(1,2) by simp
  have lt: "pos + 4 < length (xs @ drop pos e)" using assms(1,2) by simp
  consider "j < pos" | "j = pos" | i where "1 \<le> i" "i \<le> 4" "j = pos + i" | "pos + 5 \<le> j"
  proof -
    have "j < pos \<or> j = pos \<or> (1 \<le> j - pos \<and> j - pos \<le> 4 \<and> j = pos + (j - pos)) \<or> pos + 5 \<le> j" by linarith
    then show thesis using that by blast
  qed
  then show "store_target (xs @ drop pos e) pos x ! j = ((xs @ take 5 (drop pos d)) @ drop (pos + 5) e) ! j"
  proof cases
    case 1
    then show ?thesis using assms(1) unfolding nth_store_target [OF lt] by (simp add: nth_append)
  next
    case 2
    then show ?thesis using assms(1-4) unfolding nth_store_target [OF lt] by (simp add: nth_append)
  next
    case (3 i)
    then show ?thesis using restored [OF assms(5,6) lt 3(1,2)] assms(1-3) by (simp add: nth_append)
  next
    case 4
    then obtain k where "j = pos + 5 + k" using le_Suc_ex by blast
    then show ?thesis using assms(1-3) j unfolding nth_store_target [OF lt] by (simp add: nth_append add.assoc)
  qed
qed (use assms(1-3) in simp)

lemma bcj_unloop_ok:
  "bcj_loop d pos prev h = Some e \<Longrightarrow> history_ok d pos prev h \<Longrightarrow> length d < 2 ^ 32 \<Longrightarrow> length xs = pos \<Longrightarrow> pos \<le> length d \<Longrightarrow>
   bcj_unloop (xs @ drop pos e) pos prev h = Some (xs @ drop pos d)"
proof (induction "length d - pos" arbitrary: d pos prev h xs rule: less_induct)
  case less
  note pre = bcj_loop_prefix [OF less.prems(1)]
  have len: "length (xs @ drop pos e) - pos = length d - pos" using pre less.prems(4) by simp
  have here: "(xs @ drop pos e) ! pos = d ! pos" if "5 \<le> length d - pos" using pre that less.prems(4) by (simp add: nth_append)
  from less.prems(1) show ?case
  proof (cases rule: bcj_loop_cases)
    case stop
    then show ?thesis using len by (subst bcj_unloop_unfold) simp
  next
    case plain
    have s: "xs @ drop pos y = (xs @ [d ! pos]) @ drop (pos + 1) y" if "y ! pos = d ! pos" "length y = length d" for y
      using next_split [of pos y d xs] that plain(1) by simp
    have "bcj_unloop ((xs @ [d ! pos]) @ drop (pos + 1) e) (pos + 1) prev h = Some ((xs @ [d ! pos]) @ drop (pos + 1) d)"
      using less.hyps [OF _ plain(3) history_ok_later [OF less.prems(2)] less.prems(3), of "xs @ [d ! pos]"] plain(1) less.prems(4) by simp
    then show ?thesis using plain(1,2) here len s [of e] s [of d] pre by (subst bcj_unloop_unfold) simp
  next
    case (target hist v)
    have p: "pos < 2 ^ 32" "pos + 4 < length d" using target(1) less.prems(3) by simp_all
    have hi: "looks_high (d ! (pos + 4))" "hist \<le> 8" "hist \<noteq> 6" using target(4) by (simp_all add: takes_def)
    have pre2: "length e = length d" "\<And>j. j \<le> pos + 5 \<Longrightarrow> e ! j = store_target d pos v ! j" using bcj_loop_prefix [OF target(6)] by simp_all
    let ?E = "xs @ drop pos e"
    have tail: "?E ! j = store_target d pos v ! j" if "pos \<le> j" "j \<le> pos + 4" for j
      using nth_tail [OF less.prems(4) that(1), of e] pre2 that p(2) by simp
    have "?E ! (pos + 4) = sign_byte v" using tail [of "pos + 4"] by (simp add: nth_store_target [OF p(2)])
    then have tk: "takes ?E pos hist" using hi(2,3) looks_high_sign(1) [of v] by (simp add: takes_def)
    have "take_bit 25 (limlz_read32 ?E (pos + 1)) = take_bit 25 v" by (rule read_stored [OF _ p(2)]) (use tail in simp)
    moreover obtain u where u: "bcj_value (of_nat pos + 5) (bcj_shift hist) (hist \<noteq> 0) (limlz_read32 d (pos + 1)) = Some u"
      "\<And>w. take_bit 25 w = take_bit 25 u \<Longrightarrow>
         \<exists>x. bcj_unvalue (of_nat pos + 5) (bcj_shift hist) (hist \<noteq> 0) w = Some x \<and> take_bit 25 x = take_bit 25 (limlz_read32 d (pos + 1))"
      by (rule transform [OF less.prems(2) p(1), folded target(3), OF hi(2,3)]) blast
    moreover have "u = v" using u(1) target(5) by simp
    ultimately obtain x where x: "bcj_unvalue (of_nat pos + 5) (bcj_shift hist) (hist \<noteq> 0) (limlz_read32 ?E (pos + 1)) = Some x"
      "take_bit 25 x = take_bit 25 (limlz_read32 d (pos + 1))" by blast
    have st: "store_target ?E pos x = (xs @ take 5 (drop pos d)) @ drop (pos + 5) e"
      using less.prems(4) p(2) pre2(1) pre x(2) hi(1) by (intro target_restored) simp_all
    have "bcj_unloop ((xs @ take 5 (drop pos d)) @ drop (pos + 5) e) (pos + 5) (of_nat pos) 0 =
        Some ((xs @ take 5 (drop pos d)) @ drop (pos + 5) (store_target d pos v))"
      using target(1) less.prems(3,4) by (intro less.hyps target(6) history_ok_zero) simp_all
    moreover have "drop (pos + 5) (store_target d pos v) = drop (pos + 5) d" by (simp add: store_target_def)
    moreover have "take 5 (drop pos d) @ drop (pos + 5) d = drop pos d" using append_take_drop_id [of 5 "drop pos d"] by (simp add: add.commute)
    ultimately show ?thesis using target(1,2,3) here len tk x(1) st by (subst bcj_unloop_unfold) simp
  next
    case (skip hist)
    have p: "pos < 2 ^ 32" using skip(1) less.prems(3) by simp
    have s: "xs @ drop pos y = (xs @ [d ! pos]) @ drop (pos + 1) y" if "y ! pos = d ! pos" "length y = length d" for y
      using next_split [of pos y d xs] that skip(1) by simp
    note ho = history_ok_skip [OF less.prems(2) p skip(3)]
    have "bit (marked d pos hist) 0" by (simp add: marked_def bit_or_iff bit_1_iff)
    then have k: "looks_high (e ! (pos + 4)) \<longleftrightarrow> looks_high (d ! (pos + 4))"
      using marks_kept [OF skip(5) _ _ less.prems(3), of 0] ho by simp
    have "(xs @ drop pos e) ! (pos + 4) = e ! (pos + 4)" using nth_tail [OF less.prems(4), of "pos + 4" e] pre skip(1) by simp
    then have eq: "takes (xs @ drop pos e) pos hist = takes d pos hist" "marked (xs @ drop pos e) pos hist = marked d pos hist"
      using k by (simp_all add: takes_def marked_def)
    have "bcj_unloop ((xs @ [d ! pos]) @ drop (pos + 1) e) (pos + 1) (of_nat pos) (marked d pos hist) = Some ((xs @ [d ! pos]) @ drop (pos + 1) d)"
      using less.hyps [OF _ skip(5) _ less.prems(3), of "xs @ [d ! pos]"] ho skip(1) less.prems(4) by simp
    then show ?thesis using skip(1,2,3,4) here len s [of e] s [of d] pre eq by (subst bcj_unloop_unfold) simp
  qed
qed

lemma bcj_encode_returns: "length d < 2 ^ 32 \<Longrightarrow> \<exists>e. bcj_encode d = Some e \<and> length e = length d"
  using bcj_loop_returns [OF history_ok_zero] bcj_loop_prefix unfolding bcj_encode_def by blast

lemma bcj_decode_encode: "length d < 2 ^ 32 \<Longrightarrow> bcj_encode d = Some e \<Longrightarrow> bcj_decode e = Some d"
  using bcj_unloop_ok [OF _ history_ok_zero, of d 0 _ e "[]"] by (simp add: bcj_encode_def bcj_decode_def)

text \<open>Property C18: the filter returns on all data, it keeps the size, and the reader's filter undoes it, also where the operands of branches overlap.\<close>

theorem bcj_roundtrip:
  assumes "length d < 2 ^ 32"
  shows "\<exists>e. bcj_encode d = Some e \<and> length e = length d \<and> bcj_decode e = Some d"
  using bcj_encode_returns [OF assms] bcj_decode_encode [OF assms] by blast

theorem bcj_roundtrip_witness:
  "\<exists>e. bcj_encode [0xE8, 0xE9, 5, 0, 3, 0, 0xE8, 1, 2, 3, 255] = Some e \<and> bcj_decode e = Some [0xE8, 0xE9, 5, 0, 3, 0, 0xE8, 1, 2, 3, 255]"
  using bcj_roundtrip [of "[0xE8, 0xE9, 5, 0, 3, 0, 0xE8, 1, 2, 3, 255]"] by auto

end
