(* ===== verification/LimlzUnpack.thy ===== *)
theory LimlzUnpack
  imports LimlzFilter
begin

text \<open>
  The reader of the packed format, as in \<^verbatim>\<open>limine/stage1/decompressor.asm\<close>, and the round trip. A reader is a tree that asks for bits, each with the index of its
  probability; it can be run on a list of decisions or on the range decoder. Each part of the format is read back from the decisions that the packer makes
  for it, and the range decoder delivers these decisions, so the reader rebuilds the data that was packed.
\<close>

section \<open>Readers\<close>

datatype 'a reader = Done 'a | Ask "nat option" "bool \<Rightarrow> 'a reader"

primrec rbind :: "'a reader \<Rightarrow> ('a \<Rightarrow> 'b reader) \<Rightarrow> 'b reader" where
  "rbind (Done a) f = f a"
| "rbind (Ask k g) f = Ask k (\<lambda>b. rbind (g b) f)"

primrec run_list :: "'a reader \<Rightarrow> decision list \<Rightarrow> ('a \<times> decision list) option" where
  "run_list (Done a) ds = Some (a, ds)"
| "run_list (Ask k g) ds =
     (case ds of [] \<Rightarrow> None | dc # ds' \<Rightarrow> if decision_kind dc = k then run_list (g (bit_of dc)) ds' else None)"

primrec run_decoder :: "'a reader \<Rightarrow> range_decoder \<Rightarrow> ('a \<times> range_decoder) option" where
  "run_decoder (Done a) de = Some (a, de)"
| "run_decoder (Ask k g) de = (case read_kind k de of None \<Rightarrow> None | Some (b, de') \<Rightarrow> run_decoder (g b) de')"

primrec read_tree :: "nat \<Rightarrow> nat \<Rightarrow> nat \<Rightarrow> nat reader" where
  "read_tree index 0 node = Done node"
| "read_tree index (Suc k) node = Ask (Some (index + node)) (\<lambda>b. read_tree index k (2 * node + of_bool b))"

text \<open>The bits of a number from the lowest on.\<close>

primrec read_reverse :: "nat \<Rightarrow> nat \<Rightarrow> nat \<Rightarrow> nat reader" where
  "read_reverse index 0 node = Done 0"
| "read_reverse index (Suc k) node =
     Ask (Some (index + node)) (\<lambda>b. rbind (read_reverse index k (2 * node + of_bool b)) (\<lambda>v. Done (of_bool b + 2 * v)))"

primrec read_direct :: "nat \<Rightarrow> nat \<Rightarrow> nat reader" where
  "read_direct 0 v = Done v"
| "read_direct (Suc k) v = Ask None (\<lambda>b. read_direct k (2 * v + of_bool b))"

definition read_length :: "nat \<Rightarrow> nat reader" where
  "read_length index = Ask (Some index) (\<lambda>b.
     if \<not> b then rbind (read_tree (index + 2) 3 1) (\<lambda>n. Done (n + 2 - 8))
     else Ask (Some (index + 1)) (\<lambda>b.
       if \<not> b then rbind (read_tree (index + 130) 3 1) (\<lambda>n. Done (n + 10 - 8))
       else rbind (read_tree (index + 258) 8 1) (\<lambda>n. Done (n + 18 - 256))))"

definition read_extra :: "nat \<Rightarrow> nat reader" where
  "read_extra slot =
     (if slot < 4 then Done (slot + 1)
      else let bits = slot div 2 - 1; base = (2 + slot mod 2) * 2 ^ bits
           in if slot < 14 then rbind (read_reverse (LIMLZ_SPECIAL + base - slot - 1) bits 1) (\<lambda>v. Done (base + v + 1))
              else rbind (read_direct (bits - 4) 0) (\<lambda>u. rbind (read_reverse LIMLZ_ALIGN 4 1) (\<lambda>v. Done (base + u * 16 + v + 1))))"

definition read_distance :: "nat \<Rightarrow> nat reader" where
  "read_distance n = rbind (read_tree (LIMLZ_SLOT + (if n - 2 \<le> 3 then n - 2 else 3) * 64) 6 1) (\<lambda>node. read_extra (node - 64))"

primrec read_literal_bits :: "nat \<Rightarrow> nat \<Rightarrow> nat \<Rightarrow> bool \<Rightarrow> nat \<Rightarrow> nat reader" where
  "read_literal_bits index 0 node matched m = Done node"
| "read_literal_bits index (Suc k) node matched m =
     (let m' = 2 * m; above = odd (m' div 256)
      in Ask (Some (index + node + (if matched then 256 else 0) + (if matched \<and> above then 256 else 0))) (\<lambda>b.
           read_literal_bits index k (2 * node + of_bool b) (matched \<and> b = above) m'))"

definition read_literal :: "u8 list \<Rightarrow> nat \<Rightarrow> nat list \<Rightarrow> token reader" where
  "read_literal out state reps =
     rbind (read_literal_bits (LIMLZ_LITERAL + (if out \<noteq> [] then unat (last out) else 0) div 64 * 768) 8 1 (state \<ge> 7)
              (if state \<ge> 7 then unat (out ! (length out - reps ! 0)) else 0)) (\<lambda>node. Done (Literal (of_nat node)))"

definition read_token :: "u8 list \<Rightarrow> nat \<Rightarrow> nat list \<Rightarrow> token reader" where
  "read_token out state reps = Ask (Some (state * 16)) (\<lambda>b.
     if \<not> b then read_literal out state reps
     else Ask (Some (LIMLZ_IS_REP + state)) (\<lambda>b.
       if \<not> b then rbind (read_length LIMLZ_LENGTH) (\<lambda>n. rbind (read_distance n) (\<lambda>dist. Done (Match n dist)))
       else Ask (Some (LIMLZ_REP_G0 + state)) (\<lambda>b.
         if \<not> b then Ask (Some (LIMLZ_REP_LONG + state * 16)) (\<lambda>b.
             if \<not> b then Done Short_rep else rbind (read_length LIMLZ_REP_LENGTH) (\<lambda>n. Done (Rep 0 n)))
         else Ask (Some (LIMLZ_REP_G1 + state)) (\<lambda>b.
           if \<not> b then rbind (read_length LIMLZ_REP_LENGTH) (\<lambda>n. Done (Rep 1 n))
           else Ask (Some (LIMLZ_REP_G2 + state)) (\<lambda>b. rbind (read_length LIMLZ_REP_LENGTH) (\<lambda>n. Done (Rep (if b then 3 else 2) n)))))))"

text \<open>A copy is refused if it starts before the output or ends after it.\<close>

definition copy_allowed :: "nat \<Rightarrow> u8 list \<Rightarrow> nat list \<Rightarrow> token \<Rightarrow> bool" where
  "copy_allowed out_size out reps t =
     (let back = (\<lambda>dist n. 0 < dist \<and> dist \<le> length out \<and> n \<le> out_size - length out)
      in case t of Literal _ \<Rightarrow> True | Short_rep \<Rightarrow> back (reps ! 0) 1 | Rep r n \<Rightarrow> back (reps ! r) n | Match n dist \<Rightarrow> back dist n)"

text \<open>The loop over the tokens, with a bound on their number; every token adds a byte, so the size of the output is enough.\<close>

primrec read_all :: "nat \<Rightarrow> nat \<Rightarrow> u8 list \<Rightarrow> nat \<Rightarrow> nat list \<Rightarrow> u8 list option reader" where
  "read_all out_size 0 out state reps = Done (if length out = out_size then Some out else None)"
| "read_all out_size (Suc fuel) out state reps =
     (if length out = out_size then Done (Some out)
      else rbind (read_token out state reps) (\<lambda>t.
        if \<not> copy_allowed out_size out reps t then Done None
        else case expand_token t (out, reps) of (out', reps') \<Rightarrow> read_all out_size fuel out' (next_state state t) reps'))"

definition unpack :: "nat \<Rightarrow> u8 list \<Rightarrow> u8 list option" where
  "unpack out_size s =
     (case decoder_start s of
        None \<Rightarrow> None
      | Some de \<Rightarrow> (case run_decoder (read_all out_size out_size [] 0 [1, 1, 1, 1]) de of
          None \<Rightarrow> None
        | Some (r, de') \<Rightarrow> if decoder_done de' then r else None))"

section \<open>Parts of the format are read back\<close>

lemma run_list_bind: "run_list (rbind m f) ds = (case run_list m ds of None \<Rightarrow> None | Some (a, ds') \<Rightarrow> run_list (f a) ds')"
  by (induction m arbitrary: ds) (auto split: list.splits)

lemma run_kinds [simp]: "decision_kind (Bit i b) = Some i" "bit_of (Bit i b) = b" "decision_kind (Direct b) = None" "bit_of (Direct b) = b"
  by (simp_all add: decision_kind_def bit_of_def)

text \<open>A reader that is content with a list of decisions is content with a decoder that delivers them.\<close>

lemma run_decoder_list:
  assumes "run_list p ds = Some (a, rest)" "decode_all (map decision_kind ds) de = Some (map bit_of ds, de')"
  shows "\<exists>de1. run_decoder p de = Some (a, de1) \<and> decode_all (map decision_kind rest) de1 = Some (map bit_of rest, de')"
  using assms
proof (induction p arbitrary: ds de)
  case (Ask k g)
  obtain dc ds' where ds: "ds = dc # ds'" "decision_kind dc = k" "run_list (g (bit_of dc)) ds' = Some (a, rest)"
    using Ask(2) by (auto split: list.splits if_splits)
  obtain b de2 where b: "read_kind k de = Some (b, de2)" "b = bit_of dc" "decode_all (map decision_kind ds') de2 = Some (map bit_of ds', de')"
    using Ask(3) ds(1,2) by (auto split: option.splits)
  obtain de1 where "run_decoder (g (bit_of dc)) de2 = Some (a, de1)" "decode_all (map decision_kind rest) de1 = Some (map bit_of rest, de')"
    using Ask(1) [OF rangeI ds(3) b(3)] by blast
  then show ?case using b by simp
qed simp

lemma mod_two_power_Suc: "v mod 2 ^ Suc k = v mod 2 ^ k + 2 ^ k * of_bool (odd (v div 2 ^ k))" for v :: nat
proof -
  have "v mod 2 ^ Suc k = v mod (2 ^ k * 2)" by (simp add: mult.commute)
  also have "\<dots> = 2 ^ k * (v div 2 ^ k mod 2) + v mod 2 ^ k" by (rule mod_mult2_eq)
  also have "v div 2 ^ k mod 2 = of_bool (odd (v div 2 ^ k))" by (rule mod2_eq_if [THEN trans]) simp
  finally show ?thesis by simp
qed

lemma read_tree_bits: "run_list (read_tree index k node) (tree_bits index v k node @ rest) = Some (node * 2 ^ k + v mod 2 ^ k, rest)"
proof (induction k arbitrary: node)
  case (Suc k)
  show ?case using Suc [of "2 * node + of_bool (odd (v div 2 ^ k))"] mod_two_power_Suc [of v k] by (simp add: Let_def distrib_right)
qed simp

lemma read_tree_ok: "v < 2 ^ k \<Longrightarrow> run_list (read_tree index k 1) (encode_tree index k v @ rest) = Some (2 ^ k + v, rest)"
  using read_tree_bits [of index k 1 v rest] by (simp add: encode_tree_def)

lemma read_reverse_bits: "run_list (read_reverse index k node) (reverse_bits index k v node @ rest) = Some (v mod 2 ^ k, rest)"
proof (induction k arbitrary: node v)
  case (Suc k)
  have "v mod 2 ^ Suc k = v mod 2 + 2 * (v div 2 mod 2 ^ k)" by (simp add: mod_mult2_eq)
  then show ?case using Suc [of "2 * node + of_bool (odd v)" "v div 2"] by (simp add: Let_def run_list_bind mod2_eq_if)
qed simp

lemma read_reverse_ok: "v < 2 ^ k \<Longrightarrow> run_list (read_reverse index k 1) (encode_reverse index k v @ rest) = Some (v, rest)"
  using read_reverse_bits [of index k 1 v rest] by (simp add: encode_reverse_def)

lemma read_direct_bits: "run_list (read_direct k u) (direct_bits e k @ rest) = Some (u * 2 ^ k + e div 16 mod 2 ^ k, rest)"
proof (induction k arbitrary: u)
  case (Suc k)
  have "e div 2 ^ (k + 4) = e div 16 div 2 ^ k" using div_mult2_eq [of e 16 "2 ^ k"] by (simp add: power_add mult.commute)
  then show ?case using Suc [of "2 * u + of_bool (odd (e div 16 div 2 ^ k))"] mod_two_power_Suc [of "e div 16" k] by (simp add: distrib_right)
qed simp

lemma read_length_ok:
  assumes "2 \<le> n" "n \<le> 273"
  shows "run_list (read_length index) (encode_length index 0 n @ rest) = Some (n, rest)"
proof -
  consider "n < 10" | "10 \<le> n" "n < 18" | "18 \<le> n" by linarith
  then show ?thesis
  proof cases
    case 1
    then have "n - 2 < 2 ^ 3" by simp
    from read_tree_ok [OF this] show ?thesis using 1 assms(1) by (simp add: read_length_def encode_length_def run_list_bind)
  next
    case 2
    then have "n - 10 < 2 ^ 3" by simp
    from read_tree_ok [OF this] show ?thesis using 2 by (simp add: read_length_def encode_length_def run_list_bind)
  next
    case 3
    then have "n - 18 < 2 ^ 8" using assms(2) by simp
    from read_tree_ok [OF this] show ?thesis using 3 by (simp add: read_length_def encode_length_def run_list_bind)
  qed
qed


lemma price_bits_top: "2 \<le> v \<Longrightarrow> v div 2 ^ price_bits v = 2 \<or> v div 2 ^ price_bits v = 3"
proof (induction v rule: price_bits.induct)
  case (1 v)
  show ?case
  proof (cases "v \<ge> 4")
    case True
    then have "price_bits v = Suc (price_bits (v div 2))" by (subst price_bits.simps) simp
    moreover have "v div 2 ^ Suc k = v div 2 div 2 ^ k" for k using div_mult2_eq [of v 2 "2 ^ k"] by simp
    ultimately show ?thesis using 1(1) [OF True] True by simp
  next
    case False
    then have "price_bits v = 0" by (subst price_bits.simps) simp
    then show ?thesis using False 1(2) by auto
  qed
qed

lemma distance_parts:
  assumes "4 \<le> v" "v < 2 ^ 32"
  shows "distance_slot v div 2 - 1 = price_bits v" "2 + distance_slot v mod 2 = v div 2 ^ price_bits v" "4 \<le> distance_slot v" "distance_slot v < 64"
    "v - (2 + distance_slot v mod 2) * 2 ^ price_bits v = v mod 2 ^ price_bits v" "(2 + distance_slot v mod 2) * 2 ^ price_bits v + v mod 2 ^ price_bits v = v"
    "14 \<le> distance_slot v \<Longrightarrow> 4 \<le> price_bits v"
proof -
  let ?b = "price_bits v"
  have t: "v div 2 ^ ?b = 2 \<or> v div 2 ^ ?b = 3" using assms(1) by (intro price_bits_top) simp
  have s: "distance_slot v = (?b + 1) * 2 + v div 2 ^ ?b mod 2" using assms(1) by (simp add: distance_slot_def)
  show "distance_slot v div 2 - 1 = ?b" using t unfolding s by auto
  show m: "2 + distance_slot v mod 2 = v div 2 ^ ?b" using t unfolding s by auto
  have b1: "?b = Suc (price_bits (v div 2))" using assms(1) by (subst price_bits.simps) simp
  show "4 \<le> distance_slot v" unfolding s b1 by simp
  have le: "v div 2 ^ ?b * 2 ^ ?b \<le> v" by (rule div_times_less_eq_dividend)
  have "2 * 2 ^ ?b \<le> v div 2 ^ ?b * 2 ^ ?b" using t by (intro mult_le_mono1) auto
  then have "2 * 2 ^ ?b \<le> v" using le by (rule le_trans)
  then have "2 ^ Suc ?b < (2 :: nat) ^ 32" using assms(2) by simp
  then have "Suc ?b < 32" by (rule power_less_imp_less_exp [rotated]) simp
  then show "distance_slot v < 64" unfolding s using t by auto
  show "v - (2 + distance_slot v mod 2) * 2 ^ ?b = v mod 2 ^ ?b" unfolding m by (simp add: minus_div_mult_eq_mod)
  show "(2 + distance_slot v mod 2) * 2 ^ ?b + v mod 2 ^ ?b = v" unfolding m by (rule div_mult_mod_eq)
  show "4 \<le> ?b" if "14 \<le> distance_slot v" using that t unfolding s by auto
qed

lemma read_extra_special:
  assumes "4 \<le> slot" "slot < 14" "slot div 2 - 1 = bits" "e < 2 ^ bits" "base = (2 + slot mod 2) * 2 ^ bits"
  shows "run_list (read_extra slot) (encode_reverse (LIMLZ_SPECIAL + base - slot - 1) bits e @ rest) = Some (base + e + 1, rest)"
  using read_reverse_ok [OF assms(4), of "LIMLZ_SPECIAL + base - slot - 1" rest] assms(1,2)
  unfolding read_extra_def Let_def assms(3) assms(5) [symmetric] by (simp add: run_list_bind)

lemma read_extra_direct:
  assumes "14 \<le> slot" "slot div 2 - 1 = bits" "e < 2 ^ bits" "4 \<le> bits" "base = (2 + slot mod 2) * 2 ^ bits"
  shows "run_list (read_extra slot) (direct_bits e (bits - 4) @ encode_reverse LIMLZ_ALIGN 4 (e mod 16) @ rest) = Some (base + e + 1, rest)"
proof -
  obtain c where c: "bits = c + 4" using assms(4) by (metis add.commute le_Suc_ex)
  have "e < 2 ^ c * 16" using assms(3) unfolding c by (simp add: power_add)
  then have "e div 16 < 2 ^ (bits - 4)" using c by (simp add: less_mult_imp_div_less)
  then have "run_list (read_direct (bits - 4) 0) (direct_bits e (bits - 4) @ r) = Some (e div 16, r)" for r using read_direct_bits [of "bits - 4" 0 e r] by simp
  moreover have "run_list (read_reverse LIMLZ_ALIGN 4 1) (encode_reverse LIMLZ_ALIGN 4 (e mod 16) @ rest) = Some (e mod 16, rest)"
    by (rule read_reverse_ok) simp
  moreover have "base + e div 16 * 16 + e mod 16 + 1 = base + e + 1" using div_mult_mod_eq [of e 16] by linarith
  ultimately show ?thesis using assms(1) unfolding read_extra_def Let_def assms(2) assms(5) [symmetric] by (simp add: run_list_bind)
qed

lemma read_distance_ok:
  assumes "2 \<le> n" "1 \<le> dist" "dist \<le> 2 ^ 32"
  shows "run_list (read_distance n) (encode_distance n dist @ rest) = Some (dist, rest)"
proof -
  define v where "v = dist - 1"
  have d: "dist = v + 1" using assms(2) by (simp add: v_def)
  define slot where "slot = distance_slot v"
  define i where "i = LIMLZ_SLOT + (if n < 6 then n - 2 else 3) * 64"
  have "(if n - 2 \<le> 3 then n - 2 else 3) = (if n < 6 then n - 2 else 3)" by auto
  then have rd: "read_distance n = rbind (read_tree i 6 1) (\<lambda>node. read_extra (node - 64))" by (simp only: read_distance_def i_def)
  have head: "run_list (read_distance n) (encode_tree i 6 slot @ r) = run_list (read_extra slot) r" if "slot < 64" for r
    using read_tree_ok [of slot 6 i r] that by (simp add: rd run_list_bind)
  show ?thesis
  proof (cases "v < 4")
    case True
    then have "slot = v" by (simp add: distance_slot_def slot_def)
    moreover have "encode_distance n dist = encode_tree i 6 slot" using True calculation by (simp add: encode_distance_def Let_def d i_def slot_def)
    ultimately show ?thesis using True head by (simp add: read_extra_def d)
  next
    case False
    then have v: "4 \<le> v" "v < 2 ^ 32" using assms(3) by (simp_all add: d)
    define bits where "bits = price_bits v"
    define base where "base = (2 + slot mod 2) * 2 ^ bits"
    define e where "e = v mod 2 ^ bits"
    note p = distance_parts [OF v, folded slot_def bits_def, folded base_def e_def]
    have enc: "encode_distance n dist = encode_tree i 6 slot @
        (if slot < 14 then encode_reverse (LIMLZ_SPECIAL + base - slot - 1) bits e else direct_bits e (bits - 4) @ encode_reverse LIMLZ_ALIGN 4 (e mod 16))"
    proof -
      have "v + 1 - 1 = v" "(if 4 \<le> v then price_bits v else 0) = bits" using v(1) by (simp_all add: bits_def)
      then show ?thesis using p(3) unfolding encode_distance_def Let_def d i_def [symmetric] by (simp only: slot_def [symmetric] base_def [symmetric] p(5)) simp
    qed
    have el: "e < 2 ^ bits" by (simp add: e_def)
    show ?thesis
    proof (cases "slot < 14")
      case True
      then show ?thesis using head read_extra_special [OF p(3) True p(1) el base_def, of rest] p(4,6) unfolding enc by (simp add: d)
    next
      case False
      then show ?thesis using head read_extra_direct [OF _ p(1) el _ base_def, of rest] p(4,6,7) unfolding enc by (simp add: d)
    qed
  qed
qed

lemma read_literal_bits_ok:
  "run_list (read_literal_bits index k node matched m) (literal_bits index c k node matched m @ rest) = Some (node * 2 ^ k + c mod 2 ^ k, rest)"
proof (induction k arbitrary: node matched m)
  case (Suc k)
  let ?b = "odd (c div 2 ^ k)"
  show ?case using Suc [of "2 * node + of_bool ?b" "matched \<and> ?b = odd (2 * m div 256)" "2 * m"] mod_two_power_Suc [of c k]
    by (simp add: Let_def distrib_right)
qed simp

lemma read_literal_ok:
  assumes "pos < length d" "7 \<le> state \<Longrightarrow> reps ! 0 \<le> pos" "1 \<le> reps ! 0"
  shows "run_list (read_literal (take pos d) state reps) (encode_literal d pos state (reps ! 0) @ rest) = Some (Literal (d ! pos), rest)"
proof -
  let ?i = "LIMLZ_LITERAL + (if pos \<noteq> 0 then unat (d ! (pos - 1)) else 0) div 64 * 768" and ?m = "if state \<ge> 7 then unat (d ! (pos - reps ! 0)) else 0"
  have l: "length (take pos d) = pos" using assms(1) by simp
  have prev: "(if take pos d \<noteq> [] then unat (last (take pos d)) else 0) = (if pos \<noteq> 0 then unat (d ! (pos - 1)) else 0)"
    using assms(1) l by (cases "pos = 0") (auto simp: last_conv_nth)
  have m: "(if state \<ge> 7 then unat (take pos d ! (length (take pos d) - reps ! 0)) else 0) = ?m" using assms(2,3) unfolding l by auto
  have "unat (d ! pos) < 2 ^ 8" using unat_lt2p [of "d ! pos"] by simp
  then have "run_list (read_literal_bits ?i 8 1 (state \<ge> 7) ?m) (literal_bits ?i (unat (d ! pos)) 8 1 (state \<ge> 7) ?m @ rest) = Some (256 + unat (d ! pos), rest)"
    unfolding read_literal_bits_ok by simp
  moreover have "(of_nat (256 + unat (d ! pos)) :: u8) = d ! pos"
  proof -
    have "(of_nat 256 :: u8) = 0" by simp
    then show ?thesis by (simp only: of_nat_add) simp
  qed
  ultimately show ?thesis unfolding read_literal_def prev m encode_literal_def Let_def by (simp only: run_list_bind option.case prod.case run_list.simps)
qed

lemma choose_token_cases:
  assumes "choice_ok d pos c" "pos < length d" "1 \<le> reps ! 0"
  obtains "choose_token d c reps pos = Literal (d ! pos)"
  | "choose_token d c reps pos = Short_rep" "reps ! 0 \<le> pos"
  | r n where "choose_token d c reps pos = Rep r n" "r < 4" "2 \<le> n" "n \<le> 273" "1 \<le> reps ! r" "reps ! r \<le> pos" "pos + n \<le> length d"
  | n dist where "choose_token d c reps pos = Match n dist" "2 \<le> n" "n \<le> 273" "1 \<le> dist" "dist \<le> pos" "pos + n \<le> length d"
proof (cases c)
  case (Pair n dist)
  show thesis
  proof (cases "n < 2")
    case True
    then show thesis using that(1,2) Pair by (cases "reps ! 0 \<le> pos \<and> d ! pos = d ! (pos - reps ! 0)") (auto simp: choose_token_def)
  next
    case False
    then have c: "2 \<le> n" "n \<le> 273" "1 \<le> dist" "dist \<le> pos" "pos + n \<le> length d" using assms(1) Pair by (auto simp: choice_ok_def LIMLZ_MAX_MATCH_def)
    show thesis
    proof (cases "match_rep reps dist < 4")
      case True
      show thesis using that(3) [of "match_rep reps dist" n] c match_rep_nth [OF True] True Pair by (simp add: choose_token_def)
    next
      case False
      then show thesis using that(4) [of n dist] c Pair by (simp add: choose_token_def)
    qed
  qed
qed

lemma read_token_ok:
  assumes c: "choice_ok d pos c" "pos < length d" "1 \<le> reps ! 0" and st: "7 \<le> state \<Longrightarrow> reps ! 0 \<le> pos" and ld: "length d \<le> 2 ^ 32"
  defines "t \<equiv> choose_token d c reps pos"
  shows "run_list (read_token (take pos d) state reps) (token_decisions d pos state reps t @ rest) = Some (t, rest)" "copy_allowed (length d) (take pos d) reps t"
proof -
  have l: "length (take pos d) = pos" using c(2) by simp
  have "run_list (read_token (take pos d) state reps) (token_decisions d pos state reps t @ rest) = Some (t, rest) \<and> copy_allowed (length d) (take pos d) reps t"
    using c
  proof (cases rule: choose_token_cases)
    case 1
    then show ?thesis using read_literal_ok [of pos d state reps rest] c st
      by (simp add: t_def read_token_def token_decisions_def copy_allowed_def Let_def)
  next
    case 2
    then show ?thesis using c l by (simp add: t_def read_token_def token_decisions_def copy_allowed_def Let_def)
  next
    case (3 r n)
    have "r = 0 \<or> r = 1 \<or> r = 2 \<or> r = 3" using 3(2) by auto
    moreover note read_length_ok [OF 3(3,4), of LIMLZ_REP_LENGTH rest]
    ultimately have "run_list (read_token (take pos d) state reps) (token_decisions d pos state reps (Rep r n) @ rest) = Some (Rep r n, rest)"
      by (auto simp: read_token_def token_decisions_def run_list_bind Let_def)
    then show ?thesis using 3 l by (simp add: t_def copy_allowed_def Let_def)
  next
    case (4 n dist)
    have "dist \<le> 2 ^ 32" using 4(5) c(2) ld by simp
    note read_distance_ok [OF 4(2,4) this, of rest] read_length_ok [OF 4(2,3), of LIMLZ_LENGTH]
    then show ?thesis using 4 l by (simp add: t_def read_token_def token_decisions_def run_list_bind copy_allowed_def Let_def)
  qed
  then show "run_list (read_token (take pos d) state reps) (token_decisions d pos state reps t @ rest) = Some (t, rest)" "copy_allowed (length d) (take pos d) reps t" by auto
qed

section \<open>The whole stream is read back\<close>

function decisions_from :: "u8 list \<Rightarrow> (nat \<Rightarrow> lz_match) \<Rightarrow> nat \<Rightarrow> nat list \<Rightarrow> nat \<Rightarrow> decision list" where
  "decisions_from d choices state reps pos =
     (if pos < length d then
        let t = choose_token d (choices pos) reps pos
        in token_decisions d pos state reps t @ decisions_from d choices (next_state state t) (next_reps t reps) (pos + token_length t)
      else [])"
  by pat_completeness auto
termination
proof (relation "measure (\<lambda>(d, choices, state, reps, pos). length d - pos)", simp)
  fix d :: "u8 list" and choices :: "nat \<Rightarrow> lz_match" and state reps pos t
  assume "pos < length d" "t = choose_token d (choices pos) reps pos"
  then show "((d, choices, next_state state t, next_reps t reps, pos + token_length t), d, choices, state, reps, pos)
      \<in> measure (\<lambda>(d, choices, state, reps, pos). length d - pos)"
    using choose_token_pos [of d "choices pos" reps pos] by simp
qed

declare decisions_from.simps [simp del]

text \<open>Unless the encoder fails, the loop of \<open>compress\<close> encodes these decisions.\<close>

lemma compress_loop_decisions:
  "\<not> rc_error (compress_loop grow d choices state reps pos rc) \<Longrightarrow>
   compress_loop grow d choices state reps pos rc = encode_all grow (decisions_from d choices state reps pos) rc"
proof (induction grow d choices state reps pos rc rule: compress_loop.induct)
  case (1 grow d choices state reps pos rc)
  have ne: "\<not> rc_error rc" using 1(2) by (subst (asm) compress_loop.simps) (auto split: if_splits)
  show ?case
  proof (cases "pos < length d")
    case True
    then show ?thesis using 1 ne
      by (subst compress_loop.simps, subst decisions_from.simps) (auto simp: Let_def encode_all_def compress_loop.simps [of _ _ _ state reps pos])
  qed (subst compress_loop.simps, subst decisions_from.simps, simp add: encode_all_def)
qed

lemma next_state_rep:
  assumes "choice_ok d pos c" "pos < length d" "1 \<le> reps ! 0" "7 \<le> next_state state (choose_token d c reps pos)" "state < 12"
  shows "next_reps (choose_token d c reps pos) reps ! 0 \<le> pos"
  using assms(1-3)
proof (cases rule: choose_token_cases)
  case 1
  then show ?thesis using assms(4,5) by (simp add: next_state_def split: if_splits)
qed (simp_all add: next_reps_def shift_reps_def)

lemma next_state_bound: "state < 12 \<Longrightarrow> next_state state t < 12"
  by (cases t) (auto simp: next_state_def)

lemma token_fits: "choice_ok d pos c \<Longrightarrow> pos < length d \<Longrightarrow> pos + token_length (choose_token d c reps pos) \<le> length d"
  by (cases c) (auto simp: choose_token_def token_length_def choice_ok_def)

lemma read_all_ok:
  assumes "\<And>p. p < length d \<Longrightarrow> choice_ok d p (choices p)" "length d \<le> 2 ^ 32"
    "1 \<le> reps ! 0" "7 \<le> state \<Longrightarrow> reps ! 0 \<le> pos" "state < 12" "pos \<le> length d" "length d - pos \<le> fuel"
  shows "run_list (read_all (length d) fuel (take pos d) state reps) (decisions_from d choices state reps pos) = Some (Some d, [])"
  using assms(3-)
proof (induction fuel arbitrary: pos state reps)
  case 0
  then show ?case by (subst decisions_from.simps) simp
next
  case (Suc fuel)
  show ?case
  proof (cases "pos < length d")
    case False
    then show ?thesis using Suc.prems by (subst decisions_from.simps) simp
  next
    case True
    define t where "t = choose_token d (choices pos) reps pos"
    note ok = assms(1) [OF True]
    note r = read_token_ok [OF ok True Suc.prems(1,2) assms(2), folded t_def]
    have pos: "0 < token_length t" "pos + token_length t \<le> length d" using choose_token_pos token_fits [OF ok True] by (simp_all add: t_def)
    have "run_list (read_all (length d) fuel (take (pos + token_length t) d) (next_state state t) (next_reps t reps))
        (decisions_from d choices (next_state state t) (next_reps t reps) (pos + token_length t)) = Some (Some d, [])"
    proof (rule Suc.IH)
      show "1 \<le> next_reps t reps ! 0" using next_reps_pos [OF ok Suc.prems(1)] by (simp add: t_def)
      show "next_reps t reps ! 0 \<le> pos + token_length t" if "7 \<le> next_state state t"
        using next_state_rep [OF ok True Suc.prems(1), of state] that Suc.prems(3) by (simp add: t_def)
      show "next_state state t < 12" using Suc.prems(3) by (rule next_state_bound)
      show "length d - (pos + token_length t) \<le> fuel" using pos(1) Suc.prems(5) by simp
    qed (rule pos(2))
    moreover have "expand_token t (take pos d, reps) = (take (pos + token_length t) d, next_reps t reps)"
      using expand_choice [OF ok True Suc.prems(1)] by (simp add: t_def)
    ultimately show ?thesis using True r by (subst decisions_from.simps) (simp add: Let_def run_list_bind flip: t_def)
  qed
qed

end
