(* ===== verification/LimlzRound.thy ===== *)
theory LimlzRound
  imports LimlzUnpack
begin

text \<open>
  The packer and the reader together: the packer stays inside its table of probabilities, it succeeds whenever memory can be had, and the reader restores the
  bytes that were packed.
\<close>

section \<open>Room for the output\<close>

lemma put_byte_grows: "\<not> rc_error rc \<Longrightarrow> length (rc_data rc) < 2 ^ 63 \<Longrightarrow> \<not> rc_error (put_byte (\<lambda>_. True) v rc)"
  by (auto simp: put_byte_def Let_def)

lemma put_pending_grows: "\<not> rc_error rc \<Longrightarrow> length (rc_data rc) + n \<le> 2 ^ 63 \<Longrightarrow> \<not> rc_error (put_pending (\<lambda>_. True) c n v rc)"
proof (induction n arbitrary: v rc)
  case (Suc n)
  have "\<not> rc_error (put_byte (\<lambda>_. True) (v + c) rc)" using Suc.prems by (intro put_byte_grows) simp_all
  then show ?case using Suc.IH [of "put_byte (\<lambda>_. True) (v + c) rc" 255] put_byte_ok [of "\<lambda>_. True" "v + c" rc] Suc.prems by simp
qed simp

lemma put_bytes_grow: "\<not> rc_error rc \<Longrightarrow> length (rc_data rc) + length xs \<le> 2 ^ 63 \<Longrightarrow> \<not> rc_error (fold (\<lambda>i. put_byte (\<lambda>_. True) (b i)) xs rc)"
proof (induction xs arbitrary: rc)
  case (Cons i xs)
  have "\<not> rc_error (put_byte (\<lambda>_. True) (b i) rc)" using Cons.prems by (intro put_byte_grows) simp_all
  then show ?case using Cons.IH [of "put_byte (\<lambda>_. True) (b i) rc"] put_byte_ok [of "\<lambda>_. True" "b i" rc] Cons.prems by simp
qed simp

text \<open>Bytes written and delayed.\<close>

definition filled :: "range_encoder \<Rightarrow> nat" where
  "filled rc = length (rc_data rc) + pending rc"

lemma filled_update: "filled (rc\<lparr>rc_low := x\<rparr>) = filled rc" "filled (rc\<lparr>rc_range := r\<rparr>) = filled rc" "filled (rc\<lparr>probs := p\<rparr>) = filled rc"
  by (simp_all add: filled_def)

lemma shift_low_grows:
  assumes "\<not> rc_error rc" "filled rc \<le> 2 ^ 63"
  shows "\<not> rc_error (shift_low (\<lambda>_. True) rc) \<and> filled (shift_low (\<lambda>_. True) rc) = filled rc + 1"
proof -
  let ?p = "put_pending (\<lambda>_. True) (ucast (drop_bit 32 (rc_low rc))) (pending rc) (rc_cache rc) rc"
  have "\<not> rc_error ?p" using assms by (intro put_pending_grows) (simp_all add: filled_def)
  moreover have "length (rc_data ?p) = filled rc" using calculation put_pending_ok [of "\<lambda>_. True" _ "pending rc - 1" "rc_cache rc" rc]
    by (cases "pending rc") (auto simp: filled_def)
  ultimately show ?thesis using assms(1) by (auto simp: shift_low_def Let_def filled_def)
qed

lemma encode_decision_grows:
  assumes "\<not> rc_error rc" "filled rc \<le> 2 ^ 63"
  shows "\<not> rc_error (encode_decision (\<lambda>_. True) dc rc) \<and> filled (encode_decision (\<lambda>_. True) dc rc) \<le> filled rc + 1"
proof -
  have n: "\<not> rc_error (normalise (\<lambda>_. True) q) \<and> filled (normalise (\<lambda>_. True) q) \<le> Suc (filled rc)" if "\<not> rc_error q" "filled q = filled rc" for q
    using shift_low_grows [of "q\<lparr>rc_range := push_bit 8 (rc_range q)\<rparr>"] assms(2) that by (simp add: normalise_def filled_def)
  note n' = n [THEN conjunct1] n [THEN conjunct2]
  show ?thesis using assms(1) by (cases dc) (simp_all add: encode_decision_def encode_bit_def encode_direct_def Let_def n' filled_update)
qed

lemma encode_all_grows:
  "\<not> rc_error rc \<Longrightarrow> filled rc + length ds \<le> 2 ^ 63 \<Longrightarrow> \<not> rc_error (encode_all (\<lambda>_. True) ds rc) \<and> filled (encode_all (\<lambda>_. True) ds rc) \<le> filled rc + length ds"
proof (induction ds arbitrary: rc)
  case (Cons dc ds)
  have "\<not> rc_error (encode_decision (\<lambda>_. True) dc rc) \<and> filled (encode_decision (\<lambda>_. True) dc rc) \<le> filled rc + 1"
    using Cons.prems by (intro encode_decision_grows) simp_all
  then show ?case using Cons.IH [of "encode_decision (\<lambda>_. True) dc rc"] Cons.prems by (simp add: encode_all_def)
qed (simp add: encode_all_def)

lemma flush_grows: "\<not> rc_error rc \<Longrightarrow> filled rc + 5 \<le> 2 ^ 63 \<Longrightarrow> \<not> rc_error (flush (\<lambda>_. True) rc)"
proof -
  assume a: "\<not> rc_error rc" "filled rc + 5 \<le> 2 ^ 63"
  have "k \<le> 5 \<Longrightarrow> \<not> rc_error ((shift_low (\<lambda>_. True) ^^ k) rc) \<and> filled ((shift_low (\<lambda>_. True) ^^ k) rc) = filled rc + k" for k
  proof (induction k)
    case (Suc k)
    then show ?case using shift_low_grows [of "(shift_low (\<lambda>_. True) ^^ k) rc"] a(2) by simp
  qed (simp add: a)
  then show ?thesis by (simp add: flush_def)
qed

section \<open>Number and range of the decisions\<close>

definition small :: "nat \<Rightarrow> nat \<Rightarrow> decision list \<Rightarrow> bool" where
  "small n bound ds \<longleftrightarrow> length ds \<le> n \<and> (\<forall>dc \<in> set ds. \<forall>i. decision_kind dc = Some i \<longrightarrow> i < bound)"

lemma small_append: "small n bound xs \<Longrightarrow> small m bound ys \<Longrightarrow> small (n + m) bound (xs @ ys)"
  by (auto simp: small_def)

lemma small_mono: "small n bound xs \<Longrightarrow> n \<le> m \<Longrightarrow> bound \<le> bound' \<Longrightarrow> small m bound' xs"
  by (fastforce simp: small_def)

lemma small_Cons: "small (Suc n) bound (Bit i b # ds) \<longleftrightarrow> i < bound \<and> small n bound ds"
  by (auto simp: small_def)

lemma small_Nil [simp]: "small n bound []"
  by (simp add: small_def)

lemma node_step: "(node + 1) * 2 ^ Suc k \<le> 2 * bound \<Longrightarrow> (2 * node + of_bool b + 1) * 2 ^ k \<le> 2 * bound \<and> node < bound" for node bound :: nat
proof -
  assume a: "(node + 1) * 2 ^ Suc k \<le> 2 * bound"
  have "(2 * node + of_bool b + 1) * 2 ^ k \<le> (2 * node + 2) * 2 ^ k" by (intro mult_le_mono1) simp
  also have "\<dots> = (node + 1) * 2 ^ Suc k" by (simp add: algebra_simps)
  finally have "(2 * node + of_bool b + 1) * 2 ^ k \<le> 2 * bound" using a by (rule le_trans)
  moreover have "(node + 1) * 1 \<le> (node + 1) * 2 ^ k" by (intro mult_le_mono2) simp
  ultimately show ?thesis using a by simp
qed

lemma small_tree: "(node + 1) * 2 ^ k \<le> 2 * 2 ^ bits \<Longrightarrow> small k (index + 2 ^ bits) (tree_bits index v k node)"
proof (induction k arbitrary: node)
  case (Suc k)
  then show ?case using Suc.IH node_step [of node k "2 ^ bits" "odd (v div 2 ^ k)"] by (simp add: Let_def small_Cons)
qed simp

lemma small_encode_tree: "small bits (index + 2 ^ bits) (encode_tree index bits v)"
  using small_tree [of 1 bits bits index v] by (simp add: encode_tree_def)

lemma small_reverse: "(node + 1) * 2 ^ k \<le> 2 * 2 ^ bits \<Longrightarrow> small k (index + 2 ^ bits) (reverse_bits index k v node)"
proof (induction k arbitrary: node v)
  case (Suc k)
  then show ?case using Suc.IH node_step [of node k "2 ^ bits" "odd v"] by (simp add: Let_def small_Cons)
qed simp

lemma small_encode_reverse: "small bits (index + 2 ^ bits) (encode_reverse index bits v)"
  using small_reverse [of 1 bits bits index v] by (simp add: encode_reverse_def)

lemma small_literal: "(node + 1) * 2 ^ k \<le> 512 \<Longrightarrow> small k (index + 768) (literal_bits index c k node matched m)"
proof (induction k arbitrary: node matched m)
  case (Suc k)
  then show ?case using Suc.IH node_step [of node k 256 "odd (c div 2 ^ k)"] by (simp add: Let_def small_Cons)
qed simp

lemma small_length: "small 10 (index + 514) (encode_length index 0 n)"
proof -
  have "small 8 (index + 514) (encode_tree (index + 2) 3 (n - 2))" "small 8 (index + 514) (encode_tree (index + 130) 3 (n - 10))"
    "small 8 (index + 514) (encode_tree (index + 258) 8 (n - 18))"
    using small_mono [OF small_encode_tree [of 3 "index + 2" "n - 2"], of 8 "index + 514"] small_mono [OF small_encode_tree [of 3 "index + 130" "n - 10"], of 8 "index + 514"]
      small_mono [OF small_encode_tree [of 8 "index + 258" "n - 18"], of 8 "index + 514"] by simp_all
  then show ?thesis by (auto simp: small_def encode_length_def)
qed

lemma small_direct: "small k bound (direct_bits e k)"
  by (induction k) (auto simp: small_def)

lemma special_room: "4 \<le> slot \<Longrightarrow> slot < 14 \<Longrightarrow> bits = slot div 2 - 1 \<Longrightarrow> LIMLZ_SPECIAL + (2 + slot mod 2) * 2 ^ bits - slot - 1 + 2 ^ bits \<le> LIMLZ_ALIGN"
proof -
  assume "4 \<le> slot" "slot < 14" "bits = slot div 2 - 1"
  then have "slot \<in> {4..<14}" by simp
  moreover have "\<forall>s \<in> {4..<14}. LIMLZ_SPECIAL + (2 + s mod 2) * 2 ^ (s div 2 - 1) - s - 1 + 2 ^ (s div 2 - 1) \<le> LIMLZ_ALIGN" by (simp add: limlz_offsets atLeastLessThan_nat_numeral)
  ultimately show ?thesis using \<open>bits = slot div 2 - 1\<close> by blast
qed

lemma small_distance:
  assumes "1 \<le> dist" "dist \<le> 2 ^ 32"
  shows "small 40 LIMLZ_LENGTH (encode_distance n dist)"
proof -
  define v where "v = dist - 1"
  define slot where "slot = distance_slot v"
  define bits where "bits = (if v \<ge> 4 then price_bits v else 0)"
  define e where "e = v - (2 + slot mod 2) * 2 ^ bits"
  let ?i = "LIMLZ_SLOT + (if n < 6 then n - 2 else 3) * 64"
  have enc: "encode_distance n dist = encode_tree ?i 6 slot @ (if slot < 4 then [] else if slot < 14 then encode_reverse (LIMLZ_SPECIAL + (2 + slot mod 2) * 2 ^ bits - slot - 1) bits e
      else direct_bits e (bits - 4) @ encode_reverse LIMLZ_ALIGN 4 (e mod 16))"
    unfolding encode_distance_def Let_def v_def [symmetric] slot_def [symmetric] bits_def [symmetric] e_def [symmetric] ..
  have "small 6 LIMLZ_LENGTH (encode_tree ?i 6 slot)"
    by (rule small_mono [OF small_encode_tree]) (auto simp: limlz_offsets)
  moreover have "small 34 LIMLZ_LENGTH (if slot < 4 then [] else if slot < 14 then encode_reverse (LIMLZ_SPECIAL + (2 + slot mod 2) * 2 ^ bits - slot - 1) bits e
      else direct_bits e (bits - 4) @ encode_reverse LIMLZ_ALIGN 4 (e mod 16))"
  proof (cases "slot < 4")
    case False
    then have v: "4 \<le> v" "v < 2 ^ 32" using assms by (auto simp: v_def slot_def distance_slot_def split: if_splits)
    note p = distance_parts [OF v, folded slot_def]
    have b: "bits = slot div 2 - 1" "bits \<le> 30" using p(1,4) v(1) by (auto simp: bits_def)
    have "small 34 LIMLZ_LENGTH (encode_reverse (LIMLZ_SPECIAL + (2 + slot mod 2) * 2 ^ bits - slot - 1) bits e)" if "slot < 14"
      using special_room [OF p(3) that b(1)] b(2) by (intro small_mono [OF small_encode_reverse]) (simp_all add: limlz_offsets)
    moreover have "small (30 + 4) LIMLZ_LENGTH (direct_bits e (bits - 4) @ encode_reverse LIMLZ_ALIGN 4 (e mod 16))"
      using b(2) by (intro small_append small_mono [OF small_direct [where bound = LIMLZ_LENGTH]] small_mono [OF small_encode_reverse]) (simp_all add: limlz_offsets)
    ultimately show ?thesis using False by simp
  qed simp
  ultimately have "small (6 + 34) LIMLZ_LENGTH (encode_distance n dist)" unfolding enc by (rule small_append)
  then show ?thesis by simp
qed

lemma small_token:
  assumes c: "choice_ok d pos c" "pos < length d" "1 \<le> reps ! 0" and ld: "length d \<le> 2 ^ 32" and st: "state < 12"
  shows "small 64 LIMLZ_PROBS (token_decisions d pos state reps (choose_token d c reps pos))"
  using c
proof (cases rule: choose_token_cases)
  case 1
  let ?q = "unat (d ! (pos - 1))"
  have "?q < 2 ^ 8" using unat_lt2p [of "d ! (pos - 1)"] by simp
  then have q: "?q div 64 \<le> 3" by simp
  have "small 8 LIMLZ_PROBS (encode_literal d pos state (reps ! 0))" unfolding encode_literal_def Let_def
    by (rule small_mono [OF small_literal]) (use q in \<open>auto simp: limlz_offsets LIMLZ_PROBS_def\<close>)
  then have "small (Suc 8) LIMLZ_PROBS (token_decisions d pos state reps (Literal (d ! pos)))"
    using st unfolding token_decisions_def Let_def token.case small_Cons by (simp add: LIMLZ_PROBS_def)
  then show ?thesis using 1 small_mono by fastforce
next
  case 2
  then show ?thesis using st by (simp add: token_decisions_def small_def LIMLZ_PROBS_def limlz_offsets Let_def)
next
  case (3 r n)
  have "small 10 LIMLZ_PROBS (encode_length LIMLZ_REP_LENGTH 0 n)" by (rule small_mono [OF small_length]) (simp_all add: limlz_offsets LIMLZ_PROBS_def)
  moreover have "small 2 LIMLZ_PROBS (if r = 0 then [Bit (LIMLZ_REP_LONG + state * 16) True]
      else Bit (LIMLZ_REP_G1 + state) (r \<noteq> 1) # (if r \<ge> 2 then [Bit (LIMLZ_REP_G2 + state) (r = 3)] else []))"
    using st by (simp add: small_def LIMLZ_PROBS_def limlz_offsets)
  moreover have "small 3 LIMLZ_PROBS [Bit (state * 16) True, Bit (LIMLZ_IS_REP + state) True, Bit (LIMLZ_REP_G0 + state) (r \<noteq> 0)]"
    using st by (simp add: small_def LIMLZ_PROBS_def limlz_offsets)
  ultimately have "small (3 + (2 + 10)) LIMLZ_PROBS (token_decisions d pos state reps (Rep r n))"
    unfolding token_decisions_def Let_def token.case by (intro small_append)
  then show ?thesis using 3(1) small_mono by fastforce
next
  case (4 n dist)
  have "small 10 LIMLZ_PROBS (encode_length LIMLZ_LENGTH 0 n)" by (rule small_mono [OF small_length]) (simp_all add: limlz_offsets LIMLZ_PROBS_def)
  moreover have "small 40 LIMLZ_PROBS (encode_distance n dist)"
    by (rule small_mono [OF small_distance]) (use 4 ld c(2) in \<open>simp_all add: limlz_offsets LIMLZ_PROBS_def\<close>)
  moreover have "small 2 LIMLZ_PROBS [Bit (state * 16) True, Bit (LIMLZ_IS_REP + state) False]"
    using st by (simp add: small_def LIMLZ_PROBS_def limlz_offsets)
  ultimately have "small (2 + (10 + 40)) LIMLZ_PROBS (token_decisions d pos state reps (Match n dist))"
    unfolding token_decisions_def Let_def token.case by (intro small_append)
  then show ?thesis using 4(1) small_mono by fastforce
qed

section \<open>The loop of the packer\<close>

text \<open>The decisions of the whole data, and what the loop makes of them.\<close>

lemma small_decisions:
  assumes "\<And>p. p < length d \<Longrightarrow> choice_ok d p (choices p)" "length d \<le> 2 ^ 32"
  shows "1 \<le> reps ! 0 \<Longrightarrow> state < 12 \<Longrightarrow> small (64 * (length d - pos)) LIMLZ_PROBS (decisions_from d choices state reps pos)"
proof (induction "length d - pos" arbitrary: pos state reps rule: less_induct)
  case less
  show ?case
  proof (cases "pos < length d")
    case True
    define t where "t = choose_token d (choices pos) reps pos"
    note ok = assms(1) [OF True]
    have l: "0 < token_length t" using choose_token_pos by (simp add: t_def)
    have "small (64 * (length d - (pos + token_length t))) LIMLZ_PROBS (decisions_from d choices (next_state state t) (next_reps t reps) (pos + token_length t))"
      using l True next_reps_pos [OF ok less.prems(1)] next_state_bound [OF less.prems(2)] by (intro less.hyps) (simp_all add: t_def)
    with small_token [OF ok True less.prems(1) assms(2) less.prems(2), folded t_def]
    have "small (64 + 64 * (length d - (pos + token_length t))) LIMLZ_PROBS (decisions_from d choices state reps pos)"
      using True by (subst decisions_from.simps) (simp add: Let_def small_append flip: t_def)
    then show ?thesis by (rule small_mono) (use l True in simp_all)
  qed (subst decisions_from.simps, simp)
qed

lemma compress_loop_grows:
  assumes "\<not> rc_error rc" "filled rc + length (decisions_from d choices state reps pos) \<le> 2 ^ 63"
  shows "compress_loop (\<lambda>_. True) d choices state reps pos rc = encode_all (\<lambda>_. True) (decisions_from d choices state reps pos) rc"
  using assms
proof (induction "length d - pos" arbitrary: pos state reps rc rule: less_induct)
  case less
  show ?case
  proof (cases "pos < length d")
    case True
    define t where "t = choose_token d (choices pos) reps pos"
    let ?ds = "decisions_from d choices (next_state state t) (next_reps t reps) (pos + token_length t)" and ?td = "token_decisions d pos state reps t"
    have l: "0 < token_length t" using choose_token_pos by (simp add: t_def)
    have ds: "decisions_from d choices state reps pos = ?td @ ?ds" using True by (subst decisions_from.simps) (simp add: Let_def t_def)
    have g: "\<not> rc_error (encode_all (\<lambda>_. True) ?td rc) \<and> filled (encode_all (\<lambda>_. True) ?td rc) \<le> filled rc + length ?td"
      using less.prems unfolding ds by (intro encode_all_grows) simp_all
    have "compress_loop (\<lambda>_. True) d choices (next_state state t) (next_reps t reps) (pos + token_length t) (encode_all (\<lambda>_. True) ?td rc) =
        encode_all (\<lambda>_. True) ?ds (encode_all (\<lambda>_. True) ?td rc)"
      using g l True less.prems(2) unfolding ds by (intro less.hyps) simp_all
    then show ?thesis using True less.prems(1) unfolding ds by (subst compress_loop.simps) (simp add: Let_def encode_all_def flip: t_def)
  qed (subst compress_loop.simps, subst decisions_from.simps, simp add: encode_all_def)
qed

lemma chosen_ok: "p < length d \<Longrightarrow> choice_ok d p (chosen h d p)"
  using parse_ok [of "\<lparr>mf_data = d, previous = fresh_previous h, mf_head = (\<lambda>_. 0)\<rparr>" p] by (simp add: chosen_def)

section \<open>Packing and unpacking\<close>

text \<open>The reader of a packed file: header, stream, filter and checksum. \<open>capacity\<close> is the size of the memory below the reader.\<close>

definition limlz_decompress :: "nat \<Rightarrow> u8 list \<Rightarrow> u8 list option" where
  "limlz_decompress capacity f =
     (if length f < 13 then None
      else let out_size = unat (limlz_read32 f 4)
           in if out_size > capacity then None
              else case unpack out_size (drop 8 f) of
                     None \<Rightarrow> None
                   | Some d \<Rightarrow> (case bcj_decode d of
                       None \<Rightarrow> None
                     | Some bytes \<Rightarrow> if limlz_crc32 bytes = limlz_read32 f 0 then Some bytes else None))"

definition bytes32 :: "u32 \<Rightarrow> u8 list" where
  "bytes32 v = map (\<lambda>i. byte_at i v) [0, 8, 16, 24]"

lemma put32_data: "\<not> rc_error (put32 grow v rc) \<Longrightarrow> \<not> rc_error rc \<and> rc_data (put32 grow v rc) = rc_data rc @ bytes32 v"
  by (auto simp: put32_def bytes32_def byte_at_def dest!: put_byte_ok)

lemma put32_start: "put32 grow v (encoder_start rc) = encoder_start (put32 grow v rc)"
proof -
  have "put_byte grow x (encoder_start q) = encoder_start (put_byte grow x q)" for x q by (simp add: put_byte_def encoder_start_def Let_def)
  then show ?thesis by (simp add: put32_def)
qed

lemma read32_bytes32:
  assumes "\<And>j. j < 4 \<Longrightarrow> f ! (p + j) = bytes32 v ! j"
  shows "limlz_read32 f p = v"
proof (rule bit_word_eqI)
  fix n assume "n < LENGTH(32)"
  then have n: "n < 32" "n div 8 < 4" by simp_all
  have "bytes32 v ! j = byte_at (8 * j) v" if "j < 4" for j
  proof -
    have "j = 0 \<or> j = 1 \<or> j = 2 \<or> j = 3" using that by auto
    then show ?thesis by (auto simp: bytes32_def)
  qed
  then show "bit (limlz_read32 f p) n \<longleftrightarrow> bit v n" using n assms by (simp add: bit_read32 byte_at_bit)
qed

text \<open>A stream that was written without an error is read back.\<close>

lemma stream_read_back:
  assumes "length d < 2 ^ 32" "\<not> rc_error (flush grow (compress_loop grow d (chosen h d) 0 [1, 1, 1, 1] 0 (encoder_start rc)))"
  shows "\<exists>s. rc_data (flush grow (compress_loop grow d (chosen h d) 0 [1, 1, 1, 1] 0 (encoder_start rc))) = rc_data rc @ s \<and> 5 \<le> length s \<and> unpack (length d) s = Some d \<and> \<not> rc_error rc"
proof -
  let ?ds = "decisions_from d (chosen h d) 0 [1, 1, 1, 1] 0" and ?q = "compress_loop grow d (chosen h d) 0 [1, 1, 1, 1] 0 (encoder_start rc)"
  have "rc_error q \<Longrightarrow> rc_error ((shift_low grow ^^ k) q)" for k q by (induction k) (simp_all add: sticky(3))
  then have ne: "\<not> rc_error ?q" using assms(2) unfolding flush_def by blast
  note q = compress_loop_decisions [OF ne]
  obtain s de de' where s: "rc_data (flush grow ?q) = rc_data rc @ s" "decoder_start s = Some de"
      "decode_all (map decision_kind ?ds) de = Some (map bit_of ?ds, de')" "decoder_done de'"
    using coder_roundtrip [of grow ?ds rc] assms(2) unfolding q by blast
  have "run_list (read_all (length d) (length d) (take 0 d) 0 [1, 1, 1, 1]) ?ds = Some (Some d, [])"
    using assms(1) by (intro read_all_ok chosen_ok) simp_all
  then have "run_list (read_all (length d) (length d) [] 0 [1, 1, 1, 1]) ?ds = Some (Some d, [])" by simp
  from run_decoder_list [OF this s(3)] have "run_decoder (read_all (length d) (length d) [] 0 [1, 1, 1, 1]) de = Some (Some d, de')" by auto
  then have "unpack (length d) s = Some d" using s(2,4) by (simp add: unpack_def)
  moreover have "5 \<le> length s" using s(2) by (auto simp: decoder_start_def split: if_splits)
  moreover have "\<not> rc_error rc" using ne sticky(5) [of "encoder_start rc" grow ?ds] unfolding q by (auto simp: encoder_start_def)
  ultimately show ?thesis using s(1) by blast
qed

lemma encoder_init_zero: "encoder_init zero_encoder = encoder_start zero_encoder"
  by (simp add: encoder_init_def encoder_start_def zero_encoder_def)

lemma compress_restores:
  assumes "length bytes < 2 ^ 32" "length bytes \<le> capacity" "compress h bytes = Some (Some f)"
  shows "limlz_decompress capacity f = Some bytes"
proof -
  let ?g = "host_grow h"
  define rc where "rc = put32 ?g (of_nat (length bytes)) (put32 ?g (limlz_crc32 bytes) zero_encoder)"
  have start: "put32 ?g (of_nat (length bytes)) (put32 ?g (limlz_crc32 bytes) (encoder_init zero_encoder)) = encoder_start rc"
    by (simp add: rc_def encoder_init_zero put32_start)
  obtain d where d: "bcj_encode bytes = Some d" "length d = length bytes" using bcj_encode_returns [OF assms(1)] by blast
  let ?r = "flush ?g (compress_loop ?g d (chosen h d) 0 [1, 1, 1, 1] 0 (encoder_start rc))"
  have r: "\<not> rc_error ?r" "f = rc_data ?r" using assms(1,3) d(1) by (auto simp: compress_def Let_def start split: if_splits)
  obtain s where s: "f = rc_data rc @ s" "5 \<le> length s" "unpack (length d) s = Some d" "\<not> rc_error rc"
    using stream_read_back [OF _ r(1)] assms(1) d(2) r(2) by auto
  have "rc_data rc = bytes32 (limlz_crc32 bytes) @ bytes32 (of_nat (length bytes))"
    using put32_data [OF s(4) [unfolded rc_def]] put32_data [of ?g "limlz_crc32 bytes" zero_encoder] by (simp add: rc_def zero_encoder_def)
  then have f: "f = bytes32 (limlz_crc32 bytes) @ bytes32 (of_nat (length bytes)) @ s" using s(1) by simp
  have l4: "length (bytes32 x) = 4" for x by (simp add: bytes32_def)
  have "limlz_read32 f 0 = limlz_crc32 bytes" by (rule read32_bytes32) (simp add: f nth_append l4)
  moreover have "limlz_read32 f 4 = of_nat (length bytes)" by (rule read32_bytes32) (simp add: f nth_append l4)
  moreover have "unat (of_nat (length bytes) :: u32) = length bytes" using assms(1) by (simp only: unat_of_nat) simp
  moreover have "drop 8 f = s" "13 \<le> length f" using s(2) by (simp_all add: f l4)
  ultimately show ?thesis using s(3) d assms(2) bcj_decode_encode [OF assms(1) d(1)] by (simp add: limlz_decompress_def)
qed

lemma compress_with_memory:
  assumes "length bytes < 2 ^ 32" "host_tables h" "\<forall>c. host_grow h c"
  shows "\<exists>f. compress h bytes = Some (Some f)"
proof -
  have g: "host_grow h = (\<lambda>_. True)" using assms(3) by auto
  let ?p = "put32 (\<lambda>_. True)"
  define rc where "rc = ?p (of_nat (length bytes)) (?p (limlz_crc32 bytes) (encoder_init zero_encoder))"
  have z: "\<not> rc_error (encoder_init zero_encoder) \<and> length (rc_data (encoder_init zero_encoder)) = 0" by (simp add: encoder_init_def zero_encoder_def)
  have p: "\<not> rc_error (?p v q) \<and> length (rc_data (?p v q)) = length (rc_data q) + 4 \<and> pending (?p v q) = pending q" if "\<not> rc_error q" "length (rc_data q) < 100" for v q
  proof -
    have "\<not> rc_error (?p v q)" unfolding put32_def using that by (intro put_bytes_grow) simp_all
    moreover have "pending (?p v q) = pending q" by (simp add: put32_def)
    ultimately show ?thesis using put32_data [of "\<lambda>_. True" v q] by (simp add: bytes32_def)
  qed
  have rc: "\<not> rc_error rc" "filled rc = 9"
    using p [of "encoder_init zero_encoder" "limlz_crc32 bytes"] p [of "?p (limlz_crc32 bytes) (encoder_init zero_encoder)" "of_nat (length bytes)"] z
    by (simp_all add: rc_def filled_def encoder_init_def)
  obtain d where d: "bcj_encode bytes = Some d" "length d = length bytes" using bcj_encode_returns [OF assms(1)] by blast
  let ?ds = "decisions_from d (chosen h d) 0 [1, 1, 1, 1] 0"
  have "small (64 * (length d - 0)) LIMLZ_PROBS ?ds" using assms(1) d(2) by (intro small_decisions chosen_ok) simp_all
  then have n: "length ?ds \<le> 64 * 2 ^ 32" using assms(1) d(2) by (simp add: small_def)
  have l: "compress_loop (\<lambda>_. True) d (chosen h d) 0 [1, 1, 1, 1] 0 rc = encode_all (\<lambda>_. True) ?ds rc"
    using rc n by (intro compress_loop_grows) simp_all
  have "\<not> rc_error (encode_all (\<lambda>_. True) ?ds rc) \<and> filled (encode_all (\<lambda>_. True) ?ds rc) \<le> filled rc + length ?ds"
    using rc n by (intro encode_all_grows) simp_all
  then have "\<not> rc_error (flush (\<lambda>_. True) (compress_loop (\<lambda>_. True) d (chosen h d) 0 [1, 1, 1, 1] 0 rc))"
    unfolding l using rc n by (intro flush_grows) simp_all
  then show ?thesis using assms(1,2) d(1) by (simp add: compress_def Let_def g rc_def [symmetric])
qed

text \<open>Every decision that the loop hands to the encoder, also before a failure, is of the range that the table has.\<close>

lemma compress_loop_in_range:
  assumes "\<And>p. p < length d \<Longrightarrow> choice_ok d p (choices p)" "length d \<le> 2 ^ 32"
  shows "1 \<le> reps ! 0 \<Longrightarrow> state < 12 \<Longrightarrow>
    \<exists>ds. compress_loop grow d choices state reps pos rc = encode_all grow ds rc \<and> (\<forall>dc \<in> set ds. \<forall>i. decision_kind dc = Some i \<longrightarrow> i < LIMLZ_PROBS)"
proof (induction "length d - pos" arbitrary: pos state reps rc rule: less_induct)
  case less
  show ?case
  proof (cases "pos < length d \<and> \<not> rc_error rc")
    case True
    define t where "t = choose_token d (choices pos) reps pos"
    let ?td = "token_decisions d pos state reps t"
    note ok = assms(1) [OF True [THEN conjunct1]]
    have l: "0 < token_length t" using choose_token_pos by (simp add: t_def)
    have "\<exists>ds. compress_loop grow d choices (next_state state t) (next_reps t reps) (pos + token_length t) (encode_all grow ?td rc) = encode_all grow ds (encode_all grow ?td rc) \<and>
        (\<forall>dc \<in> set ds. \<forall>i. decision_kind dc = Some i \<longrightarrow> i < LIMLZ_PROBS)"
      using l True [THEN conjunct1] next_reps_pos [OF ok less.prems(1)] next_state_bound [OF less.prems(2)] by (intro less.hyps) (simp_all add: t_def)
    then obtain ds where ds: "compress_loop grow d choices (next_state state t) (next_reps t reps) (pos + token_length t) (encode_all grow ?td rc) = encode_all grow ds (encode_all grow ?td rc)"
        "\<forall>dc \<in> set ds. \<forall>i. decision_kind dc = Some i \<longrightarrow> i < LIMLZ_PROBS" by blast
    have "compress_loop grow d choices state reps pos rc = encode_all grow (?td @ ds) rc"
      using True ds(1) by (subst compress_loop.simps) (simp add: Let_def encode_all_def flip: t_def)
    moreover have "\<forall>dc \<in> set ?td. \<forall>i. decision_kind dc = Some i \<longrightarrow> i < LIMLZ_PROBS"
      using small_token [OF ok True [THEN conjunct1] less.prems(1) assms(2) less.prems(2)] by (simp add: small_def t_def)
    ultimately show ?thesis using ds(2) by (intro exI [of _ "?td @ ds"]) auto
  next
    case False
    then show ?thesis by (intro exI [of _ "[]"]) (subst compress_loop.simps, auto simp: encode_all_def)
  qed
qed

section \<open>Results\<close>

definition sample_host :: host where
  "sample_host = \<lparr>host_grow = (\<lambda>_. True), host_tables = True, fresh_previous = (\<lambda>_. 7), fresh_cost = (\<lambda>_. 3), fresh_choices = (\<lambda>_. (5, 5))\<rparr>"

text \<open>Property C16: whatever the packer writes, the reader of the boot loader restores from it the bytes that were packed, provided they fit below the reader: the checksum in
  the header fits, the sizes fit, and the stream is used up exactly.\<close>

theorem compress_roundtrip:
  assumes "length bytes < 2 ^ 32" "length bytes \<le> capacity" "compress h bytes = Some (Some f)"
  shows "limlz_decompress capacity f = Some bytes"
  using assms by (rule compress_restores)

theorem compress_roundtrip_witness:
  "\<exists>f. compress sample_host [0xE8, 1, 2, 3, 0, 0xE8, 1, 2, 3, 0, 7] = Some (Some f) \<and>
     limlz_decompress 100 f = Some [0xE8, 1, 2, 3, 0, 0xE8, 1, 2, 3, 0, 7]"
proof -
  let ?b = "[0xE8, 1, 2, 3, 0, 0xE8, 1, 2, 3, 0, 7] :: u8 list"
  obtain f where "compress sample_host ?b = Some (Some f)" using compress_with_memory [of ?b sample_host] by (auto simp: sample_host_def)
  then show ?thesis using compress_roundtrip [of ?b 100 sample_host f] by simp
qed

text \<open>Property C17: the packer always returns, for the unbounded loop in its filter ends after at most two rounds; it fails only for want of memory.\<close>

theorem compress_succeeds:
  assumes "length bytes < 2 ^ 32"
  shows "compress h bytes \<noteq> None \<and> (host_tables h \<and> (\<forall>c. host_grow h c) \<longrightarrow> (\<exists>f. compress h bytes = Some (Some f)))"
  using bcj_encode_returns [OF assms] compress_with_memory [OF assms, of h] by (auto simp: compress_def Let_def)

theorem compress_succeeds_witness:
  "compress sample_host [0xE9, 0xE9, 0, 0, 255, 0, 9] \<noteq> None \<and> (\<exists>f. compress sample_host [0xE9, 0xE9, 0, 0, 255, 0, 9] = Some (Some f))"
  using compress_succeeds [of "[0xE9, 0xE9, 0, 0, 255, 0, 9]" sample_host] by (simp add: sample_host_def)

text \<open>Property C31: whatever the data and the fresh arrays hold, every bit that the packer encodes with a probability, also before an encoder failure, uses an entry of the
  table of 4918 probabilities, so \<open>encode_bit\<close> reads and writes inside \<open>probs\<close>.\<close>

theorem compress_indices:
  assumes "length d < 2 ^ 32"
  shows "\<exists>ds. compress_loop grow d (chosen h d) 0 [1, 1, 1, 1] 0 rc = encode_all grow ds rc \<and> (\<forall>dc \<in> set ds. \<forall>i. decision_kind dc = Some i \<longrightarrow> i < LIMLZ_PROBS)"
  using assms by (intro compress_loop_in_range chosen_ok) simp_all

theorem compress_indices_witness:
  "\<exists>ds. compress_loop (\<lambda>c. c < 5000) [1, 2, 1, 2] (chosen sample_host [1, 2, 1, 2]) 0 [1, 1, 1, 1] 0 zero_encoder = encode_all (\<lambda>c. c < 5000) ds zero_encoder \<and>
     (\<forall>dc \<in> set ds. \<forall>i. decision_kind dc = Some i \<longrightarrow> i < LIMLZ_PROBS)"
  using compress_indices [of "[1, 2, 1, 2]" "\<lambda>c. c < 5000" sample_host zero_encoder] by simp

end
