(* ===== verification/Spec2Isabelle.thy ===== *)
theory Spec2Isabelle
  imports Boot FatTool LoaderAlloc Blake2b LoaderTime LoaderDisk LimlzRound
begin

text \<open>
  A verification development for dej, an x86-64 kernel, its FAT image tool and the parts of the
  boot loader on whose answers the kernel depends.

  \<^bold>\<open>The program and its parts.\<close> The boot loader hands a memory map, a frame buffer, the list of processors and
  the root pointer of the ACPI tables to \<open>kentry\<close> (\<^verbatim>\<open>src/src/kernel/entry.c\<close>). The kernel registers the usable pages
  (\<^verbatim>\<open>memory/memory.c\<close>), sets up the per-CPU data, the task state segments, the interrupt table and the levels, builds
  its own page tables with a window on the PCI configuration space, starts the other processors, loads its drivers, reads the ACPI
  tables and scans the bus, and finally builds an address space for the user program and jumps into it. The boot
  processor ends as a watchdog over the others. Everything logs through one serial port under a spin lock, and
  \<open>panic\<close> ends everything. The library is laid out in this order; each theory imports the components it calls.

  \<^bold>\<open>Kernel theories\<close> (paths below \<^verbatim>\<open>src/src/kernel\<close>):
  \<^item> \<open>Prelude\<close>: C integers as words, byte-addressed little-endian memory, the outcome type of a routine
    (a value, a panic, a halt, or no return at all), and the shared lemmas.
  \<^item> \<open>CString\<close>: \<^verbatim>\<open>include/dej/string.c\<close>. Loops over strings are partial functions, so the results state that
    they return; \<open>memmove\<close>, \<open>strcmp\<close> and the copies are proved correct, \<open>strncpy\<close> is proved to run for ever on short sources.
  \<^item> \<open>Machine\<close>: registers, model-specific registers, ports and the per-CPU variables (\<^verbatim>\<open>arch/x86\<close>, \<^verbatim>\<open>include/dej/percpu.h\<close>).
  \<^item> \<open>Locks\<close>: \<^verbatim>\<open>include/dej/kernel.c\<close>, once as routines that satisfy the locale \<open>lock_contract\<close>, once as an interleaving
    of any number of processors as a step relation; mutual exclusion by rule induction over the reachable states.
  \<^item> \<open>Logging\<close>: \<^verbatim>\<open>include/dej/log.c\<close>, the formatter, compared with a description of formats as plain characters and conversions, and its
    delivery to the serial port.
  \<^item> \<open>PageAlloc\<close> and \<open>PageTable\<close>: \<^verbatim>\<open>memory/memory.c\<close>. The allocator satisfies the locale \<open>frame_allocator\<close> in its raw and
    in its kernel form; page tables are memory, and \<open>map_page\<close> is specified by the translation that a walk of the tables gives.
  \<^item> \<open>Percpu\<close>, \<open>Tss\<close>, \<open>Sil\<close>, \<open>Interrupts\<close>, \<open>Nmi\<close>: per-CPU pages, task state segments and their descriptors, interrupt
    levels (locale \<open>level_discipline\<close>), the interrupt table and its handlers, the machine check handler.
  \<^item> \<open>Screen\<close>, \<open>Watchdog\<close>: frame buffer, panic and reset; the watchdog.
  \<^item> \<open>Drivers\<close>, \<open>AcpiTables\<close>, \<open>Pci\<close>, \<open>Acpi\<close>: the driver registry (locale \<open>pci_driver\<close>, satisfied by the AHCI and the audio driver),
    table layouts and checksums, the bus scan, the table search.
  \<^item> \<open>Errno\<close>, \<open>Hda\<close>, \<open>Keyboard\<close>: error numbers, the audio controller, the keyboard decoder. Device registers are streams of
    answers, so a wait that the device may keep waiting is an outcome without a return.
  \<^item> \<open>UserSpace\<close>, \<open>Boot\<close>: the user address space and the entry into it; \<open>kentry\<close>, the start of the other processors, \<open>kmain\<close>,
    the temperature processor.

  \<^bold>\<open>Tool and boot loader\<close>:
  \<^item> \<open>FatTool\<close>: \<^verbatim>\<open>src/tools/fat/fat.c\<close> from the command line to the printed bytes. The file system and the contents of fresh
    memory are arguments; an access outside a buffer is the outcome \<open>Undefined\<close>, an endless cluster chain is \<open>None\<close>.
  \<^item> \<open>LoaderMap\<close>: the memory map of the boot loader, \<^verbatim>\<open>src/limine/common/mm/pmm.s2.c\<close>. The passes of \<open>pmm_sanitise_entries\<close>
    are specified by the sets of usable and of claimed addresses.
  \<^item> \<open>LoaderAlloc\<close>: allocation in this map; both allocators satisfy the locale \<open>range_allocator\<close>, and a step relation of all
    operations keeps the map's invariant, whatever map the BIOS reports.
  \<^item> \<open>Blake2b\<close>: \<^verbatim>\<open>src/limine/common/crypt/blake2b.c\<close>; the buffered state refines a list of pending bytes, the hash is that of a
    reference description without buffer, and the file filter checks the whole file.
  \<^item> \<open>LoaderText\<close>, \<open>LoaderTime\<close>: \<^verbatim>\<open>lib/misc.c\<close>, \<^verbatim>\<open>lib/misc.s2.c\<close>, \<^verbatim>\<open>lib/libc.s2.c\<close>, \<^verbatim>\<open>lib/guid.c\<close> and \<^verbatim>\<open>lib/time.c\<close> below
    \<^verbatim>\<open>src/limine/common\<close>: numbers, addresses, comparisons and GUIDs in texts, with the round trip of a printed GUID; the integer square root and the
    calendar, compared with a count of the days year by year.
  \<^item> \<open>LoaderVolume\<close>, \<open>LoaderGpt\<close>, \<open>LoaderMbr\<close>, \<open>LoaderDisk\<close>: \<^verbatim>\<open>lib/part.s2.c\<close> and the BIOS half of \<^verbatim>\<open>drivers/disk.s2.c\<close>. A read through the block
    cache refines a read of the disk; a GUID partition table that is accepted, also one that is remembered, has the checksums and the place that the UEFI
    specification asks for; the checksum is the remainder of a polynomial division; partitions of both kinds of tables lie on their device; and building the index of
    all drives, which takes its memory from the allocators of \<open>LoaderAlloc\<close>, ends with an index or a panic whatever firmware, tables and allocators answer.
    The memory for the block cache and the transfer buffer of a read is taken as given, and the probes for a file system are arguments.
    The routines are functions from the volume and the static variables to a panic message or a result; \<open>runs\<close> states that a routine
    started under an invariant returns under it with a result of a given kind, and its rules follow the composition of the routines.
  \<^item> \<open>Limlz\<close>, \<open>LimlzCoder\<close>, \<open>LimlzPack\<close>: the packer of the loader's second stage, \<^verbatim>\<open>src/limine/tools/limlzpack.c\<close>: checksum, match finder and
    parse; the range encoder, whose delayed carries are justified over unbounded numbers; the branch filter and \<open>compress\<close>. A model of lengths, distances or
    literals yields a list of decisions, which the encoder takes in order.
  \<^item> \<open>LimlzFilter\<close>, \<open>LimlzUnpack\<close>, \<open>LimlzRound\<close>: what \<^verbatim>\<open>src/limine/stage1/decompressor.asm\<close> computes from a packed file, and the round trip: the packer returns on all
    data, fails only for want of memory, stays inside its table of probabilities, and the decompressor restores the bytes. The loop of the reader over tokens is bounded by the size of the
    output, for every token adds a byte; the inner loop of the filter is a partial function and is proved to end after two rounds.

  \<^bold>\<open>State and effects.\<close> The state of the kernel is one extensible record that each theory extends with the static variables
  of its files; a routine is a function from the state to an outcome and the new state, composed by \<open>bind\<close> and
  \<open>seq\<close> in the order of the source. Log lines are recorded as calls where only their order matters and are rendered
  byte by byte in \<open>Logging\<close>. Integers keep their C width; wrap-around and truncation are those of the words.

  \<^bold>\<open>Loops.\<close> Bounded loops are recursive functions with a termination proof. A loop that can run for ever is a
  partial function in the option monad, and the results about it say that it returns, or that it does not. The rounds of
  processors that never stop by design, the watchdog and the temperature loop, take the number of rounds as an argument; the results hold for every number.

  \<^bold>\<open>Results that span components.\<close> Every configuration page the bus scan reads is mapped by \<open>virtual_memory_init\<close>
  (\<open>Pci\<close>), the user tables share the kernel half built at boot (\<open>UserSpace\<close>), the per-CPU page of an application processor uses
  allocator, string library and task state segments together (\<open>Boot\<close>). Defects of the source are proved as theorems
  as well, each next to the definition it concerns: the page count of a region, the lock left held by a failed allocation, the
  endless \<open>strncpy\<close>, stale base addresses offered to drivers, the unmapped user stack pointer, the overrun buffer of the FAT tool.

  \<^bold>\<open>Not modelled.\<close> The other assembly files (interrupt stubs, descriptor loads, the user entry): their effect is described where C code calls
  them. The unfinished ARM port, the empty NVMe stub and the halting recovery entry hold no logic. The rest of the
  vendored boot loader (menu, boot protocols, file systems, other firmware drivers, UEFI build) is third-party code that the kernel meets only
  through its responses. Timing, caches and the weak ordering of memory between processors are outside the model; the
  interleaving model of the lock takes each atomic instruction as one step.
\<close>

end
